(* ===== verification/Prelude.thy ===== *)
theory Prelude
  imports Main "HOL-Library.Word" "HOL-Library.Char_ord"
begin

section \<open>Prelude: bytes, memory, errors\<close>

text \<open>
  What the components of the development share: bytes as \<^typ>\<open>char\<close>, the failures that a C
  function of this repository can run into, the allocator as a parameter, bounds-checked
  reads and writes of a block, the decimal representation of numbers, and the generic lemmas
  on lists that carry the component proofs.
\<close>

subsection \<open>Failures\<close>

text \<open>
  A NULL returned because the allocator refused a request is \<open>OutOfMemory\<close>; an access
  outside a live block (undefined behaviour in C) is \<open>OutOfBounds\<close>, a failed \<open>assert\<close> is
  \<open>AssertFailed\<close>, a variadic argument read at a type other than the one passed is
  \<open>BadVarArg\<close>, a recursion that no stack could hold is \<open>StackOverflow\<close>. A property that a result is never \<open>Inl OutOfBounds\<close> is memory safety.
\<close>

datatype mem_error = OutOfMemory | OutOfBounds | AssertFailed | BadVarArg | StackOverflow

type_synonym 'a res = "mem_error + 'a"

fun bindE :: "'e + 'a \<Rightarrow> ('a \<Rightarrow> 'e + 'b) \<Rightarrow> 'e + 'b" where
  "bindE (Inl e) f = Inl e"
| "bindE (Inr x) f = f x"

lemma bindE_cong [fundef_cong]:
  "m = m' \<Longrightarrow> (\<And>x. m' = Inr x \<Longrightarrow> f x = g x) \<Longrightarrow> bindE m f = bindE m' g"
  by (cases m') auto

lemma bindE_Inr_iff: "bindE m f = Inr y \<longleftrightarrow> (\<exists>x. m = Inr x \<and> f x = Inr y)"
  by (cases m) auto

lemma bindE_Inl_iff: "bindE m f = Inl e \<longleftrightarrow> m = Inl e \<or> (\<exists>x. m = Inr x \<and> f x = Inl e)"
  by (cases m) auto

lemma bindE_InrE:
  assumes "bindE m f = Inr y"
  obtains x where "m = Inr x" and "f x = Inr y"
  using assms by (cases m) auto

subsection \<open>Machine integers\<close>

text \<open>\<open>size_t\<close> is 64 bits wide, \<open>int\<close> 32 and \<open>long long\<close> 64 in two's complement.\<close>

definition wrap64 :: "nat \<Rightarrow> nat" where
  "wrap64 n = n mod 2 ^ 64"

definition to_int32 :: "int \<Rightarrow> int" where
  "to_int32 i = (i + 2 ^ 31) mod 2 ^ 32 - 2 ^ 31"

definition to_int64 :: "int \<Rightarrow> int" where
  "to_int64 i = (i + 2 ^ 63) mod 2 ^ 64 - 2 ^ 63"

definition sub64 :: "nat \<Rightarrow> nat \<Rightarrow> nat" where
  \<comment> \<open>subtraction of two \<open>size_t\<close>\<close>
  "sub64 a b = nat ((int a - int b) mod 2 ^ 64)"

lemma sub64_id: "b \<le> a \<Longrightarrow> a < 2 ^ 64 \<Longrightarrow> sub64 a b = a - b"
  by (simp add: sub64_def)

lemma wrap64_id [simp]: "n < 2 ^ 64 \<Longrightarrow> wrap64 n = n"
  by (simp add: wrap64_def)

lemma to_int32_id: "- (2 ^ 31) \<le> i \<Longrightarrow> i < 2 ^ 31 \<Longrightarrow> to_int32 i = i"
  by (simp add: to_int32_def)

lemma to_int64_id: "- (2 ^ 63) \<le> i \<Longrightarrow> i < 2 ^ 63 \<Longrightarrow> to_int64 i = i"
  by (simp add: to_int64_def)

lemma to_int32_range: "- (2 ^ 31) \<le> to_int32 x \<and> to_int32 x < 2 ^ 31"
  unfolding to_int32_def using pos_mod_bound [of "2 ^ 32" "x + 2 ^ 31"] pos_mod_sign [of "2 ^ 32" "x + 2 ^ 31"]
  by simp

lemma to_int64_range: "- (2 ^ 63) \<le> to_int64 x \<and> to_int64 x < 2 ^ 63"
  unfolding to_int64_def using pos_mod_bound [of "2 ^ 64" "x + 2 ^ 63"] pos_mod_sign [of "2 ^ 64" "x + 2 ^ 63"]
  by simp

lemma to_int32_le: "- (2 ^ 31) \<le> x \<Longrightarrow> to_int32 x \<le> x"
  unfolding to_int32_def using zmod_le_nonneg_dividend [of "x + 2 ^ 31" "2 ^ 32"] by simp

subsection \<open>The allocator\<close>

text \<open>
  The allocator is a parameter: it grants or refuses a request of \<open>n\<close> bytes, and what it
  grants has arbitrary contents. \<open>realloc\<close> keeps the old contents as far as they fit.
\<close>

type_synonym allocator = "nat \<Rightarrow> (nat \<Rightarrow> char) option"

definition malloc :: "allocator \<Rightarrow> nat \<Rightarrow> char list res" where
  "malloc mal n = (case mal n of None \<Rightarrow> Inl OutOfMemory | Some f \<Rightarrow> Inr (map f [0..<n]))"

definition realloc_tail :: "allocator \<Rightarrow> nat \<Rightarrow> char list \<Rightarrow> nat \<Rightarrow> char list res" where
  \<comment> \<open>\<open>realloc\<close> to \<open>n\<close> bytes of a block made of a header of \<open>hdr\<close> bytes and \<open>buf\<close>: the bytes
     after the header\<close>
  "realloc_tail mal hdr buf n =
     (case mal n of None \<Rightarrow> Inl OutOfMemory
      | Some f \<Rightarrow> Inr (take (n - hdr) buf @ map f [hdr + length buf..<n]))"

definition grants_all :: "allocator \<Rightarrow> bool" where
  "grants_all mal \<longleftrightarrow> (\<forall>n. mal n \<noteq> None)"

definition zero_alloc :: allocator where
  "zero_alloc n = Some (\<lambda>_. CHR 0x00)"

lemma grants_all_zero_alloc [simp]: "grants_all zero_alloc"
  by (simp add: grants_all_def zero_alloc_def)

lemma malloc_length: "malloc mal n = Inr b \<Longrightarrow> length b = n"
  by (auto simp: malloc_def split: option.splits)

lemma malloc_Inl: "malloc mal n = Inl e \<Longrightarrow> e = OutOfMemory"
  by (auto simp: malloc_def split: option.splits)

lemma realloc_tail_length: "realloc_tail mal hdr buf n = Inr b \<Longrightarrow> hdr \<le> n \<Longrightarrow> length b = n - hdr"
  by (auto simp: realloc_tail_def split: option.splits)

lemma realloc_tail_Inl: "realloc_tail mal hdr buf n = Inl e \<Longrightarrow> e = OutOfMemory"
  by (auto simp: realloc_tail_def split: option.splits)

lemma realloc_tail_take:
  "realloc_tail mal hdr buf n = Inr b \<Longrightarrow> k \<le> length buf \<Longrightarrow> k \<le> n - hdr \<Longrightarrow> take k b = take k buf"
  by (auto simp: realloc_tail_def split: option.splits)

subsection \<open>Blocks of memory\<close>

text \<open>
  \<open>poke\<close> is a store (or \<open>memcpy\<close>, \<open>memmove\<close>, \<open>memset\<close>) of the bytes \<open>xs\<close> at an offset;
  \<open>peek\<close> is a load. Both fail outside the block.
\<close>

definition poke :: "char list \<Rightarrow> nat \<Rightarrow> char list \<Rightarrow> char list res" where
  "poke buf off xs =
     (if off + length xs \<le> length buf
      then Inr (take off buf @ xs @ drop (off + length xs) buf) else Inl OutOfBounds)"

definition peek :: "char list \<Rightarrow> nat \<Rightarrow> char res" where
  "peek buf i = (if i < length buf then Inr (buf ! i) else Inl OutOfBounds)"

definition peekn :: "char list \<Rightarrow> nat \<Rightarrow> nat \<Rightarrow> char list res" where
  \<comment> \<open>the \<open>n\<close> bytes at offset \<open>off\<close>, as \<open>memcpy\<close> reads them\<close>
  "peekn buf off n = (if off + n \<le> length buf then Inr (take n (drop off buf)) else Inl OutOfBounds)"

definition memcpy :: "char list \<Rightarrow> nat \<Rightarrow> char list \<Rightarrow> nat \<Rightarrow> char list res" where
  "memcpy buf off src n = bindE (peekn src 0 n) (poke buf off)"

lemma poke_length: "poke buf off xs = Inr b \<Longrightarrow> length b = length buf"
  by (auto simp: poke_def split: if_splits)

lemma poke_Inr: "off + length xs \<le> length buf \<Longrightarrow>
    poke buf off xs = Inr (take off buf @ xs @ drop (off + length xs) buf)"
  by (simp add: poke_def)

lemma peek_Inr [simp]: "i < length buf \<Longrightarrow> peek buf i = Inr (buf ! i)"
  by (simp add: peek_def)

lemma peekn_Inr: "off + n \<le> length buf \<Longrightarrow> peekn buf off n = Inr (take n (drop off buf))"
  by (simp add: peekn_def)

lemma memcpy_Inr: "n \<le> length src \<Longrightarrow> off + n \<le> length buf \<Longrightarrow>
    memcpy buf off src n = Inr (take off buf @ take n src @ drop (off + n) buf)"
  by (simp add: memcpy_def peekn_def poke_def)

subsection \<open>Outcomes of operations that allocate\<close>

text \<open>
  \<open>res_ok mal P r\<close>: the operation returned a value that satisfies \<open>P\<close>, or it returned NULL
  because the allocator refused a request, which an allocator that grants everything never
  does. In particular it neither left its blocks nor failed an assertion. The rules below
  follow the structure of the code, one per construct.
\<close>

definition res_ok :: "allocator \<Rightarrow> ('a \<Rightarrow> bool) \<Rightarrow> 'a res \<Rightarrow> bool" where
  "res_ok mal P r \<longleftrightarrow>
     (case r of Inr x \<Rightarrow> P x | Inl e \<Rightarrow> e = OutOfMemory \<and> \<not> grants_all mal)"

lemma res_ok_Inr [simp]: "res_ok mal P (Inr x) \<longleftrightarrow> P x"
  by (simp add: res_ok_def)

lemma res_ok_Inl [simp]: "res_ok mal P (Inl e) \<longleftrightarrow> e = OutOfMemory \<and> \<not> grants_all mal"
  by (simp add: res_ok_def)

lemma res_ok_bindE:
  "res_ok mal P m \<Longrightarrow> (\<And>x. P x \<Longrightarrow> m = Inr x \<Longrightarrow> res_ok mal Q (f x)) \<Longrightarrow>
   res_ok mal Q (bindE m f)"
  by (cases m) auto

lemma res_ok_mono: "res_ok mal P r \<Longrightarrow> (\<And>x. P x \<Longrightarrow> Q x) \<Longrightarrow> res_ok mal Q r"
  by (cases r) auto

lemma res_ok_malloc: "res_ok mal (\<lambda>b. length b = n) (malloc mal n)"
  by (auto simp: malloc_def grants_all_def split: option.split)

lemma res_ok_realloc_tail:
  "hdr \<le> n \<Longrightarrow>
   res_ok mal (\<lambda>b. length b = n - hdr \<and>
      (\<forall>k. k \<le> length buf \<longrightarrow> k \<le> n - hdr \<longrightarrow> take k b = take k buf))
     (realloc_tail mal hdr buf n)"
  by (auto simp: realloc_tail_def grants_all_def split: option.split)

lemma res_ok_InrD: "res_ok mal P r \<Longrightarrow> r = Inr x \<Longrightarrow> P x"
  by simp

lemma res_ok_total: "res_ok mal P r \<Longrightarrow> grants_all mal \<Longrightarrow> \<exists>x. r = Inr x \<and> P x"
  by (cases r) auto

subsection \<open>C strings\<close>

text \<open>
  A NUL-terminated string argument is the list of the bytes its pointer points to, without
  the terminator that ends it; \<open>cstring\<close> is what \<open>strlen\<close> and \<open>%s\<close> see of it.
\<close>

abbreviation NUL :: char where
  "NUL \<equiv> CHR 0x00"

definition cstring :: "char list \<Rightarrow> char list" where
  "cstring t = takeWhile (\<lambda>c. c \<noteq> NUL) t"

definition strlen_blk :: "char list \<Rightarrow> nat res" where
  \<comment> \<open>\<open>strlen\<close> on a block: reads up to the first NUL and past the end if there is none\<close>
  "strlen_blk buf = (if NUL \<in> set buf then Inr (length (cstring buf)) else Inl OutOfBounds)"

lemma cstring_id: "NUL \<notin> set t \<Longrightarrow> cstring t = t"
  unfolding cstring_def by (rule takeWhile_eq_all_conv [THEN iffD2]) auto

lemma NUL_notin_cstring [simp]: "NUL \<notin> set (cstring t)"
  by (auto simp: cstring_def dest: set_takeWhileD)

lemma cstring_idem [simp]: "cstring (cstring t) = cstring t"
  by (rule cstring_id) simp

lemma cstring_Nil [simp]: "cstring [] = []"
  by (simp add: cstring_def)

subsection \<open>Decimal numbers\<close>

text \<open>
  The reference for every place of the code that prints or reads a number: \<open>decimal\<close> is the
  representation with the most significant digit first and no leading zero.
\<close>

definition digit_char :: "nat \<Rightarrow> char" where
  "digit_char d = char_of (48 + d)"

definition is_digit :: "char \<Rightarrow> bool" where
  "is_digit c \<longleftrightarrow> 48 \<le> (of_char c :: nat) \<and> (of_char c :: nat) < 58"

definition digit_val :: "char \<Rightarrow> nat" where
  "digit_val c = of_char c - 48"

fun decimal :: "nat \<Rightarrow> char list" where
  "decimal n = (if n < 10 then [digit_char n] else decimal (n div 10) @ [digit_char (n mod 10)])"

declare decimal.simps [simp del]

definition signed_decimal :: "int \<Rightarrow> char list" where
  "signed_decimal i = (if i < 0 then CHR ''-'' # decimal (nat (- i)) else decimal (nat i))"

definition dec_val :: "char list \<Rightarrow> nat" where
  "dec_val ds = foldl (\<lambda>v c. 10 * v + digit_val c) 0 ds"

lemma is_digit_digit_char [simp]: "d < 10 \<Longrightarrow> is_digit (digit_char d)"
  by (simp add: is_digit_def digit_char_def of_char_of)

lemma digit_val_digit_char [simp]: "d < 10 \<Longrightarrow> digit_val (digit_char d) = d"
  by (simp add: digit_val_def digit_char_def of_char_of)

lemma of_char_digit_char [simp]: "d < 10 \<Longrightarrow> (of_char (digit_char d) :: nat) = 48 + d"
  by (simp add: digit_char_def of_char_of)

lemma decimal_digits: "c \<in> set (decimal n) \<Longrightarrow> is_digit c"
  by (induction n rule: decimal.induct) (subst (asm) (2) decimal.simps, auto split: if_splits)

lemma decimal_nonempty [simp]: "decimal n \<noteq> []"
  by (subst decimal.simps) simp

lemma dec_val_decimal [simp]: "dec_val (decimal n) = n"
proof (induction n rule: decimal.induct)
  case (1 n)
  then show ?case
    by (cases "n < 10") (subst decimal.simps, simp add: dec_val_def)+
qed

lemma decimal_inj: "decimal m = decimal n \<longleftrightarrow> m = n"
  by (metis dec_val_decimal)

lemma length_decimal_le: "n < 10 ^ k \<Longrightarrow> 0 < k \<Longrightarrow> length (decimal n) \<le> k"
proof (induction k arbitrary: n)
  case (Suc k)
  show ?case
  proof (cases "n < 10")
    case True
    then show ?thesis by (subst decimal.simps) simp
  next
    case False
    with Suc.prems have "0 < k" by (cases k) auto
    moreover have "n div 10 < 10 ^ k" using Suc.prems by (simp add: less_mult_imp_div_less mult.commute)
    ultimately show ?thesis using Suc.IH False by (subst decimal.simps) simp
  qed
qed simp

lemma decimal_no_special:
  "c \<in> set (decimal n) \<Longrightarrow> \<not> is_digit d \<Longrightarrow> c \<noteq> d"
  using decimal_digits by blast

end
