(* ===== verification/Sds.thy ===== *)
theory Sds
  imports Prelude
begin

section \<open>sds: dynamic strings with a typed header (hiredis/sds.c, hiredis/sds.h)\<close>

text \<open>
  An \<open>sds\<close> is a pointer into a block: a header of one of five types before it and the bytes
  after it. The model keeps the header fields and the bytes from the pointer to the end of
  the block; the fields are stored at the width of the header type, as the code stores them.
  Every operation that allocates takes the allocator and returns \<open>Inl OutOfMemory\<close> where the
  code returns NULL; every store is checked against the block.
\<close>

subsection \<open>Header types\<close>

datatype sds_type = SDS_TYPE_5 | SDS_TYPE_8 | SDS_TYPE_16 | SDS_TYPE_32 | SDS_TYPE_64

record sdshdr =
  htype :: sds_type
  hlen :: nat
  halloc :: nat
  hbuf :: "char list"

definition SDS_MAX_PREALLOC :: nat where
  "SDS_MAX_PREALLOC = 1024 * 1024"

fun sds_width :: "sds_type \<Rightarrow> nat" where
  "sds_width SDS_TYPE_5 = 5"
| "sds_width SDS_TYPE_8 = 8"
| "sds_width SDS_TYPE_16 = 16"
| "sds_width SDS_TYPE_32 = 32"
| "sds_width SDS_TYPE_64 = 64"

fun sdsHdrSize :: "sds_type \<Rightarrow> nat" where
  "sdsHdrSize SDS_TYPE_5 = 1"
| "sdsHdrSize SDS_TYPE_8 = 3"
| "sdsHdrSize SDS_TYPE_16 = 5"
| "sdsHdrSize SDS_TYPE_32 = 9"
| "sdsHdrSize SDS_TYPE_64 = 17"

definition sdsReqType :: "nat \<Rightarrow> sds_type" where
  "sdsReqType string_size =
     (if string_size < 32 then SDS_TYPE_5
      else if string_size < 0xff then SDS_TYPE_8
      else if string_size < 0xffff then SDS_TYPE_16
      else if string_size < 0xffffffff then SDS_TYPE_32
      else SDS_TYPE_64)"

subsection \<open>Header access (sds.h)\<close>

definition sdslen :: "sdshdr \<Rightarrow> nat" where
  "sdslen s = hlen s"

definition sdsavail :: "sdshdr \<Rightarrow> nat" where
  "sdsavail s =
     (case htype s of
        SDS_TYPE_5 \<Rightarrow> 0
      | SDS_TYPE_8 \<Rightarrow> nat ((int (halloc s) - int (hlen s)) mod 2 ^ 64)
      | SDS_TYPE_16 \<Rightarrow> nat ((int (halloc s) - int (hlen s)) mod 2 ^ 64)
      | SDS_TYPE_32 \<Rightarrow> nat ((int (halloc s) - int (hlen s)) mod 2 ^ 32)
      | SDS_TYPE_64 \<Rightarrow> nat ((int (halloc s) - int (hlen s)) mod 2 ^ 64))"

definition sdssetlen :: "sdshdr \<Rightarrow> nat \<Rightarrow> sdshdr" where
  "sdssetlen s newlen = s\<lparr>hlen := newlen mod 2 ^ sds_width (htype s)\<rparr>"

definition sdsinclen :: "sdshdr \<Rightarrow> nat \<Rightarrow> sdshdr" where
  "sdsinclen s inc = s\<lparr>hlen := (hlen s + inc) mod 2 ^ sds_width (htype s)\<rparr>"

definition sdsalloc :: "sdshdr \<Rightarrow> nat" where
  "sdsalloc s = (case htype s of SDS_TYPE_5 \<Rightarrow> hlen s | _ \<Rightarrow> halloc s)"

definition sdssetalloc :: "sdshdr \<Rightarrow> nat \<Rightarrow> sdshdr" where
  "sdssetalloc s newlen =
     (case htype s of SDS_TYPE_5 \<Rightarrow> s
      | _ \<Rightarrow> s\<lparr>halloc := newlen mod 2 ^ sds_width (htype s)\<rparr>)"

text \<open>Stores into the bytes of a string.\<close>

definition sds_poke :: "sdshdr \<Rightarrow> nat \<Rightarrow> char list \<Rightarrow> sdshdr res" where
  "sds_poke s off xs = bindE (poke (hbuf s) off xs) (\<lambda>b. Inr (s\<lparr>hbuf := b\<rparr>))"

definition sds_memcpy :: "sdshdr \<Rightarrow> nat \<Rightarrow> char list \<Rightarrow> nat \<Rightarrow> sdshdr res" where
  "sds_memcpy s off src n = bindE (peekn src 0 n) (sds_poke s off)"

subsection \<open>Creation\<close>

definition sdsnewlen :: "allocator \<Rightarrow> char list option \<Rightarrow> nat \<Rightarrow> sdshdr res" where
  "sdsnewlen mal init initlen =
     (let type = (if sdsReqType initlen = SDS_TYPE_5 \<and> initlen = 0 then SDS_TYPE_8
                  else sdsReqType initlen);
          hdrlen = sdsHdrSize type
      in bindE (malloc mal (wrap64 (hdrlen + initlen + 1))) (\<lambda>blk.
           let sh = (if init = None then replicate (length blk) NUL else blk);
               s = \<lparr>htype = type, hlen = initlen mod 2 ^ sds_width type,
                    halloc = initlen mod 2 ^ sds_width type, hbuf = drop hdrlen sh\<rparr>
           in bindE (case init of Some t \<Rightarrow> if initlen \<noteq> 0 then sds_memcpy s 0 t initlen else Inr s
                     | None \<Rightarrow> Inr s)
                (\<lambda>s. sds_poke s initlen [NUL])))"

definition sdsempty :: "allocator \<Rightarrow> sdshdr res" where
  "sdsempty mal = sdsnewlen mal (Some []) 0"

definition sdsnew :: "allocator \<Rightarrow> char list option \<Rightarrow> sdshdr res" where
  "sdsnew mal init =
     sdsnewlen mal init (case init of None \<Rightarrow> 0 | Some t \<Rightarrow> length (cstring t))"

definition sdsdup :: "allocator \<Rightarrow> sdshdr \<Rightarrow> sdshdr res" where
  "sdsdup mal s = sdsnewlen mal (Some (hbuf s)) (sdslen s)"

definition sdsupdatelen :: "sdshdr \<Rightarrow> sdshdr res" where
  \<comment> \<open>the length is kept in an \<open>int\<close> before it becomes a \<open>size_t\<close> again\<close>
  "sdsupdatelen s = bindE (strlen_blk (hbuf s)) (\<lambda>n. let reallen = to_int32 (int n) in Inr (sdssetlen s (nat (reallen mod 2 ^ 64))))"

definition sdsclear :: "sdshdr \<Rightarrow> sdshdr res" where
  "sdsclear s = sds_poke (sdssetlen s 0) 0 [NUL]"

subsection \<open>Growing and shrinking\<close>

definition sdsMakeRoomFor :: "allocator \<Rightarrow> sdshdr \<Rightarrow> nat \<Rightarrow> sdshdr res" where
  "sdsMakeRoomFor mal s addlen =
     (if sdsavail s \<ge> addlen then Inr s
      else
        let len = sdslen s;
            oldtype = htype s;
            newlen1 = wrap64 (len + addlen);
            newlen = (if newlen1 < SDS_MAX_PREALLOC then wrap64 (newlen1 * 2)
                      else wrap64 (newlen1 + SDS_MAX_PREALLOC));
            type = (if sdsReqType newlen = SDS_TYPE_5 then SDS_TYPE_8 else sdsReqType newlen);
            hdrlen = sdsHdrSize type
        in if oldtype = type then
             bindE (realloc_tail mal hdrlen (hbuf s) (wrap64 (hdrlen + newlen + 1)))
               (\<lambda>b. Inr (sdssetalloc (s\<lparr>hbuf := b\<rparr>) newlen))
           else
             bindE (malloc mal (wrap64 (hdrlen + newlen + 1))) (\<lambda>blk.
             bindE (memcpy (drop hdrlen blk) 0 (hbuf s) (len + 1)) (\<lambda>b.
             Inr (sdssetalloc (sdssetlen \<lparr>htype = type, hlen = 0, halloc = 0, hbuf = b\<rparr> len)
                    newlen))))"

definition sdsRemoveFreeSpace :: "allocator \<Rightarrow> sdshdr \<Rightarrow> sdshdr res" where
  "sdsRemoveFreeSpace mal s =
     (let len = sdslen s;
          oldtype = htype s;
          type = sdsReqType len;
          hdrlen = sdsHdrSize type
      in if oldtype = type then
           bindE (realloc_tail mal hdrlen (hbuf s) (wrap64 (hdrlen + len + 1)))
             (\<lambda>b. Inr (sdssetalloc (s\<lparr>hbuf := b\<rparr>) len))
         else
           bindE (malloc mal (wrap64 (hdrlen + len + 1))) (\<lambda>blk.
           bindE (memcpy (drop hdrlen blk) 0 (hbuf s) (len + 1)) (\<lambda>b.
           Inr (sdssetalloc (sdssetlen \<lparr>htype = type, hlen = 0, halloc = 0, hbuf = b\<rparr> len)
                  len))))"

definition sdsAllocSize :: "sdshdr \<Rightarrow> nat" where
  "sdsAllocSize s = wrap64 (sdsHdrSize (htype s) + sdsalloc s + 1)"

text \<open>
  The assertion of \<open>sdsIncrLen\<close>, header type by header type; \<open>incr\<close> is a C \<open>int\<close>. For type 5
  an increment of 0 fails the assertion, as written in the code.
\<close>

definition sdsIncrLen_ok :: "sdshdr \<Rightarrow> int \<Rightarrow> bool" where
  "sdsIncrLen_ok s incr =
     (case htype s of
        SDS_TYPE_5 \<Rightarrow> (incr > 0 \<and> int (hlen s) + incr < 32) \<or> (incr < 0 \<and> int (hlen s) \<ge> - incr)
      | SDS_TYPE_32 \<Rightarrow> (incr \<ge> 0 \<and> (int (halloc s) - int (hlen s)) mod 2 ^ 32 \<ge> incr)
                      \<or> (incr < 0 \<and> int (hlen s) \<ge> - incr)
      | SDS_TYPE_64 \<Rightarrow> (incr \<ge> 0 \<and> (int (halloc s) - int (hlen s)) mod 2 ^ 64 \<ge> incr)
                      \<or> (incr < 0 \<and> int (hlen s) \<ge> - incr)
      | _ \<Rightarrow> (incr \<ge> 0 \<and> int (halloc s) - int (hlen s) \<ge> incr)
            \<or> (incr < 0 \<and> int (hlen s) \<ge> - incr))"

definition sdsIncrLen :: "sdshdr \<Rightarrow> int \<Rightarrow> sdshdr res" where
  "sdsIncrLen s incr =
     (if sdsIncrLen_ok s incr
      then let len = nat ((int (hlen s) + incr) mod 2 ^ sds_width (htype s))
           in sds_poke (s\<lparr>hlen := len\<rparr>) len [NUL]
      else Inl AssertFailed)"

definition sdsgrowzero :: "allocator \<Rightarrow> sdshdr \<Rightarrow> nat \<Rightarrow> sdshdr res" where
  "sdsgrowzero mal s len =
     (let curlen = sdslen s
      in if len \<le> curlen then Inr s
         else bindE (sdsMakeRoomFor mal s (len - curlen)) (\<lambda>s.
              bindE (sds_poke s curlen (replicate (len - curlen + 1) NUL)) (\<lambda>s.
              Inr (sdssetlen s len))))"

subsection \<open>Appending and copying\<close>

definition sdscatlen :: "allocator \<Rightarrow> sdshdr \<Rightarrow> char list \<Rightarrow> nat \<Rightarrow> sdshdr res" where
  "sdscatlen mal s t len =
     (let curlen = sdslen s
      in bindE (sdsMakeRoomFor mal s len) (\<lambda>s.
         bindE (sds_memcpy s curlen t len) (\<lambda>s.
         sds_poke (sdssetlen s (wrap64 (curlen + len))) (wrap64 (curlen + len)) [NUL])))"

definition sdscat :: "allocator \<Rightarrow> sdshdr \<Rightarrow> char list \<Rightarrow> sdshdr res" where
  "sdscat mal s t = sdscatlen mal s t (length (cstring t))"

definition sdscatsds :: "allocator \<Rightarrow> sdshdr \<Rightarrow> sdshdr \<Rightarrow> sdshdr res" where
  "sdscatsds mal s t = sdscatlen mal s (hbuf t) (sdslen t)"

definition sdscpylen :: "allocator \<Rightarrow> sdshdr \<Rightarrow> char list \<Rightarrow> nat \<Rightarrow> sdshdr res" where
  "sdscpylen mal s t len =
     bindE (if sdsalloc s < len then sdsMakeRoomFor mal s (sub64 len (sdslen s)) else Inr s) (\<lambda>s.
     bindE (sds_memcpy s 0 t len) (\<lambda>s.
     bindE (sds_poke s len [NUL]) (\<lambda>s. Inr (sdssetlen s len))))"

definition sdscpy :: "allocator \<Rightarrow> sdshdr \<Rightarrow> char list \<Rightarrow> sdshdr res" where
  "sdscpy mal s t = sdscpylen mal s t (length (cstring t))"


subsection \<open>Well-formed strings and their contents\<close>

text \<open>
  The representation invariant: the length fits the allocation, the allocation fits the
  header's field and the block (\<open>sds_shape\<close>), and the byte after the contents is NUL
  (\<open>sds_wf\<close>; \<open>sdscatfmt\<close> breaks this part while it runs). \<open>sdsval\<close> is the abstract value.
\<close>

definition sds_shape :: "sdshdr \<Rightarrow> bool" where
  "sds_shape s \<longleftrightarrow> hlen s \<le> sdsalloc s \<and> sdsalloc s < 2 ^ sds_width (htype s) \<and>
     sdsalloc s + 1 \<le> length (hbuf s)"

definition sds_wf :: "sdshdr \<Rightarrow> bool" where
  "sds_wf s \<longleftrightarrow> sds_shape s \<and> hbuf s ! hlen s = NUL"

definition sdsval :: "sdshdr \<Rightarrow> char list" where
  "sdsval s = take (hlen s) (hbuf s)"

lemma sdsval_length: "sds_shape s \<Longrightarrow> length (sdsval s) = sdslen s"
  by (auto simp: sds_shape_def sdsval_def sdslen_def)

lemma sdsReqType_fits: "n < 2 ^ 64 \<Longrightarrow> n < 2 ^ sds_width (sdsReqType n)"
  by (auto simp: sdsReqType_def)

lemma sdsReqType_fits':
  "n < 2 ^ 64 \<Longrightarrow> n < 2 ^ sds_width (if sdsReqType n = SDS_TYPE_5 then SDS_TYPE_8 else sdsReqType n)"
  by (auto simp: sdsReqType_def split: if_splits)

lemma sdsHdrSize_bounds: "0 < sdsHdrSize t \<and> sdsHdrSize t \<le> 17"
  by (cases t) auto

lemma sds_width_bounds: "sds_width t \<le> 64"
  by (cases t) auto

lemma sds_shape_lt64: "sds_shape s \<Longrightarrow> sdsalloc s < 2 ^ 64"
  using sds_width_bounds [of "htype s"] power_increasing [of "sds_width (htype s)" 64 "2::nat"]
  by (auto simp: sds_shape_def)

lemma sdsavail_wf:
  "sds_shape s \<Longrightarrow> sdsavail s = (if htype s = SDS_TYPE_5 then 0 else halloc s - hlen s)"
  by (cases "htype s") (auto simp: sdsavail_def sds_shape_def sdsalloc_def)

lemma sdsavail_le: "sds_shape s \<Longrightarrow> sdslen s + sdsavail s \<le> sdsalloc s"
  by (cases "htype s") (auto simp: sdsavail_wf sdslen_def sdsalloc_def sds_shape_def)

text \<open>The state after a store that writes the contents up to a NUL and then sets the length.\<close>

lemma sds_shape_intro:
  "htype s \<noteq> SDS_TYPE_5 \<Longrightarrow> hlen s \<le> halloc s \<Longrightarrow> halloc s < 2 ^ sds_width (htype s) \<Longrightarrow>
   halloc s + 1 \<le> length (hbuf s) \<Longrightarrow> sds_shape s"
  by (cases "htype s") (auto simp: sds_shape_def sdsalloc_def)

lemma sds_store_shape:
  "sds_shape s \<Longrightarrow> n \<le> sdsalloc s \<Longrightarrow> length b = length (hbuf s) \<Longrightarrow>
   sds_shape (s\<lparr>hlen := n, hbuf := b\<rparr>)"
  by (cases "htype s") (auto simp: sds_shape_def sdsalloc_def)

lemma sdssetlen_id: "n < 2 ^ sds_width (htype s) \<Longrightarrow> sdssetlen s n = s\<lparr>hlen := n\<rparr>"
  by (simp add: sdssetlen_def)

lemma sdssetlen_wf: "sds_shape s \<Longrightarrow> n \<le> sdsalloc s \<Longrightarrow> sdssetlen s n = s\<lparr>hlen := n\<rparr>"
  by (rule sdssetlen_id) (auto simp: sds_shape_def)

lemma sdsalloc_not5: "htype s \<noteq> SDS_TYPE_5 \<Longrightarrow> sdsalloc s = halloc s"
  by (cases "htype s") (auto simp: sdsalloc_def)

lemma realloc_grow_shape:
  assumes wf: "sds_shape s" and ty: "htype s = t" "t \<noteq> SDS_TYPE_5"
    and n: "hlen s \<le> n" "n < 2 ^ sds_width t" "sdsHdrSize t + n + 1 < 2 ^ 64"
  shows "res_ok mal (\<lambda>s'. sds_shape s' \<and> sdsval s' = sdsval s \<and> hlen s' = hlen s \<and> hbuf s' ! hlen s = hbuf s ! hlen s \<and>
           htype s' = t \<and> halloc s' = n)
     (bindE (realloc_tail mal (sdsHdrSize t) (hbuf s) (wrap64 (sdsHdrSize t + n + 1)))
        (\<lambda>b. Inr (sdssetalloc (s\<lparr>hbuf := b\<rparr>) n)))"
proof (rule res_ok_bindE)
  show "res_ok mal (\<lambda>b. length b = n + 1 \<and> (\<forall>k. k \<le> length (hbuf s) \<longrightarrow> k \<le> n + 1 \<longrightarrow>
          take k b = take k (hbuf s)))
        (realloc_tail mal (sdsHdrSize t) (hbuf s) (wrap64 (sdsHdrSize t + n + 1)))"
    using n(3) by (auto intro: res_ok_mono [OF res_ok_realloc_tail])
next
  fix b
  assume b: "length b = n + 1 \<and> (\<forall>k. k \<le> length (hbuf s) \<longrightarrow> k \<le> n + 1 \<longrightarrow>
          take k b = take k (hbuf s))"
  have le: "hlen s + 1 \<le> length (hbuf s)" using wf by (auto simp: sds_shape_def)
  have tk: "take (hlen s + 1) b = take (hlen s + 1) (hbuf s)" using b le n(1) by auto
  have "b ! hlen s = hbuf s ! hlen s"
    using arg_cong [OF tk, of "\<lambda>xs. xs ! hlen s"] by simp
  moreover have "take (hlen s) b = take (hlen s) (hbuf s)"
    using arg_cong [OF tk, of "take (hlen s)"] by simp
  moreover have "sdssetalloc (s\<lparr>hbuf := b\<rparr>) n = s\<lparr>hbuf := b, halloc := n\<rparr>"
    using ty n(2) by (cases t) (auto simp: sdssetalloc_def)
  ultimately show "res_ok mal (\<lambda>s'. sds_shape s' \<and> sdsval s' = sdsval s \<and> hlen s' = hlen s \<and> hbuf s' ! hlen s = hbuf s ! hlen s \<and>
           htype s' = t \<and> halloc s' = n) (Inr (sdssetalloc (s\<lparr>hbuf := b\<rparr>) n))"
    using wf ty n b by (auto simp: sdsval_def sds_shape_def sdsalloc_not5)
qed

lemma move_shape:
  assumes wf: "sds_shape s"
    and n: "hlen s \<le> n" "n < 2 ^ sds_width t" "sdsHdrSize t + n + 1 < 2 ^ 64"
    and t5: "t = SDS_TYPE_5 \<Longrightarrow> n = hlen s"
  shows "res_ok mal (\<lambda>s'. sds_shape s' \<and> sdsval s' = sdsval s \<and> hlen s' = hlen s \<and> hbuf s' ! hlen s = hbuf s ! hlen s \<and>
           htype s' = t \<and> sdsalloc s' = n)
     (bindE (malloc mal (wrap64 (sdsHdrSize t + n + 1))) (\<lambda>blk.
      bindE (memcpy (drop (sdsHdrSize t) blk) 0 (hbuf s) (hlen s + 1)) (\<lambda>b.
      Inr (sdssetalloc (sdssetlen \<lparr>htype = t, hlen = 0, halloc = 0, hbuf = b\<rparr> (hlen s)) n))))"
proof (rule res_ok_bindE [OF res_ok_malloc])
  fix blk :: "char list"
  assume blk: "length blk = wrap64 (sdsHdrSize t + n + 1)"
  define B where "B = take (hlen s + 1) (hbuf s) @ drop (hlen s + 1) (drop (sdsHdrSize t) blk)"
  have le: "hlen s + 1 \<le> length (hbuf s)" using wf by (auto simp: sds_shape_def)
  have b: "memcpy (drop (sdsHdrSize t) blk) 0 (hbuf s) (hlen s + 1) = Inr B"
    using blk n le unfolding B_def by (subst memcpy_Inr) auto
  have lenb: "length B = n + 1" using blk n le by (simp add: B_def)
  have "hlen s < 2 ^ sds_width t" using n by simp
  then have eq: "sdssetalloc (sdssetlen \<lparr>htype = t, hlen = 0, halloc = 0, hbuf = B\<rparr> (hlen s)) n
       = \<lparr>htype = t, hlen = hlen s, halloc = (if t = SDS_TYPE_5 then 0 else n), hbuf = B\<rparr>"
    using n(2) by (cases t) (auto simp: sdssetalloc_def sdssetlen_def)
  have "B ! hlen s = hbuf s ! hlen s" and "take (hlen s) B = take (hlen s) (hbuf s)"
    using le wf by (auto simp: sds_shape_def nth_append B_def)
  then show "res_ok mal (\<lambda>s'. sds_shape s' \<and> sdsval s' = sdsval s \<and> hlen s' = hlen s \<and> hbuf s' ! hlen s = hbuf s ! hlen s \<and>
           htype s' = t \<and> sdsalloc s' = n)
      (bindE (memcpy (drop (sdsHdrSize t) blk) 0 (hbuf s) (hlen s + 1)) (\<lambda>b.
      Inr (sdssetalloc (sdssetlen \<lparr>htype = t, hlen = 0, halloc = 0, hbuf = b\<rparr> (hlen s)) n)))"
    unfolding b bindE.simps eq res_ok_Inr using n(1,2) t5 lenb
    by (cases t) (simp_all add: sds_shape_def sdsval_def sdsalloc_def)
qed

lemma sdsMakeRoomFor_shape:
  assumes wf: "sds_shape s" and bnd: "sdslen s + addlen < 2 ^ 62"
  shows "res_ok mal (\<lambda>s'. sds_shape s' \<and> sdsval s' = sdsval s \<and> hlen s' = hlen s \<and> hbuf s' ! hlen s = hbuf s ! hlen s \<and>
           addlen \<le> sdsavail s') (sdsMakeRoomFor mal s addlen)"
proof (cases "addlen \<le> sdsavail s")
  case True
  then show ?thesis using wf by (simp add: sdsMakeRoomFor_def)
next
  case False
  define m where "m = sdslen s + addlen"
  define n where "n = (if m < SDS_MAX_PREALLOC then wrap64 (m * 2) else wrap64 (m + SDS_MAX_PREALLOC))"
  define t where "t = (if sdsReqType n = SDS_TYPE_5 then SDS_TYPE_8 else sdsReqType n)"
  have m: "wrap64 (sdslen s + addlen) = m" "m < 2 ^ 62" using bnd by (auto simp: m_def)
  have n: "m \<le> n" "n < 2 ^ 63" using m by (auto simp: n_def SDS_MAX_PREALLOC_def)
  have t: "n < 2 ^ sds_width t" "t \<noteq> SDS_TYPE_5"
    using n sdsReqType_fits' [of n] by (auto simp: t_def)
  have hn: "hlen s \<le> n" "sdsHdrSize t + n + 1 < 2 ^ 64"
    using n sdsHdrSize_bounds [of t] by (auto simp: m_def sdslen_def)
  have av: "addlen \<le> sdsavail s'" if "sds_shape s'" "hlen s' = hlen s" "htype s' = t" "halloc s' = n" for s'
    using that t n by (simp add: sdsavail_wf m_def sdslen_def)
  have eq: "sdsMakeRoomFor mal s addlen =
     (if htype s = t then
        bindE (realloc_tail mal (sdsHdrSize t) (hbuf s) (wrap64 (sdsHdrSize t + n + 1)))
          (\<lambda>b. Inr (sdssetalloc (s\<lparr>hbuf := b\<rparr>) n))
      else bindE (malloc mal (wrap64 (sdsHdrSize t + n + 1))) (\<lambda>blk.
         bindE (memcpy (drop (sdsHdrSize t) blk) 0 (hbuf s) (hlen s + 1)) (\<lambda>b.
         Inr (sdssetalloc (sdssetlen \<lparr>htype = t, hlen = 0, halloc = 0, hbuf = b\<rparr> (hlen s)) n))))"
    unfolding sdsMakeRoomFor_def Let_def if_not_P [OF False] m(1) n_def [symmetric] t_def [symmetric]
    by (simp only: sdslen_def)
  show ?thesis
  proof (cases "htype s = t")
    case True
    from realloc_grow_shape [OF wf True t(2) hn(1) t(1) hn(2), of mal] show ?thesis
      unfolding eq if_P [OF True] by (rule res_ok_mono) (simp add: av)
  next
    case ne: False
    have "t = SDS_TYPE_5 \<Longrightarrow> n = hlen s" using t(2) by simp
    from move_shape [OF wf hn(1) t(1) hn(2) this, of mal] show ?thesis
      unfolding eq if_not_P [OF ne]
      by (rule res_ok_mono) (use t(2) in \<open>auto intro: av simp: sdsalloc_not5\<close>)
  qed
qed

lemma sds_wf_shape [simp]: "sds_wf s \<Longrightarrow> sds_shape s"
  by (simp add: sds_wf_def)

lemma sdsMakeRoomFor_ok:
  assumes "sds_wf s" and "sdslen s + addlen < 2 ^ 62"
  shows "res_ok mal (\<lambda>s'. sds_wf s' \<and> sdsval s' = sdsval s \<and> hlen s' = hlen s \<and>
           addlen \<le> sdsavail s') (sdsMakeRoomFor mal s addlen)"
  using sdsMakeRoomFor_shape [of s addlen mal] assms by (auto elim!: res_ok_mono simp: sds_wf_def)

lemma move_wf:
  assumes "sds_wf s" "hlen s \<le> n" "n < 2 ^ sds_width t" "sdsHdrSize t + n + 1 < 2 ^ 64"
    and "t = SDS_TYPE_5 \<Longrightarrow> n = hlen s"
  shows "res_ok mal (\<lambda>s'. sds_wf s' \<and> sdsval s' = sdsval s \<and> hlen s' = hlen s \<and>
           htype s' = t \<and> sdsalloc s' = n)
     (bindE (malloc mal (wrap64 (sdsHdrSize t + n + 1))) (\<lambda>blk.
      bindE (memcpy (drop (sdsHdrSize t) blk) 0 (hbuf s) (hlen s + 1)) (\<lambda>b.
      Inr (sdssetalloc (sdssetlen \<lparr>htype = t, hlen = 0, halloc = 0, hbuf = b\<rparr> (hlen s)) n))))"
  using move_shape [of s n t mal] assms by (auto elim!: res_ok_mono simp: sds_wf_def simp del: wrap64_id)

lemma realloc_grow_wf:
  assumes "sds_wf s" "htype s = t" "t \<noteq> SDS_TYPE_5"
    and "hlen s \<le> n" "n < 2 ^ sds_width t" "sdsHdrSize t + n + 1 < 2 ^ 64"
  shows "res_ok mal (\<lambda>s'. sds_wf s' \<and> sdsval s' = sdsval s \<and> hlen s' = hlen s \<and>
           htype s' = t \<and> halloc s' = n)
     (bindE (realloc_tail mal (sdsHdrSize t) (hbuf s) (wrap64 (sdsHdrSize t + n + 1)))
        (\<lambda>b. Inr (sdssetalloc (s\<lparr>hbuf := b\<rparr>) n)))"
  using realloc_grow_shape [of s t n mal] assms by (auto elim!: res_ok_mono simp: sds_wf_def simp del: wrap64_id)

lemma sds_store_wf:
  "sds_wf s \<Longrightarrow> n \<le> sdsalloc s \<Longrightarrow> length b = length (hbuf s) \<Longrightarrow> b ! n = NUL \<Longrightarrow>
   sds_wf (s\<lparr>hlen := n, hbuf := b\<rparr>)"
  by (simp add: sds_wf_def sds_store_shape)

lemma sdsnewlen_ok:
  assumes "initlen < 2 ^ 62" and "\<And>t. init = Some t \<Longrightarrow> initlen \<le> length t"
  shows "res_ok mal (\<lambda>s. sds_wf s \<and> sdslen s = initlen \<and> sdsavail s = 0 \<and>
           sdsval s = (case init of None \<Rightarrow> replicate initlen NUL | Some t \<Rightarrow> take initlen t))
     (sdsnewlen mal init initlen)"
proof -
  define t where "t = (if sdsReqType initlen = SDS_TYPE_5 \<and> initlen = 0 then SDS_TYPE_8
                  else sdsReqType initlen)"
  have t: "initlen < 2 ^ sds_width t"
    using assms(1) sdsReqType_fits [of initlen] by (auto simp: t_def)
  have n: "wrap64 (sdsHdrSize t + initlen + 1) = sdsHdrSize t + initlen + 1"
    using assms(1) sdsHdrSize_bounds [of t] by simp
  show ?thesis
    unfolding sdsnewlen_def Let_def t_def [symmetric] n
  proof (rule res_ok_bindE [OF res_ok_malloc])
    fix blk :: "char list"
    assume blk: "length blk = sdsHdrSize t + initlen + 1"
    define B where "B = drop (sdsHdrSize t) (if init = None then replicate (length blk) NUL else blk)"
    define xs where "xs = (case init of None \<Rightarrow> replicate initlen NUL | Some t \<Rightarrow> take initlen t)"
    define s0 where "s0 = \<lparr>htype = t, hlen = initlen, halloc = initlen, hbuf = B\<rparr>"
    have B: "length B = initlen + 1" using blk by (simp add: B_def)
    have xs: "length xs = initlen" using assms(2) by (auto simp: xs_def split: option.split)
    have "(case init of None \<Rightarrow> Inr s0 | Some t \<Rightarrow> if initlen \<noteq> 0 then sds_memcpy s0 0 t initlen else Inr s0)
        = Inr (s0\<lparr>hbuf := xs @ drop initlen B\<rparr>)"
    proof (cases init)
      case None
      then have "take initlen B = xs"
        using blk by (simp add: B_def xs_def del: replicate_Suc)
      then have "xs @ drop initlen B = B" by (metis append_take_drop_id)
      with None show ?thesis by (simp add: s0_def)
    next
      case (Some u)
      then show ?thesis
        using assms(2) B
        by (simp add: s0_def xs_def sds_memcpy_def peekn_Inr sds_poke_def poke_Inr)
    qed
    moreover have "sds_poke (s0\<lparr>hbuf := xs @ drop initlen B\<rparr>) initlen [NUL] = Inr (s0\<lparr>hbuf := xs @ [NUL]\<rparr>)"
      using B xs by (simp add: sds_poke_def poke_Inr s0_def)
    moreover have "sds_wf (s0\<lparr>hbuf := xs @ [NUL]\<rparr>)"
      using xs t by (cases t) (auto simp: s0_def sds_wf_def sds_shape_def sdsalloc_def nth_append)
    ultimately show "res_ok mal (\<lambda>s. sds_wf s \<and> sdslen s = initlen \<and> sdsavail s = 0 \<and>
           sdsval s = (case init of None \<Rightarrow> replicate initlen NUL | Some t \<Rightarrow> take initlen t))
        (bindE (case init of None \<Rightarrow> Inr \<lparr>htype = t, hlen = initlen mod 2 ^ sds_width t,
                    halloc = initlen mod 2 ^ sds_width t,
                    hbuf = drop (sdsHdrSize t) (if init = None then replicate (length blk) NUL else blk)\<rparr>
             | Some u \<Rightarrow> if initlen \<noteq> 0 then sds_memcpy \<lparr>htype = t, hlen = initlen mod 2 ^ sds_width t,
                    halloc = initlen mod 2 ^ sds_width t,
                    hbuf = drop (sdsHdrSize t) (if init = None then replicate (length blk) NUL else blk)\<rparr> 0 u initlen
                 else Inr \<lparr>htype = t, hlen = initlen mod 2 ^ sds_width t,
                    halloc = initlen mod 2 ^ sds_width t,
                    hbuf = drop (sdsHdrSize t) (if init = None then replicate (length blk) NUL else blk)\<rparr>)
           (\<lambda>s. sds_poke s initlen [NUL]))"
      unfolding B_def [symmetric] mod_less [OF t] s0_def [symmetric] xs_def [symmetric]
      using xs by (simp add: sdsval_def sdslen_def sdsavail_wf) (simp add: s0_def)
  qed
qed

lemma sdsempty_ok: "res_ok mal (\<lambda>s. sds_wf s \<and> sdslen s = 0 \<and> sdsval s = []) (sdsempty mal)"
  unfolding sdsempty_def using sdsnewlen_ok [of 0 "Some []" mal] by (auto elim!: res_ok_mono)

lemma sds_memcpy_ok:
  "n \<le> length src \<Longrightarrow> off + n \<le> length (hbuf s) \<Longrightarrow>
   sds_memcpy s off src n = Inr (s\<lparr>hbuf := take off (hbuf s) @ take n src @ drop (off + n) (hbuf s)\<rparr>)"
  by (simp add: sds_memcpy_def peekn_Inr sds_poke_def poke_Inr)

lemma sds_poke_ok:
  "off + length xs \<le> length (hbuf s) \<Longrightarrow>
   sds_poke s off xs = Inr (s\<lparr>hbuf := take off (hbuf s) @ xs @ drop (off + length xs) (hbuf s)\<rparr>)"
  by (simp add: sds_poke_def poke_Inr)

lemma sds_wfD:
  "sds_wf s \<Longrightarrow> hlen s \<le> sdsalloc s" "sds_wf s \<Longrightarrow> sdsalloc s + 1 \<le> length (hbuf s)"
  "sds_wf s \<Longrightarrow> hlen s + 1 \<le> length (hbuf s)" "sds_wf s \<Longrightarrow> hbuf s ! hlen s = NUL"
  by (auto simp: sds_wf_def sds_shape_def)

lemma sds_store_contents:
  assumes "sds_wf s" "length xs \<le> sdsalloc s"
    and "b = xs @ NUL # drop (length xs + 1) (hbuf s)"
  shows "sds_wf (s\<lparr>hlen := length xs, hbuf := b\<rparr>) \<and> sdsval (s\<lparr>hlen := length xs, hbuf := b\<rparr>) = xs"
  using assms sds_wfD [OF assms(1)] by (auto intro!: sds_store_wf simp: sdsval_def nth_append)

lemma sdscatlen_ok:
  assumes wf: "sds_wf s" and "len \<le> length t" and bnd: "sdslen s + len < 2 ^ 62"
  shows "res_ok mal (\<lambda>s'. sds_wf s' \<and> sdsval s' = sdsval s @ take len t) (sdscatlen mal s t len)"
  unfolding sdscatlen_def Let_def
proof (rule res_ok_bindE [OF sdsMakeRoomFor_ok [OF wf bnd]])
  fix s'
  assume s': "sds_wf s' \<and> sdsval s' = sdsval s \<and> hlen s' = hlen s \<and> len \<le> sdsavail s'"
  let ?xs = "sdsval s @ take len t"
  have room: "hlen s + len \<le> sdsalloc s'" and lx: "length ?xs = hlen s + len"
    using s' sdsavail_le [of s'] assms(2) sdsval_length [OF sds_wf_shape [OF wf]] by (auto simp: sdslen_def)
  have w: "wrap64 (sdslen s + len) = hlen s + len" using bnd by (simp add: sdslen_def)
  have lt: "hlen s + len < 2 ^ sds_width (htype s')" using room s' by (auto simp: sds_wf_def sds_shape_def)
  have v: "take (hlen s) (hbuf s') = sdsval s" using s' by (auto simp: sdsval_def)
  have len: "hlen s + len + 1 \<le> length (hbuf s')" using room s' sds_wfD(2) [of s'] by auto
  show "res_ok mal (\<lambda>s'. sds_wf s' \<and> sdsval s' = sdsval s @ take len t)
     (bindE (sds_memcpy s' (sdslen s) t len) (\<lambda>s''.
        sds_poke (sdssetlen s'' (wrap64 (sdslen s + len))) (wrap64 (sdslen s + len)) [NUL]))"
    unfolding w using len assms(2) lt s' lx room v
      sds_store_contents [of s' ?xs "?xs @ NUL # drop (hlen s + len + 1) (hbuf s')"]
    by (simp add: sds_memcpy_ok sdslen_def sdssetlen_def sds_poke_ok)
qed

lemma sds_upd_swap [simp]: "s\<lparr>hbuf := b, hlen := n\<rparr> = s\<lparr>hlen := n, hbuf := b\<rparr>"
  by simp

lemma sdsgrowzero_ok:
  assumes wf: "sds_wf s" and bnd: "len < 2 ^ 62"
  shows "res_ok mal (\<lambda>s'. sds_wf s' \<and> sdsval s' = sdsval s @ replicate (len - sdslen s) NUL)
     (sdsgrowzero mal s len)"
proof (cases "len \<le> sdslen s")
  case True
  then show ?thesis using wf by (simp add: sdsgrowzero_def)
next
  case False
  have b: "sdslen s + (len - sdslen s) < 2 ^ 62" using bnd False by simp
  show ?thesis
    unfolding sdsgrowzero_def Let_def if_not_P [OF False]
  proof (rule res_ok_bindE [OF sdsMakeRoomFor_ok [OF wf b]])
    fix s'
    assume s': "sds_wf s' \<and> sdsval s' = sdsval s \<and> hlen s' = hlen s \<and> len - sdslen s \<le> sdsavail s'"
    let ?xs = "sdsval s @ replicate (len - hlen s) NUL"
    have lx: "length ?xs = len" and room: "len \<le> sdsalloc s'"
      using s' sdsavail_le [of s'] False sdsval_length [OF sds_wf_shape [OF wf]] by (auto simp: sdslen_def)
    have len: "len + 1 \<le> length (hbuf s')" and lt: "len < 2 ^ sds_width (htype s')"
      using room s' sds_wfD(2) [of s'] by (auto simp: sds_wf_def sds_shape_def)
    have v: "take (hlen s) (hbuf s') = sdsval s" using s' by (auto simp: sdsval_def)
    have r: "replicate (Suc (len - hlen s)) NUL = replicate (len - hlen s) NUL @ [NUL]"
      by (simp add: replicate_append_same)
    show "res_ok mal (\<lambda>s'. sds_wf s' \<and> sdsval s' = sdsval s @ replicate (len - sdslen s) NUL)
      (bindE (sds_poke s' (sdslen s) (replicate (len - sdslen s + 1) NUL)) (\<lambda>s. Inr (sdssetlen s len)))"
      using len False lt s' lx room v r
        sds_store_contents [of s' ?xs "?xs @ NUL # drop (len + 1) (hbuf s')"]
      by (simp add: sdslen_def sdssetlen_def sds_poke_ok del: replicate_Suc)
  qed
qed

lemma sdscpylen_ok:
  assumes wf: "sds_wf s" and "len \<le> length t" and bnd: "len < 2 ^ 62"
  shows "res_ok mal (\<lambda>s'. sds_wf s' \<and> sdsval s' = take len t) (sdscpylen mal s t len)"
  unfolding sdscpylen_def
proof (rule res_ok_bindE [where P = "\<lambda>s'. sds_wf s' \<and> len \<le> sdsalloc s'"])
  show "res_ok mal (\<lambda>s'. sds_wf s' \<and> len \<le> sdsalloc s')
     (if sdsalloc s < len then sdsMakeRoomFor mal s (sub64 len (sdslen s)) else Inr s)"
  proof (cases "sdsalloc s < len")
    case True
    then have le: "sdslen s \<le> len" using sds_wfD(1) [OF wf] by (simp add: sdslen_def)
    then have "sub64 len (sdslen s) = len - sdslen s" using bnd by (simp add: sub64_id)
    moreover have "sdslen s + (len - sdslen s) < 2 ^ 62" using le bnd by simp
    moreover have "len \<le> sdsalloc s'"
      if "sds_wf s'" "hlen s' = hlen s" "len - sdslen s \<le> sdsavail s'" for s'
      using sdsavail_le [OF sds_wf_shape [OF that(1)]] that le by (simp add: sdslen_def)
    ultimately show ?thesis
      using True sdsMakeRoomFor_ok [OF wf, of "len - sdslen s" mal] by (auto elim!: res_ok_mono)
  qed (use wf in simp)
next
  fix s'
  assume s': "sds_wf s' \<and> len \<le> sdsalloc s'"
  have lx: "length (take len t) = len" using assms(2) by simp
  have len: "len + 1 \<le> length (hbuf s')" and lt: "len < 2 ^ sds_width (htype s')"
    using s' sds_wfD(2) [of s'] by (auto simp: sds_wf_def sds_shape_def)
  show "res_ok mal (\<lambda>s'. sds_wf s' \<and> sdsval s' = take len t)
     (bindE (sds_memcpy s' 0 t len) (\<lambda>s. bindE (sds_poke s len [NUL]) (\<lambda>s. Inr (sdssetlen s len))))"
    using len lt lx s' assms(2)
      sds_store_contents [of s' "take len t" "take len t @ NUL # drop (len + 1) (hbuf s')"]
    by (simp add: sds_memcpy_ok sds_poke_ok sdssetlen_def)
qed

lemma sdsRemoveFreeSpace_ok:
  assumes wf: "sds_wf s" and bnd: "sdslen s < 2 ^ 62"
  shows "res_ok mal (\<lambda>s'. sds_wf s' \<and> sdsval s' = sdsval s \<and> sdsavail s' = 0)
     (sdsRemoveFreeSpace mal s)"
proof -
  define t where "t = sdsReqType (hlen s)"
  have t: "hlen s < 2 ^ sds_width t"
    using bnd sdsReqType_fits [of "hlen s"] by (auto simp: t_def sdslen_def)
  have n: "sdsHdrSize t + hlen s + 1 < 2 ^ 64"
    using bnd sdsHdrSize_bounds [of t] by (simp add: sdslen_def)
  note mv = move_wf [OF wf order_refl t n refl, of mal]
  show ?thesis
  proof (cases "htype s = t \<and> t \<noteq> SDS_TYPE_5")
    case True
    with realloc_grow_wf [of s t "hlen s" mal] wf t n show ?thesis
      by (auto simp: sdsRemoveFreeSpace_def sdslen_def t_def [symmetric] Let_def sdsavail_wf
          simp del: wrap64_id elim!: res_ok_mono)
  next
    case False
    show ?thesis
    proof (cases "htype s = t")
      case True
      with False have 5: "htype s = SDS_TYPE_5" "t = SDS_TYPE_5" by auto
      have "res_ok mal (\<lambda>b. length b = hlen s + 1 \<and>
          (\<forall>k. k \<le> length (hbuf s) \<longrightarrow> k \<le> hlen s + 1 \<longrightarrow> take k b = take k (hbuf s)))
        (realloc_tail mal (sdsHdrSize t) (hbuf s) (wrap64 (sdsHdrSize t + hlen s + 1)))"
        using n by (auto intro: res_ok_mono [OF res_ok_realloc_tail])
      moreover have "sds_wf (s\<lparr>hbuf := b\<rparr>) \<and> sdsval (s\<lparr>hbuf := b\<rparr>) = sdsval s \<and> sdsavail (s\<lparr>hbuf := b\<rparr>) = 0"
        if "length b = hlen s + 1" "\<forall>k. k \<le> length (hbuf s) \<longrightarrow> k \<le> hlen s + 1 \<longrightarrow> take k b = take k (hbuf s)"
        for b
      proof -
        have tk: "take (hlen s + 1) b = take (hlen s + 1) (hbuf s)"
          using that sds_wfD(3) [OF wf] by blast
        from arg_cong [OF tk, of "\<lambda>xs. xs ! hlen s"] arg_cong [OF tk, of "take (hlen s)"]
        show ?thesis using wf 5 that(1) by (simp add: sds_wf_def sds_shape_def sdsval_def sdsalloc_def sdsavail_def)
      qed
      ultimately show ?thesis using True 5
        by (auto simp: sdsRemoveFreeSpace_def sdslen_def t_def [symmetric] Let_def sdssetalloc_def
            simp del: wrap64_id intro!: res_ok_bindE)
    next
      case ne: False
      have "sdsavail s' = 0" if "sds_wf s'" "hlen s' = hlen s" "htype s' = t" "sdsalloc s' = hlen s" for s'
        using that by (auto simp: sdsavail_wf sdsalloc_def split: sds_type.splits)
      with mv ne show ?thesis
        by (auto simp: sdsRemoveFreeSpace_def sdslen_def t_def [symmetric] Let_def
            simp del: wrap64_id elim!: res_ok_mono)
    qed
  qed
qed

lemma sdsclear_ok: "sds_wf s \<Longrightarrow> \<exists>s'. sdsclear s = Inr s' \<and> sds_wf s' \<and> sdsval s' = [] \<and>
    (htype s \<noteq> SDS_TYPE_5 \<longrightarrow> sdsavail s' = sdsalloc s)"
  using sds_wfD(3) [of s] sds_store_contents [of s "[]" "NUL # drop 1 (hbuf s)"]
  by (cases "htype s") (auto simp: sdsclear_def sdssetlen_def sds_poke_ok sdsavail_wf sdsalloc_def)

lemma sdsdup_ok:
  assumes "sds_wf s" and "sdslen s < 2 ^ 62"
  shows "res_ok mal (\<lambda>s'. sds_wf s' \<and> sdsval s' = sdsval s) (sdsdup mal s)"
  unfolding sdsdup_def using sdsnewlen_ok [of "sdslen s" "Some (hbuf s)" mal] sds_wfD(3) [OF assms(1)] assms
  by (auto elim!: res_ok_mono simp: sdslen_def sdsval_def)

lemma sdsnew_ok:
  assumes "\<And>t. init = Some t \<Longrightarrow> length t < 2 ^ 62"
  shows "res_ok mal (\<lambda>s. sds_wf s \<and> sdsval s = (case init of None \<Rightarrow> [] | Some t \<Rightarrow> cstring t))
     (sdsnew mal init)"
proof -
  have le: "length (cstring t) \<le> length t" for t :: "char list"
    by (simp add: cstring_def length_takeWhile_le)
  have tk: "take (length (cstring t)) t = cstring t" for t :: "char list"
    by (simp add: cstring_def takeWhile_eq_take [symmetric])
  show ?thesis
  proof (cases init)
    case None
    then show ?thesis using sdsnewlen_ok [of 0 None mal] by (auto simp: sdsnew_def elim!: res_ok_mono)
  next
    case (Some t)
    then have "length (cstring t) < 2 ^ 62" using le [of t] assms by (metis order_le_less_trans)
    with Some show ?thesis
      using sdsnewlen_ok [of "length (cstring t)" "Some t" mal] le [of t] tk [of t]
      by (auto simp: sdsnew_def elim!: res_ok_mono)
  qed
qed

end
