(* ===== verification/SdsFmt.thy ===== *)
theory SdsFmt
  imports Sds
begin

section \<open>sds: numbers and formatted appending (hiredis/sds.c)\<close>

text \<open>
  The number printers, \<open>sdscatvprintf\<close> with its retry loop, and \<open>sdscatfmt\<close>. The text that
  \<open>vsnprintf\<close> produces is a parameter; what the code does with a buffer that is too small for
  it is modelled.
\<close>

subsection \<open>Numbers\<close>

fun ll_digits :: "nat \<Rightarrow> char list" where
  \<comment> \<open>the do-while loop: least significant digit first\<close>
  "ll_digits v = digit_char (v mod 10) # (if v div 10 = 0 then [] else ll_digits (v div 10))"

declare ll_digits.simps [simp del]

function swap_loop :: "char list \<Rightarrow> nat \<Rightarrow> nat \<Rightarrow> char list" where
  \<comment> \<open>the loop that reverses the digits in place, \<open>i\<close> and \<open>j\<close> the pointers \<open>s\<close> and \<open>p\<close>\<close>
  "swap_loop b i j = (if i < j then swap_loop (b[i := b ! j, j := b ! i]) (Suc i) (j - 1) else b)"
  by pat_completeness auto
termination by (relation "measure (\<lambda>(b, i, j). j - i)") auto

declare swap_loop.simps [simp del]

definition sdsll2str :: "int \<Rightarrow> char list" where
  "sdsll2str value =
     (let v = nat ((if value < 0 then - value else value) mod 2 ^ 64);
          ds = ll_digits v @ (if value < 0 then ''-'' else [])
      in swap_loop ds 0 (length ds - 1))"

definition sdsull2str :: "nat \<Rightarrow> char list" where
  "sdsull2str v = (let ds = ll_digits v in swap_loop ds 0 (length ds - 1))"

definition SDS_LLSTR_SIZE :: nat where
  "SDS_LLSTR_SIZE = 21"

definition sdsfromlonglong :: "allocator \<Rightarrow> int \<Rightarrow> sdshdr res" where
  "sdsfromlonglong mal value =
     (let buf = sdsll2str value in sdsnewlen mal (Some buf) (length buf))"

subsection \<open>sdscatvprintf\<close>

text \<open>
  \<open>out\<close> is the text that \<open>vsnprintf\<close> would write into a buffer without limit. In a buffer of
  \<open>buflen\<close> bytes it writes the first \<open>buflen - 1\<close> bytes and a NUL; the code looks at
  \<open>buf[buflen-2]\<close>, set to NUL before the call, to see whether the text fitted. Doubling
  \<open>buflen\<close> is not wrapped: the loop doubles only below the length of the text.
\<close>

function vprintf_loop :: "allocator \<Rightarrow> char list \<Rightarrow> nat \<Rightarrow> nat res" where
  "vprintf_loop mal out buflen =
     (if buflen < 2 then Inl OutOfBounds
      else if buflen - 2 < length out \<and> out ! (buflen - 2) \<noteq> NUL
      then bindE (malloc mal (buflen * 2)) (\<lambda>_. vprintf_loop mal out (buflen * 2))
      else Inr buflen)"
  by pat_completeness auto
termination by (relation "measure (\<lambda>(mal, out, buflen). length out + 2 - buflen)") auto

declare vprintf_loop.simps [simp del]

definition sdscatvprintf :: "allocator \<Rightarrow> sdshdr \<Rightarrow> char list \<Rightarrow> char list \<Rightarrow> sdshdr res" where
  "sdscatvprintf mal s fmt out =
     (let buflen = length (cstring fmt) * 2
      in bindE (if buflen > 1024 then bindE (malloc mal buflen) (\<lambda>_. Inr buflen) else Inr 1024) (\<lambda>buflen.
         bindE (vprintf_loop mal out buflen) (\<lambda>buflen.
         sdscat mal s (take (buflen - 1) out))))"

subsection \<open>sdscatfmt\<close>

text \<open>
  The results of \<open>sdsMakeRoomFor\<close> are used unchecked in \<open>sdscatfmt\<close>: a NULL is dereferenced,
  which is an access outside any block. A directive that finds an argument of another type
  is \<open>BadVarArg\<close>. A \<open>%\<close> that ends the format makes the loop step over the terminator.
\<close>

datatype fmt_arg =
    ArgStr "char list"
  | ArgSds sdshdr
  | ArgInt int
  | ArgLong int
  | ArgUInt nat
  | ArgULong nat

definition null_deref :: "'a res \<Rightarrow> 'a res" where
  "null_deref r = (case r of Inl OutOfMemory \<Rightarrow> Inl OutOfBounds | _ \<Rightarrow> r)"

definition poke_at :: "sdshdr \<Rightarrow> int \<Rightarrow> char list \<Rightarrow> sdshdr res" where
  "poke_at s i xs = (if i < 0 then Inl OutOfBounds else sds_poke s (nat i) xs)"

definition catfmt_put :: "allocator \<Rightarrow> sdshdr \<Rightarrow> int \<Rightarrow> char list \<Rightarrow> (sdshdr \<times> int) res" where
  \<comment> \<open>the body shared by the directives: make room, copy, advance\<close>
  "catfmt_put mal s i xs =
     bindE (if sdsavail s < length xs then null_deref (sdsMakeRoomFor mal s (length xs)) else Inr s) (\<lambda>s.
     bindE (poke_at s i xs) (\<lambda>s.
     Inr (sdsinclen s (length xs), to_int32 (i + int (length xs)))))"

definition catfmt_char :: "sdshdr \<Rightarrow> int \<Rightarrow> char \<Rightarrow> (sdshdr \<times> int) res" where
  "catfmt_char s i c = bindE (poke_at s i [c]) (\<lambda>s. Inr (sdsinclen s 1, to_int32 (i + 1)))"

definition catfmt_directive ::
  "allocator \<Rightarrow> sdshdr \<Rightarrow> int \<Rightarrow> char \<Rightarrow> fmt_arg list \<Rightarrow> ((sdshdr \<times> int) \<times> fmt_arg list) res" where
  "catfmt_directive mal s i next ap =
     (if next = CHR ''s'' then
        (case ap of ArgStr str # ap' \<Rightarrow>
           bindE (catfmt_put mal s i (cstring str)) (\<lambda>r. Inr (r, ap')) | _ \<Rightarrow> Inl BadVarArg)
      else if next = CHR ''S'' then
        (case ap of ArgSds t # ap' \<Rightarrow>
           bindE (peekn (hbuf t) 0 (sdslen t)) (\<lambda>str.
           bindE (catfmt_put mal s i str) (\<lambda>r. Inr (r, ap'))) | _ \<Rightarrow> Inl BadVarArg)
      else if next = CHR ''i'' then
        (case ap of ArgInt num # ap' \<Rightarrow>
           bindE (catfmt_put mal s i (sdsll2str num)) (\<lambda>r. Inr (r, ap')) | _ \<Rightarrow> Inl BadVarArg)
      else if next = CHR ''I'' then
        (case ap of ArgLong num # ap' \<Rightarrow>
           bindE (catfmt_put mal s i (sdsll2str num)) (\<lambda>r. Inr (r, ap')) | _ \<Rightarrow> Inl BadVarArg)
      else if next = CHR ''u'' then
        (case ap of ArgUInt unum # ap' \<Rightarrow>
           bindE (catfmt_put mal s i (sdsull2str unum)) (\<lambda>r. Inr (r, ap')) | _ \<Rightarrow> Inl BadVarArg)
      else if next = CHR ''U'' then
        (case ap of ArgULong unum # ap' \<Rightarrow>
           bindE (catfmt_put mal s i (sdsull2str unum)) (\<lambda>r. Inr (r, ap')) | _ \<Rightarrow> Inl BadVarArg)
      else bindE (catfmt_char s i next) (\<lambda>r. Inr (r, ap)))"

fun catfmt_loop ::
  "allocator \<Rightarrow> sdshdr \<Rightarrow> int \<Rightarrow> char list \<Rightarrow> fmt_arg list \<Rightarrow> (sdshdr \<times> int) res" where
  "catfmt_loop mal s i [] ap = Inr (s, i)"
| "catfmt_loop mal s i [c] ap =
     bindE (if sdsavail s = 0 then null_deref (sdsMakeRoomFor mal s 1) else Inr s) (\<lambda>s.
     if c = CHR ''%'' then bindE (catfmt_char s i NUL) (\<lambda>_. Inl OutOfBounds) else catfmt_char s i c)"
| "catfmt_loop mal s i (c # d # f) ap =
     bindE (if sdsavail s = 0 then null_deref (sdsMakeRoomFor mal s 1) else Inr s) (\<lambda>s.
     if c = CHR ''%''
     then bindE (catfmt_directive mal s i d ap) (\<lambda>((s, i), ap). catfmt_loop mal s i f ap)
     else bindE (catfmt_char s i c) (\<lambda>(s, i). catfmt_loop mal s i (d # f) ap))"

definition sdscatfmt :: "allocator \<Rightarrow> sdshdr \<Rightarrow> char list \<Rightarrow> fmt_arg list \<Rightarrow> sdshdr res" where
  "sdscatfmt mal s fmt ap =
     bindE (catfmt_loop mal s (to_int32 (int (sdslen s))) (cstring fmt) ap) (\<lambda>(s, i).
     poke_at s i [NUL])"

subsection \<open>The printers print the decimal representation\<close>

lemma ll_digits_decimal: "ll_digits v = rev (decimal v)"
proof (induction v rule: ll_digits.induct)
  case (1 v)
  then show ?case
    by (cases "v < 10") (subst ll_digits.simps, subst decimal.simps, simp)+
qed

lemma swap_loop_length: "length (swap_loop b i j) = length b"
  by (induction b i j rule: swap_loop.induct) (subst swap_loop.simps, simp)

lemma swap_loop_nth:
  "length b = i + j + 1 \<Longrightarrow> k < length b \<Longrightarrow>
   swap_loop b i j ! k = (if i \<le> k \<and> k \<le> j then b ! (i + j - k) else b ! k)"
proof (induction b i j rule: swap_loop.induct)
  case (1 b i j)
  show ?case
  proof (cases "i < j")
    case False
    with "1.prems" have "i \<le> k \<and> k \<le> j \<Longrightarrow> i + j - k = k" by auto
    with False show ?thesis by (subst swap_loop.simps) simp
  next
    case True
    let ?b = "b[i := b ! j, j := b ! i]"
    have "swap_loop b i j ! k = swap_loop ?b (Suc i) (j - 1) ! k"
      using True by (subst swap_loop.simps) simp
    also have "\<dots> = (if Suc i \<le> k \<and> k \<le> j - 1 then ?b ! (Suc i + (j - 1) - k) else ?b ! k)"
      by (rule "1.IH" [OF True]) (use "1.prems" True in auto)
    also have "\<dots> = (if i \<le> k \<and> k \<le> j then b ! (i + j - k) else b ! k)"
      using True "1.prems" by (auto simp: nth_list_update)
    finally show ?thesis .
  qed
qed

lemma swap_loop_whole: "swap_loop b 0 (length b - 1) = rev b"
proof (cases "b = []")
  case True
  then show ?thesis by (subst swap_loop.simps) simp
next
  case False
  then show ?thesis
    by (intro nth_equalityI) (auto simp: swap_loop_length swap_loop_nth rev_nth)
qed

lemma sdsull2str_decimal: "sdsull2str v = decimal v"
  using swap_loop_whole [of "rev (decimal v)"] by (simp add: sdsull2str_def ll_digits_decimal)

lemma sdsll2str_signed_decimal:
  assumes "- (2 ^ 63) \<le> v" and "v < 2 ^ 63"
  shows "sdsll2str v = signed_decimal v"
  using assms swap_loop_whole [of "rev (decimal (nat (- v))) @ ''-''"] swap_loop_whole [of "rev (decimal (nat v))"]
  by (simp add: sdsll2str_def ll_digits_decimal signed_decimal_def)

lemma decimal_2_64: "v < 2 ^ 64 \<Longrightarrow> length (decimal v) \<le> 20"
  by (rule length_decimal_le) simp_all

lemma sdsll2str_fits:
  assumes "- (2 ^ 63) \<le> v" and "v < 2 ^ 63"
  shows "length (sdsll2str v) < SDS_LLSTR_SIZE"
proof -
  have "nat v < 10 ^ 19" "nat (- v) < 10 ^ 19" using assms by auto
  then have "length (decimal (nat v)) \<le> 19" "length (decimal (nat (- v))) \<le> 19"
    using length_decimal_le [of "nat v" 19] length_decimal_le [of "nat (- v)" 19] by simp_all
  then show ?thesis
    using assms by (simp add: sdsll2str_signed_decimal SDS_LLSTR_SIZE_def signed_decimal_def)
qed

subsection \<open>The printf loop\<close>

lemma cstring_append_NUL: "NUL \<in> set xs \<Longrightarrow> cstring (xs @ ys) = cstring xs"
  unfolding cstring_def by (rule takeWhile_append1) auto

lemma cstring_take:
  assumes "n < length out \<Longrightarrow> out ! n = NUL"
  shows "cstring (take (Suc n) out) = cstring out"
proof (cases "n < length out")
  case True
  then have "NUL \<in> set (take (Suc n) out)"
    using assms by (auto simp: take_Suc_conv_app_nth)
  then have "cstring (take (Suc n) out @ drop (Suc n) out) = cstring (take (Suc n) out)"
    by (rule cstring_append_NUL)
  then show ?thesis by simp
qed simp

lemma vprintf_loop_ok:
  "2 \<le> buflen \<Longrightarrow>
   res_ok mal (\<lambda>n. 2 \<le> n \<and> cstring (take (n - 1) out) = cstring out) (vprintf_loop mal out buflen)"
proof (induction mal out buflen rule: vprintf_loop.induct)
  case (1 mal out buflen)
  show ?case
  proof (cases "buflen - 2 < length out \<and> out ! (buflen - 2) \<noteq> NUL")
    case True
    then have "res_ok mal (\<lambda>n. 2 \<le> n \<and> cstring (take (n - 1) out) = cstring out)
        (bindE (malloc mal (buflen * 2)) (\<lambda>_. vprintf_loop mal out (buflen * 2)))"
      using "1.IH" "1.prems" by (intro res_ok_bindE [OF res_ok_malloc]) auto
    then show ?thesis using "1.prems" True by (subst vprintf_loop.simps) auto
  next
    case False
    have "cstring (take (buflen - 1) out) = cstring out"
      using cstring_take [of "buflen - 2" out] False "1.prems" by (auto simp: Suc_diff_le [symmetric] numeral_2_eq_2)
    then show ?thesis using "1.prems" False by (subst vprintf_loop.simps) auto
  qed
qed

lemma length_cstring_le: "length (cstring t) \<le> length t"
  by (simp add: cstring_def length_takeWhile_le)

lemma take_length_cstring [simp]: "take (length (cstring t)) t = cstring t"
  by (simp add: cstring_def takeWhile_eq_take [symmetric])

lemma sdscat_ok:
  assumes "sds_wf s" and "sdslen s + length (cstring t) < 2 ^ 62"
  shows "res_ok mal (\<lambda>s'. sds_wf s' \<and> sdsval s' = sdsval s @ cstring t) (sdscat mal s t)"
  unfolding sdscat_def
  using sdscatlen_ok [OF assms(1) length_cstring_le [of t] assms(2), of mal] by simp

lemma sdscatvprintf_ok:
  assumes "sds_wf s" and "sdslen s + length (cstring out) < 2 ^ 62"
  shows "res_ok mal (\<lambda>s'. sds_wf s' \<and> sdsval s' = sdsval s @ cstring out) (sdscatvprintf mal s fmt out)"
  unfolding sdscatvprintf_def Let_def
proof (rule res_ok_bindE [where P = "\<lambda>n. 2 \<le> n"])
  show "res_ok mal (\<lambda>n. 2 \<le> n) (if 1024 < length (cstring fmt) * 2
      then bindE (malloc mal (length (cstring fmt) * 2)) (\<lambda>_. Inr (length (cstring fmt) * 2)) else Inr 1024)"
    by (auto intro: res_ok_bindE [OF res_ok_malloc])
next
  fix n :: nat assume "2 \<le> n"
  show "res_ok mal (\<lambda>s'. sds_wf s' \<and> sdsval s' = sdsval s @ cstring out)
     (bindE (vprintf_loop mal out n) (\<lambda>buflen. sdscat mal s (take (buflen - 1) out)))"
  proof (rule res_ok_bindE [OF vprintf_loop_ok [OF \<open>2 \<le> n\<close>]])
    fix m assume "2 \<le> m \<and> cstring (take (m - 1) out) = cstring out"
    then show "res_ok mal (\<lambda>s'. sds_wf s' \<and> sdsval s' = sdsval s @ cstring out) (sdscat mal s (take (m - 1) out))"
      using sdscat_ok [OF assms(1), of "take (m - 1) out" mal] assms(2) by simp
  qed
qed

subsection \<open>What a format expands to\<close>

fun directive_text :: "char \<Rightarrow> fmt_arg list \<Rightarrow> (char list \<times> fmt_arg list) option" where
  "directive_text d (ArgStr t # ap) = (if d = CHR ''s'' then Some (cstring t, ap)
     else if d \<in> set ''SiIuU'' then None else Some ([d], ArgStr t # ap))"
| "directive_text d (ArgSds t # ap) = (if d = CHR ''S'' then Some (sdsval t, ap)
     else if d \<in> set ''siIuU'' then None else Some ([d], ArgSds t # ap))"
| "directive_text d (ArgInt n # ap) = (if d = CHR ''i'' then Some (sdsll2str n, ap)
     else if d \<in> set ''sSIuU'' then None else Some ([d], ArgInt n # ap))"
| "directive_text d (ArgLong n # ap) = (if d = CHR ''I'' then Some (sdsll2str n, ap)
     else if d \<in> set ''sSiuU'' then None else Some ([d], ArgLong n # ap))"
| "directive_text d (ArgUInt n # ap) = (if d = CHR ''u'' then Some (sdsull2str n, ap)
     else if d \<in> set ''sSiIU'' then None else Some ([d], ArgUInt n # ap))"
| "directive_text d (ArgULong n # ap) = (if d = CHR ''U'' then Some (sdsull2str n, ap)
     else if d \<in> set ''sSiIu'' then None else Some ([d], ArgULong n # ap))"
| "directive_text d [] = (if d \<in> set ''sSiIuU'' then None else Some ([d], []))"

fun fmt_expand :: "char list \<Rightarrow> fmt_arg list \<Rightarrow> char list option" where
  "fmt_expand [] ap = Some []"
| "fmt_expand [c] ap = (if c = CHR ''%'' then None else Some [c])"
| "fmt_expand (c # d # f) ap =
     (if c = CHR ''%''
      then (case directive_text d ap of None \<Rightarrow> None
            | Some (xs, ap') \<Rightarrow> map_option (\<lambda>ys. xs @ ys) (fmt_expand f ap'))
      else map_option (\<lambda>ys. c # ys) (fmt_expand (d # f) ap))"

definition sds_args_ok :: "fmt_arg list \<Rightarrow> bool" where
  "sds_args_ok ap \<longleftrightarrow> (\<forall>t. ArgSds t \<in> set ap \<longrightarrow> sds_shape t)"

lemma sds_inc_shape:
  assumes "sds_shape s" and "length xs \<le> sdsavail s"
  shows "\<exists>s'. sds_poke s (hlen s) xs = Inr s' \<and> sds_shape (sdsinclen s' (length xs)) \<and>
     sdsval (sdsinclen s' (length xs)) = sdsval s @ xs \<and>
     hlen (sdsinclen s' (length xs)) = hlen s + length xs \<and>
     sdsavail (sdsinclen s' (length xs)) = sdsavail s - length xs"
proof -
  have le: "hlen s + length xs \<le> sdsalloc s" using sdsavail_le [OF assms(1)] assms(2) by (simp add: sdslen_def)
  then have lt: "hlen s + length xs < 2 ^ sds_width (htype s)" "hlen s + length xs + 1 \<le> length (hbuf s)"
    using assms(1) by (auto simp: sds_shape_def)
  define s1 where "s1 = s\<lparr>hlen := hlen s + length xs, hbuf := take (hlen s) (hbuf s) @ xs @ drop (hlen s + length xs) (hbuf s)\<rparr>"
  have sh: "sds_shape s1" unfolding s1_def using assms(1) le lt by (intro sds_store_shape) auto
  have 5: "htype s = SDS_TYPE_5 \<Longrightarrow> xs = []" using assms by (simp add: sdsavail_wf)
  have "sdsavail s1 = sdsavail s - length xs"
    unfolding sdsavail_wf [OF sh] sdsavail_wf [OF assms(1)] using 5 by (simp add: s1_def)
  then show ?thesis
    using lt sh by (intro exI [of _ "s\<lparr>hbuf := take (hlen s) (hbuf s) @ xs @ drop (hlen s + length xs) (hbuf s)\<rparr>"])
      (simp add: sds_poke_ok sdsinclen_def s1_def sdsval_def)
qed

lemma room_ok:
  assumes "sds_shape s" and "grants_all mal \<or> n \<le> sdsavail s" and "hlen s + n < 2 ^ 62"
  shows "\<exists>s'. (if sdsavail s < n then null_deref (sdsMakeRoomFor mal s n) else Inr s) = Inr s' \<and>
     sds_shape s' \<and> sdsval s' = sdsval s \<and> hlen s' = hlen s \<and> n \<le> sdsavail s' \<and>
     sdsavail s \<le> sdsavail s'"
proof (cases "sdsavail s < n")
  case True
  then have g: "grants_all mal" using assms(2) by auto
  from res_ok_total [OF sdsMakeRoomFor_shape g, of s n] assms True show ?thesis
    by (auto simp: null_deref_def sdslen_def)
next
  case False
  then show ?thesis using assms by simp
qed

lemma catfmt_put_ok:
  assumes "sds_shape s" and "grants_all mal \<or> length xs \<le> sdsavail s" and "hlen s + length xs < 2 ^ 31"
  shows "\<exists>s'. catfmt_put mal s (int (hlen s)) xs = Inr (s', int (hlen s')) \<and> sds_shape s' \<and>
     sdsval s' = sdsval s @ xs \<and> hlen s' = hlen s + length xs \<and> sdsavail s \<le> sdsavail s' + length xs"
proof -
  have b: "hlen s + length xs < 2 ^ 62" using assms(3) by simp
  from room_ok [OF assms(1,2) b] obtain s1 where s1:
    "(if sdsavail s < length xs then null_deref (sdsMakeRoomFor mal s (length xs)) else Inr s) = Inr s1"
    "sds_shape s1" "sdsval s1 = sdsval s" "hlen s1 = hlen s" "length xs \<le> sdsavail s1" "sdsavail s \<le> sdsavail s1"
    by auto
  from sds_inc_shape [OF s1(2,5)] obtain s2 where s2:
    "sds_poke s1 (hlen s1) xs = Inr s2" "sds_shape (sdsinclen s2 (length xs))"
    "sdsval (sdsinclen s2 (length xs)) = sdsval s1 @ xs"
    "hlen (sdsinclen s2 (length xs)) = hlen s1 + length xs"
    "sdsavail (sdsinclen s2 (length xs)) = sdsavail s1 - length xs"
    by auto
  have "to_int32 (int (hlen s) + int (length xs)) = int (hlen s + length xs)"
    using assms(3) by (subst to_int32_id) auto
  then show ?thesis
    using s1 s2 by (simp add: catfmt_put_def poke_at_def)
qed

lemma catfmt_char_put:
  "1 \<le> sdsavail s \<Longrightarrow> catfmt_char s i c = catfmt_put mal s i [c]"
  by (simp add: catfmt_char_def catfmt_put_def)

lemma catfmt_directive_put:
  assumes "directive_text d ap = Some (xs, ap')" and "sds_args_ok ap" and "1 \<le> sdsavail s"
  shows "catfmt_directive mal s i d ap = bindE (catfmt_put mal s i xs) (\<lambda>r. Inr (r, ap')) \<and> sds_args_ok ap'"
proof (cases ap)
  case Nil
  then show ?thesis using assms
    by (auto simp: catfmt_directive_def catfmt_char_put [of s i d mal] split: if_splits)
next
  case (Cons a as)
  show ?thesis
  proof (cases a)
    case (ArgSds t)
    then have "sds_shape t" using assms(2) Cons by (simp add: sds_args_ok_def)
    then have "peekn (hbuf t) 0 (sdslen t) = Inr (sdsval t)"
      by (auto simp: peekn_def sds_shape_def sdslen_def sdsval_def)
    with ArgSds Cons assms show ?thesis
      by (auto simp: catfmt_directive_def sds_args_ok_def catfmt_char_put [of s i d mal] split: if_splits)
  qed (use Cons assms in \<open>auto simp: catfmt_directive_def sds_args_ok_def catfmt_char_put [of s i d mal]
         split: if_splits\<close>)
qed

lemma catfmt_loop_ok:
  "fmt_expand f ap = Some xs \<Longrightarrow> sds_shape s \<Longrightarrow> sds_args_ok ap \<Longrightarrow>
   grants_all mal \<or> length xs < sdsavail s \<Longrightarrow> hlen s + length xs < 2 ^ 31 \<Longrightarrow>
   \<exists>s'. catfmt_loop mal s (int (hlen s)) f ap = Inr (s', int (hlen s')) \<and> sds_shape s' \<and>
     sdsval s' = sdsval s @ xs \<and> hlen s' = hlen s + length xs \<and> sdsavail s \<le> sdsavail s' + length xs"
proof (induction f ap arbitrary: s xs rule: fmt_expand.induct)
  case (1 ap)
  then show ?case by simp
next
  case (2 c ap)
  then have xs: "xs = [c]" "c \<noteq> CHR ''%''" by (auto split: if_splits)
  have "grants_all mal \<or> 1 \<le> sdsavail s" "hlen s + 1 < 2 ^ 62" using 2 xs by auto
  from room_ok [OF "2.prems"(2) this] obtain s1 where s1:
    "(if sdsavail s < 1 then null_deref (sdsMakeRoomFor mal s 1) else Inr s) = Inr s1"
    "sds_shape s1" "sdsval s1 = sdsval s" "hlen s1 = hlen s" "1 \<le> sdsavail s1" "sdsavail s \<le> sdsavail s1"
    by auto
  from catfmt_put_ok [of s1 mal "[c]"] s1 "2.prems" xs show ?case
    by (auto simp: catfmt_char_put [of s1 _ c mal])
next
  case (3 c d f ap)
  have "grants_all mal \<or> 1 \<le> sdsavail s" "hlen s + 1 < 2 ^ 62" using 3 by auto
  from room_ok [OF "3.prems"(2) this] obtain s1 where s1:
    "(if sdsavail s < 1 then null_deref (sdsMakeRoomFor mal s 1) else Inr s) = Inr s1"
    "sds_shape s1" "sdsval s1 = sdsval s" "hlen s1 = hlen s" "1 \<le> sdsavail s1" "sdsavail s \<le> sdsavail s1"
    by auto
  note room = s1(1) [unfolded less_one]
  show ?case
  proof (cases "c = CHR ''%''")
    case True
    with "3.prems"(1) obtain ys zs ap' where d: "directive_text d ap = Some (ys, ap')"
      "fmt_expand f ap' = Some zs" "xs = ys @ zs" by (auto split: option.splits)
    note dir = catfmt_directive_put [OF d(1) "3.prems"(3) s1(5), of mal "int (hlen s)"]
    from catfmt_put_ok [of s1 mal ys] s1 "3.prems" d(3) obtain s2 where s2:
      "catfmt_put mal s1 (int (hlen s)) ys = Inr (s2, int (hlen s2))" "sds_shape s2"
      "sdsval s2 = sdsval s @ ys" "hlen s2 = hlen s + length ys" "sdsavail s1 \<le> sdsavail s2 + length ys"
      by auto
    have "grants_all mal \<or> length zs < sdsavail s2" using s2(5) s1(6) "3.prems"(4) d(3) by auto
    from "3.IH"(1) [OF True d(1) refl d(2) s2(2) _ this] dir s2(4) "3.prems"(5) d(3) obtain s3 where s3:
      "catfmt_loop mal s2 (int (hlen s2)) f ap' = Inr (s3, int (hlen s3))" "sds_shape s3"
      "sdsval s3 = sdsval s2 @ zs" "hlen s3 = hlen s2 + length zs" "sdsavail s2 \<le> sdsavail s3 + length zs"
      by auto
    have "catfmt_loop mal s (int (hlen s)) (c # d # f) ap = Inr (s3, int (hlen s3))"
      using room True dir s2(1) s3(1) by simp
    then show ?thesis using s3 s2 s1(6) d(3) by (intro exI [of _ s3]) simp
  next
    case False
    with "3.prems"(1) obtain zs where z: "fmt_expand (d # f) ap = Some zs" "xs = c # zs" by auto
    from catfmt_put_ok [of s1 mal "[c]"] s1 "3.prems" z(2) obtain s2 where s2:
      "catfmt_put mal s1 (int (hlen s)) [c] = Inr (s2, int (hlen s2))" "sds_shape s2"
      "sdsval s2 = sdsval s @ [c]" "hlen s2 = hlen s + 1" "sdsavail s1 \<le> sdsavail s2 + 1"
      by auto
    have "grants_all mal \<or> length zs < sdsavail s2" using s2(5) s1(6) "3.prems"(4) z(2) by auto
    from "3.IH"(2) [OF False z(1) s2(2) "3.prems"(3) this] s2(4) "3.prems"(5) z(2) obtain s3 where s3:
      "catfmt_loop mal s2 (int (hlen s2)) (d # f) ap = Inr (s3, int (hlen s3))" "sds_shape s3"
      "sdsval s3 = sdsval s2 @ zs" "hlen s3 = hlen s2 + length zs" "sdsavail s2 \<le> sdsavail s3 + length zs"
      by auto
    have "catfmt_loop mal s (int (hlen s)) (c # d # f) ap = Inr (s3, int (hlen s3))"
      using room False s2(1) s3(1) by (simp add: catfmt_char_put [OF s1(5), of _ c mal])
    then show ?thesis using s3 s2 s1(6) z(2) by (intro exI [of _ s3]) simp
  qed
qed

lemma sdscatfmt_ok:
  assumes "fmt_expand (cstring fmt) ap = Some xs" and "sds_wf s" and "sds_args_ok ap"
    and "grants_all mal \<or> length xs < sdsavail s" and "sdslen s + length xs < 2 ^ 31"
  shows "\<exists>s'. sdscatfmt mal s fmt ap = Inr s' \<and> sds_wf s' \<and> sdsval s' = sdsval s @ xs \<and>
     sdsavail s \<le> sdsavail s' + length xs"
proof -
  have i: "to_int32 (int (hlen s)) = int (hlen s)" using assms(5) by (intro to_int32_id) (auto simp: sdslen_def)
  from catfmt_loop_ok [OF assms(1) _ assms(3,4)] assms(2,5) obtain s' where s':
    "catfmt_loop mal s (int (hlen s)) (cstring fmt) ap = Inr (s', int (hlen s'))" "sds_shape s'"
    "sdsval s' = sdsval s @ xs" "sdsavail s \<le> sdsavail s' + length xs"
    by (auto simp: sdslen_def)
  have len: "hlen s' + 1 \<le> length (hbuf s')" using s'(2) by (auto simp: sds_shape_def)
  define s2 where "s2 = s'\<lparr>hbuf := take (hlen s') (hbuf s') @ NUL # drop (Suc (hlen s')) (hbuf s')\<rparr>"
  have "sds_poke s' (hlen s') [NUL] = Inr s2" using len by (simp add: sds_poke_ok s2_def)
  moreover have "sds_wf s2 \<and> sdsval s2 = sdsval s'"
    using s'(2) len by (cases "htype s'") (auto simp: s2_def sds_wf_def sds_shape_def sdsval_def sdsalloc_def nth_append)
  moreover have "htype s2 = htype s'" "hlen s2 = hlen s'" "halloc s2 = halloc s'"
    by (simp_all add: s2_def)
  then have "sdsavail s2 = sdsavail s'" by (simp add: sdsavail_def split: sds_type.split)
  ultimately show ?thesis
    using s' i by (intro exI [of _ s2]) (simp add: sdscatfmt_def sdslen_def poke_at_def)
qed

end
