(* ===== verification/SdsOps.thy ===== *)
theory SdsOps
  imports SdsFmt
begin

section \<open>sds: trimming, slicing, comparing, splitting, quoting (hiredis/sds.c)\<close>

text \<open>
  The remaining operations of \<open>hiredis/sds.c\<close>. The character classes are those of the C
  locale. As in \<open>sdscatfmt\<close>, a result of an allocating call that the code uses without a check
  is wrapped in \<^const>\<open>null_deref\<close>.
\<close>

subsection \<open>Character classes\<close>

definition isspace :: "char \<Rightarrow> bool" where
  "isspace c \<longleftrightarrow> (of_char c :: nat) = 32 \<or> (9 \<le> (of_char c :: nat) \<and> (of_char c :: nat) \<le> 13)"

definition isprint :: "char \<Rightarrow> bool" where
  "isprint c \<longleftrightarrow> 32 \<le> (of_char c :: nat) \<and> (of_char c :: nat) \<le> 126"

definition c_tolower :: "char \<Rightarrow> char" where
  "c_tolower c = (if 65 \<le> (of_char c :: nat) \<and> (of_char c :: nat) \<le> 90
                  then char_of ((of_char c :: nat) + 32) else c)"

definition c_toupper :: "char \<Rightarrow> char" where
  "c_toupper c = (if 97 \<le> (of_char c :: nat) \<and> (of_char c :: nat) \<le> 122
                  then char_of ((of_char c :: nat) - 32) else c)"

definition strchr_hit :: "char list \<Rightarrow> char \<Rightarrow> bool" where
  \<comment> \<open>\<open>strchr(cset, c) != NULL\<close>: the terminator of \<open>cset\<close> counts, so NUL is always found\<close>
  "strchr_hit cset c \<longleftrightarrow> c = NUL \<or> c \<in> set (cstring cset)"

subsection \<open>sdstrim and sdsrange\<close>

function trim_sp :: "char list \<Rightarrow> char list \<Rightarrow> nat \<Rightarrow> nat \<Rightarrow> nat" where
  "trim_sp cset buf n sp = (if sp < n \<and> strchr_hit cset (buf ! sp) then trim_sp cset buf n (Suc sp) else sp)"
  by pat_completeness auto
termination by (relation "measure (\<lambda>(cset, buf, n, sp). n - sp)") auto

function trim_ep :: "char list \<Rightarrow> char list \<Rightarrow> nat \<Rightarrow> int \<Rightarrow> int" where
  "trim_ep cset buf sp ep =
     (if ep > int sp \<and> strchr_hit cset (buf ! nat ep) then trim_ep cset buf sp (ep - 1) else ep)"
  by pat_completeness auto
termination by (relation "measure (\<lambda>(cset, buf, sp, ep). nat (ep - int sp))") auto

declare trim_sp.simps [simp del] trim_ep.simps [simp del]

definition sdstrim :: "sdshdr \<Rightarrow> char list \<Rightarrow> sdshdr res" where
  "sdstrim s cset =
     (let end = int (sdslen s) - 1;
          sp = trim_sp cset (hbuf s) (sdslen s) 0;
          ep = trim_ep cset (hbuf s) sp end;
          len = (if int sp > ep then 0 else nat (ep - int sp + 1))
      in bindE (if sp \<noteq> 0 then bindE (peekn (hbuf s) sp len) (\<lambda>xs. sds_poke s 0 xs) else Inr s) (\<lambda>s.
         bindE (sds_poke s len [NUL]) (\<lambda>s. Inr (sdssetlen s len))))"

definition range_index :: "nat \<Rightarrow> int \<Rightarrow> int" where
  \<comment> \<open>a negative index counts from the end: \<open>len + i\<close> as an \<open>int\<close>, 0 if still negative\<close>
  "range_index len i = (if i < 0 then max 0 (to_int32 (int len + i)) else i)"

definition range_len :: "int \<Rightarrow> int \<Rightarrow> nat" where
  \<comment> \<open>\<open>(start > end) ? 0 : (end-start)+1\<close>, an \<open>int\<close> stored in a \<open>size_t\<close>\<close>
  "range_len start end = (if start > end then 0 else nat (to_int32 (end - start + 1) mod 2 ^ 64))"

definition sdsrange :: "sdshdr \<Rightarrow> int \<Rightarrow> int \<Rightarrow> sdshdr res" where
  "sdsrange s start0 end0 =
     (let len = sdslen s in
      if len = 0 then Inr s
      else
        let start = range_index len start0;
            end = range_index len end0;
            newlen0 = range_len start end;
            slen = to_int32 (int len);
            newlen = (if newlen0 \<noteq> 0
                      then if start \<ge> slen then 0
                           else if end \<ge> slen then range_len start (to_int32 (int len - 1))
                           else newlen0
                      else 0);
            start' = (if newlen0 \<noteq> 0 then start else 0)
        in bindE (if start' \<noteq> 0 \<and> newlen \<noteq> 0
                  then bindE (peekn (hbuf s) (nat start') newlen) (\<lambda>xs. sds_poke s 0 xs)
                  else Inr s) (\<lambda>s.
           bindE (sds_poke s newlen [NUL]) (\<lambda>s. Inr (sdssetlen s newlen))))"

subsection \<open>Case and comparison\<close>

definition sds_map_prefix :: "(char \<Rightarrow> char) \<Rightarrow> sdshdr \<Rightarrow> sdshdr" where
  "sds_map_prefix f s =
     (let len = nat (to_int32 (int (sdslen s)))
      in s\<lparr>hbuf := map f (take len (hbuf s)) @ drop len (hbuf s)\<rparr>)"

definition sdstolower :: "sdshdr \<Rightarrow> sdshdr" where
  "sdstolower s = sds_map_prefix c_tolower s"

definition sdstoupper :: "sdshdr \<Rightarrow> sdshdr" where
  "sdstoupper s = sds_map_prefix c_toupper s"

fun memcmp :: "char list \<Rightarrow> char list \<Rightarrow> int" where
  \<comment> \<open>the sign of \<open>memcmp\<close> on blocks of the same length\<close>
  "memcmp (a # as) (b # bs) =
     (if a = b then memcmp as bs else if (of_char a :: nat) < of_char b then -1 else 1)"
| "memcmp _ _ = 0"

definition sdscmp :: "sdshdr \<Rightarrow> sdshdr \<Rightarrow> int" where
  "sdscmp s1 s2 =
     (let l1 = sdslen s1; l2 = sdslen s2;
          minlen = (if l1 < l2 then l1 else l2);
          cmp = memcmp (take minlen (hbuf s1)) (take minlen (hbuf s2))
      in if cmp = 0 then to_int32 (int l1 - int l2) else cmp)"

subsection \<open>Splitting and joining\<close>

text \<open>
  \<open>sdssplitlen\<close>: \<open>toks\<close> are the tokens so far, \<open>slots\<close> the size of the token array, which is
  doubled before an element would no longer leave room for a final one. Every failed
  allocation ends in the cleanup, which returns NULL. Inr None is NULL for bad arguments.
\<close>

definition sep_at :: "char list \<Rightarrow> char list \<Rightarrow> nat \<Rightarrow> bool" where
  "sep_at s sep j \<longleftrightarrow> (length sep = 1 \<and> s ! j = sep ! 0) \<or> take (length sep) (drop j s) = sep"

function split_loop ::
  "allocator \<Rightarrow> char list \<Rightarrow> char list \<Rightarrow> nat \<Rightarrow> nat \<Rightarrow> nat \<Rightarrow> sdshdr list \<Rightarrow> (nat \<times> sdshdr list) res" where
  "split_loop mal s sep slots start j toks =
     (if j < length s - (length sep - 1) \<and> sep \<noteq> []
      then bindE (if slots < length toks + 2
                  then bindE (malloc mal (8 * (slots * 2))) (\<lambda>_. Inr (slots * 2)) else Inr slots) (\<lambda>slots.
           if sep_at s sep j
           then bindE (sdsnewlen mal (Some (drop start s)) (j - start)) (\<lambda>tok.
                split_loop mal s sep slots (j + length sep) (j + length sep) (toks @ [tok]))
           else split_loop mal s sep slots start (Suc j) toks)
      else Inr (start, toks))"
  by pat_completeness auto
termination
  by (relation "measure (\<lambda>(mal, s, sep, slots, start, j, toks). length s - j)") (auto simp: neq_Nil_conv)

declare split_loop.simps [simp del]

definition sdssplitlen :: "allocator \<Rightarrow> char list \<Rightarrow> int \<Rightarrow> char list \<Rightarrow> int \<Rightarrow> sdshdr list option res" where
  "sdssplitlen mal s len sep seplen =
     (if seplen < 1 \<or> len < 0 then Inr None
      else bindE (malloc mal (8 * 5)) (\<lambda>_.
           if len = 0 then Inr (Some [])
           else let s = take (nat len) s; sep = take (nat seplen) sep
                in bindE (split_loop mal s sep 5 0 0 []) (\<lambda>(start, toks).
                   bindE (sdsnewlen mal (Some (drop start s)) (length s - start)) (\<lambda>tok.
                   Inr (Some (toks @ [tok]))))))"

fun join_loop :: "(sdshdr \<Rightarrow> 'a \<Rightarrow> sdshdr res) \<Rightarrow> (sdshdr \<Rightarrow> sdshdr res) \<Rightarrow> 'a list \<Rightarrow> sdshdr \<Rightarrow> sdshdr res" where
  "join_loop cat sep [] join = Inr join"
| "join_loop cat sep [x] join = cat join x"
| "join_loop cat sep (x # y # xs) join =
     bindE (null_deref (cat join x)) (\<lambda>join.
     bindE (null_deref (sep join)) (\<lambda>join. join_loop cat sep (y # xs) join))"

definition sdsjoin :: "allocator \<Rightarrow> char list list \<Rightarrow> char list \<Rightarrow> sdshdr res" where
  "sdsjoin mal argv sep =
     (if argv = [] then sdsempty mal
      else bindE (null_deref (sdsempty mal))
             (join_loop (sdscat mal) (\<lambda>join. sdscat mal join sep) argv))"

definition sdsjoinsds :: "allocator \<Rightarrow> sdshdr list \<Rightarrow> char list \<Rightarrow> nat \<Rightarrow> sdshdr res" where
  "sdsjoinsds mal argv sep seplen =
     (if argv = [] then sdsempty mal
      else bindE (null_deref (sdsempty mal))
             (join_loop (sdscatsds mal) (\<lambda>join. sdscatlen mal join sep seplen) argv))"

fun mapchar :: "char list \<Rightarrow> char list \<Rightarrow> char \<Rightarrow> char" where
  "mapchar (f # from) (t # to) c = (if c = f then t else mapchar from to c)"
| "mapchar _ _ c = c"

definition sdsmapchars :: "sdshdr \<Rightarrow> char list \<Rightarrow> char list \<Rightarrow> nat \<Rightarrow> sdshdr res" where
  "sdsmapchars s from to setlen =
     bindE (peekn from 0 setlen) (\<lambda>from. bindE (peekn to 0 setlen) (\<lambda>to.
     Inr (s\<lparr>hbuf := map (mapchar from to) (take (sdslen s) (hbuf s)) @ drop (sdslen s) (hbuf s)\<rparr>)))"

subsection \<open>Quoting: sdscatrepr and sdssplitargs\<close>

definition hex_char :: "nat \<Rightarrow> char" where
  "hex_char d = (if d < 10 then char_of (48 + d) else char_of (87 + d))"

definition repr_char :: "char \<Rightarrow> char list" where
  \<comment> \<open>the text appended for one byte: the cases of the switch in \<open>sdscatrepr\<close>\<close>
  "repr_char c =
     (if c = CHR 0x5C \<or> c = CHR 0x22 then [CHR 0x5C, c]
      else if c = CHR 0x0A then [CHR 0x5C, CHR ''n'']
      else if c = CHR 0x0D then [CHR 0x5C, CHR ''r'']
      else if c = CHR 0x09 then [CHR 0x5C, CHR ''t'']
      else if c = CHR 0x07 then [CHR 0x5C, CHR ''a'']
      else if c = CHR 0x08 then [CHR 0x5C, CHR ''b'']
      else if isprint c then [c]
      else [CHR 0x5C, CHR ''x'', hex_char (of_char c div 16), hex_char (of_char c mod 16)])"

definition catrepr_char :: "allocator \<Rightarrow> sdshdr \<Rightarrow> char \<Rightarrow> sdshdr res" where
  "catrepr_char mal s c =
     (if c = CHR 0x5C \<or> c = CHR 0x22 then sdscatvprintf mal s [CHR 0x5C, CHR ''%'', CHR ''c''] (repr_char c)
      else if c \<in> {CHR 0x0A, CHR 0x0D, CHR 0x09, CHR 0x07, CHR 0x08} then sdscatlen mal s (repr_char c) 2
      else if isprint c then sdscatvprintf mal s ''%c'' (repr_char c)
      else sdscatvprintf mal s (CHR 0x5C # ''x%02x'') (repr_char c))"

fun catrepr_loop :: "allocator \<Rightarrow> sdshdr \<Rightarrow> char list \<Rightarrow> sdshdr res" where
  "catrepr_loop mal s [] = Inr s"
| "catrepr_loop mal s (c # p) = bindE (null_deref (catrepr_char mal s c)) (\<lambda>s. catrepr_loop mal s p)"

definition sdscatrepr :: "allocator \<Rightarrow> sdshdr \<Rightarrow> char list \<Rightarrow> nat \<Rightarrow> sdshdr res" where
  "sdscatrepr mal s p len =
     bindE (peekn p 0 len) (\<lambda>p.
     bindE (null_deref (sdscatlen mal s [CHR 0x22] 1)) (\<lambda>s.
     bindE (catrepr_loop mal s p) (\<lambda>s. sdscatlen mal s [CHR 0x22] 1)))"

definition is_hex_digit :: "char \<Rightarrow> bool" where
  "is_hex_digit c \<longleftrightarrow>
     (48 \<le> (of_char c :: nat) \<and> (of_char c :: nat) \<le> 57) \<or>
     (97 \<le> (of_char c :: nat) \<and> (of_char c :: nat) \<le> 102) \<or>
     (65 \<le> (of_char c :: nat) \<and> (of_char c :: nat) \<le> 70)"

definition hex_digit_to_int :: "char \<Rightarrow> nat" where
  "hex_digit_to_int c =
     (let n = (of_char c :: nat)
      in if 48 \<le> n \<and> n \<le> 57 then n - 48
         else if 97 \<le> n \<and> n \<le> 102 then n - 87
         else if 65 \<le> n \<and> n \<le> 70 then n - 55
         else 0)"

definition unescape :: "char \<Rightarrow> char" where
  \<comment> \<open>the escapes of a double-quoted argument other than \<open>\x\<close>\<close>
  "unescape c =
     (if c = CHR ''n'' then CHR 0x0A else if c = CHR ''r'' then CHR 0x0D
      else if c = CHR ''t'' then CHR 0x09 else if c = CHR ''b'' then CHR 0x08
      else if c = CHR ''a'' then CHR 0x07 else c)"

text \<open>
  The inner loop of \<open>sdssplitargs\<close>: \<open>inq\<close> and \<open>insq\<close> become a mode. The argument is the rest of
  the line, its end the terminator. Inr None is the jump to \<open>err\<close>.
\<close>

datatype quote_mode = Unquoted | InQ | InSQ

definition closes :: "char list \<Rightarrow> bool" where
  \<comment> \<open>a closing quote must be followed by a space or nothing\<close>
  "closes rest \<longleftrightarrow> rest = [] \<or> isspace (hd rest)"

fun hex_escape :: "char list \<Rightarrow> (char \<times> char list) option" where
  \<comment> \<open>the condition of the first branch for a double-quoted argument\<close>
  "hex_escape (b # x # h # l # rest) =
     (if b = CHR 0x5C \<and> x = CHR ''x'' \<and> is_hex_digit h \<and> is_hex_digit l
      then Some (char_of (hex_digit_to_int h * 16 + hex_digit_to_int l), rest) else None)"
| "hex_escape _ = None"

lemma hex_escape_length [termination_simp]: "hex_escape p = Some (c, rest) \<Longrightarrow> length rest < length p"
  by (cases p rule: hex_escape.cases) (auto split: if_splits)

definition cat1 :: "allocator \<Rightarrow> sdshdr \<Rightarrow> char \<Rightarrow> sdshdr res" where
  "cat1 mal current c = null_deref (sdscatlen mal current [c] 1)"

function split_token :: "allocator \<Rightarrow> quote_mode \<Rightarrow> sdshdr \<Rightarrow> char list \<Rightarrow> (sdshdr \<times> char list) option res" where
  "split_token mal InQ cur p =
     (case hex_escape p of
        Some (byte, rest) \<Rightarrow> bindE (cat1 mal cur byte) (\<lambda>cur. split_token mal InQ cur rest)
      | None \<Rightarrow>
        (case p of
           [] \<Rightarrow> Inr None
         | c # rest \<Rightarrow>
             if c = CHR 0x5C \<and> rest \<noteq> []
             then bindE (cat1 mal cur (unescape (hd rest))) (\<lambda>cur. split_token mal InQ cur (tl rest))
             else if c = CHR 0x22
             then (if closes rest then Inr (Some (cur, rest)) else Inr None)
             else bindE (cat1 mal cur c) (\<lambda>cur. split_token mal InQ cur rest)))"
| "split_token mal InSQ cur p =
     (case p of
        [] \<Rightarrow> Inr None
      | c # rest \<Rightarrow>
          if c = CHR 0x5C \<and> rest \<noteq> [] \<and> hd rest = CHR 0x27
          then bindE (cat1 mal cur (CHR 0x27)) (\<lambda>cur. split_token mal InSQ cur (tl rest))
          else if c = CHR 0x27
          then (if closes rest then Inr (Some (cur, rest)) else Inr None)
          else bindE (cat1 mal cur c) (\<lambda>cur. split_token mal InSQ cur rest))"
| "split_token mal Unquoted cur p =
     (case p of
        [] \<Rightarrow> Inr (Some (cur, []))
      | c # rest \<Rightarrow>
          if c \<in> {CHR '' '', CHR 0x0A, CHR 0x0D, CHR 0x09} then Inr (Some (cur, rest))
          else if c = CHR 0x22 then split_token mal InQ cur rest
          else if c = CHR 0x27 then split_token mal InSQ cur rest
          else bindE (cat1 mal cur c) (\<lambda>cur. split_token mal Unquoted cur rest))"
  by pat_completeness auto
termination
  by (relation "measure (\<lambda>(mal, mode, cur, p). length p)")
    (auto simp: hex_escape_length neq_Nil_conv)

declare split_token.simps [simp del]

lemma split_token_length:
  "split_token mal mode cur p = Inr (Some (t, rest)) \<Longrightarrow> length rest \<le> length p - 1"
proof (induction mal mode cur p rule: split_token.induct)
  case (1 mal cur p)
  show ?case
  proof (cases "hex_escape p")
    case (Some a)
    then obtain byte r where a: "hex_escape p = Some (byte, r)" by (cases a) auto
    with "1.prems" obtain cur' where c: "cat1 mal cur byte = Inr cur'"
      "split_token mal InQ cur' r = Inr (Some (t, rest))"
      unfolding split_token.simps(1) [of mal cur p] by (auto simp: bindE_Inr_iff)
    from "1.IH"(3) [OF a refl c] hex_escape_length [OF a] show ?thesis by linarith
  next
    case None
    with "1.prems" show ?thesis
      unfolding split_token.simps(1) [of mal cur p]
      by (cases p) (force simp: bindE_Inr_iff dest: "1.IH"(1,2) [OF None] split: if_splits)+
  qed
next
  case (2 mal cur p)
  then show ?case
    unfolding split_token.simps(2) [of mal cur p]
    by (cases p) (force simp: bindE_Inr_iff dest: "2.IH" split: if_splits)+
next
  case (3 mal cur p)
  then show ?case
    unfolding split_token.simps(3) [of mal cur p]
    by (cases p) (force simp: bindE_Inr_iff dest: "3.IH" split: if_splits)+
qed

text \<open>
  The outer loop. \<open>vec\<close> is the vector of tokens so far. A failed \<open>sdsempty\<close> is counted as
  dereferenced (it is, unless the token turns out to be empty).
\<close>

function splitargs_loop :: "allocator \<Rightarrow> sdshdr list \<Rightarrow> char list \<Rightarrow> sdshdr list option res" where
  "splitargs_loop mal vec p =
     (let p = dropWhile isspace p
      in if p \<noteq> []
         then bindE (null_deref (sdsempty mal)) (\<lambda>cur.
              bindE (split_token mal Unquoted cur p) (\<lambda>r.
              case r of None \<Rightarrow> Inr None
              | Some (tok, rest) \<Rightarrow>
                  bindE (null_deref (malloc mal (8 * (length vec + 1)))) (\<lambda>_.
                  splitargs_loop mal (vec @ [tok]) rest)))
         else bindE (if vec = [] then malloc mal 8 else Inr []) (\<lambda>_. Inr (Some vec)))"
  by pat_completeness auto
termination
proof (relation "measure (\<lambda>(mal, vec, p). length p)", goal_cases)
  case 1
  then show ?case by simp
next
  case (2 mal vec p p' cur r a tok rest blk)
  then have "length rest \<le> length p' - 1" "p' \<noteq> []" by (auto dest!: split_token_length)
  moreover have "length p' \<le> length p" using 2 by (simp add: length_dropWhile_le)
  ultimately show ?case by (cases p') auto
qed

declare splitargs_loop.simps [simp del]

definition sdssplitargs :: "allocator \<Rightarrow> char list \<Rightarrow> sdshdr list option res" where
  "sdssplitargs mal line = splitargs_loop mal [] (cstring line)"

subsection \<open>Trimming\<close>

definition trim_spec :: "(char \<Rightarrow> bool) \<Rightarrow> char list \<Rightarrow> char list" where
  "trim_spec P xs = rev (dropWhile P (rev (dropWhile P xs)))"

lemma trim_sp_take:
  "sp \<le> n \<Longrightarrow> n \<le> length buf \<Longrightarrow> sp \<le> trim_sp cset buf n sp \<and> trim_sp cset buf n sp \<le> n \<and>
   dropWhile (strchr_hit cset) (drop sp (take n buf)) = drop (trim_sp cset buf n sp) (take n buf)"
proof (induction cset buf n sp rule: trim_sp.induct)
  case (1 cset buf n sp)
  show ?case
  proof (cases "sp < n \<and> strchr_hit cset (buf ! sp)")
    case True
    then have "drop sp (take n buf) = buf ! sp # drop (Suc sp) (take n buf)"
      using "1.prems" by (subst Cons_nth_drop_Suc [symmetric]) auto
    then show ?thesis using True 1 by (subst (1 2 3) trim_sp.simps) auto
  next
    case False
    then show ?thesis
    proof (cases "sp < n")
      case True
      then have "drop sp (take n buf) = buf ! sp # drop (Suc sp) (take n buf)"
        using "1.prems" by (subst Cons_nth_drop_Suc [symmetric]) auto
      then show ?thesis using False True "1.prems" by (subst (1 2 3) trim_sp.simps) auto
    qed (use "1.prems" in \<open>subst (1 2 3) trim_sp.simps, auto\<close>)
  qed
qed

lemma trim_ep_take:
  "int sp \<le> ep \<Longrightarrow> nat ep < length buf \<Longrightarrow> \<not> strchr_hit cset (buf ! sp) \<Longrightarrow>
   int sp \<le> trim_ep cset buf sp ep \<and> trim_ep cset buf sp ep \<le> ep \<and>
   rev (dropWhile (strchr_hit cset) (rev (drop sp (take (Suc (nat ep)) buf))))
     = drop sp (take (Suc (nat (trim_ep cset buf sp ep))) buf)"
proof (induction cset buf sp ep rule: trim_ep.induct)
  case (1 cset buf sp ep)
  have snoc: "drop sp (take (Suc (nat ep)) buf) = drop sp (take (nat ep) buf) @ [buf ! nat ep]"
    using "1.prems" by (simp add: take_Suc_conv_app_nth)
  show ?case
  proof (cases "ep > int sp \<and> strchr_hit cset (buf ! nat ep)")
    case True
    then have "Suc (nat (ep - 1)) = nat ep" by auto
    then show ?thesis using True 1 snoc by (subst (1 2 3) trim_ep.simps) auto
  next
    case False
    then have "\<not> strchr_hit cset (buf ! nat ep)" using "1.prems" by (cases "ep = int sp") auto
    then show ?thesis using False "1.prems" snoc by (subst (1 2 3) trim_ep.simps) auto
  qed
qed

text \<open>The end of every operation that shortens a string in place: NUL, then the length.\<close>

lemma sds_truncate:
  assumes "sds_wf s" and "length b = length (hbuf s)" and "k \<le> sdsalloc s"
  shows "\<exists>s'. bindE (sds_poke (s\<lparr>hbuf := b\<rparr>) k [NUL]) (\<lambda>s. Inr (sdssetlen s k)) = Inr s' \<and>
     sds_wf s' \<and> sdsval s' = take k b"
proof -
  have k: "k + 1 \<le> length (hbuf s)" "k < 2 ^ sds_width (htype s)"
    using sds_wfD [OF assms(1)] assms by (auto simp: sds_wf_def sds_shape_def)
  have "length (take k b) \<le> sdsalloc s" using assms(3) by simp
  with sds_store_contents [OF assms(1) this refl] k assms(2,3) show ?thesis
    using sds_store_wf [OF assms(1,3), of "take k b @ NUL # drop (k + 1) b"]
    by (auto simp: sds_poke_ok sdssetlen_def sdsval_def nth_append)
qed

lemma sdstrim_ok:
  assumes wf: "sds_wf s"
  shows "\<exists>s'. sdstrim s cset = Inr s' \<and> sds_wf s' \<and> sdsval s' = trim_spec (strchr_hit cset) (sdsval s)"
proof -
  let ?n = "hlen s" and ?buf = "hbuf s" and ?P = "strchr_hit cset"
  define sp where "sp = trim_sp cset ?buf ?n 0"
  define ep where "ep = trim_ep cset ?buf sp (int ?n - 1)"
  define len where "len = (if int sp > ep then 0 else nat (ep - int sp + 1))"
  have n: "?n + 1 \<le> length ?buf" "?n \<le> sdsalloc s" using sds_wfD [OF wf] by auto
  have sp: "sp \<le> ?n" "dropWhile ?P (sdsval s) = drop sp (sdsval s)"
    using trim_sp_take [of 0 ?n ?buf cset] n by (auto simp: sp_def sdsval_def)
  have res: "len \<le> ?n - sp \<and> take len (drop sp ?buf) = trim_spec ?P (sdsval s)"
  proof (cases "sp = ?n")
    case True
    then have "ep = int ?n - 1" unfolding ep_def by (subst trim_ep.simps) simp
    then have "len = 0" using True by (simp add: len_def)
    moreover have "dropWhile ?P (sdsval s) = []" using True sp(2) by (simp add: sdsval_def)
    ultimately show ?thesis by (simp only: trim_spec_def) simp
  next
    case False
    then have lt: "sp < ?n" using sp by simp
    then have "drop sp (sdsval s) = ?buf ! sp # drop (Suc sp) (sdsval s)"
      using n by (subst Cons_nth_drop_Suc [symmetric]) (auto simp: sdsval_def)
    with sp(2) have "\<not> ?P (?buf ! sp)" by (metis hd_dropWhile list.distinct(1) list.sel(1))
    then have ep: "int sp \<le> ep" "ep \<le> int ?n - 1"
      "rev (dropWhile ?P (rev (drop sp (take (Suc (nat (int ?n - 1))) ?buf)))) = drop sp (take (Suc (nat ep)) ?buf)"
      using trim_ep_take [of sp "int ?n - 1" ?buf cset] lt n by (auto simp: ep_def)
    have e: "Suc (nat (int ?n - 1)) = ?n" "len = Suc (nat ep) - sp" using lt ep by (auto simp: len_def)
    show ?thesis
      using ep e sp lt by (auto simp: trim_spec_def sdsval_def drop_take)
  qed
  define b where "b = (if sp \<noteq> 0 then take len (drop sp ?buf) @ drop len ?buf else ?buf)"
  have "len + sp \<le> length ?buf" using res sp n by linarith
  then have mv: "(if sp \<noteq> 0 then bindE (peekn ?buf sp len) (\<lambda>xs. sds_poke s 0 xs) else Inr s) = Inr (s\<lparr>hbuf := b\<rparr>)"
    and lb: "length b = length ?buf" and tb: "take len b = take len (drop sp ?buf)"
    by (auto simp: peekn_Inr sds_poke_ok b_def add.commute)
  have "len \<le> sdsalloc s" using res n by linarith
  from sds_truncate [OF wf lb this] tb res show ?thesis
    unfolding sdstrim_def Let_def sdslen_def sp_def [symmetric] ep_def [symmetric] len_def [symmetric] mv
    by simp
qed

subsection \<open>Slicing\<close>

definition slice_index :: "nat \<Rightarrow> int \<Rightarrow> int" where
  "slice_index n i = (if i < 0 then max 0 (int n + i) else i)"

definition slice :: "char list \<Rightarrow> int \<Rightarrow> int \<Rightarrow> char list" where
  \<comment> \<open>the bytes from index \<open>i\<close> to index \<open>j\<close>, both included\<close>
  "slice xs i j =
     (let a = nat (slice_index (length xs) i); b = nat (slice_index (length xs) j)
      in take (Suc b - a) (drop a xs))"

lemma range_index_slice:
  "0 < n \<Longrightarrow> n < 2 ^ 31 \<Longrightarrow> - (2 ^ 31) \<le> i \<Longrightarrow> range_index n i = slice_index n i"
  by (auto simp: range_index_def slice_index_def to_int32_id)

lemma range_len_exact:
  "0 \<le> i \<Longrightarrow> j < 2 ^ 31 - 1 \<Longrightarrow> range_len i j = nat (j - i + 1)"
  by (auto simp: range_len_def to_int32_id)

lemma range_len_nonzero:
  assumes "0 \<le> i" and "i \<le> j" and "j < 2 ^ 31"
  shows "range_len i j \<noteq> 0"
proof (cases "j - i + 1 = 2 ^ 31")
  case True
  then show ?thesis using assms by (simp add: range_len_def to_int32_def)
next
  case False
  then show ?thesis using assms by (simp add: range_len_def to_int32_id)
qed

lemma sdsrange_ok:
  assumes wf: "sds_wf s" and len: "sdslen s < 2 ^ 31"
    and i: "- (2 ^ 31) \<le> i" "i < 2 ^ 31" and j: "- (2 ^ 31) \<le> j" "j < 2 ^ 31"
  shows "\<exists>s'. sdsrange s i j = Inr s' \<and> sds_wf s' \<and> sdsval s' = slice (sdsval s) i j"
proof (cases "sdslen s = 0")
  case True
  then show ?thesis using wf by (simp add: sdsrange_def slice_def sdsval_def sdslen_def)
next
  case False
  let ?n = "sdslen s"
  define a where "a = slice_index ?n i"
  define b where "b = slice_index ?n j"
  have ab: "range_index ?n i = a" "range_index ?n j = b" "0 \<le> a" "0 \<le> b" "a < 2 ^ 31" "b < 2 ^ 31"
    using len i j False by (auto simp: range_index_slice a_def b_def) (auto simp: slice_index_def)
  have sl: "to_int32 (int ?n) = int ?n" "to_int32 (int ?n - 1) = int ?n - 1"
    using len False by (auto simp: to_int32_id)
  define nl where "nl = (if range_len a b \<noteq> 0 then if a \<ge> int ?n then 0
       else if b \<ge> int ?n then range_len a (int ?n - 1) else range_len a b else 0)"
  define st where "st = (if range_len a b \<noteq> 0 then a else 0)"
  have nz: "range_len a b \<noteq> 0 \<longleftrightarrow> a \<le> b"
    using range_len_nonzero [OF ab(3) _ ab(6)] by (auto simp: range_len_def)
  have nl: "nl = (if a \<le> b \<and> a < int ?n then nat (min b (int ?n - 1) - a + 1) else 0)"
    using nz len ab by (auto simp: nl_def range_len_exact)
  have st: "st = (if a \<le> b then a else 0)" using nz by (simp add: st_def)
  have n: "?n + 1 \<le> length (hbuf s)" "?n \<le> sdsalloc s" using sds_wfD [OF wf] by (auto simp: sdslen_def)
  have le: "nl \<le> ?n" "nl \<noteq> 0 \<Longrightarrow> nat st + nl \<le> ?n" using ab by (auto simp: nl st)
  define c where "c = (if st \<noteq> 0 \<and> nl \<noteq> 0 then take nl (drop (nat st) (hbuf s)) @ drop nl (hbuf s) else hbuf s)"
  have mv: "(if st \<noteq> 0 \<and> nl \<noteq> 0 then bindE (peekn (hbuf s) (nat st) nl) (\<lambda>xs. sds_poke s 0 xs) else Inr s)
      = Inr (s\<lparr>hbuf := c\<rparr>)" and lc: "length c = length (hbuf s)"
    using le n by (auto simp: peekn_Inr sds_poke_ok c_def)
  have lv: "length (sdsval s) = ?n" using sdsval_length wf by simp
  have "take nl c = slice (sdsval s) i j"
  proof (cases "nl = 0")
    case True
    then show ?thesis using ab lv
      by (auto simp: nl slice_def a_def [symmetric] b_def [symmetric] split: if_splits)
  next
    case False
    have "take nl c = take nl (drop (nat st) (hbuf s))"
      using False le n ab by (auto simp: c_def st)
    also have "\<dots> = take nl (drop (nat a) (sdsval s))"
      using False le n ab by (auto simp: st nl sdsval_def sdslen_def drop_take min_def split: if_splits)
    also have "\<dots> = take (Suc (nat b) - nat a) (drop (nat a) (sdsval s))"
    proof (cases "b < int ?n")
      case True
      then have "nl = Suc (nat b) - nat a" using False ab by (auto simp: nl split: if_splits)
      then show ?thesis by simp
    next
      case ge: False
      then have "length (drop (nat a) (sdsval s)) \<le> nl"
        "length (drop (nat a) (sdsval s)) \<le> Suc (nat b) - nat a"
        using False ab lv by (auto simp: nl split: if_splits)
      then show ?thesis by simp
    qed
    finally show ?thesis using lv by (simp add: slice_def Let_def a_def b_def)
  qed
  moreover have "nl \<le> sdsalloc s" using le n by simp
  ultimately show ?thesis
    using sds_truncate [OF wf lc, of nl] False
    unfolding sdsrange_def Let_def ab(1,2) sl nl_def [symmetric] st_def [symmetric] mv by simp
qed

subsection \<open>Comparison\<close>

definition byte_less :: "(char \<times> char) set" where
  "byte_less = {(a, b). (of_char a :: nat) < of_char b}"

lemma memcmp_cases:
  "length xs = length ys \<Longrightarrow>
   (memcmp xs ys = 0 \<longleftrightarrow> xs = ys) \<and> (memcmp xs ys < 0 \<longleftrightarrow> (xs, ys) \<in> lexord byte_less)"
  by (induction xs ys rule: memcmp.induct) (auto simp: byte_less_def)

lemma lexord_append_differ:
  "length u = length u' \<Longrightarrow> u \<noteq> u' \<Longrightarrow> (u @ xs, u' @ ys) \<in> lexord r \<longleftrightarrow> (u, u') \<in> lexord r"
  by (induction u u' rule: list_induct2) auto

lemma lexord_prefix:
  assumes "k \<le> length xs" "k \<le> length ys" "take k xs \<noteq> take k ys"
  shows "(xs, ys) \<in> lexord r \<longleftrightarrow> (take k xs, take k ys) \<in> lexord r"
  using lexord_append_differ [of "take k xs" "take k ys" "drop k xs" "drop k ys" r] assms by simp

lemma lexord_take_eq:
  assumes "k \<le> length xs" "k \<le> length ys" "take k xs = take k ys" "k = length xs \<or> k = length ys" "irrefl r"
  shows "(xs, ys) \<in> lexord r \<longleftrightarrow> length xs < length ys"
  using assms
proof (induction k arbitrary: xs ys)
  case 0
  then show ?case by (cases xs; cases ys) (auto dest: lexord_irreflexive)
next
  case (Suc k)
  then obtain x xs' y ys' where "xs = x # xs'" "ys = y # ys'" by (cases xs; cases ys) auto
  then show ?case using Suc.IH [of xs' ys'] Suc.prems by (simp add: irrefl_def)
qed

lemma irrefl_byte_less: "irrefl byte_less"
  by (auto simp: irrefl_def byte_less_def)

lemma sdscmp_lexord:
  assumes wf: "sds_wf s1" "sds_wf s2" and len: "sdslen s1 < 2 ^ 31" "sdslen s2 < 2 ^ 31"
  shows "(sdscmp s1 s2 = 0 \<longleftrightarrow> sdsval s1 = sdsval s2) \<and>
         (sdscmp s1 s2 < 0 \<longleftrightarrow> (sdsval s1, sdsval s2) \<in> lexord byte_less)"
proof -
  let ?v1 = "sdsval s1" and ?v2 = "sdsval s2"
  define k where "k = (if sdslen s1 < sdslen s2 then sdslen s1 else sdslen s2)"
  have l: "length ?v1 = sdslen s1" "length ?v2 = sdslen s2" using wf by (auto simp: sdsval_length)
  have k: "k \<le> length ?v1" "k \<le> length ?v2" "k = length ?v1 \<or> k = length ?v2"
    using l by (auto simp: k_def)
  have t: "take k (hbuf s1) = take k ?v1" "take k (hbuf s2) = take k ?v2"
    using k l by (auto simp: sdsval_def sdslen_def min_def)
  have d: "to_int32 (int (sdslen s1) - int (sdslen s2)) = int (sdslen s1) - int (sdslen s2)"
    using len by (intro to_int32_id) auto
  have c: "sdscmp s1 s2 = (if memcmp (take k ?v1) (take k ?v2) = 0
       then int (length ?v1) - int (length ?v2) else memcmp (take k ?v1) (take k ?v2))"
    by (simp add: sdscmp_def Let_def k_def [symmetric] t d l)
  have m: "memcmp (take k ?v1) (take k ?v2) = 0 \<longleftrightarrow> take k ?v1 = take k ?v2"
    "memcmp (take k ?v1) (take k ?v2) < 0 \<longleftrightarrow> (take k ?v1, take k ?v2) \<in> lexord byte_less"
    using memcmp_cases [of "take k ?v1" "take k ?v2"] k by auto
  show ?thesis
  proof (cases "take k ?v1 = take k ?v2")
    case True
    have "?v1 = ?v2 \<longleftrightarrow> length ?v1 = length ?v2" using True k(3) by auto
    with True m lexord_take_eq [OF k(1,2) True k(3) irrefl_byte_less] show ?thesis
      unfolding c by auto
  next
    case False
    with m lexord_prefix [OF k(1,2) False, of byte_less] show ?thesis unfolding c by auto
  qed
qed

subsection \<open>Joining\<close>

lemma grants_Inr: "grants_all mal \<Longrightarrow> res_ok mal P r \<Longrightarrow> \<exists>x. r = Inr x \<and> null_deref r = Inr x \<and> P x"
  by (cases r) (auto simp: null_deref_def)

fun intersperse_join :: "char list \<Rightarrow> char list list \<Rightarrow> char list" where
  "intersperse_join sep [] = []"
| "intersperse_join sep [x] = x"
| "intersperse_join sep (x # y # xs) = x @ sep @ intersperse_join sep (y # xs)"

lemma join_loop_ok:
  assumes cat: "\<And>s x. sds_wf s \<Longrightarrow> P x \<Longrightarrow> sdslen s + length (val x) < 2 ^ 62 \<Longrightarrow>
      \<exists>s'. cat s x = Inr s' \<and> null_deref (cat s x) = Inr s' \<and> sds_wf s' \<and> sdsval s' = sdsval s @ val x"
    and sp: "\<And>s. sds_wf s \<Longrightarrow> sdslen s + length sepv < 2 ^ 62 \<Longrightarrow>
      \<exists>s'. null_deref (sep s) = Inr s' \<and> sds_wf s' \<and> sdsval s' = sdsval s @ sepv"
  shows "sds_wf s \<Longrightarrow> \<forall>x\<in>set xs. P x \<Longrightarrow>
     length (sdsval s) + length (intersperse_join sepv (map val xs)) < 2 ^ 62 \<Longrightarrow>
     \<exists>s'. join_loop cat sep xs s = Inr s' \<and> sds_wf s' \<and>
       sdsval s' = sdsval s @ intersperse_join sepv (map val xs)"
proof (induction xs arbitrary: s rule: induct_list012)
  case 1
  then show ?case by simp
next
  case (2 x)
  from cat [of s x] 2 obtain s' where "cat s x = Inr s'" "sds_wf s'" "sdsval s' = sdsval s @ val x"
    by (auto simp: sdsval_length)
  then show ?case by simp
next
  case (3 x y xs)
  from cat [of s x] 3 obtain s1 where s1: "null_deref (cat s x) = Inr s1" "sds_wf s1" "sdsval s1 = sdsval s @ val x"
    by (auto simp: sdsval_length)
  then have l1: "sdslen s1 = length (sdsval s) + length (val x)" by (metis length_append sdsval_length sds_wf_shape)
  from sp [OF s1(2)] 3 l1 obtain s2 where s2: "null_deref (sep s1) = Inr s2" "sds_wf s2" "sdsval s2 = sdsval s1 @ sepv"
    by auto
  from "3.IH"(2) [OF s2(2)] "3.prems" s1 s2 obtain s3 where
    "join_loop cat sep (y # xs) s2 = Inr s3" "sds_wf s3" "sdsval s3 = sdsval s2 @ intersperse_join sepv (map val (y # xs))"
    by auto
  then show ?case using s1 s2 by simp
qed

lemma sdsjoinsds_ok:
  assumes "grants_all mal" and "\<forall>t\<in>set argv. sds_wf t" and "seplen \<le> length sep"
    and "length (intersperse_join (take seplen sep) (map sdsval argv)) < 2 ^ 62"
  shows "\<exists>s. sdsjoinsds mal argv sep seplen = Inr s \<and> sds_wf s \<and>
     sdsval s = intersperse_join (take seplen sep) (map sdsval argv)"
proof -
  from grants_Inr [OF assms(1) sdsempty_ok] obtain e where
    e: "sdsempty mal = Inr e" "null_deref (sdsempty mal) = Inr e" "sds_wf e" "sdsval e = []"
    by auto
  have cat: "\<exists>s'. sdscatsds mal s t = Inr s' \<and> null_deref (sdscatsds mal s t) = Inr s' \<and> sds_wf s' \<and>
      sdsval s' = sdsval s @ sdsval t"
    if "sds_wf s" "sds_wf t" "sdslen s + length (sdsval t) < 2 ^ 62" for s t
    using grants_Inr [OF assms(1) sdscatlen_ok [OF that(1), of "sdslen t" "hbuf t"]] that sds_wfD(3) [OF that(2)]
    by (auto simp: sdscatsds_def sdsval_length) (auto simp: sdslen_def sdsval_def)
  have sp: "\<exists>s'. null_deref (sdscatlen mal s sep seplen) = Inr s' \<and> sds_wf s' \<and>
      sdsval s' = sdsval s @ take seplen sep"
    if "sds_wf s" "sdslen s + length (take seplen sep) < 2 ^ 62" for s
    using grants_Inr [OF assms(1) sdscatlen_ok [OF that(1) assms(3)]] that assms(3) by auto
  show ?thesis
  proof (cases "argv = []")
    case True
    then show ?thesis using e by (simp add: sdsjoinsds_def)
  next
    case False
    from join_loop_ok [where P = sds_wf and val = sdsval and cat = "sdscatsds mal"
        and sep = "\<lambda>join. sdscatlen mal join sep seplen" and sepv = "take seplen sep", OF cat sp e(3) assms(2)]
    show ?thesis using False e assms(4) by (auto simp: sdsjoinsds_def)
  qed
qed

lemma sdsjoin_ok:
  assumes "grants_all mal" and "length (intersperse_join (cstring sep) (map cstring argv)) < 2 ^ 62"
  shows "\<exists>s. sdsjoin mal argv sep = Inr s \<and> sds_wf s \<and>
     sdsval s = intersperse_join (cstring sep) (map cstring argv)"
proof -
  from grants_Inr [OF assms(1) sdsempty_ok] obtain e where
    e: "sdsempty mal = Inr e" "null_deref (sdsempty mal) = Inr e" "sds_wf e" "sdsval e = []"
    by auto
  have cat: "\<exists>s'. sdscat mal s t = Inr s' \<and> null_deref (sdscat mal s t) = Inr s' \<and> sds_wf s' \<and>
      sdsval s' = sdsval s @ cstring t"
    if "sds_wf s" "sdslen s + length (cstring t) < 2 ^ 62" for s t
    using grants_Inr [OF assms(1) sdscat_ok [OF that]] by auto
  have sp: "\<exists>s'. null_deref (sdscat mal s sep) = Inr s' \<and> sds_wf s' \<and> sdsval s' = sdsval s @ cstring sep"
    if "sds_wf s" "sdslen s + length (cstring sep) < 2 ^ 62" for s
    using cat [OF that] by auto
  show ?thesis
  proof (cases "argv = []")
    case True
    then show ?thesis using e by (simp add: sdsjoin_def)
  next
    case False
    from join_loop_ok [where P = "\<lambda>_. True" and val = cstring and cat = "sdscat mal"
        and sep = "\<lambda>join. sdscat mal join sep" and sepv = "cstring sep", OF cat sp e(3)]
    show ?thesis using False e assms(2) by (auto simp: sdsjoin_def)
  qed
qed

subsection \<open>Splitting\<close>

definition sep_here :: "char list \<Rightarrow> char list \<Rightarrow> nat \<Rightarrow> bool" where
  "sep_here s sep i \<longleftrightarrow> i + length sep \<le> length s \<and> take (length sep) (drop i s) = sep"

definition occurs :: "char list \<Rightarrow> char list \<Rightarrow> bool" where
  "occurs sep v \<longleftrightarrow> (\<exists>i \<le> length v. sep_here v sep i)"

lemma sep_at_here:
  assumes "sep \<noteq> []" and "j + length sep \<le> length s"
  shows "sep_at s sep j \<longleftrightarrow> sep_here s sep j"
proof -
  have "take (length sep) (drop j s) = sep" if "length sep = 1" "s ! j = sep ! 0"
  proof -
    from that(1) obtain c where c: "sep = [c]" by (cases sep) auto
    then have "drop j s = s ! j # drop (Suc j) s" using assms(2) by (subst Cons_nth_drop_Suc) auto
    then show ?thesis using that c by simp
  qed
  then show ?thesis using assms by (auto simp: sep_at_def sep_here_def)
qed

lemma sep_here_drop: "sep \<noteq> [] \<Longrightarrow> sep_here (drop a s) sep i \<Longrightarrow> sep_here s sep (a + i)"
  by (cases "a \<le> length s") (auto simp: sep_here_def add.commute)

lemma sep_here_take: "sep_here (take n s) sep i \<Longrightarrow> i + length sep \<le> n \<and> sep_here s sep i"
  by (auto simp: sep_here_def drop_take min_def split: if_splits)

lemma intersperse_join_Cons:
  "ys \<noteq> [] \<Longrightarrow> intersperse_join sep (x # ys) = x @ sep @ intersperse_join sep ys"
  by (cases ys) auto

lemma split_loop_ok:
  "grants_all mal \<Longrightarrow> sep \<noteq> [] \<Longrightarrow> start \<le> j \<Longrightarrow> start \<le> length s \<Longrightarrow> length s < 2 ^ 62 \<Longrightarrow>
   \<forall>i. start \<le> i \<and> i < j \<longrightarrow> \<not> sep_here s sep i \<Longrightarrow>
   \<exists>start' ts. split_loop mal s sep slots start j toks = Inr (start', toks @ ts) \<and> start' \<le> length s \<and>
     (\<forall>t\<in>set ts. sds_wf t \<and> \<not> occurs sep (sdsval t)) \<and> \<not> occurs sep (drop start' s) \<and>
     drop start s = intersperse_join sep (map sdsval ts @ [drop start' s])"
proof (induction mal s sep slots start j toks rule: split_loop.induct)
  case (1 mal s sep slots start j toks)
  show ?case
  proof (cases "j < length s - (length sep - 1)")
    case False
    have "\<not> sep_here (drop start s) sep i" for i
    proof
      assume *: "sep_here (drop start s) sep i"
      then have "start + i < j" using False "1.prems" by (cases sep) (auto simp: sep_here_def)
      then show False using sep_here_drop [OF "1.prems"(2) *] "1.prems"(6) by auto
    qed
    then show ?thesis using False "1.prems"(4) by (subst split_loop.simps) (auto simp: occurs_def)
  next
    case True
    with "1.prems" have jk: "j + length sep \<le> length s" and cond: "j < length s - (length sep - 1) \<and> sep \<noteq> []"
      by (cases sep; auto)+
    obtain slots' where sl: "(if slots < length toks + 2
        then bindE (malloc mal (8 * (slots * 2))) (\<lambda>_. Inr (slots * 2)) else Inr slots) = Inr slots'"
      using res_ok_total [OF res_ok_malloc "1.prems"(1), of "8 * (slots * 2)"] by (cases "slots < length toks + 2") auto
    show ?thesis
    proof (cases "sep_at s sep j")
      case sep: True
      let ?v = "take (j - start) (drop start s)"
      have "j - start < 2 ^ 62" "j - start \<le> length (drop start s)" using "1.prems" jk by auto
      with res_ok_total [OF sdsnewlen_ok "1.prems"(1), of "j - start" "Some (drop start s)"] obtain tok where
        tok: "sdsnewlen mal (Some (drop start s)) (j - start) = Inr tok" "sds_wf tok" "sdsval tok = ?v"
        by auto
      have nov: "\<not> occurs sep ?v"
      proof
        assume "occurs sep ?v"
        then obtain i where "sep_here ?v sep i" by (auto simp: occurs_def)
        from sep_here_take [OF this] sep_here_drop [OF "1.prems"(2)] "1.prems"(2,6) show False
          by (cases sep) fastforce+
      qed
      have triv: "\<forall>i. j + length sep \<le> i \<and> i < j + length sep \<longrightarrow> \<not> sep_here s sep i" by auto
      from "1.IH"(1) [OF cond sl sep tok(1) "1.prems"(1,2) order_refl jk "1.prems"(5) triv] obtain start' ts where
        r: "split_loop mal s sep slots' (j + length sep) (j + length sep) (toks @ [tok]) = Inr (start', (toks @ [tok]) @ ts)"
        "start' \<le> length s" "\<forall>t\<in>set ts. sds_wf t \<and> \<not> occurs sep (sdsval t)" "\<not> occurs sep (drop start' s)"
        "drop (j + length sep) s = intersperse_join sep (map sdsval ts @ [drop start' s])"
        by blast
      have "sep_here s sep j" using sep sep_at_here [OF "1.prems"(2) jk] by simp
      then have "drop j s = sep @ drop (j + length sep) s"
        using append_take_drop_id [of "length sep" "drop j s"] by (auto simp: sep_here_def add.commute)
      moreover have "drop start s = ?v @ drop j s"
        using append_take_drop_id [of "j - start" "drop start s"] "1.prems"(3) by simp
      ultimately have "drop start s = intersperse_join sep (map sdsval (tok # ts) @ [drop start' s])"
        using r(5) tok(3) by (simp add: intersperse_join_Cons)
      moreover have "split_loop mal s sep slots start j toks = Inr (start', toks @ tok # ts)"
        using cond sl sep tok(1) r(1) by (subst split_loop.simps) simp
      ultimately show ?thesis using r tok nov
        by (intro exI [of _ start'] exI [of _ "tok # ts"]) (simp del: map_append)
    next
      case no: False
      then have nh: "\<not> sep_here s sep j" using sep_at_here [OF "1.prems"(2) jk] by simp
      have "\<forall>i. start \<le> i \<and> i < Suc j \<longrightarrow> \<not> sep_here s sep i"
        using "1.prems"(6) nh by (auto simp: less_Suc_eq)
      with "1.IH"(2) [OF cond sl no] "1.prems" show ?thesis
        using cond sl no by (subst split_loop.simps) simp
    qed
  qed
qed

lemma sdssplitlen_ok:
  assumes "grants_all mal" and "0 < length s" and "length s < 2 ^ 31" and "0 < length sep"
  shows "\<exists>toks. sdssplitlen mal s (int (length s)) sep (int (length sep)) = Inr (Some toks) \<and>
     (\<forall>t\<in>set toks. sds_wf t \<and> \<not> occurs sep (sdsval t)) \<and>
     intersperse_join sep (map sdsval toks) = s"
proof -
  have ne: "sep \<noteq> []" "s \<noteq> []" and b: "length s < 2 ^ 62" using assms by auto
  obtain blk where m: "malloc mal 40 = Inr blk"
    using res_ok_total [OF res_ok_malloc assms(1)] by blast
  from split_loop_ok [OF assms(1) ne(1) _ _ b, of 0 0 5 "[]"] obtain start ts where
    r: "split_loop mal s sep 5 0 0 [] = Inr (start, ts)" "start \<le> length s"
    "\<forall>t\<in>set ts. sds_wf t \<and> \<not> occurs sep (sdsval t)" "\<not> occurs sep (drop start s)"
    "s = intersperse_join sep (map sdsval ts @ [drop start s])"
    by auto
  have "length s - start < 2 ^ 62" "length s - start \<le> length (drop start s)" using b by auto
  with res_ok_total [OF sdsnewlen_ok assms(1), of "length s - start" "Some (drop start s)"] obtain tok where
    tok: "sdsnewlen mal (Some (drop start s)) (length s - start) = Inr tok" "sds_wf tok" "sdsval tok = drop start s"
    by auto
  have "sdssplitlen mal s (int (length s)) sep (int (length sep)) = Inr (Some (ts @ [tok]))"
    using m r(1) tok(1) ne assms(4) by (simp add: sdssplitlen_def)
  then show ?thesis using r tok by (intro exI [of _ "ts @ [tok]"]) auto
qed

subsection \<open>Quoting and parsing back\<close>

definition quoted :: "char list \<Rightarrow> char list" where
  "quoted x = CHR 0x22 # concat (map repr_char x) @ [CHR 0x22]"

lemma hex_digit_round: "d < 16 \<Longrightarrow> hex_digit_to_int (hex_char d) = d \<and> is_hex_digit (hex_char d)"
  by (auto simp: hex_char_def hex_digit_to_int_def is_hex_digit_def Let_def of_char_of)

lemma of_char_lt: "(of_char c :: nat) < 256"
  by (metis of_char_mod_256 mod_less_divisor zero_less_numeral)

lemma of_char_div16: "(of_char c :: nat) div 16 < 16"
  using of_char_lt [of c] by linarith

lemma char_of_hex: "char_of (hex_digit_to_int (hex_char (of_char c div 16)) * 16
    + hex_digit_to_int (hex_char (of_char c mod 16)) :: nat) = c"
  by (simp add: hex_digit_round of_char_div16)

lemma repr_char_NUL: "NUL \<notin> set (repr_char c)"
proof -
  have nh: "\<not> is_hex_digit NUL" by (simp add: is_hex_digit_def)
  have h: "hex_char d \<noteq> NUL" "NUL \<noteq> hex_char d" if "d < 16" for d
    using hex_digit_round [OF that] nh by metis+
  have "isprint c \<Longrightarrow> c \<noteq> NUL" by (auto simp: isprint_def)
  then show ?thesis
    using h(1) [OF of_char_div16 [of c]] h(2) [OF of_char_div16 [of c]] h(1) [of "of_char c mod 16"] h(2) [of "of_char c mod 16"]
    by (auto simp: repr_char_def)
qed

lemma quoted_NUL: "NUL \<notin> set (quoted x)"
  using repr_char_NUL by (auto simp: quoted_def)

lemma length_repr_char: "length (repr_char c) \<le> 4"
  by (simp add: repr_char_def)

lemma split_token_repr:
  "split_token mal InQ cur (repr_char c @ p)
     = bindE (cat1 mal cur c) (\<lambda>cur. split_token mal InQ cur p)"
proof (cases "c \<in> {CHR 0x5C, CHR 0x22, CHR 0x0A, CHR 0x0D, CHR 0x09, CHR 0x07, CHR 0x08}")
  case True
  then obtain d where d: "repr_char c = [CHR 0x5C, d]" "unescape d = c" "d \<noteq> CHR ''x''"
    by (auto simp: repr_char_def unescape_def)
  have "hex_escape (CHR 0x5C # d # p) = None"
    using d(3) by (cases "CHR 0x5C # d # p" rule: hex_escape.cases) auto
  with d show ?thesis by (subst split_token.simps) simp
next
  case False
  show ?thesis
  proof (cases "isprint c")
    case True
    with False have r: "repr_char c = [c]" by (auto simp: repr_char_def)
    have "hex_escape (c # p) = None"
      using False by (cases "c # p" rule: hex_escape.cases) auto
    with r False show ?thesis by (subst split_token.simps) simp
  next
    case np: False
    with False have r: "repr_char c = [CHR 0x5C, CHR ''x'', hex_char (of_char c div 16), hex_char (of_char c mod 16)]"
      by (auto simp: repr_char_def)
    have "(of_char c :: nat) div 16 < 16" by (rule of_char_div16)
    then have "hex_escape (repr_char c @ p) = Some (c, p)"
      unfolding r by (simp add: hex_digit_round char_of_hex)
    then show ?thesis by (subst split_token.simps) simp
  qed
qed

lemma cat1_ok:
  assumes "grants_all mal" "sds_wf s" "sdslen s + 1 < 2 ^ 62"
  shows "\<exists>s'. cat1 mal s c = Inr s' \<and> sds_wf s' \<and> sdsval s' = sdsval s @ [c]"
  using grants_Inr [OF assms(1) sdscatlen_ok [OF assms(2), of 1 "[c]"]] assms(3) by (auto simp: cat1_def)

lemma split_token_quoted:
  assumes "grants_all mal" "closes rest"
  shows "sds_wf cur \<Longrightarrow> sdslen cur + length x < 2 ^ 62 \<Longrightarrow>
    \<exists>cur'. split_token mal InQ cur (concat (map repr_char x) @ CHR 0x22 # rest) = Inr (Some (cur', rest)) \<and>
      sds_wf cur' \<and> sdsval cur' = sdsval cur @ x"
proof (induction x arbitrary: cur)
  case Nil
  have "hex_escape (CHR 0x22 # rest) = None"
    by (cases "CHR 0x22 # rest" rule: hex_escape.cases) auto
  with Nil assms show ?case by (simp, subst split_token.simps) simp
next
  case (Cons c x)
  from cat1_ok [OF assms(1) Cons.prems(1), of c] Cons.prems(2) obtain s' where
    s': "cat1 mal cur c = Inr s'" "sds_wf s'" "sdsval s' = sdsval cur @ [c]" by auto
  then have "sdslen s' = sdslen cur + 1"
    using Cons.prems(1) by (metis length_append length_Cons list.size(3) One_nat_def add_Suc_right add_0_right sdsval_length sds_wf_shape)
  with Cons.IH [OF s'(2)] Cons.prems(2) s' show ?case by (auto simp: split_token_repr)
qed

lemma sdssplitargs_quoted:
  assumes "grants_all mal" "length x < 2 ^ 61"
  shows "\<exists>tok. sdssplitargs mal (quoted x) = Inr (Some [tok]) \<and> sds_wf tok \<and> sdsval tok = x"
proof -
  from grants_Inr [OF assms(1) sdsempty_ok] obtain e where
    e: "null_deref (sdsempty mal) = Inr e" "sds_wf e" "sdsval e = []" "sdslen e = 0"
    by auto
  from split_token_quoted [OF assms(1), of "[]" e x] e assms(2) obtain tok where
    tok: "split_token mal InQ e (concat (map repr_char x) @ [CHR 0x22]) = Inr (Some (tok, []))"
    "sds_wf tok" "sdsval tok = x"
    by (auto simp: closes_def)
  have q: "split_token mal Unquoted e (quoted x) = Inr (Some (tok, []))"
    using tok(1) unfolding quoted_def by (subst split_token.simps) simp
  have d: "dropWhile isspace (quoted x) = quoted x" "quoted x \<noteq> []"
    by (auto simp: quoted_def isspace_def)
  obtain blk where m: "null_deref (malloc mal 8) = Inr blk"
    using grants_Inr [OF assms(1) res_ok_malloc] by blast
  have "splitargs_loop mal [] (quoted x) = Inr (Some [tok])"
    using e q d m by (subst splitargs_loop.simps) (subst splitargs_loop.simps, simp)
  then show ?thesis using tok by (simp add: sdssplitargs_def cstring_id quoted_NUL)
qed

lemma catrepr_char_ok:
  assumes "grants_all mal" "sds_wf s" "sdslen s + 4 < 2 ^ 62"
  shows "\<exists>s'. null_deref (catrepr_char mal s c) = Inr s' \<and> sds_wf s' \<and> sdsval s' = sdsval s @ repr_char c"
proof -
  have c: "cstring (repr_char c) = repr_char c" using cstring_id [OF repr_char_NUL] .
  have v: "\<exists>s'. null_deref (sdscatvprintf mal s f (repr_char c)) = Inr s' \<and> sds_wf s' \<and> sdsval s' = sdsval s @ repr_char c" for f
    using grants_Inr [OF assms(1) sdscatvprintf_ok [OF assms(2), of "repr_char c" mal f]] assms(3) length_repr_char [of c]
    by (auto simp: c)
  have l: "c \<in> {CHR 0x0A, CHR 0x0D, CHR 0x09, CHR 0x07, CHR 0x08} \<Longrightarrow> length (repr_char c) = 2"
    by (auto simp: repr_char_def)
  have "\<exists>s'. null_deref (sdscatlen mal s (repr_char c) 2) = Inr s' \<and> sds_wf s' \<and> sdsval s' = sdsval s @ repr_char c"
    if "c \<in> {CHR 0x0A, CHR 0x0D, CHR 0x09, CHR 0x07, CHR 0x08}"
    using grants_Inr [OF assms(1) sdscatlen_ok [OF assms(2), of 2 "repr_char c"]] assms(3) l [OF that] by auto
  then show ?thesis using v by (auto simp: catrepr_char_def)
qed

lemma catrepr_loop_ok:
  assumes "grants_all mal"
  shows "sds_wf s \<Longrightarrow> sdslen s + 4 * length p < 2 ^ 62 \<Longrightarrow>
    \<exists>s'. catrepr_loop mal s p = Inr s' \<and> sds_wf s' \<and> sdsval s' = sdsval s @ concat (map repr_char p)"
proof (induction p arbitrary: s)
  case (Cons c p)
  from catrepr_char_ok [OF assms Cons.prems(1), of c] Cons.prems(2) obtain s1 where
    s1: "null_deref (catrepr_char mal s c) = Inr s1" "sds_wf s1" "sdsval s1 = sdsval s @ repr_char c" by auto
  then have "sdslen s1 = sdslen s + length (repr_char c)"
    using Cons.prems(1) by (metis length_append sdsval_length sds_wf_shape)
  with Cons.IH [OF s1(2)] Cons.prems(2) s1 length_repr_char [of c] show ?case by auto
qed simp

lemma sdscatrepr_ok:
  assumes "grants_all mal" "sds_wf s" "len \<le> length p" "sdslen s + 4 * len + 2 < 2 ^ 62"
  shows "\<exists>s'. sdscatrepr mal s p len = Inr s' \<and> sds_wf s' \<and> sdsval s' = sdsval s @ quoted (take len p)"
proof -
  from grants_Inr [OF assms(1) sdscatlen_ok [OF assms(2), of 1 "[CHR 0x22]"]] assms(4) obtain s1 where
    s1: "null_deref (sdscatlen mal s [CHR 0x22] 1) = Inr s1" "sds_wf s1" "sdsval s1 = sdsval s @ [CHR 0x22]" by auto
  have n1: "sdslen s1 = sdslen s + 1"
    using s1 sdsval_length [of s] sdsval_length [of s1] assms(2) by simp
  from catrepr_loop_ok [OF assms(1) s1(2), of "take len p"] n1 assms(3,4) obtain s2 where
    s2: "catrepr_loop mal s1 (take len p) = Inr s2" "sds_wf s2"
    "sdsval s2 = sdsval s1 @ concat (map repr_char (take len p))" by auto
  have "length (concat (map repr_char q)) \<le> 4 * length q" for q
    using length_repr_char by (induction q) (auto intro: add_mono)
  from this [of "take len p"] have n2: "sdslen s2 \<le> sdslen s + 1 + 4 * len"
    using s2 n1 sdsval_length [of s2] sdsval_length [of s1] s1(2) assms(3) by simp
  from grants_Inr [OF assms(1) sdscatlen_ok [OF s2(2), of 1 "[CHR 0x22]"]] n2 assms(4) obtain s3 where
    s3: "sdscatlen mal s2 [CHR 0x22] 1 = Inr s3" "sds_wf s3" "sdsval s3 = sdsval s2 @ [CHR 0x22]" by auto
  have "peekn p 0 len = Inr (take len p)" using assms(3) by (simp add: peekn_Inr)
  then show ?thesis using s1 s2 s3 by (simp add: sdscatrepr_def quoted_def)
qed

end
