(* ===== verification/Reader.thy ===== *)
theory Reader
  imports SdsOps
begin

section \<open>The reply reader (hiredis/read.c, hiredis/read.h)\<close>

text \<open>
  The incremental parser of the Redis protocol: a buffer with a cursor, a stack of nine read
  tasks and the functions that build reply objects. Pointers to objects are natural numbers,
  0 is NULL; the store \<open>'h\<close> they point into belongs to the builder functions, which are a
  record of optional functions as in the code. A task's parent pointer is the index of the
  parent in the stack. Every operation returns its int status with the new state, or the
  failure that ends it.
\<close>

subsection \<open>Types and constants (read.h)\<close>

abbreviation (input) REDIS_OK :: int where "REDIS_OK \<equiv> 0"
abbreviation (input) REDIS_ERR :: int where "REDIS_ERR \<equiv> - 1"

abbreviation (input) REDIS_ERR_IO :: int where "REDIS_ERR_IO \<equiv> 1"
abbreviation (input) REDIS_ERR_OTHER :: int where "REDIS_ERR_OTHER \<equiv> 2"
abbreviation (input) REDIS_ERR_EOF :: int where "REDIS_ERR_EOF \<equiv> 3"
abbreviation (input) REDIS_ERR_PROTOCOL :: int where "REDIS_ERR_PROTOCOL \<equiv> 4"
abbreviation (input) REDIS_ERR_OOM :: int where "REDIS_ERR_OOM \<equiv> 5"

abbreviation (input) REDIS_REPLY_STRING :: int where "REDIS_REPLY_STRING \<equiv> 1"
abbreviation (input) REDIS_REPLY_ARRAY :: int where "REDIS_REPLY_ARRAY \<equiv> 2"
abbreviation (input) REDIS_REPLY_INTEGER :: int where "REDIS_REPLY_INTEGER \<equiv> 3"
abbreviation (input) REDIS_REPLY_NIL :: int where "REDIS_REPLY_NIL \<equiv> 4"
abbreviation (input) REDIS_REPLY_STATUS :: int where "REDIS_REPLY_STATUS \<equiv> 5"
abbreviation (input) REDIS_REPLY_ERROR :: int where "REDIS_REPLY_ERROR \<equiv> 6"

definition REDIS_READER_MAX_BUF :: nat where
  "REDIS_READER_MAX_BUF = 1024 * 16"

record redisReadTask =
  tk_type :: int
  tk_elements :: int
  tk_idx :: int
  tk_obj :: nat
  tk_parent :: "nat option"

record 'h redisReplyObjectFunctions =
  createString :: "(redisReadTask \<Rightarrow> redisReadTask option \<Rightarrow> char list \<Rightarrow> 'h \<Rightarrow> (nat \<times> 'h) res) option"
  createArray :: "(redisReadTask \<Rightarrow> redisReadTask option \<Rightarrow> int \<Rightarrow> 'h \<Rightarrow> (nat \<times> 'h) res) option"
  createInteger :: "(redisReadTask \<Rightarrow> redisReadTask option \<Rightarrow> int \<Rightarrow> 'h \<Rightarrow> (nat \<times> 'h) res) option"
  createNil :: "(redisReadTask \<Rightarrow> redisReadTask option \<Rightarrow> 'h \<Rightarrow> (nat \<times> 'h) res) option"
  freeObject :: "(nat \<Rightarrow> 'h \<Rightarrow> 'h res) option"

record redisReader =
  rd_err :: int
  rd_errstr :: "char list"
  rd_buf :: "sdshdr option"
  rd_pos :: nat
  rd_len :: nat
  rd_maxbuf :: nat
  rd_rstack :: "redisReadTask list"
  rd_ridx :: int
  rd_reply :: nat

subsection \<open>Errors\<close>

definition redisReaderSetError ::
  "'h redisReplyObjectFunctions \<Rightarrow> redisReader \<Rightarrow> 'h \<Rightarrow> int \<Rightarrow> char list \<Rightarrow> (redisReader \<times> 'h) res" where
  "redisReaderSetError fn r h type str =
     bindE (case freeObject fn of
              Some free \<Rightarrow> if rd_reply r \<noteq> 0
                then bindE (free (rd_reply r) h) (\<lambda>h. Inr (r\<lparr>rd_reply := 0\<rparr>, h)) else Inr (r, h)
            | None \<Rightarrow> Inr (r, h)) (\<lambda>(r, h).
     let r = (if rd_buf r \<noteq> None then r\<lparr>rd_buf := None, rd_pos := 0, rd_len := 0\<rparr> else r)
     in Inr (r\<lparr>rd_ridx := -1, rd_err := type, rd_errstr := take 127 (cstring str)\<rparr>, h))"

definition chrtos :: "char \<Rightarrow> char list" where
  \<comment> \<open>the text of one byte in quotes; at most 6 bytes, so it fits the caller's buffer of 8\<close>
  "chrtos byte =
     [CHR 0x22] @
     (if byte = CHR 0x5C \<or> byte = CHR 0x22 then [CHR 0x5C, byte]
      else if byte = CHR 0x0A then [CHR 0x5C, CHR ''n'']
      else if byte = CHR 0x0D then [CHR 0x5C, CHR ''r'']
      else if byte = CHR 0x09 then [CHR 0x5C, CHR ''t'']
      else if byte = CHR 0x07 then [CHR 0x5C, CHR ''a'']
      else if byte = CHR 0x08 then [CHR 0x5C, CHR ''b'']
      else if isprint byte then [byte]
      else [CHR 0x5C, CHR ''x'', hex_char (of_char byte div 16), hex_char (of_char byte mod 16)])
     @ [CHR 0x22]"

definition redisReaderSetErrorProtocolByte ::
  "'h redisReplyObjectFunctions \<Rightarrow> redisReader \<Rightarrow> 'h \<Rightarrow> char \<Rightarrow> (redisReader \<times> 'h) res" where
  "redisReaderSetErrorProtocolByte fn r h byte =
     redisReaderSetError fn r h REDIS_ERR_PROTOCOL
       (''Protocol error, got '' @ chrtos byte @ '' as reply type byte'')"

definition redisReaderSetErrorOOM ::
  "'h redisReplyObjectFunctions \<Rightarrow> redisReader \<Rightarrow> 'h \<Rightarrow> (redisReader \<times> 'h) res" where
  "redisReaderSetErrorOOM fn r h = redisReaderSetError fn r h REDIS_ERR_OOM ''Out of memory''"

subsection \<open>Bytes and lines\<close>

text \<open>The bytes between the cursor and the end of the input; the parsing functions below read these.\<close>

definition reader_bytes :: "redisReader \<Rightarrow> char list res" where
  "reader_bytes r =
     (case rd_buf r of
        None \<Rightarrow> Inl OutOfBounds
      | Some s \<Rightarrow> if rd_pos r \<le> rd_len r then peekn (hbuf s) (rd_pos r) (rd_len r - rd_pos r)
                  else Inl OutOfBounds)"

definition readBytes :: "redisReader \<Rightarrow> nat \<Rightarrow> (char list \<times> redisReader) option res" where
  "readBytes r bytes =
     (if sub64 (rd_len r) (rd_pos r) \<ge> bytes
      then bindE (reader_bytes r) (\<lambda>p. Inr (Some (p, r\<lparr>rd_pos := rd_pos r + bytes\<rparr>)))
      else Inr None)"

function skip_to_cr :: "char list \<Rightarrow> int \<Rightarrow> nat \<Rightarrow> nat" where
  "skip_to_cr s l pos = (if int pos < l \<and> s ! pos \<noteq> CHR 0x0D then skip_to_cr s l (Suc pos) else pos)"
  by pat_completeness auto
termination by (relation "measure (\<lambda>(s, l, pos). nat (l - int pos))") auto

declare skip_to_cr.simps [simp del]

lemma skip_to_cr_ge: "pos \<le> skip_to_cr s l pos"
  by (induction s l pos rule: skip_to_cr.induct) (subst skip_to_cr.simps, auto)

function seek_loop :: "char list \<Rightarrow> int \<Rightarrow> nat \<Rightarrow> nat option" where
  "seek_loop s l pos =
     (if int pos < l
      then let pos = skip_to_cr s l pos
           in if int pos = l then None
              else if s ! (pos + 1) = CHR 0x0A then Some pos
              else seek_loop s l (pos + 1)
      else None)"
  by pat_completeness auto
termination
proof (relation "measure (\<lambda>(s, l, pos). nat (l - int pos))", goal_cases)
  case 1
  then show ?case by simp
next
  case (2 s l pos p)
  then show ?case using skip_to_cr_ge [of pos s l] by simp
qed

declare seek_loop.simps [simp del]

definition seekNewline :: "char list \<Rightarrow> nat option" where
  "seekNewline s = seek_loop s (to_int32 (int (length s) - 1)) 0"

text \<open>
  \<open>readLongLong\<close>: signed overflow of the accumulator wraps here (it is undefined in C). The
  list ends where the input ends; running past it is \<open>OutOfBounds\<close>.
\<close>

fun readLongLong_loop :: "char list \<Rightarrow> int \<Rightarrow> int option res" where
  "readLongLong_loop [] v = Inl OutOfBounds"
| "readLongLong_loop (c # s) v =
     (if c = CHR 0x0D then Inr (Some v)
      else let dec = int (of_char c) - 48
           in if dec \<ge> 0 \<and> dec < 10 then readLongLong_loop s (to_int64 (to_int64 (v * 10) + dec))
              else Inr None)"

definition readLongLong :: "char list \<Rightarrow> int res" where
  "readLongLong s =
     (case s of
        [] \<Rightarrow> Inl OutOfBounds
      | c # s' \<Rightarrow>
          let (mult, s) = (if c = CHR ''-'' then (-1, s') else if c = CHR ''+'' then (1, s') else (1, s))
          in bindE (readLongLong_loop s 0) (\<lambda>v.
             Inr (case v of None \<Rightarrow> -1 | Some v \<Rightarrow> to_int64 (mult * v))))"

definition readLine :: "redisReader \<Rightarrow> (char list \<times> nat \<times> redisReader) option res" where
  \<comment> \<open>the bytes from the start of the line, the length of the line, the advanced reader\<close>
  "readLine r =
     bindE (reader_bytes r) (\<lambda>p.
     Inr (map_option (\<lambda>len. (p, len, r\<lparr>rd_pos := rd_pos r + (len + 2)\<rparr>)) (seekNewline p)))"

subsection \<open>The task stack\<close>

fun move_next :: "redisReadTask list \<Rightarrow> nat \<Rightarrow> (redisReadTask list \<times> int) res" where
  "move_next st 0 = Inr (st, -1)"
| "move_next st (Suc k) =
     (let cur = st ! Suc k; prv = st ! k
      in if tk_type prv \<noteq> REDIS_REPLY_ARRAY then Inl AssertFailed
         else if tk_idx cur = tk_elements prv - 1 then move_next st k
         else if \<not> tk_idx cur < tk_elements prv then Inl AssertFailed
         else Inr (st[Suc k := cur\<lparr>tk_type := -1, tk_elements := -1, tk_idx := tk_idx cur + 1\<rparr>],
                   int (Suc k)))"

definition moveToNextTask :: "redisReader \<Rightarrow> redisReader res" where
  "moveToNextTask r =
     (if rd_ridx r < 0 then Inr r
      else bindE (move_next (rd_rstack r) (nat (rd_ridx r))) (\<lambda>(st, i).
           Inr (r\<lparr>rd_rstack := st, rd_ridx := i\<rparr>)))"

definition cur_task :: "redisReader \<Rightarrow> redisReadTask" where
  "cur_task r = rd_rstack r ! nat (rd_ridx r)"

definition parent_task :: "redisReader \<Rightarrow> redisReadTask \<Rightarrow> redisReadTask option" where
  \<comment> \<open>what the parent pointer of a task points to\<close>
  "parent_task r t = map_option (\<lambda>i. rd_rstack r ! i) (tk_parent t)"

definition set_cur :: "redisReader \<Rightarrow> redisReadTask \<Rightarrow> redisReader" where
  "set_cur r t = r\<lparr>rd_rstack := (rd_rstack r)[nat (rd_ridx r) := t]\<rparr>"

subsection \<open>Processing one item\<close>

definition finish_item ::
  "'h redisReplyObjectFunctions \<Rightarrow> redisReader \<Rightarrow> 'h \<Rightarrow> nat \<Rightarrow> (int \<times> redisReader \<times> 'h) res" where
  \<comment> \<open>the common end of a line item and a bulk item, for the object that was created\<close>
  "finish_item fn r h obj =
     (if obj = 0
      then bindE (redisReaderSetErrorOOM fn r h) (\<lambda>(r, h). Inr (REDIS_ERR, r, h))
      else bindE (moveToNextTask (if rd_ridx r = 0 then r\<lparr>rd_reply := obj\<rparr> else r)) (\<lambda>r.
           Inr (REDIS_OK, r, h)))"

definition line_object ::
  "'h redisReplyObjectFunctions \<Rightarrow> redisReadTask \<Rightarrow> redisReadTask option \<Rightarrow> char list \<Rightarrow> nat \<Rightarrow> 'h
     \<Rightarrow> (nat \<times> 'h) res" where
  \<comment> \<open>the object for a line \<open>p\<close> of length \<open>len\<close>: an integer, or an error or status text\<close>
  "line_object fn cur par p len h =
     (if tk_type cur = REDIS_REPLY_INTEGER
      then (case createInteger fn of
              Some f \<Rightarrow> bindE (readLongLong p) (\<lambda>v. f cur par v h)
            | None \<Rightarrow> Inr (nat REDIS_REPLY_INTEGER, h))
      else (case createString fn of
              Some f \<Rightarrow> f cur par (take len p) h
            | None \<Rightarrow> Inr (nat (tk_type cur), h)))"

definition processLineItem ::
  "'h redisReplyObjectFunctions \<Rightarrow> redisReader \<Rightarrow> 'h \<Rightarrow> (int \<times> redisReader \<times> 'h) res" where
  "processLineItem fn r h =
     (let cur = cur_task r; par = parent_task r cur in
      bindE (readLine r) (\<lambda>line.
      case line of
        None \<Rightarrow> Inr (REDIS_ERR, r, h)
      | Some (p, len, r) \<Rightarrow>
          bindE (line_object fn cur par p len h) (\<lambda>(obj, h). finish_item fn r h obj)))"

definition nil_object ::
  "'h redisReplyObjectFunctions \<Rightarrow> redisReadTask \<Rightarrow> redisReadTask option \<Rightarrow> 'h \<Rightarrow> (nat \<times> 'h) res" where
  "nil_object fn cur par h =
     (case createNil fn of Some f \<Rightarrow> f cur par h | None \<Rightarrow> Inr (nat REDIS_REPLY_NIL, h))"

definition bulk_object ::
  "'h redisReplyObjectFunctions \<Rightarrow> redisReader \<Rightarrow> redisReadTask \<Rightarrow> redisReadTask option \<Rightarrow> char list
     \<Rightarrow> nat \<Rightarrow> int \<Rightarrow> 'h \<Rightarrow> ((nat \<times> 'h) \<times> nat) option res" where
  \<comment> \<open>\<open>s\<close> is the offset of the line end, \<open>len\<close> the announced length; the object and the bytes
     it takes, or None while the item is not complete\<close>
  "bulk_object fn r cur par p s len h =
     (if len < 0
      then bindE (nil_object fn cur par h) (\<lambda>ob. Inr (Some (ob, s + 2)))
      else let bytelen = wrap64 (s + 2 + nat len + 2)
           in if wrap64 (rd_pos r + bytelen) \<le> rd_len r
              then bindE (case createString fn of
                     Some f \<Rightarrow> bindE (peekn p (s + 2) (nat len)) (\<lambda>str. f cur par str h)
                   | None \<Rightarrow> Inr (nat REDIS_REPLY_STRING, h)) (\<lambda>ob. Inr (Some (ob, bytelen)))
              else Inr None)"

definition processBulkItem ::
  "'h redisReplyObjectFunctions \<Rightarrow> redisReader \<Rightarrow> 'h \<Rightarrow> (int \<times> redisReader \<times> 'h) res" where
  "processBulkItem fn r h =
     (let cur = cur_task r; par = parent_task r cur in
      bindE (reader_bytes r) (\<lambda>p.
      case seekNewline p of
        None \<Rightarrow> Inr (REDIS_ERR, r, h)
      | Some s \<Rightarrow>
          bindE (readLongLong p) (\<lambda>len.
          bindE (bulk_object fn r cur par p s len h) (\<lambda>created.
          case created of
            None \<Rightarrow> Inr (REDIS_ERR, r, h)
          | Some ((obj, h), bytelen) \<Rightarrow>
              finish_item fn (if obj = 0 then r else r\<lparr>rd_pos := rd_pos r + bytelen\<rparr>) h obj))))"

definition push_task :: "redisReader \<Rightarrow> redisReader" where
  \<comment> \<open>the new task for the first element, child of the current one\<close>
  "push_task r =
     (let i = nat (rd_ridx r)
      in r\<lparr>rd_ridx := rd_ridx r + 1,
           rd_rstack := (rd_rstack r)[Suc i := \<lparr>tk_type = -1, tk_elements = -1, tk_idx = 0, tk_obj = 0,
                                                tk_parent = Some i\<rparr>]\<rparr>)"

definition array_object ::
  "'h redisReplyObjectFunctions \<Rightarrow> redisReadTask \<Rightarrow> redisReadTask option \<Rightarrow> int \<Rightarrow> 'h
     \<Rightarrow> (nat \<times> 'h) res" where
  "array_object fn cur par elements h =
     (if elements = -1 then nil_object fn cur par h
      else (case createArray fn of
              Some f \<Rightarrow> f cur par (to_int32 elements) h
            | None \<Rightarrow> Inr (nat REDIS_REPLY_ARRAY, h)))"

definition enter_array :: "redisReader \<Rightarrow> redisReadTask \<Rightarrow> int \<Rightarrow> nat \<Rightarrow> redisReader res" where
  \<comment> \<open>go on with the first element, or with the next task when there is none\<close>
  "enter_array r cur elements obj =
     (if elements > 0
      then Inr (push_task (set_cur r (cur\<lparr>tk_elements := to_int32 elements, tk_obj := obj\<rparr>)))
      else moveToNextTask r)"

definition processMultiBulkItem ::
  "'h redisReplyObjectFunctions \<Rightarrow> redisReader \<Rightarrow> 'h \<Rightarrow> (int \<times> redisReader \<times> 'h) res" where
  "processMultiBulkItem fn r h =
     (let cur = cur_task r; par = parent_task r cur in
      if rd_ridx r = 8
      then bindE (redisReaderSetError fn r h REDIS_ERR_PROTOCOL
             ''No support for nested multi bulk replies with depth > 7'') (\<lambda>(r, h). Inr (REDIS_ERR, r, h))
      else
      bindE (readLine r) (\<lambda>line.
      case line of
        None \<Rightarrow> Inr (REDIS_ERR, r, h)
      | Some (p, _, r) \<Rightarrow>
          bindE (readLongLong p) (\<lambda>elements.
          let root = (rd_ridx r = 0) in
          bindE (array_object fn cur par elements h) (\<lambda>(obj, h).
          if obj = 0
          then bindE (redisReaderSetErrorOOM fn r h) (\<lambda>(r, h). Inr (REDIS_ERR, r, h))
          else bindE (enter_array r cur elements obj) (\<lambda>r.
               Inr (REDIS_OK, (if root then r\<lparr>rd_reply := obj\<rparr> else r), h))))))"

definition reply_type_of :: "char \<Rightarrow> int option" where
  "reply_type_of c =
     (if c = CHR ''-'' then Some REDIS_REPLY_ERROR
      else if c = CHR ''+'' then Some REDIS_REPLY_STATUS
      else if c = CHR '':'' then Some REDIS_REPLY_INTEGER
      else if c = CHR ''$'' then Some REDIS_REPLY_STRING
      else if c = CHR ''*'' then Some REDIS_REPLY_ARRAY
      else None)"

definition process_typed ::
  "'h redisReplyObjectFunctions \<Rightarrow> redisReader \<Rightarrow> 'h \<Rightarrow> (int \<times> redisReader \<times> 'h) res" where
  "process_typed fn r h =
     (let t = tk_type (cur_task r)
      in if t = REDIS_REPLY_ERROR \<or> t = REDIS_REPLY_STATUS \<or> t = REDIS_REPLY_INTEGER then processLineItem fn r h
         else if t = REDIS_REPLY_STRING then processBulkItem fn r h
         else if t = REDIS_REPLY_ARRAY then processMultiBulkItem fn r h
         else Inl AssertFailed)"

definition processItem ::
  "'h redisReplyObjectFunctions \<Rightarrow> redisReader \<Rightarrow> 'h \<Rightarrow> (int \<times> redisReader \<times> 'h) res" where
  "processItem fn r h =
     (if tk_type (cur_task r) < 0
      then bindE (readBytes r 1) (\<lambda>b.
           case b of
             None \<Rightarrow> Inr (REDIS_ERR, r, h)
           | Some (p, r) \<Rightarrow>
               (case reply_type_of (hd p) of
                  None \<Rightarrow> bindE (redisReaderSetErrorProtocolByte fn r h (hd p)) (\<lambda>(r, h). Inr (REDIS_ERR, r, h))
                | Some t \<Rightarrow> process_typed fn (set_cur r ((cur_task r)\<lparr>tk_type := t\<rparr>)) h))
      else process_typed fn r h)"

subsection \<open>Every item that succeeds consumes input\<close>

lemma skip_to_cr_stop:
  "int pos \<le> l \<Longrightarrow> int (skip_to_cr s l pos) \<le> l \<and>
   (int (skip_to_cr s l pos) < l \<longrightarrow> s ! skip_to_cr s l pos = CHR 0x0D)"
proof (induction s l pos rule: skip_to_cr.induct)
  case (1 s l pos)
  then show ?case
    by (cases "int pos < l \<and> s ! pos \<noteq> CHR 0x0D") (auto simp: skip_to_cr.simps [of s l pos])
qed

lemma seek_loop_Some:
  "seek_loop s l pos = Some q \<Longrightarrow> int q < l \<and> s ! q = CHR 0x0D \<and> s ! (q + 1) = CHR 0x0A \<and> pos \<le> q"
proof (induction s l pos rule: seek_loop.induct)
  case (1 s l pos)
  let ?p = "skip_to_cr s l pos"
  show ?case
  proof (cases "int pos < l \<and> int ?p \<noteq> l \<and> s ! (?p + 1) \<noteq> CHR 0x0A")
    case True
    with "1.prems" have "seek_loop s l (?p + 1) = Some q" by (simp add: seek_loop.simps [of s l pos])
    from "1.IH" [OF _ refl _ _ this] True skip_to_cr_ge [of pos s l] show ?thesis by auto
  next
    case False
    with "1.prems" have "int pos < l" "int ?p \<noteq> l" "s ! (?p + 1) = CHR 0x0A" "q = ?p"
      by (auto simp: seek_loop.simps [of s l pos] Let_def split: if_splits)
    with skip_to_cr_stop [of pos l s] skip_to_cr_ge [of pos s l] show ?thesis by auto
  qed
qed

lemma seekNewline_Some:
  assumes "seekNewline s = Some q"
  shows "q + 2 \<le> length s \<and> q < 2 ^ 31 \<and> s ! q = CHR 0x0D \<and> s ! (q + 1) = CHR 0x0A"
proof -
  have "to_int32 (int (length s) - 1) \<le> int (length s) - 1" by (rule to_int32_le) simp
  moreover have "to_int32 (int (length s) - 1) < 2 ^ 31" using to_int32_range by blast
  ultimately show ?thesis using seek_loop_Some [OF assms [unfolded seekNewline_def]] by auto
qed

definition advances :: "redisReader \<Rightarrow> redisReader \<Rightarrow> bool" where
  "advances r r' \<longleftrightarrow> rd_len r' = rd_len r \<and> rd_pos r < rd_len r \<and> rd_pos r < rd_pos r'"

lemma reader_bytes_length:
  "reader_bytes r = Inr p \<Longrightarrow> rd_pos r + length p = rd_len r"
  by (auto simp: reader_bytes_def peekn_def split: option.splits if_splits)

lemma readLine_advances:
  "readLine r = Inr (Some (p, len, r')) \<Longrightarrow>
   r' = r\<lparr>rd_pos := rd_pos r + (len + 2)\<rparr> \<and> rd_pos r + len + 2 \<le> rd_len r"
  by (auto simp: readLine_def bindE_Inr_iff dest!: seekNewline_Some reader_bytes_length)

lemma moveToNextTask_pos:
  "moveToNextTask r = Inr r' \<Longrightarrow> rd_len r' = rd_len r \<and> rd_pos r' = rd_pos r \<and> rd_buf r' = rd_buf r"
  by (auto simp: moveToNextTask_def bindE_Inr_iff split: if_splits)

lemma finish_item_pos:
  "finish_item fn r h obj = Inr (REDIS_OK, r', h') \<Longrightarrow> rd_len r' = rd_len r \<and> rd_pos r' = rd_pos r \<and> obj \<noteq> 0"
  by (auto simp: finish_item_def bindE_Inr_iff split: if_splits dest!: moveToNextTask_pos)

lemma readLongLong_range: "readLongLong s = Inr v \<Longrightarrow> - (2 ^ 63) \<le> v \<and> v < 2 ^ 63"
  using to_int64_range
  by (auto simp: readLongLong_def bindE_Inr_iff Let_def split: list.splits option.splits prod.splits if_splits)

lemma processLineItem_advances:
  assumes "processLineItem fn r h = Inr (REDIS_OK, r', h')"
  shows "advances r r'"
proof -
  from assms obtain p len r1 obj h1 where
    "readLine r = Inr (Some (p, len, r1))" "finish_item fn r1 h1 obj = Inr (REDIS_OK, r', h')"
    by (auto simp: processLineItem_def Let_def elim!: bindE_InrE split: option.splits)
  then show ?thesis by (auto simp: advances_def dest!: readLine_advances finish_item_pos)
qed

lemma bulk_object_length:
  assumes "bulk_object fn r cur par p s len h = Inr (Some (ob, bytelen))"
    and "s < 2 ^ 31" and "len < 2 ^ 63"
  shows "2 \<le> bytelen"
proof -
  have "wrap64 (s + 2 + nat len + 2) = s + 2 + nat len + 2" using assms(2,3) by (intro wrap64_id) simp
  then show ?thesis
    using assms(1) by (auto simp: bulk_object_def Let_def elim!: bindE_InrE split: if_splits)
qed

lemma processBulkItem_advances:
  assumes "processBulkItem fn r h = Inr (REDIS_OK, r', h')"
  shows "advances r r'"
proof -
  from assms obtain p s len obj h1 bytelen where p: "reader_bytes r = Inr p" "seekNewline p = Some s"
    "readLongLong p = Inr len" "bulk_object fn r (cur_task r) (parent_task r (cur_task r)) p s len h = Inr (Some ((obj, h1), bytelen))"
    "finish_item fn (if obj = 0 then r else r\<lparr>rd_pos := rd_pos r + bytelen\<rparr>) h1 obj = Inr (REDIS_OK, r', h')"
    by (auto simp: processBulkItem_def Let_def elim!: bindE_InrE split: option.splits)
  have "2 \<le> bytelen"
    using bulk_object_length [OF p(4)] seekNewline_Some [OF p(2)] readLongLong_range [OF p(3)] by auto
  with finish_item_pos [OF p(5)] seekNewline_Some [OF p(2)] reader_bytes_length [OF p(1)] show ?thesis
    by (auto simp: advances_def)
qed

lemma enter_array_pos:
  "enter_array r cur n obj = Inr r' \<Longrightarrow> rd_len r' = rd_len r \<and> rd_pos r' = rd_pos r"
  by (auto simp: enter_array_def push_task_def set_cur_def Let_def split: if_splits dest!: moveToNextTask_pos)

lemma processMultiBulkItem_advances:
  assumes "processMultiBulkItem fn r h = Inr (REDIS_OK, r', h')"
  shows "advances r r'"
proof -
  from assms obtain p len r1 r2 n obj where
    r: "readLine r = Inr (Some (p, len, r1))" and
    e: "enter_array r1 (cur_task r) n obj = Inr r2" and "rd_len r' = rd_len r2" "rd_pos r' = rd_pos r2"
    by (auto simp: processMultiBulkItem_def Let_def elim!: bindE_InrE split: option.splits if_splits)
  with readLine_advances [OF r] enter_array_pos [OF e] show ?thesis by (auto simp: advances_def)
qed

lemma process_typed_advances:
  "process_typed fn r h = Inr (REDIS_OK, r', h') \<Longrightarrow> advances r r'"
  by (auto simp: process_typed_def Let_def split: if_splits
      dest: processLineItem_advances processBulkItem_advances processMultiBulkItem_advances)

lemma readBytes_advances:
  "readBytes r n = Inr (Some (p, r')) \<Longrightarrow> r' = r\<lparr>rd_pos := rd_pos r + n\<rparr> \<and> reader_bytes r = Inr p"
  by (auto simp: readBytes_def bindE_Inr_iff split: if_splits)

lemma processItem_advances:
  assumes "processItem fn r h = Inr (REDIS_OK, r', h')"
  shows "advances r r'"
proof (cases "tk_type (cur_task r) < 0")
  case False
  then show ?thesis using assms by (auto simp: processItem_def dest: process_typed_advances)
next
  case True
  with assms obtain p r1 t where r1: "readBytes r 1 = Inr (Some (p, r1))"
    and t: "process_typed fn (set_cur r1 ((cur_task r1)\<lparr>tk_type := t\<rparr>)) h = Inr (REDIS_OK, r', h')"
    by (auto simp: processItem_def elim!: bindE_InrE split: option.splits)
  from process_typed_advances [OF t] readBytes_advances [OF r1] show ?thesis
    by (auto simp: advances_def set_cur_def)
qed

subsection \<open>The public operations\<close>

function process_items ::
  "'h redisReplyObjectFunctions \<Rightarrow> redisReader \<Rightarrow> 'h \<Rightarrow> (redisReader \<times> 'h) res" where
  \<comment> \<open>the loop of \<open>redisReaderGetReply\<close>\<close>
  "process_items fn r h =
     (if rd_ridx r \<ge> 0
      then bindE (processItem fn r h) (\<lambda>(st, r', h').
           if st \<noteq> REDIS_OK then Inr (r', h') else process_items fn r' h')
      else Inr (r, h))"
  by pat_completeness auto
termination
  by (relation "measure (\<lambda>(fn, r, h). rd_len r - rd_pos r)")
    (auto dest!: processItem_advances simp: advances_def)

declare process_items.simps [simp del]

definition redisReaderCreateWithFunctions :: "allocator \<Rightarrow> redisReader res" where
  \<comment> \<open>\<open>calloc\<close> of the reader itself and of its buffer; the functions are passed to each operation\<close>
  "redisReaderCreateWithFunctions mal =
     bindE (malloc mal 624) (\<lambda>_. bindE (sdsempty mal) (\<lambda>buf.
     Inr \<lparr>rd_err = 0, rd_errstr = [], rd_buf = Some buf, rd_pos = 0, rd_len = 0,
          rd_maxbuf = REDIS_READER_MAX_BUF,
          rd_rstack = replicate 9 \<lparr>tk_type = 0, tk_elements = 0, tk_idx = 0, tk_obj = 0, tk_parent = None\<rparr>,
          rd_ridx = -1, rd_reply = 0\<rparr>))"

definition redisReaderFree :: "'h redisReplyObjectFunctions \<Rightarrow> redisReader \<Rightarrow> 'h \<Rightarrow> 'h res" where
  \<comment> \<open>the store after the pending reply is released; the buffer and the reader are gone\<close>
  "redisReaderFree fn r h =
     (case freeObject fn of Some free \<Rightarrow> if rd_reply r \<noteq> 0 then free (rd_reply r) h else Inr h
      | None \<Rightarrow> Inr h)"

definition redisReaderFeed ::
  "allocator \<Rightarrow> 'h redisReplyObjectFunctions \<Rightarrow> redisReader \<Rightarrow> 'h \<Rightarrow> char list option \<Rightarrow> nat
     \<Rightarrow> (int \<times> redisReader \<times> 'h) res" where
  "redisReaderFeed mal fn r h buf len =
     (if rd_err r \<noteq> 0 then Inr (REDIS_ERR, r, h)
      else case buf of
        None \<Rightarrow> Inr (REDIS_OK, r, h)
      | Some buf \<Rightarrow>
        if len < 1 then Inr (REDIS_OK, r, h)
        else case rd_buf r of
          None \<Rightarrow> Inl OutOfBounds
        | Some s \<Rightarrow>
          bindE (if rd_len r = 0 \<and> rd_maxbuf r \<noteq> 0 \<and> sdsavail s > rd_maxbuf r
                 then (case sdsempty mal of
                         Inl OutOfMemory \<Rightarrow> Inl AssertFailed
                       | Inl e \<Rightarrow> Inl e
                       | Inr e \<Rightarrow> Inr (e, r\<lparr>rd_buf := Some e, rd_pos := 0\<rparr>))
                 else Inr (s, r)) (\<lambda>(s, r).
          case sdscatlen mal s buf len of
            Inl OutOfMemory \<Rightarrow> bindE (redisReaderSetErrorOOM fn r h) (\<lambda>(r, h). Inr (REDIS_ERR, r, h))
          | Inl e \<Rightarrow> Inl e
          | Inr newbuf \<Rightarrow> Inr (REDIS_OK, r\<lparr>rd_buf := Some newbuf, rd_len := sdslen newbuf\<rparr>, h)))"

definition start_task :: "redisReader \<Rightarrow> redisReader" where
  \<comment> \<open>the first item to process when the stack is empty\<close>
  "start_task r =
     (if rd_ridx r = -1
      then r\<lparr>rd_rstack := (rd_rstack r)[0 := \<lparr>tk_type = -1, tk_elements = -1, tk_idx = -1, tk_obj = 0,
                                             tk_parent = None\<rparr>], rd_ridx := 0\<rparr>
      else r)"

definition discard_consumed :: "redisReader \<Rightarrow> redisReader res" where
  "discard_consumed r =
     (if rd_pos r \<ge> 1024
      then (case rd_buf r of
              None \<Rightarrow> Inl OutOfBounds
            | Some s \<Rightarrow> bindE (sdsrange s (to_int32 (int (rd_pos r))) (-1)) (\<lambda>s.
                Inr (r\<lparr>rd_buf := Some s, rd_pos := 0, rd_len := sdslen s\<rparr>)))
      else Inr r)"

text \<open>The third component of the result is the pointer stored through \<open>reply\<close>.\<close>

definition redisReaderGetReply ::
  "'h redisReplyObjectFunctions \<Rightarrow> redisReader \<Rightarrow> 'h \<Rightarrow> (int \<times> nat \<times> redisReader \<times> 'h) res" where
  "redisReaderGetReply fn r h =
     (if rd_err r \<noteq> 0 then Inr (REDIS_ERR, 0, r, h)
      else if rd_len r = 0 then Inr (REDIS_OK, 0, r, h)
      else bindE (process_items fn (start_task r) h) (\<lambda>(r, h).
           if rd_err r \<noteq> 0 then Inr (REDIS_ERR, 0, r, h)
           else bindE (discard_consumed r) (\<lambda>r.
                if rd_ridx r = -1 then Inr (REDIS_OK, rd_reply r, r\<lparr>rd_reply := 0\<rparr>, h)
                else Inr (REDIS_OK, 0, r, h))))"

end
