(* ===== verification/ReaderSafe.thy ===== *)
theory ReaderSafe
  imports Reader
begin

section \<open>The reader over any reply functions (hiredis/read.c)\<close>

text \<open>
  What read.c relies on when it calls the functions of \<open>redisReplyObjectFunctions\<close> is the locale
  \<open>reply_functions\<close>: called with a task whose parent is a live array with a slot for it, a
  create function neither fails nor disturbs live arrays and replies, and a reply that nobody
  else refers to can be released. Inside the locale the reader keeps its invariant and never
  leaves its buffer, its stack or the live objects.
\<close>

subsection \<open>The invariant of the reader\<close>

definition slot_ok :: "('h \<Rightarrow> nat \<Rightarrow> int \<Rightarrow> bool) \<Rightarrow> 'h \<Rightarrow> redisReadTask \<Rightarrow> redisReadTask option \<Rightarrow> bool" where
  \<comment> \<open>\<open>arr h p n\<close>: object \<open>p\<close> is a live array with \<open>n\<close> element slots\<close>
  "slot_ok arr h t par \<longleftrightarrow>
     (case par of None \<Rightarrow> True
      | Some pt \<Rightarrow> \<exists>n. arr h (tk_obj pt) n \<and> 0 \<le> tk_idx t \<and> tk_idx t < n)"

definition built ::
  "('h \<Rightarrow> bool) \<Rightarrow> ('h \<Rightarrow> nat \<Rightarrow> int \<Rightarrow> bool) \<Rightarrow> ('h \<Rightarrow> nat \<Rightarrow> bool) \<Rightarrow> bool \<Rightarrow> redisReadTask option \<Rightarrow> 'h
     \<Rightarrow> nat \<times> 'h \<Rightarrow> bool" where
  \<comment> \<open>what a create function promises of the object and the store it returns; \<open>fresh\<close>: the
     object of a root task was nobody's before\<close>
  "built hinv arr root fresh par h x \<longleftrightarrow>
     (case x of (p, h') \<Rightarrow>
        hinv h' \<and> (\<forall>q n. arr h q n \<longrightarrow> arr h' q n) \<and> (\<forall>q. root h q \<longrightarrow> root h' q) \<and>
        (p \<noteq> 0 \<and> par = None \<longrightarrow> root h' p \<and> (fresh \<longrightarrow> \<not> root h p)))"

definition stack_ok :: "('h \<Rightarrow> nat \<Rightarrow> int \<Rightarrow> bool) \<Rightarrow> 'h \<Rightarrow> redisReadTask list \<Rightarrow> nat \<Rightarrow> bool" where
  "stack_ok arr h st k \<longleftrightarrow>
     tk_parent (st ! 0) = None \<and>
     (\<forall>i<k. tk_type (st ! i) = REDIS_REPLY_ARRAY \<and> arr h (tk_obj (st ! i)) (tk_elements (st ! i)) \<and>
        tk_parent (st ! Suc i) = Some i \<and> 0 \<le> tk_idx (st ! Suc i) \<and> tk_idx (st ! Suc i) < tk_elements (st ! i)) \<and>
     tk_type (st ! k) \<in> {-1, REDIS_REPLY_STRING, REDIS_REPLY_ARRAY, REDIS_REPLY_INTEGER, REDIS_REPLY_STATUS, REDIS_REPLY_ERROR}"

definition buffer_ok :: "redisReader \<Rightarrow> bool" where
  "buffer_ok r \<longleftrightarrow>
     (\<exists>s. rd_buf r = Some s \<and> sds_wf s \<and> sdslen s < 2 ^ 31 \<and> rd_len r = sdslen s \<and> rd_pos r \<le> rd_len r)"

definition proc_inv ::
  "('h \<Rightarrow> nat \<Rightarrow> int \<Rightarrow> bool) \<Rightarrow> ('h \<Rightarrow> nat \<Rightarrow> bool) \<Rightarrow> redisReader \<Rightarrow> 'h \<Rightarrow> bool" where
  \<comment> \<open>while items are processed: the reply is set once the root item has been created\<close>
  "proc_inv arr root r h \<longleftrightarrow>
     length (rd_rstack r) = 9 \<and> -1 \<le> rd_ridx r \<and> rd_ridx r \<le> 8 \<and>
     (if rd_err r = 0
      then buffer_ok r \<and> (0 \<le> rd_ridx r \<longrightarrow> stack_ok arr h (rd_rstack r) (nat (rd_ridx r))) \<and>
           (if rd_ridx r = 0 then rd_reply r = 0 else rd_reply r \<noteq> 0 \<and> root h (rd_reply r))
      else rd_ridx r = -1 \<and> rd_buf r = None \<and> (rd_reply r \<noteq> 0 \<longrightarrow> root h (rd_reply r)))"

definition reader_inv ::
  "('h \<Rightarrow> nat \<Rightarrow> int \<Rightarrow> bool) \<Rightarrow> ('h \<Rightarrow> nat \<Rightarrow> bool) \<Rightarrow> redisReader \<Rightarrow> 'h \<Rightarrow> bool" where
  \<comment> \<open>between two calls of the public operations: no reply is pending when the stack is empty\<close>
  "reader_inv arr root r h \<longleftrightarrow>
     length (rd_rstack r) = 9 \<and> -1 \<le> rd_ridx r \<and> rd_ridx r \<le> 8 \<and>
     (if rd_err r = 0
      then buffer_ok r \<and> (0 \<le> rd_ridx r \<longrightarrow> stack_ok arr h (rd_rstack r) (nat (rd_ridx r))) \<and>
           (if rd_ridx r \<le> 0 then rd_reply r = 0 else rd_reply r \<noteq> 0 \<and> root h (rd_reply r))
      else rd_ridx r = -1 \<and> rd_buf r = None \<and> (rd_reply r \<noteq> 0 \<longrightarrow> root h (rd_reply r)))"

text \<open>
  The code narrows the announced number of elements to \<open>int\<close> after it has tested the wide value
  for being positive, so the reader is only safe on input without counts from \<open>2 ^ 31\<close> on.
\<close>

definition small_count :: "char list \<Rightarrow> bool" where
  "small_count b \<longleftrightarrow> (case readLongLong b of Inl _ \<Rightarrow> True | Inr v \<Rightarrow> v < 2 ^ 31)"

definition counts_ok :: "redisReader \<Rightarrow> bool" where
  "counts_ok r \<longleftrightarrow>
     (case reader_bytes r of
        Inl _ \<Rightarrow> True
      | Inr b \<Rightarrow>
          (\<forall>i<length b. b ! i = CHR ''*'' \<longrightarrow> small_count (drop (Suc i) b)) \<and>
          (0 \<le> rd_ridx r \<and> tk_type (cur_task r) = REDIS_REPLY_ARRAY \<longrightarrow> small_count b))"

subsection \<open>Lines and numbers\<close>

lemma readLongLong_loop_total: "CHR 0x0D \<in> set s \<Longrightarrow> \<exists>v. readLongLong_loop s a = Inr v"
  by (induction s a rule: readLongLong_loop.induct) (auto simp: Let_def)

lemma readLongLong_total: "CHR 0x0D \<in> set s \<Longrightarrow> \<exists>v. readLongLong s = Inr v"
  using readLongLong_loop_total [of s 0] readLongLong_loop_total [of "tl s" 0]
  by (cases s) (auto simp: readLongLong_def Let_def bindE_Inr_iff)

lemma seekNewline_CR: "seekNewline s = Some q \<Longrightarrow> CHR 0x0D \<in> set s"
  by (metis Suc_le_lessD add_2_eq_Suc' le_add1 le_trans nth_mem seekNewline_Some add_leD1 Suc_leD)

lemma reader_bytes_Inr:
  "buffer_ok r \<Longrightarrow> \<exists>p. reader_bytes r = Inr p \<and> length p = rd_len r - rd_pos r"
  by (auto simp: buffer_ok_def reader_bytes_def peekn_def sdslen_def dest: sds_wfD)

lemma reader_bytes_val:
  "buffer_ok r \<Longrightarrow> rd_buf r = Some s \<Longrightarrow> reader_bytes r = Inr (drop (rd_pos r) (sdsval s))"
  using sds_wfD(3) [of s] by (auto simp: buffer_ok_def reader_bytes_def peekn_def sdsval_def sdslen_def drop_take)

lemma reader_bytes_cong:
  "rd_buf r' = rd_buf r \<Longrightarrow> rd_pos r' = rd_pos r \<Longrightarrow> rd_len r' = rd_len r \<Longrightarrow> reader_bytes r' = reader_bytes r"
  by (cases "rd_buf r") (simp_all add: reader_bytes_def)

lemma reader_bytes_pos:
  assumes "reader_bytes r = Inr p" and "n \<le> length p"
  shows "reader_bytes (r\<lparr>rd_pos := rd_pos r + n\<rparr>) = Inr (drop n p)"
proof -
  from assms(1) obtain s where s: "rd_buf r = Some s" "rd_pos r \<le> rd_len r" "rd_len r \<le> length (hbuf s)"
    "p = take (rd_len r - rd_pos r) (drop (rd_pos r) (hbuf s))"
    by (auto simp: reader_bytes_def peekn_def split: option.splits if_splits)
  with assms(2) show ?thesis
    by (auto simp: reader_bytes_def peekn_def drop_take add.commute)
qed


definition owned :: "'h redisReplyObjectFunctions \<Rightarrow> ('h \<Rightarrow> nat \<Rightarrow> bool) \<Rightarrow> redisReader \<Rightarrow> 'h \<Rightarrow> nat \<Rightarrow> bool" where
  \<comment> \<open>a reply that belongs to a caller, not to the reader\<close>
  "owned fn root r h q \<longleftrightarrow> q \<noteq> 0 \<and> root h q \<and> (q \<noteq> rd_reply r \<or> freeObject fn = None)"

definition item_ok ::
  "'h redisReplyObjectFunctions \<Rightarrow> ('h \<Rightarrow> bool) \<Rightarrow> ('h \<Rightarrow> nat \<Rightarrow> int \<Rightarrow> bool) \<Rightarrow> ('h \<Rightarrow> nat \<Rightarrow> bool)
     \<Rightarrow> redisReader \<Rightarrow> 'h \<Rightarrow> (int \<times> redisReader \<times> 'h) res \<Rightarrow> bool" where
  \<comment> \<open>the outcome of processing one item\<close>
  "item_ok fn hinv arr root r h x \<longleftrightarrow>
     (\<exists>st r' h'. x = Inr (st, r', h') \<and> hinv h' \<and> proc_inv arr root r' h' \<and>
        (\<forall>q. owned fn root r h q \<longrightarrow> owned fn root r' h' q) \<and>
        (st = REDIS_OK \<longrightarrow> rd_err r' = 0 \<and> rd_buf r' = rd_buf r \<and> rd_len r' = rd_len r \<and> rd_pos r \<le> rd_pos r' \<and>
           (0 \<le> rd_ridx r' \<longrightarrow> tk_type (cur_task r') = -1)))"

subsection \<open>The task stack\<close>

lemma stack_ok_mono:
  "stack_ok arr h st k \<Longrightarrow> (\<And>q n. arr h q n \<Longrightarrow> arr h' q n) \<Longrightarrow> stack_ok arr h' st k"
  by (auto simp: stack_ok_def)

lemma move_next_ok:
  "stack_ok arr h st k \<Longrightarrow> k < length st \<Longrightarrow>
   \<exists>st' i. move_next st k = Inr (st', i) \<and> length st' = length st \<and> -1 \<le> i \<and> i \<le> int k \<and> i \<noteq> 0 \<and>
     (0 \<le> i \<longrightarrow> stack_ok arr h st' (nat i) \<and> tk_type (st' ! nat i) = -1)"
proof (induction k)
  case (Suc k)
  then have k: "tk_type (st ! k) = REDIS_REPLY_ARRAY" "0 \<le> tk_idx (st ! Suc k)"
    "tk_idx (st ! Suc k) < tk_elements (st ! k)" by (auto simp: stack_ok_def)
  show ?case
  proof (cases "tk_idx (st ! Suc k) = tk_elements (st ! k) - 1")
    case True
    moreover have "stack_ok arr h st k" using Suc.prems(1) by (auto simp: stack_ok_def)
    with Suc obtain st' i where "move_next st k = Inr (st', i)" "length st' = length st" "-1 \<le> i" "i \<le> int k"
      "i \<noteq> 0" "0 \<le> i \<longrightarrow> stack_ok arr h st' (nat i) \<and> tk_type (st' ! nat i) = -1" by auto
    ultimately show ?thesis using k by (auto simp: Let_def)
  next
    case False
    let ?c = "(st ! Suc k)\<lparr>tk_type := -1, tk_elements := -1, tk_idx := tk_idx (st ! Suc k) + 1\<rparr>"
    have "stack_ok arr h (st[Suc k := ?c]) (Suc k)"
      using Suc.prems k False unfolding stack_ok_def by (auto simp: nth_list_update)
    then show ?thesis using k False Suc.prems(2) by (auto simp: Let_def nat_add_distrib)
  qed
qed simp

lemma slot_cur:
  assumes "proc_inv arr root r h" and "rd_err r = 0" and "0 \<le> rd_ridx r"
  shows "slot_ok arr h (cur_task r) (parent_task r (cur_task r))"
    and "(parent_task r (cur_task r) = None) = (rd_ridx r = 0)"
proof -
  from assms have st: "stack_ok arr h (rd_rstack r) (nat (rd_ridx r))" by (simp add: proc_inv_def)
  have "slot_ok arr h (cur_task r) (parent_task r (cur_task r)) \<and>
      (parent_task r (cur_task r) = None) = (rd_ridx r = 0)"
  proof (cases "nat (rd_ridx r)")
    case 0
    with st assms(3) show ?thesis by (simp add: stack_ok_def cur_task_def parent_task_def slot_ok_def)
  next
    case (Suc i)
    with st have "arr h (tk_obj (rd_rstack r ! i)) (tk_elements (rd_rstack r ! i))"
      "tk_parent (rd_rstack r ! Suc i) = Some i" "0 \<le> tk_idx (rd_rstack r ! Suc i)"
      "tk_idx (rd_rstack r ! Suc i) < tk_elements (rd_rstack r ! i)" by (auto simp: stack_ok_def)
    with Suc assms(3) show ?thesis by (auto simp: cur_task_def parent_task_def slot_ok_def)
  qed
  then show "slot_ok arr h (cur_task r) (parent_task r (cur_task r))"
    "(parent_task r (cur_task r) = None) = (rd_ridx r = 0)" by auto
qed

lemma proc_inv_mono:
  assumes "proc_inv arr root r h" and "\<And>q n. arr h q n \<Longrightarrow> arr h' q n" and "\<And>q. root h q \<Longrightarrow> root h' q"
  shows "proc_inv arr root r h'"
  using assms stack_ok_mono [of arr h _ _ h'] unfolding proc_inv_def by (auto split: if_splits)

lemma proc_inv_pos:
  "proc_inv arr root r h \<Longrightarrow> rd_err r = 0 \<Longrightarrow> n \<le> rd_len r \<Longrightarrow> proc_inv arr root (r\<lparr>rd_pos := n\<rparr>) h"
  by (auto simp: proc_inv_def buffer_ok_def split: if_splits)


lemma enter_none:
  assumes "obj \<noteq> 0"
  shows "bindE (moveToNextTask r) (\<lambda>r'. Inr (REDIS_OK, if rd_ridx r = 0 then r'\<lparr>rd_reply := obj\<rparr> else r', h))
    = finish_item fn r h obj"
  using assms by (cases "rd_ridx r < 0"; cases "move_next (rd_rstack r) (nat (rd_ridx r))")
    (auto simp: finish_item_def moveToNextTask_def)

subsection \<open>The contract of the reply functions\<close>

locale reply_functions =
  fixes fn :: "'h redisReplyObjectFunctions"
    and hinv :: "'h \<Rightarrow> bool"
    and arr :: "'h \<Rightarrow> nat \<Rightarrow> int \<Rightarrow> bool"
    and root :: "'h \<Rightarrow> nat \<Rightarrow> bool"
  assumes string_law: "createString fn = Some f \<Longrightarrow> hinv h \<Longrightarrow> slot_ok arr h t par \<Longrightarrow>
      tk_type t \<in> {REDIS_REPLY_STRING, REDIS_REPLY_STATUS, REDIS_REPLY_ERROR} \<Longrightarrow> length str < 2 ^ 31 \<Longrightarrow>
      \<exists>x. f t par str h = Inr x \<and> built hinv arr root (freeObject fn \<noteq> None) par h x"
    and array_law: "createArray fn = Some g \<Longrightarrow> hinv h \<Longrightarrow> slot_ok arr h t par \<Longrightarrow> n < 2 ^ 31 \<Longrightarrow>
      \<exists>p h'. g t par n h = Inr (p, h') \<and> built hinv arr root (freeObject fn \<noteq> None) par h (p, h') \<and>
        (p \<noteq> 0 \<and> 0 < n \<longrightarrow> arr h' p n)"
    and integer_law: "createInteger fn = Some i \<Longrightarrow> hinv h \<Longrightarrow> slot_ok arr h t par \<Longrightarrow>
      \<exists>x. i t par v h = Inr x \<and> built hinv arr root (freeObject fn \<noteq> None) par h x"
    and nil_law: "createNil fn = Some j \<Longrightarrow> hinv h \<Longrightarrow> slot_ok arr h t par \<Longrightarrow>
      \<exists>x. j t par h = Inr x \<and> built hinv arr root (freeObject fn \<noteq> None) par h x"
    and missing_law: "createString fn = None \<or> createArray fn = None \<or> createInteger fn = None \<or> createNil fn = None \<Longrightarrow>
      hinv h \<Longrightarrow> 0 < c \<Longrightarrow> built hinv arr root (freeObject fn \<noteq> None) par h (c, h) \<and> arr h (nat REDIS_REPLY_ARRAY) n"
    and free_law: "freeObject fn = Some k \<Longrightarrow> hinv h \<Longrightarrow> root h p \<Longrightarrow>
      \<exists>h'. k p h = Inr h' \<and> hinv h' \<and> (\<forall>q. root h q \<and> q \<noteq> p \<longrightarrow> root h' q)"
begin

abbreviation (input) "made par h x \<equiv> built hinv arr root (freeObject fn \<noteq> None) par h x"

lemma SetError_ok:
  assumes "hinv h" and "length (rd_rstack r) = 9" and "rd_reply r \<noteq> 0 \<longrightarrow> root h (rd_reply r)" and "type \<noteq> 0"
  shows "\<exists>r' h'. redisReaderSetError fn r h type msg = Inr (r', h') \<and> hinv h' \<and> proc_inv arr root r' h' \<and>
    rd_err r' = type \<and> (\<forall>q. owned fn root r h q \<longrightarrow> owned fn root r' h' q)"
proof (cases "freeObject fn")
  case None
  with assms show ?thesis by (auto simp: redisReaderSetError_def Let_def proc_inv_def owned_def)
next
  case (Some k)
  show ?thesis
  proof (cases "rd_reply r = 0")
    case True
    with Some assms show ?thesis by (auto simp: redisReaderSetError_def Let_def proc_inv_def owned_def)
  next
    case False
    with free_law [OF Some assms(1), of "rd_reply r"] assms obtain h' where
      "k (rd_reply r) h = Inr h'" "hinv h'" "\<forall>q. root h q \<and> q \<noteq> rd_reply r \<longrightarrow> root h' q" by auto
    with Some False assms show ?thesis by (auto simp: redisReaderSetError_def Let_def proc_inv_def owned_def)
  qed
qed

lemma error_item_ok:
  assumes r: "proc_inv arr root r h" "rd_err r = 0" and h: "hinv h1" and b: "\<And>q n. root h q \<Longrightarrow> root h1 q"
    and t: "type \<noteq> 0" and eq: "rd_reply r1 = rd_reply r" "length (rd_rstack r1) = 9"
  shows "item_ok fn hinv arr root r h (bindE (redisReaderSetError fn r1 h1 type msg) (\<lambda>(r, h). Inr (REDIS_ERR, r, h)))"
proof -
  have "rd_reply r1 \<noteq> 0 \<longrightarrow> root h1 (rd_reply r1)" using r b eq by (auto simp: proc_inv_def split: if_splits)
  from SetError_ok [OF h eq(2) this t, of msg] obtain r' h' where
    "redisReaderSetError fn r1 h1 type msg = Inr (r', h')" "hinv h'" "proc_inv arr root r' h'"
    "\<forall>q. owned fn root r1 h1 q \<longrightarrow> owned fn root r' h' q" by blast
  moreover have "owned fn root r1 h1 q" if "owned fn root r h q" for q
    using that b eq by (auto simp: owned_def)
  ultimately show ?thesis by (auto simp: item_ok_def)
qed

lemma finish_item_ok:
  assumes r: "proc_inv arr root r h" "rd_err r = 0" "0 \<le> rd_ridx r" and n: "rd_pos r \<le> n" "n \<le> rd_len r"
    and m: "made (parent_task r (cur_task r)) h (obj, h1)" and p: "r1 = r\<lparr>rd_pos := n\<rparr>"
  shows "item_ok fn hinv arr root r h (finish_item fn r1 h1 obj)"
proof (cases "obj = 0")
  case True
  have "item_ok fn hinv arr root r h (bindE (redisReaderSetErrorOOM fn r1 h1) (\<lambda>(r, h). Inr (REDIS_ERR, r, h)))"
    unfolding redisReaderSetErrorOOM_def by (rule error_item_ok [OF r(1,2)]) (use m r p in \<open>auto simp: built_def proc_inv_def\<close>)
  then show ?thesis using True by (simp add: finish_item_def)
next
  case False
  have h1: "hinv h1" and mono: "\<And>q n. arr h q n \<Longrightarrow> arr h1 q n" "\<And>q. root h q \<Longrightarrow> root h1 q"
    and new: "rd_ridx r = 0 \<Longrightarrow> root h1 obj \<and> (freeObject fn \<noteq> None \<longrightarrow> \<not> root h obj)"
    using m False slot_cur(2) [OF r] by (auto simp: built_def)
  define r2 where "r2 = (if rd_ridx r1 = 0 then r1\<lparr>rd_reply := obj\<rparr> else r1)"
  have inv1: "proc_inv arr root r1 h1" using proc_inv_mono [OF proc_inv_pos [OF r(1,2) n(2)] mono] p by simp
  from r inv1 have st: "stack_ok arr h1 (rd_rstack r1) (nat (rd_ridx r1))" "length (rd_rstack r1) = 9"
    "rd_ridx r1 \<le> 8" "buffer_ok r1" by (auto simp: proc_inv_def p)
  then have k: "nat (rd_ridx r1) < length (rd_rstack r1)" by simp
  obtain st' i where mv: "move_next (rd_rstack r1) (nat (rd_ridx r1)) = Inr (st', i)" "length st' = 9"
    "-1 \<le> i" "i \<le> rd_ridx r1" "i \<noteq> 0" "0 \<le> i \<longrightarrow> stack_ok arr h1 st' (nat i) \<and> tk_type (st' ! nat i) = -1"
    using move_next_ok [OF st(1) k] st(2) r(3) p by auto
  let ?r = "r2\<lparr>rd_rstack := st', rd_ridx := i\<rparr>"
  have fi: "finish_item fn r1 h1 obj = Inr (REDIS_OK, ?r, h1)"
    using False mv(1) r(3) p by (auto simp: finish_item_def moveToNextTask_def r2_def)
  have "rd_reply ?r \<noteq> 0 \<and> root h1 (rd_reply ?r)"
    using r new mono False by (auto simp: r2_def p proc_inv_def split: if_splits)
  then have "proc_inv arr root ?r h1"
    using mv st r by (auto simp: proc_inv_def r2_def p buffer_ok_def)
  moreover have "owned fn root ?r h1 q" if "owned fn root r h q" for q
    using that mono(2) new by (auto simp: owned_def r2_def p)
  ultimately show ?thesis
    unfolding fi using h1 mv r n by (auto simp: item_ok_def cur_task_def r2_def p)
qed

lemma line_object_ok:
  assumes "hinv h" "slot_ok arr h t par" "CHR 0x0D \<in> set p" "len < 2 ^ 31"
    and "tk_type t \<in> {REDIS_REPLY_INTEGER, REDIS_REPLY_STATUS, REDIS_REPLY_ERROR}"
  shows "\<exists>x. line_object fn t par p len h = Inr x \<and> made par h x"
proof -
  obtain v where v: "readLongLong p = Inr v" using readLongLong_total [OF assms(3)] by blast
  have l: "length (take len p) < 2 ^ 31" using assms(4) by simp
  have ty: "tk_type t \<noteq> REDIS_REPLY_INTEGER \<Longrightarrow> tk_type t \<in> {REDIS_REPLY_STRING, REDIS_REPLY_STATUS, REDIS_REPLY_ERROR}"
    using assms(5) by auto
  have c: "0 < nat (tk_type t)" using assms(5) by auto
  show ?thesis
  proof (cases "tk_type t = REDIS_REPLY_INTEGER")
    case True
    then show ?thesis
      using integer_law [OF _ assms(1,2), of _ v] missing_law [OF _ assms(1), of "nat REDIS_REPLY_INTEGER" par] v
      by (cases "createInteger fn") (auto simp: line_object_def)
  next
    case False
    then show ?thesis
      using string_law [OF _ assms(1,2) ty l] missing_law [OF _ assms(1) c, of par]
      by (cases "createString fn") (auto simp: line_object_def)
  qed
qed

lemma nil_object_ok:
  assumes "hinv h" "slot_ok arr h t par"
  shows "\<exists>x. nil_object fn t par h = Inr x \<and> made par h x"
  using nil_law [OF _ assms] missing_law [OF _ assms(1), of "nat REDIS_REPLY_NIL" par]
  by (cases "createNil fn") (auto simp: nil_object_def)

lemma array_object_ok:
  assumes "hinv h" "slot_ok arr h t par" "n < 2 ^ 31" "- (2 ^ 63) \<le> n"
  shows "\<exists>p h'. array_object fn t par n h = Inr (p, h') \<and> made par h (p, h') \<and>
     (p \<noteq> 0 \<and> 0 < n \<longrightarrow> arr h' p (to_int32 n))"
proof -
  have n: "to_int32 n < 2 ^ 31" "0 < n \<Longrightarrow> to_int32 n = n"
    using to_int32_range [of n] assms(3) to_int32_id [of n] by auto
  show ?thesis
    using nil_object_ok [OF assms(1,2)] array_law [OF _ assms(1,2) n(1)] n(2)
      missing_law [OF _ assms(1), of "nat REDIS_REPLY_ARRAY" par "to_int32 n"]
    by (cases "createArray fn") (auto simp: array_object_def)
qed

lemma item_ok_same:
  "proc_inv arr root r h \<Longrightarrow> hinv h \<Longrightarrow> item_ok fn hinv arr root r h (Inr (REDIS_ERR, r, h))"
  by (simp add: item_ok_def)

lemma processLineItem_ok:
  assumes r: "proc_inv arr root r h" "rd_err r = 0" "0 \<le> rd_ridx r" and h: "hinv h"
    and t: "tk_type (cur_task r) \<in> {REDIS_REPLY_INTEGER, REDIS_REPLY_STATUS, REDIS_REPLY_ERROR}"
  shows "item_ok fn hinv arr root r h (processLineItem fn r h)"
proof -
  have "buffer_ok r" using r by (simp add: proc_inv_def)
  then obtain p where p: "reader_bytes r = Inr p" "length p = rd_len r - rd_pos r" "rd_pos r \<le> rd_len r"
    using reader_bytes_Inr by (auto simp: buffer_ok_def)
  show ?thesis
  proof (cases "seekNewline p")
    case None
    then show ?thesis using item_ok_same [OF r(1) h] p by (simp add: processLineItem_def readLine_def)
  next
    case (Some q)
    note q = seekNewline_Some [OF Some] seekNewline_CR [OF Some]
    obtain obj h1 where o: "line_object fn (cur_task r) (parent_task r (cur_task r)) p q h = Inr (obj, h1)"
      "made (parent_task r (cur_task r)) h (obj, h1)"
      using line_object_ok [OF h slot_cur(1) [OF r] q(2) _ t] q(1) by fastforce
    have "item_ok fn hinv arr root r h (finish_item fn (r\<lparr>rd_pos := rd_pos r + (q + 2)\<rparr>) h1 obj)"
      using q(1) p by (intro finish_item_ok [OF r _ _ o(2) refl]) auto
    then show ?thesis using o p Some by (simp add: processLineItem_def readLine_def)
  qed
qed

lemma bulk_object_ok:
  assumes "hinv h" "slot_ok arr h t par" "tk_type t = REDIS_REPLY_STRING"
    and p: "rd_pos r + length p = rd_len r" "rd_len r < 2 ^ 31" "s + 2 \<le> length p" and len: "len < 2 ^ 63"
  shows "bulk_object fn r t par p s len h = Inr None \<or>
    (\<exists>x n. bulk_object fn r t par p s len h = Inr (Some (x, n)) \<and> made par h x \<and> n \<le> length p)"
proof (cases "len < 0")
  case True
  with nil_object_ok [OF assms(1,2)] p show ?thesis by (auto simp: bulk_object_def)
next
  case False
  let ?n = "s + 2 + nat len + 2"
  have "nat len < 2 ^ 63" using len False by simp
  with p have w: "wrap64 ?n = ?n" "wrap64 (rd_pos r + ?n) = rd_pos r + ?n" by simp_all
  show ?thesis
  proof (cases "rd_pos r + ?n \<le> rd_len r")
    case True
    with p have pk: "peekn p (s + 2) (nat len) = Inr (take (nat len) (drop (s + 2) p))" by (intro peekn_Inr) simp
    have l: "length (take (nat len) (drop (s + 2) p)) < 2 ^ 31" using p by simp
    have ty: "tk_type t \<in> {REDIS_REPLY_STRING, REDIS_REPLY_STATUS, REDIS_REPLY_ERROR}" using assms(3) by simp
    show ?thesis
    proof (cases "createString fn")
      case None
      with missing_law [OF _ assms(1), of "nat REDIS_REPLY_STRING" par] True False p
      show ?thesis by (simp add: bulk_object_def w Let_def del: add_2_eq_Suc add_2_eq_Suc')
    next
      case (Some f)
      with string_law [OF Some assms(1,2) ty l] True False p
      show ?thesis by (auto simp: bulk_object_def w Let_def pk simp del: add_2_eq_Suc add_2_eq_Suc')
    qed
  next
    case nf: False
    then show ?thesis using False unfolding bulk_object_def Let_def w by simp
  qed
qed

lemma processBulkItem_ok:
  assumes r: "proc_inv arr root r h" "rd_err r = 0" "0 \<le> rd_ridx r" and h: "hinv h"
    and t: "tk_type (cur_task r) = REDIS_REPLY_STRING"
  shows "item_ok fn hinv arr root r h (processBulkItem fn r h)"
proof -
  let ?t = "cur_task r" and ?par = "parent_task r (cur_task r)"
  have "buffer_ok r" using r by (simp add: proc_inv_def)
  then obtain p where p: "reader_bytes r = Inr p" "rd_pos r + length p = rd_len r" "rd_len r < 2 ^ 31"
    using reader_bytes_Inr [of r] by (auto simp: buffer_ok_def)
  show ?thesis
  proof (cases "seekNewline p")
    case None
    then show ?thesis using item_ok_same [OF r(1) h] p by (simp add: processBulkItem_def)
  next
    case (Some q)
    note q = seekNewline_Some [OF Some] seekNewline_CR [OF Some]
    obtain len where len: "readLongLong p = Inr len" using readLongLong_total [OF q(2)] by blast
    have "len < 2 ^ 63" using readLongLong_range [OF len] by simp
    with bulk_object_ok [OF h slot_cur(1) [OF r] t p(2,3), of q len] q(1) consider
      "bulk_object fn r ?t ?par p q len h = Inr None"
      | obj h1 n where "bulk_object fn r ?t ?par p q len h = Inr (Some ((obj, h1), n))"
          "made ?par h (obj, h1)" "n \<le> length p" by fastforce
    then show ?thesis
    proof cases
      case 1
      then show ?thesis using item_ok_same [OF r(1) h] p Some len by (simp add: processBulkItem_def)
    next
      case (2 obj h1 n)
      then have "item_ok fn hinv arr root r h
          (finish_item fn (r\<lparr>rd_pos := if obj = 0 then rd_pos r else rd_pos r + n\<rparr>) h1 obj)"
        using p by (intro finish_item_ok [OF r _ _ _ refl]) auto
      then show ?thesis using 2 p Some len by (auto simp: processBulkItem_def split: if_splits)
    qed
  qed
qed

lemma enter_first_ok:
  assumes r: "proc_inv arr root r h" "rd_err r = 0" "0 \<le> rd_ridx r" "rd_ridx r < 8" and h: "hinv h1"
    and t: "tk_type (cur_task r) = REDIS_REPLY_ARRAY" and n: "rd_pos r \<le> n" "n \<le> rd_len r"
    and m: "made (parent_task r (cur_task r)) h (obj, h1)" and obj: "obj \<noteq> 0" and e: "0 < e" "arr h1 obj e"
    and r2: "r2 = push_task (set_cur (r\<lparr>rd_pos := n\<rparr>) ((cur_task r)\<lparr>tk_elements := e, tk_obj := obj\<rparr>))"
  shows "item_ok fn hinv arr root r h (Inr (REDIS_OK, if rd_ridx r = 0 then r2\<lparr>rd_reply := obj\<rparr> else r2, h1))"
proof -
  define k where "k = nat (rd_ridx r)"
  have k: "rd_ridx r = int k" "k < 8" using r by (auto simp: k_def)
  have mono: "\<And>q n. arr h q n \<Longrightarrow> arr h1 q n" "\<And>q. root h q \<Longrightarrow> root h1 q"
    and new: "rd_ridx r = 0 \<Longrightarrow> root h1 obj \<and> (freeObject fn \<noteq> None \<longrightarrow> \<not> root h obj)"
    using m obj slot_cur(2) [OF r(1,2,3)] by (auto simp: built_def)
  let ?st = "rd_rstack r" and ?c = "(cur_task r)\<lparr>tk_elements := e, tk_obj := obj\<rparr>"
    and ?n = "\<lparr>tk_type = -1, tk_elements = -1, tk_idx = 0, tk_obj = 0, tk_parent = Some k\<rparr>"
  have st: "stack_ok arr h ?st k" "length ?st = 9" using r by (auto simp: proc_inv_def k_def)
  have r2': "rd_rstack r2 = ?st[k := ?c, Suc k := ?n]" "rd_ridx r2 = int (Suc k)"
    "rd_err r2 = rd_err r" "rd_reply r2 = rd_reply r" "rd_buf r2 = rd_buf r" "rd_len r2 = rd_len r" "rd_pos r2 = n"
    by (auto simp: r2 push_task_def set_cur_def Let_def k)
  have nw: "stack_ok arr h1 (?st[k := ?c, Suc k := ?n]) (Suc k)"
    using st k e t mono(1) unfolding stack_ok_def cur_task_def k_def [symmetric]
    by (auto simp: nth_list_update less_Suc_eq)
  define r3 where "r3 = (if rd_ridx r = 0 then r2\<lparr>rd_reply := obj\<rparr> else r2)"
  have r3: "rd_rstack r3 = rd_rstack r2" "rd_ridx r3 = rd_ridx r2" "rd_err r3 = rd_err r" "rd_buf r3 = rd_buf r"
    "rd_len r3 = rd_len r" "rd_pos r3 = n" using r2' by (auto simp: r3_def)
  have rp: "rd_reply r3 \<noteq> 0 \<and> root h1 (rd_reply r3)"
    using r new mono obj by (auto simp: r3_def r2' proc_inv_def split: if_splits)
  have "buffer_ok r3" using r n by (auto simp: proc_inv_def buffer_ok_def r3 r2')
  moreover have "stack_ok arr h1 (rd_rstack r3) (nat (rd_ridx r3))" "length (rd_rstack r3) = 9"
    using nw st by (simp_all add: r3 r2' nat_add_distrib)
  ultimately have "proc_inv arr root r3 h1" using rp k r by (simp add: proc_inv_def r3 r2')
  moreover have "owned fn root r3 h1 q" if "owned fn root r h q" for q
    using that mono(2) new by (auto simp: owned_def r3_def r2')
  moreover have "tk_type (cur_task r3) = -1"
    using st k by (simp add: cur_task_def r3 r2' nat_add_distrib)
  ultimately show ?thesis unfolding r3_def [symmetric] using h r n by (auto simp: item_ok_def r3)
qed

lemma processMultiBulkItem_ok:
  assumes r: "proc_inv arr root r h" "rd_err r = 0" "0 \<le> rd_ridx r" and h: "hinv h"
    and t: "tk_type (cur_task r) = REDIS_REPLY_ARRAY" and c: "counts_ok r"
  shows "item_ok fn hinv arr root r h (processMultiBulkItem fn r h)"
proof (cases "rd_ridx r = 8")
  case True
  then show ?thesis
    using error_item_ok [OF r(1,2) h, of REDIS_ERR_PROTOCOL r] r by (simp add: processMultiBulkItem_def proc_inv_def)
next
  case False
  let ?t = "cur_task r" and ?par = "parent_task r (cur_task r)"
  have l8: "rd_ridx r < 8" using False r by (simp add: proc_inv_def)
  have "buffer_ok r" using r by (simp add: proc_inv_def)
  then obtain p where p: "reader_bytes r = Inr p" "rd_pos r + length p = rd_len r"
    using reader_bytes_Inr [of r] by (auto simp: buffer_ok_def)
  show ?thesis
  proof (cases "seekNewline p")
    case None
    then show ?thesis using item_ok_same [OF r(1) h] p False by (simp add: processMultiBulkItem_def readLine_def)
  next
    case (Some q)
    note q = seekNewline_Some [OF Some] seekNewline_CR [OF Some]
    let ?r = "r\<lparr>rd_pos := rd_pos r + (q + 2)\<rparr>"
    obtain e where e: "readLongLong p = Inr e" using readLongLong_total [OF q(2)] by blast
    have "e < 2 ^ 31" "- (2 ^ 63) \<le> e"
      using c p t r(3) e readLongLong_range [OF e] by (auto simp: counts_ok_def small_count_def)
    with array_object_ok [OF h slot_cur(1) [OF r], of e] obtain obj h1 where
      o: "array_object fn ?t ?par e h = Inr (obj, h1)" "made ?par h (obj, h1)"
      "obj \<noteq> 0 \<and> 0 < e \<longrightarrow> arr h1 obj (to_int32 e)" by blast
    have h1: "hinv h1" using o(2) by (simp add: built_def)
    have e32: "0 < e \<Longrightarrow> 0 < to_int32 e" using \<open>e < 2 ^ 31\<close> by (simp add: to_int32_id)
    have bounds: "rd_pos r \<le> rd_pos r + (q + 2)" "rd_pos r + (q + 2) \<le> rd_len r" using q(1) p by auto
    have unf: "processMultiBulkItem fn r h =
        (if obj = 0 then bindE (redisReaderSetErrorOOM fn ?r h1) (\<lambda>(r, h). Inr (REDIS_ERR, r, h))
         else bindE (enter_array ?r ?t e obj) (\<lambda>r'.
               Inr (REDIS_OK, if rd_ridx r = 0 then r'\<lparr>rd_reply := obj\<rparr> else r', h1)))"
      using False p Some e o(1) by (simp add: processMultiBulkItem_def readLine_def Let_def)
    consider "obj = 0" | "obj \<noteq> 0" "0 < e" | "obj \<noteq> 0" "\<not> 0 < e" by blast
    then show ?thesis
    proof cases
      case 1
      with finish_item_ok [OF r bounds o(2) refl] show ?thesis by (simp add: unf finish_item_def)
    next
      case 2
      with enter_first_ok [OF r l8 h1 t bounds o(2) 2(1) e32 [OF 2(2)] _ refl] o(3)
      show ?thesis by (simp add: unf enter_array_def del: add_2_eq_Suc add_2_eq_Suc')
    next
      case 3
      have en: "enter_array ?r ?t e obj = moveToNextTask ?r" using 3 by (simp add: enter_array_def)
      have "processMultiBulkItem fn r h = finish_item fn ?r h1 obj"
        unfolding unf en enter_none [OF 3(1), of ?r, symmetric] using 3 by simp
      with finish_item_ok [OF r bounds o(2) refl] show ?thesis by simp
    qed
  qed
qed

lemma process_typed_ok:
  assumes r: "proc_inv arr root r h" "rd_err r = 0" "0 \<le> rd_ridx r" and h: "hinv h"
    and t: "tk_type (cur_task r) \<noteq> -1" and c: "counts_ok r"
  shows "item_ok fn hinv arr root r h (process_typed fn r h)"
proof -
  have "stack_ok arr h (rd_rstack r) (nat (rd_ridx r))" using r by (simp add: proc_inv_def)
  then consider "tk_type (cur_task r) \<in> {REDIS_REPLY_INTEGER, REDIS_REPLY_STATUS, REDIS_REPLY_ERROR}"
    | "tk_type (cur_task r) = REDIS_REPLY_STRING" | "tk_type (cur_task r) = REDIS_REPLY_ARRAY"
    using t by (auto simp: stack_ok_def cur_task_def)
  then show ?thesis
  proof cases
    case 1
    with processLineItem_ok [OF r h] show ?thesis by (auto simp: process_typed_def Let_def)
  next
    case 2
    with processBulkItem_ok [OF r h] show ?thesis by (simp add: process_typed_def)
  next
    case 3
    with processMultiBulkItem_ok [OF r h _ c] show ?thesis by (simp add: process_typed_def)
  qed
qed

lemma item_ok_weaken:
  "item_ok fn hinv arr root r0 h x \<Longrightarrow> rd_reply r0 = rd_reply r \<Longrightarrow> rd_buf r0 = rd_buf r \<Longrightarrow> rd_len r0 = rd_len r \<Longrightarrow>
   rd_pos r \<le> rd_pos r0 \<Longrightarrow> item_ok fn hinv arr root r h x"
  by (auto simp: item_ok_def owned_def)

lemma type_byte_ok:
  assumes r: "proc_inv arr root r h" "rd_err r = 0" "0 \<le> rd_ridx r" and n: "n \<le> rd_len r"
    and t: "reply_type_of c = Some t"
  shows "proc_inv arr root (set_cur (r\<lparr>rd_pos := n\<rparr>) ((cur_task r)\<lparr>tk_type := t\<rparr>)) h"
proof -
  have "stack_ok arr h (rd_rstack r) (nat (rd_ridx r))" "length (rd_rstack r) = 9" "nat (rd_ridx r) < 9"
    using r by (auto simp: proc_inv_def)
  then have "stack_ok arr h ((rd_rstack r)[nat (rd_ridx r) := (cur_task r)\<lparr>tk_type := t\<rparr>]) (nat (rd_ridx r))"
    using t unfolding stack_ok_def cur_task_def
    by (auto simp: nth_list_update reply_type_of_def split: if_splits)
  then show ?thesis using r n by (auto simp: proc_inv_def set_cur_def buffer_ok_def)
qed

lemma processItem_ok:
  assumes r: "proc_inv arr root r h" "rd_err r = 0" "0 \<le> rd_ridx r" and h: "hinv h" and c: "counts_ok r"
  shows "item_ok fn hinv arr root r h (processItem fn r h)"
proof (cases "tk_type (cur_task r) < 0")
  case False
  then show ?thesis using process_typed_ok [OF r h _ c] by (simp add: processItem_def)
next
  case True
  have b: "buffer_ok r" using r by (simp add: proc_inv_def)
  then obtain p where p: "reader_bytes r = Inr p" "rd_pos r + length p = rd_len r" "rd_len r < 2 ^ 31"
    using reader_bytes_Inr [of r] by (auto simp: buffer_ok_def)
  have sub: "sub64 (rd_len r) (rd_pos r) = length p" using p by (subst sub64_id) auto
  show ?thesis
  proof (cases p)
    case Nil
    then have "processItem fn r h = Inr (REDIS_ERR, r, h)" using True sub by (simp add: processItem_def readBytes_def)
    then show ?thesis using item_ok_same [OF r(1) h] by simp
  next
    case (Cons a p')
    let ?r = "r\<lparr>rd_pos := rd_pos r + 1\<rparr>"
    have rb: "readBytes r 1 = Inr (Some (p, ?r))" using sub p Cons by (simp add: readBytes_def)
    show ?thesis
    proof (cases "reply_type_of a")
      case None
      have "item_ok fn hinv arr root r h (bindE (redisReaderSetErrorProtocolByte fn ?r h a) (\<lambda>(r, h). Inr (REDIS_ERR, r, h)))"
        unfolding redisReaderSetErrorProtocolByte_def
        by (rule error_item_ok [OF r(1,2) h]) (use r in \<open>auto simp: proc_inv_def\<close>)
      moreover have "processItem fn r h = bindE (redisReaderSetErrorProtocolByte fn ?r h a) (\<lambda>(r, h). Inr (REDIS_ERR, r, h))"
        using True None Cons rb by (simp add: processItem_def)
      ultimately show ?thesis by simp
    next
      case (Some t)
      have ct: "cur_task ?r = cur_task r" by (simp add: cur_task_def)
      define r0 where "r0 = set_cur ?r ((cur_task r)\<lparr>tk_type := t\<rparr>)"
      have r0: "rd_reply r0 = rd_reply r" "rd_buf r0 = rd_buf r" "rd_len r0 = rd_len r" "rd_pos r0 = rd_pos r + 1"
        "rd_ridx r0 = rd_ridx r" "rd_err r0 = rd_err r" by (simp_all add: r0_def set_cur_def)
      have inv: "proc_inv arr root r0 h"
        unfolding r0_def using p Cons by (intro type_byte_ok [OF r _ Some]) simp
      have "nat (rd_ridx r) < length (rd_rstack r)" using r by (auto simp: proc_inv_def)
      then have ty: "tk_type (cur_task r0) = t" by (simp add: r0_def set_cur_def cur_task_def)
      have bytes: "reader_bytes r0 = Inr p'"
        using reader_bytes_pos [OF p(1), of 1] Cons reader_bytes_cong [of r0 ?r] by (simp add: r0)
      have "counts_ok r0"
      proof -
        have all: "\<forall>i<length p. p ! i = CHR ''*'' \<longrightarrow> small_count (drop (Suc i) p)"
          using c p by (simp add: counts_ok_def)
        then have "\<forall>i<length p'. p' ! i = CHR ''*'' \<longrightarrow> small_count (drop (Suc i) p')"
          using Cons by (auto dest: spec [of _ "Suc _"])
        moreover have "t = REDIS_REPLY_ARRAY \<Longrightarrow> small_count p'"
          using all Some Cons by (auto simp: reply_type_of_def split: if_splits)
        ultimately show ?thesis using ty by (simp add: counts_ok_def bytes)
      qed
      then have "item_ok fn hinv arr root r0 h (process_typed fn r0 h)"
        using process_typed_ok [OF inv _ _ h] r0 r ty Some by (auto simp: reply_type_of_def split: if_splits)
      then have "item_ok fn hinv arr root r h (process_typed fn r0 h)"
        by (rule item_ok_weaken) (simp_all add: r0)
      moreover have "processItem fn r h = process_typed fn r0 h"
        using True Some Cons rb ct by (simp add: processItem_def r0_def)
      ultimately show ?thesis by simp
    qed
  qed
qed

end

lemma counts_ok_later:
  assumes c: "counts_ok r" and p: "reader_bytes r = Inr p"
    and r': "rd_buf r' = rd_buf r" "rd_len r' = rd_len r" "rd_pos r \<le> rd_pos r'" "rd_pos r' \<le> rd_len r"
    and t: "0 \<le> rd_ridx r' \<longrightarrow> tk_type (cur_task r') = -1"
  shows "counts_ok r'"
proof -
  define n where "n = rd_pos r' - rd_pos r"
  have n: "n \<le> length p" "rd_pos r' = rd_pos r + n" using reader_bytes_length [OF p] r' by (auto simp: n_def)
  have "reader_bytes r' = reader_bytes (r\<lparr>rd_pos := rd_pos r + n\<rparr>)"  using r' n by (intro reader_bytes_cong) simp_all
  then have b: "reader_bytes r' = Inr (drop n p)" using reader_bytes_pos [OF p n(1)] by simp
  have "\<forall>i<length p. p ! i = CHR ''*'' \<longrightarrow> small_count (drop (Suc i) p)" using c p by (simp add: counts_ok_def)
  then have "\<forall>i<length p - n. p ! (n + i) = CHR ''*'' \<longrightarrow> small_count (drop (Suc (n + i)) p)" by auto
  then show ?thesis using t b n by (auto simp: counts_ok_def add.commute)
qed


lemma start_task_inv:
  assumes "reader_inv arr root r h" and "rd_err r = 0"
  shows "proc_inv arr root (start_task r) h \<and> 0 \<le> rd_ridx (start_task r) \<and> rd_err (start_task r) = 0 \<and>
    rd_reply (start_task r) = rd_reply r \<and> rd_len (start_task r) = rd_len r"
  using assms
  by (auto simp: reader_inv_def proc_inv_def start_task_def buffer_ok_def stack_ok_def nth_list_update split: if_splits)

lemma counts_ok_start:
  assumes "counts_ok r" and "length (rd_rstack r) = 9" and "-1 \<le> rd_ridx r"
  shows "counts_ok (start_task r)"
proof -
  have "reader_bytes (start_task r) = reader_bytes r" by (intro reader_bytes_cong) (simp_all add: start_task_def)
  moreover have "rd_ridx r = -1 \<Longrightarrow> tk_type (cur_task (start_task r)) = -1"
    using assms(2) by (simp add: start_task_def cur_task_def)
  moreover have "rd_ridx r \<noteq> -1 \<Longrightarrow> start_task r = r" by (simp add: start_task_def)
  ultimately show ?thesis using assms by (cases "rd_ridx r = -1") (auto simp: counts_ok_def split: sum.splits)
qed

lemma slice_tail: "slice xs (int n) (-1) = drop n xs"
  by (cases "xs = []") (auto simp: slice_def slice_index_def Suc_nat_eq_nat_zadd1)

lemma discard_consumed_ok:
  assumes r: "proc_inv arr root r h" and e: "rd_err r = 0"
  shows "\<exists>r'. discard_consumed r = Inr r' \<and> proc_inv arr root r' h \<and> rd_err r' = 0 \<and> rd_reply r' = rd_reply r \<and>
    rd_ridx r' = rd_ridx r"
proof (cases "1024 \<le> rd_pos r")
  case False
  then show ?thesis using r e by (simp add: discard_consumed_def)
next
  case True
  from r e obtain s where s: "rd_buf r = Some s" "sds_wf s" "sdslen s < 2 ^ 31" "rd_len r = sdslen s" "rd_pos r \<le> rd_len r"
    by (auto simp: proc_inv_def buffer_ok_def)
  then have i: "to_int32 (int (rd_pos r)) = int (rd_pos r)" by (intro to_int32_id) auto
  from sdsrange_ok [OF s(2,3), of "int (rd_pos r)" "-1"] s obtain s' where
    s': "sdsrange s (int (rd_pos r)) (-1) = Inr s'" "sds_wf s'" "sdsval s' = slice (sdsval s) (int (rd_pos r)) (-1)" by auto
  have "sdslen s' \<le> sdslen s"
    using s' s(2) sdsval_length [OF sds_wf_shape [OF s(2)]] sdsval_length [OF sds_wf_shape [OF s'(2)]]
    by (simp add: slice_tail)
  with s' s True r e show ?thesis by (auto simp: discard_consumed_def i proc_inv_def buffer_ok_def)
qed

lemma discard_consumed_bytes:
  assumes b: "buffer_ok r" and p: "reader_bytes r = Inr p"
  shows "\<exists>r'. discard_consumed r = Inr r' \<and> buffer_ok r' \<and> reader_bytes r' = Inr p \<and> rd_reply r' = rd_reply r \<and>
    rd_ridx r' = rd_ridx r \<and> rd_rstack r' = rd_rstack r \<and> rd_err r' = rd_err r \<and>
    rd_errstr r' = rd_errstr r \<and> rd_maxbuf r' = rd_maxbuf r \<and> rd_len r' \<le> rd_len r"
proof (cases "1024 \<le> rd_pos r")
  case False
  then show ?thesis using b p by (simp add: discard_consumed_def)
next
  case True
  from b obtain s where s: "rd_buf r = Some s" "sds_wf s" "sdslen s < 2 ^ 31" "rd_len r = sdslen s" "rd_pos r \<le> rd_len r"
    by (auto simp: buffer_ok_def)
  then have i: "to_int32 (int (rd_pos r)) = int (rd_pos r)" by (intro to_int32_id) auto
  from sdsrange_ok [OF s(2,3), of "int (rd_pos r)" "-1"] s obtain s' where
    s': "sdsrange s (int (rd_pos r)) (-1) = Inr s'" "sds_wf s'" "sdsval s' = slice (sdsval s) (int (rd_pos r)) (-1)" by auto
  then have v: "sdsval s' = drop (rd_pos r) (sdsval s)" by (simp add: slice_tail)
  have l: "sdslen s' \<le> sdslen s"
    using s' s(2) sdsval_length [OF sds_wf_shape [OF s(2)]] sdsval_length [OF sds_wf_shape [OF s'(2)]]
    by (simp add: slice_tail)
  let ?r = "r\<lparr>rd_buf := Some s', rd_pos := 0, rd_len := sdslen s'\<rparr>"
  have "buffer_ok ?r" using s'(2) l s(3) by (simp add: buffer_ok_def)
  moreover from reader_bytes_val [OF this, of s'] have "reader_bytes ?r = Inr p"
    using v p reader_bytes_val [OF b s(1)] by simp
  moreover have "discard_consumed r = Inr ?r" using True s(1) s'(1) by (simp add: discard_consumed_def i)
  ultimately show ?thesis using l s(4) by simp
qed

lemma redisReaderFeed_bytes:
  assumes e: "rd_err r = 0" and bo: "buffer_ok r" and g: "grants_all mal"
    and n: "len \<le> length buf" "rd_len r + len < 2 ^ 31" and p: "reader_bytes r = Inr p"
  shows "\<exists>r'. redisReaderFeed mal fn r h (Some buf) len = Inr (REDIS_OK, r', h) \<and> buffer_ok r' \<and>
    reader_bytes r' = Inr (p @ take len buf) \<and> rd_len r' = rd_len r + len \<and> rd_rstack r' = rd_rstack r \<and> rd_ridx r' = rd_ridx r \<and>
    rd_reply r' = rd_reply r \<and> rd_err r' = rd_err r \<and> rd_errstr r' = rd_errstr r \<and> rd_maxbuf r' = rd_maxbuf r"
proof -
  from bo obtain s where s: "rd_buf r = Some s" "sds_wf s" "sdslen s < 2 ^ 31" "rd_len r = sdslen s" "rd_pos r \<le> rd_len r"
    by (auto simp: buffer_ok_def)
  have p': "p = drop (rd_pos r) (sdsval s)" using p reader_bytes_val [OF bo s(1)] by simp
  show ?thesis
  proof (cases "len = 0")
    case True
    then show ?thesis using bo e s p by (simp add: redisReaderFeed_def)
  next
    case False
    define shrink where "shrink \<longleftrightarrow> rd_len r = 0 \<and> rd_maxbuf r \<noteq> 0 \<and> sdsavail s > rd_maxbuf r"
    obtain e0 where e0: "sdsempty mal = Inr e0" "sds_wf e0" "sdslen e0 = 0" "sdsval e0 = []"
      using res_ok_total [OF sdsempty_ok g] by blast
    define s1 where "s1 = (if shrink then e0 else s)"
    define r1 where "r1 = (if shrink then r\<lparr>rd_buf := Some e0, rd_pos := 0\<rparr> else r)"
    have s1: "sds_wf s1" "sdslen s1 = rd_len r" "sdsval s1 = sdsval s"
      using s e0 sdsval_length [OF sds_wf_shape [OF s(2)]] by (auto simp: s1_def shrink_def)
    have pos: "rd_pos r1 = rd_pos r" using s by (auto simp: r1_def shrink_def)
    have "sdslen s1 + len < 2 ^ 62" using s1 n by simp
    from res_ok_total [OF sdscatlen_ok [OF s1(1) n(1) this] g] obtain b where
      b: "sdscatlen mal s1 buf len = Inr b" "sds_wf b" "sdsval b = sdsval s @ take len buf" using s1 by auto
    have lb: "sdslen b = rd_len r + len"
      using sdsval_length [OF sds_wf_shape [OF b(2)]] sdsval_length [OF sds_wf_shape [OF s(2)]] b(3) n(1) s(4) by simp
    let ?r = "r1\<lparr>rd_buf := Some b, rd_len := sdslen b\<rparr>"
    have run: "redisReaderFeed mal fn r h (Some buf) len = Inr (REDIS_OK, ?r, h)"
      using e False s(1) e0(1) b(1) unfolding redisReaderFeed_def s1_def r1_def shrink_def by (auto split: if_splits)
    have eq: "rd_rstack r1 = rd_rstack r" "rd_ridx r1 = rd_ridx r" "rd_err r1 = rd_err r" "rd_reply r1 = rd_reply r"
      "rd_errstr r1 = rd_errstr r" "rd_maxbuf r1 = rd_maxbuf r" by (simp_all add: r1_def)
    have bo': "buffer_ok ?r" using b lb n s(5) pos by (simp add: buffer_ok_def)
    then have "reader_bytes ?r = Inr (drop (rd_pos r) (sdsval b))"
      using reader_bytes_val [OF bo', of b] pos by simp
    then have "reader_bytes ?r = Inr (p @ take len buf)"
      using p' b(3) s(4,5) sdsval_length [OF sds_wf_shape [OF s(2)]] by simp
    with run bo' eq lb show ?thesis by simp
  qed
qed

context reply_functions begin

lemma process_items_ok:
  "proc_inv arr root r h \<Longrightarrow> rd_err r = 0 \<Longrightarrow> hinv h \<Longrightarrow> counts_ok r \<Longrightarrow>
   \<exists>r' h'. process_items fn r h = Inr (r', h') \<and> hinv h' \<and> proc_inv arr root r' h' \<and>
     (\<forall>q. owned fn root r h q \<longrightarrow> owned fn root r' h' q)"
proof (induction "rd_len r - rd_pos r" arbitrary: r h rule: less_induct)
  case (less r h)
  note prems = less.prems and IH = less.hyps
  show ?case
  proof (cases "0 \<le> rd_ridx r")
    case False
    with prems show ?thesis by (simp add: process_items.simps [of _ r])
  next
    case True
    from prems obtain p where p: "reader_bytes r = Inr p"
      using reader_bytes_Inr [of r] by (auto simp: proc_inv_def)
    from processItem_ok [OF prems(1,2) True prems(3,4)] obtain st r' h' where
      i: "processItem fn r h = Inr (st, r', h')" "hinv h'" "proc_inv arr root r' h'"
      "\<forall>q. owned fn root r h q \<longrightarrow> owned fn root r' h' q"
      and ok: "st = REDIS_OK \<longrightarrow> rd_err r' = 0 \<and> rd_buf r' = rd_buf r \<and> rd_len r' = rd_len r \<and> rd_pos r \<le> rd_pos r' \<and>
           (0 \<le> rd_ridx r' \<longrightarrow> tk_type (cur_task r') = -1)"
      unfolding item_ok_def by blast
    show ?thesis
    proof (cases "st = REDIS_OK")
      case False
      with i True show ?thesis by (simp add: process_items.simps [of _ r])
    next
      case st: True
      then have "rd_pos r' \<le> rd_len r" using ok i(3) by (auto simp: proc_inv_def buffer_ok_def)
      then have "counts_ok r'" using counts_ok_later [OF prems(4) p, of r'] ok st by simp
      moreover have "rd_len r' - rd_pos r' < rd_len r - rd_pos r"
        using processItem_advances [of fn r h r' h'] i(1) st by (auto simp: advances_def)
      ultimately obtain r2 h2 where "process_items fn r' h' = Inr (r2, h2)" "hinv h2" "proc_inv arr root r2 h2"
        "\<forall>q. owned fn root r' h' q \<longrightarrow> owned fn root r2 h2 q" using IH [OF _ i(3) _ i(2)] ok st by blast
      with st i True show ?thesis by (simp add: process_items.simps [of _ r])
    qed
  qed
qed

lemma redisReaderGetReply_ok:
  assumes r: "reader_inv arr root r h" and h: "hinv h" and c: "counts_ok r"
  shows "\<exists>st rep r' h'. redisReaderGetReply fn r h = Inr (st, rep, r', h') \<and> hinv h' \<and> reader_inv arr root r' h' \<and>
    (rd_err r' = 0 \<longleftrightarrow> st = REDIS_OK) \<and> (rep \<noteq> 0 \<longrightarrow> owned fn root r' h' rep) \<and>
    (\<forall>q. owned fn root r h q \<longrightarrow> owned fn root r' h' q \<and> (q \<noteq> rep \<or> freeObject fn = None))"
proof (cases "rd_err r = 0 \<and> rd_len r \<noteq> 0")
  case False
  with r h show ?thesis by (auto simp: redisReaderGetReply_def reader_inv_def owned_def)
next
  case True
  then have s: "proc_inv arr root (start_task r) h" "rd_err (start_task r) = 0"
    "rd_reply (start_task r) = rd_reply r" using start_task_inv [OF r] by auto
  have "counts_ok (start_task r)" using counts_ok_start [OF c] r by (simp add: reader_inv_def)
  from process_items_ok [OF s(1,2) h this] obtain r1 h1 where
    p: "process_items fn (start_task r) h = Inr (r1, h1)" "hinv h1" "proc_inv arr root r1 h1"
    "\<forall>q. owned fn root r h q \<longrightarrow> owned fn root r1 h1 q" using s(3) by (auto simp: owned_def)
  show ?thesis
  proof (cases "rd_err r1 = 0")
    case False
    with p True show ?thesis by (auto simp: redisReaderGetReply_def reader_inv_def proc_inv_def owned_def)
  next
    case e: True
    from discard_consumed_ok [OF p(3) e] obtain r2 where
      d: "discard_consumed r1 = Inr r2" "proc_inv arr root r2 h1" "rd_err r2 = 0" "rd_reply r2 = rd_reply r1" by blast
    then have o2: "\<forall>q. owned fn root r h q \<longrightarrow> owned fn root r2 h1 q" using p(4) by (simp add: owned_def)
    have run: "redisReaderGetReply fn r h =
      (if rd_ridx r2 = -1 then Inr (REDIS_OK, rd_reply r2, r2\<lparr>rd_reply := 0\<rparr>, h1) else Inr (REDIS_OK, 0, r2, h1))"
      using True p(1) e d(1) by (simp add: redisReaderGetReply_def)
    show ?thesis
    proof (cases "rd_ridx r2 = -1")
      case True
      with d have "rd_reply r2 \<noteq> 0" "root h1 (rd_reply r2)" "reader_inv arr root (r2\<lparr>rd_reply := 0\<rparr>) h1"
        by (auto simp: proc_inv_def reader_inv_def buffer_ok_def)
      with True o2 p(2) d(3) show ?thesis unfolding run by (auto simp: owned_def)
    next
      case False
      with d have "reader_inv arr root r2 h1" by (auto simp: proc_inv_def reader_inv_def split: if_splits)
      with False o2 p(2) d(3) show ?thesis unfolding run by (auto simp: owned_def)
    qed
  qed
qed

lemma redisReaderFree_ok:
  assumes "reader_inv arr root r h" and "hinv h"
  shows "\<exists>h'. redisReaderFree fn r h = Inr h' \<and> hinv h' \<and> (\<forall>q. owned fn root r h q \<longrightarrow> root h' q)"
proof (cases "freeObject fn")
  case None
  with assms(2) show ?thesis by (auto simp: redisReaderFree_def owned_def)
next
  case (Some k)
  show ?thesis
  proof (cases "rd_reply r = 0")
    case True
    with Some assms(2) show ?thesis by (auto simp: redisReaderFree_def owned_def)
  next
    case False
    then have "root h (rd_reply r)" using assms(1) by (auto simp: reader_inv_def split: if_splits)
    from free_law [OF Some assms(2) this] Some False show ?thesis by (auto simp: redisReaderFree_def owned_def)
  qed
qed

lemma redisReaderFeed_ok:
  assumes r: "reader_inv arr root r h" and g: "grants_all mal"
    and n: "len \<le> length buf" "rd_len r + len < 2 ^ 31"
  shows "\<exists>st r'. redisReaderFeed mal fn r h (Some buf) len = Inr (st, r', h) \<and> reader_inv arr root r' h \<and>
    rd_reply r' = rd_reply r \<and> (rd_err r = 0 \<longleftrightarrow> st = REDIS_OK) \<and> rd_err r' = rd_err r \<and>
    (\<forall>p. rd_err r = 0 \<and> reader_bytes r = Inr p \<longrightarrow> reader_bytes r' = Inr (p @ take len buf))"
proof (cases "rd_err r = 0")
  case False
  then show ?thesis using r by (simp add: redisReaderFeed_def)
next
  case True
  then have b: "buffer_ok r" using r by (simp add: reader_inv_def)
  then obtain p where p: "reader_bytes r = Inr p" using reader_bytes_Inr by blast
  from redisReaderFeed_bytes [OF True b g n p, of fn h] obtain r' where
    run: "redisReaderFeed mal fn r h (Some buf) len = Inr (REDIS_OK, r', h)" "buffer_ok r'" "reader_bytes r' = Inr (p @ take len buf)"
    and eq: "rd_rstack r' = rd_rstack r" "rd_ridx r' = rd_ridx r" "rd_reply r' = rd_reply r" "rd_err r' = rd_err r" by blast
  have "reader_inv arr root r' h" using r True run(2) unfolding reader_inv_def eq by simp
  with run eq True p show ?thesis by (intro exI [of _ REDIS_OK] exI [of _ r']) simp
qed

end

lemma redisReaderCreate_inv:
  assumes "redisReaderCreateWithFunctions mal = Inr r"
  shows "reader_inv arr root r h \<and> rd_err r = 0 \<and> rd_reply r = 0 \<and> reader_bytes r = Inr []"
proof -
  from assms obtain b where b: "sdsempty mal = Inr b" and r: "r = \<lparr>rd_err = 0, rd_errstr = [], rd_buf = Some b,
      rd_pos = 0, rd_len = 0, rd_maxbuf = REDIS_READER_MAX_BUF,
      rd_rstack = replicate 9 \<lparr>tk_type = 0, tk_elements = 0, tk_idx = 0, tk_obj = 0, tk_parent = None\<rparr>,
      rd_ridx = -1, rd_reply = 0\<rparr>"
    by (auto simp: redisReaderCreateWithFunctions_def bindE_Inr_iff)
  have "sds_wf b" "sdslen b = 0" using sdsempty_ok [of mal] b by auto
  then show ?thesis by (simp add: r reader_inv_def buffer_ok_def reader_bytes_def peekn_def)
qed

end
