(* ===== verification/ReaderIncr.thy ===== *)
theory ReaderIncr
  imports ReaderSafe
begin

section \<open>Parsing in pieces (hiredis/read.c)\<close>

text \<open>
  The reader may be given its input in any pieces: parsing a part of the input, stopping in the
  middle of an item and going on when more has arrived ends in the same state, with the same
  calls of the reply functions, as parsing all of it at once. This holds for every set of reply
  functions, since nothing is called before an item is complete.
\<close>

subsection \<open>The same reader with more input\<close>

definition same_but_input :: "redisReader \<Rightarrow> redisReader \<Rightarrow> bool" where
  "same_but_input r r' \<longleftrightarrow> rd_err r' = rd_err r \<and> rd_errstr r' = rd_errstr r \<and> rd_maxbuf r' = rd_maxbuf r \<and>
     rd_rstack r' = rd_rstack r \<and> rd_ridx r' = rd_ridx r \<and> rd_reply r' = rd_reply r"

definition more_input :: "char list \<Rightarrow> redisReader \<Rightarrow> redisReader \<Rightarrow> bool" where
  \<comment> \<open>\<open>r'\<close> is \<open>r\<close> with the bytes \<open>c\<close> after its input\<close>
  "more_input c r r' \<longleftrightarrow> same_but_input r r' \<and> buffer_ok r \<and> buffer_ok r' \<and>
     (\<exists>p. reader_bytes r = Inr p \<and> reader_bytes r' = Inr (p @ c))"

lemma more_inputD:
  assumes "more_input c r r'"
  shows "cur_task r' = cur_task r" "parent_task r' t = parent_task r t" "rd_ridx r' = rd_ridx r" "rd_reply r' = rd_reply r"
    "rd_err r' = rd_err r" "rd_rstack r' = rd_rstack r" "buffer_ok r" "buffer_ok r'"
  using assms by (auto simp: more_input_def same_but_input_def cur_task_def parent_task_def)

lemma more_input_bytes:
  assumes "more_input c r r'"
  obtains p where "reader_bytes r = Inr p" "reader_bytes r' = Inr (p @ c)" "rd_pos r + length p = rd_len r"
    "rd_pos r' + length (p @ c) = rd_len r'" "rd_len r < 2 ^ 31" "rd_len r' < 2 ^ 31"
proof -
  from assms obtain p where p: "reader_bytes r = Inr p" "reader_bytes r' = Inr (p @ c)" by (auto simp: more_input_def)
  have "rd_len r < 2 ^ 31" "rd_len r' < 2 ^ 31" using assms by (auto simp: more_input_def buffer_ok_def)
  with that [OF p reader_bytes_length [OF p(1)] reader_bytes_length [OF p(2)]] show thesis .
qed

lemma more_input_step:
  assumes m: "more_input c r r'" and p: "reader_bytes r = Inr p" and n: "n \<le> length p"
    and s: "rd_buf s = rd_buf r" "rd_len s = rd_len r" "rd_pos s = rd_pos r + n"
    and s': "rd_buf s' = rd_buf r'" "rd_len s' = rd_len r'" "rd_pos s' = rd_pos r' + n"
    and eq: "same_but_input s s'"
  shows "more_input c s s'"
proof -
  from m p have p': "reader_bytes r' = Inr (p @ c)" by (auto simp: more_input_def)
  have "reader_bytes s = Inr (drop n p)"
    using reader_bytes_pos [OF p n] reader_bytes_cong [of s "r\<lparr>rd_pos := rd_pos r + n\<rparr>"] s by simp
  moreover have "reader_bytes s' = Inr (drop n p @ c)"
    using reader_bytes_pos [OF p', of n] n reader_bytes_cong [of s' "r'\<lparr>rd_pos := rd_pos r' + n\<rparr>"] s' by simp
  moreover have "buffer_ok s" "buffer_ok s'"
    using m n reader_bytes_length [OF p] reader_bytes_length [OF p'] s s' by (auto simp: more_input_def buffer_ok_def)
  ultimately show ?thesis using eq by (simp add: more_input_def)
qed

lemma more_input_pos:
  assumes "more_input c r r'" "reader_bytes r = Inr p" "n \<le> length p"
  shows "more_input c (r\<lparr>rd_pos := rd_pos r + n\<rparr>) (r'\<lparr>rd_pos := rd_pos r' + n\<rparr>)"
  by (rule more_input_step [OF assms]) (use assms in \<open>simp_all add: more_input_def same_but_input_def\<close>)

lemma more_input_fields:
  assumes "more_input c r r'"
  shows "more_input c (r\<lparr>rd_rstack := st, rd_ridx := i\<rparr>) (r'\<lparr>rd_rstack := st, rd_ridx := i\<rparr>)"
    and "more_input c (r\<lparr>rd_rstack := st\<rparr>) (r'\<lparr>rd_rstack := st\<rparr>)"
    and "more_input c (r\<lparr>rd_reply := ob\<rparr>) (r'\<lparr>rd_reply := ob\<rparr>)"
proof -
  from assms obtain p where p: "reader_bytes r = Inr p" by (auto simp: more_input_def)
  note s = more_input_step [OF assms p, of 0]
  show "more_input c (r\<lparr>rd_rstack := st, rd_ridx := i\<rparr>) (r'\<lparr>rd_rstack := st, rd_ridx := i\<rparr>)"
    "more_input c (r\<lparr>rd_rstack := st\<rparr>) (r'\<lparr>rd_rstack := st\<rparr>)" "more_input c (r\<lparr>rd_reply := ob\<rparr>) (r'\<lparr>rd_reply := ob\<rparr>)"
    by (rule s; use assms in \<open>simp add: more_input_def same_but_input_def\<close>)+
qed

subsection \<open>Lines and numbers in a prefix\<close>

lemma skip_to_cr_prefix:
  "int pos \<le> l \<Longrightarrow> l \<le> l' \<Longrightarrow> l \<le> int (length s) \<Longrightarrow> int (skip_to_cr s l pos) < l \<Longrightarrow>
   skip_to_cr (s @ c) l' pos = skip_to_cr s l pos"
proof (induction s l pos rule: skip_to_cr.induct)
  case (1 s l pos)
  show ?case
  proof (cases "int pos < l \<and> s ! pos \<noteq> CHR 0x0D")
    case True
    with 1 show ?thesis
      by (simp add: skip_to_cr.simps [of s l pos] skip_to_cr.simps [of "s @ c" l' pos] nth_append)
  next
    case False
    with "1.prems" show ?thesis
      by (auto simp: skip_to_cr.simps [of s l pos] skip_to_cr.simps [of "s @ c" l' pos] nth_append)
  qed
qed

lemma seek_loop_prefix:
  "l < int (length s) \<Longrightarrow> l \<le> l' \<Longrightarrow> seek_loop s l pos = Some q \<Longrightarrow> seek_loop (s @ c) l' pos = Some q"
proof (induction s l pos rule: seek_loop.induct)
  case (1 s l pos)
  let ?p = "skip_to_cr s l pos"
  have pos: "int pos < l" using "1.prems"(3) by (subst (asm) seek_loop.simps) (auto split: if_splits)
  have "int ?p \<le> l" using skip_to_cr_stop [of pos l s] pos by simp
  moreover have "int ?p \<noteq> l" using "1.prems"(3) pos by (subst (asm) seek_loop.simps) (auto simp: Let_def)
  ultimately have p: "int ?p < l" by simp
  then have eq: "skip_to_cr (s @ c) l' pos = ?p" using pos "1.prems" by (intro skip_to_cr_prefix) auto
  have nt: "(s @ c) ! Suc ?p = s ! Suc ?p" using p "1.prems"(1) by (auto simp: nth_append)
  show ?case
  proof (cases "s ! (?p + 1) = CHR 0x0A")
    case True
    then show ?thesis
      using "1.prems" p pos nt by (simp add: seek_loop.simps [of s l pos] seek_loop.simps [of "s @ c" l' pos] Let_def eq)
  next
    case False
    then have "seek_loop s l (?p + 1) = Some q"
      using "1.prems"(3) p pos by (simp add: seek_loop.simps [of s l pos] Let_def)
    from "1.IH" [OF pos refl _ False "1.prems"(1,2) this] p have "seek_loop (s @ c) l' (?p + 1) = Some q" by simp
    then show ?thesis using False p pos "1.prems"(2) nt by (simp add: seek_loop.simps [of "s @ c" l' pos] Let_def eq)
  qed
qed

lemma seekNewline_prefix:
  assumes "seekNewline p = Some q" and "length (p @ c) < 2 ^ 31"
  shows "seekNewline (p @ c) = Some q"
proof -
  have l: "to_int32 (int (length p) - 1) = int (length p) - 1" "to_int32 (int (length (p @ c)) - 1) = int (length (p @ c)) - 1"
    using assms(2) by (auto intro: to_int32_id)
  show ?thesis using assms(1) unfolding seekNewline_def l by (intro seek_loop_prefix [of _ p]) auto
qed

lemma readLongLong_loop_prefix: "readLongLong_loop p v = Inr x \<Longrightarrow> readLongLong_loop (p @ c) v = Inr x"
  by (induction p v rule: readLongLong_loop.induct) (auto simp: Let_def split: if_splits)

lemma readLongLong_prefix: "readLongLong p = Inr v \<Longrightarrow> readLongLong (p @ c) = Inr v"
  by (cases p) (auto simp: readLongLong_def Let_def bindE_Inr_iff split: if_splits dest: readLongLong_loop_prefix)

lemma readLongLong_at_line: "seekNewline p = Some q \<Longrightarrow> \<exists>v. readLongLong p = Inr v"
  using readLongLong_total seekNewline_CR by blast


subsection \<open>One item with more input\<close>

definition follows :: "char list \<Rightarrow> (int \<times> redisReader \<times> 'h) res \<Rightarrow> (int \<times> redisReader \<times> 'h) res \<Rightarrow> bool" where
  \<comment> \<open>an item that was processed, or that ended in an error or a failure, does so with more input as well\<close>
  "follows c x x' \<longleftrightarrow> (\<forall>err. x = Inl err \<longrightarrow> x' = Inl err) \<and>
     (\<forall>st r1 h1. x = Inr (st, r1, h1) \<longrightarrow>
        (st = REDIS_OK \<and> rd_err r1 = 0 \<and> (\<exists>r1'. x' = Inr (REDIS_OK, r1', h1) \<and> more_input c r1 r1')) \<or>
        (st \<noteq> REDIS_OK \<and> rd_err r1 \<noteq> 0 \<and> x' = x))"

definition stuck :: "char list \<Rightarrow> redisReader \<Rightarrow> redisReader \<Rightarrow> (int \<times> redisReader \<times> 'h) res \<Rightarrow> (int \<times> redisReader \<times> 'h) res \<Rightarrow> 'h \<Rightarrow> bool" where
  \<comment> \<open>an incomplete item leaves the reader as it was; without more input it stays incomplete\<close>
  "stuck c r r' x x' h \<longleftrightarrow> x = Inr (REDIS_ERR, r, h) \<and> (c = [] \<longrightarrow> x' = Inr (REDIS_ERR, r', h))"

lemma follows_bindE:
  "(\<And>y. m = Inr y \<Longrightarrow> m' = Inr y \<and> follows c (f y) (f' y)) \<Longrightarrow> (\<And>err. m = Inl err \<Longrightarrow> m' = Inl err) \<Longrightarrow>
   follows c (bindE m f) (bindE m' f')"
  by (cases m) (auto simp: follows_def)

lemma follows_Inl: "follows c (Inl err) (Inl err)"
  by (simp add: follows_def)

lemma SetError_same:
  assumes "more_input c r r'"
  shows "redisReaderSetError fn r' h t m = redisReaderSetError fn r h t m"
proof -
  have b: "rd_buf r \<noteq> None" "rd_buf r' \<noteq> None" using assms by (auto simp: more_input_def buffer_ok_def)
  have eq: "rd_err r' = rd_err r" "rd_maxbuf r' = rd_maxbuf r" "rd_rstack r' = rd_rstack r" "rd_reply r' = rd_reply r"
    using assms by (simp_all add: more_input_def same_but_input_def)
  have same: "r'\<lparr>rd_reply := ob, rd_buf := None, rd_pos := 0, rd_len := 0, rd_ridx := -1, rd_err := t, rd_errstr := e\<rparr>
      = r\<lparr>rd_reply := ob, rd_buf := None, rd_pos := 0, rd_len := 0, rd_ridx := -1, rd_err := t, rd_errstr := e\<rparr>" for ob e
    using eq by (intro redisReader.equality) simp_all
  have same': "r'\<lparr>rd_buf := None, rd_pos := 0, rd_len := 0, rd_ridx := -1, rd_err := t, rd_errstr := e\<rparr>
      = r\<lparr>rd_buf := None, rd_pos := 0, rd_len := 0, rd_ridx := -1, rd_err := t, rd_errstr := e\<rparr>" for e
    using eq by (intro redisReader.equality) simp_all
  show ?thesis
  proof (cases "freeObject fn")
    case None
    then show ?thesis using b by (simp add: redisReaderSetError_def Let_def same')
  next
    case (Some free)
    then show ?thesis
      using b eq by (cases "rd_reply r = 0"; cases "free (rd_reply r) h")
        (simp_all add: redisReaderSetError_def Let_def same same')
  qed
qed

lemma follows_error:
  assumes "more_input c r r'" and "t \<noteq> 0"
  shows "follows c (bindE (redisReaderSetError fn r h t m) (\<lambda>(r, h). Inr (REDIS_ERR, r, h)))
    (bindE (redisReaderSetError fn r' h t m) (\<lambda>(r, h). Inr (REDIS_ERR, r, h)))"
  unfolding SetError_same [OF assms(1)]
  using assms(2) by (auto simp: follows_def redisReaderSetError_def Let_def bindE_Inr_iff split: option.splits if_splits)

lemma moveToNextTask_more:
  assumes m: "more_input c r r'" and mv: "moveToNextTask r = Inr r1"
  shows "\<exists>r1'. moveToNextTask r' = Inr r1' \<and> more_input c r1 r1'"
proof (cases "rd_ridx r < 0")
  case True
  then show ?thesis using m mv more_inputD [OF m] by (auto simp: moveToNextTask_def)
next
  case False
  then obtain st i where "move_next (rd_rstack r) (nat (rd_ridx r)) = Inr (st, i)" "r1 = r\<lparr>rd_rstack := st, rd_ridx := i\<rparr>"
    using mv by (auto simp: moveToNextTask_def bindE_Inr_iff)
  then show ?thesis
    using False more_inputD [OF m] more_input_fields(1) [OF m, where st = st and i = i] by (auto simp: moveToNextTask_def)
qed

lemma moveToNextTask_fails:
  assumes m: "more_input c r r'" and mv: "moveToNextTask r = Inl err"
  shows "moveToNextTask r' = Inl err"
  using mv more_inputD [OF m] by (auto simp: moveToNextTask_def bindE_Inl_iff split: if_splits)

lemma moveToNextTask_err: "moveToNextTask r = Inr r1 \<Longrightarrow> rd_err r1 = rd_err r"
  by (auto simp: moveToNextTask_def bindE_Inr_iff split: if_splits)

lemma follows_move:
  assumes m: "more_input c s s'" and e: "rd_err s = 0" and g: "\<And>r r'. more_input c r r' \<Longrightarrow> more_input c (g r) (g r')"
    "\<And>r. rd_err (g r) = rd_err r"
  shows "follows c (bindE (moveToNextTask s) (\<lambda>r. Inr (REDIS_OK, g r, h)))
    (bindE (moveToNextTask s') (\<lambda>r. Inr (REDIS_OK, g r, h)))"
proof (cases "moveToNextTask s")
  case (Inr r1)
  from moveToNextTask_more [OF m Inr] obtain r1' where "moveToNextTask s' = Inr r1'" "more_input c r1 r1'" by blast
  with Inr moveToNextTask_err [OF Inr] e g show ?thesis by (simp add: follows_def)
next
  case (Inl err)
  with moveToNextTask_fails [OF m Inl] show ?thesis by (simp add: follows_def)
qed

lemma follows_finish:
  assumes m: "more_input c r r'" and e: "rd_err r = 0"
  shows "follows c (finish_item fn r h obj) (finish_item fn r' h obj)"
proof (cases "obj = 0")
  case True
  then show ?thesis using follows_error [OF m, of REDIS_ERR_OOM] by (simp add: finish_item_def redisReaderSetErrorOOM_def)
next
  case False
  have "more_input c (if rd_ridx r = 0 then r\<lparr>rd_reply := obj\<rparr> else r) (if rd_ridx r' = 0 then r'\<lparr>rd_reply := obj\<rparr> else r')"
    "rd_err (if rd_ridx r = 0 then r\<lparr>rd_reply := obj\<rparr> else r) = 0"
    using m more_input_fields(3) [OF m] more_inputD(3) [OF m] e by simp_all
  from follows_move [OF this, of "\<lambda>r. r"] show ?thesis using False by (simp add: finish_item_def split del: if_split)
qed

lemma processLineItem_more:
  assumes m: "more_input c r r'" and e: "rd_err r = 0"
  shows "stuck c r r' (processLineItem fn r h) (processLineItem fn r' h) h \<or> follows c (processLineItem fn r h) (processLineItem fn r' h)"
proof -
  from m obtain p where p: "reader_bytes r = Inr p" "reader_bytes r' = Inr (p @ c)" "length (p @ c) < 2 ^ 31"
    by (rule more_input_bytes) auto
  show ?thesis
  proof (cases "seekNewline p")
    case None
    then show ?thesis using p by (auto simp: processLineItem_def readLine_def stuck_def)
  next
    case (Some q)
    note q = seekNewline_Some [OF Some] seekNewline_prefix [OF Some p(3)]
    obtain v where v: "readLongLong p = Inr v" "readLongLong (p @ c) = Inr v"
      using readLongLong_at_line [OF Some] readLongLong_prefix by blast
    have tk: "take q (p @ c) = take q p" using q(1) by simp
    have lo: "line_object fn t par (p @ c) q h = line_object fn t par p q h" for t par
      unfolding line_object_def tk using v by (cases "createInteger fn") simp_all
    have "more_input c (r\<lparr>rd_pos := rd_pos r + (q + 2)\<rparr>) (r'\<lparr>rd_pos := rd_pos r' + (q + 2)\<rparr>)"
      using q(1) by (intro more_input_pos [OF m p(1)]) simp
    note fin = follows_finish [OF this]
    have "follows c (processLineItem fn r h) (processLineItem fn r' h)"
      unfolding processLineItem_def Let_def readLine_def p bindE.simps Some q(2) more_inputD(1,2) [OF m]
      by (simp add: lo, rule follows_bindE) (use fin e in auto)
    then show ?thesis ..
  qed
qed

lemma bulk_object_more:
  assumes m: "more_input c r r'" and p: "reader_bytes r = Inr p" and q: "s + 2 \<le> length p" and len: "len < 2 ^ 63"
    and b: "bulk_object fn r t par p s len h = Inr (Some (ob, n))"
  shows "bulk_object fn r' t par (p @ c) s len h = Inr (Some (ob, n)) \<and> n \<le> length p"
proof (cases "len < 0")
  case True
  with b q show ?thesis by (auto simp: bulk_object_def bindE_Inr_iff)
next
  case False
  let ?n = "s + 2 + nat len + 2"
  from m obtain p' where p': "reader_bytes r = Inr p'" "rd_pos r + length p' = rd_len r"
    "rd_pos r' + length (p' @ c) = rd_len r'" "rd_len r < 2 ^ 31" "rd_len r' < 2 ^ 31" by (rule more_input_bytes)
  with p have l: "rd_pos r + length p = rd_len r" "rd_pos r' + length p + length c = rd_len r'" by auto
  have "nat len < 2 ^ 63" using len False by simp
  with l p' q have w: "wrap64 ?n = ?n" "wrap64 (rd_pos r + ?n) = rd_pos r + ?n" "wrap64 (rd_pos r' + ?n) = rd_pos r' + ?n"
    by simp_all
  from b False have le: "rd_pos r + ?n \<le> rd_len r" and n: "n = ?n"
    unfolding bulk_object_def Let_def w by (auto simp: bindE_Inr_iff split: if_splits)
  have "peekn (p @ c) (s + 2) (nat len) = peekn p (s + 2) (nat len)" using le l by (simp add: peekn_def)
  then show ?thesis
    using b False le l n unfolding bulk_object_def Let_def w by (simp cong: option.case_cong)
qed

lemma bulk_object_none:
  assumes m: "more_input c r r'" and p: "reader_bytes r = Inr p" and c: "c = []" and q: "s + 2 \<le> length p" and len: "len < 2 ^ 63"
    and b: "bulk_object fn r t par p s len h = Inr None"
  shows "bulk_object fn r' t par p s len h = Inr None"
proof (cases "len < 0")
  case True
  with b show ?thesis by (auto simp: bulk_object_def bindE_Inr_iff)
next
  case False
  let ?n = "s + 2 + nat len + 2"
  from m obtain p' where p': "reader_bytes r = Inr p'" "rd_pos r + length p' = rd_len r"
    "rd_pos r' + length (p' @ c) = rd_len r'" "rd_len r < 2 ^ 31" "rd_len r' < 2 ^ 31" by (rule more_input_bytes)
  with p c have l: "rd_pos r + length p = rd_len r" "rd_pos r' + length p = rd_len r'" by auto
  have "nat len < 2 ^ 63" using len False by simp
  with l p' q have w: "wrap64 ?n = ?n" "wrap64 (rd_pos r + ?n) = rd_pos r + ?n" "wrap64 (rd_pos r' + ?n) = rd_pos r' + ?n"
    by simp_all
  from b False have "\<not> rd_pos r + ?n \<le> rd_len r"
    unfolding bulk_object_def Let_def w by (auto simp: bindE_Inr_iff split: if_splits option.splits)
  then show ?thesis using False l unfolding bulk_object_def Let_def w by simp
qed

lemma bulk_object_fails:
  assumes m: "more_input c r r'" and p: "reader_bytes r = Inr p" and q: "s + 2 \<le> length p" and len: "len < 2 ^ 63"
    and b: "bulk_object fn r t par p s len h = Inl err"
  shows "bulk_object fn r' t par (p @ c) s len h = Inl err"
proof (cases "len < 0")
  case True
  with b q show ?thesis by (auto simp: bulk_object_def bindE_Inl_iff)
next
  case False
  let ?n = "s + 2 + nat len + 2"
  from m obtain p' where p': "reader_bytes r = Inr p'" "rd_pos r + length p' = rd_len r"
    "rd_pos r' + length (p' @ c) = rd_len r'" "rd_len r < 2 ^ 31" "rd_len r' < 2 ^ 31" by (rule more_input_bytes)
  with p have l: "rd_pos r + length p = rd_len r" "rd_pos r' + length p + length c = rd_len r'" by auto
  have "nat len < 2 ^ 63" using len False by simp
  with l p' q have w: "wrap64 ?n = ?n" "wrap64 (rd_pos r + ?n) = rd_pos r + ?n" "wrap64 (rd_pos r' + ?n) = rd_pos r' + ?n"
    by simp_all
  from b False have le: "rd_pos r + ?n \<le> rd_len r" unfolding bulk_object_def Let_def w by (auto split: if_splits)
  have "peekn (p @ c) (s + 2) (nat len) = peekn p (s + 2) (nat len)" using le l by (simp add: peekn_def)
  then show ?thesis
    using b False le l unfolding bulk_object_def Let_def w by (simp cong: option.case_cong)
qed

lemma processBulkItem_more:
  assumes m: "more_input c r r'" and e: "rd_err r = 0"
  shows "stuck c r r' (processBulkItem fn r h) (processBulkItem fn r' h) h \<or> follows c (processBulkItem fn r h) (processBulkItem fn r' h)"
proof -
  from m obtain p where p: "reader_bytes r = Inr p" "reader_bytes r' = Inr (p @ c)" "length (p @ c) < 2 ^ 31"
    by (rule more_input_bytes) auto
  let ?t = "cur_task r" and ?par = "parent_task r (cur_task r)"
  show ?thesis
  proof (cases "seekNewline p")
    case None
    then show ?thesis using p by (auto simp: processBulkItem_def stuck_def)
  next
    case (Some q)
    note q = seekNewline_Some [OF Some] seekNewline_prefix [OF Some p(3)]
    obtain v where v: "readLongLong p = Inr v" "readLongLong (p @ c) = Inr v"
      using readLongLong_at_line [OF Some] readLongLong_prefix by blast
    have run: "processBulkItem fn r h = bindE (bulk_object fn r ?t ?par p q v h) (\<lambda>created.
        case created of None \<Rightarrow> Inr (REDIS_ERR, r, h)
        | Some ((obj, h), n) \<Rightarrow> finish_item fn (if obj = 0 then r else r\<lparr>rd_pos := rd_pos r + n\<rparr>) h obj)"
      using p Some v by (simp add: processBulkItem_def Let_def)
    show ?thesis
    proof (cases "bulk_object fn r ?t ?par p q v h")
      case (Inl err)
      have "v < 2 ^ 63" using readLongLong_range [OF v(1)] by simp
      from bulk_object_fails [OF m p(1) _ this Inl] q(1) have "bulk_object fn r' ?t ?par (p @ c) q v h = Inl err" by simp
      then have "processBulkItem fn r' h = Inl err"
        using p(2) q(2) v(2) more_inputD(1,2) [OF m] by (simp add: processBulkItem_def Let_def)
      then show ?thesis by (simp add: run Inl follows_def)
    next
      case (Inr created)
      show ?thesis
      proof (cases created)
        case None
        have "bulk_object fn r' ?t ?par p q v h = Inr None" if "c = []"
          by (rule bulk_object_none [OF m p(1) that]) (use Inr None readLongLong_range [OF v(1)] q(1) in auto)
        then have "processBulkItem fn r' h = Inr (REDIS_ERR, r', h)" if "c = []"
          using that p(2) q(2) v(2) more_inputD(1,2) [OF m] by (simp add: processBulkItem_def Let_def)
        then show ?thesis using Inr None by (simp add: run stuck_def)
      next
        case (Some x)
        then obtain obj h1 n where x: "created = Some ((obj, h1), n)" by (cases x) auto
        have "v < 2 ^ 63" using readLongLong_range [OF v(1)] by simp
        from bulk_object_more [OF m p(1) _ this Inr [unfolded x]] q(1) have
          b': "bulk_object fn r' ?t ?par (p @ c) q v h = Inr (Some ((obj, h1), n))" and n: "n \<le> length p" by auto
        have r': "processBulkItem fn r' h = finish_item fn (if obj = 0 then r' else r'\<lparr>rd_pos := rd_pos r' + n\<rparr>) h1 obj"
          using p(2) q(2) v(2) b' more_inputD(1,2) [OF m] by (simp add: processBulkItem_def Let_def)
        have "more_input c (if obj = 0 then r else r\<lparr>rd_pos := rd_pos r + n\<rparr>) (if obj = 0 then r' else r'\<lparr>rd_pos := rd_pos r' + n\<rparr>)"
          using m more_input_pos [OF m p(1) n] by simp
        from follows_finish [OF this, of fn h1 obj] e have "follows c (processBulkItem fn r h) (processBulkItem fn r' h)"
          unfolding r' run Inr x by (simp split del: if_split) (simp split: if_splits)
        then show ?thesis ..
      qed
    qed
  qed
qed


lemma push_more:
  assumes m: "more_input c r r'"
  shows "more_input c (push_task (set_cur r t)) (push_task (set_cur r' t))"
proof -
  from m obtain p where p: "reader_bytes r = Inr p" by (auto simp: more_input_def)
  show ?thesis
    by (rule more_input_step [OF m p, of 0])
      (use m in \<open>simp_all add: push_task_def set_cur_def Let_def more_input_def same_but_input_def\<close>)
qed

lemma processMultiBulkItem_more:
  assumes m: "more_input c r r'" and e: "rd_err r = 0"
  shows "stuck c r r' (processMultiBulkItem fn r h) (processMultiBulkItem fn r' h) h \<or>
    follows c (processMultiBulkItem fn r h) (processMultiBulkItem fn r' h)"
proof -
  from m obtain p where p: "reader_bytes r = Inr p" "reader_bytes r' = Inr (p @ c)" "length (p @ c) < 2 ^ 31"
    by (rule more_input_bytes) auto
  let ?t = "cur_task r" and ?par = "parent_task r (cur_task r)"
  note eq = more_inputD(1,2,3) [OF m]
  consider "rd_ridx r = 8" | "rd_ridx r \<noteq> 8" "seekNewline p = None" | q where "rd_ridx r \<noteq> 8" "seekNewline p = Some q" by (cases "seekNewline p") auto
  then show ?thesis
  proof cases
    case 1
    then show ?thesis using follows_error [OF m, of REDIS_ERR_PROTOCOL fn h] eq by (auto simp: processMultiBulkItem_def Let_def)
  next
    case 2
    then show ?thesis using p eq by (auto simp: processMultiBulkItem_def readLine_def Let_def stuck_def)
  next
    case (3 q)
    note q = seekNewline_Some [OF 3(2)] seekNewline_prefix [OF 3(2) p(3)]
    obtain v where v: "readLongLong p = Inr v" "readLongLong (p @ c) = Inr v"
      using readLongLong_at_line [OF 3(2)] readLongLong_prefix by blast
    define r2 where "r2 = r\<lparr>rd_pos := rd_pos r + (q + 2)\<rparr>"
    define r2' where "r2' = r'\<lparr>rd_pos := rd_pos r' + (q + 2)\<rparr>"
    have m2: "more_input c r2 r2'" unfolding r2_def r2'_def using q(1) by (intro more_input_pos [OF m p(1)]) simp
    have e2: "rd_err r2 = 0" using e by (simp add: r2_def)
    define rest where "rest = (\<lambda>r (obj, h). if obj = 0 then bindE (redisReaderSetErrorOOM fn r h) (\<lambda>(r, h). Inr (REDIS_ERR, r, h))
        else bindE (enter_array r ?t v obj) (\<lambda>r'. Inr (REDIS_OK, (if rd_ridx r = 0 then r'\<lparr>rd_reply := obj\<rparr> else r'), h)))"
    have run: "processMultiBulkItem fn r h = bindE (array_object fn ?t ?par v h) (rest r2)"
      "processMultiBulkItem fn r' h = bindE (array_object fn ?t ?par v h) (rest r2')"
      using p 3 q(2) v eq by (simp_all add: processMultiBulkItem_def readLine_def Let_def rest_def r2_def r2'_def)
    have "follows c (rest r2 (obj, h1)) (rest r2' (obj, h1))" for obj h1
    proof (cases "obj = 0")
      case True
      then show ?thesis using follows_error [OF m2, of REDIS_ERR_OOM] by (simp add: rest_def redisReaderSetErrorOOM_def)
    next
      case False
      let ?g = "\<lambda>r'. if rd_ridx r2 = 0 then r'\<lparr>rd_reply := obj\<rparr> else r'"
      have g: "more_input c (?g a) (?g b)" if "more_input c a b" for a b using that more_input_fields(3) [OF that] by simp
      have ge: "rd_err (?g a) = rd_err a" for a by simp
      have ix: "rd_ridx r2' = rd_ridx r2" using more_inputD(3) [OF m2] .
      show ?thesis
      proof (cases "v > 0")
        case True
        let ?t' = "?t\<lparr>tk_elements := to_int32 v, tk_obj := obj\<rparr>"
        have "rest r2 (obj, h1) = Inr (REDIS_OK, ?g (push_task (set_cur r2 ?t')), h1)"
          "rest r2' (obj, h1) = Inr (REDIS_OK, ?g (push_task (set_cur r2' ?t')), h1)"
          using False True ix by (simp_all add: rest_def enter_array_def)
        moreover have "rd_err (push_task (set_cur r2 ?t')) = 0" using e2 by (simp add: push_task_def set_cur_def Let_def)
        ultimately show ?thesis using g [OF push_more [OF m2]] ge unfolding follows_def by simp
      next
        case nv: False
        have "rest r2 (obj, h1) = bindE (moveToNextTask r2) (\<lambda>r. Inr (REDIS_OK, ?g r, h1))"
          "rest r2' (obj, h1) = bindE (moveToNextTask r2') (\<lambda>r. Inr (REDIS_OK, ?g r, h1))"
          using False nv ix by (simp_all add: rest_def enter_array_def)
        then show ?thesis using follows_move [OF m2 e2 g ge, of h1] by simp
      qed
    qed
    then have "follows c (processMultiBulkItem fn r h) (processMultiBulkItem fn r' h)"
      unfolding run by (intro follows_bindE) auto
    then show ?thesis ..
  qed
qed

lemma process_typed_more:
  assumes m: "more_input c r r'" and e: "rd_err r = 0"
  shows "stuck c r r' (process_typed fn r h) (process_typed fn r' h) h \<or> follows c (process_typed fn r h) (process_typed fn r' h)"
  using processLineItem_more [OF assms, of fn h] processBulkItem_more [OF assms, of fn h]
    processMultiBulkItem_more [OF assms, of fn h] more_inputD(1) [OF m]
  by (auto simp: process_typed_def Let_def follows_Inl)

text \<open>An item that is incomplete has no effect but that its type byte is taken.\<close>

definition stops :: "char list \<Rightarrow> 'h redisReplyObjectFunctions \<Rightarrow> redisReader \<Rightarrow> redisReader \<Rightarrow> 'h \<Rightarrow> bool" where
  "stops c fn r r' h \<longleftrightarrow> (\<exists>r1 r1'. processItem fn r h = Inr (REDIS_ERR, r1, h) \<and> rd_err r1 = 0 \<and> rd_ridx r1 = rd_ridx r \<and>
      length (rd_rstack r1) = length (rd_rstack r) \<and> rd_len r1 = rd_len r \<and> more_input c r1 r1' \<and> processItem fn r' h = processItem fn r1' h \<and>
      (c = [] \<longrightarrow> processItem fn r' h = Inr (REDIS_ERR, r1', h)))"

lemma processItem_more:
  assumes m: "more_input c r r'" and e: "rd_err r = 0" and ix: "0 \<le> rd_ridx r" "nat (rd_ridx r) < length (rd_rstack r)"
  shows "stops c fn r r' h \<or> follows c (processItem fn r h) (processItem fn r' h)"
proof (cases "tk_type (cur_task r) < 0")
  case False
  then have "processItem fn r h = process_typed fn r h" "processItem fn r' h = process_typed fn r' h"
    using more_inputD(1) [OF m] by (simp_all add: processItem_def)
  with process_typed_more [OF m e, of fn h] m e show ?thesis unfolding stops_def stuck_def by metis
next
  case True
  from m obtain p where p: "reader_bytes r = Inr p" "reader_bytes r' = Inr (p @ c)"
    and l: "rd_pos r + length p = rd_len r" "rd_pos r' + length (p @ c) = rd_len r'" "rd_len r < 2 ^ 31" "rd_len r' < 2 ^ 31"
    by (rule more_input_bytes)
  have sub: "sub64 (rd_len r) (rd_pos r) = length p" "sub64 (rd_len r') (rd_pos r') = length (p @ c)"
    using l by (subst sub64_id; simp)+
  show ?thesis
  proof (cases p)
    case Nil
    then have "processItem fn r h = Inr (REDIS_ERR, r, h)" using True sub by (simp add: processItem_def readBytes_def)
    moreover have "processItem fn r' h = Inr (REDIS_ERR, r', h)" if "c = []"
      using that True Nil sub more_inputD(1) [OF m] by (simp add: processItem_def readBytes_def)
    ultimately show ?thesis using m e unfolding stops_def by blast
  next
    case (Cons a p')
    let ?r = "r\<lparr>rd_pos := rd_pos r + 1\<rparr>" and ?r' = "r'\<lparr>rd_pos := rd_pos r' + 1\<rparr>"
    have rb: "readBytes r 1 = Inr (Some (p, ?r))" "readBytes r' 1 = Inr (Some (p @ c, ?r'))"
      using sub p Cons by (simp_all add: readBytes_def)
    have m1: "more_input c ?r ?r'" using Cons by (intro more_input_pos [OF m p(1)]) simp
    have t': "tk_type (cur_task r') < 0" using True more_inputD(1) [OF m] by simp
    show ?thesis
    proof (cases "reply_type_of a")
      case None
      have run: "processItem fn r h = bindE (redisReaderSetErrorProtocolByte fn ?r h a) (\<lambda>(r, h). Inr (REDIS_ERR, r, h))"
        "processItem fn r' h = bindE (redisReaderSetErrorProtocolByte fn ?r' h a) (\<lambda>(r, h). Inr (REDIS_ERR, r, h))"
        using True t' None Cons rb by (simp_all add: processItem_def)
      have "follows c (processItem fn r h) (processItem fn r' h)"
        unfolding run redisReaderSetErrorProtocolByte_def by (rule follows_error [OF m1]) simp
      then show ?thesis ..
    next
      case (Some t)
      define s where "s = set_cur ?r ((cur_task ?r)\<lparr>tk_type := t\<rparr>)"
      define s' where "s' = set_cur ?r' ((cur_task ?r')\<lparr>tk_type := t\<rparr>)"
      have ms: "more_input c s s'"
        using more_input_fields(2) [OF m1] more_inputD [OF m1] by (simp add: s_def s'_def set_cur_def)
      have run: "processItem fn r h = process_typed fn s h" "processItem fn r' h = process_typed fn s' h"
        using True t' Some Cons rb by (simp_all add: processItem_def s_def s'_def)
      have "rd_err s = 0" "rd_ridx s = rd_ridx r" "length (rd_rstack s) = length (rd_rstack r)" "rd_len s = rd_len r" using e by (simp_all add: s_def set_cur_def)
      moreover have "0 \<le> tk_type (cur_task s')"
        using Some ix more_inputD(3,6) [OF m1] by (auto simp: s'_def set_cur_def cur_task_def reply_type_of_def split: if_splits)
      then have "processItem fn s' h = process_typed fn s' h" by (simp add: processItem_def)
      ultimately show ?thesis using process_typed_more [OF ms, of fn h] ms unfolding run stops_def stuck_def by metis
    qed
  qed
qed


subsection \<open>The whole loop with more input\<close>

definition stack_index_ok :: "redisReader \<Rightarrow> bool" where
  "stack_index_ok r \<longleftrightarrow> length (rd_rstack r) = 9 \<and> rd_ridx r \<le> 8"

lemma move_next_length: "move_next st k = Inr (st', i) \<Longrightarrow> length st' = length st \<and> i \<le> int k"
  by (induction st k arbitrary: st' i rule: move_next.induct) (auto simp: bindE_Inr_iff Let_def split: if_splits, force+)

lemma moveToNextTask_index: "moveToNextTask r = Inr r' \<Longrightarrow> stack_index_ok r \<Longrightarrow> stack_index_ok r'"
  by (auto simp: moveToNextTask_def bindE_Inr_iff stack_index_ok_def split: if_splits dest!: move_next_length)

lemma stack_index_simps [simp]:
  "stack_index_ok (r\<lparr>rd_pos := n\<rparr>) = stack_index_ok r" "stack_index_ok (r\<lparr>rd_reply := ob\<rparr>) = stack_index_ok r"
  "stack_index_ok (set_cur r t) = stack_index_ok r" "rd_ridx (set_cur r t) = rd_ridx r"
  by (simp_all add: stack_index_ok_def set_cur_def)

lemma push_index: "stack_index_ok r \<Longrightarrow> rd_ridx r \<noteq> 8 \<Longrightarrow> stack_index_ok (push_task r)"
  by (simp add: stack_index_ok_def push_task_def Let_def)

lemma finish_item_index:
  "finish_item fn r h obj = Inr (REDIS_OK, r', h') \<Longrightarrow> stack_index_ok r \<Longrightarrow> stack_index_ok r'"
  by (auto simp: finish_item_def bindE_Inr_iff split: if_splits dest!: moveToNextTask_index)

lemma process_typed_index:
  assumes p: "process_typed fn r h = Inr (REDIS_OK, r', h')" and r: "stack_index_ok r"
  shows "stack_index_ok r'"
proof -
  consider "processLineItem fn r h = Inr (REDIS_OK, r', h')" | "processBulkItem fn r h = Inr (REDIS_OK, r', h')"
    | "processMultiBulkItem fn r h = Inr (REDIS_OK, r', h')"
    using p by (auto simp: process_typed_def Let_def split: if_splits)
  then show ?thesis
  proof cases
    case 1
    then show ?thesis using r
      by (auto simp: processLineItem_def readLine_def Let_def elim!: bindE_InrE split: option.splits dest!: finish_item_index)
  next
    case 2
    then show ?thesis using r
      by (auto simp: processBulkItem_def Let_def elim!: bindE_InrE split: option.splits if_splits dest!: finish_item_index)
  next
    case 3
    then show ?thesis using r
      by (auto simp: processMultiBulkItem_def readLine_def enter_array_def bindE_Inr_iff Let_def push_index
        split: option.splits if_splits dest!: moveToNextTask_index)
  qed
qed

lemma processItem_index:
  assumes "processItem fn r h = Inr (REDIS_OK, r', h')" and "stack_index_ok r"
  shows "stack_index_ok r'"
proof (cases "tk_type (cur_task r) < 0")
  case False
  then show ?thesis using assms by (auto simp: processItem_def intro: process_typed_index)
next
  case True
  with assms obtain p r1 t where r1: "readBytes r 1 = Inr (Some (p, r1))"
    and t: "process_typed fn (set_cur r1 ((cur_task r1)\<lparr>tk_type := t\<rparr>)) h = Inr (REDIS_OK, r', h')"
    by (auto simp: processItem_def elim!: bindE_InrE split: option.splits)
  from process_typed_index [OF t] readBytes_advances [OF r1] assms(2) show ?thesis by simp
qed

lemma process_items_more:
  assumes "more_input c r r'" and "rd_err r = 0" and "stack_index_ok r"
    and "process_items fn r h = Inr (r1, h1)"
  shows "(rd_err r1 = 0 \<and> rd_ridx r1 < 0 \<and> (\<exists>r1'. process_items fn r' h = Inr (r1', h1) \<and> more_input c r1 r1')) \<or>
    (rd_err r1 \<noteq> 0 \<and> process_items fn r' h = Inr (r1, h1)) \<or>
    (rd_err r1 = 0 \<and> 0 \<le> rd_ridx r1 \<and> stack_index_ok r1 \<and> rd_len r1 = rd_len r \<and>
      (\<exists>r1'. more_input c r1 r1' \<and> process_items fn r' h = process_items fn r1' h1 \<and>
        (c = [] \<longrightarrow> process_items fn r' h = Inr (r1', h1))))"
  using assms
proof (induction "rd_len r - rd_pos r" arbitrary: r r' h rule: less_induct)
  case less
  note m = less.prems(1) and e = less.prems(2) and ix = less.prems(3) and run = less.prems(4)
  show ?case
  proof (cases "0 \<le> rd_ridx r")
    case False
    then show ?thesis using run m e more_inputD(3) [OF m] by (simp add: process_items.simps [of fn r] process_items.simps [of fn r'])
  next
    case True
    have pi: "process_items fn s k = bindE (processItem fn s k) (\<lambda>(st, r', h'). if st \<noteq> REDIS_OK then Inr (r', h') else process_items fn r' h')"
      if "rd_ridx s = rd_ridx r" for s k using that True by (simp add: process_items.simps [of fn s])
    from ix have "nat (rd_ridx r) < length (rd_rstack r)" unfolding stack_index_ok_def by linarith
    from processItem_more [OF m e True this, of fn h] show ?thesis
    proof
      assume "stops c fn r r' h"
      then obtain a b where ab: "processItem fn r h = Inr (REDIS_ERR, a, h)" "rd_err a = 0" "rd_ridx a = rd_ridx r" "more_input c a b" "length (rd_rstack a) = length (rd_rstack r)" "rd_len a = rd_len r"
        "processItem fn r' h = processItem fn b h" "c = [] \<longrightarrow> processItem fn r' h = Inr (REDIS_ERR, b, h)"
        unfolding stops_def by blast
      have "r1 = a" "h1 = h" using run ab(1) pi [of r h] by simp_all
      moreover have "process_items fn r' h = process_items fn b h"
        using pi [of r' h] pi [of b h] ab(3,7) more_inputD(3) [OF m] more_inputD(3) [OF ab(4)] by simp
      moreover have "process_items fn r' h = Inr (b, h)" if "c = []"
        using that pi [of r' h] ab(8) more_inputD(3) [OF m] by simp
      ultimately show ?thesis using ab(2,3,4,5,6) True ix by (auto simp: stack_index_ok_def)
    next
      assume f: "follows c (processItem fn r h) (processItem fn r' h)"
      from run pi [of r h] obtain st a k where a: "processItem fn r h = Inr (st, a, k)"
        by (auto simp: bindE_Inr_iff)
      show ?thesis
      proof (cases "st = REDIS_OK")
        case False
        with f a have "rd_err a \<noteq> 0" "processItem fn r' h = Inr (st, a, k)" by (auto simp: follows_def)
        then show ?thesis using False run a pi [of r h] pi [of r' h] more_inputD(3) [OF m] by simp
      next
        case True
        with f a obtain b where b: "rd_err a = 0" "processItem fn r' h = Inr (REDIS_OK, b, k)" "more_input c a b"
          by (auto simp: follows_def)
        have "rd_len a - rd_pos a < rd_len r - rd_pos r" and len: "rd_len a = rd_len r"
          using processItem_advances [OF a [unfolded True]] by (auto simp: advances_def)
        moreover have "process_items fn a k = Inr (r1, h1)" using run a True pi [of r h] by simp
        moreover have "process_items fn r' h = process_items fn b k"
          using b(2) pi [of r' h] more_inputD(3) [OF m] by simp
        ultimately show ?thesis
          using less.hyps [OF _ b(3) b(1) processItem_index [OF a [unfolded True] ix], of k] len by simp
      qed
    qed
  qed
qed

subsection \<open>Getting a reply in two pieces\<close>

lemma discard_consumed_more:
  assumes "more_input c r r'"
  obtains s s' where "discard_consumed r = Inr s" "discard_consumed r' = Inr s'" "more_input c s s'"
    "rd_err s = rd_err r" "rd_ridx s = rd_ridx r" "rd_reply s = rd_reply r" "rd_rstack s = rd_rstack r"
    "rd_err s' = rd_err r'" "rd_ridx s' = rd_ridx r'" "rd_reply s' = rd_reply r'"
proof -
  from assms obtain p where p: "reader_bytes r = Inr p" "reader_bytes r' = Inr (p @ c)" and b: "buffer_ok r" "buffer_ok r'"
    and eq: "same_but_input r r'" by (auto simp: more_input_def)
  from discard_consumed_bytes [OF b(1) p(1)] discard_consumed_bytes [OF b(2) p(2)] obtain s s' where
    "discard_consumed r = Inr s" "discard_consumed r' = Inr s'" "buffer_ok s" "buffer_ok s'" "reader_bytes s = Inr p"
    "reader_bytes s' = Inr (p @ c)" "same_but_input r s" "same_but_input r' s'"
    by (auto simp: same_but_input_def)
  with eq that [of s s'] show thesis by (auto simp: more_input_def same_but_input_def)
qed

definition same_outcome :: "(int \<times> nat \<times> redisReader \<times> 'h) res \<Rightarrow> (int \<times> nat \<times> redisReader \<times> 'h) res \<Rightarrow> bool" where
  \<comment> \<open>the same status, reply and store, and readers that differ at most in how they hold the unread bytes\<close>
  "same_outcome x y \<longleftrightarrow> (\<forall>st ob r h. x = Inr (st, ob, r, h) \<longrightarrow>
     (\<exists>r'. y = Inr (st, ob, r', h) \<and> (r' = r \<or> more_input [] r r')))"

lemma GetReply_tail_same:
  assumes "more_input [] r r'" and "rd_err r = 0" and "stack_index_ok r"
  shows "same_outcome
    (bindE (process_items fn r h) (\<lambda>(r, h). if rd_err r \<noteq> 0 then Inr (REDIS_ERR, 0, r, h)
       else bindE (discard_consumed r) (\<lambda>r. if rd_ridx r = -1 then Inr (REDIS_OK, rd_reply r, r\<lparr>rd_reply := 0\<rparr>, h)
         else Inr (REDIS_OK, 0, r, h))))
    (bindE (process_items fn r' h) (\<lambda>(r, h). if rd_err r \<noteq> 0 then Inr (REDIS_ERR, 0, r, h)
       else bindE (discard_consumed r) (\<lambda>r. if rd_ridx r = -1 then Inr (REDIS_OK, rd_reply r, r\<lparr>rd_reply := 0\<rparr>, h)
         else Inr (REDIS_OK, 0, r, h))))" (is "same_outcome (bindE _ ?k) (bindE _ ?k)")
proof (cases "process_items fn r h")
  case (Inl err)
  then show ?thesis by (simp add: same_outcome_def)
next
  case (Inr y)
  then obtain r1 h1 where y: "process_items fn r h = Inr (r1, h1)" by (cases y) auto
  have k: "same_outcome (?k (a, j)) (?k (b, j))" if m: "more_input [] a b" and e: "rd_err a = 0" for a b and j :: 'a
  proof -
    obtain s s' where s: "discard_consumed a = Inr s" "discard_consumed b = Inr s'" and ms: "more_input [] s s'"
      by (rule discard_consumed_more [OF m])
    have "rd_err b = 0" using e more_inputD(5) [OF m] by simp
    then show ?thesis
      using e s ms more_input_fields(3) [OF ms, of 0] more_inputD(3,4) [OF ms] by (simp add: same_outcome_def)
  qed
  from process_items_more [OF assms y] consider
    r1' where "rd_err r1 = 0" "process_items fn r' h = Inr (r1', h1)" "more_input [] r1 r1'"
    | "rd_err r1 \<noteq> 0" "process_items fn r' h = Inr (r1, h1)" by auto
  then show ?thesis
  proof cases
    case 1
    with k [OF 1(3,1)] y show ?thesis by simp
  next
    case 2
    then show ?thesis using y by (simp add: same_outcome_def)
  qed
qed

lemma start_task_more:
  assumes "more_input c r r'"
  shows "more_input c (start_task r) (start_task r')"
proof -
  have "rd_ridx r' = rd_ridx r" "rd_rstack r' = rd_rstack r" using more_inputD [OF assms] by simp_all
  with assms more_input_fields(1) [OF assms] show ?thesis by (simp add: start_task_def)
qed

lemma GetReply_in_two_pieces:
  assumes g: "grants_all mal" and b: "buffer_ok r" and ix: "stack_index_ok r" and e: "rd_err r = 0"
    and c: "c \<noteq> []" and n: "rd_len r + length c < 2 ^ 31"
    and first: "redisReaderGetReply fn r h = Inr (REDIS_OK, 0, r1, h1)" and more: "0 \<le> rd_ridx r1"
  shows "\<exists>r2 r3. redisReaderFeed mal fn r1 h1 (Some c) (length c) = Inr (REDIS_OK, r2, h1) \<and>
    redisReaderFeed mal fn r h (Some c) (length c) = Inr (REDIS_OK, r3, h) \<and>
    same_outcome (redisReaderGetReply fn r2 h1) (redisReaderGetReply fn r3 h)"
proof -
  from b obtain p where p: "reader_bytes r = Inr p" using reader_bytes_val by (auto simp: buffer_ok_def)
  from redisReaderFeed_bytes [OF e b g order_refl n p, of fn h] obtain r3 where
    r3: "redisReaderFeed mal fn r h (Some c) (length c) = Inr (REDIS_OK, r3, h)" "rd_len r3 = rd_len r + length c"
    and m: "more_input c r r3" using b p by (auto simp: more_input_def same_but_input_def)
  show ?thesis
  proof (cases "rd_len r = 0")
    case True
    then have "r1 = r" "h1 = h" using first e by (simp_all add: redisReaderGetReply_def)
    then show ?thesis using r3(1) by (auto simp: same_outcome_def)
  next
    case False
    obtain s k where s: "process_items fn (start_task r) h = Inr (s, k)" "rd_err s = 0"
      using first e False by (auto simp: redisReaderGetReply_def elim!: bindE_InrE split: if_splits)
    then have "bindE (discard_consumed s) (\<lambda>r. if rd_ridx r = -1 then Inr (REDIS_OK, rd_reply r, r\<lparr>rd_reply := 0\<rparr>, k)
        else Inr (REDIS_OK, 0, r, k)) = Inr (REDIS_OK, 0, r1, h1)"
      using first e False by (simp add: redisReaderGetReply_def)
    then obtain s0 where s0: "discard_consumed s = Inr s0" "if rd_ridx s0 = -1 then r1 = s0\<lparr>rd_reply := 0\<rparr> else r1 = s0" "k = h1"
      by (auto elim!: bindE_InrE split: if_splits)
    with more have d: "discard_consumed s = Inr r1" "k = h1" by (auto split: if_splits)
    have ix': "stack_index_ok (start_task r)" "rd_err (start_task r) = 0" "rd_len (start_task r) = rd_len r"
      using ix e by (auto simp: start_task_def stack_index_ok_def)
    from b have bs: "rd_ridx s = rd_ridx r1" using d(1)
      by (auto simp: discard_consumed_def bindE_Inr_iff split: if_splits option.splits)
    from process_items_more [OF start_task_more [OF m] ix'(2,1) s(1)] s(2) more bs obtain s' where
      s': "stack_index_ok s" "more_input c s s'" "process_items fn (start_task r3) h = process_items fn s' h1" "rd_len s = rd_len r"
      using d(2) ix'(3) by auto
    from s'(2) obtain q where q: "reader_bytes s = Inr q" "reader_bytes s' = Inr (q @ c)" "buffer_ok s" by (auto simp: more_input_def)
    from discard_consumed_bytes [OF q(3,1)] d(1) have r1: "buffer_ok r1" "reader_bytes r1 = Inr q" "same_but_input s r1" "rd_len r1 \<le> rd_len s"
      by (auto simp: same_but_input_def)
    from r1(3) s(2) have e1: "rd_err r1 = 0" by (simp add: same_but_input_def)
    have n1: "rd_len r1 + length c < 2 ^ 31" using n r1(4) s'(4) by simp
    from redisReaderFeed_bytes [OF e1 r1(1) g order_refl n1 r1(2), of fn h1] obtain r2 where
      r2: "redisReaderFeed mal fn r1 h1 (Some c) (length c) = Inr (REDIS_OK, r2, h1)" "buffer_ok r2" "reader_bytes r2 = Inr (q @ c)"
      "rd_len r2 = rd_len r1 + length c" "same_but_input r1 r2"
      by (auto simp: same_but_input_def)
    have m2: "more_input [] r2 s'"
      using r2 r1(3) s'(2) q(2) by (auto simp: more_input_def same_but_input_def)
    have e2: "rd_err r2 = 0" "stack_index_ok r2" "rd_ridx r2 = rd_ridx r1" "rd_err r3 = 0"
      using r2(5) r1(3) e1 s'(1) m e by (auto simp: same_but_input_def stack_index_ok_def more_input_def)
    have "redisReaderGetReply fn r2 h1 = bindE (process_items fn r2 h1) (\<lambda>(r, h).
           if rd_err r \<noteq> 0 then Inr (REDIS_ERR, 0, r, h)
           else bindE (discard_consumed r) (\<lambda>r.
                if rd_ridx r = -1 then Inr (REDIS_OK, rd_reply r, r\<lparr>rd_reply := 0\<rparr>, h) else Inr (REDIS_OK, 0, r, h)))"
      using e2 r2(4) c more by (simp add: redisReaderGetReply_def start_task_def)
    moreover have "redisReaderGetReply fn r3 h = bindE (process_items fn s' h1) (\<lambda>(r, h).
           if rd_err r \<noteq> 0 then Inr (REDIS_ERR, 0, r, h)
           else bindE (discard_consumed r) (\<lambda>r.
                if rd_ridx r = -1 then Inr (REDIS_OK, rd_reply r, r\<lparr>rd_reply := 0\<rparr>, h) else Inr (REDIS_OK, 0, r, h)))"
      using e2(4) r3(2) c s'(3) by (simp add: redisReaderGetReply_def)
    ultimately have "same_outcome (redisReaderGetReply fn r2 h1) (redisReaderGetReply fn r3 h)"
      using GetReply_tail_same [OF m2 e2(1,2), of fn h1] by (simp only:)
    with r2(1) r3(1) show ?thesis by blast
  qed
qed

subsection \<open>Waiting for a reply\<close>

lemma process_items_fails:
  assumes "more_input c r r'" and "rd_err r = 0" and "stack_index_ok r" and "process_items fn r h = Inl err"
  shows "process_items fn r' h = Inl err"
  using assms
proof (induction "rd_len r - rd_pos r" arbitrary: r r' h rule: less_induct)
  case less
  note m = less.prems(1) and e = less.prems(2) and ix = less.prems(3) and run = less.prems(4)
  have True: "0 \<le> rd_ridx r" using run by (rule contrapos_pp) (simp add: process_items.simps [of fn r])
  have pi: "process_items fn s k = bindE (processItem fn s k) (\<lambda>(st, r', h'). if st \<noteq> REDIS_OK then Inr (r', h') else process_items fn r' h')"
    if "rd_ridx s = rd_ridx r" for s k using that True by (simp add: process_items.simps [of fn s])
  from ix have "nat (rd_ridx r) < length (rd_rstack r)" unfolding stack_index_ok_def by linarith
  from processItem_more [OF m e True this, of fn h] show ?case
  proof
    assume "stops c fn r r' h"
    with run pi [of r h] show ?thesis by (auto simp: stops_def)
  next
    assume f: "follows c (processItem fn r h) (processItem fn r' h)"
    show ?thesis
    proof (cases "processItem fn r h")
      case (Inl err')
      with f run pi [of r h] pi [of r' h] more_inputD(3) [OF m] show ?thesis by (simp add: follows_def)
    next
      case (Inr x)
      obtain st a k where x: "x = (st, a, k)" by (cases x)
      with Inr run pi [of r h] have st: "st = REDIS_OK" "process_items fn a k = Inl err" by (auto split: if_splits)
      with f Inr x obtain b where b: "rd_err a = 0" "processItem fn r' h = Inr (REDIS_OK, b, k)" "more_input c a b"
        by (auto simp: follows_def)
      have a: "processItem fn r h = Inr (REDIS_OK, a, k)" using Inr x st by simp
      have "rd_len a - rd_pos a < rd_len r - rd_pos r" using processItem_advances [OF a] by (auto simp: advances_def)
      from less.hyps [OF this b(3,1) processItem_index [OF a ix] st(2)] show ?thesis
        using b(2) pi [of r' h] more_inputD(3) [OF m] by simp
    qed
  qed
qed

definition get_tail :: "'h redisReplyObjectFunctions \<Rightarrow> redisReader \<Rightarrow> 'h \<Rightarrow> (int \<times> nat \<times> redisReader \<times> 'h) res" where
  \<comment> \<open>what \<open>redisReaderGetReply\<close> does from its loop on\<close>
  "get_tail fn r h = bindE (process_items fn r h) (\<lambda>(r, h). if rd_err r \<noteq> 0 then Inr (REDIS_ERR, 0, r, h)
     else bindE (discard_consumed r) (\<lambda>r. if rd_ridx r = -1 then Inr (REDIS_OK, rd_reply r, r\<lparr>rd_reply := 0\<rparr>, h)
       else Inr (REDIS_OK, 0, r, h)))"

lemma GetReply_tail: "rd_err r = 0 \<Longrightarrow> rd_len r \<noteq> 0 \<Longrightarrow> redisReaderGetReply fn r h = get_tail fn (start_task r) h"
  by (simp add: redisReaderGetReply_def get_tail_def)

lemma get_tail_same:
  "more_input [] r r' \<Longrightarrow> rd_err r = 0 \<Longrightarrow> stack_index_ok r \<Longrightarrow> same_outcome (get_tail fn r h) (get_tail fn r' h)"
  unfolding get_tail_def by (rule GetReply_tail_same)

lemma more_input_sym: "more_input [] r r' \<Longrightarrow> more_input [] r' r"
  by (auto simp: more_input_def same_but_input_def)

lemma start_task_ok: "stack_index_ok r \<Longrightarrow> stack_index_ok (start_task r)" "rd_err (start_task r) = rd_err r"
  "rd_len (start_task r) = rd_len r" "0 \<le> rd_ridx r \<Longrightarrow> start_task r = r"
  by (auto simp: start_task_def stack_index_ok_def)

lemma discard_consumed_more_len:
  assumes "more_input c r r'" and "discard_consumed r = Inr s"
  shows "rd_len s \<le> rd_len r" "buffer_ok s"
proof -
  from assms(1) obtain p where p: "reader_bytes r = Inr p" "buffer_ok r" by (auto simp: more_input_def)
  from discard_consumed_bytes [OF p(2,1)] assms(2) show "rd_len s \<le> rd_len r" "buffer_ok s" by auto
qed

lemma process_items_len:
  "process_items fn r h = Inr (r1, h1) \<Longrightarrow> rd_err r = 0 \<Longrightarrow> rd_err r1 = 0 \<Longrightarrow> stack_index_ok r \<Longrightarrow> more_input [] r r' \<Longrightarrow>
   rd_len r1 = rd_len r \<and> stack_index_ok r1"
proof (induction "rd_len r - rd_pos r" arbitrary: r r' h rule: less_induct)
  case less
  note run = less.prems(1) and e = less.prems(2) and e1 = less.prems(3) and ix = less.prems(4) and m = less.prems(5)
  show ?case
  proof (cases "0 \<le> rd_ridx r")
    case False
    then show ?thesis using run ix by (simp add: process_items.simps [of fn r])
  next
    case True
    then have pi: "process_items fn r h = bindE (processItem fn r h) (\<lambda>(st, r', h'). if st \<noteq> REDIS_OK then Inr (r', h') else process_items fn r' h')"
      by (simp add: process_items.simps [of fn r])
    from ix have "nat (rd_ridx r) < length (rd_rstack r)" unfolding stack_index_ok_def by linarith
    from processItem_more [OF m e True this, of fn h] show ?thesis
    proof
      assume "stops [] fn r r' h"
      then show ?thesis using run ix pi by (auto simp: stops_def stack_index_ok_def)
    next
      assume f: "follows [] (processItem fn r h) (processItem fn r' h)"
      from run pi obtain st a k where a: "processItem fn r h = Inr (st, a, k)" by (auto simp: bindE_Inr_iff)
      show ?thesis
      proof (cases "st = REDIS_OK")
        case False
        then show ?thesis using f a run pi e1 by (auto simp: follows_def)
      next
        case True
        with f a obtain b where b: "rd_err a = 0" "more_input [] a b" by (auto simp: follows_def)
        have "rd_len a - rd_pos a < rd_len r - rd_pos r" "rd_len a = rd_len r"
          using processItem_advances [OF a [unfolded True]] by (auto simp: advances_def)
        then show ?thesis
          using less.hyps [OF _ _ b(1) e1 processItem_index [OF a [unfolded True] ix] b(2), of k] run a True pi by simp
      qed
    qed
  qed
qed

lemma more_input_refl: "more_input c r r' \<Longrightarrow> more_input [] r r"
  by (auto simp: more_input_def same_but_input_def)

lemma GetReply_prefix:
  assumes g: "grants_all mal" and m: "more_input b r rw" and e: "rd_err r = 0" and ix: "stack_index_ok r" and l: "rd_len r \<noteq> 0"
    and n: "rd_len r + length b < 2 ^ 31" and w: "redisReaderGetReply fn rw h = Inr (REDIS_OK, p, w, h')" and p: "p \<noteq> 0"
  shows "\<exists>q r1 h1. redisReaderGetReply fn r h = Inr (REDIS_OK, q, r1, h1) \<and> rd_len r1 \<le> rd_len r \<and> rd_err r1 = 0 \<and>
    ((q = p \<and> h1 = h' \<and> more_input b r1 w) \<or>
     (q = 0 \<and> b \<noteq> [] \<and> buffer_ok r1 \<and> stack_index_ok r1 \<and> (\<exists>r2 w'. redisReaderFeed mal fn r1 h1 (Some b) (length b) = Inr (REDIS_OK, r2, h1) \<and>
        redisReaderGetReply fn r2 h1 = Inr (REDIS_OK, p, w', h') \<and> (w' = w \<or> more_input [] w w'))))"
proof -
  have ew: "rd_err rw = 0" using e more_inputD(5) [OF m] by simp
  have "rd_len rw \<noteq> 0"
  proof
    assume "rd_len rw = 0"
    with w p ew show False by (simp add: redisReaderGetReply_def)
  qed
  then have tw: "get_tail fn (start_task rw) h = Inr (REDIS_OK, p, w, h')" using w ew GetReply_tail [of rw fn h] by simp
  note ms = start_task_more [OF m] and s = start_task_ok(1) [OF ix] start_task_ok(2,3) [of r]
  have es: "rd_err (start_task r) = 0" using e s by simp
  show ?thesis
  proof (cases "process_items fn (start_task r) h")
    case (Inl err)
    from process_items_fails [OF ms es s(1) Inl] tw show ?thesis by (simp add: get_tail_def)
  next
    case (Inr x)
    obtain a k where x: "x = (a, k)" by (cases x)
    have gr: "redisReaderGetReply fn r h = (if rd_err a \<noteq> 0 then Inr (REDIS_ERR, 0, a, k)
       else bindE (discard_consumed a) (\<lambda>r. if rd_ridx r = -1 then Inr (REDIS_OK, rd_reply r, r\<lparr>rd_reply := 0\<rparr>, k) else Inr (REDIS_OK, 0, r, k)))"
      using GetReply_tail [OF e l, of fn h] Inr x by (simp add: get_tail_def)
    have len: "rd_len a = rd_len r" if "rd_err a = 0"
      using process_items_len [OF Inr [unfolded x] es that s(1) more_input_refl [OF ms]] s by simp
    from process_items_more [OF ms es s(1) Inr [unfolded x]] show ?thesis
    proof (elim disjE conjE exE)
      fix a' assume a: "rd_err a = 0" "rd_ridx a < 0" "process_items fn (start_task rw) h = Inr (a', k)" "more_input b a a'"
      from discard_consumed_more [OF a(4)] obtain t t' where t: "discard_consumed a = Inr t" "discard_consumed a' = Inr t'" "more_input b t t'"
        "rd_err t = rd_err a" "rd_ridx t = rd_ridx a" by metis
      have "rd_err a' = 0" using a more_inputD(5) [OF a(4)] by simp
      then have tl: "rd_ridx t' = -1" "p = rd_reply t'" "w = t'\<lparr>rd_reply := 0\<rparr>" "h' = k"
        using tw a t p by (auto simp: get_tail_def split: if_splits)
      have "rd_len t \<le> rd_len r" using discard_consumed_more_len [OF a(4) t(1)] len [OF a(1)] by simp
      then show ?thesis
        using gr a t tl more_inputD(3,4) [OF t(3)] more_input_fields(3) [OF t(3), of 0] by simp
    next
      assume "rd_err a \<noteq> 0" "process_items fn (start_task rw) h = Inr (a, k)"
      then show ?thesis using tw by (simp add: get_tail_def)
    next
      fix a' assume a: "rd_err a = 0" "0 \<le> rd_ridx a" "stack_index_ok a" "rd_len a = rd_len (start_task r)" "more_input b a a'"
        "process_items fn (start_task rw) h = process_items fn a' k" "b = [] \<longrightarrow> process_items fn (start_task rw) h = Inr (a', k)"
      from discard_consumed_more [OF a(5)] obtain t t' where t: "discard_consumed a = Inr t" "discard_consumed a' = Inr t'" "more_input b t t'"
        "rd_err t = rd_err a" "rd_ridx t = rd_ridx a" "rd_rstack t = rd_rstack a" by metis
      have tl: "rd_len t \<le> rd_len r" "buffer_ok t" using discard_consumed_more_len [OF a(5) t(1)] len [OF a(1)] by simp_all
      have ea: "rd_err a' = 0" "rd_ridx a' = rd_ridx a" using a more_inputD(3,5) [OF a(5)] by simp_all
      have b: "b \<noteq> []"
      proof
        assume "b = []"
        with a(7) tw ea a(1,2) t more_inputD(3) [OF t(3)] p show False by (simp add: get_tail_def)
      qed
      from t(3) obtain q where q: "reader_bytes t = Inr q" "reader_bytes t' = Inr (q @ b)" by (auto simp: more_input_def)
      have et: "rd_err t = 0" "rd_len t + length b < 2 ^ 31" using t a n tl by simp_all
      from redisReaderFeed_bytes [OF et(1) tl(2) g order_refl et(2) q(1), of fn k] obtain r2 where
        r2: "redisReaderFeed mal fn t k (Some b) (length b) = Inr (REDIS_OK, r2, k)" "buffer_ok r2" "reader_bytes r2 = Inr (q @ b)"
        "rd_len r2 = rd_len t + length b" "same_but_input t r2" by (auto simp: same_but_input_def)
      have bytes: "reader_bytes a' = Inr (q @ b)"
      proof -
        from a(5) obtain qa where qa: "reader_bytes a = Inr qa" "reader_bytes a' = Inr (qa @ b)" "buffer_ok a" by (auto simp: more_input_def)
        from discard_consumed_bytes [OF qa(3,1)] t(1) q(1) have "qa = q" by auto
        with qa show ?thesis by simp
      qed
      have "same_but_input a t"
        using a(5) discard_consumed_bytes t(1) by (fastforce simp: more_input_def same_but_input_def)
      then have "more_input [] a' r2"
        using a(5) r2(2,3,5) bytes by (auto simp: more_input_def same_but_input_def)
      from get_tail_same [OF this ea(1), of fn k] a(3) more_inputD(6,3) [OF a(5)]
      have so: "same_outcome (get_tail fn a' k) (get_tail fn r2 k)" by (simp add: stack_index_ok_def)
      have "get_tail fn a' k = Inr (REDIS_OK, p, w, h')" using tw a(6) by (simp add: get_tail_def)
      with so obtain w' where w': "get_tail fn r2 k = Inr (REDIS_OK, p, w', h')" "w' = w \<or> more_input [] w w'"
        by (auto simp: same_outcome_def)
      have "rd_err r2 = 0" "rd_ridx r2 = rd_ridx a" "rd_len r2 \<noteq> 0"
        using r2(4,5) et(1) t(5) b by (auto simp: same_but_input_def)
      then have "redisReaderGetReply fn r2 k = get_tail fn r2 k" using GetReply_tail [of r2 fn k] start_task_ok(4) [of r2] a(2) by simp
      then show ?thesis
        using gr a t tl b r2(1) w' et(1) by (auto simp: stack_index_ok_def)
    qed
  qed
qed

end
