(* ===== verification/Reply.thy ===== *)
theory Reply
  imports ReaderSafe
begin

section \<open>Reply objects and the contract of the reader (hiredis/hiredis.c, hiredis/read.c)\<close>

text \<open>
  The default functions that build reply objects, on a store of reply objects in which every
  access is checked: an object that was freed, or was never allocated, cannot be read, written
  or freed again. They satisfy the contract \<open>reply_functions\<close>, of which the default functions and
  the absence of functions are the two interpretations.
\<close>

subsection \<open>The store of reply objects\<close>

record redisReply =
  rp_type :: int
  rp_integer :: int
  rp_len :: nat
  rp_str :: "char list option"
  rp_elements :: nat
  rp_element :: "nat list option"

record reply_heap =
  rh_node :: "nat \<Rightarrow> redisReply option"
  rh_next :: nat

definition rh_load :: "reply_heap \<Rightarrow> nat \<Rightarrow> redisReply res" where
  "rh_load h p = (case rh_node h p of None \<Rightarrow> Inl OutOfBounds | Some n \<Rightarrow> Inr n)"

definition rh_store :: "reply_heap \<Rightarrow> nat \<Rightarrow> redisReply \<Rightarrow> reply_heap" where
  "rh_store h p n = h\<lparr>rh_node := (rh_node h)(p \<mapsto> n)\<rparr>"

definition rh_free :: "reply_heap \<Rightarrow> nat \<Rightarrow> reply_heap" where
  "rh_free h p = h\<lparr>rh_node := (rh_node h)(p := None)\<rparr>"

definition empty_heap :: reply_heap where
  "empty_heap = \<lparr>rh_node = (\<lambda>_. None), rh_next = 1\<rparr>"

subsection \<open>The default reply object functions\<close>

definition createReplyObject :: "allocator \<Rightarrow> int \<Rightarrow> reply_heap \<Rightarrow> nat \<times> reply_heap" where
  \<comment> \<open>\<open>calloc\<close> of the 48 bytes of a reply; an address is never used twice\<close>
  "createReplyObject mal type h =
     (case mal 48 of None \<Rightarrow> (0, h)
      | Some _ \<Rightarrow>
          (rh_next h,
           (rh_store h (rh_next h) \<lparr>rp_type = type, rp_integer = 0, rp_len = 0, rp_str = None,
                                   rp_elements = 0, rp_element = None\<rparr>)\<lparr>rh_next := Suc (rh_next h)\<rparr>))"

text \<open>
  \<open>freeReplyObject\<close> is recursive in the code; the fuel bounds the depth of the recursion, and
  \<open>rh_next\<close> is more than any chain of distinct objects. The elements are read before the loop.
\<close>

fun free_reply :: "nat \<Rightarrow> nat \<Rightarrow> reply_heap \<Rightarrow> reply_heap res"
  and free_elements :: "nat \<Rightarrow> nat list \<Rightarrow> reply_heap \<Rightarrow> reply_heap res" where
  "free_reply 0 p h = Inl StackOverflow"
| "free_reply (Suc k) p h =
     (if p = 0 then Inr h
      else bindE (rh_load h p) (\<lambda>r.
           bindE (if rp_type r = REDIS_REPLY_ARRAY
                  then (case rp_element r of
                          None \<Rightarrow> Inr h
                        | Some es \<Rightarrow> if rp_elements r \<le> length es
                                     then free_elements k (take (rp_elements r) es) h
                                     else Inl OutOfBounds)
                  else Inr h) (\<lambda>h.
           bindE (rh_load h p) (\<lambda>_. Inr (rh_free h p)))))"
| "free_elements k [] h = Inr h"
| "free_elements k (e # es) h =
     bindE (if e \<noteq> 0 then free_reply k e h else Inr h) (free_elements k es)"

definition freeReplyObject :: "nat \<Rightarrow> reply_heap \<Rightarrow> reply_heap res" where
  "freeReplyObject p h = free_reply (Suc (rh_next h)) p h"

definition link_parent :: "redisReadTask \<Rightarrow> redisReadTask option \<Rightarrow> nat \<Rightarrow> reply_heap \<Rightarrow> reply_heap res" where
  \<comment> \<open>the common end of the create functions: store the new object in its parent's element\<close>
  "link_parent task par r h =
     (case par of
        None \<Rightarrow> Inr h
      | Some pt \<Rightarrow>
          bindE (rh_load h (tk_obj pt)) (\<lambda>parent.
          if rp_type parent \<noteq> REDIS_REPLY_ARRAY then Inl AssertFailed
          else (case rp_element parent of
                  None \<Rightarrow> Inl OutOfBounds
                | Some es \<Rightarrow>
                    if 0 \<le> tk_idx task \<and> tk_idx task < int (length es)
                    then Inr (rh_store h (tk_obj pt) (parent\<lparr>rp_element := Some (es[nat (tk_idx task) := r])\<rparr>))
                    else Inl OutOfBounds)))"

definition createStringObject ::
  "allocator \<Rightarrow> redisReadTask \<Rightarrow> redisReadTask option \<Rightarrow> char list \<Rightarrow> reply_heap \<Rightarrow> (nat \<times> reply_heap) res" where
  "createStringObject mal task par str h =
     (case createReplyObject mal (tk_type task) h of (r, h) \<Rightarrow>
      if r = 0 then Inr (0, h)
      else case mal (wrap64 (length str + 1)) of
        None \<Rightarrow> bindE (freeReplyObject r h) (\<lambda>h. Inr (0, h))
      | Some _ \<Rightarrow>
          if tk_type task = REDIS_REPLY_ERROR \<or> tk_type task = REDIS_REPLY_STATUS \<or>
             tk_type task = REDIS_REPLY_STRING
          then bindE (rh_load h r) (\<lambda>n.
               bindE (link_parent task par r
                 (rh_store h r (n\<lparr>rp_str := Some (str @ [NUL]), rp_len := length str\<rparr>))) (\<lambda>h.
               Inr (r, h)))
          else Inl AssertFailed)"

definition createArrayObject ::
  "allocator \<Rightarrow> redisReadTask \<Rightarrow> redisReadTask option \<Rightarrow> int \<Rightarrow> reply_heap \<Rightarrow> (nat \<times> reply_heap) res" where
  "createArrayObject mal task par elements h =
     (case createReplyObject mal REDIS_REPLY_ARRAY h of (r, h) \<Rightarrow>
      if r = 0 then Inr (0, h)
      else if elements > 0 \<and> mal (nat elements * 8) = None
      then bindE (freeReplyObject r h) (\<lambda>h. Inr (0, h))
      else bindE (rh_load h r) (\<lambda>n.
           bindE (link_parent task par r
             (rh_store h r (n\<lparr>rp_element := (if elements > 0 then Some (replicate (nat elements) 0) else None),
                             rp_elements := nat (elements mod 2 ^ 64)\<rparr>))) (\<lambda>h.
           Inr (r, h))))"

definition createIntegerObject ::
  "allocator \<Rightarrow> redisReadTask \<Rightarrow> redisReadTask option \<Rightarrow> int \<Rightarrow> reply_heap \<Rightarrow> (nat \<times> reply_heap) res" where
  "createIntegerObject mal task par value h =
     (case createReplyObject mal REDIS_REPLY_INTEGER h of (r, h) \<Rightarrow>
      if r = 0 then Inr (0, h)
      else bindE (rh_load h r) (\<lambda>n.
           bindE (link_parent task par r (rh_store h r (n\<lparr>rp_integer := value\<rparr>))) (\<lambda>h.
           Inr (r, h))))"

definition createNilObject ::
  "allocator \<Rightarrow> redisReadTask \<Rightarrow> redisReadTask option \<Rightarrow> reply_heap \<Rightarrow> (nat \<times> reply_heap) res" where
  "createNilObject mal task par h =
     (case createReplyObject mal REDIS_REPLY_NIL h of (r, h) \<Rightarrow>
      if r = 0 then Inr (0, h)
      else bindE (link_parent task par r h) (\<lambda>h. Inr (r, h)))"

definition defaultFunctions :: "allocator \<Rightarrow> reply_heap redisReplyObjectFunctions" where
  "defaultFunctions mal =
     \<lparr>createString = Some (createStringObject mal), createArray = Some (createArrayObject mal),
      createInteger = Some (createIntegerObject mal), createNil = Some (createNilObject mal),
      freeObject = Some freeReplyObject\<rparr>"

definition redisReaderCreate :: "allocator \<Rightarrow> redisReader res" where
  "redisReaderCreate mal = redisReaderCreateWithFunctions mal"


subsection \<open>Reply objects form trees\<close>

definition rh_slots :: "reply_heap \<Rightarrow> (nat \<times> nat \<times> nat) set" where
  \<comment> \<open>object \<open>p\<close> has the element \<open>e\<close>, not NULL, at index \<open>i\<close>\<close>
  "rh_slots h = {(p, i, e). \<exists>n es. rh_node h p = Some n \<and> rp_element n = Some es \<and> i < length es \<and> es ! i = e \<and> e \<noteq> 0}"

definition node_ok :: "redisReply \<Rightarrow> bool" where
  "node_ok n \<longleftrightarrow> (case rp_element n of None \<Rightarrow> True
     | Some es \<Rightarrow> rp_type n = REDIS_REPLY_ARRAY \<and> rp_elements n = length es)"

definition rh_inv :: "reply_heap \<Rightarrow> bool" where
  "rh_inv h \<longleftrightarrow>
     (\<forall>p n. rh_node h p = Some n \<longrightarrow> 0 < p \<and> p < rh_next h \<and> node_ok n) \<and>
     (\<forall>p i e. (p, i, e) \<in> rh_slots h \<longrightarrow> p < e \<and> rh_node h e \<noteq> None) \<and>
     (\<forall>p i q j e. (p, i, e) \<in> rh_slots h \<longrightarrow> (q, j, e) \<in> rh_slots h \<longrightarrow> p = q \<and> i = j) \<and> 0 < rh_next h"

definition rh_arr :: "reply_heap \<Rightarrow> nat \<Rightarrow> int \<Rightarrow> bool" where
  "rh_arr h p n \<longleftrightarrow> (\<exists>r es. rh_node h p = Some r \<and> rp_type r = REDIS_REPLY_ARRAY \<and> rp_element r = Some es \<and>
     n = int (length es))"

definition rh_root :: "reply_heap \<Rightarrow> nat \<Rightarrow> bool" where
  "rh_root h p \<longleftrightarrow> rh_node h p \<noteq> None \<and> (\<forall>q i. (q, i, p) \<notin> rh_slots h)"

definition rh_desc :: "reply_heap \<Rightarrow> nat \<Rightarrow> nat set" where
  \<comment> \<open>the object and everything it contains\<close>
  "rh_desc h p = {(q, e). \<exists>i. (q, i, e) \<in> rh_slots h}\<^sup>* `` {p}"

definition rh_without :: "reply_heap \<Rightarrow> nat set \<Rightarrow> reply_heap" where
  "rh_without h X = h\<lparr>rh_node := (\<lambda>q. if q \<in> X then None else rh_node h q)\<rparr>"

lemma rh_slotsI:
  "rh_node h p = Some n \<Longrightarrow> rp_element n = Some es \<Longrightarrow> i < length es \<Longrightarrow> es ! i \<noteq> 0 \<Longrightarrow> (p, i, es ! i) \<in> rh_slots h"
  by (auto simp: rh_slots_def)

lemma rh_invD:
  assumes "rh_inv h"
  shows "rh_node h p = Some n \<Longrightarrow> 0 < p \<and> p < rh_next h \<and> node_ok n"
    and "(p, i, e) \<in> rh_slots h \<Longrightarrow> p < e \<and> rh_node h e \<noteq> None"
    and "(p, i, e) \<in> rh_slots h \<Longrightarrow> (q, j, e) \<in> rh_slots h \<Longrightarrow> p = q \<and> i = j"
    and "0 < rh_next h"
  using assms unfolding rh_inv_def by blast+

lemma rh_desc_self [simp]: "p \<in> rh_desc h p"
  by (simp add: rh_desc_def)

lemma rh_desc_step: "q \<in> rh_desc h p \<Longrightarrow> (q, i, e) \<in> rh_slots h \<Longrightarrow> e \<in> rh_desc h p"
  unfolding rh_desc_def by (auto intro: rtrancl_into_rtrancl)

lemma rh_desc_cases:
  assumes "q \<in> rh_desc h p"
  obtains "q = p" | q' i where "q' \<in> rh_desc h p" "(q', i, q) \<in> rh_slots h"
  using assms unfolding rh_desc_def by (auto elim: rtranclE)

lemma rh_desc_induct [consumes 1, case_names self step]:
  assumes "q \<in> rh_desc h p" and "P p" and "\<And>q i e. q \<in> rh_desc h p \<Longrightarrow> P q \<Longrightarrow> (q, i, e) \<in> rh_slots h \<Longrightarrow> P e"
  shows "P q"
proof -
  have "(p, q) \<in> {(q, e). \<exists>i. (q, i, e) \<in> rh_slots h}\<^sup>*" using assms(1) by (simp add: rh_desc_def)
  then show ?thesis
    by (induction rule: rtrancl_induct) (auto intro: assms(2,3) simp: rh_desc_def)
qed

lemma rh_desc_ge: "rh_inv h \<Longrightarrow> q \<in> rh_desc h p \<Longrightarrow> p \<le> q"
proof -
  assume h: "rh_inv h" and q: "q \<in> rh_desc h p"
  from q show "p \<le> q" by (induction rule: rh_desc_induct) (auto dest: rh_invD(2) [OF h])
qed

lemma rh_desc_comparable:
  assumes h: "rh_inv h" and "q \<in> rh_desc h a" and "q \<in> rh_desc h b"
  shows "a \<in> rh_desc h b \<or> b \<in> rh_desc h a"
  using assms(2,3)
proof (induction rule: rh_desc_induct)
  case (step q i e)
  from step.prems show ?case
  proof (cases rule: rh_desc_cases)
    case 1
    with step show ?thesis using rh_desc_step by blast
  next
    case (2 q' j)
    with rh_invD(3) [OF h step.hyps(2) 2(2)] step.IH show ?thesis by simp
  qed
qed simp

lemma rh_desc_disjoint:
  assumes h: "rh_inv h" and a: "(p, i, a) \<in> rh_slots h" and b: "(p, j, b) \<in> rh_slots h" and "a \<noteq> b"
  shows "rh_desc h a \<inter> rh_desc h b = {}"
proof -
  have no: False if "x \<in> rh_desc h y" "x \<noteq> y" "(p, i, x) \<in> rh_slots h" "(p, j, y) \<in> rh_slots h" for x y i j
    using that(1)
  proof (cases rule: rh_desc_cases)
    case (2 q k)
    with rh_invD(3) [OF h that(3) 2(2)] have "p \<in> rh_desc h y" by simp
    then show False using rh_desc_ge [OF h, of p y] rh_invD(2) [OF h that(4)] by simp
  qed (use that in simp)
  then show ?thesis using rh_desc_comparable [OF h] assms by (metis Int_emptyI)
qed

lemma rh_desc_unfold:
  "rh_desc h p = insert p (\<Union>e\<in>{e. \<exists>i. (p, i, e) \<in> rh_slots h}. rh_desc h e)"
proof (rule set_eqI)
  show "q \<in> rh_desc h p \<longleftrightarrow> q \<in> insert p (\<Union>e\<in>{e. \<exists>i. (p, i, e) \<in> rh_slots h}. rh_desc h e)" for q
    unfolding rh_desc_def by (auto elim: converse_rtranclE intro: converse_rtrancl_into_rtrancl)
qed

lemma rh_without_Un: "rh_without (rh_without h X) Y = rh_without h (X \<union> Y)"
  by (auto simp: rh_without_def fun_eq_iff)

lemma rh_free_without: "rh_free (rh_without h X) p = rh_without h (insert p X)"
  by (auto simp: rh_without_def rh_free_def fun_eq_iff)


subsection \<open>Releasing a reply\<close>

lemma free_elements_ok:
  assumes "\<And>e X. e \<in> set es \<Longrightarrow> e \<noteq> 0 \<Longrightarrow> rh_desc h e \<inter> X = {} \<Longrightarrow>
      free_reply k e (rh_without h X) = Inr (rh_without h (X \<union> rh_desc h e))"
    and "sorted_wrt (\<lambda>a b. a \<noteq> 0 \<and> b \<noteq> 0 \<longrightarrow> rh_desc h a \<inter> rh_desc h b = {}) es"
    and "\<And>e. e \<in> set es \<Longrightarrow> e \<noteq> 0 \<Longrightarrow> rh_desc h e \<inter> X = {}"
  shows "free_elements k es (rh_without h X) = Inr (rh_without h (X \<union> (\<Union>e\<in>set es - {0}. rh_desc h e)))"
  using assms
proof (induction es arbitrary: X)
  case (Cons e es)
  show ?case
  proof (cases "e = 0")
    case True
    then show ?thesis using Cons.IH [of X] Cons.prems by simp
  next
    case False
    have "free_elements k es (rh_without h (X \<union> rh_desc h e)) =
        Inr (rh_without h (X \<union> rh_desc h e \<union> (\<Union>e\<in>set es - {0}. rh_desc h e)))"
    proof (rule Cons.IH)
      show "rh_desc h e' \<inter> (X \<union> rh_desc h e) = {}" if "e' \<in> set es" "e' \<noteq> 0" for e'
        using Cons.prems(2,3) that False by fastforce
    qed (use Cons.prems in auto)
    moreover have "free_reply k e (rh_without h X) = Inr (rh_without h (X \<union> rh_desc h e))"
      using Cons.prems(1) [of e X] Cons.prems(3) [of e] False by simp
    moreover have "X \<union> rh_desc h e \<union> (\<Union>e\<in>set es - {0}. rh_desc h e) = X \<union> (\<Union>e\<in>set (e # es) - {0}. rh_desc h e)"
      using False by auto
    ultimately show ?thesis using False by simp
  qed
qed simp

lemma rh_children:
  assumes "rh_node h p = Some n" "rp_element n = Some es"
  shows "{e. \<exists>i. (p, i, e) \<in> rh_slots h} = set es - {0}"
  using assms by (auto simp: rh_slots_def in_set_conv_nth)

lemma free_reply_ok:
  assumes h: "rh_inv h"
  shows "rh_node h p \<noteq> None \<Longrightarrow> rh_desc h p \<inter> X = {} \<Longrightarrow> rh_next h \<le> p + k \<Longrightarrow>
    free_reply k p (rh_without h X) = Inr (rh_without h (X \<union> rh_desc h p))"
proof (induction k arbitrary: p X)
  case 0
  then show ?case using rh_invD(1) [OF h] by fastforce
next
  case (Suc k)
  from Suc.prems(1) obtain n where n: "rh_node h p = Some n" by blast
  from rh_invD(1) [OF h n] have p: "0 < p" "node_ok n" by auto
  have pX: "p \<notin> X" using Suc.prems(2) rh_desc_self [of p h] by blast
  have loaded: "rh_load (rh_without h Y) p = Inr n" if "p \<notin> Y" for Y
    using n that by (simp add: rh_load_def rh_without_def)
  show ?case
  proof (cases "rp_element n")
    case None
    then have "{e. \<exists>i. (p, i, e) \<in> rh_slots h} = {}" using n by (auto simp: rh_slots_def)
    then have "rh_desc h p = {p}" by (subst rh_desc_unfold) simp
    with None p pX show ?thesis by (simp add: loaded rh_free_without)
  next
    case (Some es)
    note ch = rh_children [OF n Some]
    have ty: "rp_type n = REDIS_REPLY_ARRAY" "rp_elements n = length es" using p Some by (auto simp: node_ok_def)
    have slot: "\<exists>i. (p, i, e) \<in> rh_slots h" if "e \<in> set es" "e \<noteq> 0" for e using ch that by blast
    have sub: "rh_desc h e \<subseteq> rh_desc h p" if "e \<in> set es" "e \<noteq> 0" for e
      using slot [OF that] by (subst (2) rh_desc_unfold) auto
    let ?U = "\<Union>e\<in>set es - {0}. rh_desc h e"
    have D: "rh_desc h p = insert p ?U" by (subst rh_desc_unfold) (simp only: ch)
    have fe: "free_elements k es (rh_without h X) = Inr (rh_without h (X \<union> ?U))"
    proof (rule free_elements_ok)
      fix e Y assume e: "e \<in> set es" "e \<noteq> 0" and d: "rh_desc h e \<inter> Y = {}"
      from slot [OF e] rh_invD(2) [OF h] have "p < e" "rh_node h e \<noteq> None" by blast+
      with Suc.IH [of e Y] Suc.prems(3) d
      show "free_reply k e (rh_without h Y) = Inr (rh_without h (Y \<union> rh_desc h e))" by simp
    next
      show "sorted_wrt (\<lambda>a b. a \<noteq> 0 \<and> b \<noteq> 0 \<longrightarrow> rh_desc h a \<inter> rh_desc h b = {}) es"
        unfolding sorted_wrt_iff_nth_less
      proof (intro allI impI)
        fix i j assume ij: "i < j" "j < length es" and nz: "es ! i \<noteq> 0 \<and> es ! j \<noteq> 0"
        have sl: "(p, i, es ! i) \<in> rh_slots h" "(p, j, es ! j) \<in> rh_slots h"
          using ij nz by (auto intro!: rh_slotsI [OF n Some])
        then have "es ! i \<noteq> es ! j" using rh_invD(3) [OF h, of p i "es ! i" p j] ij(1) by auto
        with rh_desc_disjoint [OF h sl] show "rh_desc h (es ! i) \<inter> rh_desc h (es ! j) = {}" .
      qed
    next
      show "rh_desc h e \<inter> X = {}" if "e \<in> set es" "e \<noteq> 0" for e using sub [OF that] Suc.prems(2) by blast
    qed
    have "p \<notin> ?U"
    proof
      assume "p \<in> ?U"
      then obtain e where e: "e \<in> set es" "e \<noteq> 0" "p \<in> rh_desc h e" by blast
      with slot [OF e(1,2)] rh_invD(2) [OF h] rh_desc_ge [OF h e(3)] show False by (meson leD)
    qed
    with pX have "rh_load (rh_without h (X \<union> ?U)) p = Inr n" by (intro loaded) simp
    with fe ty Some p pX show ?thesis by (simp add: loaded rh_free_without D)
  qed
qed

lemma rh_without_empty [simp]: "rh_without h {} = h"
  by (simp add: rh_without_def)

lemma freeReplyObject_desc:
  "rh_inv h \<Longrightarrow> rh_node h p \<noteq> None \<Longrightarrow> freeReplyObject p h = Inr (rh_without h (rh_desc h p))"
  using free_reply_ok [of h p "{}" "Suc (rh_next h)"] by (simp add: freeReplyObject_def)

lemma rh_slots_without: "(q, i, e) \<in> rh_slots (rh_without h X) \<longleftrightarrow> (q, i, e) \<in> rh_slots h \<and> q \<notin> X"
  by (auto simp: rh_slots_def rh_without_def split: if_splits)

lemma rh_without_inv:
  assumes h: "rh_inv h" and r: "rh_root h p"
  shows "rh_inv (rh_without h (rh_desc h p)) \<and>
    (\<forall>q. rh_root h q \<and> q \<noteq> p \<longrightarrow> rh_root (rh_without h (rh_desc h p)) q)"
proof -
  let ?g = "rh_without h (rh_desc h p)"
  have keep: "e \<notin> rh_desc h p" if "(q, i, e) \<in> rh_slots h" "q \<notin> rh_desc h p" for q i e
  proof
    assume "e \<in> rh_desc h p"
    then show False
    proof (cases rule: rh_desc_cases)
      case 1
      then show False using that(1) r by (auto simp: rh_root_def)
    next
      case (2 q' j)
      with rh_invD(3) [OF h that(1) 2(2)] that(2) show False by simp
    qed
  qed
  have "rh_inv ?g"
    unfolding rh_inv_def rh_slots_without
  proof (intro conjI allI impI)
    fix q n assume "rh_node ?g q = Some n"
    then have "rh_node h q = Some n" by (auto simp: rh_without_def split: if_splits)
    from rh_invD(1) [OF h this] show "0 < q" "q < rh_next ?g" "node_ok n" by (auto simp: rh_without_def)
  next
    fix q i e assume s: "(q, i, e) \<in> rh_slots h \<and> q \<notin> rh_desc h p"
    with rh_invD(2) [OF h] show "q < e" by blast
    from s rh_invD(2) [OF h] keep show "rh_node ?g e \<noteq> None" by (auto simp: rh_without_def)
  next
    show "0 < rh_next ?g" using rh_invD(4) [OF h] by (simp add: rh_without_def)
  qed (use rh_invD(3) [OF h] in blast)+
  moreover have "rh_root ?g q" if q: "rh_root h q" "q \<noteq> p" for q
  proof -
    have "q \<notin> rh_desc h p" using q by (auto simp: rh_root_def elim: rh_desc_cases)
    with q show ?thesis by (auto simp: rh_root_def rh_slots_without) (simp add: rh_without_def)
  qed
  ultimately show ?thesis by blast
qed


subsection \<open>Creating a reply object\<close>

definition rh_alloc :: "reply_heap \<Rightarrow> redisReply \<Rightarrow> reply_heap" where
  "rh_alloc h n = (rh_store h (rh_next h) n)\<lparr>rh_next := Suc (rh_next h)\<rparr>"

definition blank_reply :: "int \<Rightarrow> redisReply" where
  "blank_reply type = \<lparr>rp_type = type, rp_integer = 0, rp_len = 0, rp_str = None, rp_elements = 0, rp_element = None\<rparr>"

lemma createReplyObject_alloc:
  "createReplyObject mal type h = (if mal 48 = None then (0, h) else (rh_next h, rh_alloc h (blank_reply type)))"
  by (auto simp: createReplyObject_def rh_alloc_def blank_reply_def split: option.split)

lemma rh_load_alloc [simp]: "rh_load (rh_alloc h n) (rh_next h) = Inr n"
  by (simp add: rh_load_def rh_alloc_def rh_store_def)

lemma rh_store_alloc [simp]: "rh_store (rh_alloc h n) (rh_next h) n' = rh_alloc h n'"
  by (simp add: rh_alloc_def rh_store_def)

definition leaf :: "redisReply \<Rightarrow> bool" where
  \<comment> \<open>a new object: no elements, or as many NULL elements as it announces\<close>
  "leaf n \<longleftrightarrow> node_ok n \<and> (\<forall>es. rp_element n = Some es \<longrightarrow> set es \<subseteq> {0})"

abbreviation (input) "rh_built \<equiv> built rh_inv rh_arr rh_root True"

lemma rh_fresh: "rh_inv h \<Longrightarrow> rh_node h (rh_next h) = None"
  using rh_invD(1) [of h "rh_next h"] by (cases "rh_node h (rh_next h)") auto

lemma rh_slots_alloc:
  assumes h: "rh_inv h" and n: "leaf n"
  shows "rh_slots (rh_alloc h n) = rh_slots h"
proof -
  have nd: "rh_node (rh_alloc h n) = (rh_node h)(rh_next h \<mapsto> n)" by (simp add: rh_alloc_def rh_store_def)
  have "es ! i = 0" if "rp_element n = Some es" "i < length es" for es i
    using n that subsetD [OF _ nth_mem [OF that(2)], of "{0}"] by (simp add: leaf_def)
  then show ?thesis unfolding rh_slots_def nd using rh_fresh [OF h] by (fastforce split: if_splits)
qed

lemma rh_alloc_built:
  assumes h: "rh_inv h" and n: "leaf n"
  shows "rh_built par h (rh_next h, rh_alloc h n)"
proof -
  let ?a = "rh_next h" and ?g = "rh_alloc h n"
  have nd: "rh_node ?g = (rh_node h)(?a \<mapsto> n)" "rh_next ?g = Suc ?a" by (simp_all add: rh_alloc_def rh_store_def)
  have sl: "rh_slots ?g = rh_slots h" by (rule rh_slots_alloc [OF h n])
  have A: "0 < p \<and> p < Suc ?a \<and> node_ok m" if "((rh_node h)(?a \<mapsto> n)) p = Some m" for p m
    using that rh_invD(1) [OF h, of p] rh_invD(4) [OF h] n by (cases "p = ?a") (auto simp: leaf_def)
  have B: "p < e \<and> ((rh_node h)(?a \<mapsto> n)) e \<noteq> None" if "(p, i, e) \<in> rh_slots h" for p i e
    using rh_invD(2) [OF h that] by simp
  have "rh_inv ?g"
    unfolding rh_inv_def sl nd
  proof (intro conjI allI impI)
    fix p i q j e assume "(p, i, e) \<in> rh_slots h" "(q, j, e) \<in> rh_slots h"
    from rh_invD(3) [OF h this] show "p = q" "i = j" by auto
  qed (use A B in auto)
  moreover have "rh_arr ?g q m" if "rh_arr h q m" for q m
    using that rh_fresh [OF h] by (auto simp: rh_arr_def nd)
  moreover have "rh_root ?g q" if "rh_root h q" for q using that by (auto simp: rh_root_def sl nd)
  moreover have "rh_root ?g ?a" using rh_invD(2) [OF h, of _ _ ?a] rh_fresh [OF h] unfolding rh_root_def sl nd by fastforce
  moreover have "\<not> rh_root h ?a" using rh_fresh [OF h] by (simp add: rh_root_def)
  ultimately show ?thesis by (simp add: built_def)
qed

lemma rh_link_ok:
  assumes h: "rh_inv h" and q: "rh_arr h (tk_obj pt) n" "0 \<le> tk_idx t" "tk_idx t < n"
    and a: "rh_root h a" "tk_obj pt < a"
  shows "\<exists>h'. link_parent t (Some pt) a h = Inr h' \<and> rh_inv h' \<and> (\<forall>p m. rh_arr h p m \<longrightarrow> rh_arr h' p m) \<and>
    (\<forall>p. rh_root h p \<and> p \<noteq> a \<longrightarrow> rh_root h' p)"
proof -
  let ?q = "tk_obj pt" and ?i = "nat (tk_idx t)"
  from q obtain r es where r: "rh_node h ?q = Some r" "rp_type r = REDIS_REPLY_ARRAY" "rp_element r = Some es"
    "n = int (length es)" by (auto simp: rh_arr_def)
  define h' where "h' = rh_store h ?q (r\<lparr>rp_element := Some (es[?i := a])\<rparr>)"
  have i: "?i < length es" using q r by simp
  have run: "link_parent t (Some pt) a h = Inr h'"
    using r q by (simp add: link_parent_def rh_load_def h'_def)
  have nd: "rh_node h' = (rh_node h)(?q \<mapsto> r\<lparr>rp_element := Some (es[?i := a])\<rparr>)" "rh_next h' = rh_next h"
    by (simp_all add: h'_def rh_store_def)
  have a0: "a \<noteq> 0" "rh_node h a \<noteq> None" using a rh_invD(1) [OF h] by (auto simp: rh_root_def)
  have sub: "(p, j, e) \<in> rh_slots h' \<Longrightarrow> (p, j, e) \<in> rh_slots h \<and> (p, j) \<noteq> (?q, ?i) \<or> p = ?q \<and> j = ?i \<and> e = a" for p j e
    using r i by (auto simp: rh_slots_def nd nth_list_update split: if_splits)
  have "rh_inv h'"
    unfolding rh_inv_def
  proof (intro conjI allI impI)
    fix p m assume "rh_node h' p = Some m"
    then show "0 < p" "p < rh_next h'" "node_ok m"
      using rh_invD(1) [OF h, of p] rh_invD(1) [OF h r(1)] r by (auto simp: nd node_ok_def split: if_splits)
  next
    fix p j e assume "(p, j, e) \<in> rh_slots h'"
    from sub [OF this] show "p < e" "rh_node h' e \<noteq> None"
      using rh_invD(2) [OF h, of p j e] a a0 by (auto simp: nd)
  next
    fix p j p' j' e assume s: "(p, j, e) \<in> rh_slots h'" "(p', j', e) \<in> rh_slots h'"
    have "(x, y, a) \<notin> rh_slots h" for x y using a by (simp add: rh_root_def)
    with sub [OF s(1)] sub [OF s(2)] rh_invD(3) [OF h, of p j e p' j'] show "p = p'" "j = j'" by auto
  qed (use rh_invD(4) [OF h] in \<open>simp add: nd\<close>)
  moreover have "rh_arr h' p m" if "rh_arr h p m" for p m
    using that r by (cases "p = ?q") (auto simp: rh_arr_def nd)
  moreover have "rh_root h' p" if "rh_root h p" "p \<noteq> a" for p
  proof -
    have "(x, y, p) \<notin> rh_slots h'" for x y using that sub [of x y p] by (auto simp: rh_root_def)
    then show ?thesis using that(1) by (auto simp: rh_root_def nd)
  qed
  ultimately show ?thesis using run by blast
qed

lemma alloc_link_ok:
  assumes h: "rh_inv h" and n: "leaf n" and s: "slot_ok rh_arr h t par"
  shows "\<exists>h'. link_parent t par (rh_next h) (rh_alloc h n) = Inr h' \<and> rh_built par h (rh_next h, h') \<and>
    (\<forall>p m. rh_arr (rh_alloc h n) p m \<longrightarrow> rh_arr h' p m)"
proof (cases par)
  case None
  then show ?thesis using rh_alloc_built [OF h n, of None] by (simp add: link_parent_def)
next
  case (Some pt)
  let ?g = "rh_alloc h n"
  have b: "rh_inv ?g" "\<And>q m. rh_arr h q m \<Longrightarrow> rh_arr ?g q m" "\<And>q. rh_root h q \<Longrightarrow> rh_root ?g q"
    "rh_root ?g (rh_next h)" "\<not> rh_root h (rh_next h)" "0 < rh_next h"
    using rh_alloc_built [OF h n, of None] rh_invD(4) [OF h] by (auto simp: built_def)
  from s Some obtain m where m: "rh_arr h (tk_obj pt) m" "0 \<le> tk_idx t" "tk_idx t < m" by (auto simp: slot_ok_def)
  then have "tk_obj pt < rh_next h" using rh_invD(1) [OF h] by (auto simp: rh_arr_def)
  from rh_link_ok [OF b(1) b(2) [OF m(1)] m(2,3) b(4) this] obtain h' where
    l: "link_parent t (Some pt) (rh_next h) ?g = Inr h'" "rh_inv h'" "\<forall>p m. rh_arr ?g p m \<longrightarrow> rh_arr h' p m"
    "\<forall>p. rh_root ?g p \<and> p \<noteq> rh_next h \<longrightarrow> rh_root h' p" by blast
  have "rh_root h' q" if "rh_root h q" for q using that b(3,5) l(4) by blast
  then have "rh_built par h (rh_next h, h')" using b l Some by (simp add: built_def)
  then show ?thesis using l(1,3) Some by simp
qed

lemma alloc_failed:
  assumes "rh_inv h"
  shows "\<exists>h'. freeReplyObject (rh_next h) (rh_alloc h (blank_reply t)) = Inr h' \<and> rh_built par h (0, h')"
proof -
  let ?h = "h\<lparr>rh_next := Suc (rh_next h)\<rparr>"
  have "rh_free (rh_alloc h (blank_reply t)) (rh_next h) = ?h"
    using rh_fresh [OF assms] by (simp add: rh_free_def rh_alloc_def rh_store_def fun_eq_iff)
  then have "freeReplyObject (rh_next h) (rh_alloc h (blank_reply t)) = Inr ?h"
    using rh_invD(4) [OF assms] by (cases "t = REDIS_REPLY_ARRAY") (simp_all add: freeReplyObject_def blank_reply_def)
  moreover have "rh_slots ?h = rh_slots h" by (simp add: rh_slots_def)
  then have "rh_built par h (0, ?h)"
    using assms unfolding built_def rh_inv_def rh_root_def rh_arr_def by (auto intro: less_SucI)
  ultimately show ?thesis by blast
qed

lemma built_nothing: "rh_inv h \<Longrightarrow> rh_built par h (0, h)"
  by (simp add: built_def)


subsection \<open>The default functions keep the contract\<close>

lemma createStringObject_ok:
  assumes h: "rh_inv h" and s: "slot_ok rh_arr h t par" and l: "length str < 2 ^ 31"
    and t: "tk_type t \<in> {REDIS_REPLY_STRING, REDIS_REPLY_STATUS, REDIS_REPLY_ERROR}"
  shows "\<exists>x. createStringObject mal t par str h = Inr x \<and> rh_built par h x"
proof -
  let ?n = "(blank_reply (tk_type t))\<lparr>rp_str := Some (str @ [NUL]), rp_len := length str\<rparr>"
  have "leaf ?n" by (simp add: leaf_def node_ok_def blank_reply_def)
  from alloc_link_ok [OF h this s] alloc_failed [OF h, of "tk_type t" par] built_nothing [OF h, of par] rh_invD(4) [OF h] t
  show ?thesis
    by (auto simp: createStringObject_def createReplyObject_alloc split: option.splits)
qed

lemma createArrayObject_ok:
  assumes h: "rh_inv h" and s: "slot_ok rh_arr h t par" and e: "n < 2 ^ 31"
  shows "\<exists>p h'. createArrayObject mal t par n h = Inr (p, h') \<and> rh_built par h (p, h') \<and>
    (p \<noteq> 0 \<and> 0 < n \<longrightarrow> rh_arr h' p n)"
proof -
  let ?n = "(blank_reply REDIS_REPLY_ARRAY)\<lparr>rp_element := (if n > 0 then Some (replicate (nat n) 0) else None),
                             rp_elements := nat (n mod 2 ^ 64)\<rparr>"
  have "leaf ?n" using e by (simp add: leaf_def node_ok_def blank_reply_def)
  from alloc_link_ok [OF h this s] obtain h' where
    l: "link_parent t par (rh_next h) (rh_alloc h ?n) = Inr h'" "rh_built par h (rh_next h, h')"
    "\<forall>p m. rh_arr (rh_alloc h ?n) p m \<longrightarrow> rh_arr h' p m" by blast
  have "0 < n \<Longrightarrow> rh_arr (rh_alloc h ?n) (rh_next h) n"
    by (simp add: rh_arr_def rh_alloc_def rh_store_def blank_reply_def)
  with l alloc_failed [OF h, of REDIS_REPLY_ARRAY par] built_nothing [OF h, of par] rh_invD(4) [OF h]
  show ?thesis
    by (cases "mal 48 = None"; cases "0 < n \<and> mal (nat n * 8) = None")
      (auto simp: createArrayObject_def createReplyObject_alloc)
qed

lemma createIntegerObject_ok:
  assumes h: "rh_inv h" and s: "slot_ok rh_arr h t par"
  shows "\<exists>x. createIntegerObject mal t par v h = Inr x \<and> rh_built par h x"
proof -
  have "leaf ((blank_reply REDIS_REPLY_INTEGER)\<lparr>rp_integer := v\<rparr>)" by (simp add: leaf_def node_ok_def blank_reply_def)
  from alloc_link_ok [OF h this s] built_nothing [OF h, of par] rh_invD(4) [OF h] show ?thesis
    by (auto simp: createIntegerObject_def createReplyObject_alloc)
qed

lemma createNilObject_ok:
  assumes h: "rh_inv h" and s: "slot_ok rh_arr h t par"
  shows "\<exists>x. createNilObject mal t par h = Inr x \<and> rh_built par h x"
proof -
  have "leaf (blank_reply REDIS_REPLY_NIL)" by (simp add: leaf_def node_ok_def blank_reply_def)
  from alloc_link_ok [OF h this s] built_nothing [OF h, of par] rh_invD(4) [OF h] show ?thesis
    by (auto simp: createNilObject_def createReplyObject_alloc)
qed

lemma freeReplyObject_ok:
  assumes "rh_inv h" "rh_root h p"
  shows "\<exists>h'. freeReplyObject p h = Inr h' \<and> rh_inv h' \<and> (\<forall>q. rh_root h q \<and> q \<noteq> p \<longrightarrow> rh_root h' q)"
  using freeReplyObject_desc [OF assms(1)] rh_without_inv [OF assms] assms(2) by (auto simp: rh_root_def)

interpretation default_replies: reply_functions "defaultFunctions mal" rh_inv rh_arr rh_root for mal
proof (unfold_locales, goal_cases)
  case (1 f h t par str)
  then show ?case using createStringObject_ok [of h t par str mal] by (simp add: defaultFunctions_def)
next
  case (2 g h t par n)
  then show ?case using createArrayObject_ok [of h t par n mal] by (simp add: defaultFunctions_def)
next
  case (3 i h t par v)
  then show ?case using createIntegerObject_ok [of h t par mal v] by (simp add: defaultFunctions_def)
next
  case (4 j h t par)
  then show ?case using createNilObject_ok [of h t par mal] by (simp add: defaultFunctions_def)
next
  case (6 k h p)
  then show ?case using freeReplyObject_ok [of h p] by (simp add: defaultFunctions_def)
qed (simp add: defaultFunctions_def)

text \<open>
  Without functions (a reader created with NULL) the objects are the type numbers themselves and
  there is no store to keep.
\<close>

definition noFunctions :: "unit redisReplyObjectFunctions" where
  "noFunctions = \<lparr>createString = None, createArray = None, createInteger = None, createNil = None, freeObject = None\<rparr>"

interpretation no_replies: reply_functions noFunctions "\<lambda>_. True" "\<lambda>_ _ _. True" "\<lambda>_ _. True"
  by unfold_locales (auto simp: noFunctions_def built_def)

end
