(* ===== verification/Resp.thy ===== *)
theory Resp
  imports Reply
begin

section \<open>Parsing what a server sends (hiredis/read.c with the default functions)\<close>

text \<open>
  The protocol as a grammar of replies: \<open>encode\<close> writes a reply tree the way a server sends it,
  \<open>reply_at\<close> reads a tree of reply objects back from the store. The reader, run with the default
  functions on an encoded reply, builds exactly that tree.
\<close>

subsection \<open>Replies and their encoding\<close>

datatype reply =
    RStatus "char list"
  | RError "char list"
  | RInt int
  | RString "char list"
  | RNil
  | RArray "reply list"

abbreviation (input) CRLF :: "char list" where "CRLF \<equiv> [CHR 0x0D, CHR 0x0A]"

fun encode :: "reply \<Rightarrow> char list" where
  "encode (RStatus s) = CHR ''+'' # s @ CRLF"
| "encode (RError s) = CHR ''-'' # s @ CRLF"
| "encode (RInt i) = CHR '':'' # signed_decimal i @ CRLF"
| "encode (RString s) = CHR ''$'' # decimal (length s) @ CRLF @ s @ CRLF"
| "encode RNil = CHR ''$'' # ''-1'' @ CRLF"
| "encode (RArray ts) = CHR ''*'' # decimal (length ts) @ CRLF @ concat (map encode ts)"

definition no_crlf :: "char list \<Rightarrow> bool" where
  "no_crlf s \<longleftrightarrow> (\<forall>i. Suc i < length s \<longrightarrow> s ! i = CHR 0x0D \<longrightarrow> s ! Suc i \<noteq> CHR 0x0A)"

fun sendable :: "reply \<Rightarrow> bool" where
  \<comment> \<open>lines contain no line end, integers are 64 bits wide\<close>
  "sendable (RStatus s) \<longleftrightarrow> no_crlf s"
| "sendable (RError s) \<longleftrightarrow> no_crlf s"
| "sendable (RInt i) \<longleftrightarrow> - (2 ^ 63) < i \<and> i < 2 ^ 63"
| "sendable (RArray ts) \<longleftrightarrow> list_all sendable ts"
| "sendable _ \<longleftrightarrow> True"

fun depth :: "reply \<Rightarrow> nat" where
  "depth (RArray ts) = Suc (foldr max (map depth ts) 0)"
| "depth _ = 0"

fun reply_at :: "reply \<Rightarrow> (nat \<Rightarrow> redisReply option) \<Rightarrow> nat \<Rightarrow> bool" where
  "reply_at (RStatus s) m p \<longleftrightarrow> (\<exists>n. m p = Some n \<and> rp_type n = REDIS_REPLY_STATUS \<and>
     rp_str n = Some (s @ [NUL]) \<and> rp_len n = length s)"
| "reply_at (RError s) m p \<longleftrightarrow> (\<exists>n. m p = Some n \<and> rp_type n = REDIS_REPLY_ERROR \<and>
     rp_str n = Some (s @ [NUL]) \<and> rp_len n = length s)"
| "reply_at (RInt i) m p \<longleftrightarrow> (\<exists>n. m p = Some n \<and> rp_type n = REDIS_REPLY_INTEGER \<and> rp_integer n = i)"
| "reply_at (RString s) m p \<longleftrightarrow> (\<exists>n. m p = Some n \<and> rp_type n = REDIS_REPLY_STRING \<and>
     rp_str n = Some (s @ [NUL]) \<and> rp_len n = length s)"
| "reply_at RNil m p \<longleftrightarrow> (\<exists>n. m p = Some n \<and> rp_type n = REDIS_REPLY_NIL)"
| "reply_at (RArray ts) m p \<longleftrightarrow> (\<exists>n. m p = Some n \<and> rp_type n = REDIS_REPLY_ARRAY \<and> rp_elements n = length ts \<and>
     (ts \<noteq> [] \<longrightarrow> (\<exists>es. rp_element n = Some es \<and> list_all2 (\<lambda>f e. f e) (map (\<lambda>t. reply_at t m) ts) es)))"

lemma reply_at_mono: "reply_at t m p \<Longrightarrow> m \<subseteq>\<^sub>m m' \<Longrightarrow> reply_at t m' p"
proof (induction t arbitrary: p)
  case (RArray ts)
  from RArray.prems(1) obtain n where n: "m p = Some n" "rp_type n = REDIS_REPLY_ARRAY" "rp_elements n = length ts"
    "ts \<noteq> [] \<longrightarrow> (\<exists>es. rp_element n = Some es \<and> list_all2 (\<lambda>f e. f e) (map (\<lambda>t. reply_at t m) ts) es)" by auto
  have "list_all2 (\<lambda>f e. f e) (map (\<lambda>t. reply_at t m') ts) es"
    if "list_all2 (\<lambda>f e. f e) (map (\<lambda>t. reply_at t m) ts) es" for es
    using that RArray.IH [OF _ _ RArray.prems(2)] by (auto simp: list_all2_conv_all_nth)
  with n RArray.prems(2) show ?case by (auto simp: map_le_def dom_def)
qed (auto simp: map_le_def dom_def)

subsection \<open>Lines and numbers\<close>

lemma skip_to_cr_first:
  "pos \<le> q \<Longrightarrow> int q < l \<Longrightarrow> s ! q = CHR 0x0D \<Longrightarrow> skip_to_cr s l pos \<le> q"
proof (induction s l pos rule: skip_to_cr.induct)
  case (1 s l pos)
  show ?case
  proof (cases "s ! pos = CHR 0x0D")
    case True
    then show ?thesis using "1.prems"(1) by (subst skip_to_cr.simps) simp
  next
    case False
    then have "pos \<noteq> q" "int pos < l" using "1.prems" by auto
    then have "skip_to_cr s l (Suc pos) \<le> q" using "1.IH" False "1.prems" by simp
    then show ?thesis using False \<open>int pos < l\<close> by (subst skip_to_cr.simps) simp
  qed
qed

lemma seek_loop_first:
  "pos \<le> q \<Longrightarrow> int q < l \<Longrightarrow> s ! q = CHR 0x0D \<Longrightarrow> s ! Suc q = CHR 0x0A \<Longrightarrow>
   (\<forall>i<q. s ! i = CHR 0x0D \<longrightarrow> s ! Suc i \<noteq> CHR 0x0A) \<Longrightarrow> seek_loop s l pos = Some q"
proof (induction s l pos rule: seek_loop.induct)
  case (1 s l pos)
  let ?p = "skip_to_cr s l pos"
  have p: "pos \<le> ?p" "?p \<le> q" using skip_to_cr_ge skip_to_cr_first "1.prems" by auto
  then have cr: "s ! ?p = CHR 0x0D" using skip_to_cr_stop [of pos l s] "1.prems"(2) by auto
  show ?case
  proof (cases "?p = q")
    case True
    then show ?thesis using "1.prems" p by (subst seek_loop.simps) (simp add: Let_def)
  next
    case False
    then have nl: "s ! (?p + 1) \<noteq> CHR 0x0A" using "1.prems"(5) cr p by simp
    have "seek_loop s l (?p + 1) = Some q"
      using "1.IH" [OF _ refl] False p "1.prems" nl by auto
    then show ?thesis using False p "1.prems" nl by (subst seek_loop.simps) (simp add: Let_def)
  qed
qed

lemma seekNewline_line:
  assumes "no_crlf line" and "length line + length rest + 2 < 2 ^ 31"
  shows "seekNewline (line @ CRLF @ rest) = Some (length line)"
proof -
  let ?s = "line @ CRLF @ rest"
  have l: "to_int32 (int (length ?s) - 1) = int (length ?s) - 1" using assms(2) by (intro to_int32_id) auto
  have "?s ! Suc i \<noteq> CHR 0x0A" if "i < length line" "?s ! i = CHR 0x0D" for i
    using that assms(1) by (cases "Suc i = length line") (auto simp: nth_append no_crlf_def)
  then show ?thesis
    unfolding seekNewline_def l by (intro seek_loop_first) (auto simp: nth_append)
qed

lemma foldl_digits_mono: "(v::nat) \<le> foldl (\<lambda>v c. 10 * v + digit_val c) v ds"
proof (induction ds arbitrary: v)
  case (Cons d ds)
  have "v \<le> 10 * v + digit_val d" by simp
  with Cons.IH [of "10 * v + digit_val d"] show ?case unfolding foldl.simps by (rule le_trans [rotated])
qed simp

lemma readLongLong_loop_digits:
  "\<forall>c\<in>set ds. is_digit c \<Longrightarrow> foldl (\<lambda>v c. 10 * v + digit_val c) v ds < 2 ^ 63 \<Longrightarrow>
   readLongLong_loop (ds @ CHR 0x0D # rest) (int v) = Inr (Some (int (foldl (\<lambda>v c. 10 * v + digit_val c) v ds)))"
proof (induction ds arbitrary: v)
  case (Cons d ds)
  let ?w = "10 * v + digit_val d"
  have "?w \<le> foldl (\<lambda>v c. 10 * v + digit_val c) v (d # ds)" unfolding foldl.simps by (rule foldl_digits_mono)
  then have w: "?w < 2 ^ 63" using Cons.prems(2) by (rule le_less_trans)
  have "is_digit d" using Cons.prems(1) by simp
  then have d: "48 \<le> (of_char d :: nat)" "(of_char d :: nat) < 58" "d \<noteq> CHR 0x0D"
    by (auto simp: is_digit_def)
  have dec: "int (of_char d) - 48 = int (digit_val d)" using d by (simp add: digit_val_def)
  have ten: "0 \<le> int (digit_val d)" "int (digit_val d) < 10" using d by (auto simp: digit_val_def)
  have t: "to_int64 (to_int64 (int v * 10) + int (digit_val d)) = int ?w"
    using w by (simp add: to_int64_id)
  have "readLongLong_loop ((d # ds) @ CHR 0x0D # rest) (int v) = readLongLong_loop (ds @ CHR 0x0D # rest) (int ?w)"
    unfolding append_Cons readLongLong_loop.simps(2) Let_def dec t using d(3) ten by simp
  moreover have "readLongLong_loop (ds @ CHR 0x0D # rest) (int ?w) = Inr (Some (int (foldl (\<lambda>v c. 10 * v + digit_val c) ?w ds)))"
    using Cons.prems by (intro Cons.IH) simp_all
  ultimately show ?case by (simp only: foldl.simps)
qed simp

lemma dec_digits: "\<forall>c\<in>set (decimal n). is_digit c"
  using decimal_digits by blast

lemma readLongLong_decimal:
  assumes "n < 2 ^ 63"
  shows "readLongLong (decimal n @ CHR 0x0D # rest) = Inr (int n)"
proof -
  obtain d ds where d: "decimal n = d # ds" by (cases "decimal n") auto
  have "is_digit d" using dec_digits [of n] d by simp
  then have s: "d \<noteq> CHR ''-''" "d \<noteq> CHR ''+''" by (auto simp: is_digit_def)
  have v: "foldl (\<lambda>v c. 10 * v + digit_val c) 0 (decimal n) = n" using dec_val_decimal [of n] by (simp add: dec_val_def)
  have "readLongLong_loop (decimal n @ CHR 0x0D # rest) 0 = Inr (Some (int n))"
    using readLongLong_loop_digits [OF dec_digits, of 0 n rest] v assms by simp
  then show ?thesis using s assms by (simp add: readLongLong_def d to_int64_id)
qed

lemma readLongLong_signed:
  assumes "- (2 ^ 63) < i" "i < 2 ^ 63"
  shows "readLongLong (signed_decimal i @ CHR 0x0D # rest) = Inr i"
proof (cases "i < 0")
  case False
  then show ?thesis using readLongLong_decimal [of "nat i" rest] assms by (simp add: signed_decimal_def)
next
  case True
  let ?n = "nat (- i)"
  have v: "foldl (\<lambda>v c. 10 * v + digit_val c) 0 (decimal ?n) = ?n" using dec_val_decimal [of ?n] by (simp add: dec_val_def)
  have "readLongLong_loop (decimal ?n @ CHR 0x0D # rest) 0 = Inr (Some (int ?n))"
    using readLongLong_loop_digits [OF dec_digits, of 0 ?n rest] v True assms by simp
  then show ?thesis using True assms by (simp add: signed_decimal_def readLongLong_def to_int64_id)
qed

lemma decimal_no_cr: "CHR 0x0D \<notin> set (decimal n)"
  using dec_digits [of n] by (auto simp: is_digit_def)

lemma no_crlfI: "CHR 0x0D \<notin> set s \<Longrightarrow> no_crlf s"
  unfolding no_crlf_def using nth_mem by (metis Suc_lessD)


subsection \<open>What one item does to the store\<close>

definition heap_step :: "redisReadTask \<Rightarrow> redisReadTask option \<Rightarrow> reply_heap \<Rightarrow> reply_heap \<Rightarrow> nat \<Rightarrow> bool" where
  \<comment> \<open>objects were only added, and the new one was stored in its parent's slot\<close>
  "heap_step t par h h' obj \<longleftrightarrow>
     rh_next h \<le> obj \<and> obj < rh_next h' \<and>
     (\<forall>p<rh_next h. (\<forall>pt. par = Some pt \<longrightarrow> p \<noteq> tk_obj pt) \<longrightarrow> rh_node h' p = rh_node h p) \<and>
     (\<forall>pt. par = Some pt \<longrightarrow>
        (\<exists>n es. rh_node h (tk_obj pt) = Some n \<and> rp_element n = Some es \<and>
           rh_node h' (tk_obj pt) = Some (n\<lparr>rp_element := Some (es[nat (tk_idx t) := obj])\<rparr>)))"

definition slot_live :: "reply_heap \<Rightarrow> redisReadTask \<Rightarrow> redisReadTask option \<Rightarrow> bool" where
  "slot_live h t par \<longleftrightarrow> 0 < rh_next h \<and>
     (\<forall>pt. par = Some pt \<longrightarrow> tk_obj pt < rh_next h \<and> (\<exists>n es. rh_node h (tk_obj pt) = Some n \<and>
        rp_type n = REDIS_REPLY_ARRAY \<and> rp_element n = Some es \<and> 0 \<le> tk_idx t \<and> tk_idx t < int (length es)))"

definition new_nodes :: "reply_heap \<Rightarrow> reply_heap \<Rightarrow> nat \<Rightarrow> redisReply option" where
  "new_nodes h h' = rh_node h' |` {rh_next h..<rh_next h'}"

lemma alloc_link_step:
  assumes "slot_live h t par"
  shows "\<exists>h'. link_parent t par (rh_next h) (rh_alloc h n) = Inr h' \<and> heap_step t par h h' (rh_next h) \<and>
    rh_node h' (rh_next h) = Some n \<and> rh_next h' = Suc (rh_next h)"
proof (cases par)
  case None
  then show ?thesis by (auto simp: link_parent_def heap_step_def rh_alloc_def rh_store_def)
next
  case (Some pt)
  with assms show ?thesis
    by (auto simp: slot_live_def link_parent_def heap_step_def rh_alloc_def rh_store_def rh_load_def)
qed

definition leaf_made :: "reply \<Rightarrow> redisReadTask \<Rightarrow> redisReadTask option \<Rightarrow> reply_heap \<Rightarrow> (nat \<times> reply_heap) res \<Rightarrow> bool" where
  "leaf_made t tk par h x \<longleftrightarrow>
     (\<exists>h'. x = Inr (rh_next h, h') \<and> heap_step tk par h h' (rh_next h) \<and> rh_next h' = Suc (rh_next h) \<and>
        reply_at t (new_nodes h h') (rh_next h))"

lemma new_nodes_first: "rh_next h' = Suc (rh_next h) \<Longrightarrow> new_nodes h h' (rh_next h) = rh_node h' (rh_next h)"
  by (simp add: new_nodes_def)

lemma grants_not_None: "grants_all mal \<Longrightarrow> \<exists>f. mal n = Some f"
  by (auto simp: grants_all_def)

lemma createStringObject_step:
  assumes g: "grants_all mal" and s: "slot_live h tk par" and l: "length str < 2 ^ 31"
    and t: "t = (if tk_type tk = REDIS_REPLY_STATUS then RStatus str
        else if tk_type tk = REDIS_REPLY_ERROR then RError str else RString str)"
      "tk_type tk \<in> {REDIS_REPLY_STATUS, REDIS_REPLY_ERROR, REDIS_REPLY_STRING}"
  shows "leaf_made t tk par h (createStringObject mal tk par str h)"
proof -
  let ?n = "(blank_reply (tk_type tk))\<lparr>rp_str := Some (str @ [NUL]), rp_len := length str\<rparr>"
  obtain f f' where m: "mal 48 = Some f" "mal (wrap64 (length str + 1)) = Some f'" using grants_not_None [OF g] by metis
  have "0 < rh_next h" using s by (simp add: slot_live_def)
  with alloc_link_step [OF s, of ?n] m t show ?thesis
    by (auto simp: leaf_made_def createStringObject_def createReplyObject_alloc new_nodes_first blank_reply_def)
qed

lemma createIntegerObject_step:
  assumes g: "grants_all mal" and s: "slot_live h tk par"
  shows "leaf_made (RInt v) tk par h (createIntegerObject mal tk par v h)"
proof -
  obtain f where m: "mal 48 = Some f" using grants_not_None [OF g] by metis
  have "0 < rh_next h" using s by (simp add: slot_live_def)
  with alloc_link_step [OF s, of "(blank_reply REDIS_REPLY_INTEGER)\<lparr>rp_integer := v\<rparr>"] m show ?thesis
    by (auto simp: leaf_made_def createIntegerObject_def createReplyObject_alloc new_nodes_first blank_reply_def)
qed

lemma createNilObject_step:
  assumes g: "grants_all mal" and s: "slot_live h tk par"
  shows "leaf_made RNil tk par h (createNilObject mal tk par h)"
proof -
  obtain f where m: "mal 48 = Some f" using grants_not_None [OF g] by metis
  have "0 < rh_next h" using s by (simp add: slot_live_def)
  with alloc_link_step [OF s, of "blank_reply REDIS_REPLY_NIL"] m show ?thesis
    by (auto simp: leaf_made_def createNilObject_def createReplyObject_alloc new_nodes_first blank_reply_def)
qed

lemma createArrayObject_step:
  assumes g: "grants_all mal" and s: "slot_live h tk par" and k: "k < 2 ^ 31"
  shows "\<exists>h'. createArrayObject mal tk par (int k) h = Inr (rh_next h, h') \<and> heap_step tk par h h' (rh_next h) \<and>
    rh_next h' = Suc (rh_next h) \<and>
    rh_node h' (rh_next h) = Some ((blank_reply REDIS_REPLY_ARRAY)
      \<lparr>rp_element := (if k > 0 then Some (replicate k 0) else None), rp_elements := k\<rparr>)"
proof -
  obtain f f' where m: "mal 48 = Some f" "mal (nat (int k) * 8) = Some f'" using grants_not_None [OF g] by metis
  have w: "nat (int k mod 2 ^ 64) = k" using k by simp
  have "0 < rh_next h" using s by (simp add: slot_live_def)
  with alloc_link_step [OF s, of "(blank_reply REDIS_REPLY_ARRAY)
      \<lparr>rp_element := (if k > 0 then Some (replicate k 0) else None), rp_elements := k\<rparr>"] m
  show ?thesis unfolding createArrayObject_def createReplyObject_alloc w
    by (auto simp: blank_reply_def)
qed

subsection \<open>What one item does to the reader\<close>

definition after :: "redisReader \<Rightarrow> redisReadTask list \<Rightarrow> nat \<Rightarrow> nat \<Rightarrow> redisReader" where
  \<comment> \<open>the reader when \<open>n\<close> bytes were consumed for \<open>obj\<close>, before it moves to the next task\<close>
  "after r st obj n = r\<lparr>rd_pos := rd_pos r + n, rd_rstack := st,
     rd_reply := (if rd_ridx r = 0 then obj else rd_reply r)\<rparr>"

definition stack_kept :: "nat \<Rightarrow> redisReadTask list \<Rightarrow> redisReadTask list \<Rightarrow> bool" where
  "stack_kept k st st' \<longleftrightarrow> length st' = length st \<and> (\<forall>i<k. st' ! i = st ! i) \<and>
     tk_idx (st' ! k) = tk_idx (st ! k) \<and> tk_parent (st' ! k) = tk_parent (st ! k)"

definition parses :: "allocator \<Rightarrow> reply \<Rightarrow> redisReader \<Rightarrow> reply_heap \<Rightarrow> bool" where
  "parses mal t r h \<longleftrightarrow>
     (\<exists>st obj h'. stack_kept (nat (rd_ridx r)) (rd_rstack r) st \<and>
        heap_step (cur_task r) (parent_task r (cur_task r)) h h' obj \<and> reply_at t (new_nodes h h') obj \<and>
        process_items (defaultFunctions mal) r h =
          bindE (moveToNextTask (after r st obj (length (encode t)))) (\<lambda>r. process_items (defaultFunctions mal) r h'))"

definition ready :: "redisReader \<Rightarrow> reply_heap \<Rightarrow> reply \<Rightarrow> char list \<Rightarrow> bool" where
  \<comment> \<open>the reader is about to read the type of \<open>t\<close>, which the input holds completely\<close>
  "ready r h t rest \<longleftrightarrow>
     rd_err r = 0 \<and> 0 \<le> rd_ridx r \<and> rd_ridx r + int (depth t) \<le> 8 \<and> length (rd_rstack r) = 9 \<and>
     (\<forall>i. tk_parent (cur_task r) = Some i \<longrightarrow> i < nat (rd_ridx r)) \<and>
     tk_type (cur_task r) = -1 \<and> reader_bytes r = Inr (encode t @ rest) \<and> rd_len r < 2 ^ 31 \<and>
     slot_live h (cur_task r) (parent_task r (cur_task r))"

lemma process_items_finish:
  assumes "0 \<le> rd_ridx r" and "processItem fn r h = finish_item fn r1 h1 obj" and "obj \<noteq> 0"
  shows "process_items fn r h =
    bindE (moveToNextTask (if rd_ridx r1 = 0 then r1\<lparr>rd_reply := obj\<rparr> else r1)) (\<lambda>r. process_items fn r h1)"
  using assms by (subst process_items.simps)
    (cases "moveToNextTask (if rd_ridx r1 = 0 then r1\<lparr>rd_reply := obj\<rparr> else r1)", auto simp: finish_item_def)

definition typed :: "redisReader \<Rightarrow> int \<Rightarrow> redisReader" where
  \<comment> \<open>the reader after the type byte\<close>
  "typed r ty = r\<lparr>rd_pos := rd_pos r + 1, rd_rstack := (rd_rstack r)[nat (rd_ridx r) := (cur_task r)\<lparr>tk_type := ty\<rparr>]\<rparr>"

lemma read_type:
  assumes "ready r h t rest" and "encode t = c # bs" and "reply_type_of c = Some ty"
  shows "processItem fn r h = process_typed fn (typed r ty) h"
proof -
  have b: "reader_bytes r = Inr (c # bs @ rest)" using assms by (simp add: ready_def)
  have "rd_pos r + length (c # bs @ rest) = rd_len r" using reader_bytes_length [OF b] .
  then have "sub64 (rd_len r) (rd_pos r) \<ge> 1" using assms(1) by (subst sub64_id) (auto simp: ready_def)
  then show ?thesis
    using assms b by (simp add: processItem_def ready_def readBytes_def set_cur_def cur_task_def typed_def)
qed

lemma typed_simps [simp]:
  "rd_ridx (typed r ty) = rd_ridx r" "rd_err (typed r ty) = rd_err r" "rd_reply (typed r ty) = rd_reply r"
  "rd_len (typed r ty) = rd_len r" "rd_pos (typed r ty) = rd_pos r + 1"
  by (simp_all add: typed_def)

lemma ready_typed:
  assumes r: "ready r h t rest" and e: "encode t = c # bs"
  shows "cur_task (typed r ty) = (cur_task r)\<lparr>tk_type := ty\<rparr>"
    and "parent_task (typed r ty) (cur_task (typed r ty)) = parent_task r (cur_task r)"
    and "reader_bytes (typed r ty) = Inr (bs @ rest)"
    and "slot_live h (cur_task (typed r ty)) (parent_task r (cur_task r))"
    and "length bs + length rest < 2 ^ 31"
proof -
  have k: "nat (rd_ridx r) < length (rd_rstack r)" using r by (auto simp: ready_def)
  then show c: "cur_task (typed r ty) = (cur_task r)\<lparr>tk_type := ty\<rparr>" by (simp add: typed_def cur_task_def)
  show "parent_task (typed r ty) (cur_task (typed r ty)) = parent_task r (cur_task r)"
    unfolding c using r by (cases "tk_parent (cur_task r)") (auto simp: parent_task_def typed_def ready_def)
  have b: "reader_bytes r = Inr (c # bs @ rest)" using r e by (simp add: ready_def)
  show "reader_bytes (typed r ty) = Inr (bs @ rest)"
    using reader_bytes_pos [OF b, of 1] reader_bytes_cong [of "typed r ty" "r\<lparr>rd_pos := rd_pos r + 1\<rparr>"] by (simp add: typed_def)
  show "slot_live h (cur_task (typed r ty)) (parent_task r (cur_task r))"
    using r unfolding c by (simp add: ready_def slot_live_def)
  show "length bs + length rest < 2 ^ 31" using reader_bytes_length [OF b] r by (simp add: ready_def)
qed

lemma heap_step_type [simp]: "heap_step (t\<lparr>tk_type := ty\<rparr>) par h h' obj = heap_step t par h h' obj"
  by (simp add: heap_step_def)

lemma parses_by_finish:
  assumes r: "ready r h t rest" and e: "encode t = c # bs" and c: "reply_type_of c = Some ty"
    and p: "process_typed (defaultFunctions mal) (typed r ty) h =
      finish_item (defaultFunctions mal) ((typed r ty)\<lparr>rd_pos := rd_pos (typed r ty) + length bs\<rparr>) h' obj"
    and h: "heap_step (cur_task (typed r ty)) (parent_task r (cur_task r)) h h' obj" "reply_at t (new_nodes h h') obj"
  shows "parses mal t r h"
proof -
  let ?st = "(rd_rstack r)[nat (rd_ridx r) := (cur_task r)\<lparr>tk_type := ty\<rparr>]"
  have h1: "heap_step (cur_task r) (parent_task r (cur_task r)) h h' obj"
    using h(1) by (simp add: ready_typed(1) [OF r e])
  have eq: "(if rd_ridx ((typed r ty)\<lparr>rd_pos := rd_pos (typed r ty) + length bs\<rparr>) = 0
      then (typed r ty)\<lparr>rd_pos := rd_pos (typed r ty) + length bs, rd_reply := obj\<rparr>
      else (typed r ty)\<lparr>rd_pos := rd_pos (typed r ty) + length bs\<rparr>) = after r ?st obj (length (encode t))"
    by (rule redisReader.equality) (simp_all add: after_def typed_def e)
  have "obj \<noteq> 0" using h(1) r by (auto simp: heap_step_def ready_def slot_live_def)
  moreover have "0 \<le> rd_ridx r" using r by (simp add: ready_def)
  ultimately have "process_items (defaultFunctions mal) r h =
      bindE (moveToNextTask (after r ?st obj (length (encode t)))) (\<lambda>r. process_items (defaultFunctions mal) r h')"
    using process_items_finish [of r "defaultFunctions mal" h, OF _ p [folded read_type [OF r e c]]] eq by simp
  moreover have "nat (rd_ridx r) < length (rd_rstack r)" using r by (auto simp: ready_def)
  then have "stack_kept (nat (rd_ridx r)) (rd_rstack r) ?st" by (simp add: stack_kept_def cur_task_def)
  ultimately show ?thesis using h1 h(2) unfolding parses_def by blast
qed

lemma readLine_line:
  assumes "reader_bytes r = Inr (line @ CRLF @ rest)" and "no_crlf line" and "length (line @ CRLF @ rest) < 2 ^ 31"
  shows "readLine r = Inr (Some (line @ CRLF @ rest, length line, r\<lparr>rd_pos := rd_pos r + (length line + 2)\<rparr>))"
  using assms seekNewline_line [of line rest] by (simp add: readLine_def)

lemma parses_line:
  assumes r: "ready r h t rest" and e: "encode t = c # line @ CRLF" and c: "reply_type_of c = Some ty"
    and ty: "ty \<in> {REDIS_REPLY_INTEGER, REDIS_REPLY_STATUS, REDIS_REPLY_ERROR}" and l: "no_crlf line"
    and o: "leaf_made t (cur_task (typed r ty)) (parent_task r (cur_task r)) h
      (line_object (defaultFunctions mal) (cur_task (typed r ty)) (parent_task r (cur_task r)) (line @ CRLF @ rest) (length line) h)"
  shows "parses mal t r h"
proof -
  note rt = ready_typed(1-4) [OF r e, of ty] ready_typed(5) [OF r e]
  have b: "reader_bytes (typed r ty) = Inr (line @ CRLF @ rest)" "length (line @ CRLF @ rest) < 2 ^ 31"
    using rt(3,5) by simp_all
  from o obtain h' where h': "line_object (defaultFunctions mal) (cur_task (typed r ty)) (parent_task r (cur_task r))
      (line @ CRLF @ rest) (length line) h = Inr (rh_next h, h')"
    "heap_step (cur_task (typed r ty)) (parent_task r (cur_task r)) h h' (rh_next h)"
    "reply_at t (new_nodes h h') (rh_next h)" by (auto simp: leaf_made_def)
  have tt: "tk_type (cur_task (typed r ty)) = ty" using rt(1) by simp
  have "process_typed (defaultFunctions mal) (typed r ty) h = processLineItem (defaultFunctions mal) (typed r ty) h"
    using ty tt by (auto simp: process_typed_def Let_def)
  also have "\<dots> = finish_item (defaultFunctions mal)
      ((typed r ty)\<lparr>rd_pos := rd_pos (typed r ty) + length (line @ CRLF)\<rparr>) h' (rh_next h)"
    using readLine_line [OF b(1) l b(2)] h'(1) rt(2) by (simp add: processLineItem_def Let_def)
  finally show ?thesis by (rule parses_by_finish [OF r e c _ h'(2,3)])
qed


subsection \<open>Replies without elements\<close>

lemma digits_no_crlf: "no_crlf (decimal n)" "no_crlf (signed_decimal i)" "no_crlf ''-1''"
  using decimal_no_cr by (auto intro!: no_crlfI simp: signed_decimal_def)

lemma parses_status:
  assumes "grants_all mal" "ready r h (RStatus s) rest" "no_crlf s"
  shows "parses mal (RStatus s) r h"
proof (rule parses_line [OF assms(2), of "CHR ''+''" s REDIS_REPLY_STATUS])
  note rt = ready_typed(1,4) [OF assms(2), of "CHR ''+''" "s @ CRLF" REDIS_REPLY_STATUS]
    ready_typed(5) [OF assms(2), of "CHR ''+''" "s @ CRLF"]
  show "leaf_made (RStatus s) (cur_task (typed r REDIS_REPLY_STATUS)) (parent_task r (cur_task r)) h
     (line_object (defaultFunctions mal) (cur_task (typed r REDIS_REPLY_STATUS)) (parent_task r (cur_task r))
        (s @ CRLF @ rest) (length s) h)"
    using createStringObject_step [OF assms(1), of h "cur_task (typed r REDIS_REPLY_STATUS)" "parent_task r (cur_task r)" s "RStatus s"] rt
    by (simp add: line_object_def defaultFunctions_def)
qed (simp_all add: reply_type_of_def assms(3))

lemma parses_error:
  assumes "grants_all mal" "ready r h (RError s) rest" "no_crlf s"
  shows "parses mal (RError s) r h"
proof (rule parses_line [OF assms(2), of "CHR ''-''" s REDIS_REPLY_ERROR])
  note rt = ready_typed(1,4) [OF assms(2), of "CHR ''-''" "s @ CRLF" REDIS_REPLY_ERROR]
    ready_typed(5) [OF assms(2), of "CHR ''-''" "s @ CRLF"]
  show "leaf_made (RError s) (cur_task (typed r REDIS_REPLY_ERROR)) (parent_task r (cur_task r)) h
     (line_object (defaultFunctions mal) (cur_task (typed r REDIS_REPLY_ERROR)) (parent_task r (cur_task r))
        (s @ CRLF @ rest) (length s) h)"
    using createStringObject_step [OF assms(1), of h "cur_task (typed r REDIS_REPLY_ERROR)" "parent_task r (cur_task r)" s "RError s"] rt
    by (simp add: line_object_def defaultFunctions_def)
qed (simp_all add: reply_type_of_def assms(3))

lemma parses_int:
  assumes "grants_all mal" "ready r h (RInt i) rest" "sendable (RInt i)"
  shows "parses mal (RInt i) r h"
proof (rule parses_line [OF assms(2), of "CHR '':''" "signed_decimal i" REDIS_REPLY_INTEGER])
  note rt = ready_typed(1,4) [OF assms(2), of "CHR '':''" "signed_decimal i @ CRLF" REDIS_REPLY_INTEGER]
  have "readLongLong (signed_decimal i @ CRLF @ rest) = Inr i" using readLongLong_signed assms(3) by simp
  then show "leaf_made (RInt i) (cur_task (typed r REDIS_REPLY_INTEGER)) (parent_task r (cur_task r)) h
     (line_object (defaultFunctions mal) (cur_task (typed r REDIS_REPLY_INTEGER)) (parent_task r (cur_task r))
        (signed_decimal i @ CRLF @ rest) (length (signed_decimal i)) h)"
    using createIntegerObject_step [OF assms(1), of h "cur_task (typed r REDIS_REPLY_INTEGER)" "parent_task r (cur_task r)" i] rt
    by (simp add: line_object_def defaultFunctions_def)
qed (simp_all add: reply_type_of_def digits_no_crlf)

lemma parses_bulk:
  assumes r: "ready r h t rest" and e: "encode t = CHR ''$'' # line @ CRLF @ bs"
    and line: "no_crlf line" "readLongLong (line @ CHR 0x0D # CHR 0x0A # bs @ rest) = Inr len"
    and b: "bulk_object (defaultFunctions mal) (typed r REDIS_REPLY_STRING) (cur_task (typed r REDIS_REPLY_STRING))
        (parent_task r (cur_task r)) (line @ CRLF @ bs @ rest) (length line) len h
      = Inr (Some ((rh_next h, h'), length (line @ CRLF @ bs)))"
    and h: "heap_step (cur_task (typed r REDIS_REPLY_STRING)) (parent_task r (cur_task r)) h h' (rh_next h)"
      "reply_at t (new_nodes h h') (rh_next h)"
  shows "parses mal t r h"
proof -
  let ?r = "typed r REDIS_REPLY_STRING"
  note rt = ready_typed(1-4) [OF r e, of REDIS_REPLY_STRING] ready_typed(5) [OF r e]
  have c: "reply_type_of (CHR ''$'') = Some REDIS_REPLY_STRING" by (simp add: reply_type_of_def)
  have bytes: "reader_bytes ?r = Inr (line @ CRLF @ bs @ rest)" using rt(3) by simp
  have sn: "seekNewline (line @ CRLF @ bs @ rest) = Some (length line)"
    using seekNewline_line [OF line(1), of "bs @ rest"] rt(5) by simp
  have "0 < rh_next h" using r by (simp add: ready_def slot_live_def)
  have "process_typed (defaultFunctions mal) ?r h = processBulkItem (defaultFunctions mal) ?r h"
    using rt(1) by (simp add: process_typed_def)
  also have "\<dots> = finish_item (defaultFunctions mal) (?r\<lparr>rd_pos := rd_pos ?r + length (line @ CRLF @ bs)\<rparr>) h' (rh_next h)"
    using bytes sn line(2) b rt(2) \<open>0 < rh_next h\<close> by (simp add: processBulkItem_def Let_def)
  finally show ?thesis by (rule parses_by_finish [OF r e c _ h])
qed

lemma parses_nil:
  assumes g: "grants_all mal" and r: "ready r h RNil rest"
  shows "parses mal RNil r h"
proof -
  let ?t = "cur_task (typed r REDIS_REPLY_STRING)" and ?par = "parent_task r (cur_task r)"
  have e: "encode RNil = CHR ''$'' # ''-1'' @ CRLF @ []" by simp
  from createNilObject_step [OF g ready_typed(4) [OF r e]] obtain h' where
    h': "createNilObject mal ?t ?par h = Inr (rh_next h, h')" "heap_step ?t ?par h h' (rh_next h)"
    "reply_at RNil (new_nodes h h') (rh_next h)" unfolding leaf_made_def by blast
  have "decimal 1 = ''1''" by (simp add: decimal.simps digit_char_def char_of_def bit_0)
  then have "readLongLong (''-1'' @ CHR 0x0D # CHR 0x0A # [] @ rest) = Inr (-1)"
    using readLongLong_signed [of "-1" "CHR 0x0A # rest"] by (simp add: signed_decimal_def)
  moreover have "bulk_object (defaultFunctions mal) (typed r REDIS_REPLY_STRING) ?t ?par (''-1'' @ CRLF @ [] @ rest)
      (length ''-1'') (-1) h = Inr (Some ((rh_next h, h'), length (''-1'' @ CRLF @ [])))"
    using h'(1) by (simp add: bulk_object_def nil_object_def defaultFunctions_def)
  ultimately show ?thesis by (rule parses_bulk [OF r e digits_no_crlf(3) _ _ h'(2,3)])
qed

lemma parses_string:
  assumes g: "grants_all mal" and r: "ready r h (RString s) rest"
  shows "parses mal (RString s) r h"
proof -
  let ?r = "typed r REDIS_REPLY_STRING" and ?t = "cur_task (typed r REDIS_REPLY_STRING)" and ?par = "parent_task r (cur_task r)"
  let ?d = "decimal (length s)"
  have e: "encode (RString s) = CHR ''$'' # ?d @ CRLF @ s @ CRLF" by simp
  note rt = ready_typed(1-4) [OF r e, of REDIS_REPLY_STRING] ready_typed(5) [OF r e]
  have l: "length s < 2 ^ 31" using rt(5) by simp
  have "leaf_made (RString s) ?t ?par h (createStringObject mal ?t ?par s h)"
    using rt(1) l by (intro createStringObject_step [OF g rt(4)]) simp_all
  then obtain h' where
    h': "createStringObject mal ?t ?par s h = Inr (rh_next h, h')" "heap_step ?t ?par h h' (rh_next h)"
    "reply_at (RString s) (new_nodes h h') (rh_next h)" unfolding leaf_made_def by blast
  let ?p = "?d @ CRLF @ (s @ CRLF) @ rest"
  have bytes: "reader_bytes ?r = Inr ?p" using rt(3) by simp
  have tot: "rd_pos ?r + length ?p = rd_len r" "rd_len r < 2 ^ 31" using reader_bytes_length [OF bytes] r by (auto simp: ready_def)
  have w: "wrap64 (length ?d + 2 + nat (int (length s)) + 2) = length (?d @ CRLF @ s @ CRLF)"
    "wrap64 (rd_pos ?r + length (?d @ CRLF @ s @ CRLF)) = rd_pos ?r + length (?d @ CRLF @ s @ CRLF)"
    using tot by simp_all
  have le: "rd_pos ?r + length (?d @ CRLF @ s @ CRLF) \<le> rd_len ?r" using tot by simp
  have pk: "peekn ?p (length ?d + 2) (nat (int (length s))) = Inr s"
    by (subst peekn_Inr) (simp_all add: drop_Cons')
  have "readLongLong (?d @ CHR 0x0D # CHR 0x0A # (s @ CRLF) @ rest) = Inr (int (length s))"
    using l by (intro readLongLong_decimal) simp
  moreover have "bulk_object (defaultFunctions mal) ?r ?t ?par ?p (length ?d) (int (length s)) h
     = Inr (Some ((rh_next h, h'), length (?d @ CRLF @ s @ CRLF)))"
    unfolding bulk_object_def Let_def w pk using h'(1) le by (simp add: defaultFunctions_def)
  ultimately show ?thesis by (rule parses_bulk [OF r e digits_no_crlf(1) _ _ h'(2,3)])
qed


subsection \<open>The elements of an array\<close>

lemma moveToNextTask_last:
  assumes "rd_ridx r = int (Suc k)" and "tk_type (rd_rstack r ! k) = REDIS_REPLY_ARRAY"
    and "tk_idx (rd_rstack r ! Suc k) = tk_elements (rd_rstack r ! k) - 1"
  shows "moveToNextTask r = moveToNextTask (r\<lparr>rd_ridx := int k\<rparr>)"
proof -
  have "nat (1 + int k) = Suc k" by simp
  then show ?thesis
    using assms by (cases "move_next (rd_rstack r) k") (auto simp: moveToNextTask_def Let_def)
qed

lemma moveToNextTask_sibling:
  assumes "rd_ridx r = int (Suc k)" and "tk_type (rd_rstack r ! k) = REDIS_REPLY_ARRAY"
    and "tk_idx (rd_rstack r ! Suc k) < tk_elements (rd_rstack r ! k) - 1"
  shows "moveToNextTask r = Inr (r\<lparr>rd_rstack := (rd_rstack r)[Suc k := (rd_rstack r ! Suc k)
      \<lparr>tk_type := -1, tk_elements := -1, tk_idx := tk_idx (rd_rstack r ! Suc k) + 1\<rparr>]\<rparr>)"
proof -
  have "nat (1 + int k) = Suc k" by simp
  then show ?thesis using assms by (auto simp: moveToNextTask_def Let_def intro: redisReader.equality)
qed

definition array_ready ::
  "redisReader \<Rightarrow> reply_heap \<Rightarrow> nat \<Rightarrow> nat \<Rightarrow> redisReply \<Rightarrow> nat list \<Rightarrow> nat \<Rightarrow> reply list \<Rightarrow> char list \<Rightarrow> bool" where
  \<comment> \<open>the reader is about to read element \<open>j\<close> of the array object \<open>a\<close>, whose task is at level \<open>k\<close>;
     \<open>us\<close> are the elements still to come\<close>
  "array_ready r h k a nd es j us rest \<longleftrightarrow>
     rd_err r = 0 \<and> rd_ridx r = int (Suc k) \<and> (\<forall>u\<in>set us. Suc k + depth u \<le> 8) \<and> Suc k \<le> 8 \<and>
     length (rd_rstack r) = 9 \<and>
     tk_type (rd_rstack r ! k) = REDIS_REPLY_ARRAY \<and> tk_obj (rd_rstack r ! k) = a \<and>
     tk_elements (rd_rstack r ! k) = int (j + length us) \<and>
     tk_type (rd_rstack r ! Suc k) = -1 \<and> tk_idx (rd_rstack r ! Suc k) = int j \<and> tk_parent (rd_rstack r ! Suc k) = Some k \<and>
     reader_bytes r = Inr (concat (map encode us) @ rest) \<and> rd_len r < 2 ^ 31 \<and>
     0 < rh_next h \<and> a < rh_next h \<and> rh_node h a = Some nd \<and> rp_type nd = REDIS_REPLY_ARRAY \<and>
     rp_element nd = Some es \<and> length es = j + length us"

lemma cur_suc: "rd_ridx r = int (Suc k) \<Longrightarrow> cur_task r = rd_rstack r ! Suc k"
  by (simp add: cur_task_def nat_add_distrib)

lemma array_ready_head:
  assumes "array_ready r h k a nd es j (u # us) rest"
  shows "ready r h u (concat (map encode us) @ rest)"
    and "parent_task r (cur_task r) = Some (rd_rstack r ! k)" and "tk_obj (rd_rstack r ! k) = a" and "tk_idx (cur_task r) = int j"
proof -
  have r: "rd_ridx r = int (Suc k)" using assms by (simp add: array_ready_def)
  note c = cur_suc [OF r]
  show p: "parent_task r (cur_task r) = Some (rd_rstack r ! k)" "tk_obj (rd_rstack r ! k) = a" "tk_idx (cur_task r) = int j"
    using assms by (simp_all add: c parent_task_def array_ready_def)
  have "slot_live h (cur_task r) (parent_task r (cur_task r))"
    unfolding slot_live_def p(1) using assms p(2,3) by (auto simp: array_ready_def)
  then show "ready r h u (concat (map encode us) @ rest)"
    using assms unfolding ready_def c by (auto simp: array_ready_def nat_add_distrib)
qed

lemma new_nodes_extend:
  assumes "rh_next h \<le> rh_next h1" "rh_next h1 \<le> rh_next h2" "a < rh_next h"
    and "\<forall>p<rh_next h1. p \<noteq> a \<longrightarrow> rh_node h2 p = rh_node h1 p"
  shows "new_nodes h h1 \<subseteq>\<^sub>m new_nodes h h2" and "new_nodes h1 h2 \<subseteq>\<^sub>m new_nodes h h2"
  using assms by (auto simp: new_nodes_def map_le_def restrict_map_def split: if_splits)

definition array_done ::
  "allocator \<Rightarrow> redisReader \<Rightarrow> reply_heap \<Rightarrow> nat \<Rightarrow> nat \<Rightarrow> redisReply \<Rightarrow> nat list \<Rightarrow> nat \<Rightarrow> reply list \<Rightarrow> bool" where
  "array_done mal r h k a nd es j us \<longleftrightarrow>
     (\<exists>st h' es'. length st = 9 \<and> (\<forall>i\<le>k. st ! i = rd_rstack r ! i) \<and>
        rh_next h \<le> rh_next h' \<and> (\<forall>p<rh_next h. p \<noteq> a \<longrightarrow> rh_node h' p = rh_node h p) \<and>
        rh_node h' a = Some (nd\<lparr>rp_element := Some es'\<rparr>) \<and> length es' = length es \<and> take j es' = take j es \<and>
        list_all2 (\<lambda>u e. reply_at u (new_nodes h h') e) us (drop j es') \<and>
        process_items (defaultFunctions mal) r h =
          bindE (moveToNextTask (r\<lparr>rd_pos := rd_pos r + length (concat (map encode us)), rd_rstack := st, rd_ridx := int k\<rparr>))
            (\<lambda>r. process_items (defaultFunctions mal) r h'))"

lemma list_all2_reply_mono:
  "list_all2 (\<lambda>u e. reply_at u m e) us es \<Longrightarrow> m \<subseteq>\<^sub>m m' \<Longrightarrow> list_all2 (\<lambda>u e. reply_at u m' e) us es"
  by (auto simp: list_all2_conv_all_nth intro: reply_at_mono)

lemma array_first:
  assumes ar: "array_ready r h k a nd es j (u # us) rest" and p: "parses mal u r h"
  shows "\<exists>st obj h'. length st = 9 \<and> (\<forall>i\<le>k. st ! i = rd_rstack r ! i) \<and>
      tk_idx (st ! Suc k) = int j \<and> tk_parent (st ! Suc k) = Some k \<and>
      rh_next h \<le> rh_next h' \<and> (\<forall>p<rh_next h. p \<noteq> a \<longrightarrow> rh_node h' p = rh_node h p) \<and>
      rh_node h' a = Some (nd\<lparr>rp_element := Some (es[j := obj])\<rparr>) \<and> reply_at u (new_nodes h h') obj \<and>
      process_items (defaultFunctions mal) r h =
        bindE (moveToNextTask (r\<lparr>rd_pos := rd_pos r + length (encode u), rd_rstack := st\<rparr>))
          (\<lambda>r. process_items (defaultFunctions mal) r h')"
proof -
  note hd = array_ready_head [OF ar]
  have k: "nat (rd_ridx r) = Suc k" "rd_ridx r \<noteq> 0" using ar by (simp_all add: array_ready_def nat_add_distrib)
  from p obtain st obj h' where s: "stack_kept (Suc k) (rd_rstack r) st"
    "heap_step (cur_task r) (Some (rd_rstack r ! k)) h h' obj" "reply_at u (new_nodes h h') obj"
    "process_items (defaultFunctions mal) r h =
      bindE (moveToNextTask (after r st obj (length (encode u)))) (\<lambda>r. process_items (defaultFunctions mal) r h')"
    unfolding parses_def k(1) hd(2) by blast
  have af: "after r st obj (length (encode u)) = r\<lparr>rd_pos := rd_pos r + length (encode u), rd_rstack := st\<rparr>"
    using k(2) by (intro redisReader.equality) (simp_all add: after_def)
  have "rh_node h' a = Some (nd\<lparr>rp_element := Some (es[j := obj])\<rparr>)"
    using s(2) hd(3,4) ar by (auto simp: heap_step_def array_ready_def)
  moreover have "rh_next h \<le> rh_next h'" "\<forall>p<rh_next h. p \<noteq> a \<longrightarrow> rh_node h' p = rh_node h p"
    using s(2) hd(3) by (auto simp: heap_step_def)
  moreover have "length st = 9" "\<forall>i\<le>k. st ! i = rd_rstack r ! i" "tk_idx (st ! Suc k) = int j" "tk_parent (st ! Suc k) = Some k"
    using s(1) ar by (auto simp: stack_kept_def array_ready_def less_Suc_eq_le)
  ultimately show ?thesis using s(3,4) unfolding af by blast
qed


lemma array_elements:
  assumes "\<And>u r h rest. u \<in> set us \<Longrightarrow> ready r h u rest \<Longrightarrow> parses mal u r h"
    and "us \<noteq> []" and "array_ready r h k a nd es j us rest"
  shows "array_done mal r h k a nd es j us"
  using assms
proof (induction us arbitrary: r h nd es j)
  case (Cons u us)
  note ar = Cons.prems(3)
  have "parses mal u r h" using Cons.prems(1) array_ready_head(1) [OF ar] by simp
  from array_first [OF ar this] obtain st obj h1 where
    st: "length st = 9" "\<forall>i\<le>k. st ! i = rd_rstack r ! i" "tk_idx (st ! Suc k) = int j" "tk_parent (st ! Suc k) = Some k"
    and h1: "rh_next h \<le> rh_next h1" "\<forall>p<rh_next h. p \<noteq> a \<longrightarrow> rh_node h1 p = rh_node h p"
      "rh_node h1 a = Some (nd\<lparr>rp_element := Some (es[j := obj])\<rparr>)" "reply_at u (new_nodes h h1) obj"
    and run: "process_items (defaultFunctions mal) r h =
      bindE (moveToNextTask (r\<lparr>rd_pos := rd_pos r + length (encode u), rd_rstack := st\<rparr>))
        (\<lambda>r. process_items (defaultFunctions mal) r h1)" by blast
  let ?r1 = "r\<lparr>rd_pos := rd_pos r + length (encode u), rd_rstack := st\<rparr>"
  have lv: "rd_ridx ?r1 = int (Suc k)" "tk_type (rd_rstack ?r1 ! k) = REDIS_REPLY_ARRAY"
    "tk_elements (rd_rstack ?r1 ! k) = int (j + length (u # us))" "Suc k \<le> 8" "length es = j + length (u # us)"
    using ar st by (auto simp: array_ready_def)
  show ?case
  proof (cases us)
    case Nil
    have "moveToNextTask ?r1 = moveToNextTask (?r1\<lparr>rd_ridx := int k\<rparr>)"
      using lv st Nil by (intro moveToNextTask_last) simp_all
    moreover have "drop j (es[j := obj]) = [obj]" using lv(5) Nil by (intro nth_equalityI) simp_all
    ultimately show ?thesis
      unfolding array_done_def
      using st h1 run Nil lv(5) by (intro exI [of _ st] exI [of _ h1] exI [of _ "es[j := obj]"]) simp
  next
    case (Cons v vs)
    let ?c = "(st ! Suc k)\<lparr>tk_type := -1, tk_elements := -1, tk_idx := int (Suc j)\<rparr>"
    define r2 where "r2 = ?r1\<lparr>rd_rstack := st[Suc k := ?c]\<rparr>"
    let ?nd = "nd\<lparr>rp_element := Some (es[j := obj])\<rparr>"
    have mv: "moveToNextTask ?r1 = Inr r2"
      using moveToNextTask_sibling [of ?r1 k] lv st Cons by (simp add: r2_def add.commute)
    have b: "reader_bytes r = Inr (encode u @ concat (map encode us) @ rest)" using ar by (simp add: array_ready_def)
    have "reader_bytes r2 = Inr (concat (map encode us) @ rest)"
      using reader_bytes_pos [OF b, of "length (encode u)"]
        reader_bytes_cong [of r2 "r\<lparr>rd_pos := rd_pos r + length (encode u)\<rparr>"] by (simp add: r2_def)
    then have ar2: "array_ready r2 h1 k a ?nd (es[j := obj]) (Suc j) us rest"
      using ar st h1 lv(4) by (auto simp: array_ready_def r2_def)
    have ne: "us \<noteq> []" using Cons by simp
    from Cons.IH [OF _ ne ar2] Cons.prems(1) have "array_done mal r2 h1 k a ?nd (es[j := obj]) (Suc j) us" by simp
    then obtain st2 h2 es2 where
      st2: "length st2 = 9" "\<forall>i\<le>k. st2 ! i = rd_rstack r2 ! i"
      and h2: "rh_next h1 \<le> rh_next h2" "\<forall>p<rh_next h1. p \<noteq> a \<longrightarrow> rh_node h2 p = rh_node h1 p"
        "rh_node h2 a = Some (?nd\<lparr>rp_element := Some es2\<rparr>)" "length es2 = length es" "take (Suc j) es2 = take (Suc j) (es[j := obj])"
        "list_all2 (\<lambda>u e. reply_at u (new_nodes h1 h2) e) us (drop (Suc j) es2)"
      and run2: "process_items (defaultFunctions mal) r2 h1 =
          bindE (moveToNextTask (r2\<lparr>rd_pos := rd_pos r2 + length (concat (map encode us)), rd_rstack := st2, rd_ridx := int k\<rparr>))
            (\<lambda>r. process_items (defaultFunctions mal) r h2)" by (auto simp: array_done_def)
    have a: "a < rh_next h" using ar by (simp add: array_ready_def)
    note ext = new_nodes_extend [OF h1(1) h2(1) a h2(2)]
    have j: "j < length es2" using h2(4) lv(5) by simp
    have "es2 ! j = obj" using arg_cong [OF h2(5), of "\<lambda>xs. xs ! j"] lv(5) by simp
    then have dj: "drop j es2 = obj # drop (Suc j) es2" using Cons_nth_drop_Suc [OF j] by simp
    have "list_all2 (\<lambda>u e. reply_at u (new_nodes h h2) e) (u # us) (drop j es2)"
      unfolding dj using reply_at_mono [OF h1(4) ext(1)] list_all2_reply_mono [OF h2(6) ext(2)] by simp
    moreover have "take j es2 = take j es"
      using arg_cong [OF h2(5), of "take j"] by (simp add: min_def)
    moreover have "\<forall>i\<le>k. st2 ! i = rd_rstack r ! i" using st2(2) st(2) by (simp add: r2_def)
    moreover have "process_items (defaultFunctions mal) r h =
        bindE (moveToNextTask (r\<lparr>rd_pos := rd_pos r + length (concat (map encode (u # us))), rd_rstack := st2, rd_ridx := int k\<rparr>))
          (\<lambda>r. process_items (defaultFunctions mal) r h2)"
      unfolding run mv bindE.simps(2) run2 by (simp add: r2_def add.assoc)
    moreover have "\<forall>p<rh_next h. p \<noteq> a \<longrightarrow> rh_node h2 p = rh_node h p" "rh_next h \<le> rh_next h2" using h1 h2 by auto
    ultimately show ?thesis
      unfolding array_done_def using st2(1) h2(3,4)
      by (intro exI [of _ st2] exI [of _ h2] exI [of _ es2]) simp
  qed
qed simp


subsection \<open>Arrays, and every reply\<close>

lemma length_encode: "0 < length (encode t)"
  by (cases t) auto

lemma length_encode_concat: "length ts \<le> length (concat (map encode ts))"
proof (induction ts)
  case (Cons t ts)
  then show ?case using length_encode [of t] by (simp only: list.map concat.simps length_append length_Cons)
qed simp

lemma array_head:
  assumes g: "grants_all mal" and r: "ready r h (RArray ts) rest"
  defines "r1 \<equiv> typed r REDIS_REPLY_ARRAY"
  defines "r2 \<equiv> r1\<lparr>rd_pos := rd_pos r1 + (length (decimal (length ts)) + 2)\<rparr>"
  shows "\<exists>h1. heap_step (cur_task r) (parent_task r (cur_task r)) h h1 (rh_next h) \<and> rh_next h1 = Suc (rh_next h) \<and>
      rh_node h1 (rh_next h) = Some ((blank_reply REDIS_REPLY_ARRAY)
        \<lparr>rp_element := (if length ts > 0 then Some (replicate (length ts) 0) else None), rp_elements := length ts\<rparr>) \<and>
      process_typed (defaultFunctions mal) r1 h =
        bindE (enter_array r2 (cur_task r1) (int (length ts)) (rh_next h)) (\<lambda>r'.
          Inr (REDIS_OK, (if rd_ridx r2 = 0 then r'\<lparr>rd_reply := rh_next h\<rparr> else r'), h1))"
proof -
  let ?n = "length ts" and ?t = "cur_task r1" and ?par = "parent_task r (cur_task r)"
  have e: "encode (RArray ts) = CHR ''*'' # decimal ?n @ CRLF @ concat (map encode ts)" by simp
  note rt = ready_typed(1-4) [OF r e, of REDIS_REPLY_ARRAY, folded r1_def] ready_typed(5) [OF r e]
  let ?p = "decimal ?n @ CRLF @ concat (map encode ts) @ rest"
  have n: "?n < 2 ^ 31" using rt(5) length_encode_concat [of ts] by simp
  have b: "reader_bytes r1 = Inr ?p" "length ?p < 2 ^ 31" using rt(3,5) by simp_all
  have rl: "readLine r1 = Inr (Some (?p, length (decimal ?n), r2))"
    using readLine_line [OF b(1) digits_no_crlf(1) b(2)] by (simp add: r2_def)
  have v: "readLongLong ?p = Inr (int ?n)" using readLongLong_decimal [of ?n] n by simp
  from createArrayObject_step [OF g rt(4) n] obtain h1 where
    h1: "createArrayObject mal ?t ?par (int ?n) h = Inr (rh_next h, h1)" "heap_step ?t ?par h h1 (rh_next h)"
    "rh_next h1 = Suc (rh_next h)" "rh_node h1 (rh_next h) = Some ((blank_reply REDIS_REPLY_ARRAY)
        \<lparr>rp_element := (if ?n > 0 then Some (replicate ?n 0) else None), rp_elements := ?n\<rparr>)" by blast
  have ao: "array_object (defaultFunctions mal) ?t ?par (int ?n) h = Inr (rh_next h, h1)"
    using h1(1) n by (simp add: array_object_def defaultFunctions_def to_int32_id)
  have ix: "rd_ridx r1 \<noteq> 8" using r by (simp add: ready_def r1_def)
  have "0 < rh_next h" using r by (simp add: ready_def slot_live_def)
  then have "process_typed (defaultFunctions mal) r1 h =
      bindE (enter_array r2 ?t (int ?n) (rh_next h)) (\<lambda>r'.
        Inr (REDIS_OK, (if rd_ridx r2 = 0 then r'\<lparr>rd_reply := rh_next h\<rparr> else r'), h1))"
    using ix rl v ao rt(1,2) by (simp add: process_typed_def processMultiBulkItem_def Let_def)
  moreover have "heap_step (cur_task r) ?par h h1 (rh_next h)" using h1(2) by (simp add: rt(1))
  ultimately show ?thesis using h1(3,4) by blast
qed

lemma parses_array:
  assumes g: "grants_all mal" and r: "ready r h (RArray ts) rest"
    and el: "\<And>u r h rest. u \<in> set ts \<Longrightarrow> ready r h u rest \<Longrightarrow> parses mal u r h"
  shows "parses mal (RArray ts) r h"
proof -
  define r1 where "r1 = typed r REDIS_REPLY_ARRAY"
  define r2 where "r2 = r1\<lparr>rd_pos := rd_pos r1 + (length (decimal (length ts)) + 2)\<rparr>"
  define a where "a = rh_next h"
  let ?n = "length ts" and ?par = "parent_task r (cur_task r)"
  let ?bs = "decimal ?n @ CRLF @ concat (map encode ts)"
  have e: "encode (RArray ts) = CHR ''*'' # ?bs" by simp
  have c: "reply_type_of (CHR ''*'') = Some REDIS_REPLY_ARRAY" by (simp add: reply_type_of_def)
  note rt = ready_typed(1-4) [OF r e, of REDIS_REPLY_ARRAY, folded r1_def] ready_typed(5) [OF r e]
  have a0: "a \<noteq> 0" using r by (simp add: a_def ready_def slot_live_def)
  from array_head [OF g r, folded r1_def, folded r2_def a_def] obtain h1 where
    h1: "heap_step (cur_task r) ?par h h1 a" "rh_next h1 = Suc a"
      "rh_node h1 a = Some ((blank_reply REDIS_REPLY_ARRAY)
        \<lparr>rp_element := (if length ts > 0 then Some (replicate (length ts) 0) else None), rp_elements := length ts\<rparr>)"
    and run: "process_typed (defaultFunctions mal) r1 h =
      bindE (enter_array r2 (cur_task r1) (int ?n) a) (\<lambda>r'.
          Inr (REDIS_OK, (if rd_ridx r2 = 0 then r'\<lparr>rd_reply := a\<rparr> else r'), h1))" by blast
  show ?thesis
  proof (cases "ts = []")
    case True
    then have "process_typed (defaultFunctions mal) r1 h = finish_item (defaultFunctions mal) r2 h1 a"
      unfolding run using enter_none [OF a0, of r2] by (simp add: enter_array_def)
    also have "r2 = r1\<lparr>rd_pos := rd_pos r1 + length ?bs\<rparr>" using True by (simp add: r2_def)
    finally have p: "process_typed (defaultFunctions mal) (typed r REDIS_REPLY_ARRAY) h =
        finish_item (defaultFunctions mal) ((typed r REDIS_REPLY_ARRAY)\<lparr>rd_pos := rd_pos (typed r REDIS_REPLY_ARRAY) + length ?bs\<rparr>) h1 a"
      by (simp add: r1_def)
    have "reply_at (RArray ts) (new_nodes h h1) a"
      using True h1(2,3) new_nodes_first [of h1 h] by (simp add: blank_reply_def a_def)
    moreover have "heap_step (cur_task (typed r REDIS_REPLY_ARRAY)) ?par h h1 a"
      using h1(1) rt(1) by (simp add: r1_def)
    ultimately show ?thesis using parses_by_finish [OF r e c p] by simp
  next
    case False
    define k where "k = nat (rd_ridx r)"
    have k: "rd_ridx r = int k" "k < 8" "k < length (rd_rstack r)" "length (rd_rstack r) = 9"
      using r by (auto simp: ready_def k_def)
    let ?t = "(cur_task r)\<lparr>tk_type := REDIS_REPLY_ARRAY, tk_elements := int ?n, tk_obj := a\<rparr>"
    let ?new = "\<lparr>tk_type = -1, tk_elements = -1, tk_idx = 0, tk_obj = 0, tk_parent = Some k\<rparr>"
    let ?nd = "(blank_reply REDIS_REPLY_ARRAY)\<lparr>rp_element := Some (replicate ?n 0), rp_elements := ?n\<rparr>"
    define r3 where "r3 = r2\<lparr>rd_ridx := int (Suc k), rd_rstack := (rd_rstack r)[k := ?t, Suc k := ?new],
        rd_reply := (if rd_ridx r = 0 then a else rd_reply r)\<rparr>"
    have n31: "?n < 2 ^ 31" using rt(5) length_encode_concat [of ts] by simp
    have r2s: "rd_ridx r2 = int k" "rd_rstack r2 = (rd_rstack r)[k := (cur_task r)\<lparr>tk_type := REDIS_REPLY_ARRAY\<rparr>]"
      by (simp_all add: r2_def r1_def k) (simp add: typed_def k_def)
    have "processItem (defaultFunctions mal) r h = Inr (REDIS_OK, r3, h1)"
      unfolding read_type [OF r e c] r1_def [symmetric] run
      using False n31 k(1) r2s rt(1)
      by (auto simp: enter_array_def push_task_def set_cur_def to_int32_id r3_def nat_add_distrib r2_def r1_def
          intro!: redisReader.equality)
    then have step: "process_items (defaultFunctions mal) r h = process_items (defaultFunctions mal) r3 h1"
      using k(1) by (subst process_items.simps) simp
    have b: "reader_bytes r1 = Inr (decimal ?n @ CRLF @ concat (map encode ts) @ rest)" using rt(3) by simp
    have "reader_bytes r3 = Inr (concat (map encode ts) @ rest)"
      using reader_bytes_pos [OF b, of "length (decimal ?n) + 2"]
        reader_bytes_cong [of r3 "r1\<lparr>rd_pos := rd_pos r1 + (length (decimal ?n) + 2)\<rparr>"] by (simp add: r3_def r2_def)
    moreover have "\<forall>u\<in>set ts. Suc k + depth u \<le> 8"
    proof
      fix u assume "u \<in> set ts"
      then have "depth u \<le> foldr max (map depth ts) 0" by (induction ts) auto
      then show "Suc k + depth u \<le> 8" using r k(1) by (simp add: ready_def)
    qed
    ultimately have ar: "array_ready r3 h1 k a ?nd (replicate ?n 0) 0 ts rest"
      using r k h1(2,3) False a0 by (auto simp: array_ready_def r3_def r2_def r1_def ready_def blank_reply_def)
    have "array_done mal r3 h1 k a ?nd (replicate ?n 0) 0 ts"
      by (rule array_elements [OF _ False ar]) (rule el)
    then obtain st h2 es2 where
      st: "length st = 9" "\<forall>i\<le>k. st ! i = rd_rstack r3 ! i"
      and h2: "rh_next h1 \<le> rh_next h2" "\<forall>p<rh_next h1. p \<noteq> a \<longrightarrow> rh_node h2 p = rh_node h1 p"
        "rh_node h2 a = Some (?nd\<lparr>rp_element := Some es2\<rparr>)" "length es2 = ?n"
        "list_all2 (\<lambda>u e. reply_at u (new_nodes h1 h2) e) ts es2"
      and run3: "process_items (defaultFunctions mal) r3 h1 =
          bindE (moveToNextTask (r3\<lparr>rd_pos := rd_pos r3 + length (concat (map encode ts)), rd_rstack := st, rd_ridx := int k\<rparr>))
            (\<lambda>r. process_items (defaultFunctions mal) r h2)" by (auto simp: array_done_def)
    have af: "r3\<lparr>rd_pos := rd_pos r3 + length (concat (map encode ts)), rd_rstack := st, rd_ridx := int k\<rparr>
        = after r st a (length (encode (RArray ts)))"
      by (intro redisReader.equality) (simp_all add: r3_def after_def r2_def r1_def k typed_def)
    have "stack_kept k (rd_rstack r) st"
      using st k by (auto simp: stack_kept_def r3_def cur_task_def)
    moreover have "new_nodes h1 h2 \<subseteq>\<^sub>m new_nodes h h2"
      using h1(2) by (auto simp: new_nodes_def map_le_def restrict_map_def a_def split: if_splits)
    then have "list_all2 (\<lambda>f e. f e) (map (\<lambda>u. reply_at u (new_nodes h h2)) ts) es2"
      using list_all2_reply_mono [OF h2(5)] by (simp add: list_all2_map1)
    then have "reply_at (RArray ts) (new_nodes h h2) a"
      using h2(1,3) h1(2) by (simp add: new_nodes_def a_def blank_reply_def)
    moreover have "heap_step (cur_task r) ?par h h2 a"
      using h1(1,2) h2(1,2) r unfolding heap_step_def ready_def slot_live_def by (auto simp: a_def)
    ultimately show ?thesis unfolding parses_def step run3 af unfolding k_def by blast
  qed
qed

lemma parses_reply: "grants_all mal \<Longrightarrow> sendable t \<Longrightarrow> ready r h t rest \<Longrightarrow> parses mal t r h"
proof (induction t arbitrary: r h rest)
  case (RArray ts)
  then show ?case by (intro parses_array) (auto simp: list_all_iff)
qed (auto intro: parses_status parses_error parses_int parses_string parses_nil)


subsection \<open>From the buffer to the reply\<close>

definition idle :: "redisReader \<Rightarrow> bool" where
  \<comment> \<open>no error, no reply in progress\<close>
  "idle r \<longleftrightarrow> rd_err r = 0 \<and> rd_ridx r = -1 \<and> rd_reply r = 0 \<and> length (rd_rstack r) = 9 \<and> buffer_ok r"

lemma GetReply_encoded:
  assumes g: "grants_all mal" and t: "sendable t" "depth t \<le> 8" and r: "idle r"
    and b: "reader_bytes r = Inr (encode t @ rest)" and h: "0 < rh_next h"
  shows "\<exists>p r' h'. redisReaderGetReply (defaultFunctions mal) r h = Inr (REDIS_OK, p, r', h') \<and>
    reply_at t (new_nodes h h') p \<and> rh_next h < rh_next h' \<and> (\<forall>q<rh_next h. rh_node h' q = rh_node h q) \<and>
    idle r' \<and> reader_bytes r' = Inr rest"
proof -
  let ?r = "start_task r" and ?fn = "defaultFunctions mal"
  have e: "rd_err r = 0" "rd_ridx r = -1" "length (rd_rstack r) = 9" "buffer_ok r" using r by (auto simp: idle_def)
  have bytes: "reader_bytes ?r = Inr (encode t @ rest)"
    using b by (subst reader_bytes_cong [of _ r]) (simp_all add: start_task_def)
  have c: "cur_task ?r = \<lparr>tk_type = -1, tk_elements = -1, tk_idx = -1, tk_obj = 0, tk_parent = None\<rparr>" "rd_ridx ?r = 0"
    "length (rd_rstack ?r) = 9" "parent_task ?r (cur_task ?r) = None" "rd_err ?r = 0" "rd_len ?r = rd_len r" "rd_buf ?r = rd_buf r"
    "rd_pos ?r = rd_pos r"
    using e by (simp_all add: start_task_def cur_task_def parent_task_def)
  have "ready ?r h t rest"
    using t(2) bytes h e(4) unfolding ready_def c by (auto simp: slot_live_def buffer_ok_def parent_task_def)
  from parses_reply [OF g t(1) this] obtain st obj h' where
    st: "stack_kept 0 (rd_rstack ?r) st" and hs: "heap_step (cur_task ?r) None h h' obj" "reply_at t (new_nodes h h') obj"
    and run: "process_items ?fn ?r h =
      bindE (moveToNextTask (after ?r st obj (length (encode t)))) (\<lambda>r. process_items ?fn r h')"
    unfolding parses_def c(2,4) by auto
  define r1 where "r1 = (after ?r st obj (length (encode t)))\<lparr>rd_ridx := -1\<rparr>"
  have "moveToNextTask (after ?r st obj (length (encode t))) = Inr r1"
    using c(2) by (auto simp: moveToNextTask_def after_def r1_def intro!: redisReader.equality)
  then have pi: "process_items ?fn ?r h = Inr (r1, h')"
    unfolding run by (simp add: process_items.simps [of _ r1]) (simp add: r1_def)
  have r1: "rd_buf r1 = rd_buf r" "rd_len r1 = rd_len r" "rd_pos r1 = rd_pos r + length (encode t)" "rd_reply r1 = obj"
    "rd_ridx r1 = -1" "rd_err r1 = 0" "rd_rstack r1 = st" "length st = 9"
    using c st by (simp_all add: r1_def after_def stack_kept_def)
  have "reader_bytes r1 = Inr rest"
    using reader_bytes_pos [OF b, of "length (encode t)"]
      reader_bytes_cong [of r1 "r\<lparr>rd_pos := rd_pos r + length (encode t)\<rparr>"] r1 by simp
  moreover have "buffer_ok r1"
    using e(4) reader_bytes_length [OF b] by (auto simp: buffer_ok_def r1)
  ultimately obtain r2 where r2: "discard_consumed r1 = Inr r2" "buffer_ok r2" "reader_bytes r2 = Inr rest"
    "rd_reply r2 = obj" "rd_ridx r2 = -1" "rd_rstack r2 = st" "rd_err r2 = 0"
    using discard_consumed_bytes [of r1 rest] r1 by auto
  have ln: "rd_len r \<noteq> 0" using reader_bytes_length [OF b] length_encode [of t] by (cases "encode t") auto
  have gr: "redisReaderGetReply ?fn r h = Inr (REDIS_OK, obj, r2\<lparr>rd_reply := 0\<rparr>, h')"
    using e ln pi r1 r2 by (simp add: redisReaderGetReply_def)
  have "buffer_ok (r2\<lparr>rd_reply := 0\<rparr>)" using r2(2) by (simp add: buffer_ok_def)
  moreover have "reader_bytes (r2\<lparr>rd_reply := 0\<rparr>) = Inr rest"
    using r2(3) reader_bytes_cong [of "r2\<lparr>rd_reply := 0\<rparr>" r2] by simp
  ultimately show ?thesis
    using gr hs r2 r1(8) by (intro exI [of _ obj] exI [of _ "r2\<lparr>rd_reply := 0\<rparr>"] exI [of _ h'])
      (auto simp: idle_def heap_step_def)
qed

fun get_replies :: "'h redisReplyObjectFunctions \<Rightarrow> nat \<Rightarrow> redisReader \<Rightarrow> 'h \<Rightarrow> (nat list \<times> redisReader \<times> 'h) res" where
  \<comment> \<open>\<open>n\<close> calls of \<open>redisReaderGetReply\<close>, the objects they emit\<close>
  "get_replies fn 0 r h = Inr ([], r, h)"
| "get_replies fn (Suc n) r h =
     bindE (redisReaderGetReply fn r h) (\<lambda>(st, p, r, h).
     bindE (get_replies fn n r h) (\<lambda>(ps, r, h). Inr (p # ps, r, h)))"

lemma get_replies_encoded:
  assumes g: "grants_all mal"
  shows "list_all (\<lambda>t. sendable t \<and> depth t \<le> 8) ts \<Longrightarrow> idle r \<Longrightarrow>
    reader_bytes r = Inr (concat (map encode ts) @ rest) \<Longrightarrow> 0 < rh_next h \<Longrightarrow>
    \<exists>ps r' h'. get_replies (defaultFunctions mal) (length ts) r h = Inr (ps, r', h') \<and>
      list_all2 (\<lambda>t p. reply_at t (rh_node h') p) ts ps \<and> idle r' \<and> reader_bytes r' = Inr rest \<and>
      rh_next h \<le> rh_next h' \<and> (\<forall>q<rh_next h. rh_node h' q = rh_node h q)"
proof (induction ts arbitrary: r h)
  case (Cons t ts)
  from GetReply_encoded [OF g, of t r "concat (map encode ts) @ rest" h] Cons.prems obtain p r1 h1 where
    p: "redisReaderGetReply (defaultFunctions mal) r h = Inr (REDIS_OK, p, r1, h1)" "reply_at t (new_nodes h h1) p"
    "rh_next h < rh_next h1" "\<forall>q<rh_next h. rh_node h1 q = rh_node h q" "idle r1"
    "reader_bytes r1 = Inr (concat (map encode ts) @ rest)" by auto
  from Cons.IH [OF _ p(5,6), of h1] Cons.prems p(3) obtain ps r2 h2 where
    ps: "get_replies (defaultFunctions mal) (length ts) r1 h1 = Inr (ps, r2, h2)"
    "list_all2 (\<lambda>t p. reply_at t (rh_node h2) p) ts ps" "idle r2" "reader_bytes r2 = Inr rest"
    "rh_next h1 \<le> rh_next h2" "\<forall>q<rh_next h1. rh_node h2 q = rh_node h1 q" by auto
  have "new_nodes h h1 \<subseteq>\<^sub>m rh_node h2"
    using ps(6) by (auto simp: new_nodes_def map_le_def restrict_map_def split: if_splits)
  with p(2) have "reply_at t (rh_node h2) p" by (rule reply_at_mono)
  with p ps show ?case by simp
qed simp

end
