(* ===== verification/ReaderSpec.thy ===== *)
theory ReaderSpec
  imports ReaderIncr Resp
begin

section \<open>What the reply reader promises\<close>

text \<open>
  A client of the reader feeds it what it reads from the socket, asks for replies and frees the
  ones it was given. The steps such a client takes, the states they reach, and the properties of
  the reader and of its reply objects.
\<close>

subsection \<open>A client of the reader\<close>

record client =
  cl_reader :: redisReader
  cl_heap :: reply_heap
  cl_owned :: "nat list"

inductive client_step :: "allocator \<Rightarrow> client \<Rightarrow> client \<Rightarrow> bool" for mal where
  feed: "redisReaderFeed mal (defaultFunctions mal) (cl_reader c) (cl_heap c) (Some buf) (length buf) = Inr (st, r, h) \<Longrightarrow>
    rd_len (cl_reader c) + length buf < 2 ^ 31 \<Longrightarrow>
    client_step mal c (c\<lparr>cl_reader := r, cl_heap := h\<rparr>)"
| get: "redisReaderGetReply (defaultFunctions mal) (cl_reader c) (cl_heap c) = Inr (st, p, r, h) \<Longrightarrow>
    counts_ok (cl_reader c) \<Longrightarrow>
    client_step mal c (c\<lparr>cl_reader := r, cl_heap := h, cl_owned := (if p = 0 then cl_owned c else p # cl_owned c)\<rparr>)"
| free: "freeReplyObject p (cl_heap c) = Inr h \<Longrightarrow> p \<in> set (cl_owned c) \<Longrightarrow> rd_ridx (cl_reader c) \<le> 0 \<Longrightarrow>
    client_step mal c (c\<lparr>cl_heap := h, cl_owned := remove1 p (cl_owned c)\<rparr>)"

inductive_cases client_stepE: "client_step mal c c'"

definition client_start :: "redisReader \<Rightarrow> client" where
  "client_start r = \<lparr>cl_reader = r, cl_heap = empty_heap, cl_owned = []\<rparr>"

definition client_inv :: "client \<Rightarrow> bool" where
  \<comment> \<open>the replies handed out are distinct roots of the store, none of them the reader's own\<close>
  "client_inv c \<longleftrightarrow> rh_inv (cl_heap c) \<and> reader_inv rh_arr rh_root (cl_reader c) (cl_heap c) \<and> distinct (cl_owned c) \<and>
     (\<forall>p\<in>set (cl_owned c). p \<noteq> 0 \<and> rh_root (cl_heap c) p \<and> p \<noteq> rd_reply (cl_reader c))"

lemma free_default [simp]: "freeObject (defaultFunctions mal) = Some freeReplyObject"
  by (simp add: defaultFunctions_def)

lemma rh_inv_root_nonzero: "rh_inv h \<Longrightarrow> rh_root h p \<Longrightarrow> 0 < p"
  by (auto simp: rh_inv_def rh_root_def)

lemma client_get_reply:
  assumes "client_inv c" and "counts_ok (cl_reader c)"
  shows "\<exists>st p r h. redisReaderGetReply (defaultFunctions mal) (cl_reader c) (cl_heap c) = Inr (st, p, r, h) \<and>
    (rd_err r = 0 \<longleftrightarrow> st = REDIS_OK) \<and>
    client_inv (c\<lparr>cl_reader := r, cl_heap := h, cl_owned := (if p = 0 then cl_owned c else p # cl_owned c)\<rparr>)"
proof -
  from assms default_replies.redisReaderGetReply_ok [of "cl_reader c" "cl_heap c" mal] obtain st p r h where
    run: "redisReaderGetReply (defaultFunctions mal) (cl_reader c) (cl_heap c) = Inr (st, p, r, h)" "rh_inv h"
    "reader_inv rh_arr rh_root r h" "rd_err r = 0 \<longleftrightarrow> st = REDIS_OK" "p \<noteq> 0 \<longrightarrow> owned (defaultFunctions mal) rh_root r h p"
    "\<forall>q. owned (defaultFunctions mal) rh_root (cl_reader c) (cl_heap c) q \<longrightarrow> owned (defaultFunctions mal) rh_root r h q \<and> q \<noteq> p"
    by (auto simp: client_inv_def)
  moreover have "\<forall>q\<in>set (cl_owned c). owned (defaultFunctions mal) rh_root (cl_reader c) (cl_heap c) q"
    using assms(1) by (auto simp: client_inv_def owned_def)
  ultimately have "client_inv (c\<lparr>cl_reader := r, cl_heap := h, cl_owned := (if p = 0 then cl_owned c else p # cl_owned c)\<rparr>)"
    using assms(1) by (auto simp: client_inv_def owned_def)
  with run show ?thesis by blast
qed

lemma client_feed:
  assumes c: "client_inv c" and g: "grants_all mal" and n: "rd_len (cl_reader c) + length buf < 2 ^ 31"
  shows "\<exists>st r. redisReaderFeed mal (defaultFunctions mal) (cl_reader c) (cl_heap c) (Some buf) (length buf) = Inr (st, r, cl_heap c) \<and>
    client_inv (c\<lparr>cl_reader := r\<rparr>)"
proof -
  from default_replies.redisReaderFeed_ok [OF _ g order_refl n, of "cl_heap c" mal] c obtain st r where
    "redisReaderFeed mal (defaultFunctions mal) (cl_reader c) (cl_heap c) (Some buf) (length buf) = Inr (st, r, cl_heap c)"
    "reader_inv rh_arr rh_root r (cl_heap c)" "rd_reply r = rd_reply (cl_reader c)"
    by (auto simp: client_inv_def)
  then show ?thesis using c by (auto simp: client_inv_def)
qed

lemma client_free:
  assumes c: "client_inv c" and p: "p \<in> set (cl_owned c)" and i: "rd_ridx (cl_reader c) \<le> 0"
  shows "\<exists>h. freeReplyObject p (cl_heap c) = Inr h \<and> client_inv (c\<lparr>cl_heap := h, cl_owned := remove1 p (cl_owned c)\<rparr>)"
proof -
  from c p have h: "rh_inv (cl_heap c)" "rh_root (cl_heap c) p" by (auto simp: client_inv_def)
  from freeReplyObject_ok [OF this] obtain h' where
    h': "freeReplyObject p (cl_heap c) = Inr h'" "rh_inv h'" "\<forall>q. rh_root (cl_heap c) q \<and> q \<noteq> p \<longrightarrow> rh_root h' q" by blast
  then have "reader_inv rh_arr rh_root (cl_reader c) h'"
    using c p i by (auto simp: client_inv_def reader_inv_def stack_ok_def)
  with c h' show ?thesis by (auto simp: client_inv_def)
qed

lemma client_step_inv: "client_step mal c c' \<Longrightarrow> grants_all mal \<Longrightarrow> client_inv c \<Longrightarrow> client_inv c'"
proof (induction rule: client_step.induct)
  case (feed c buf st r h)
  with client_feed [OF feed.prems(2,1) feed.hyps(2)] show ?case by auto
next
  case (get c st p r h)
  with client_get_reply [OF get.prems(2) get.hyps(2), of mal] show ?case by auto
next
  case (free p c h)
  with client_free [OF free.prems(2) free.hyps(2,3)] show ?case by auto
qed

lemma empty_heap_inv: "rh_inv empty_heap"
  by (simp add: rh_inv_def empty_heap_def rh_slots_def)

lemma client_reachable_inv:
  assumes "redisReaderCreate mal = Inr r" and "grants_all mal" and "(client_step mal)\<^sup>*\<^sup>* (client_start r) c"
  shows "client_inv c"
  using assms(3)
proof (induction rule: rtranclp_induct)
  case base
  have "reader_inv rh_arr rh_root r empty_heap" using assms(1) redisReaderCreate_inv [of mal r rh_arr rh_root empty_heap] by (simp add: redisReaderCreate_def)
  then show ?case using empty_heap_inv by (simp add: client_inv_def client_start_def)
qed (use client_step_inv assms(2) in blast)

lemma redisReaderCreate_total:
  assumes g: "grants_all mal"
  shows "\<exists>r. redisReaderCreate mal = Inr r"
proof -
  obtain b where "sdsempty mal = Inr b" using res_ok_total [OF sdsempty_ok g] by blast
  then show ?thesis
    using grants_not_None [OF g, of 624] by (auto simp: redisReaderCreate_def redisReaderCreateWithFunctions_def malloc_def)
qed

lemma redisReaderCreate_idle:
  assumes "redisReaderCreate mal = Inr r"
  shows "idle r \<and> reader_bytes r = Inr [] \<and> rd_len r = 0 \<and> stack_index_ok r"
proof -
  from assms have c: "redisReaderCreateWithFunctions mal = Inr r" by (simp add: redisReaderCreate_def)
  note inv = redisReaderCreate_inv [OF c, of "\<lambda>_ _ _. True" "\<lambda>_ _. True" "()"]
  from c have "rd_ridx r = -1" "rd_len r = 0" by (auto simp: redisReaderCreateWithFunctions_def bindE_Inr_iff)
  with inv show ?thesis by (auto simp: idle_def reader_inv_def stack_index_ok_def)
qed

lemma feed_idle:
  assumes "redisReaderCreate mal = Inr r" and "grants_all mal" and "length b < 2 ^ 31"
  shows "\<exists>r1. redisReaderFeed mal fn r h (Some b) (length b) = Inr (REDIS_OK, r1, h) \<and> idle r1 \<and> reader_bytes r1 = Inr b \<and>
    rd_len r1 = length b"
proof -
  from redisReaderCreate_idle [OF assms(1)] have i: "idle r" "reader_bytes r = Inr []" "rd_len r = 0" by auto
  then have "rd_err r = 0" "buffer_ok r" "rd_len r + length b < 2 ^ 31" using assms(3) by (auto simp: idle_def)
  from redisReaderFeed_bytes [OF this(1,2) assms(2) order_refl this(3) i(2), of fn h] i show ?thesis by (auto simp: idle_def)
qed

lemma type_byte_step:
  assumes "reader_bytes r = Inr (c # bs)" and "rd_len r < 2 ^ 31" and "tk_type (cur_task r) < 0" and "reply_type_of c = Some ty"
  shows "processItem fn r h = process_typed fn (typed r ty) h" and "reader_bytes (typed r ty) = Inr bs"
proof -
  have "rd_pos r + length (c # bs) = rd_len r" using reader_bytes_length [OF assms(1)] .
  then have "sub64 (rd_len r) (rd_pos r) \<ge> 1" using assms(2) by (subst sub64_id) auto
  then show "processItem fn r h = process_typed fn (typed r ty) h"
    using assms by (simp add: processItem_def readBytes_def set_cur_def cur_task_def typed_def)
  show "reader_bytes (typed r ty) = Inr bs"
    using reader_bytes_pos [OF assms(1), of 1] reader_bytes_cong [of "typed r ty" "r\<lparr>rd_pos := rd_pos r + 1\<rparr>"] by (simp add: typed_def)
qed

subsection \<open>Properties\<close>

text \<open>
  C24. Memory safety of the reader and its replies, on input without announced numbers of elements that do not fit an
  \<open>int\<close>: in every state that a client of the reader reaches by feeding input, asking for replies and freeing each reply
  once, asking for the next reply never leaves a buffer, an array or the task stack, never touches a reply that was freed
  and never fails an assertion, and every reply the client was given can be freed. Memory is granted, less than 2 GB are in
  the buffer after each feed, the client asks only while all counts in the buffer are below \<open>2 ^ 31\<close>, as the
  code is not safe otherwise (\<open>multibulk_count_narrowed\<close>), and it frees replies while the reader is not inside an array.
\<close>

theorem reader_client_safe:
  assumes "grants_all mal" and "redisReaderCreate mal = Inr r" and "(client_step mal)\<^sup>*\<^sup>* (client_start r) c"
    and "counts_ok (cl_reader c)"
  shows "(\<exists>st p r h. redisReaderGetReply (defaultFunctions mal) (cl_reader c) (cl_heap c) = Inr (st, p, r, h) \<and>
      (rd_err r = 0 \<longleftrightarrow> st = REDIS_OK) \<and> (p \<noteq> 0 \<longrightarrow> rh_root h p \<and> p \<notin> set (cl_owned c))) \<and>
    distinct (cl_owned c) \<and>
    (rd_ridx (cl_reader c) \<le> 0 \<longrightarrow> (\<forall>p\<in>set (cl_owned c). \<exists>h. freeReplyObject p (cl_heap c) = Inr h))"
proof -
  note inv = client_reachable_inv [OF assms(2,1,3)]
  from client_get_reply [OF inv assms(4), of mal] obtain st p r h where
    run: "redisReaderGetReply (defaultFunctions mal) (cl_reader c) (cl_heap c) = Inr (st, p, r, h)" "rd_err r = 0 \<longleftrightarrow> st = REDIS_OK"
    and i: "client_inv (c\<lparr>cl_reader := r, cl_heap := h, cl_owned := (if p = 0 then cl_owned c else p # cl_owned c)\<rparr>)" by blast
  from i have "p \<noteq> 0 \<longrightarrow> rh_root h p \<and> p \<notin> set (cl_owned c)" by (auto simp: client_inv_def)
  moreover have "distinct (cl_owned c)" using inv by (simp add: client_inv_def)
  ultimately show ?thesis using run client_free [OF inv] by blast
qed

theorem reader_client_safe_witness:
  "\<exists>r c st p r' h. redisReaderCreate zero_alloc = Inr r \<and> (client_step zero_alloc)\<^sup>*\<^sup>* (client_start r) c \<and>
     reader_bytes (cl_reader c) = Inr ''$5'' \<and>
     redisReaderGetReply (defaultFunctions zero_alloc) (cl_reader c) (cl_heap c) = Inr (st, p, r', h)"
proof -
  let ?fn = "defaultFunctions zero_alloc"
  from redisReaderCreate_total [OF grants_all_zero_alloc] obtain r where r: "redisReaderCreate zero_alloc = Inr r" ..
  from feed_idle [OF r grants_all_zero_alloc, of "''$5''" ?fn empty_heap] obtain r1 where
    f: "redisReaderFeed zero_alloc ?fn r empty_heap (Some ''$5'') (length ''$5'') = Inr (REDIS_OK, r1, empty_heap)"
    "idle r1" "reader_bytes r1 = Inr ''$5''" by auto
  let ?c = "(client_start r)\<lparr>cl_reader := r1, cl_heap := empty_heap\<rparr>"
  have "client_step zero_alloc (client_start r) ?c"
    by (rule client_step.feed [where buf = "''$5''"]) (use f(1) redisReaderCreate_idle [OF r] in \<open>simp_all add: client_start_def\<close>)
  then have s: "(client_step zero_alloc)\<^sup>*\<^sup>* (client_start r) ?c" by blast
  have "counts_ok (cl_reader ?c)" using f by (simp add: counts_ok_def idle_def less_Suc_eq)
  from reader_client_safe [OF grants_all_zero_alloc r s this] r s f(3) show ?thesis by force
qed

text \<open>
  \<open>freeReplyObject\<close> frees a reply and everything it contains, each object once, and nothing
  else: the other replies and their elements stay.
\<close>

theorem freeReplyObject_frees_tree:
  assumes "rh_inv h" and "rh_root h p"
  shows "\<exists>h'. freeReplyObject p h = Inr h' \<and> rh_inv h' \<and>
    (\<forall>q. rh_node h' q = (if q \<in> rh_desc h p then None else rh_node h q)) \<and>
    (\<forall>q. rh_root h q \<and> q \<noteq> p \<longrightarrow> rh_root h' q)"
proof -
  have "rh_node h p \<noteq> None" using assms(2) by (simp add: rh_root_def)
  from freeReplyObject_desc [OF assms(1) this] rh_without_inv [OF assms] show ?thesis by (simp add: rh_without_def)
qed

definition pair_heap :: reply_heap where
  \<comment> \<open>an array at 1 with the integer at 2, and another integer at 3\<close>
  "pair_heap =
     (let int_at = (\<lambda>v. \<lparr>rp_type = REDIS_REPLY_INTEGER, rp_integer = v, rp_len = 0, rp_str = None, rp_elements = 0, rp_element = None\<rparr>)
      in \<lparr>rh_node = [1 \<mapsto> \<lparr>rp_type = REDIS_REPLY_ARRAY, rp_integer = 0, rp_len = 0, rp_str = None, rp_elements = 1, rp_element = Some [2]\<rparr>,
                   2 \<mapsto> int_at 7, 3 \<mapsto> int_at 8], rh_next = 4\<rparr>)"

lemma pair_heap_slots: "rh_slots pair_heap = {(1, 0, 2)}"
  by (auto simp: rh_slots_def pair_heap_def Let_def split: if_splits)

lemma pair_heap_inv: "rh_inv pair_heap" "rh_root pair_heap 1" "rh_root pair_heap 3"
  unfolding rh_inv_def rh_root_def pair_heap_slots by (auto simp: pair_heap_def node_ok_def Let_def split: if_splits)

theorem freeReplyObject_frees_tree_witness:
  "\<exists>h. freeReplyObject 1 pair_heap = Inr h \<and> rh_node h 1 = None \<and> rh_node h 2 = None \<and> rh_root h 3"
proof -
  have "2 \<in> rh_desc pair_heap 1" by (rule rh_desc_step [of 1 _ _ 0]) (simp_all add: pair_heap_slots)
  with freeReplyObject_frees_tree [OF pair_heap_inv(1,2)] pair_heap_inv(3) show ?thesis by force
qed

text \<open>
  C25. What a server writes is what the client gets: any sequence of replies, nested at most eight
  arrays deep, written one after the other, comes back as that sequence of reply objects, one
  per call of \<open>redisReaderGetReply\<close>, with nothing left over.
\<close>

theorem replies_round_trip:
  assumes "grants_all mal" and "redisReaderCreate mal = Inr r" and "list_all (\<lambda>t. sendable t \<and> depth t \<le> 8) ts"
    and "length (concat (map encode ts)) < 2 ^ 31"
  shows "\<exists>r1 ps r2 h. redisReaderFeed mal (defaultFunctions mal) r empty_heap (Some (concat (map encode ts)))
      (length (concat (map encode ts))) = Inr (REDIS_OK, r1, empty_heap) \<and>
    get_replies (defaultFunctions mal) (length ts) r1 empty_heap = Inr (ps, r2, h) \<and>
    list_all2 (\<lambda>t p. reply_at t (rh_node h) p) ts ps \<and> reader_bytes r2 = Inr []"
proof -
  from feed_idle [OF assms(2,1,4), of "defaultFunctions mal" empty_heap] obtain r1 where
    "redisReaderFeed mal (defaultFunctions mal) r empty_heap (Some (concat (map encode ts)))
      (length (concat (map encode ts))) = Inr (REDIS_OK, r1, empty_heap)"
    and r1: "idle r1" "reader_bytes r1 = Inr (concat (map encode ts) @ [])" by auto
  moreover have "0 < rh_next empty_heap" by (simp add: empty_heap_def)
  ultimately show ?thesis using get_replies_encoded [OF assms(1,3) r1] by blast
qed

theorem replies_round_trip_witness:
  "\<exists>r r1 p q r2 h. redisReaderCreate zero_alloc = Inr r \<and>
    redisReaderFeed zero_alloc (defaultFunctions zero_alloc) r empty_heap
      (Some (concat (map encode [RArray [RInt (-5), RNil, RArray []], RString [CHR 0x0D, CHR 0x0A, NUL]])))
      (length (concat (map encode [RArray [RInt (-5), RNil, RArray []], RString [CHR 0x0D, CHR 0x0A, NUL]])))
      = Inr (REDIS_OK, r1, empty_heap) \<and>
    get_replies (defaultFunctions zero_alloc) (length [RArray [RInt (-5), RNil, RArray []], RString [CHR 0x0D, CHR 0x0A, NUL]])
      r1 empty_heap = Inr ([p, q], r2, h) \<and>
    reply_at (RArray [RInt (-5), RNil, RArray []]) (rh_node h) p \<and> reply_at (RString [CHR 0x0D, CHR 0x0A, NUL]) (rh_node h) q"
proof -
  from redisReaderCreate_total [OF grants_all_zero_alloc] obtain r where r: "redisReaderCreate zero_alloc = Inr r" ..
  have l: "length (concat (map encode [RArray [RInt (-5), RNil, RArray []], RString [CHR 0x0D, CHR 0x0A, NUL]])) < 2 ^ 31"
    by (simp add: signed_decimal_def decimal.simps)
  have s: "list_all (\<lambda>t. sendable t \<and> depth t \<le> 8) [RArray [RInt (-5), RNil, RArray []], RString [CHR 0x0D, CHR 0x0A, NUL]]"
    by simp
  from replies_round_trip [OF grants_all_zero_alloc r s l] r show ?thesis
    by (auto simp: list_all2_Cons1 simp del: reply_at.simps encode.simps)
qed

text \<open>
  C26. Input may arrive in any pieces: when the reader stopped in the middle of a reply, feeding
  the next bytes and asking again has the same outcome (status, reply, store, and a reader that
  holds the same unread bytes) as feeding all of it before asking, whatever the reply functions.
\<close>

theorem reader_in_two_pieces:
  assumes "grants_all mal" and "buffer_ok r" and "stack_index_ok r" and "rd_err r = 0" and "c \<noteq> []"
    and "rd_len r + length c < 2 ^ 31"
    and "redisReaderGetReply fn r h = Inr (REDIS_OK, 0, r1, h1)" and "0 \<le> rd_ridx r1"
  shows "\<exists>r2 r3. redisReaderFeed mal fn r1 h1 (Some c) (length c) = Inr (REDIS_OK, r2, h1) \<and>
    redisReaderFeed mal fn r h (Some c) (length c) = Inr (REDIS_OK, r3, h) \<and>
    same_outcome (redisReaderGetReply fn r2 h1) (redisReaderGetReply fn r3 h)"
  by (rule GetReply_in_two_pieces) (use assms in auto)

theorem reader_in_two_pieces_witness:
  "\<exists>r r1 h1 r2 r3. redisReaderGetReply (defaultFunctions zero_alloc) r empty_heap = Inr (REDIS_OK, 0, r1, h1) \<and>
    0 \<le> rd_ridx r1 \<and> reader_bytes r = Inr '':'' \<and>
    redisReaderFeed zero_alloc (defaultFunctions zero_alloc) r1 h1 (Some (''7'' @ CRLF)) (length (''7'' @ CRLF)) = Inr (REDIS_OK, r2, h1) \<and>
    redisReaderFeed zero_alloc (defaultFunctions zero_alloc) r empty_heap (Some (''7'' @ CRLF)) (length (''7'' @ CRLF)) = Inr (REDIS_OK, r3, empty_heap) \<and>
    same_outcome (redisReaderGetReply (defaultFunctions zero_alloc) r2 h1) (redisReaderGetReply (defaultFunctions zero_alloc) r3 empty_heap)"
proof -
  let ?fn = "defaultFunctions zero_alloc"
  from redisReaderCreate_total [OF grants_all_zero_alloc] obtain r0 where r0: "redisReaderCreate zero_alloc = Inr r0" ..
  from feed_idle [OF r0 grants_all_zero_alloc, of "'':''" ?fn empty_heap] obtain r where
    r: "idle r" "reader_bytes r = Inr '':''" "rd_len r = 1" by auto
  then have i: "rd_err r = 0" "rd_ridx r = -1" "buffer_ok r" "stack_index_ok r" "length (rd_rstack r) = 9"
    by (auto simp: idle_def stack_index_ok_def)
  define a where "a = typed (start_task r) REDIS_REPLY_INTEGER"
  have "reader_bytes (start_task r) = Inr [CHR '':'']" using r(2) reader_bytes_cong [of "start_task r" r] by (simp add: start_task_def)
  from type_byte_step(1) [OF this, of REDIS_REPLY_INTEGER ?fn empty_heap] type_byte_step(2) [OF this, of REDIS_REPLY_INTEGER] have
    a: "processItem ?fn (start_task r) empty_heap = process_typed ?fn a empty_heap" "reader_bytes a = Inr []"
    using i r(3) by (simp_all add: a_def start_task_def cur_task_def reply_type_of_def)
  have "rd_pos r + 1 = rd_len r" using reader_bytes_length [OF r(2)] by simp
  then have aa: "rd_ridx a = 0" "rd_err a = 0" "rd_pos a = 1" "tk_type (cur_task a) = REDIS_REPLY_INTEGER"
    using i r(3) by (simp_all add: a_def start_task_def typed_def cur_task_def)
  have "seekNewline [] = None" by code_simp
  then have "process_typed ?fn a empty_heap = Inr (REDIS_ERR, a, empty_heap)"
    using a(2) aa by (simp add: process_typed_def processLineItem_def readLine_def Let_def)
  then have "process_items ?fn (start_task r) empty_heap = Inr (a, empty_heap)"
    using a(1) i by (simp add: process_items.simps [of ?fn "start_task r"]) (simp add: start_task_def)
  then have g: "redisReaderGetReply ?fn r empty_heap = Inr (REDIS_OK, 0, a, empty_heap)"
    using i r(3) aa by (simp add: redisReaderGetReply_def discard_consumed_def)
  have "rd_len r + length (''7'' @ CRLF) < 2 ^ 31" "''7'' @ CRLF \<noteq> []" using r(3) by simp_all
  from reader_in_two_pieces [OF grants_all_zero_alloc i(3,4,1) this(2,1) g] aa(1)
  have "\<exists>r2 r3. redisReaderFeed zero_alloc ?fn a empty_heap (Some (''7'' @ CRLF)) (length (''7'' @ CRLF)) = Inr (REDIS_OK, r2, empty_heap) \<and>
    redisReaderFeed zero_alloc ?fn r empty_heap (Some (''7'' @ CRLF)) (length (''7'' @ CRLF)) = Inr (REDIS_OK, r3, empty_heap) \<and>
    same_outcome (redisReaderGetReply ?fn r2 empty_heap) (redisReaderGetReply ?fn r3 empty_heap)" by simp
  moreover have "0 \<le> rd_ridx a" using aa(1) by simp
  ultimately show ?thesis using g r(2) by blast
qed

lemma chrtos_text: "NUL \<notin> set (chrtos b)" "length (chrtos b) \<le> 6"
proof -
  have hex: "hex_char n \<noteq> NUL" if "n < 16" for n
  proof
    assume "hex_char n = NUL"
    then have "of_char (hex_char n) = (0::nat)" by simp
    with that show False by (simp add: hex_char_def split: if_splits)
  qed
  have "(of_char b :: nat) div 16 < 16" "(of_char b :: nat) mod 16 < 16"
    using nat_of_char_less_256 [of b] by (simp_all add: div_less_iff_less_mult del: nat_of_char_less_256)
  from hex [OF this(1)] hex [OF this(2)] show "NUL \<notin> set (chrtos b)" by (auto simp: chrtos_def isprint_def)
  show "length (chrtos b) \<le> 6" by (simp add: chrtos_def)
qed

lemma SetError_no_reply:
  "rd_reply r = 0 \<Longrightarrow> rd_buf r \<noteq> None \<Longrightarrow> redisReaderSetError fn r h t m =
     Inr (r\<lparr>rd_buf := None, rd_pos := 0, rd_len := 0, rd_ridx := -1, rd_err := t, rd_errstr := take 127 (cstring m)\<rparr>, h)"
  by (simp add: redisReaderSetError_def Let_def split: option.split)

lemma type_byte_message: "take 127 (cstring (''Protocol error, got '' @ chrtos b @ '' as reply type byte'')) =
    ''Protocol error, got '' @ chrtos b @ '' as reply type byte''"
proof -
  have "length (''Protocol error, got '' @ chrtos b @ '' as reply type byte'') \<le> 127" using chrtos_text(2) [of b] by simp
  moreover have "cstring (''Protocol error, got '' @ chrtos b @ '' as reply type byte'') =
      ''Protocol error, got '' @ chrtos b @ '' as reply type byte''"
    using chrtos_text(1) [of b] by (intro cstring_id) auto
  ultimately show ?thesis by (simp only: take_all)
qed

text \<open>
  A byte that starts no reply is a protocol error: the reader drops its input, reports
  \<open>REDIS_ERR_PROTOCOL\<close>, and from then on every call fails and changes nothing.
\<close>

theorem bad_type_byte:
  assumes "idle r" and "reader_bytes r = Inr (b # rest)" and "b \<notin> set ''-+:$*''"
  shows "\<exists>r'. redisReaderGetReply fn r h = Inr (REDIS_ERR, 0, r', h) \<and> rd_err r' = REDIS_ERR_PROTOCOL \<and>
    rd_buf r' = None \<and> rd_errstr r' = ''Protocol error, got '' @ chrtos b @ '' as reply type byte'' \<and>
    redisReaderGetReply fn r' h' = Inr (REDIS_ERR, 0, r', h') \<and>
    redisReaderFeed mal fn r' h' buf n = Inr (REDIS_ERR, r', h')"
proof -
  let ?s = "(start_task r)\<lparr>rd_pos := rd_pos r + 1\<rparr>"
  from assms(1) have i: "rd_err r = 0" "rd_ridx r = -1" "rd_reply r = 0" "rd_buf r \<noteq> None" "0 < length (rd_rstack r)"
    by (auto simp: idle_def buffer_ok_def)
  have l: "rd_pos r + length (b # rest) = rd_len r" "rd_len r < 2 ^ 31"
    using reader_bytes_length [OF assms(2)] assms(1) by (auto simp: idle_def buffer_ok_def)
  have "reader_bytes (start_task r) = Inr (b # rest)" using assms(2) reader_bytes_cong [of "start_task r" r] by (simp add: start_task_def)
  moreover have "sub64 (rd_len r) (rd_pos r) = length (b # rest)" using l by (subst sub64_id) auto
  ultimately have rb: "readBytes (start_task r) 1 = Inr (Some (b # rest, ?s))" by (simp add: readBytes_def start_task_def)
  have t: "tk_type (cur_task (start_task r)) < 0" using i by (simp add: start_task_def cur_task_def)
  have none: "reply_type_of b = None" using assms(3) by (auto simp: reply_type_of_def)
  obtain e where e: "redisReaderSetErrorProtocolByte fn ?s h b = Inr (e, h)" "rd_err e = REDIS_ERR_PROTOCOL" "rd_buf e = None"
    "rd_errstr e = ''Protocol error, got '' @ chrtos b @ '' as reply type byte''"
    using i SetError_no_reply [of ?s fn h REDIS_ERR_PROTOCOL "''Protocol error, got '' @ chrtos b @ '' as reply type byte''"]
    unfolding redisReaderSetErrorProtocolByte_def type_byte_message by (simp add: start_task_def del: append.simps)
  have "process_items fn (start_task r) h = Inr (e, h)"
    using t rb none e(1) i(2) by (simp add: process_items.simps [of fn "start_task r"] processItem_def) (simp add: start_task_def)
  then have "redisReaderGetReply fn r h = Inr (REDIS_ERR, 0, e, h)" using i(1) l e(2) by (auto simp: redisReaderGetReply_def)
  with e show ?thesis by (simp add: redisReaderGetReply_def redisReaderFeed_def)
qed

theorem bad_type_byte_witness:
  "\<exists>r r'. reader_bytes r = Inr ''!OK'' \<and> redisReaderGetReply (defaultFunctions zero_alloc) r empty_heap = Inr (REDIS_ERR, 0, r', empty_heap) \<and>
     rd_errstr r' = ''Protocol error, got '' @ chrtos CHR ''!'' @ '' as reply type byte'' \<and>
     redisReaderGetReply (defaultFunctions zero_alloc) r' empty_heap = Inr (REDIS_ERR, 0, r', empty_heap)"
proof -
  from redisReaderCreate_total [OF grants_all_zero_alloc] obtain r0 where r0: "redisReaderCreate zero_alloc = Inr r0" ..
  from feed_idle [OF r0 grants_all_zero_alloc, of "''!OK''" noFunctions "()"] obtain r where
    r: "idle r" "reader_bytes r = Inr ''!OK''" by auto
  from bad_type_byte [OF r, of "defaultFunctions zero_alloc" empty_heap empty_heap zero_alloc None 0] r(2)
  show ?thesis by auto
qed

text \<open>
  The number of elements of a multi bulk reply is tested as a \<open>long long\<close> and then narrowed to
  \<open>int\<close>. With the default functions, the 16 bytes below make the reader write the first
  element of an array that has none: a store through a NULL pointer.
\<close>

theorem multibulk_count_narrowed:
  "\<exists>r r1. redisReaderCreate zero_alloc = Inr r \<and>
    redisReaderFeed zero_alloc (defaultFunctions zero_alloc) r empty_heap
      (Some (''*4294967296'' @ CRLF @ '':1'' @ CRLF)) (length (''*4294967296'' @ CRLF @ '':1'' @ CRLF)) =
      Inr (REDIS_OK, r1, empty_heap) \<and>
    redisReaderGetReply (defaultFunctions zero_alloc) r1 empty_heap = Inl OutOfBounds"
proof -
  let ?fn = "defaultFunctions zero_alloc" and ?b = "''*4294967296'' @ CRLF @ '':1'' @ CRLF"
  from redisReaderCreate_total [OF grants_all_zero_alloc] obtain r where r: "redisReaderCreate zero_alloc = Inr r" ..
  from feed_idle [OF r grants_all_zero_alloc, of ?b ?fn empty_heap] obtain r1 where
    f: "redisReaderFeed zero_alloc ?fn r empty_heap (Some ?b) (length ?b) = Inr (REDIS_OK, r1, empty_heap)"
    "idle r1" "reader_bytes r1 = Inr ?b" "rd_len r1 = length ?b" by fastforce
  have l: "rd_len r1 < 2 ^ 31" "rd_len r1 \<noteq> 0" using f(4) by simp_all
  from f(2) have i: "rd_err r1 = 0" "rd_ridx r1 = -1" "rd_reply r1 = 0" "length (rd_rstack r1) = 9" by (auto simp: idle_def)
  define a where "a = typed (start_task r1) REDIS_REPLY_ARRAY"
  have "reader_bytes (start_task r1) = Inr ?b" using f(3) reader_bytes_cong [of "start_task r1" r1] by (simp add: start_task_def)
  then have "reader_bytes (start_task r1) = Inr (CHR ''*'' # ''4294967296'' @ CRLF @ '':1'' @ CRLF)" by simp
  from type_byte_step(1) [OF this, of REDIS_REPLY_ARRAY ?fn empty_heap] type_byte_step(2) [OF this, of REDIS_REPLY_ARRAY] have
    a: "processItem ?fn (start_task r1) empty_heap = process_typed ?fn a empty_heap" "reader_bytes a = Inr (''4294967296'' @ CRLF @ '':1'' @ CRLF)"
    using i l by (simp_all add: a_def start_task_def cur_task_def reply_type_of_def)
  have aa: "cur_task a = \<lparr>tk_type = REDIS_REPLY_ARRAY, tk_elements = -1, tk_idx = -1, tk_obj = 0, tk_parent = None\<rparr>"
    "rd_ridx a = 0" "length (rd_rstack a) = 9" "rd_len a < 2 ^ 31" "rd_err a = 0"
    using i l by (simp_all add: a_def start_task_def typed_def cur_task_def)
  have sn: "seekNewline (''4294967296'' @ CRLF @ '':1'' @ CRLF) = Some 10" by code_simp
  have ll: "readLongLong (''4294967296'' @ CRLF @ '':1'' @ CRLF) = Inr 4294967296" by code_simp
  define c where "c = push_task (set_cur (a\<lparr>rd_pos := rd_pos a + 12\<rparr>) ((cur_task a)\<lparr>tk_elements := 0, tk_obj := 1\<rparr>))\<lparr>rd_reply := 1\<rparr>"
  define H where "H = \<lparr>rh_node = [1 \<mapsto> blank_reply REDIS_REPLY_ARRAY], rh_next = 2\<rparr>"
  have ao: "array_object ?fn (cur_task a) None 4294967296 empty_heap = Inr (1, H)"
    by (simp add: array_object_def defaultFunctions_def createArrayObject_def createReplyObject_def zero_alloc_def to_int32_def
      H_def empty_heap_def rh_store_def rh_load_def link_parent_def blank_reply_def)
  have first: "process_typed ?fn a empty_heap = Inr (REDIS_OK, c, H)"
    using a(2) aa sn ll ao
    by (simp add: process_typed_def processMultiBulkItem_def Let_def readLine_def parent_task_def enter_array_def to_int32_def c_def
        add.commute [of 12])
  have "reader_bytes (a\<lparr>rd_pos := rd_pos a + 12\<rparr>) = Inr (CHR '':'' # ''1'' @ CRLF)"
    using reader_bytes_pos [OF a(2), of 12] by simp
  then have "reader_bytes c = Inr (CHR '':'' # ''1'' @ CRLF)"
    using reader_bytes_cong [of c "a\<lparr>rd_pos := rd_pos a + 12\<rparr>"] by (simp add: c_def push_task_def set_cur_def Let_def)
  moreover have c: "cur_task c = \<lparr>tk_type = -1, tk_elements = -1, tk_idx = 0, tk_obj = 0, tk_parent = Some 0\<rparr>"
    "tk_obj (rd_rstack c ! 0) = 1" "rd_ridx c = 1" "length (rd_rstack c) = 9" "rd_len c < 2 ^ 31"
    using aa by (simp_all add: c_def push_task_def set_cur_def cur_task_def Let_def)
  ultimately have s: "processItem ?fn c H = process_typed ?fn (typed c REDIS_REPLY_INTEGER) H"
    "reader_bytes (typed c REDIS_REPLY_INTEGER) = Inr (''1'' @ CRLF)"
    using type_byte_step(1) [of c "CHR '':''" "''1'' @ CRLF" REDIS_REPLY_INTEGER ?fn H]
      type_byte_step(2) [of c "CHR '':''" "''1'' @ CRLF" REDIS_REPLY_INTEGER] by (simp_all add: reply_type_of_def)
  have n: "seekNewline (''1'' @ CRLF) = Some 1" "readLongLong (''1'' @ CRLF) = Inr 1" by code_simp+
  have "process_typed ?fn (typed c REDIS_REPLY_INTEGER) H = Inl OutOfBounds"
    using s(2) n c
    by (simp add: process_typed_def processLineItem_def Let_def readLine_def typed_def cur_task_def parent_task_def line_object_def
      defaultFunctions_def createIntegerObject_def createReplyObject_def zero_alloc_def rh_load_def rh_store_def link_parent_def
      H_def blank_reply_def)
  then have "process_items ?fn (start_task r1) empty_heap = Inl OutOfBounds"
    using a(1) first s(1) c(3) i by (simp add: process_items.simps [of ?fn "start_task r1"] process_items.simps [of ?fn c])
      (simp add: start_task_def)
  then have "redisReaderGetReply ?fn r1 empty_heap = Inl OutOfBounds" using i l by (simp add: redisReaderGetReply_def)
  with r f(1) show ?thesis by blast
qed

end
