(* ===== verification/SdsSpec.thy ===== *)
theory SdsSpec
  imports SdsOps
begin

section \<open>sds: any run of operations refines a list of bytes\<close>

text \<open>
  The contract of the string library as a whole: each mutating operation of sds.c as an
  element of \<open>sds_op\<close>, what it does to the bytes of the string (\<open>sds_apply\<close>), and the proof
  that every run of the C operations implements the run on lists. The properties of the
  string library close the theory.
\<close>

subsection \<open>Operations and their specification\<close>

datatype sds_op =
    CatLen "char list" nat
  | Cat "char list"
  | CpyLen "char list" nat
  | GrowZero nat
  | MakeRoom nat
  | RemoveFree
  | Trim "char list"
  | Range int int
  | Clear
  | Lower
  | Upper
  | MapChars "char list" "char list"

fun sds_exec :: "allocator \<Rightarrow> sds_op \<Rightarrow> sdshdr \<Rightarrow> sdshdr res" where
  "sds_exec mal (CatLen t n) s = sdscatlen mal s t n"
| "sds_exec mal (Cat t) s = sdscat mal s t"
| "sds_exec mal (CpyLen t n) s = sdscpylen mal s t n"
| "sds_exec mal (GrowZero n) s = sdsgrowzero mal s n"
| "sds_exec mal (MakeRoom n) s = sdsMakeRoomFor mal s n"
| "sds_exec mal RemoveFree s = sdsRemoveFreeSpace mal s"
| "sds_exec mal (Trim cset) s = sdstrim s cset"
| "sds_exec mal (Range i j) s = sdsrange s i j"
| "sds_exec mal Clear s = sdsclear s"
| "sds_exec mal Lower s = Inr (sdstolower s)"
| "sds_exec mal Upper s = Inr (sdstoupper s)"
| "sds_exec mal (MapChars from to) s = sdsmapchars s from to (length from)"

fun sds_apply :: "sds_op \<Rightarrow> char list \<Rightarrow> char list" where
  "sds_apply (CatLen t n) v = v @ take n t"
| "sds_apply (Cat t) v = v @ cstring t"
| "sds_apply (CpyLen t n) v = take n t"
| "sds_apply (GrowZero n) v = v @ replicate (n - length v) NUL"
| "sds_apply (MakeRoom n) v = v"
| "sds_apply RemoveFree v = v"
| "sds_apply (Trim cset) v = trim_spec (strchr_hit cset) v"
| "sds_apply (Range i j) v = slice v i j"
| "sds_apply Clear v = []"
| "sds_apply Lower v = map c_tolower v"
| "sds_apply Upper v = map c_toupper v"
| "sds_apply (MapChars from to) v = map (mapchar from to) v"

fun sds_op_ok :: "sds_op \<Rightarrow> bool" where
  \<comment> \<open>what the caller owes: as many bytes as announced, arguments of the C types' range\<close>
  "sds_op_ok (CatLen t n) \<longleftrightarrow> n \<le> length t"
| "sds_op_ok (CpyLen t n) \<longleftrightarrow> n \<le> length t"
| "sds_op_ok (MakeRoom n) \<longleftrightarrow> n < 2 ^ 61"
| "sds_op_ok (Range i j) \<longleftrightarrow> - (2 ^ 31) \<le> i \<and> i < 2 ^ 31 \<and> - (2 ^ 31) \<le> j \<and> j < 2 ^ 31"
| "sds_op_ok (MapChars from to) \<longleftrightarrow> length from \<le> length to"
| "sds_op_ok _ \<longleftrightarrow> True"

fun sds_run :: "allocator \<Rightarrow> sds_op list \<Rightarrow> sdshdr \<Rightarrow> sdshdr res" where
  "sds_run mal [] s = Inr s"
| "sds_run mal (op # ops) s = bindE (sds_exec mal op s) (sds_run mal ops)"

fun sds_run_ok :: "sds_op list \<Rightarrow> char list \<Rightarrow> bool" where
  \<comment> \<open>every operation is called properly and no string on the way reaches \<open>INT_MAX\<close> bytes\<close>
  "sds_run_ok [] v \<longleftrightarrow> length v < 2 ^ 31"
| "sds_run_ok (op # ops) v \<longleftrightarrow> length v < 2 ^ 31 \<and> sds_op_ok op \<and> sds_run_ok ops (sds_apply op v)"

subsection \<open>The simulation\<close>

lemma sds_map_prefix_ok:
  assumes "sds_wf s" "sdslen s < 2 ^ 31"
  shows "sds_wf (sds_map_prefix f s) \<and> sdsval (sds_map_prefix f s) = map f (sdsval s)"
proof -
  have n: "nat (to_int32 (int (sdslen s))) = hlen s"
    using assms(2) by (simp add: to_int32_id sdslen_def)
  have "hlen s < length (hbuf s)" using sds_wfD [OF assms(1)] by auto
  then show ?thesis
    using assms(1) unfolding sds_map_prefix_def n Let_def
    by (cases "htype s") (auto simp: sds_wf_def sds_shape_def sdsval_def sdsalloc_def nth_append take_map)
qed

lemma peekn_all [simp]: "n \<le> length xs \<Longrightarrow> peekn xs 0 n = Inr (take n xs)"
  by (simp add: peekn_Inr)

lemma mapchar_take [simp]: "mapchar from (take (length from) to) = mapchar from to"
proof
  show "mapchar from (take (length from) to) c = mapchar from to c" for c
    by (induction "from" "to" c rule: mapchar.induct) auto
qed

lemma sdsmapchars_ok:
  assumes "sds_wf s" "length from \<le> length to"
  shows "\<exists>s'. sdsmapchars s from to (length from) = Inr s' \<and> sds_wf s' \<and>
    sdsval s' = map (mapchar from to) (sdsval s)"
proof -
  have "hlen s < length (hbuf s)" using sds_wfD [OF assms(1)] by auto
  then show ?thesis
    using assms unfolding sdsmapchars_def
    by (cases "htype s") (auto simp: sds_wf_def sds_shape_def sdsval_def sdsalloc_def sdslen_def nth_append take_map)
qed

lemma sds_exec_ok:
  assumes s: "sds_wf s" and b: "length (sdsval s) < 2 ^ 31" "length (sds_apply op (sdsval s)) < 2 ^ 31"
    and op: "sds_op_ok op"
  shows "res_ok mal (\<lambda>s'. sds_wf s' \<and> sdsval s' = sds_apply op (sdsval s)) (sds_exec mal op s)"
proof -
  have n: "length (sdsval s) = sdslen s" using s by (simp add: sdsval_length)
  note b = b [unfolded n]
  show ?thesis
  proof (cases op)
    case (CatLen t k)
    with b op n show ?thesis by (auto intro!: sdscatlen_ok s)
  next
    case (Cat t)
    with b n show ?thesis by (auto intro!: sdscat_ok s)
  next
    case (CpyLen t k)
    with b op show ?thesis by (auto intro!: sdscpylen_ok s)
  next
    case (GrowZero k)
    with b have "k < 2 ^ 31" using n by auto
    then show ?thesis using sdsgrowzero_ok [OF s, of k mal] GrowZero n by simp
  next
    case (MakeRoom k)
    with b op show ?thesis using sdsMakeRoomFor_ok [OF s, of k mal] by (auto elim!: res_ok_mono)
  next
    case RemoveFree
    with b show ?thesis using sdsRemoveFreeSpace_ok [OF s, of mal] by (auto elim!: res_ok_mono)
  next
    case (Trim cset)
    with sdstrim_ok [OF s, of cset] show ?thesis by auto
  next
    case (Range i j)
    with sdsrange_ok [OF s b(1), of i j] op show ?thesis by auto
  next
    case Clear
    with sdsclear_ok [OF s] show ?thesis by auto
  next
    case Lower
    with sds_map_prefix_ok [OF s b(1)] show ?thesis by (simp add: sdstolower_def)
  next
    case Upper
    with sds_map_prefix_ok [OF s b(1)] show ?thesis by (simp add: sdstoupper_def)
  next
    case (MapChars fr t)
    with sdsmapchars_ok [OF s, of fr t] op show ?thesis by auto
  qed
qed

lemma sds_run_ok_bound: "sds_run_ok ops v \<Longrightarrow> length v < 2 ^ 31"
  by (cases ops) auto

subsection \<open>Growth\<close>

lemma sdsalloc_setalloc:
  "htype s \<noteq> SDS_TYPE_5 \<Longrightarrow> n < 2 ^ sds_width (htype s) \<Longrightarrow> sdsalloc (sdssetalloc s n) = n"
  by (cases "htype s") (auto simp: sdsalloc_def sdssetalloc_def)

lemma htype_set [simp]:
  "htype (sdssetlen s n) = htype s" "htype (sdssetalloc s n) = htype s"
  by (cases "htype s"; simp add: sdssetlen_def sdssetalloc_def)+

definition grown :: "nat \<Rightarrow> nat" where
  \<comment> \<open>the capacity after a reallocation for a string of \<open>n\<close> bytes\<close>
  "grown n = (if n < SDS_MAX_PREALLOC then 2 * n else n + SDS_MAX_PREALLOC)"

lemma sdsMakeRoomFor_alloc:
  assumes s: "sds_wf s" and b: "sdslen s + addlen < 2 ^ 62" and lt: "sdsavail s < addlen"
    and r: "sdsMakeRoomFor mal s addlen = Inr s'"
  shows "sdsalloc s' = grown (sdslen s + addlen)"
proof -
  let ?n = "sdslen s + addlen"
  define t where "t = (if sdsReqType (grown ?n) = SDS_TYPE_5 then SDS_TYPE_8 else sdsReqType (grown ?n))"
  have g: "(if wrap64 ?n < SDS_MAX_PREALLOC then wrap64 (wrap64 ?n * 2) else wrap64 (wrap64 ?n + SDS_MAX_PREALLOC))
      = grown ?n" and g64: "grown ?n < 2 ^ 64"
    using b by (auto simp: grown_def SDS_MAX_PREALLOC_def)
  have t: "t \<noteq> SDS_TYPE_5" "grown ?n < 2 ^ sds_width t"
    using sdsReqType_fits' [OF g64] by (auto simp: t_def)
  show ?thesis
  proof (cases "htype s = t")
    case True
    with r lt obtain b where "s' = sdssetalloc (s\<lparr>hbuf := b\<rparr>) (grown ?n)"
      unfolding sdsMakeRoomFor_def Let_def g t_def [symmetric] by (auto simp: bindE_Inr_iff)
    then show ?thesis using t True by (simp add: sdsalloc_setalloc)
  next
    case False
    with r lt obtain x where "s' = sdssetalloc x (grown ?n)" "htype x = t"
      unfolding sdsMakeRoomFor_def Let_def g t_def [symmetric] by (auto simp: bindE_Inr_iff)
    then show ?thesis using t by (simp add: sdsalloc_setalloc)
  qed
qed

subsection \<open>Several quoted arguments\<close>

lemma splitargs_loop_quoted:
  assumes g: "grants_all mal"
  shows "\<forall>x\<in>set xs. length x < 2 ^ 61 \<Longrightarrow>
    \<exists>toks. splitargs_loop mal vec (concat (map (\<lambda>x. CHR '' '' # quoted x) xs)) = Inr (Some (vec @ toks)) \<and>
      (\<forall>t\<in>set toks. sds_wf t) \<and> map sdsval toks = xs"
proof (induction xs arbitrary: vec)
  case Nil
  obtain blk where "malloc mal 8 = Inr blk" using grants_Inr [OF g res_ok_malloc] by blast
  then show ?case by (subst splitargs_loop.simps) simp
next
  case (Cons x xs)
  let ?rest = "concat (map (\<lambda>x. CHR '' '' # quoted x) xs)"
  from grants_Inr [OF g sdsempty_ok] obtain e where
    e: "null_deref (sdsempty mal) = Inr e" "sds_wf e" "sdsval e = []" "sdslen e = 0" by auto
  have cl: "closes ?rest" by (cases xs) (auto simp: closes_def isspace_def)
  from split_token_quoted [OF g cl, of e x] e Cons.prems obtain tok where
    tok: "split_token mal InQ e (concat (map repr_char x) @ CHR 0x22 # ?rest) = Inr (Some (tok, ?rest))"
    "sds_wf tok" "sdsval tok = x" by auto
  have q: "split_token mal Unquoted e (quoted x @ ?rest) = Inr (Some (tok, ?rest))"
    using tok(1) unfolding quoted_def by (subst split_token.simps) simp
  have d: "dropWhile isspace (CHR '' '' # quoted x @ ?rest) = quoted x @ ?rest" "quoted x \<noteq> []"
    by (auto simp: quoted_def isspace_def)
  obtain blk where m: "null_deref (malloc mal (8 * (length vec + 1))) = Inr blk"
    using grants_Inr [OF g res_ok_malloc] by blast
  have "splitargs_loop mal vec (CHR '' '' # quoted x @ ?rest) = splitargs_loop mal (vec @ [tok]) ?rest"
    by (subst splitargs_loop.simps) (use e q d m in simp)
  moreover from Cons.IH [of "vec @ [tok]"] Cons.prems obtain toks where
    "splitargs_loop mal (vec @ [tok]) ?rest = Inr (Some ((vec @ [tok]) @ toks))"
    "\<forall>t\<in>set toks. sds_wf t" "map sdsval toks = xs" by auto
  ultimately show ?case using tok by (intro exI [of _ "tok # toks"]) simp
qed

lemma intersperse_space:
  "xs \<noteq> [] \<Longrightarrow> concat (map (\<lambda>x. c # f x) xs) = c # intersperse_join [c] (map f xs)"
proof (induction xs)
  case (Cons x xs)
  then show ?case by (cases xs) auto
qed simp

lemma splitargs_loop_space:
  "splitargs_loop mal vec (CHR '' '' # p) = splitargs_loop mal vec p"
  by (subst (1 2) splitargs_loop.simps) (simp add: isspace_def)

lemma quoted_args_NUL: "NUL \<notin> set (intersperse_join '' '' (map quoted xs))"
proof (induction xs)
  case (Cons x xs)
  then show ?case using quoted_NUL [of x] by (cases xs) auto
qed simp

lemma trim_spec_parts:
  "\<exists>pre post. xs = pre @ trim_spec P xs @ post \<and> (\<forall>c\<in>set pre. P c) \<and> (\<forall>c\<in>set post. P c) \<and>
     (trim_spec P xs \<noteq> [] \<longrightarrow> \<not> P (hd (trim_spec P xs)) \<and> \<not> P (last (trim_spec P xs)))"
proof -
  define ys where "ys = dropWhile P xs"
  have x: "xs = takeWhile P xs @ ys" by (simp add: ys_def)
  have t: "trim_spec P xs = rev (dropWhile P (rev ys))" by (simp add: trim_spec_def ys_def)
  have y: "ys = trim_spec P xs @ rev (takeWhile P (rev ys))"
    unfolding t rev_append [symmetric] by simp
  have "trim_spec P xs \<noteq> [] \<Longrightarrow> \<not> P (last (trim_spec P xs))"
    unfolding t by (simp add: last_rev hd_dropWhile)
  moreover have "\<not> P (hd (trim_spec P xs))" if ne: "trim_spec P xs \<noteq> []"
  proof -
    have "hd ys = hd (trim_spec P xs)" using ne by (subst y) simp
    moreover have "ys \<noteq> []" using y ne by (cases ys) auto
    ultimately show ?thesis by (metis hd_dropWhile ys_def)
  qed
  moreover have "\<forall>c\<in>set (takeWhile P xs). P c" "\<forall>c\<in>set (rev (takeWhile P (rev ys))). P c"
    by (auto dest: set_takeWhileD)
  ultimately show ?thesis using x y by metis
qed

lemma sdscatrepr_empty:
  assumes "grants_all mal" "sdscatrepr mal e x (length x) = Inr r" "sds_wf e" "sdsval e = []" "length x < 2 ^ 59"
  shows "sds_wf r \<and> sdsval r = quoted x"
proof -
  have "sdslen e = 0" using sdsval_length [OF sds_wf_shape [OF assms(3)]] assms(4) by simp
  then show ?thesis using sdscatrepr_ok [OF assms(1,3), of "length x" x] assms by auto
qed

lemma length_quoted: "length (quoted x) \<le> 4 * length x + 2"
proof -
  have "length (concat (map repr_char x)) \<le> 4 * length x"
    using length_repr_char by (induction x) (auto intro: add_mono)
  then show ?thesis by (simp add: quoted_def)
qed

lemma length_quoted_args:
  "length (intersperse_join '' '' (map quoted xs)) \<le> (\<Sum>x\<leftarrow>xs. 4 * length x + 3)"
proof (induction xs)
  case (Cons x xs)
  then show ?case using length_quoted [of x] by (cases xs) auto
qed simp

lemma catrepr_all:
  assumes "grants_all mal" "sds_wf e" "sdsval e = []" "\<forall>x\<in>set xs. length x < 2 ^ 59"
  shows "list_all2 (\<lambda>x r. sdscatrepr mal e x (length x) = Inr r) xs rs \<Longrightarrow>
    (\<forall>r\<in>set rs. sds_wf r) \<and> map sdsval rs = map quoted xs"
proof -
  assume "list_all2 (\<lambda>x r. sdscatrepr mal e x (length x) = Inr r) xs rs"
  then have "list_all2 (\<lambda>x r. sds_wf r \<and> sdsval r = quoted x) xs rs"
    by (rule list.rel_mono_strong) (use assms sdscatrepr_empty in blast)
  then show ?thesis by (induction rule: list_all2_induct) auto
qed

lemma sum_list_member_le: "x \<in> set xs \<Longrightarrow> (f x :: nat) \<le> (\<Sum>x\<leftarrow>xs. f x)"
  by (induction xs) auto

subsection \<open>Properties\<close>

definition demo_sds :: sdshdr where
  \<comment> \<open>a string used by the witnesses: three bytes in a block with room for six\<close>
  "demo_sds = \<lparr>htype = SDS_TYPE_8, hlen = 3, halloc = 6, hbuf = ''abc'' @ replicate 4 NUL\<rparr>"

lemma demo_sds: "sds_wf demo_sds" "sdsval demo_sds = ''abc''" "sdslen demo_sds = 3" "sdsavail demo_sds = 3"
  by (simp_all add: demo_sds_def sds_wf_def sds_shape_def sdsval_def sdsalloc_def sdslen_def sdsavail_def)

text \<open>
  C19. The string library refines lists of bytes: whatever mutating operations of sds.c run on a
  well-formed string, with proper arguments and lengths below \<open>INT_MAX\<close>, they never touch
  memory outside their blocks and fail no assertion; they return the string that the same
  operations on lists produce, in a well-formed block, or NULL because an allocation was refused.
\<close>

theorem sds_runs_refine:
  assumes "sds_wf s" and "sds_run_ok ops (sdsval s)"
  shows "res_ok mal (\<lambda>s'. sds_wf s' \<and> sdsval s' = fold sds_apply ops (sdsval s)) (sds_run mal ops s)"
  using assms
proof (induction ops arbitrary: s)
  case (Cons op ops)
  then have "res_ok mal (\<lambda>s'. sds_wf s' \<and> sdsval s' = sds_apply op (sdsval s)) (sds_exec mal op s)"
    using sds_run_ok_bound [of ops "sds_apply op (sdsval s)"] by (intro sds_exec_ok) auto
  then have "res_ok mal (\<lambda>s'. sds_wf s' \<and> sdsval s' = fold sds_apply (op # ops) (sdsval s))
      (bindE (sds_exec mal op s) (sds_run mal ops))"
  proof (rule res_ok_bindE)
    fix x assume "sds_wf x \<and> sdsval x = sds_apply op (sdsval s)"
    with Cons.IH [of x] Cons.prems(2)
    show "res_ok mal (\<lambda>s'. sds_wf s' \<and> sdsval s' = fold sds_apply (op # ops) (sdsval s)) (sds_run mal ops x)" by simp
  qed
  then show ?case by simp
qed simp

theorem sds_runs_refine_witness:
  "\<exists>s'. sds_run zero_alloc [Cat ''xyz  '', Trim '' a'', Range 1 (-2), Upper] demo_sds = Inr s' \<and> sdsval s' = ''CXY''"
proof -
  let ?ops = "[Cat ''xyz  '', Trim '' a'', Range 1 (-2), Upper]"
  have st: "sds_apply (Cat ''xyz  '') ''abc'' = ''abcxyz  ''" "sds_apply (Trim '' a'') ''abcxyz  '' = ''bcxyz''"
    "sds_apply (Range 1 (-2)) ''bcxyz'' = ''cxy''" "sds_apply Upper ''cxy'' = ''CXY''" by code_simp+
  then have run: "sds_run_ok ?ops ''abc''" "fold sds_apply ?ops ''abc'' = ''CXY''"
    by (simp_all del: sds_apply.simps)
  show ?thesis
    using res_ok_total [OF sds_runs_refine [of demo_sds ?ops zero_alloc]] run by (auto simp: demo_sds)
qed

text \<open>
  \<open>sdsMakeRoomFor\<close> leaves the bytes of the string as they are and makes room for
  \<open>addlen\<close> more; when it has to reallocate it asks for twice the new length, or for one
  megabyte more than it once that is large.
\<close>

theorem sdsMakeRoomFor_grows:
  assumes "sds_wf s" and "sdslen s + addlen < 2 ^ 62"
  shows "res_ok mal (\<lambda>s'. sds_wf s' \<and> sdsval s' = sdsval s \<and> addlen \<le> sdsavail s' \<and>
      (if addlen \<le> sdsavail s then s' = s else sdsalloc s' = grown (sdslen s + addlen)))
    (sdsMakeRoomFor mal s addlen)"
proof (cases "sdsMakeRoomFor mal s addlen")
  case (Inl e)
  then show ?thesis using sdsMakeRoomFor_ok [OF assms, of mal] by simp
next
  case (Inr s')
  then have "\<not> addlen \<le> sdsavail s \<Longrightarrow> sdsalloc s' = grown (sdslen s + addlen)"
    using assms by (intro sdsMakeRoomFor_alloc) auto
  moreover have "addlen \<le> sdsavail s \<Longrightarrow> s' = s" using Inr by (simp add: sdsMakeRoomFor_def)
  ultimately show ?thesis using sdsMakeRoomFor_ok [OF assms, of mal] Inr by simp
qed

theorem sdsMakeRoomFor_grows_witness:
  "\<exists>s'. sdsMakeRoomFor zero_alloc demo_sds 10 = Inr s' \<and> sdsval s' = ''abc'' \<and> sdsalloc s' = 26"
  using res_ok_total [OF sdsMakeRoomFor_grows [of demo_sds 10 zero_alloc]]
  by (auto simp: demo_sds grown_def SDS_MAX_PREALLOC_def)

text \<open>
  \<open>sdsrange\<close> keeps the slice between two inclusive indexes, negative ones counting from the
  end and both clamped into the string, for every pair of C ints.
\<close>

theorem sdsrange_slices:
  assumes "sds_wf s" and "sdslen s < 2 ^ 31"
    and "- (2 ^ 31) \<le> i" "i < 2 ^ 31" and "- (2 ^ 31) \<le> j" "j < 2 ^ 31"
  shows "\<exists>s'. sdsrange s i j = Inr s' \<and> sds_wf s' \<and> sdsval s' = slice (sdsval s) i j"
  using assms by (rule sdsrange_ok)

theorem sdsrange_slices_witness:
  "\<exists>s'. sdsrange demo_sds (-2) 7 = Inr s' \<and> sdsval s' = ''bc''"
proof -
  have "slice ''abc'' (-2) 7 = ''bc''" by code_simp
  then show ?thesis using sdsrange_slices [of demo_sds "-2" 7] by (auto simp: demo_sds)
qed

text \<open>
  \<open>sdstrim\<close> returns the longest part of the string that neither begins nor ends with a byte
  of the set. The terminator of the set counts as one of its bytes, so NUL bytes are trimmed too.
\<close>

theorem sdstrim_trims:
  assumes "sds_wf s"
  shows "\<exists>s' pre post. sdstrim s cset = Inr s' \<and> sds_wf s' \<and> sdsval s = pre @ sdsval s' @ post \<and>
    (\<forall>c\<in>set pre \<union> set post. strchr_hit cset c) \<and>
    (sdsval s' \<noteq> [] \<longrightarrow> \<not> strchr_hit cset (hd (sdsval s')) \<and> \<not> strchr_hit cset (last (sdsval s')))"
proof -
  from sdstrim_ok [OF assms, of cset] obtain s' where
    s': "sdstrim s cset = Inr s'" "sds_wf s'" "sdsval s' = trim_spec (strchr_hit cset) (sdsval s)" by blast
  from trim_spec_parts [of "sdsval s" "strchr_hit cset"] s' show ?thesis by fastforce
qed

theorem sdstrim_trims_witness:
  "\<exists>s' pre post. sdstrim demo_sds ''ca'' = Inr s' \<and> ''abc'' = pre @ sdsval s' @ post \<and>
     (\<forall>c\<in>set pre \<union> set post. strchr_hit ''ca'' c)"
  using sdstrim_trims [of demo_sds "''ca''"] unfolding demo_sds(2) using demo_sds(1) by blast

text \<open>
  \<open>sdscmp\<close> decides equality and the lexicographic order of unsigned bytes, for strings
  shorter than \<open>INT_MAX\<close>.
\<close>

theorem sdscmp_orders:
  assumes "sds_wf s1" "sds_wf s2" and "sdslen s1 < 2 ^ 31" "sdslen s2 < 2 ^ 31"
  shows "(sdscmp s1 s2 = 0 \<longleftrightarrow> sdsval s1 = sdsval s2) \<and>
         (sdscmp s1 s2 < 0 \<longleftrightarrow> (sdsval s1, sdsval s2) \<in> lexord byte_less)"
  using assms by (rule sdscmp_lexord)

theorem sdscmp_orders_witness:
  "sdscmp demo_sds (sdstoupper demo_sds) \<noteq> 0 \<and> (''abc'', ''ABC'') \<notin> lexord byte_less"
proof -
  have up: "sdstoupper demo_sds = demo_sds\<lparr>hbuf := ''ABC'' @ replicate 4 NUL\<rparr>" by code_simp
  have "sds_wf (sdstoupper demo_sds)" "sdsval (sdstoupper demo_sds) = ''ABC''" "sdslen (sdstoupper demo_sds) = 3"
    unfolding up by (simp_all add: demo_sds_def sds_wf_def sds_shape_def sdsval_def sdsalloc_def sdslen_def)
  moreover have "\<not> sdscmp demo_sds (sdstoupper demo_sds) < 0" by code_simp
  ultimately show ?thesis using sdscmp_orders [of demo_sds "sdstoupper demo_sds"] by (auto simp: demo_sds)
qed

text \<open>
  C20. \<open>sdsll2str\<close> writes the decimal representation of every \<open>long long\<close>, the most negative
  one included, and with its terminator it fits the buffer of \<open>SDS_LLSTR_SIZE\<close> bytes.
\<close>

theorem sdsll2str_prints:
  assumes "- (2 ^ 63) \<le> v" and "v < 2 ^ 63"
  shows "sdsll2str v = signed_decimal v \<and> length (sdsll2str v) + 1 \<le> SDS_LLSTR_SIZE"
  using sdsll2str_signed_decimal [OF assms] sdsll2str_fits [OF assms] by simp

theorem sdsll2str_prints_witness: "sdsll2str (- (2 ^ 63)) = ''-9223372036854775808''"
proof -
  have "signed_decimal (- (2 ^ 63)) = ''-9223372036854775808''"
    by (simp add: signed_decimal_def decimal.simps digit_char_def char_of_def bit_0)
  then show ?thesis using sdsll2str_prints [of "- (2 ^ 63)"] by simp
qed

text \<open>
  C21. \<open>sdscatvprintf\<close> appends the whole text that \<open>vsnprintf\<close> produces, however long it is: the
  loop that doubles its buffer ends, with the static buffer or a larger one.
\<close>

theorem sdscatvprintf_appends:
  assumes "sds_wf s" and "sdslen s + length (cstring out) < 2 ^ 62"
  shows "res_ok mal (\<lambda>s'. sds_wf s' \<and> sdsval s' = sdsval s @ cstring out) (sdscatvprintf mal s fmt out)"
  using assms by (rule sdscatvprintf_ok)

theorem sdscatvprintf_appends_witness:
  "\<exists>s'. sdscatvprintf zero_alloc demo_sds ''%d'' (replicate 1500 CHR ''7'') = Inr s' \<and>
     sdsval s' = ''abc'' @ replicate 1500 CHR ''7''"
proof -
  have "cstring (replicate 1500 CHR ''7'') = replicate 1500 CHR ''7''" by (rule cstring_id) simp
  then show ?thesis
    using res_ok_total [OF sdscatvprintf_appends [of demo_sds "replicate 1500 CHR ''7''" zero_alloc "''%d''"]]
    by (auto simp: demo_sds)
qed

text \<open>
  \<open>sdscatfmt\<close> appends the expansion of the format: every directive replaced by its
  argument, any other character after \<open>%\<close> by itself. It holds when no allocation is refused, or when
  the string has room already; the code does not check the allocations it makes on the way.
\<close>

theorem sdscatfmt_expands:
  assumes "fmt_expand (cstring fmt) ap = Some xs" and "sds_wf s" and "sds_args_ok ap"
    and "grants_all mal \<or> length xs < sdsavail s" and "sdslen s + length xs < 2 ^ 31"
  shows "\<exists>s'. sdscatfmt mal s fmt ap = Inr s' \<and> sds_wf s' \<and> sdsval s' = sdsval s @ xs"
  using sdscatfmt_ok [OF assms] by blast

theorem sdscatfmt_expands_witness:
  "\<exists>s'. sdscatfmt zero_alloc demo_sds ''[%s|%S|%i%%]'' [ArgStr ''x'', ArgSds demo_sds, ArgInt (-42)] = Inr s' \<and>
     sdsval s' = ''abc[x|abc|-42%]''"
proof -
  let ?ap = "[ArgStr ''x'', ArgSds demo_sds, ArgInt (-42)]"
  have "fmt_expand (cstring ''[%s|%S|%i%%]'') ?ap = Some ''[x|abc|-42%]''" by code_simp
  moreover have "sds_args_ok ?ap" using demo_sds(1) by (auto simp: sds_args_ok_def sds_wf_def)
  ultimately show ?thesis
    using sdscatfmt_expands [of "''[%s|%S|%i%%]''" ?ap "''[x|abc|-42%]''" demo_sds zero_alloc]
    by (auto simp: demo_sds)
qed

text \<open>
  C22. \<open>sdssplitlen\<close> cuts a non-empty string at every occurrence of the separator: no token
  contains it, and \<open>sdsjoinsds\<close> with the same separator gives the string back.
\<close>

theorem sds_split_join:
  assumes "grants_all mal" and "0 < length s" and "length s < 2 ^ 31" and "0 < length sep"
  shows "\<exists>toks j. sdssplitlen mal s (int (length s)) sep (int (length sep)) = Inr (Some toks) \<and>
     (\<forall>t\<in>set toks. \<not> occurs sep (sdsval t)) \<and>
     sdsjoinsds mal toks sep (length sep) = Inr j \<and> sdsval j = s"
proof -
  from sdssplitlen_ok [OF assms] obtain toks where
    t: "sdssplitlen mal s (int (length s)) sep (int (length sep)) = Inr (Some toks)"
    "\<forall>t\<in>set toks. sds_wf t \<and> \<not> occurs sep (sdsval t)" "intersperse_join sep (map sdsval toks) = s"
    by blast
  from sdsjoinsds_ok [OF assms(1), of toks "length sep" sep] t assms(3) show ?thesis by auto
qed

theorem sds_split_join_witness:
  "\<exists>toks j. sdssplitlen zero_alloc ''a--b---c'' 8 ''--'' 2 = Inr (Some toks) \<and>
     sdsjoinsds zero_alloc toks ''--'' (length ''--'') = Inr j \<and> sdsval j = ''a--b---c''"
  using sds_split_join [of zero_alloc "''a--b---c''" "''--''"] by auto

text \<open>
  C23. Quoting is inverted by argument splitting: any byte strings, written by \<open>sdscatrepr\<close>
  and joined with spaces, are read back by \<open>sdssplitargs\<close> one by one, whatever bytes they hold.
\<close>

theorem repr_splitargs_roundtrip:
  assumes g: "grants_all mal" and e: "sdsempty mal = Inr e"
    and r: "list_all2 (\<lambda>x r. sdscatrepr mal e x (length x) = Inr r) xs rs"
    and b: "(\<Sum>x\<leftarrow>xs. 4 * length x + 3) < 2 ^ 59" and ne: "xs \<noteq> []"
  shows "\<exists>line toks. sdsjoinsds mal rs '' '' 1 = Inr line \<and>
     sdssplitargs mal (sdsval line) = Inr (Some toks) \<and> map sdsval toks = xs"
proof -
  have "sds_wf e" "sdsval e = []" using sdsempty_ok [of mal] e by auto
  moreover have len: "\<forall>x\<in>set xs. length x < 2 ^ 59"
    using b by (auto dest!: sum_list_member_le [where f = "\<lambda>x. 4 * length x + 3"])
  ultimately have rs: "\<forall>r\<in>set rs. sds_wf r" "map sdsval rs = map quoted xs"
    using catrepr_all [OF g _ _ _ r] by auto
  have "length (intersperse_join '' '' (map quoted xs)) < 2 ^ 62"
    using length_quoted_args [of xs] b by simp
  with sdsjoinsds_ok [OF g rs(1), of 1 "'' ''"] rs(2) obtain line where
    line: "sdsjoinsds mal rs '' '' 1 = Inr line" "sdsval line = intersperse_join '' '' (map quoted xs)" by auto
  have "\<forall>x\<in>set xs. length x < 2 ^ 61" using len by auto
  from splitargs_loop_quoted [OF g this, of "[]"] obtain toks where
    "sdssplitargs mal (sdsval line) = Inr (Some toks)" "map sdsval toks = xs"
    unfolding intersperse_space [OF ne] splitargs_loop_space
    by (auto simp: sdssplitargs_def line(2) cstring_id quoted_args_NUL)
  with line(1) show ?thesis by blast
qed

theorem repr_splitargs_roundtrip_witness:
  "\<exists>e r line toks. sdsempty zero_alloc = Inr e \<and> sdscatrepr zero_alloc e [NUL, CHR 0x22, CHR ''z''] 3 = Inr r \<and>
     sdsjoinsds zero_alloc [r, r] '' '' 1 = Inr line \<and>
     sdssplitargs zero_alloc (sdsval line) = Inr (Some toks) \<and>
     map sdsval toks = [[NUL, CHR 0x22, CHR ''z''], [NUL, CHR 0x22, CHR ''z'']]"
proof -
  let ?x = "[NUL, CHR 0x22, CHR ''z'']"
  obtain e where e: "sdsempty zero_alloc = Inr e" "sds_wf e" "sdsval e = []"
    using res_ok_total [OF sdsempty_ok grants_all_zero_alloc] by blast
  moreover have "sdslen e = 0" using e sdsval_length [OF sds_wf_shape [OF e(2)]] by simp
  ultimately obtain r where r: "sdscatrepr zero_alloc e ?x (length ?x) = Inr r"
    using sdscatrepr_ok [OF grants_all_zero_alloc e(2), of 3 ?x] by (auto simp: numeral_3_eq_3)
  from repr_splitargs_roundtrip [OF grants_all_zero_alloc e(1), of "[?x, ?x]" "[r, r]"] e(1) r
  show ?thesis by (auto simp: numeral_3_eq_3)
qed
end
