(* ===== verification/Command.thy ===== *)
theory Command
  imports ReaderSpec SdsSpec
begin

section \<open>Formatting commands (hiredis/hiredis.c)\<close>

text \<open>
  The functions that write a command in the protocol of the server: from a format and variadic
  arguments, or from a vector of arguments, into a fresh block or into an sds string.
\<close>

subsection \<open>Lengths\<close>

function countDigits_loop :: "nat \<Rightarrow> nat \<Rightarrow> nat" where
  "countDigits_loop v result =
     (if v < 10 then result
      else if v < 100 then result + 1
      else if v < 1000 then result + 2
      else if v < 10000 then result + 3
      else countDigits_loop (v div 10000) (result + 4))"
  by pat_completeness auto
termination by (relation "measure fst") auto

declare countDigits_loop.simps [simp del]

definition countDigits :: "nat \<Rightarrow> nat" where
  "countDigits v = countDigits_loop v 1"

definition bulklen :: "nat \<Rightarrow> nat" where
  "bulklen len = wrap64 (1 + countDigits len + 2 + len + 2)"

lemma length_decimal: "length (decimal n) = (if n < 10 then 1 else Suc (length (decimal (n div 10))))"
  by (subst decimal.simps) simp

lemma countDigits_loop_decimal: "countDigits_loop v r = r + length (decimal v) - 1"
proof (induction v r rule: countDigits_loop.induct)
  case (1 v r)
  have d: "v div 10 div 10 div 10 div 10 = v div 10000" by (simp add: div_mult2_eq [symmetric])
  have pos: "0 < length (decimal (v div 10000))" by simp
  consider "v < 10" | "10 \<le> v" "v < 100" | "100 \<le> v" "v < 1000" | "1000 \<le> v" "v < 10000" | "10000 \<le> v" by linarith
  then show ?case
  proof cases
    case 5
    then have n: "\<not> v < 10" "\<not> v div 10 < 10" "\<not> v div 10 div 10 < 10" "\<not> v div 10 div 10 div 10 < 10"
      by (simp_all add: div_mult2_eq [symmetric] div_less_iff_less_mult not_less)
    have step: "length (decimal w) = Suc (length (decimal (w div 10)))" if "\<not> w < 10" for w
      using length_decimal [of w] that by simp
    have "length (decimal v) = 4 + length (decimal (v div 10000))"
      unfolding step [OF n(1)] step [OF n(2)] step [OF n(3)] step [OF n(4)] d by simp
    with 5 1 pos show ?thesis by (simp add: countDigits_loop.simps [of v])
  qed (simp_all add: countDigits_loop.simps [of v] length_decimal [of v] length_decimal [of "v div 10"]
      length_decimal [of "v div 10 div 10"] length_decimal [of "v div 10 div 10 div 10"] length_decimal [of "v div 100"] length_decimal [of "v div 1000"]
      div_mult2_eq [symmetric] div_less_iff_less_mult)
qed

lemma countDigits_decimal: "countDigits v = length (decimal v)"
  by (simp add: countDigits_def countDigits_loop_decimal)

subsection \<open>The protocol level\<close>

text \<open>
  \<open>pos\<close> and \<open>totlen\<close> are of type \<open>int\<close>. An argument is the block its pointer points to and the
  length to take; \<open>sprintf\<close> writes its text and a terminator.
\<close>

definition poke_int :: "char list \<Rightarrow> int \<Rightarrow> char list \<Rightarrow> char list res" where
  "poke_int b pos xs = (if pos < 0 then Inl OutOfBounds else poke b (nat pos) xs)"

definition put_bytes :: "char list \<Rightarrow> int \<Rightarrow> char list \<Rightarrow> (char list \<times> int) res" where
  "put_bytes b pos xs = bindE (poke_int b pos xs) (\<lambda>b. Inr (b, to_int32 (pos + int (length xs))))"

definition put_text :: "char list \<Rightarrow> int \<Rightarrow> char list \<Rightarrow> (char list \<times> int) res" where
  \<comment> \<open>\<open>pos += sprintf(cmd+pos, ...)\<close>\<close>
  "put_text b pos xs = bindE (poke_int b pos (xs @ [NUL])) (\<lambda>b. Inr (b, to_int32 (pos + int (length xs))))"

fun put_args :: "char list \<Rightarrow> int \<Rightarrow> (char list \<times> nat) list \<Rightarrow> (char list \<times> int) res" where
  "put_args b pos [] = Inr (b, pos)"
| "put_args b pos ((blk, len) # args) =
     bindE (put_text b pos (''$'' @ decimal len @ CRLF)) (\<lambda>(b, pos).
     bindE (peekn blk 0 len) (\<lambda>arg.
     bindE (put_bytes b pos arg) (\<lambda>(b, pos).
     bindE (put_bytes b pos [CHR 0x0D]) (\<lambda>(b, pos).
     bindE (put_bytes b pos [CHR 0x0A]) (\<lambda>(b, pos).
     put_args b pos args)))))"

definition build_command :: "allocator \<Rightarrow> int \<Rightarrow> int \<Rightarrow> (char list \<times> nat) list \<Rightarrow> char list res" where
  \<comment> \<open>the block of \<open>totlen + 1\<close> bytes with the finished command and its terminator\<close>
  "build_command mal totlen argc args =
     bindE (malloc mal (nat (to_int32 (totlen + 1) mod 2 ^ 64))) (\<lambda>cmd.
     bindE (put_text cmd 0 (''*'' @ signed_decimal argc @ CRLF)) (\<lambda>(cmd, pos).
     bindE (put_args cmd pos args) (\<lambda>(cmd, pos).
     if pos \<noteq> totlen then Inl AssertFailed else poke_int cmd pos [NUL])))"

subsection \<open>The command as bytes\<close>

text \<open>The reference: what a command with the given arguments looks like on the wire.\<close>

definition bulk_bytes :: "char list \<Rightarrow> char list" where
  "bulk_bytes x = CHR ''$'' # decimal (length x) @ CRLF @ x @ CRLF"

definition command_bytes :: "char list list \<Rightarrow> char list" where
  "command_bytes xs = CHR ''*'' # decimal (length xs) @ CRLF @ concat (map bulk_bytes xs)"

lemma length_bulk_bytes: "length (bulk_bytes x) = 5 + length (decimal (length x)) + length x"
  by (simp add: bulk_bytes_def)

lemma bulklen_bytes: "length x < 2 ^ 62 \<Longrightarrow> bulklen (length x) = length (bulk_bytes x)"
proof -
  assume l: "length x < 2 ^ 62"
  then have "length (decimal (length x)) \<le> 20" by (intro length_decimal_le) simp_all
  with l show ?thesis by (simp add: bulklen_def countDigits_decimal bulk_bytes_def)
qed

definition filled :: "nat \<Rightarrow> char list \<Rightarrow> char list \<Rightarrow> bool" where
  \<comment> \<open>a block of \<open>n\<close> bytes that starts with the bytes \<open>d\<close>\<close>
  "filled n d b \<longleftrightarrow> length b = n \<and> take (length d) b = d"

lemma put_bytes_ok:
  assumes "filled n d b" and "length d + length xs \<le> n" and "n < 2 ^ 31"
  shows "\<exists>b'. put_bytes b (int (length d)) xs = Inr (b', int (length (d @ xs))) \<and> filled n (d @ xs) b'"
proof -
  have "to_int32 (int (length d) + int (length xs)) = int (length (d @ xs))"
    using assms by (subst to_int32_id) auto
  with assms show ?thesis by (simp add: filled_def put_bytes_def poke_int_def poke_Inr)
qed

lemma put_text_ok:
  assumes "filled n d b" and "length d + length xs < n" and "n < 2 ^ 31"
  shows "\<exists>b'. put_text b (int (length d)) xs = Inr (b', int (length (d @ xs))) \<and> filled n (d @ xs) b'"
proof -
  have "to_int32 (int (length d) + int (length xs)) = int (length (d @ xs))"
    using assms by (subst to_int32_id) auto
  with assms show ?thesis by (simp add: filled_def put_text_def poke_int_def poke_Inr)
qed

abbreviation (input) arg_values :: "(char list \<times> nat) list \<Rightarrow> char list list" where
  "arg_values args \<equiv> map (\<lambda>(blk, len). take len blk) args"

lemma put_args_ok:
  assumes "\<forall>(blk, len)\<in>set args. len \<le> length blk" and "filled n d b" and "n < 2 ^ 31"
    and "length d + length (concat (map bulk_bytes (arg_values args))) < n"
  shows "\<exists>b'. put_args b (int (length d)) args =
      Inr (b', int (length (d @ concat (map bulk_bytes (arg_values args))))) \<and>
    filled n (d @ concat (map bulk_bytes (arg_values args))) b'"
  using assms
proof (induction args arbitrary: b d)
  case Nil
  then show ?case by simp
next
  case (Cons a args)
  obtain blk len where a: "a = (blk, len)" by fastforce
  let ?rest = "concat (map bulk_bytes (arg_values args))"
  let ?hd = "''$'' @ decimal len @ CRLF" and ?x = "take len blk"
  have len: "len \<le> length blk" "\<forall>(blk, len)\<in>set args. len \<le> length blk" using Cons.prems(1) a by auto
  have bb: "bulk_bytes ?x = ((?hd @ ?x) @ [CHR 0x0D]) @ [CHR 0x0A]" using len by (simp add: bulk_bytes_def)
  have room: "length d + length (bulk_bytes ?x) + length ?rest < n" using Cons.prems(4) a by simp
  note small = Cons.prems(3)
  have "length d + length ?hd < n" using room by (simp add: bb)
  from put_text_ok [OF Cons.prems(2) this small] obtain b1 where
    b1: "put_text b (int (length d)) ?hd = Inr (b1, int (length (d @ ?hd)))" "filled n (d @ ?hd) b1" by blast
  have "length (d @ ?hd) + length ?x \<le> n" using room by (simp add: bb)
  from put_bytes_ok [OF b1(2) this small] obtain b2 where
    b2: "put_bytes b1 (int (length (d @ ?hd))) ?x = Inr (b2, int (length ((d @ ?hd) @ ?x)))" "filled n ((d @ ?hd) @ ?x) b2" by blast
  have "length ((d @ ?hd) @ ?x) + length [CHR 0x0D] \<le> n" using room by (simp add: bb)
  from put_bytes_ok [OF b2(2) this small] obtain b3 where
    b3: "put_bytes b2 (int (length ((d @ ?hd) @ ?x))) [CHR 0x0D] = Inr (b3, int (length (((d @ ?hd) @ ?x) @ [CHR 0x0D])))"
      "filled n (((d @ ?hd) @ ?x) @ [CHR 0x0D]) b3" by blast
  have "length (((d @ ?hd) @ ?x) @ [CHR 0x0D]) + length [CHR 0x0A] \<le> n" using room by (simp add: bb)
  from put_bytes_ok [OF b3(2) this small] obtain b4 where
    b4: "put_bytes b3 (int (length (((d @ ?hd) @ ?x) @ [CHR 0x0D]))) [CHR 0x0A] =
        Inr (b4, int (length ((((d @ ?hd) @ ?x) @ [CHR 0x0D]) @ [CHR 0x0A])))"
      "filled n ((((d @ ?hd) @ ?x) @ [CHR 0x0D]) @ [CHR 0x0A]) b4" by blast
  have d: "(((d @ ?hd) @ ?x) @ [CHR 0x0D]) @ [CHR 0x0A] = d @ bulk_bytes ?x" by (simp add: bb)
  have "length (d @ bulk_bytes ?x) + length ?rest < n" using room by simp
  from Cons.IH [OF len(2) b4(2) [unfolded d] small this] obtain b5 where
    b5: "put_args b4 (int (length (d @ bulk_bytes ?x))) args = Inr (b5, int (length ((d @ bulk_bytes ?x) @ ?rest)))"
      "filled n ((d @ bulk_bytes ?x) @ ?rest) b5" by blast
  have arg: "peekn blk 0 len = Inr ?x" using len by (simp add: peekn_def)
  have "put_args b (int (length d)) (a # args) = Inr (b5, int (length ((d @ bulk_bytes ?x) @ ?rest)))"
    unfolding a put_args.simps b1(1) bindE.simps prod.case arg b2(1) b3(1) b4(1) d b5(1) ..
  then show ?case using b5(2) by (simp add: a)
qed

lemma build_command_ok:
  assumes args: "\<forall>(blk, len)\<in>set args. len \<le> length blk" and n: "length (command_bytes (arg_values args)) < 2 ^ 31 - 1"
  shows "res_ok mal (\<lambda>b. b = command_bytes (arg_values args) @ [NUL])
    (build_command mal (int (length (command_bytes (arg_values args)))) (int (length args)) args)"
proof -
  let ?c = "command_bytes (arg_values args)" and ?n = "Suc (length (command_bytes (arg_values args)))"
  let ?hd = "''*'' @ signed_decimal (int (length args)) @ CRLF" and ?rest = "concat (map bulk_bytes (arg_values args))"
  have c: "?c = ?hd @ ?rest" by (simp add: command_bytes_def signed_decimal_def)
  have sz: "nat (to_int32 (int (length ?c) + 1) mod 2 ^ 64) = ?n"
    using n by (subst to_int32_id) auto
  show ?thesis unfolding build_command_def sz
  proof (rule res_ok_bindE [OF res_ok_malloc])
    fix b :: "char list" assume b: "length b = ?n"
    have "filled ?n [] b" "length [] + length ?hd < ?n" "?n < 2 ^ 31" using b n c by (simp_all add: filled_def)
    from put_text_ok [OF this] obtain b1 where
      b1: "put_text b 0 ?hd = Inr (b1, int (length ?hd))" "filled ?n ?hd b1" by auto
    have "length ?hd + length ?rest < ?n" using c by simp
    from put_args_ok [OF args b1(2) _ this] n obtain b2 where
      b2: "put_args b1 (int (length ?hd)) args = Inr (b2, int (length ?c))" "filled ?n ?c b2" unfolding c by auto
    have "poke_int b2 (int (length ?c)) [NUL] = Inr (?c @ [NUL])"
      using b2(2) by (simp add: poke_int_def poke_Inr filled_def)
    then show "res_ok mal (\<lambda>b. b = ?c @ [NUL]) (bindE (put_text b 0 ?hd) (\<lambda>(cmd, pos).
        bindE (put_args cmd pos args) (\<lambda>(cmd, pos). if pos \<noteq> int (length ?c) then Inl AssertFailed else poke_int cmd pos [NUL])))"
      unfolding b1(1) bindE.simps prod.case b2(1) by simp
  qed
qed

subsection \<open>Commands from a vector of arguments\<close>

text \<open>
  \<open>argv\<close> holds the blocks the pointers point to; without lengths each must hold a terminator.
  \<open>target\<close> tells whether the pointer to the result is not NULL. The result is the returned length
  and the command that is stored through the pointer.
\<close>

fun argv_args :: "nat \<Rightarrow> char list list \<Rightarrow> nat list option \<Rightarrow> (char list \<times> nat) list res" where
  \<comment> \<open>the first \<open>argc\<close> arguments with their lengths\<close>
  "argv_args 0 argv lens = Inr []"
| "argv_args (Suc n) [] lens = Inl OutOfBounds"
| "argv_args (Suc n) (a # argv) None =
     bindE (strlen_blk a) (\<lambda>l. bindE (argv_args n argv None) (\<lambda>args. Inr ((a, l) # args)))"
| "argv_args (Suc n) (a # argv) (Some []) = Inl OutOfBounds"
| "argv_args (Suc n) (a # argv) (Some (l # lens)) =
     bindE (argv_args n argv (Some lens)) (\<lambda>args. Inr ((a, l) # args))"

definition head_len :: "int \<Rightarrow> nat" where
  "head_len argc = 1 + countDigits (nat (argc mod 2 ^ 64)) + 2"

definition redisFormatCommandArgv ::
  "allocator \<Rightarrow> bool \<Rightarrow> int \<Rightarrow> char list list \<Rightarrow> nat list option \<Rightarrow> (int \<times> char list option) res" where
  "redisFormatCommandArgv mal target argc argv argvlen =
     (if \<not> target then Inr (-1, None)
      else bindE (argv_args (nat argc) argv argvlen) (\<lambda>args.
        let totlen = foldl (\<lambda>t (_, len). to_int32 (t + int (bulklen len))) (int (head_len argc)) args
        in case build_command mal totlen argc args of
             Inl OutOfMemory \<Rightarrow> Inr (-1, None)
           | Inl e \<Rightarrow> Inl e
           | Inr cmd \<Rightarrow> Inr (totlen, Some cmd)))"

fun sds_put_args :: "allocator \<Rightarrow> sdshdr \<Rightarrow> (char list \<times> nat) list \<Rightarrow> sdshdr res" where
  \<comment> \<open>the length, a \<open>size_t\<close>, is read by \<open>%u\<close> as an \<open>unsigned int\<close>; results are not checked for NULL\<close>
  "sds_put_args mal cmd [] = Inr cmd"
| "sds_put_args mal cmd ((blk, len) # args) =
     bindE (sdscatfmt mal cmd (''$%u'' @ CRLF) [ArgUInt (len mod 2 ^ 32)]) (\<lambda>cmd.
     bindE (null_deref (sdscatlen mal cmd blk len)) (\<lambda>cmd.
     bindE (null_deref (sdscatlen mal cmd CRLF 2)) (\<lambda>cmd.
     sds_put_args mal cmd args)))"

definition redisFormatSdsCommandArgv ::
  "allocator \<Rightarrow> bool \<Rightarrow> int \<Rightarrow> char list list \<Rightarrow> nat list option \<Rightarrow> (int \<times> sdshdr option) res" where
  "redisFormatSdsCommandArgv mal target argc argv argvlen =
     (if \<not> target then Inr (-1, None)
      else bindE (argv_args (nat argc) argv argvlen) (\<lambda>args.
        let totlen = foldl (\<lambda>t (_, len). wrap64 (t + bulklen len)) (head_len argc) args
        in case bindE (sdsempty mal) (\<lambda>cmd. sdsMakeRoomFor mal cmd totlen) of
             Inl OutOfMemory \<Rightarrow> Inr (-1, None)
           | Inl e \<Rightarrow> Inl e
           | Inr cmd \<Rightarrow>
               bindE (sdscatfmt mal cmd (''*%i'' @ CRLF) [ArgInt argc]) (\<lambda>cmd.
               bindE (sds_put_args mal cmd args) (\<lambda>cmd.
               if sdslen cmd \<noteq> totlen then Inl AssertFailed
               else Inr (to_int32 (int totlen), Some cmd)))))"

subsection \<open>Commands from a format\<close>

text \<open>
  The variadic arguments of \<open>redisCommand\<close> and its relatives, by the type they are read at. What
  the library's \<open>vsnprintf\<close> prints for a conversion and its argument is the parameter \<open>vsn\<close>.
\<close>

datatype va_arg =
    VaPtr "char list"
  | VaSize nat
  | VaInt int
  | VaLong int
  | VaLongLong int
  | VaDouble nat

type_synonym vsn = "char list \<Rightarrow> va_arg \<Rightarrow> char list"

datatype conv = ConvInt | ConvLong | ConvLongLong | ConvDouble

fun va_next :: "conv \<Rightarrow> va_arg list \<Rightarrow> (va_arg \<times> va_arg list) res" where
  "va_next ConvInt (VaInt i # ap) = Inr (VaInt i, ap)"
| "va_next ConvLong (VaLong i # ap) = Inr (VaLong i, ap)"
| "va_next ConvLongLong (VaLongLong i # ap) = Inr (VaLongLong i, ap)"
| "va_next ConvDouble (VaDouble d # ap) = Inr (VaDouble d, ap)"
| "va_next _ _ = Inl BadVarArg"

abbreviation (input) intfmts :: "char list" where "intfmts \<equiv> ''diouxX''"

definition skip_modifiers :: "char list \<Rightarrow> char list" where
  \<comment> \<open>flags, field width and precision\<close>
  "skip_modifiers p =
     (let p = dropWhile (\<lambda>c. c \<in> set ''#0-+ '') p;
          p = dropWhile is_digit p
      in case p of c # p' \<Rightarrow> if c = CHR ''.'' then dropWhile is_digit p' else p | [] \<Rightarrow> p)"

definition int_after :: "conv \<Rightarrow> char list \<Rightarrow> (conv \<times> char list) option" where
  "int_after cv p = (case p of c # _ \<Rightarrow> if c \<in> set intfmts then Some (cv, p) else None | [] \<Rightarrow> None)"

definition conversion :: "char list \<Rightarrow> (conv \<times> char list) option" where
  \<comment> \<open>the kind of the conversion and the format from its last character on; at the end of the
     format \<open>strchr(intfmts, 0)\<close> finds the terminator of \<open>intfmts\<close>\<close>
  "conversion p =
     (case p of
        [] \<Rightarrow> Some (ConvInt, p)
      | c # p' \<Rightarrow>
          if c \<in> set intfmts then Some (ConvInt, p)
          else if c \<in> set ''eEfFgGaA'' then Some (ConvDouble, p)
          else if take 2 p = ''hh'' then int_after ConvInt (drop 2 p)
          else if c = CHR ''h'' then int_after ConvInt p'
          else if take 2 p = ''ll'' then int_after ConvLongLong (drop 2 p)
          else if c = CHR ''l'' then int_after ConvLong p'
          else None)"

text \<open>
  A step of the loop ends in an error (\<open>Inl (-1)\<close>: out of memory, \<open>Inl (-2)\<close>: invalid format) or
  goes on.
\<close>

definition or_memory_err :: "'a res \<Rightarrow> ('a \<Rightarrow> (int + 'b) res) \<Rightarrow> (int + 'b) res" where
  "or_memory_err x f = (case x of Inl OutOfMemory \<Rightarrow> Inr (Inl (-1)) | Inl e \<Rightarrow> Inl e | Inr y \<Rightarrow> f y)"

definition fmt_printf ::
  "allocator \<Rightarrow> vsn \<Rightarrow> sdshdr \<Rightarrow> char list \<Rightarrow> va_arg list \<Rightarrow> (int + sdshdr \<times> char list \<times> va_arg list) res" where
  \<comment> \<open>the conversions of \<open>printf\<close>; \<open>g\<close> is the format after the percent sign\<close>
  "fmt_printf mal vsn cur g ap =
     (case conversion (skip_modifiers g) of
        None \<Rightarrow> Inr (Inl (-2))
      | Some (cv, q) \<Rightarrow>
          bindE (va_next cv ap) (\<lambda>(a, ap).
          let l = 1 + length g - length q + 1; fmt = take l (CHR ''%'' # g)
          in if l < 14
             then or_memory_err (sdscatvprintf mal cur fmt (vsn fmt a)) (\<lambda>cur.
                  if q = [] then Inl OutOfBounds else Inr (Inr (cur, tl q, ap)))
             else Inr (Inr (cur, tl g, ap))))"

definition fmt_directive ::
  "allocator \<Rightarrow> vsn \<Rightarrow> sdshdr \<Rightarrow> char list \<Rightarrow> va_arg list \<Rightarrow> (int + sdshdr \<times> char list \<times> va_arg list) res" where
  \<comment> \<open>what a percent sign does to the current argument, with the format and arguments that are left\<close>
  "fmt_directive mal vsn cur g ap =
     (case g of
        [] \<Rightarrow> Inl OutOfBounds
      | d # g' \<Rightarrow>
          if d = CHR ''s'' then
            (case ap of VaPtr arg # ap \<Rightarrow>
               or_memory_err (if length (cstring arg) > 0 then sdscatlen mal cur (cstring arg) (length (cstring arg)) else Inr cur)
                 (\<lambda>cur. Inr (Inr (cur, g', ap)))
             | _ \<Rightarrow> Inl BadVarArg)
          else if d = CHR ''b'' then
            (case ap of VaPtr arg # VaSize n # ap \<Rightarrow>
               or_memory_err (if n > 0 then sdscatlen mal cur arg n else Inr cur) (\<lambda>cur. Inr (Inr (cur, g', ap)))
             | _ \<Rightarrow> Inl BadVarArg)
          else if d = CHR ''%'' then or_memory_err (sdscat mal cur ''%'') (\<lambda>cur. Inr (Inr (cur, g', ap)))
          else fmt_printf mal vsn cur g ap)"

record fmt_state =
  fs_argv :: "sdshdr list"
  fs_cur :: sdshdr
  fs_touched :: bool
  fs_totlen :: int

definition push_arg :: "allocator \<Rightarrow> fmt_state \<Rightarrow> fmt_state res" where
  \<comment> \<open>the current argument is added to the vector, which grows by one pointer\<close>
  "push_arg mal st =
     (case mal (8 * (length (fs_argv st) + 1)) of
        None \<Rightarrow> Inl OutOfMemory
      | Some _ \<Rightarrow> Inr (st\<lparr>fs_argv := fs_argv st @ [fs_cur st],
                      fs_totlen := to_int32 (fs_totlen st + int (bulklen (sdslen (fs_cur st))))\<rparr>))"

lemma int_after_length: "int_after cv p = Some (c, q) \<Longrightarrow> length q \<le> length p"
  by (auto simp: int_after_def split: list.splits if_splits)

lemma conversion_length: "conversion p = Some (c, q) \<Longrightarrow> length q \<le> length p"
  by (auto simp: conversion_def simp del: list.set split: list.splits if_splits dest!: int_after_length)

lemma skip_modifiers_length: "length (skip_modifiers p) \<le> length p"
proof -
  have d: "length (dropWhile P xs) \<le> length xs" for P :: "char \<Rightarrow> bool" and xs by (rule length_dropWhile_le)
  show ?thesis
    using d [of "\<lambda>c. c \<in> set ''#0-+ ''" p] d [of is_digit "dropWhile (\<lambda>c. c \<in> set ''#0-+ '') p"]
      d [of is_digit "tl (dropWhile is_digit (dropWhile (\<lambda>c. c \<in> set ''#0-+ '') p))"]
    unfolding skip_modifiers_def Let_def by (auto split: list.split)
qed

lemma or_memory_err_InrInr: "or_memory_err x f = Inr (Inr y) \<longleftrightarrow> (\<exists>z. x = Inr z \<and> f z = Inr (Inr y))"
  by (auto simp: or_memory_err_def split: sum.split mem_error.split)

lemma fmt_directive_length [termination_simp]:
  assumes "fmt_directive mal vsn cur g ap = Inr (Inr (cur', rest, ap'))"
  shows "length rest < length g"
proof -
  have "length rest < length g" if "fmt_printf mal vsn cur g ap = Inr (Inr (cur', rest, ap'))" "g \<noteq> []"
  proof -
    from that obtain cv q where q: "conversion (skip_modifiers g) = Some (cv, q)" "rest = tl q \<and> q \<noteq> [] \<or> rest = tl g"
      by (auto simp: fmt_printf_def bindE_Inr_iff or_memory_err_InrInr Let_def split: option.splits if_splits)
    then have "length q \<le> length g" using conversion_length [OF q(1)] skip_modifiers_length [of g] by simp
    with q(2) that(2) show ?thesis by (cases q; cases g) auto
  qed
  moreover obtain d g' where g: "g = d # g'" using assms by (cases g) (auto simp: fmt_directive_def)
  moreover have "rest = g' \<or> fmt_printf mal vsn cur g ap = Inr (Inr (cur', rest, ap'))"
    using assms unfolding fmt_directive_def g list.case
    by (simp split: if_split_asm) (simp_all add: or_memory_err_InrInr split: list.splits va_arg.splits)
  ultimately show ?thesis by auto
qed

function fmt_loop :: "allocator \<Rightarrow> vsn \<Rightarrow> char list \<Rightarrow> va_arg list \<Rightarrow> fmt_state \<Rightarrow> (int + fmt_state) res" where
  "fmt_loop mal vsn f ap st =
     (case f of
        [] \<Rightarrow> Inr (Inr st)
      | c # g \<Rightarrow>
          if c \<noteq> CHR ''%'' \<or> g = [] then
            if c = CHR '' '' then
              if fs_touched st then
                or_memory_err (bindE (push_arg mal st) (\<lambda>st. bindE (sdsempty mal) (\<lambda>cur.
                    Inr (st\<lparr>fs_cur := cur, fs_touched := False\<rparr>))))
                  (\<lambda>st. fmt_loop mal vsn g ap st)
              else fmt_loop mal vsn g ap st
            else or_memory_err (sdscatlen mal (fs_cur st) [c] 1)
                   (\<lambda>cur. fmt_loop mal vsn g ap (st\<lparr>fs_cur := cur, fs_touched := True\<rparr>))
          else
            bindE (fmt_directive mal vsn (fs_cur st) g ap) (\<lambda>r.
            case r of
              Inl err \<Rightarrow> Inr (Inl err)
            | Inr (cur, rest, ap) \<Rightarrow> fmt_loop mal vsn rest ap (st\<lparr>fs_cur := cur, fs_touched := True\<rparr>)))"
  by pat_completeness auto
termination by (relation "measure (\<lambda>(mal, vsn, f, ap, st). length f)") (auto dest: fmt_directive_length)

declare fmt_loop.simps [simp del]

definition redisvFormatCommand ::
  "allocator \<Rightarrow> vsn \<Rightarrow> bool \<Rightarrow> char list \<Rightarrow> va_arg list \<Rightarrow> (int \<times> char list option) res" where
  "redisvFormatCommand mal vsn target format ap =
     (if \<not> target then Inr (-1, None)
      else case sdsempty mal of
        Inl OutOfMemory \<Rightarrow> Inr (-1, None)
      | Inl e \<Rightarrow> Inl e
      | Inr cur \<Rightarrow>
          bindE (bindE (fmt_loop mal vsn (cstring format) ap
              \<lparr>fs_argv = [], fs_cur = cur, fs_touched = False, fs_totlen = 0\<rparr>) (\<lambda>r.
            case r of
              Inl err \<Rightarrow> Inr (Inl err)
            | Inr st \<Rightarrow>
                or_memory_err (if fs_touched st then push_arg mal st else Inr st) (\<lambda>st.
                let argc = int (length (fs_argv st));
                    totlen = to_int32 (fs_totlen st + int (head_len argc))
                in or_memory_err (build_command mal totlen argc (map (\<lambda>s. (hbuf s, sdslen s)) (fs_argv st))) (\<lambda>cmd.
                   Inr (Inr (totlen, cmd)))))) (\<lambda>r.
          case r of Inl err \<Rightarrow> Inr (err, None) | Inr (totlen, cmd) \<Rightarrow> Inr (totlen, Some cmd)))"

definition redisFormatCommand ::
  "allocator \<Rightarrow> vsn \<Rightarrow> bool \<Rightarrow> char list \<Rightarrow> va_arg list \<Rightarrow> (int \<times> char list option) res" where
  "redisFormatCommand mal vsn target format ap =
     bindE (redisvFormatCommand mal vsn target format ap) (\<lambda>(len, cmd). Inr (if len < 0 then -1 else len, cmd))"

subsection \<open>Both functions on a vector write the same command\<close>

abbreviation (input) lens_fit :: "(char list \<times> nat) list \<Rightarrow> bool" where
  "lens_fit args \<equiv> \<forall>(blk, len)\<in>set args. len \<le> length blk"

lemma bulklen_arg: "len \<le> length blk \<Longrightarrow> length (bulk_bytes (take len blk)) < 2 ^ 31 \<Longrightarrow>
    bulklen len = length (bulk_bytes (take len blk))"
  using bulklen_bytes [of "take len blk"] by (auto simp: bulk_bytes_def)

lemma totlen_int:
  "lens_fit args \<Longrightarrow> a + length (concat (map bulk_bytes (arg_values args))) < 2 ^ 31 \<Longrightarrow>
   foldl (\<lambda>t (_, len). to_int32 (t + int (bulklen len))) (int a) args = int (a + length (concat (map bulk_bytes (arg_values args))))"
proof (induction args arbitrary: a)
  case (Cons x args)
  obtain blk len where x: "x = (blk, len)" by fastforce
  have b: "bulklen len = length (bulk_bytes (take len blk))" using Cons.prems x by (intro bulklen_arg) auto
  have "to_int32 (int a + int (bulklen len)) = int (a + bulklen len)" using Cons.prems(2) x b by (subst to_int32_id) auto
  then show ?case using Cons.IH [of "a + bulklen len"] Cons.prems x b by simp
qed simp

lemma totlen_size:
  "lens_fit args \<Longrightarrow> a + length (concat (map bulk_bytes (arg_values args))) < 2 ^ 31 \<Longrightarrow>
   foldl (\<lambda>t (_, len). wrap64 (t + bulklen len)) a args = a + length (concat (map bulk_bytes (arg_values args)))"
proof (induction args arbitrary: a)
  case (Cons x args)
  obtain blk len where x: "x = (blk, len)" by fastforce
  have b: "bulklen len = length (bulk_bytes (take len blk))" using Cons.prems x by (intro bulklen_arg) auto
  have "wrap64 (a + bulklen len) = a + bulklen len" using Cons.prems(2) x b by (subst wrap64_id) auto
  then show ?case using Cons.IH [of "a + bulklen len"] Cons.prems x b by simp
qed simp

lemma head_len_bytes: "n < 2 ^ 31 \<Longrightarrow> head_len (int n) = length (''*'' @ decimal n @ CRLF)"
  by (simp add: head_len_def countDigits_decimal)

lemma command_bytes_length:
  "length (command_bytes xs) = head_len (int (length xs)) + length (concat (map bulk_bytes xs))" if "length xs < 2 ^ 31"
  using head_len_bytes [OF that] by (simp add: command_bytes_def)

lemma command_length_args: "length xs \<le> length (command_bytes xs)"
proof -
  have "length xs \<le> length (concat (map bulk_bytes xs))" by (induction xs) (auto simp: bulk_bytes_def)
  then show ?thesis by (simp add: command_bytes_def)
qed

lemma argv_args_lens: "argv_args (length xs) xs (Some (map length xs)) = Inr (map (\<lambda>x. (x, length x)) xs)"
  by (induction xs) auto

lemma cstring_terminated: "NUL \<notin> set x \<Longrightarrow> cstring (x @ [NUL]) = x"
  using cstring_id [of x] by (simp add: cstring_def takeWhile_tail)

lemma argv_args_strings:
  "\<forall>x\<in>set xs. NUL \<notin> set x \<Longrightarrow>
   argv_args (length xs) (map (\<lambda>x. x @ [NUL]) xs) None = Inr (map (\<lambda>x. (x @ [NUL], length x)) xs)"
  by (induction xs) (auto simp: strlen_blk_def cstring_terminated)

lemma redisFormatCommandArgv_ok:
  assumes g: "grants_all mal" and a: "argv_args n argv lens = Inr args" "length args = n" and fit: "lens_fit args"
    and b: "length (command_bytes (arg_values args)) < 2 ^ 31 - 1"
  shows "redisFormatCommandArgv mal True (int n) argv lens =
    Inr (int (length (command_bytes (arg_values args))), Some (command_bytes (arg_values args) @ [NUL]))"
proof -
  have n: "length (arg_values args) < 2 ^ 31" using command_length_args [of "arg_values args"] b by simp
  have t: "foldl (\<lambda>t (_, len). to_int32 (t + int (bulklen len))) (int (head_len (int n))) args = int (length (command_bytes (arg_values args)))"
    using totlen_int [OF fit, of "head_len (int n)"] command_bytes_length [OF n] b a(2) by simp
  from res_ok_total [OF build_command_ok [OF fit b] g] a(2) have
    "build_command mal (int (length (command_bytes (arg_values args)))) (int n) args = Inr (command_bytes (arg_values args) @ [NUL])" by auto
  with a t show ?thesis by (simp add: redisFormatCommandArgv_def)
qed

lemma sds_put_args_ok:
  assumes g: "grants_all mal" and "lens_fit args" and "sds_wf s"
    and "sdslen s + length (concat (map bulk_bytes (arg_values args))) < 2 ^ 31"
  shows "\<exists>s'. sds_put_args mal s args = Inr s' \<and> sds_wf s' \<and> sdsval s' = sdsval s @ concat (map bulk_bytes (arg_values args))"
  using assms(2-4)
proof (induction args arbitrary: s)
  case (Cons x args)
  obtain blk len where x: "x = (blk, len)" by fastforce
  let ?hd = "''$'' @ decimal len @ CRLF" and ?x = "take len blk"
  have len: "len \<le> length blk" using Cons.prems(1) x by simp
  then have lx: "length ?x = len" by simp
  have room: "sdslen s + (3 + length (decimal len) + len + 2) + length (concat (map bulk_bytes (arg_values args))) < 2 ^ 31"
    using Cons.prems(3) x len by (simp add: length_bulk_bytes)
  then have l32: "len mod 2 ^ 32 = len" by simp
  have e: "fmt_expand (cstring (''$%u'' @ CRLF)) [ArgUInt (len mod 2 ^ 32)] = Some ?hd"
    unfolding l32 by (simp add: cstring_def sdsull2str_decimal)
  have "sdslen s + length ?hd < 2 ^ 31" using room by simp
  from sdscatfmt_ok [OF e Cons.prems(2) _ _ this, of mal] g obtain s1 where
    s1: "sdscatfmt mal s (''$%u'' @ CRLF) [ArgUInt (len mod 2 ^ 32)] = Inr s1" "sds_wf s1" "sdsval s1 = sdsval s @ ?hd"
    by (auto simp: sds_args_ok_def)
  have n1: "sdslen s1 = sdslen s + length ?hd"
    using s1(2,3) Cons.prems(2) sdsval_length [of s1] sdsval_length [of s] by simp
  have "sdslen s1 + len < 2 ^ 62" using n1 room by simp
  from res_ok_total [OF sdscatlen_ok [OF s1(2) len this] g] obtain s2 where
    s2: "sdscatlen mal s1 blk len = Inr s2" "sds_wf s2" "sdsval s2 = sdsval s1 @ ?x" by auto
  have n2: "sdslen s2 = sdslen s1 + len"
    using s2(2,3) s1(2) sdsval_length [of s2] sdsval_length [of s1] lx by simp
  have "sdslen s2 + 2 < 2 ^ 62" "2 \<le> length CRLF" using n1 n2 room by simp_all
  from res_ok_total [OF sdscatlen_ok [OF s2(2) this(2,1)] g] obtain s3 where
    s3: "sdscatlen mal s2 CRLF 2 = Inr s3" "sds_wf s3" "sdsval s3 = sdsval s2 @ CRLF" by auto
  have n3: "sdslen s3 = sdslen s2 + 2"
    using s3(2,3) s2(2) sdsval_length [of s3] sdsval_length [of s2] by simp
  have "lens_fit args" "sdslen s3 + length (concat (map bulk_bytes (arg_values args))) < 2 ^ 31"
    using Cons.prems(1) n1 n2 n3 room by auto
  from Cons.IH [OF this(1) s3(2) this(2)] obtain s4 where
    s4: "sds_put_args mal s3 args = Inr s4" "sds_wf s4" "sdsval s4 = sdsval s3 @ concat (map bulk_bytes (arg_values args))" by blast
  have "sds_put_args mal s (x # args) = Inr s4"
    using s4(1) unfolding x sds_put_args.simps s1(1) bindE.simps s2(1) s3(1) by (simp add: null_deref_def s3(1))
  then show ?case using s4(2,3) s3(3) s2(3) s1(3) lx by (simp add: x bulk_bytes_def [of ?x])
qed simp

lemma redisFormatSdsCommandArgv_ok:
  assumes g: "grants_all mal" and a: "argv_args n argv lens = Inr args" "length args = n" and fit: "lens_fit args"
    and b: "length (command_bytes (arg_values args)) < 2 ^ 31 - 1"
  shows "\<exists>s. redisFormatSdsCommandArgv mal True (int n) argv lens = Inr (int (length (command_bytes (arg_values args))), Some s) \<and>
    sds_wf s \<and> sdsval s = command_bytes (arg_values args)"
proof -
  let ?c = "command_bytes (arg_values args)" and ?hd = "''*'' @ decimal n @ CRLF"
  have n: "length (arg_values args) < 2 ^ 31" using command_length_args [of "arg_values args"] b by simp
  have hl: "head_len (int n) = length ?hd" using head_len_bytes [of n] n a(2) by simp
  have t: "foldl (\<lambda>t (_, len). wrap64 (t + bulklen len)) (head_len (int n)) args = length ?c"
    using totlen_size [OF fit, of "head_len (int n)"] command_bytes_length [OF n] b a(2) by simp
  have c: "?c = ?hd @ concat (map bulk_bytes (arg_values args))" using a(2) by (simp add: command_bytes_def)
  obtain s0 where s0: "sdsempty mal = Inr s0" "sds_wf s0" "sdslen s0 = 0" "sdsval s0 = []"
    using res_ok_total [OF sdsempty_ok g] by blast
  have "sdslen s0 + length ?c < 2 ^ 62" using b s0 by simp
  from res_ok_total [OF sdsMakeRoomFor_ok [OF s0(2) this] g] obtain s1 where
    s1: "sdsMakeRoomFor mal s0 (length ?c) = Inr s1" "sds_wf s1" "sdslen s1 = 0" "sdsval s1 = []" using s0(3,4) by (auto simp: sdslen_def)
  have e: "fmt_expand (cstring (''*%i'' @ CRLF)) [ArgInt (int n)] = Some ?hd"
    using n a(2) by (simp add: cstring_def sdsll2str_signed_decimal signed_decimal_def)
  have "sdslen s1 + length ?hd < 2 ^ 31" using s1(3) c b by simp
  from sdscatfmt_ok [OF e s1(2) _ _ this, of mal] g s1(4) obtain s2 where
    s2: "sdscatfmt mal s1 (''*%i'' @ CRLF) [ArgInt (int n)] = Inr s2" "sds_wf s2" "sdsval s2 = ?hd"
    by (auto simp: sds_args_ok_def)
  have "sdslen s2 + length (concat (map bulk_bytes (arg_values args))) < 2 ^ 31"
    using s2(2,3) sdsval_length [of s2] c b by simp
  from sds_put_args_ok [OF g fit s2(2) this] obtain s3 where
    s3: "sds_put_args mal s2 args = Inr s3" "sds_wf s3" "sdsval s3 = ?c" unfolding c using s2(3) by auto
  have "sdslen s3 = length ?c" using s3(2,3) sdsval_length [of s3] by simp
  moreover have "to_int32 (int (length ?c)) = int (length ?c)" using b by (subst to_int32_id) auto
  ultimately have "redisFormatSdsCommandArgv mal True (int n) argv lens = Inr (int (length ?c), Some s3)"
    using a s0(1) s1(1) s2(1) s3(1) t by (simp add: redisFormatSdsCommandArgv_def)
  with s3 show ?thesis by blast
qed

subsection \<open>What a format stands for\<close>

text \<open>
  The reference for \<open>redisvFormatCommand\<close>: the format is a sequence of texts and separators; a
  run of texts between separators is one argument, and a run without texts is none.
\<close>

datatype item = Text "char list" | Sep

definition directive_item :: "vsn \<Rightarrow> char list \<Rightarrow> va_arg list \<Rightarrow> (char list \<times> char list \<times> va_arg list) option" where
  \<comment> \<open>the text of a directive, and the format and arguments after it\<close>
  "directive_item vsn g ap =
     (if hd g = CHR ''s'' then (case ap of VaPtr arg # ap \<Rightarrow> Some (cstring arg, tl g, ap) | _ \<Rightarrow> None)
      else if hd g = CHR ''b'' then
        (case ap of VaPtr arg # VaSize n # ap \<Rightarrow> if n \<le> length arg then Some (take n arg, tl g, ap) else None | _ \<Rightarrow> None)
      else if hd g = CHR ''%'' then Some (''%'', tl g, ap)
      else case conversion (skip_modifiers g) of
             Some (cv, x # q) \<Rightarrow>
               (case va_next cv ap of
                  Inr (a, ap) \<Rightarrow>
                    if length g - length q < 13
                    then Some (cstring (vsn (CHR ''%'' # take (length g - length q) g) a), q, ap)
                    else Some ([], tl g, ap)
                | Inl _ \<Rightarrow> None)
           | _ \<Rightarrow> None)"

lemma directive_item_length:
  assumes "directive_item vsn g ap = Some (t, rest, ap')" and "g \<noteq> []"
  shows "length rest < length g"
proof -
  have q: "length q < length g" if "conversion (skip_modifiers g) = Some (cv, x # q)" for cv x q
    using conversion_length [OF that] skip_modifiers_length [of g] by simp
  have "rest = tl g \<or> (\<exists>cv x. conversion (skip_modifiers g) = Some (cv, x # rest))"
    using assms(1) unfolding directive_item_def
    by (simp split: if_split_asm) (auto split: list.splits va_arg.splits option.splits sum.splits if_splits)
  with q assms(2) show ?thesis by auto
qed

function fmt_items :: "vsn \<Rightarrow> char list \<Rightarrow> va_arg list \<Rightarrow> item list option" where
  "fmt_items vsn [] ap = Some []"
| "fmt_items vsn (c # g) ap =
     (if c \<noteq> CHR ''%'' \<or> g = [] then
        map_option ((#) (if c = CHR '' '' then Sep else Text [c])) (fmt_items vsn g ap)
      else case directive_item vsn g ap of
             None \<Rightarrow> None
           | Some (t, rest, ap) \<Rightarrow> map_option ((#) (Text t)) (fmt_items vsn rest ap))"
  by pat_completeness auto
termination by (relation "measure (\<lambda>(vsn, f, ap). length f)") (auto dest: directive_item_length)

fun item_args :: "char list option \<Rightarrow> item list \<Rightarrow> char list list" where
  \<comment> \<open>the arguments, given what the current one has so far\<close>
  "item_args cur [] = (case cur of None \<Rightarrow> [] | Some x \<Rightarrow> [x])"
| "item_args cur (Sep # is) = (case cur of None \<Rightarrow> [] | Some x \<Rightarrow> [x]) @ item_args None is"
| "item_args cur (Text t # is) = item_args (Some ((case cur of None \<Rightarrow> [] | Some x \<Rightarrow> x) @ t)) is"

lemma or_memory_err_Inr [simp]: "or_memory_err (Inr x) f = f x"
  by (simp add: or_memory_err_def)

lemma fmt_directive_ok:
  assumes d: "directive_item vsn g ap = Some (t, rest, ap')" and g: "g \<noteq> []" and wf: "sds_wf cur" and m: "grants_all mal"
    and b: "sdslen cur + length t < 2 ^ 62"
  shows "\<exists>cur'. fmt_directive mal vsn cur g ap = Inr (Inr (cur', rest, ap')) \<and> sds_wf cur' \<and> sdsval cur' = sdsval cur @ t"
proof -
  obtain x g' where gg: "g = x # g'" using g by (cases g) auto
  have cat: "\<exists>s. (if 0 < n then sdscatlen mal cur arg n else Inr cur) = Inr s \<and> sds_wf s \<and> sdsval s = sdsval cur @ take n arg"
    if "n \<le> length arg" "sdslen cur + n < 2 ^ 62" for n arg
    using res_ok_total [OF sdscatlen_ok [OF wf that] m] wf by auto
  consider "x = CHR ''s''" | "x = CHR ''b''" | "x = CHR ''%''" | "x \<noteq> CHR ''s''" "x \<noteq> CHR ''b''" "x \<noteq> CHR ''%''" by blast
  then show ?thesis
  proof cases
    case 1
    with d gg obtain arg where a: "ap = VaPtr arg # ap'" "t = cstring arg" "rest = g'"
      by (auto simp: directive_item_def split: list.splits va_arg.splits)
    with cat [of "length t" t] b 1 show ?thesis by (auto simp: fmt_directive_def gg)
  next
    case 2
    with d gg obtain arg n where a: "ap = VaPtr arg # VaSize n # ap'" "t = take n arg" "rest = g'" "n \<le> length arg"
      by (auto simp: directive_item_def split: list.splits va_arg.splits if_splits)
    with cat [of n arg] b 2 show ?thesis by (auto simp: fmt_directive_def gg)
  next
    case 3
    with d gg have a: "t = ''%''" "rest = g'" "ap' = ap" by (auto simp: directive_item_def)
    have "cstring ''%'' = ''%''" by (simp add: cstring_def)
    with a b have "sdslen cur + length (cstring ''%'') < 2 ^ 62" by simp
    from res_ok_total [OF sdscat_ok [OF wf this] m] 3 a \<open>cstring ''%'' = ''%''\<close> show ?thesis by (auto simp: fmt_directive_def gg)
  next
    case 4
    with d gg obtain cv y q a where q: "conversion (skip_modifiers g) = Some (cv, y # q)" "va_next cv ap = Inr (a, ap')"
      "if length g - length q < 13 then t = cstring (vsn (CHR ''%'' # take (length g - length q) g) a) \<and> rest = q
       else t = [] \<and> rest = tl g"
      by (auto simp: directive_item_def split: option.splits list.splits sum.splits if_splits)
    have lq: "length q < length g" using conversion_length [OF q(1)] skip_modifiers_length [of g] by simp
    then have l: "1 + length g - length (y # q) + 1 = Suc (length g - length q)" by simp
    have dir: "fmt_directive mal vsn cur g ap = fmt_printf mal vsn cur g ap" using 4 by (simp add: fmt_directive_def gg)
    show ?thesis
    proof (cases "length g - length q < 13")
      case True
      let ?f = "CHR ''%'' # take (length g - length q) g"
      from q(3) True have t: "t = cstring (vsn ?f a)" "rest = q" by simp_all
      from res_ok_total [OF sdscatvprintf_ok [OF wf, of "vsn ?f a" mal ?f] m] b t(1) obtain s where
        "sdscatvprintf mal cur ?f (vsn ?f a) = Inr s" "sds_wf s" "sdsval s = sdsval cur @ t" by auto
      with q(1,2) True l t(2) show ?thesis unfolding dir fmt_printf_def by (simp add: Let_def)
    next
      case False
      with q l wf show ?thesis unfolding dir fmt_printf_def by (simp add: Let_def)
    qed
  qed
qed

definition fmt_rel :: "fmt_state \<Rightarrow> char list list \<Rightarrow> char list option \<Rightarrow> bool" where
  \<comment> \<open>the state holds the finished arguments and what the current one has so far\<close>
  "fmt_rel st xs cur \<longleftrightarrow> (\<forall>s\<in>set (fs_argv st). sds_wf s) \<and> map sdsval (fs_argv st) = xs \<and> sds_wf (fs_cur st) \<and>
     fs_touched st = (cur \<noteq> None) \<and> sdsval (fs_cur st) = (case cur of None \<Rightarrow> [] | Some x \<Rightarrow> x) \<and>
     fs_totlen st = int (length (concat (map bulk_bytes xs)))"

lemma push_arg_ok:
  assumes r: "fmt_rel st xs (Some x)" and m: "grants_all mal" and b: "length (concat (map bulk_bytes (xs @ [x]))) < 2 ^ 31"
  shows "\<exists>st'. push_arg mal st = Inr st' \<and> (\<forall>s\<in>set (fs_argv st'). sds_wf s) \<and> map sdsval (fs_argv st') = xs @ [x] \<and>
    fs_totlen st' = int (length (concat (map bulk_bytes (xs @ [x]))))"
proof -
  have x: "sdslen (fs_cur st) = length x" "sdsval (fs_cur st) = x" using r sdsval_length [of "fs_cur st"] by (auto simp: fmt_rel_def)
  have "bulklen (length x) = length (bulk_bytes x)" using b by (intro bulklen_bytes) (auto simp: length_bulk_bytes)
  moreover have "to_int32 (int (length (concat (map bulk_bytes xs))) + int (length (bulk_bytes x))) =
      int (length (concat (map bulk_bytes (xs @ [x]))))" using b by (subst to_int32_id) auto
  ultimately show ?thesis using r x grants_not_None [OF m, of "8 * (length (fs_argv st) + 1)"]
    by (auto simp: push_arg_def fmt_rel_def)
qed

lemma item_args_first: "\<exists>ys. item_args (Some x) is = (x @ ys) # item_args None [] @ tl (item_args (Some x) is)"
proof (induction "is" arbitrary: x)
  case (Cons i "is")
  then show ?case
  proof (cases i)
    case (Text t)
    from Cons.IH [of "x @ t"] obtain ys where "item_args (Some (x @ t)) is = ((x @ t) @ ys) # item_args None [] @ tl (item_args (Some (x @ t)) is)" ..
    then show ?thesis using Text by (intro exI [of _ "t @ ys"]) simp
  qed simp
qed simp

lemma item_args_bound: "length x \<le> length (concat (map bulk_bytes (item_args (Some x) is)))"
proof -
  obtain ys zs where "item_args (Some x) is = (x @ ys) # zs" using item_args_first [of x "is"] by blast
  then show ?thesis by (simp add: length_bulk_bytes)
qed

lemma fmt_loop_ok:
  assumes m: "grants_all mal"
  shows "fmt_items vsn f ap = Some is \<Longrightarrow> fmt_rel st xs cur \<Longrightarrow>
    length (concat (map bulk_bytes (xs @ item_args cur is))) < 2 ^ 31 \<Longrightarrow>
    \<exists>st' xs' cur'. fmt_loop mal vsn f ap st = Inr (Inr st') \<and> fmt_rel st' xs' cur' \<and> xs' @ item_args cur' [] = xs @ item_args cur is"
proof (induction vsn f ap arbitrary: "is" st xs cur rule: fmt_items.induct)
  case (1 vsn ap)
  then show ?case by (auto simp: fmt_loop.simps [of mal vsn "[]"])
next
  case (2 vsn c g ap)
  have append: "\<exists>s. sds_wf s \<and> fmt_rel (st\<lparr>fs_cur := s, fs_touched := True\<rparr>) xs (Some ((case cur of None \<Rightarrow> [] | Some x \<Rightarrow> x) @ t)) \<and> P s"
    if "\<exists>s. P s \<and> sds_wf s \<and> sdsval s = sdsval (fs_cur st) @ t" for P t
    using that "2.prems"(2) by (auto simp: fmt_rel_def)
  have room: "sdslen (fs_cur st) + length t < 2 ^ 62" if "is = Text t # js" for t js
  proof -
    have "length ((case cur of None \<Rightarrow> [] | Some x \<Rightarrow> x) @ t) < 2 ^ 31"
      using "2.prems"(3) that item_args_bound [of "(case cur of None \<Rightarrow> [] | Some x \<Rightarrow> x) @ t" js] by simp
    then show ?thesis using "2.prems"(2) sdsval_length [of "fs_cur st"] by (auto simp: fmt_rel_def)
  qed
  show ?case
  proof (cases "c \<noteq> CHR ''%'' \<or> g = []")
    case lit: True
    show ?thesis
    proof (cases "c = CHR '' ''")
      case True
      with "2.prems"(1) lit obtain js where js: "fmt_items vsn g ap = Some js" "is = Sep # js" by auto
      show ?thesis
      proof (cases cur)
        case None
        then have "fmt_loop mal vsn (c # g) ap st = fmt_loop mal vsn g ap st"
          using True "2.prems"(2) by (subst fmt_loop.simps) (simp add: fmt_rel_def)
        then show ?thesis using "2.IH"(1) [OF lit js(1) "2.prems"(2)] "2.prems"(3) js(2) None by simp
      next
        case (Some x)
        from push_arg_ok [OF "2.prems"(2) [unfolded Some] m] "2.prems"(3) js(2) Some obtain st1 where
          s1: "push_arg mal st = Inr st1" "\<forall>s\<in>set (fs_argv st1). sds_wf s" "map sdsval (fs_argv st1) = xs @ [x]"
          "fs_totlen st1 = int (length (concat (map bulk_bytes (xs @ [x]))))" by auto
        obtain e where e: "sdsempty mal = Inr e" "sds_wf e" "sdsval e = []" using res_ok_total [OF sdsempty_ok m] by blast
        have "fmt_loop mal vsn (c # g) ap st = fmt_loop mal vsn g ap (st1\<lparr>fs_cur := e, fs_touched := False\<rparr>)"
          using True "2.prems"(2) Some s1(1) e(1) by (subst fmt_loop.simps) (simp add: fmt_rel_def)
        moreover have "fmt_rel (st1\<lparr>fs_cur := e, fs_touched := False\<rparr>) (xs @ [x]) None"
          using s1 e by (simp add: fmt_rel_def)
        ultimately show ?thesis using "2.IH"(1) [OF lit js(1), of _ "xs @ [x]" None] "2.prems"(3) js(2) Some by simp
      qed
    next
      case False
      with "2.prems"(1) lit obtain js where js: "fmt_items vsn g ap = Some js" "is = Text [c] # js" by auto
      have "sdslen (fs_cur st) + 1 < 2 ^ 62" using room [OF js(2)] by simp
      from res_ok_total [OF sdscatlen_ok [of "fs_cur st" 1 "[c]" mal] m] this "2.prems"(2)
      have "\<exists>s. sdscatlen mal (fs_cur st) [c] 1 = Inr s \<and> sds_wf s \<and> sdsval s = sdsval (fs_cur st) @ [c]"
        by (auto simp: fmt_rel_def)
      from append [OF this] obtain s where s: "sdscatlen mal (fs_cur st) [c] 1 = Inr s"
        "fmt_rel (st\<lparr>fs_cur := s, fs_touched := True\<rparr>) xs (Some ((case cur of None \<Rightarrow> [] | Some x \<Rightarrow> x) @ [c]))" by blast
      have "fmt_loop mal vsn (c # g) ap st = fmt_loop mal vsn g ap (st\<lparr>fs_cur := s, fs_touched := True\<rparr>)"
        using False lit s(1) by (simp add: fmt_loop.simps [of mal vsn "c # g"])
      then show ?thesis using "2.IH"(1) [OF lit js(1) s(2)] "2.prems"(3) js(2) by simp
    qed
  next
    case False
    with "2.prems"(1) obtain t rest ap' js where
      d: "directive_item vsn g ap = Some (t, rest, ap')" "fmt_items vsn rest ap' = Some js" "is = Text t # js"
      by (auto split: option.splits)
    have "\<exists>s. fmt_directive mal vsn (fs_cur st) g ap = Inr (Inr (s, rest, ap')) \<and> sds_wf s \<and> sdsval s = sdsval (fs_cur st) @ t"
      using fmt_directive_ok [OF d(1) _ _ m room [OF d(3)]] False "2.prems"(2) by (auto simp: fmt_rel_def)
    from append [OF this] obtain s where s: "fmt_directive mal vsn (fs_cur st) g ap = Inr (Inr (s, rest, ap'))"
      "fmt_rel (st\<lparr>fs_cur := s, fs_touched := True\<rparr>) xs (Some ((case cur of None \<Rightarrow> [] | Some x \<Rightarrow> x) @ t))" by blast
    have "fmt_loop mal vsn (c # g) ap st = fmt_loop mal vsn rest ap' (st\<lparr>fs_cur := s, fs_touched := True\<rparr>)"
      using False s(1) by (subst fmt_loop.simps) simp
    then show ?thesis using "2.IH"(2) [OF False d(1) refl refl d(2) s(2)] "2.prems"(3) d(3) by simp
  qed
qed

lemma redisvFormatCommand_ok:
  assumes m: "grants_all mal" and i: "fmt_items vsn (cstring format) ap = Some is"
    and b: "length (command_bytes (item_args None is)) < 2 ^ 31 - 1"
  shows "redisvFormatCommand mal vsn True format ap =
    Inr (int (length (command_bytes (item_args None is))), Some (command_bytes (item_args None is) @ [NUL]))"
proof -
  let ?xs = "item_args None is"
  obtain e where e: "sdsempty mal = Inr e" "sds_wf e" "sdsval e = []" using res_ok_total [OF sdsempty_ok m] by blast
  let ?st = "\<lparr>fs_argv = [], fs_cur = e, fs_touched = False, fs_totlen = 0\<rparr>"
  have "fmt_rel ?st [] None" using e by (simp add: fmt_rel_def)
  moreover have bb: "length (concat (map bulk_bytes ?xs)) < 2 ^ 31" using b by (simp add: command_bytes_def)
  ultimately obtain st xs cur where
    st: "fmt_loop mal vsn (cstring format) ap ?st = Inr (Inr st)" "fmt_rel st xs cur" "xs @ item_args cur [] = ?xs"
    using fmt_loop_ok [OF m i, of ?st "[]" None] by auto
  obtain st' where st': "(if fs_touched st then push_arg mal st else Inr st) = Inr st'" "\<forall>s\<in>set (fs_argv st'). sds_wf s"
    "map sdsval (fs_argv st') = ?xs" "fs_totlen st' = int (length (concat (map bulk_bytes ?xs)))"
  proof (cases cur)
    case None
    then show thesis using st(2,3) that [of st] by (auto simp: fmt_rel_def)
  next
    case (Some x)
    then have x: "?xs = xs @ [x]" using st(3) by simp
    from push_arg_ok [OF st(2) [unfolded Some] m bb [unfolded x]] obtain s where
      "push_arg mal st = Inr s" "\<forall>s\<in>set (fs_argv s). sds_wf s" "map sdsval (fs_argv s) = ?xs"
      "fs_totlen s = int (length (concat (map bulk_bytes ?xs)))" unfolding x by blast
    then show thesis using st(2) Some that [of s] by (auto simp: fmt_rel_def)
  qed
  let ?args = "map (\<lambda>s. (hbuf s, sdslen s)) (fs_argv st')"
  have v: "arg_values ?args = ?xs" unfolding st'(3) [symmetric] by (simp add: sdsval_def sdslen_def)
  have fit: "lens_fit ?args"
  proof (clarsimp)
    fix s assume "s \<in> set (fs_argv st')"
    then have "sds_shape s" using st'(2) by simp
    then show "sdslen s \<le> length (hbuf s)" by (auto simp: sds_shape_def sdslen_def)
  qed
  have la: "length (fs_argv st') = length ?xs" using st'(3) by (metis length_map)
  have n: "length ?xs < 2 ^ 31" using command_length_args [of ?xs] b by simp
  have "to_int32 (fs_totlen st' + int (head_len (int (length (fs_argv st'))))) = int (length (command_bytes ?xs))"
    using st'(4) command_bytes_length [OF n] b la by (subst to_int32_id) auto
  moreover obtain cmd where "build_command mal (int (length (command_bytes ?xs))) (int (length (fs_argv st'))) ?args = Inr cmd"
    "cmd = command_bytes ?xs @ [NUL]"
    using res_ok_total [OF build_command_ok [OF fit] m] v b by auto
  ultimately show ?thesis using e(1) st(1) st'(1) by (simp add: redisvFormatCommand_def Let_def)
qed

subsection \<open>Properties\<close>

lemma encode_command: "encode (RArray (map RString xs)) = command_bytes xs"
  by (simp add: command_bytes_def bulk_bytes_def [abs_def] comp_def)

lemma foldr_max_zero: "\<forall>x\<in>set xs. f x = 0 \<Longrightarrow> foldr max (map f xs) (0::nat) = 0"
  by (induction xs) auto

text \<open>
  C27. \<open>redisvFormatCommand\<close> writes the command its format stands for: the texts of the format and
  of the directives, cut into arguments at the spaces, in the protocol of the server, and returns
  its exact length; the block ends with a terminator.
\<close>

theorem redisvFormatCommand_formats:
  assumes "grants_all mal" and "fmt_items vsn (cstring format) ap = Some is"
    and "length (command_bytes (item_args None is)) < 2 ^ 31 - 1"
  shows "redisvFormatCommand mal vsn True format ap =
    Inr (int (length (command_bytes (item_args None is))), Some (command_bytes (item_args None is) @ [NUL]))"
  by (rule redisvFormatCommand_ok [OF assms])

definition demo_vsn :: vsn where
  \<comment> \<open>a printer of plain \<open>int\<close> conversions\<close>
  "demo_vsn fmt a = (case a of VaInt i \<Rightarrow> signed_decimal i | _ \<Rightarrow> [])"

theorem redisvFormatCommand_formats_witness:
  "redisvFormatCommand zero_alloc demo_vsn True ''SET %s:%d  %b'' [VaPtr ''k'', VaInt 7, VaPtr '' %'', VaSize 2] =
     Inr (int (length (command_bytes [''SET'', ''k:7'', '' %''])), Some (command_bytes [''SET'', ''k:7'', '' %''] @ [NUL]))"
proof -
  have "map_option (item_args None) (fmt_items demo_vsn (cstring ''SET %s:%d  %b'') [VaPtr ''k'', VaInt 7, VaPtr '' %'', VaSize 2])
      = Some [''SET'', ''k:7'', '' %'']"
    by code_simp
  then obtain "is" where i: "fmt_items demo_vsn (cstring ''SET %s:%d  %b'') [VaPtr ''k'', VaInt 7, VaPtr '' %'', VaSize 2] = Some is"
    "item_args None is = [''SET'', ''k:7'', '' %'']" by auto
  have "length (command_bytes [''SET'', ''k:7'', '' %'']) < 2 ^ 31 - 1"
    by (simp add: command_bytes_def length_bulk_bytes length_decimal)
  then show ?thesis using redisvFormatCommand_formats [OF grants_all_zero_alloc i(1)] i(2) by simp
qed

text \<open>
  The two functions that take a vector of arguments, one with \<open>sprintf\<close> into a fresh block and
  one with sds operations, and with lengths given or measured, write the same command.
\<close>

theorem format_argv_agree:
  assumes "grants_all mal" and "length (command_bytes xs) < 2 ^ 31 - 1"
  shows "redisFormatCommandArgv mal True (int (length xs)) xs (Some (map length xs)) =
      Inr (int (length (command_bytes xs)), Some (command_bytes xs @ [NUL])) \<and>
    ((\<forall>x\<in>set xs. NUL \<notin> set x) \<longrightarrow>
      redisFormatCommandArgv mal True (int (length xs)) (map (\<lambda>x. x @ [NUL]) xs) None =
      Inr (int (length (command_bytes xs)), Some (command_bytes xs @ [NUL]))) \<and>
    (\<exists>s. redisFormatSdsCommandArgv mal True (int (length xs)) xs (Some (map length xs)) =
      Inr (int (length (command_bytes xs)), Some s) \<and> sds_wf s \<and> sdsval s = command_bytes xs)"
proof -
  let ?a = "map (\<lambda>x. (x, length x)) xs" and ?b = "map (\<lambda>x. (x @ [NUL], length x)) xs"
  have v: "arg_values ?a = xs" "arg_values ?b = xs" by (simp_all add: comp_def)
  have l: "length ?a = length xs" "length ?b = length xs" "lens_fit ?a" "lens_fit ?b" by auto
  note a = argv_args_lens [of xs]
  show ?thesis
    using redisFormatCommandArgv_ok [OF assms(1) a l(1,3)] redisFormatSdsCommandArgv_ok [OF assms(1) a l(1,3)]
      redisFormatCommandArgv_ok [OF assms(1) argv_args_strings l(2,4)] assms(2) unfolding v by blast
qed

theorem format_argv_agree_witness:
  "redisFormatCommandArgv zero_alloc True (int (length [''GET'', ''k''])) (map (\<lambda>x. x @ [NUL]) [''GET'', ''k'']) None =
     redisFormatCommandArgv zero_alloc True (int (length [''GET'', ''k''])) [''GET'', ''k''] (Some (map length [''GET'', ''k'']))"
proof -
  have "length (command_bytes [''GET'', ''k'']) < 2 ^ 31 - 1"
    by (simp add: command_bytes_def length_bulk_bytes length_decimal)
  moreover have "\<forall>x\<in>set [''GET'', ''k'']. NUL \<notin> set x" by simp
  ultimately show ?thesis using format_argv_agree [OF grants_all_zero_alloc, of "[''GET'', ''k'']"] by metis
qed

text \<open>
  C28. A command that was formatted is read back by a reader of the protocol as the array of its
  arguments: whatever bytes the arguments hold, they arrive unchanged.
\<close>

theorem command_round_trip:
  assumes "grants_all mal" and "redisReaderCreate mal = Inr r" and "length (command_bytes xs) < 2 ^ 31 - 1"
  shows "\<exists>s r1 p r2 h. redisFormatSdsCommandArgv mal True (int (length xs)) xs (Some (map length xs)) =
      Inr (int (length (command_bytes xs)), Some s) \<and>
    redisReaderFeed mal (defaultFunctions mal) r empty_heap (Some (sdsval s)) (sdslen s) = Inr (REDIS_OK, r1, empty_heap) \<and>
    redisReaderGetReply (defaultFunctions mal) r1 empty_heap = Inr (REDIS_OK, p, r2, h) \<and>
    reply_at (RArray (map RString xs)) (rh_node h) p"
proof -
  let ?t = "RArray (map RString xs)"
  let ?a = "map (\<lambda>x. (x, length x)) xs"
  have "arg_values ?a = xs" "length ?a = length xs" "lens_fit ?a" by (auto simp: comp_def)
  with redisFormatSdsCommandArgv_ok [OF assms(1) argv_args_lens [of xs]] assms(3) obtain s where
    s: "redisFormatSdsCommandArgv mal True (int (length xs)) xs (Some (map length xs)) = Inr (int (length (command_bytes xs)), Some s)"
    "sds_wf s" "sdsval s = command_bytes xs" by metis
  have ls: "sdslen s = length (command_bytes xs)" using s(2,3) sdsval_length [of s] by simp
  from feed_idle [OF assms(2,1), of "command_bytes xs" "defaultFunctions mal" empty_heap] assms(3) obtain r1 where
    r1: "redisReaderFeed mal (defaultFunctions mal) r empty_heap (Some (command_bytes xs)) (length (command_bytes xs)) =
        Inr (REDIS_OK, r1, empty_heap)" "idle r1" "reader_bytes r1 = Inr (encode ?t @ [])" unfolding encode_command by auto
  have "depth ?t \<le> 8" using foldr_max_zero [of "map RString xs" depth] by simp
  moreover have "sendable ?t" by (simp add: list_all_iff)
  moreover have "0 < rh_next empty_heap" by (simp add: empty_heap_def)
  ultimately obtain p r2 h where g: "redisReaderGetReply (defaultFunctions mal) r1 empty_heap = Inr (REDIS_OK, p, r2, h)"
    "reply_at ?t (new_nodes empty_heap h) p"
    using GetReply_encoded [OF assms(1), of ?t r1 "[]" empty_heap] r1(2,3) by blast
  have "new_nodes empty_heap h \<subseteq>\<^sub>m rh_node h" by (auto simp: new_nodes_def map_le_def restrict_map_def split: if_splits)
  from reply_at_mono [OF g(2) this] s r1(1) g(1) ls show ?thesis by auto
qed

theorem command_round_trip_witness:
  "\<exists>r s r1 p r2 h. redisReaderCreate zero_alloc = Inr r \<and>
    redisFormatSdsCommandArgv zero_alloc True (int (length [''a'', CRLF])) [''a'', CRLF] (Some (map length [''a'', CRLF])) =
      Inr (int (length (command_bytes [''a'', CRLF])), Some s) \<and>
    redisReaderFeed zero_alloc (defaultFunctions zero_alloc) r empty_heap (Some (sdsval s)) (sdslen s) = Inr (REDIS_OK, r1, empty_heap) \<and>
    redisReaderGetReply (defaultFunctions zero_alloc) r1 empty_heap = Inr (REDIS_OK, p, r2, h) \<and>
    reply_at (RArray (map RString [''a'', CRLF])) (rh_node h) p"
proof -
  from redisReaderCreate_total [OF grants_all_zero_alloc] obtain r where r: "redisReaderCreate zero_alloc = Inr r" ..
  have "length (command_bytes [''a'', CRLF]) < 2 ^ 31 - 1"
    by (simp add: command_bytes_def length_bulk_bytes length_decimal)
  from command_round_trip [OF grants_all_zero_alloc r this] r show ?thesis by blast
qed

text \<open>
  A format that ends inside a conversion is not rejected: \<open>strchr\<close> finds the terminator of the
  format in the terminated list of integer conversions, and the scan goes on behind the format.
\<close>

theorem format_ends_in_conversion:
  "redisvFormatCommand zero_alloc demo_vsn True ''%5'' [VaInt 7] = Inl OutOfBounds"
proof -
  obtain e where e: "sdsempty zero_alloc = Inr e" "sds_wf e" "sdslen e = 0"
    using res_ok_total [OF sdsempty_ok grants_all_zero_alloc] by blast
  have c: "conversion (skip_modifiers ''5'') = Some (ConvInt, [])" by code_simp
  have "sdslen e + length (cstring (demo_vsn ''%5'' (VaInt 7))) < 2 ^ 62"
    using e(3) length_cstring_le [of "demo_vsn ''%5'' (VaInt 7)"] by (simp add: demo_vsn_def signed_decimal_def length_decimal)
  from res_ok_total [OF sdscatvprintf_ok [OF e(2) this, of zero_alloc "''%5''"] grants_all_zero_alloc] obtain s where
    "sdscatvprintf zero_alloc e ''%5'' (demo_vsn ''%5'' (VaInt 7)) = Inr s" by blast
  then have "fmt_directive zero_alloc demo_vsn e ''5'' [VaInt 7] = Inl OutOfBounds"
    using c by (simp add: fmt_directive_def fmt_printf_def Let_def)
  then have "fmt_loop zero_alloc demo_vsn ''%5'' [VaInt 7] \<lparr>fs_argv = [], fs_cur = e, fs_touched = False, fs_totlen = 0\<rparr> = Inl OutOfBounds"
    by (simp add: fmt_loop.simps [of _ _ "''%5''"])
  moreover have "cstring ''%5'' = ''%5''" by (simp add: cstring_def)
  ultimately show ?thesis using e(1) by (simp add: redisvFormatCommand_def)
qed

end
