(* ===== verification/Net.thy ===== *)
theory Net
  imports Command
begin

unbundle bit_operations_syntax

section \<open>Connecting (hiredis/net.c)\<close>

text \<open>
  The operating system is a parameter: a function that answers each system call, given the calls
  made so far. The calls and their answers are logged in the state, newest first, so that what a
  connection does to its descriptor can be read off the log. Any call may leave \<open>errno\<close> at any
  value. A failed \<open>malloc\<close> whose result the code does not test is \<open>OutOfBounds\<close>.
\<close>

subsection \<open>System calls\<close>

record timeval =
  tv_sec :: int
  tv_usec :: int

record addrinfo =
  ai_family :: int
  ai_socktype :: int
  ai_protocol :: int
  ai_addr :: "char list"

datatype optval = OptInt int | OptTime timeval

datatype syscall =
    Sy_socket int int int
  | Sy_close int
  | Sy_setsockopt int int int optval
  | Sy_getsockopt int int int
  | Sy_getfl int
  | Sy_setfl int "32 word"
  | Sy_poll int int
  | Sy_connect int "char list"
  | Sy_bind int "char list"
  | Sy_getaddrinfo "char list option" "char list option" int
  | Sy_read int nat
  | Sy_write int "char list"

record sysres =
  sr_ret :: int
  sr_errno :: int
  sr_val :: int
  sr_bytes :: "char list"
  sr_addrs :: "addrinfo list"

type_synonym call_log = "(syscall \<times> sysres) list"

record os =
  os_call :: "call_log \<Rightarrow> syscall \<Rightarrow> sysres"
  os_strerror :: "int \<Rightarrow> char list"
  os_gai_strerror :: "int \<Rightarrow> char list"

record world =
  w_errno :: int
  w_calls :: call_log

definition sys :: "os \<Rightarrow> syscall \<Rightarrow> world \<Rightarrow> sysres \<times> world" where
  "sys os call w =
     (let r = os_call os (w_calls w) call
      in (r, w\<lparr>w_errno := sr_errno r, w_calls := (call, r) # w_calls w\<rparr>))"

abbreviation (input) EINTR :: int where "EINTR \<equiv> 4"
abbreviation (input) EAGAIN :: int where "EAGAIN \<equiv> 11"
abbreviation (input) EADDRNOTAVAIL :: int where "EADDRNOTAVAIL \<equiv> 99"
abbreviation (input) ETIMEDOUT :: int where "ETIMEDOUT \<equiv> 110"
abbreviation (input) EHOSTUNREACH :: int where "EHOSTUNREACH \<equiv> 113"
abbreviation (input) EINPROGRESS :: int where "EINPROGRESS \<equiv> 115"

abbreviation (input) AF_LOCAL :: int where "AF_LOCAL \<equiv> 1"
abbreviation (input) AF_INET :: int where "AF_INET \<equiv> 2"
abbreviation (input) AF_INET6 :: int where "AF_INET6 \<equiv> 10"
abbreviation (input) SOCK_STREAM :: int where "SOCK_STREAM \<equiv> 1"
abbreviation (input) SOL_SOCKET :: int where "SOL_SOCKET \<equiv> 1"
abbreviation (input) SO_REUSEADDR :: int where "SO_REUSEADDR \<equiv> 2"
abbreviation (input) SO_ERROR :: int where "SO_ERROR \<equiv> 4"
abbreviation (input) SO_KEEPALIVE :: int where "SO_KEEPALIVE \<equiv> 9"
abbreviation (input) SO_RCVTIMEO :: int where "SO_RCVTIMEO \<equiv> 20"
abbreviation (input) SO_SNDTIMEO :: int where "SO_SNDTIMEO \<equiv> 21"
abbreviation (input) IPPROTO_TCP :: int where "IPPROTO_TCP \<equiv> 6"
abbreviation (input) TCP_NODELAY :: int where "TCP_NODELAY \<equiv> 1"
abbreviation (input) TCP_KEEPIDLE :: int where "TCP_KEEPIDLE \<equiv> 4"
abbreviation (input) TCP_KEEPINTVL :: int where "TCP_KEEPINTVL \<equiv> 5"
abbreviation (input) TCP_KEEPCNT :: int where "TCP_KEEPCNT \<equiv> 6"
abbreviation (input) O_NONBLOCK :: "32 word" where "O_NONBLOCK \<equiv> 0x800"
abbreviation (input) LONG_MAX :: int where "LONG_MAX \<equiv> 9223372036854775807"
abbreviation (input) INT_MAX :: int where "INT_MAX \<equiv> 2147483647"

subsection \<open>The context (hiredis.h)\<close>

abbreviation (input) REDIS_BLOCK :: "32 word" where "REDIS_BLOCK \<equiv> 0x1"
abbreviation (input) REDIS_CONNECTED :: "32 word" where "REDIS_CONNECTED \<equiv> 0x2"
abbreviation (input) REDIS_DISCONNECTING :: "32 word" where "REDIS_DISCONNECTING \<equiv> 0x4"
abbreviation (input) REDIS_FREEING :: "32 word" where "REDIS_FREEING \<equiv> 0x8"
abbreviation (input) REDIS_IN_CALLBACK :: "32 word" where "REDIS_IN_CALLBACK \<equiv> 0x10"
abbreviation (input) REDIS_SUBSCRIBED :: "32 word" where "REDIS_SUBSCRIBED \<equiv> 0x20"
abbreviation (input) REDIS_MONITORING :: "32 word" where "REDIS_MONITORING \<equiv> 0x40"
abbreviation (input) REDIS_REUSEADDR :: "32 word" where "REDIS_REUSEADDR \<equiv> 0x80"
abbreviation (input) REDIS_KEEPALIVE_INTERVAL :: int where "REDIS_KEEPALIVE_INTERVAL \<equiv> 15"
abbreviation (input) REDIS_CONNECT_RETRIES :: nat where "REDIS_CONNECT_RETRIES \<equiv> 10"

datatype redisConnectionType = REDIS_CONN_TCP | REDIS_CONN_UNIX

record redisContext =
  c_err :: int
  c_errstr :: "char list"
  c_fd :: int
  c_flags :: "32 word"
  c_obuf :: "sdshdr option"
  c_reader :: "redisReader option"
  c_connection_type :: redisConnectionType
  c_timeout :: "timeval option"
  c_host :: "char list option"
  c_source_addr :: "char list option"
  c_port :: int
  c_path :: "char list option"

definition flag_set :: "redisContext \<Rightarrow> 32 word \<Rightarrow> bool" where
  "flag_set c m \<longleftrightarrow> c_flags c AND m \<noteq> 0"

definition set_flag :: "32 word \<Rightarrow> redisContext \<Rightarrow> redisContext" where
  "set_flag m c = c\<lparr>c_flags := c_flags c OR m\<rparr>"

definition clear_flag :: "32 word \<Rightarrow> redisContext \<Rightarrow> redisContext" where
  "clear_flag m c = c\<lparr>c_flags := c_flags c AND NOT m\<rparr>"

subsection \<open>Errors\<close>

definition set_error :: "redisContext \<Rightarrow> int \<Rightarrow> char list \<Rightarrow> redisContext" where
  \<comment> \<open>\<open>__redisSetError\<close> with a description\<close>
  "set_error c type str = c\<lparr>c_err := type, c_errstr := take 127 (cstring str)\<rparr>"

definition redisSetError :: "os \<Rightarrow> redisContext \<Rightarrow> int \<Rightarrow> char list option \<Rightarrow> world \<Rightarrow> redisContext res" where
  "redisSetError os c type str w =
     (case str of
        Some str \<Rightarrow> Inr (set_error c type str)
      | None \<Rightarrow> if type = REDIS_ERR_IO
                then Inr (c\<lparr>c_err := type, c_errstr := take 127 (cstring (os_strerror os (w_errno w)))\<rparr>)
                else Inl AssertFailed)"

definition redisSetErrorFromErrno :: "os \<Rightarrow> redisContext \<Rightarrow> int \<Rightarrow> char list option \<Rightarrow> world \<Rightarrow> redisContext" where
  "redisSetErrorFromErrno os c type prefix w =
     (let buf = (case prefix of Some p \<Rightarrow> cstring p @ '': '' | None \<Rightarrow> [])
      in set_error c type (buf @ take (127 - length buf) (cstring (os_strerror os (w_errno w)))))"

definition redisContextCloseFd :: "os \<Rightarrow> redisContext \<Rightarrow> world \<Rightarrow> redisContext \<times> world" where
  "redisContextCloseFd os c w =
     (if c_fd c \<ge> 0 then (c\<lparr>c_fd := -1\<rparr>, snd (sys os (Sy_close (c_fd c)) w)) else (c, w))"

definition fail_errno :: "os \<Rightarrow> redisContext \<Rightarrow> char list option \<Rightarrow> world \<Rightarrow> int \<times> redisContext \<times> world" where
  \<comment> \<open>report an I/O error and return\<close>
  "fail_errno os c prefix w = (REDIS_ERR, redisSetErrorFromErrno os c REDIS_ERR_IO prefix w, w)"

definition fail_close :: "os \<Rightarrow> redisContext \<Rightarrow> char list option \<Rightarrow> world \<Rightarrow> int \<times> redisContext \<times> world" where
  \<comment> \<open>report an I/O error, close the descriptor and return\<close>
  "fail_close os c prefix w =
     (REDIS_ERR, redisContextCloseFd os (redisSetErrorFromErrno os c REDIS_ERR_IO prefix w) w)"

subsection \<open>Socket options\<close>

definition redisSetReuseAddr :: "os \<Rightarrow> redisContext \<Rightarrow> world \<Rightarrow> int \<times> redisContext \<times> world" where
  "redisSetReuseAddr os c w =
     (let (r, w) = sys os (Sy_setsockopt (c_fd c) SOL_SOCKET SO_REUSEADDR (OptInt 1)) w
      in if sr_ret r = -1 then fail_close os c None w else (REDIS_OK, c, w))"

definition redisCreateSocket :: "os \<Rightarrow> redisContext \<Rightarrow> int \<Rightarrow> world \<Rightarrow> int \<times> redisContext \<times> world" where
  "redisCreateSocket os c type w =
     (let (r, w) = sys os (Sy_socket type SOCK_STREAM 0) w
      in if sr_ret r = -1 then fail_errno os c None w
         else let c = c\<lparr>c_fd := sr_ret r\<rparr>
              in if type = AF_INET
                 then let (st, c, w) = redisSetReuseAddr os c w
                      in if st = REDIS_ERR then (REDIS_ERR, c, w) else (REDIS_OK, c, w)
                 else (REDIS_OK, c, w))"

definition redisSetBlocking :: "os \<Rightarrow> redisContext \<Rightarrow> bool \<Rightarrow> world \<Rightarrow> int \<times> redisContext \<times> world" where
  "redisSetBlocking os c blocking w =
     (let (r, w) = sys os (Sy_getfl (c_fd c)) w
      in if sr_ret r = -1 then fail_close os c (Some ''fcntl(F_GETFL)'') w
         else let flags = (word_of_int (sr_ret r) :: 32 word);
                  flags = (if blocking then flags AND NOT O_NONBLOCK else flags OR O_NONBLOCK);
                  (r, w) = sys os (Sy_setfl (c_fd c) flags) w
              in if sr_ret r = -1 then fail_close os c (Some ''fcntl(F_SETFL)'') w else (REDIS_OK, c, w))"

definition keepalive_opt :: "os \<Rightarrow> redisContext \<Rightarrow> int \<Rightarrow> int \<Rightarrow> int \<Rightarrow> (sysres \<Rightarrow> bool) \<Rightarrow> world \<Rightarrow>
    int \<times> redisContext \<times> world" where
  "keepalive_opt os c level opt val bad w =
     (let (r, w) = sys os (Sy_setsockopt (c_fd c) level opt (OptInt val)) w
      in if bad r then (REDIS_ERR, set_error c REDIS_ERR_OTHER (os_strerror os (w_errno w)), w) else (REDIS_OK, c, w))"

definition keepalive_interval :: "int \<Rightarrow> int" where
  \<comment> \<open>\<open>interval/3\<close>, which C truncates towards zero, or 1 if that is 0\<close>
  "keepalive_interval interval =
     (let val = (if interval < 0 then - (- interval div 3) else interval div 3) in if val = 0 then 1 else val)"

definition redisKeepAlive :: "os \<Rightarrow> redisContext \<Rightarrow> int \<Rightarrow> world \<Rightarrow> int \<times> redisContext \<times> world" where
  "redisKeepAlive os c interval w =
     (let (st, c, w) = keepalive_opt os c SOL_SOCKET SO_KEEPALIVE 1 (\<lambda>r. sr_ret r = -1) w in
      if st \<noteq> REDIS_OK then (REDIS_ERR, c, w) else
      let (st, c, w) = keepalive_opt os c IPPROTO_TCP TCP_KEEPIDLE interval (\<lambda>r. sr_ret r < 0) w in
      if st \<noteq> REDIS_OK then (REDIS_ERR, c, w) else
      let (st, c, w) = keepalive_opt os c IPPROTO_TCP TCP_KEEPINTVL (keepalive_interval interval) (\<lambda>r. sr_ret r < 0) w in
      if st \<noteq> REDIS_OK then (REDIS_ERR, c, w) else
      let (st, c, w) = keepalive_opt os c IPPROTO_TCP TCP_KEEPCNT 3 (\<lambda>r. sr_ret r < 0) w in
      if st \<noteq> REDIS_OK then (REDIS_ERR, c, w) else (REDIS_OK, c, w))"

definition redisSetTcpNoDelay :: "os \<Rightarrow> redisContext \<Rightarrow> world \<Rightarrow> int \<times> redisContext \<times> world" where
  "redisSetTcpNoDelay os c w =
     (let (r, w) = sys os (Sy_setsockopt (c_fd c) IPPROTO_TCP TCP_NODELAY (OptInt 1)) w
      in if sr_ret r = -1 then fail_close os c (Some ''setsockopt(TCP_NODELAY)'') w else (REDIS_OK, c, w))"

definition redisContextSetTimeout :: "os \<Rightarrow> redisContext \<Rightarrow> timeval \<Rightarrow> world \<Rightarrow> int \<times> redisContext \<times> world" where
  "redisContextSetTimeout os c tv w =
     (let (r, w) = sys os (Sy_setsockopt (c_fd c) SOL_SOCKET SO_RCVTIMEO (OptTime tv)) w
      in if sr_ret r = -1 then fail_errno os c (Some ''setsockopt(SO_RCVTIMEO)'') w
         else let (r, w) = sys os (Sy_setsockopt (c_fd c) SOL_SOCKET SO_SNDTIMEO (OptTime tv)) w
              in if sr_ret r = -1 then fail_errno os c (Some ''setsockopt(SO_SNDTIMEO)'') w else (REDIS_OK, c, w))"

subsection \<open>Waiting for a connection\<close>

definition MAX_MSEC :: int where
  "MAX_MSEC = (LONG_MAX - 999) div 1000"

definition cdiv :: "int \<Rightarrow> int \<Rightarrow> int" where
  \<comment> \<open>division truncating towards zero, by a positive divisor\<close>
  "cdiv a b = (if a < 0 then - (- a div b) else a div b)"

definition redisContextTimeoutMsec :: "redisContext \<Rightarrow> int \<times> int" where
  \<comment> \<open>the status and \<open>*result\<close>; the sum is taken in a \<open>long\<close>\<close>
  "redisContextTimeoutMsec c =
     (case c_timeout c of
        None \<Rightarrow> (REDIS_OK, -1)
      | Some tv \<Rightarrow>
          if tv_usec tv > 1000000 \<or> tv_sec tv > MAX_MSEC then (REDIS_ERR, -1)
          else let msec = to_int64 (to_int64 (tv_sec tv * 1000) + cdiv (to_int64 (tv_usec tv + 999)) 1000)
               in (REDIS_OK, if msec < 0 \<or> msec > INT_MAX then INT_MAX else msec))"

definition redisCheckSocketError :: "os \<Rightarrow> redisContext \<Rightarrow> world \<Rightarrow> int \<times> redisContext \<times> world" where
  "redisCheckSocketError os c w =
     (let (r, w) = sys os (Sy_getsockopt (c_fd c) SOL_SOCKET SO_ERROR) w
      in if sr_ret r = -1 then fail_errno os c (Some ''getsockopt(SO_ERROR)'') w
         else if sr_val r \<noteq> 0 then fail_errno os c None (w\<lparr>w_errno := sr_val r\<rparr>)
         else (REDIS_OK, c, w))"

definition redisContextWaitReady :: "os \<Rightarrow> redisContext \<Rightarrow> int \<Rightarrow> world \<Rightarrow> int \<times> redisContext \<times> world" where
  "redisContextWaitReady os c msec w =
     (if w_errno w = EINPROGRESS
      then let (r, w) = sys os (Sy_poll (c_fd c) (to_int32 msec)) w
           in if sr_ret r = -1 then fail_close os c (Some ''poll(2)'') w
              else if sr_ret r = 0 then fail_close os c None (w\<lparr>w_errno := ETIMEDOUT\<rparr>)
              else let (st, c, w) = redisCheckSocketError os c w
                   in if st \<noteq> REDIS_OK then (REDIS_ERR, c, w) else (REDIS_OK, c, w)
      else fail_close os c None w)"

subsection \<open>Taking possession of the parameters\<close>

text \<open>
  A pointer argument is NULL, the pointer that the context already holds (as when reconnecting),
  or some other pointer, given by what it points to.
\<close>

datatype 'a cptr = Null | Saved | Given 'a

definition strdup :: "allocator \<Rightarrow> char list \<Rightarrow> char list option" where
  "strdup mal s = map_option (\<lambda>_. cstring s) (mal (length (cstring s) + 1))"

definition save_host :: "allocator \<Rightarrow> redisContext \<Rightarrow> char list cptr \<Rightarrow> redisContext res" where
  "save_host mal c addr =
     (case addr of
        Saved \<Rightarrow> Inr c
      | Null \<Rightarrow> if c_host c = None then Inr c else Inl OutOfBounds
      | Given a \<Rightarrow> Inr (c\<lparr>c_host := strdup mal a\<rparr>))"

definition save_timeout :: "allocator \<Rightarrow> redisContext \<Rightarrow> timeval cptr \<Rightarrow> redisContext res" where
  "save_timeout mal c timeout =
     (case timeout of
        Null \<Rightarrow> Inr (c\<lparr>c_timeout := None\<rparr>)
      | Saved \<Rightarrow> Inr c
      | Given tv \<Rightarrow> if c_timeout c = None \<and> mal 16 = None then Inl OutOfBounds else Inr (c\<lparr>c_timeout := Some tv\<rparr>))"

definition save_source_addr :: "allocator \<Rightarrow> redisContext \<Rightarrow> char list cptr \<Rightarrow> redisContext" where
  "save_source_addr mal c source_addr =
     (case source_addr of
        Null \<Rightarrow> c\<lparr>c_source_addr := None\<rparr>
      | Saved \<Rightarrow> c
      | Given a \<Rightarrow> c\<lparr>c_source_addr := strdup mal a\<rparr>)"

definition pointee :: "'a option \<Rightarrow> 'a cptr \<Rightarrow> 'a option" where
  \<comment> \<open>what an argument points to, given what the context holds\<close>
  "pointee held p = (case p of Null \<Rightarrow> None | Saved \<Rightarrow> held | Given a \<Rightarrow> Some a)"

subsection \<open>Connecting\<close>

fun bind_loop :: "os \<Rightarrow> int \<Rightarrow> addrinfo list \<Rightarrow> world \<Rightarrow> bool \<times> world" where
  "bind_loop os s [] w = (False, w)"
| "bind_loop os s (b # bs) w =
     (let (r, w) = sys os (Sy_bind s (ai_addr b)) w in if sr_ret r \<noteq> -1 then (True, w) else bind_loop os s bs w)"

definition bind_source :: "os \<Rightarrow> redisContext \<Rightarrow> int \<Rightarrow> int \<Rightarrow> world \<Rightarrow> bool \<times> redisContext \<times> world" where
  \<comment> \<open>bind the socket \<open>s\<close> to the source address, if there is one; False is the jump to \<open>error\<close>\<close>
  "bind_source os c s family w =
     (case c_source_addr c of
        None \<Rightarrow> (True, c, w)
      | Some source_addr \<Rightarrow>
          let (r, w) = sys os (Sy_getaddrinfo (Some source_addr) None family) w
          in if sr_ret r \<noteq> 0
             then (False, set_error c REDIS_ERR_OTHER
                     (take 127 (''Can't get addr: '' @ cstring (os_gai_strerror os (sr_ret r)))), w)
             else let (bad, w) = (if flag_set c REDIS_REUSEADDR
                        then let (o1, w) = sys os (Sy_setsockopt s SOL_SOCKET SO_REUSEADDR (OptInt 1)) w in (sr_ret o1 < 0, w)
                        else (False, w))
                  in if bad then (False, c, w)
                     else let (bound, w) = bind_loop os s (sr_addrs r) w
                          in if bound then (True, c, w)
                             else (False, set_error c REDIS_ERR_OTHER
                                    (take 127 (''Can't bind socket: '' @ cstring (os_strerror os (w_errno w)))), w))"

datatype attempt = NextAddr | Retry | Failed | Connected

definition finish_connect :: "os \<Rightarrow> redisContext \<Rightarrow> world \<Rightarrow> attempt \<times> redisContext \<times> world" where
  "finish_connect os c w =
     (let (st, c, w) = (if flag_set c REDIS_BLOCK then redisSetBlocking os c True w else (REDIS_OK, c, w)) in
      if st \<noteq> REDIS_OK then (Failed, c, w) else
      let (st, c, w) = redisSetTcpNoDelay os c w in
      if st \<noteq> REDIS_OK then (Failed, c, w) else (Connected, set_flag REDIS_CONNECTED c, w))"

definition connect_addr ::
  "os \<Rightarrow> redisContext \<Rightarrow> int \<Rightarrow> addrinfo \<Rightarrow> int \<Rightarrow> nat \<Rightarrow> world \<Rightarrow> attempt \<times> redisContext \<times> world" where
  \<comment> \<open>\<open>connect\<close> of the socket \<open>s\<close> and what follows in the loop body\<close>
  "connect_addr os c s p timeout_msec reuses w =
     (let (r, w) = sys os (Sy_connect s (ai_addr p)) w
      in if sr_ret r = -1
         then if w_errno w = EHOSTUNREACH then (NextAddr, redisContextCloseFd os c w)
              else if w_errno w = EINPROGRESS \<and> \<not> flag_set c REDIS_BLOCK then finish_connect os c w
              else if w_errno w = EADDRNOTAVAIL \<and> flag_set c REDIS_REUSEADDR
              then if Suc reuses \<ge> REDIS_CONNECT_RETRIES then (Failed, c, w) else (Retry, redisContextCloseFd os c w)
              else let (st, c, w) = redisContextWaitReady os c timeout_msec w
                   in if st \<noteq> REDIS_OK then (Failed, c, w) else finish_connect os c w
         else finish_connect os c w)"

definition try_addr ::
  "os \<Rightarrow> redisContext \<Rightarrow> int \<Rightarrow> addrinfo \<Rightarrow> int \<Rightarrow> nat \<Rightarrow> world \<Rightarrow> attempt \<times> redisContext \<times> world" where
  \<comment> \<open>the body of the loop over the addresses\<close>
  "try_addr os c family p timeout_msec reuses w =
     (let (r, w) = sys os (Sy_socket (ai_family p) (ai_socktype p) (ai_protocol p)) w
      in if sr_ret r = -1 then (NextAddr, c, w)
         else let s = sr_ret r; (st, c, w) = redisSetBlocking os (c\<lparr>c_fd := s\<rparr>) False w
              in if st \<noteq> REDIS_OK then (Failed, c, w)
                 else let (ok, c, w) = bind_source os c s family w
                      in if \<not> ok then (Failed, c, w) else connect_addr os c s p timeout_msec reuses w)"

lemma try_addr_Retry:
  "try_addr os c family p msec reuses w = (Retry, c', w') \<Longrightarrow> Suc reuses < 10"
  by (auto simp: try_addr_def connect_addr_def finish_connect_def Let_def split: prod.splits if_splits)

function tcp_loop ::
  "os \<Rightarrow> int \<Rightarrow> int \<Rightarrow> addrinfo list \<Rightarrow> nat \<Rightarrow> redisContext \<Rightarrow> world \<Rightarrow> int \<times> redisContext \<times> world" where
  "tcp_loop os family msec [] reuses c w =
     (REDIS_ERR, set_error c REDIS_ERR_OTHER
        (take 127 (''Can't create socket: '' @ cstring (os_strerror os (w_errno w)))), w)"
| "tcp_loop os family msec (p # ps) reuses c w =
     (case try_addr os c family p msec reuses w of
        (NextAddr, c, w) \<Rightarrow> tcp_loop os family msec ps reuses c w
      | (Retry, c, w) \<Rightarrow> tcp_loop os family msec (p # ps) (Suc reuses) c w
      | (Failed, c, w) \<Rightarrow> (REDIS_ERR, c, w)
      | (Connected, c, w) \<Rightarrow> (REDIS_OK, c, w))"
  by pat_completeness auto
termination
  by (relation "measures [\<lambda>(os, family, msec, ps, reuses, c, w). length ps,
        \<lambda>(os, family, msec, ps, reuses, c, w). 10 - reuses]") (auto dest!: try_addr_Retry [OF sym])

definition lookup_host ::
  "os \<Rightarrow> char list option \<Rightarrow> char list option \<Rightarrow> int \<Rightarrow> world \<Rightarrow> (int + int \<times> addrinfo list) \<times> world" where
  \<comment> \<open>IPv4 addresses of the saved host, else IPv6 addresses of the one given\<close>
  "lookup_host os host addr port w =
     (let service = Some (take 5 (signed_decimal port)); (r, w) = sys os (Sy_getaddrinfo host service AF_INET) w
      in if sr_ret r \<noteq> 0
         then let (r, w) = sys os (Sy_getaddrinfo addr service AF_INET6) w
              in if sr_ret r \<noteq> 0 then (Inl (sr_ret r), w) else (Inr (AF_INET6, sr_addrs r), w)
         else (Inr (AF_INET, sr_addrs r), w))"

definition connect_tcp ::
  "os \<Rightarrow> allocator \<Rightarrow> redisContext \<Rightarrow> char list cptr \<Rightarrow> int \<Rightarrow> timeval cptr \<Rightarrow> char list cptr \<Rightarrow> world \<Rightarrow>
     (int \<times> redisContext \<times> world) res" where
  \<comment> \<open>\<open>_redisContextConnectTcp\<close>\<close>
  "connect_tcp os mal c addr port timeout source_addr w =
     (let host = pointee (c_host c) addr in
      bindE (save_host mal (c\<lparr>c_connection_type := REDIS_CONN_TCP, c_port := port\<rparr>) addr) (\<lambda>c.
      bindE (save_timeout mal c timeout) (\<lambda>c.
      let (st, timeout_msec) = redisContextTimeoutMsec c in
      if st \<noteq> REDIS_OK
      then Inr (REDIS_ERR, set_error c REDIS_ERR_IO ''Invalid timeout specified'', w)
      else let c = save_source_addr mal c source_addr
           in Inr (case lookup_host os (c_host c) host port w of
                (Inl rv, w) \<Rightarrow> (REDIS_ERR, set_error c REDIS_ERR_OTHER (os_gai_strerror os rv), w)
              | (Inr (family, servinfo), w) \<Rightarrow> tcp_loop os family timeout_msec servinfo 0 c w))))"

definition redisContextConnectTcp ::
  "os \<Rightarrow> allocator \<Rightarrow> redisContext \<Rightarrow> char list cptr \<Rightarrow> int \<Rightarrow> timeval cptr \<Rightarrow> world \<Rightarrow>
     (int \<times> redisContext \<times> world) res" where
  "redisContextConnectTcp os mal c addr port timeout w = connect_tcp os mal c addr port timeout Null w"

definition redisContextConnectBindTcp ::
  "os \<Rightarrow> allocator \<Rightarrow> redisContext \<Rightarrow> char list cptr \<Rightarrow> int \<Rightarrow> timeval cptr \<Rightarrow> char list cptr \<Rightarrow> world \<Rightarrow>
     (int \<times> redisContext \<times> world) res" where
  "redisContextConnectBindTcp os mal c addr port timeout source_addr w = connect_tcp os mal c addr port timeout source_addr w"

definition connect_unix_fd :: "os \<Rightarrow> redisContext \<Rightarrow> char list \<Rightarrow> int \<Rightarrow> world \<Rightarrow> int \<times> redisContext \<times> world" where
  \<comment> \<open>\<open>connect\<close> and what follows it; the path is cut to the 107 bytes \<open>strncpy\<close> copies\<close>
  "connect_unix_fd os c path timeout_msec w =
     (let (r, w) = sys os (Sy_connect (c_fd c) (take 107 (cstring path))) w;
          (st, c, w) = (if sr_ret r = -1
            then if w_errno w = EINPROGRESS \<and> \<not> flag_set c REDIS_BLOCK then (REDIS_OK, c, w)
                 else redisContextWaitReady os c timeout_msec w
            else (REDIS_OK, c, w))
      in if st \<noteq> REDIS_OK then (REDIS_ERR, c, w)
         else let (st, c, w) = (if flag_set c REDIS_BLOCK then redisSetBlocking os c True w else (REDIS_OK, c, w))
              in if st \<noteq> REDIS_OK then (REDIS_ERR, c, w) else (REDIS_OK, set_flag REDIS_CONNECTED c, w))"

definition redisContextConnectUnix ::
  "os \<Rightarrow> allocator \<Rightarrow> redisContext \<Rightarrow> char list cptr \<Rightarrow> timeval cptr \<Rightarrow> world \<Rightarrow> (int \<times> redisContext \<times> world) res" where
  "redisContextConnectUnix os mal c path timeout w =
     (case redisCreateSocket os c AF_LOCAL w of (st, c, w) \<Rightarrow>
      if st < 0 then Inr (REDIS_ERR, c, w) else
      case redisSetBlocking os c False w of (st, c, w) \<Rightarrow>
      if st \<noteq> REDIS_OK then Inr (REDIS_ERR, c, w) else
      case pointee (c_path c) path of
        None \<Rightarrow> Inl OutOfBounds
      | Some text \<Rightarrow>
          let c = c\<lparr>c_connection_type := REDIS_CONN_UNIX\<rparr>;
              c = (case path of Given p \<Rightarrow> c\<lparr>c_path := strdup mal p\<rparr> | _ \<Rightarrow> c) in
          bindE (save_timeout mal c timeout) (\<lambda>c.
          let (st, timeout_msec) = redisContextTimeoutMsec c in
          Inr (if st \<noteq> REDIS_OK then (REDIS_ERR, c, w) else connect_unix_fd os c text timeout_msec w)))"

subsection \<open>What happens to descriptors\<close>

fun open_fds :: "call_log \<Rightarrow> int set" where
  \<comment> \<open>the descriptors opened and not closed since\<close>
  "open_fds [] = {}"
| "open_fds ((call, r) # l) =
     (case call of
        Sy_socket _ _ _ \<Rightarrow> if sr_ret r = -1 then open_fds l else insert (sr_ret r) (open_fds l)
      | Sy_close fd \<Rightarrow> open_fds l - {fd}
      | _ \<Rightarrow> open_fds l)"

fun closes_open :: "call_log \<Rightarrow> bool" where
  \<comment> \<open>no descriptor was closed that was not open\<close>
  "closes_open [] = True"
| "closes_open ((call, r) # l) =
     ((case call of Sy_close fd \<Rightarrow> fd \<in> open_fds l | _ \<Rightarrow> True) \<and> closes_open l)"

definition fresh_sockets :: "os \<Rightarrow> bool" where
  \<comment> \<open>\<open>socket\<close> fails with -1 or returns a descriptor that is not in use\<close>
  "fresh_sockets os \<longleftrightarrow> (\<forall>l a b d. sr_ret (os_call os l (Sy_socket a b d)) = -1 \<or>
     (0 \<le> sr_ret (os_call os l (Sy_socket a b d)) \<and> sr_ret (os_call os l (Sy_socket a b d)) \<notin> open_fds l))"

definition holds_fd :: "int set \<Rightarrow> redisContext \<Rightarrow> world \<Rightarrow> bool" where
  \<comment> \<open>the context owns its descriptor and nothing but \<open>base\<close> is open besides\<close>
  "holds_fd base c w \<longleftrightarrow> closes_open (w_calls w) \<and> 0 \<le> c_fd c \<and> c_fd c \<notin> base \<and> open_fds (w_calls w) = insert (c_fd c) base"

definition no_fd :: "int set \<Rightarrow> redisContext \<Rightarrow> world \<Rightarrow> bool" where
  "no_fd base c w \<longleftrightarrow> closes_open (w_calls w) \<and> c_fd c \<le> 0 \<and> open_fds (w_calls w) = base"

definition no_leak :: "int set \<Rightarrow> redisContext \<Rightarrow> world \<Rightarrow> bool" where
  "no_leak base c w \<longleftrightarrow> holds_fd base c w \<or> no_fd base c w"

definition quiet :: "syscall \<Rightarrow> bool" where
  \<comment> \<open>the call neither opens nor closes a descriptor\<close>
  "quiet call \<longleftrightarrow> (case call of Sy_socket _ _ _ \<Rightarrow> False | Sy_close _ \<Rightarrow> False | _ \<Rightarrow> True)"

lemma quiet_simps [simp]:
  "quiet (Sy_setsockopt a b d e)" "quiet (Sy_getsockopt a b d)" "quiet (Sy_getfl a)" "quiet (Sy_setfl a fl)" "quiet (Sy_poll a b)"
  "quiet (Sy_connect a x)" "quiet (Sy_bind a x)" "quiet (Sy_getaddrinfo h p b)" "quiet (Sy_read a n)" "quiet (Sy_write a x)"
  by (simp_all add: quiet_def)

lemma quiet_log: "quiet call \<Longrightarrow> open_fds ((call, r) # l) = open_fds l \<and> closes_open ((call, r) # l) = closes_open l"
  by (cases call) (auto simp: quiet_def)

lemma sys_quiet:
  assumes "sys os call w = (r, w')" and "quiet call"
  shows "holds_fd base c w' = holds_fd base c w" "no_fd base c w' = no_fd base c w"
  using assms quiet_log [OF assms(2)] by (auto simp: sys_def holds_fd_def no_fd_def Let_def simp del: open_fds.simps closes_open.simps)

lemma fd_cong:
  "c_fd c' = c_fd c \<Longrightarrow> holds_fd base c' w = holds_fd base c w"
  "c_fd c' = c_fd c \<Longrightarrow> no_fd base c' w = no_fd base c w"
  by (simp_all add: holds_fd_def no_fd_def)

lemma flag_set_set_flag [simp]: "m \<noteq> 0 \<Longrightarrow> flag_set (set_flag m c) m"
proof -
  have "(x OR m) AND m = m" for x by (rule bit_word_eqI) (auto simp: bit_simps)
  then show "m \<noteq> 0 \<Longrightarrow> flag_set (set_flag m c) m" by (simp add: flag_set_def set_flag_def)
qed

lemma flag_set_other:
  assumes "m AND m' = 0"
  shows "flag_set (set_flag m c) m' = flag_set c m'" and "flag_set (clear_flag m c) m' = flag_set c m'"
proof -
  have "(x OR m) AND m' = (x AND m') OR (m AND m')" "(x AND NOT m) AND m' = (x AND m') AND NOT (m AND m')" for x
    by (rule bit_word_eqI, auto simp: bit_simps)+
  with assms show "flag_set (set_flag m c) m' = flag_set c m'" "flag_set (clear_flag m c) m' = flag_set c m'"
    by (simp_all add: flag_set_def set_flag_def clear_flag_def)
qed

lemma flag_fields [simp]:
  "c_fd (set_flag m c) = c_fd c" "c_err (set_flag m c) = c_err c" "c_fd (clear_flag m c) = c_fd c" "c_err (clear_flag m c) = c_err c"
  "flag_set (c\<lparr>c_err := e, c_errstr := t\<rparr>) m = flag_set c m" "flag_set (c\<lparr>c_fd := d\<rparr>) m = flag_set c m"
  "flag_set (set_error c e t) m = flag_set c m"
  by (simp_all add: flag_set_def set_flag_def clear_flag_def set_error_def)

lemma set_error_fields [simp]:
  "c_fd (set_error c ty s) = c_fd c" "c_err (set_error c ty s) = ty" "c_flags (set_error c ty s) = c_flags c"
  "c_fd (redisSetErrorFromErrno os c ty p w) = c_fd c" "c_err (redisSetErrorFromErrno os c ty p w) = ty"
  "c_flags (redisSetErrorFromErrno os c ty p w) = c_flags c"
  by (simp_all add: set_error_def redisSetErrorFromErrno_def Let_def)

definition step_ok :: "int set \<Rightarrow> redisContext \<Rightarrow> int \<times> redisContext \<times> world \<Rightarrow> bool" where
  \<comment> \<open>success leaves the context as it is; failure is recorded in it and leaks nothing\<close>
  "step_ok base c = (\<lambda>(st, c', w'). (st = REDIS_OK \<and> c' = c \<and> holds_fd base c w') \<or>
     (st = REDIS_ERR \<and> c_err c' \<noteq> 0 \<and> c_flags c' = c_flags c \<and> no_leak base c' w'))"

lemma step_ok_OK [simp]: "step_ok base c (0, c', w') \<longleftrightarrow> c' = c \<and> holds_fd base c w'"
  by (simp add: step_ok_def)

lemma step_okE:
  assumes "step_ok base c (st, c', w')"
  obtains "st = REDIS_OK" "c' = c" "holds_fd base c w'" | "st = REDIS_ERR" "c_err c' \<noteq> 0" "c_flags c' = c_flags c" "no_leak base c' w'"
  using assms by (auto simp: step_ok_def)

lemma closeFd_ok:
  assumes "holds_fd base c w"
  shows "case redisContextCloseFd os c w of (c', w') \<Rightarrow> no_fd base c' w' \<and> c_err c' = c_err c \<and> c_flags c' = c_flags c"
  using assms by (auto simp: redisContextCloseFd_def holds_fd_def no_fd_def sys_def Let_def)

lemma fail_errno_ok: "holds_fd base c w \<Longrightarrow> step_ok base c (fail_errno os c p w)"
  by (auto simp: fail_errno_def step_ok_def no_leak_def holds_fd_def)

lemma fail_close_ok:
  assumes "holds_fd base c w"
  shows "step_ok base c (fail_close os c p w)"
proof -
  have "holds_fd base (redisSetErrorFromErrno os c REDIS_ERR_IO p w) w" using assms by (simp add: holds_fd_def)
  from closeFd_ok [OF this, of os] show ?thesis by (auto simp: fail_close_def step_ok_def no_leak_def split: prod.splits)
qed

lemma holds_errno [simp]: "holds_fd base c (w\<lparr>w_errno := e\<rparr>) = holds_fd base c w"
  by (simp add: holds_fd_def)

lemmas fd_steps = fail_errno_ok fail_close_ok sys_quiet(1)

lemma redisSetReuseAddr_ok: "holds_fd base c w \<Longrightarrow> step_ok base c (redisSetReuseAddr os c w)"
  by (auto simp: redisSetReuseAddr_def fd_steps split: prod.split)

lemma redisSetBlocking_ok: "holds_fd base c w \<Longrightarrow> step_ok base c (redisSetBlocking os c b w)"
  by (auto simp: redisSetBlocking_def Let_def fd_steps split: prod.split)

lemma redisSetTcpNoDelay_ok: "holds_fd base c w \<Longrightarrow> step_ok base c (redisSetTcpNoDelay os c w)"
  by (auto simp: redisSetTcpNoDelay_def fd_steps split: prod.split)

lemma redisContextSetTimeout_ok: "holds_fd base c w \<Longrightarrow> step_ok base c (redisContextSetTimeout os c tv w)"
  by (auto simp: redisContextSetTimeout_def fd_steps split: prod.split)

lemma redisCheckSocketError_ok: "holds_fd base c w \<Longrightarrow> step_ok base c (redisCheckSocketError os c w)"
  by (auto simp: redisCheckSocketError_def fd_steps split: prod.split)

lemma step_ok_seq:
  assumes "step_ok base c m" and "\<And>w. holds_fd base c w \<Longrightarrow> step_ok base c (f c w)"
  shows "step_ok base c (let (st, c, w) = m in if st \<noteq> REDIS_OK then (REDIS_ERR, c, w) else f c w)"
proof -
  obtain st c' w' where m: "m = (st, c', w')" by (cases m)
  from assms(1) [unfolded m] show ?thesis
    by (rule step_okE) (use assms(2) in \<open>simp_all add: m\<close>, simp add: step_ok_def)
qed

lemma redisContextWaitReady_ok:
  assumes "holds_fd base c w"
  shows "step_ok base c (redisContextWaitReady os c msec w)"
proof -
  obtain r w' where s: "sys os (Sy_poll (c_fd c) (to_int32 msec)) w = (r, w')" by fastforce
  then have h: "holds_fd base c w'" using assms by (simp add: sys_quiet(1))
  then have "step_ok base c (let (st, c, w) = redisCheckSocketError os c w' in if st \<noteq> REDIS_OK then (REDIS_ERR, c, w) else (REDIS_OK, c, w))"
    by (intro step_ok_seq redisCheckSocketError_ok) simp_all
  with s h assms show ?thesis by (simp add: redisContextWaitReady_def fail_close_ok)
qed

lemma keepalive_opt_ok: "holds_fd base c w \<Longrightarrow> step_ok base c (keepalive_opt os c l opt v bad w)"
  by (auto simp: keepalive_opt_def step_ok_def no_leak_def fd_cong(1) [of "set_error c _ _" c] dest: sys_quiet(1) split: prod.split)

lemma redisKeepAlive_ok: "holds_fd base c w \<Longrightarrow> step_ok base c (redisKeepAlive os c n w)"
  unfolding redisKeepAlive_def by (intro step_ok_seq keepalive_opt_ok) simp_all

lemma sys_socket:
  assumes "sys os (Sy_socket a b d) w = (r, w')" and "fresh_sockets os" and "no_fd base c w"
  shows "sr_ret r = -1 \<Longrightarrow> no_fd base c w'" and "sr_ret r \<noteq> -1 \<Longrightarrow> holds_fd base (c\<lparr>c_fd := sr_ret r\<rparr>) w'"
  using assms by (auto simp: sys_def Let_def holds_fd_def no_fd_def fresh_sockets_def)

lemma redisCreateSocket_ok:
  assumes "fresh_sockets os" and "no_fd base c w" and c: "redisCreateSocket os c ty w = (st, c', w')"
  shows "(st = REDIS_OK \<and> (\<exists>fd. c' = c\<lparr>c_fd := fd\<rparr>) \<and> holds_fd base c' w') \<or>
     (st = REDIS_ERR \<and> c_err c' \<noteq> 0 \<and> no_leak base c' w')"
proof -
  obtain r w1 where s: "sys os (Sy_socket ty SOCK_STREAM 0) w = (r, w1)" by fastforce
  note k = sys_socket [OF s assms(1,2)]
  show ?thesis
  proof (cases "sr_ret r = -1")
    case True
    with k c s show ?thesis
      by (auto simp: redisCreateSocket_def fail_errno_def no_leak_def fd_cong(2) [of "redisSetErrorFromErrno _ c _ _ _" c])
  next
    case False
    with k have h: "holds_fd base (c\<lparr>c_fd := sr_ret r\<rparr>) w1" by simp
    show ?thesis
    proof (cases "ty = AF_INET")
      case True
      obtain st2 c2 w2 where u: "redisSetReuseAddr os (c\<lparr>c_fd := sr_ret r\<rparr>) w1 = (st2, c2, w2)" by (metis prod_cases3)
      from redisSetReuseAddr_ok [OF h, of os, unfolded u] show ?thesis
        by (rule step_okE) (use False c s u True in \<open>auto simp: redisCreateSocket_def\<close>)
    next
      case no: False
      with False c s h show ?thesis by (auto simp: redisCreateSocket_def)
    qed
  qed
qed

definition attempt_ok :: "int set \<Rightarrow> redisContext \<Rightarrow> attempt \<times> redisContext \<times> world \<Rightarrow> bool" where
  "attempt_ok base c = (\<lambda>(a, c', w'). case a of
     NextAddr \<Rightarrow> c_flags c' = c_flags c \<and> c_err c' = c_err c \<and> no_fd base c' w'
   | Retry \<Rightarrow> c_flags c' = c_flags c \<and> c_err c' = c_err c \<and> no_fd base c' w'
   | Connected \<Rightarrow> c_flags c' = c_flags c OR REDIS_CONNECTED \<and> c_err c' = c_err c \<and> holds_fd base c' w'
   | Failed \<Rightarrow> (c_err c' \<noteq> 0 \<or> flag_set c REDIS_REUSEADDR) \<and> no_leak base c' w')"

lemma attempt_ok_seq:
  assumes "step_ok base c m" and "\<And>w. holds_fd base c w \<Longrightarrow> attempt_ok base c (f c w)"
  shows "attempt_ok base c (let (st, c, w) = m in if st \<noteq> REDIS_OK then (Failed, c, w) else f c w)"
proof -
  obtain st c' w' where m: "m = (st, c', w')" by (cases m)
  from assms(1) [unfolded m] show ?thesis
    by (rule step_okE) (use assms(2) in \<open>simp_all add: m\<close>, simp add: attempt_ok_def)
qed

lemma finish_connect_ok: "holds_fd base c w \<Longrightarrow> attempt_ok base c (finish_connect os c w)"
  unfolding finish_connect_def
  by (intro attempt_ok_seq redisSetTcpNoDelay_ok)
     (auto simp: redisSetBlocking_ok attempt_ok_def set_flag_def fd_cong(1) [of "set_flag REDIS_CONNECTED c" c, unfolded set_flag_def])

lemma connect_addr_ok:
  assumes "holds_fd base c w"
  shows "attempt_ok base c (connect_addr os c s p msec reuses w)"
proof -
  obtain r w1 where y: "sys os (Sy_connect s (ai_addr p)) w = (r, w1)" by fastforce
  with assms have h: "holds_fd base c w1" by (simp add: sys_quiet(1))
  have "attempt_ok base c (let (st, c, w) = redisContextWaitReady os c msec w1 in if st \<noteq> REDIS_OK then (Failed, c, w) else finish_connect os c w)"
    by (intro attempt_ok_seq redisContextWaitReady_ok finish_connect_ok h)
  with closeFd_ok [OF h, of os] finish_connect_ok [OF h, of os] h y show ?thesis
    by (simp add: connect_addr_def) (auto simp: attempt_ok_def no_leak_def split: prod.splits)
qed

lemma bind_loop_fd: "holds_fd base c w \<Longrightarrow> bind_loop os s bs w = (b, w') \<Longrightarrow> holds_fd base c w'"
  by (induction os s bs w rule: bind_loop.induct) (auto simp: sys_quiet(1) split: prod.splits if_splits)

lemma bind_source_ok:
  assumes h: "holds_fd base c w" and b: "bind_source os c s family w = (ok, c', w')"
  shows "holds_fd base c' w' \<and> c_flags c' = c_flags c \<and> (ok \<longrightarrow> c_err c' = c_err c) \<and>
    (\<not> ok \<longrightarrow> c_err c' \<noteq> 0 \<or> flag_set c REDIS_REUSEADDR)"
proof (cases "c_source_addr c")
  case None
  with h b show ?thesis by (auto simp: bind_source_def)
next
  case (Some sa)
  obtain r w1 where g: "sys os (Sy_getaddrinfo (Some sa) None family) w = (r, w1)" by fastforce
  obtain o1 w2 where o: "sys os (Sy_setsockopt s SOL_SOCKET SO_REUSEADDR (OptInt 1)) w1 = (o1, w2)" by fastforce
  have h1: "holds_fd base c w1" "holds_fd base c w2" using h g o by (auto simp: sys_quiet(1))
  have e: "holds_fd base (set_error c ty t) x = holds_fd base c x" for ty t x by (simp add: fd_cong(1) [of "set_error c ty t" c])
  have l: "holds_fd base c w'" if "bind_loop os s (sr_addrs r) x = (bo, w')" "x = w1 \<or> x = w2" for x bo w'
    using that h1 bind_loop_fd by blast
  show ?thesis
    using b Some g o h1 by (auto simp: bind_source_def e dest!: l split: if_splits prod.splits)
qed

lemma attempt_ok_cong: "c_flags d = c_flags c \<Longrightarrow> c_err d = c_err c \<Longrightarrow> attempt_ok base d r \<Longrightarrow> attempt_ok base c r"
  by (auto simp: attempt_ok_def flag_set_def split: attempt.splits)

lemma try_addr_ok:
  assumes os: "fresh_sockets os" and c: "no_fd base c w"
  shows "attempt_ok base c (try_addr os c family p msec reuses w)"
proof -
  obtain r w1 where s: "sys os (Sy_socket (ai_family p) (ai_socktype p) (ai_protocol p)) w = (r, w1)" by fastforce
  note k = sys_socket [OF s os c]
  show ?thesis
  proof (cases "sr_ret r = -1")
    case True
    with k s show ?thesis by (simp add: try_addr_def attempt_ok_def)
  next
    case False
    let ?c = "c\<lparr>c_fd := sr_ret r\<rparr>"
    have "attempt_ok base ?c (let (ok, c, w) = bind_source os ?c (sr_ret r) family w
        in if \<not> ok then (Failed, c, w) else connect_addr os c (sr_ret r) p msec reuses w)"
      if h: "holds_fd base ?c w" for w
    proof -
      obtain ok c2 w2 where b: "bind_source os ?c (sr_ret r) family w = (ok, c2, w2)" by (metis prod_cases3)
      from bind_source_ok [OF h b] have b': "holds_fd base c2 w2" "c_flags c2 = c_flags ?c" "ok \<Longrightarrow> c_err c2 = c_err ?c"
        "\<not> ok \<Longrightarrow> c_err c2 \<noteq> 0 \<or> flag_set ?c REDIS_REUSEADDR" by auto
      show ?thesis
      proof (cases ok)
        case True
        from attempt_ok_cong [OF b'(2) b'(3) [OF True] connect_addr_ok [OF b'(1)]] True b show ?thesis by simp
      next
        case False
        with b b' show ?thesis by (simp add: attempt_ok_def no_leak_def)
      qed
    qed
    then have "attempt_ok base ?c (let (st, c, w) = redisSetBlocking os ?c False w1 in if st \<noteq> REDIS_OK then (Failed, c, w)
        else let (ok, c, w) = bind_source os c (sr_ret r) family w
             in if \<not> ok then (Failed, c, w) else connect_addr os c (sr_ret r) p msec reuses w)"
      by (rule attempt_ok_seq [OF redisSetBlocking_ok [OF k(2) [OF False]]])
    then have "attempt_ok base ?c (try_addr os c family p msec reuses w)" using False s by (simp add: try_addr_def Let_def)
    then show ?thesis by (rule attempt_ok_cong [rotated 2]) simp_all
  qed
qed

definition connect_ok :: "int set \<Rightarrow> redisContext \<Rightarrow> int \<times> redisContext \<times> world \<Rightarrow> bool" where
  "connect_ok base c = (\<lambda>(st, c', w').
     (st = REDIS_OK \<and> holds_fd base c' w' \<and> c_flags c' = c_flags c OR REDIS_CONNECTED \<and> c_err c' = c_err c) \<or>
     (st = REDIS_ERR \<and> (c_err c' \<noteq> 0 \<or> flag_set c REDIS_REUSEADDR) \<and> no_leak base c' w'))"

lemma connect_ok_cong: "c_flags d = c_flags c \<Longrightarrow> c_err d = c_err c \<Longrightarrow> connect_ok base d r \<Longrightarrow> connect_ok base c r"
  by (auto simp: connect_ok_def flag_set_def)

lemma tcp_loop_ok:
  "fresh_sockets os \<Longrightarrow> no_fd base c w \<Longrightarrow> connect_ok base c (tcp_loop os family msec ps reuses c w)"
proof (induction os family msec ps reuses c w rule: tcp_loop.induct)
  case (1 os family msec reuses c w)
  then show ?case by (simp add: connect_ok_def no_leak_def fd_cong(2) [of "set_error c _ _" c])
next
  case (2 os family msec p ps reuses c w)
  obtain a c' w' where t: "try_addr os c family p msec reuses w = (a, c', w')" by (metis prod_cases3)
  note ok = try_addr_ok [OF "2.prems", of family p msec reuses, unfolded t]
  show ?case
  proof (cases a)
    case NextAddr
    with ok have n: "c_flags c' = c_flags c" "c_err c' = c_err c" "no_fd base c' w'" by (auto simp: attempt_ok_def)
    have "connect_ok base c' (tcp_loop os family msec ps reuses c' w')"
      using "2.IH"(1) t NextAddr "2.prems"(1) n(3) by simp
    from connect_ok_cong [OF n(1,2) this] show ?thesis by (simp add: t NextAddr)
  next
    case Retry
    with ok have n: "c_flags c' = c_flags c" "c_err c' = c_err c" "no_fd base c' w'" by (auto simp: attempt_ok_def)
    have "connect_ok base c' (tcp_loop os family msec (p # ps) (Suc reuses) c' w')"
      using "2.IH"(2) t Retry "2.prems"(1) n(3) by simp
    from connect_ok_cong [OF n(1,2) this] show ?thesis by (simp only: tcp_loop.simps t Retry prod.case attempt.case)
  next
    case Failed
    with ok t show ?thesis by (simp add: attempt_ok_def connect_ok_def)
  next
    case Connected
    with ok t show ?thesis by (simp add: attempt_ok_def connect_ok_def)
  qed
qed

lemma save_fields:
  "save_host mal c addr = Inr c' \<Longrightarrow> c_fd c' = c_fd c \<and> c_err c' = c_err c \<and> c_flags c' = c_flags c"
  "save_timeout mal c tv = Inr c' \<Longrightarrow> c_fd c' = c_fd c \<and> c_err c' = c_err c \<and> c_flags c' = c_flags c"
  "c_fd (save_source_addr mal c src) = c_fd c" "c_err (save_source_addr mal c src) = c_err c"
  "c_flags (save_source_addr mal c src) = c_flags c"
  by (auto simp: save_host_def save_timeout_def save_source_addr_def split: cptr.splits if_splits)

lemma lookup_host_quiet: "lookup_host os host addr port w = (r, w') \<Longrightarrow> no_fd base c w' = no_fd base c w"
  by (auto simp: lookup_host_def Let_def sys_quiet(2) split: prod.splits if_splits)

lemma redisContextTimeoutMsec_status: "fst (redisContextTimeoutMsec c) = REDIS_OK \<or> fst (redisContextTimeoutMsec c) = REDIS_ERR"
  by (auto simp: redisContextTimeoutMsec_def Let_def split: option.split)

lemma connect_tcp_ok:
  assumes os: "fresh_sockets os" and c: "no_fd base c w" and r: "connect_tcp os mal c addr port timeout src w = Inr res"
  shows "connect_ok base c res"
proof -
  let ?c0 = "c\<lparr>c_connection_type := REDIS_CONN_TCP, c_port := port\<rparr>"
  from r obtain c1 c2 where s: "save_host mal ?c0 addr = Inr c1" "save_timeout mal c1 timeout = Inr c2"
    by (auto simp: connect_tcp_def Let_def bindE_Inr_iff)
  obtain st msec where m: "redisContextTimeoutMsec c2 = (st, msec)" by fastforce
  let ?c3 = "save_source_addr mal c2 src"
  from s have f: "c_fd c2 = c_fd c" "c_err c2 = c_err c" "c_flags c2 = c_flags c" by (auto dest!: save_fields(1,2))
  then have f3: "c_fd ?c3 = c_fd c" "c_err ?c3 = c_err c" "c_flags ?c3 = c_flags c" by (simp_all add: save_fields)
  show ?thesis
  proof (cases "st = REDIS_OK")
    case False
    with r s m have "res = (REDIS_ERR, set_error c2 REDIS_ERR_IO ''Invalid timeout specified'', w)"
      by (simp add: connect_tcp_def Let_def)
    with f c show ?thesis by (simp add: connect_ok_def no_leak_def fd_cong(2) [of "set_error c2 _ _" c])
  next
    case True
    obtain x w1 where l: "lookup_host os (c_host ?c3) (pointee (c_host c) addr) port w = (x, w1)" by fastforce
    from lookup_host_quiet [OF l, of base] c f3 have n: "no_fd base ?c3 w1" by (simp add: fd_cong(2) [OF f3(1)])
    show ?thesis
    proof (cases x)
      case (Inl rv)
      with r s m True l have "res = (REDIS_ERR, set_error ?c3 REDIS_ERR_OTHER (os_gai_strerror os rv), w1)"
        by (simp add: connect_tcp_def Let_def)
      with n show ?thesis by (simp add: connect_ok_def no_leak_def fd_cong(2) [of "set_error ?c3 _ _" ?c3])
    next
      case (Inr y)
      obtain family servinfo where y: "y = (family, servinfo)" by fastforce
      from r s m True l Inr y have "res = tcp_loop os family msec servinfo 0 ?c3 w1" by (simp add: connect_tcp_def Let_def)
      with connect_ok_cong [OF f3(3,2) tcp_loop_ok [OF os n]] show ?thesis by simp
    qed
  qed
qed

definition unix_ok :: "int set \<Rightarrow> redisContext \<Rightarrow> int \<times> redisContext \<times> world \<Rightarrow> bool" where
  "unix_ok base c = (\<lambda>(st, c', w').
     (st = REDIS_OK \<and> holds_fd base c' w' \<and> c_flags c' = c_flags c OR REDIS_CONNECTED \<and> c_err c' = c_err c) \<or>
     (st = REDIS_ERR \<and> (c_err c' \<noteq> 0 \<or> fst (redisContextTimeoutMsec c') = REDIS_ERR) \<and> no_leak base c' w'))"

lemma step_unix_ok:
  assumes "step_ok base c m" and "\<And>w. holds_fd base c w \<Longrightarrow> unix_ok base c (f c w)"
  shows "unix_ok base c (let (st, c, w) = m in if st \<noteq> REDIS_OK then (REDIS_ERR, c, w) else f c w)"
proof -
  obtain st c' w' where m: "m = (st, c', w')" by (cases m)
  from assms(1) [unfolded m] show ?thesis
    by (rule step_okE) (use assms(2) in \<open>simp_all add: m\<close>, simp add: unix_ok_def)
qed

lemma connect_unix_fd_ok:
  assumes "holds_fd base c w"
  shows "unix_ok base c (connect_unix_fd os c path msec w)"
proof -
  obtain r w1 where y: "sys os (Sy_connect (c_fd c) (take 107 (cstring path))) w = (r, w1)" by fastforce
  with assms have h: "holds_fd base c w1" by (simp add: sys_quiet(1))
  have fin: "unix_ok base c (let (st, c, w) = (if flag_set c REDIS_BLOCK then redisSetBlocking os c True w else (REDIS_OK, c, w))
      in if st \<noteq> REDIS_OK then (REDIS_ERR, c, w) else (REDIS_OK, set_flag REDIS_CONNECTED c, w))" if "holds_fd base c w" for w
    by (rule step_unix_ok) (use that in \<open>auto simp: redisSetBlocking_ok unix_ok_def set_flag_def
      fd_cong(1) [of "set_flag REDIS_CONNECTED c" c, unfolded set_flag_def]\<close>)
  let ?m = "if sr_ret r = -1 then if w_errno w1 = EINPROGRESS \<and> \<not> flag_set c REDIS_BLOCK then (REDIS_OK, c, w1)
      else redisContextWaitReady os c msec w1 else (REDIS_OK, c, w1)"
  have "step_ok base c ?m" using h by (simp add: redisContextWaitReady_ok)
  then have "unix_ok base c (let (st, c, w) = ?m in if st \<noteq> REDIS_OK then (REDIS_ERR, c, w)
      else let (st, c, w) = (if flag_set c REDIS_BLOCK then redisSetBlocking os c True w else (REDIS_OK, c, w))
        in if st \<noteq> REDIS_OK then (REDIS_ERR, c, w) else (REDIS_OK, set_flag REDIS_CONNECTED c, w))"
    by (rule step_unix_ok) (rule fin)
  with y show ?thesis by (simp add: connect_unix_fd_def)
qed

lemma redisContextConnectUnix_ok:
  assumes os: "fresh_sockets os" and c: "no_fd base c w" and r: "redisContextConnectUnix os mal c path timeout w = Inr res"
  shows "unix_ok base c res"
proof -
  obtain st1 c1 w1 where 1: "redisCreateSocket os c AF_LOCAL w = (st1, c1, w1)" by (metis prod_cases3)
  from redisCreateSocket_ok [OF os c 1] show ?thesis
  proof
    assume "st1 = REDIS_ERR \<and> c_err c1 \<noteq> 0 \<and> no_leak base c1 w1"
    with r 1 show ?thesis by (auto simp: redisContextConnectUnix_def unix_ok_def)
  next
    assume *: "st1 = REDIS_OK \<and> (\<exists>fd. c1 = c\<lparr>c_fd := fd\<rparr>) \<and> holds_fd base c1 w1"
    then have f1: "c_flags c1 = c_flags c" "c_err c1 = c_err c" by auto
    obtain st2 c2 w2 where 2: "redisSetBlocking os c1 False w1 = (st2, c2, w2)" by (metis prod_cases3)
    from * have h1: "holds_fd base c1 w1" and st1: "st1 = REDIS_OK" by auto
    from redisSetBlocking_ok [OF h1, of os False, unfolded 2] show ?thesis
    proof (rule step_okE)
      assume "st2 = REDIS_ERR" "c_err c2 \<noteq> 0" "no_leak base c2 w2"
      with r 1 2 st1 show ?thesis by (auto simp: redisContextConnectUnix_def unix_ok_def)
    next
      assume "st2 = REDIS_OK" "c2 = c1" "holds_fd base c1 w2"
      note s = this st1
      with r 1 2 obtain pth where pth: "pointee (c_path c1) path = Some pth"
        by (auto simp: redisContextConnectUnix_def split: option.splits)
      let ?c3 = "case path of Given p \<Rightarrow> (c1\<lparr>c_connection_type := REDIS_CONN_UNIX\<rparr>)\<lparr>c_path := strdup mal p\<rparr>
        | _ \<Rightarrow> c1\<lparr>c_connection_type := REDIS_CONN_UNIX\<rparr>"
      from r 1 2 s pth obtain c4 where 4: "save_timeout mal ?c3 timeout = Inr c4"
        and r4: "(case redisContextTimeoutMsec c4 of (st, msec) \<Rightarrow>
          Inr (if st \<noteq> REDIS_OK then (REDIS_ERR, c4, w2) else connect_unix_fd os c4 pth msec w2)) = (Inr res :: (int \<times> redisContext \<times> world) res)"
        by (auto simp: redisContextConnectUnix_def Let_def bindE_Inr_iff)
      then have res: "res = (let (st, msec) = redisContextTimeoutMsec c4
          in if st \<noteq> REDIS_OK then (REDIS_ERR, c4, w2) else connect_unix_fd os c4 pth msec w2)"
        by (cases "redisContextTimeoutMsec c4") auto
      have "c_fd ?c3 = c_fd c1" "c_flags ?c3 = c_flags c1" "c_err ?c3 = c_err c1" by (auto split: cptr.split)
      with save_fields(2) [OF 4] f1 have f: "c_fd c4 = c_fd c1" "c_flags c4 = c_flags c" "c_err c4 = c_err c" by auto
      then have h4: "holds_fd base c4 w2" using s(3) by (simp add: fd_cong(1) [of c4 c1])
      have "unix_ok base c4 res"
        using res h4 connect_unix_fd_ok [OF h4] redisContextTimeoutMsec_status [of c4]
        by (cases "redisContextTimeoutMsec c4") (auto simp: unix_ok_def no_leak_def)
      with f show ?thesis by (simp add: unix_ok_def)
    qed
  qed
qed

subsection \<open>Timeouts\<close>

lemma cdiv_ceiling: "0 \<le> a \<Longrightarrow> cdiv (a + 999) 1000 * 1000 \<ge> a \<and> cdiv (a + 999) 1000 * 1000 < a + 1000"
  by (simp add: cdiv_def) arith

lemma timeout_msec_sum:
  assumes "0 \<le> tv_sec tv" and "0 \<le> tv_usec tv" and "tv_usec tv \<le> 1000000" and "tv_sec tv \<le> MAX_MSEC"
  shows "to_int64 (to_int64 (tv_sec tv * 1000) + cdiv (to_int64 (tv_usec tv + 999)) 1000) =
    tv_sec tv * 1000 + cdiv (tv_usec tv + 999) 1000"
proof -
  have "0 \<le> cdiv (tv_usec tv + 999) 1000" "cdiv (tv_usec tv + 999) 1000 \<le> 1000" using assms(2,3) by (auto simp: cdiv_def)
  moreover have "tv_sec tv * 1000 \<le> 9223372036854774000" using assms(4) by (simp add: MAX_MSEC_def)
  ultimately show ?thesis using assms by (simp add: to_int64_id)
qed

subsection \<open>A system to run on\<close>

text \<open>
  A concrete system for the witnesses: every call succeeds, except for the answers that \<open>f\<close>
  gives; a socket is a number that was never returned before.
\<close>

fun next_fd :: "call_log \<Rightarrow> int" where
  "next_fd [] = 3"
| "next_fd ((call, r) # l) = (case call of Sy_socket _ _ _ \<Rightarrow> max (sr_ret r + 1) (next_fd l) | _ \<Rightarrow> next_fd l)"

definition answer :: "int \<Rightarrow> int \<Rightarrow> sysres" where
  "answer ret en = \<lparr>sr_ret = ret, sr_errno = en, sr_val = 0, sr_bytes = [], sr_addrs = []\<rparr>"

definition demo_addr :: addrinfo where
  "demo_addr = \<lparr>ai_family = AF_INET, ai_socktype = SOCK_STREAM, ai_protocol = 0, ai_addr = ''127.0.0.1:6379''\<rparr>"

definition demo_os :: "(syscall \<Rightarrow> sysres option) \<Rightarrow> os" where
  "demo_os f =
     \<lparr>os_call = (\<lambda>l call. case call of
          Sy_socket _ _ _ \<Rightarrow> answer (next_fd l) 0
        | _ \<Rightarrow> (case f call of
             Some r \<Rightarrow> r
           | None \<Rightarrow> (case call of
               Sy_getaddrinfo _ _ _ \<Rightarrow> (answer 0 0)\<lparr>sr_addrs := [demo_addr]\<rparr>
             | Sy_write _ s \<Rightarrow> answer (int (length s)) 0
             | _ \<Rightarrow> answer 0 0))),
      os_strerror = (\<lambda>_. ''error''), os_gai_strerror = (\<lambda>_. ''unknown'')\<rparr>"

definition fresh_world :: world where
  "fresh_world = \<lparr>w_errno = 0, w_calls = []\<rparr>"

lemma next_fd_pos: "0 \<le> next_fd l"
  by (induction l rule: next_fd.induct) (auto split: syscall.split)

lemma next_fd_new: "x \<in> open_fds l \<Longrightarrow> x < next_fd l"
  by (induction l rule: next_fd.induct) (auto split: syscall.splits if_splits)

lemma fresh_sockets_demo: "fresh_sockets (demo_os f)"
proof -
  have "next_fd l \<notin> open_fds l" for l using next_fd_new [of "next_fd l" l] by auto
  then show ?thesis by (auto simp: fresh_sockets_def demo_os_def answer_def next_fd_pos)
qed

definition blank_context :: "32 word \<Rightarrow> redisContext" where
  \<comment> \<open>a context as \<open>calloc\<close> leaves it, with the given flags\<close>
  "blank_context fl = \<lparr>c_err = 0, c_errstr = [], c_fd = 0, c_flags = fl, c_obuf = None, c_reader = None,
     c_connection_type = REDIS_CONN_TCP, c_timeout = None, c_host = None, c_source_addr = None, c_port = 0, c_path = None\<rparr>"

lemma no_fd_blank [simp]: "no_fd {} (blank_context fl) fresh_world"
  by (simp add: no_fd_def blank_context_def fresh_world_def)

subsection \<open>Properties\<close>

text \<open>
  C34. A connection to a server by TCP, started with a context that has no descriptor, owns at most one: when connecting succeeds, the
  one socket that is open is the context's, the context is marked as connected and its error
  state is untouched; when it fails, no socket is open but the context's, every other one having
  been closed exactly once, and the failure is recorded, except that a context with \<open>REDIS_REUSEADDR\<close> may fail without
  an error being set. The system gives new numbers to new sockets.
\<close>

theorem connect_tcp_descriptors:
  assumes "fresh_sockets os" and "no_fd base c w"
    and "redisContextConnectBindTcp os mal c addr port timeout src w = Inr (st, c', w')"
  shows "(st = REDIS_OK \<and> holds_fd base c' w' \<and> c_flags c' = c_flags c OR REDIS_CONNECTED \<and> c_err c' = c_err c) \<or>
    (st = REDIS_ERR \<and> (c_err c' \<noteq> 0 \<or> flag_set c REDIS_REUSEADDR) \<and> (holds_fd base c' w' \<or> no_fd base c' w'))"
  using connect_tcp_ok [OF assms(1,2) assms(3) [unfolded redisContextConnectBindTcp_def]] by (simp add: connect_ok_def no_leak_def)

theorem connect_tcp_descriptors_witness:
  "\<exists>c' w'. redisContextConnectBindTcp (demo_os (\<lambda>_. None)) zero_alloc (blank_context REDIS_BLOCK) (Given ''localhost'') 80 Null
     (Given ''10.0.0.1'') fresh_world = Inr (REDIS_OK, c', w') \<and> holds_fd {} c' w'"
proof -
  let ?r = "redisContextConnectBindTcp (demo_os (\<lambda>_. None)) zero_alloc (blank_context REDIS_BLOCK) (Given ''localhost'') 80 Null
     (Given ''10.0.0.1'') fresh_world"
  have "case ?r of Inr (st, _, _) \<Rightarrow> st = REDIS_OK | Inl _ \<Rightarrow> False" by code_simp
  then obtain c' w' where r: "?r = Inr (REDIS_OK, c', w')" by (auto split: sum.splits)
  from connect_tcp_descriptors [OF fresh_sockets_demo no_fd_blank r] r show ?thesis by auto
qed

text \<open>
  Connecting to a socket in the file system owns at most one descriptor in the same way; a
  failure is recorded unless it is an invalid timeout.
\<close>

theorem connect_unix_descriptors:
  assumes "fresh_sockets os" and "no_fd base c w"
    and "redisContextConnectUnix os mal c path timeout w = Inr (st, c', w')"
  shows "(st = REDIS_OK \<and> holds_fd base c' w' \<and> c_flags c' = c_flags c OR REDIS_CONNECTED \<and> c_err c' = c_err c) \<or>
    (st = REDIS_ERR \<and> (c_err c' \<noteq> 0 \<or> fst (redisContextTimeoutMsec c') = REDIS_ERR) \<and> (holds_fd base c' w' \<or> no_fd base c' w'))"
  using redisContextConnectUnix_ok [OF assms] by (simp add: unix_ok_def no_leak_def)

theorem connect_unix_descriptors_witness:
  "\<exists>c' w'. redisContextConnectUnix (demo_os (\<lambda>call. case call of Sy_connect _ _ \<Rightarrow> Some (answer (-1) 2) | _ \<Rightarrow> None)) zero_alloc
     (blank_context REDIS_BLOCK) (Given ''/tmp/s'') Null fresh_world = Inr (REDIS_ERR, c', w') \<and> c_err c' \<noteq> 0 \<and> no_fd {} c' w'"
proof -
  let ?os = "demo_os (\<lambda>call. case call of Sy_connect _ _ \<Rightarrow> Some (answer (-1) 2) | _ \<Rightarrow> None)"
  let ?r = "redisContextConnectUnix ?os zero_alloc (blank_context REDIS_BLOCK) (Given ''/tmp/s'') Null fresh_world"
  have "case ?r of Inr (st, c, _) \<Rightarrow> st = REDIS_ERR \<and> c_fd c = -1 \<and> c_timeout c = None | Inl _ \<Rightarrow> False" by code_simp
  then obtain c' w' where r: "?r = Inr (REDIS_ERR, c', w')" "c_fd c' = -1" "c_timeout c' = None" by (auto split: sum.splits)
  from connect_unix_descriptors [OF fresh_sockets_demo no_fd_blank r(1)] r show ?thesis
    by (auto simp: holds_fd_def redisContextTimeoutMsec_def)
qed

text \<open>
  An invalid timeout makes \<open>redisContextConnectUnix\<close> fail without recording an error: the
  context it leaves has no error and an unconnected socket.
\<close>

theorem connect_unix_silent:
  "case redisContextConnectUnix (demo_os (\<lambda>_. None)) zero_alloc (blank_context REDIS_BLOCK) (Given ''/tmp/s'')
     (Given \<lparr>tv_sec = 0, tv_usec = 2000000\<rparr>) fresh_world of
   Inr (st, c, w) \<Rightarrow> st = REDIS_ERR \<and> c_err c = 0 \<and> c_fd c = 3 \<and> \<not> flag_set c REDIS_CONNECTED \<and>
     filter (\<lambda>(call, _). case call of Sy_connect _ _ \<Rightarrow> True | _ \<Rightarrow> False) (w_calls w) = []
   | Inl _ \<Rightarrow> False"
  by code_simp

text \<open>
  The timeout handed to \<open>poll\<close> is the context's, rounded up to milliseconds and bounded by
  \<open>INT_MAX\<close>; without a timeout it is -1, which waits for ever, and only a timeout that is out of
  range is refused. No intermediate result overflows.
\<close>

theorem timeout_msec_rounds_up:
  assumes "\<And>tv. c_timeout c = Some tv \<Longrightarrow> 0 \<le> tv_sec tv \<and> 0 \<le> tv_usec tv"
  shows "redisContextTimeoutMsec c =
    (case c_timeout c of
       None \<Rightarrow> (REDIS_OK, -1)
     | Some tv \<Rightarrow>
         if tv_usec tv \<le> 1000000 \<and> tv_sec tv \<le> 9223372036854774
         then (REDIS_OK, min INT_MAX ((tv_sec tv * 1000000 + tv_usec tv + 999) div 1000)) else (REDIS_ERR, -1))"
proof (cases "c_timeout c")
  case None
  then show ?thesis by (simp add: redisContextTimeoutMsec_def)
next
  case (Some tv)
  have m: "MAX_MSEC = 9223372036854774" by (simp add: MAX_MSEC_def)
  show ?thesis
  proof (cases "tv_usec tv \<le> 1000000 \<and> tv_sec tv \<le> 9223372036854774")
    case True
    with assms [OF Some] m have s: "to_int64 (to_int64 (tv_sec tv * 1000) + cdiv (to_int64 (tv_usec tv + 999)) 1000) =
      tv_sec tv * 1000 + cdiv (tv_usec tv + 999) 1000" by (intro timeout_msec_sum) auto
    have "tv_sec tv * 1000 + cdiv (tv_usec tv + 999) 1000 = (tv_sec tv * 1000000 + tv_usec tv + 999) div 1000"
      using assms [OF Some] by (simp add: cdiv_def)
    with s True m assms [OF Some] Some show ?thesis by (auto simp: redisContextTimeoutMsec_def Let_def min_def)
  next
    case False
    with Some m show ?thesis by (auto simp: redisContextTimeoutMsec_def)
  qed
qed

theorem timeout_msec_rounds_up_witness:
  "redisContextTimeoutMsec (blank_context 0\<lparr>c_timeout := Some \<lparr>tv_sec = 1, tv_usec = 500001\<rparr>\<rparr>) = (REDIS_OK, 1501)"
  by (subst timeout_msec_rounds_up) (simp add: blank_context_def)+

end
