(* ===== verification/Conn.thy ===== *)
theory Conn
  imports Net
begin

unbundle bit_operations_syntax

section \<open>The blocking and non-blocking connection (hiredis/hiredis.c)\<close>

text \<open>
  The context of a connection: creating and freeing it, connecting and reconnecting, the output
  buffer and the reader between the caller and the socket, and the command functions. An operation
  takes the context, the store of replies and the state of the system and returns all three with
  its status. The loops of \<open>redisGetReply\<close> end only if the system lets them: they return None
  when they run for ever.
\<close>

subsection \<open>Creating and freeing\<close>

definition nullable :: "'a res \<Rightarrow> 'a option res" where
  \<comment> \<open>a result that is tested for NULL\<close>
  "nullable x = (case x of Inl OutOfMemory \<Rightarrow> Inr None | Inl e \<Rightarrow> Inl e | Inr y \<Rightarrow> Inr (Some y))"

definition redisContextInit :: "allocator \<Rightarrow> redisContext option res" where
  "redisContextInit mal =
     (case mal 208 of
        None \<Rightarrow> Inr None
      | Some _ \<Rightarrow>
          bindE (nullable (sdsempty mal)) (\<lambda>obuf.
          bindE (nullable (redisReaderCreate mal)) (\<lambda>reader.
          Inr (if obuf = None \<or> reader = None then None
               else Some ((blank_context 0)\<lparr>c_obuf := obuf, c_reader := reader\<rparr>)))))"

definition redisFree ::
  "os \<Rightarrow> 'h redisReplyObjectFunctions \<Rightarrow> redisContext option \<Rightarrow> 'h \<Rightarrow> world \<Rightarrow> ('h \<times> world) res" where
  "redisFree os fn c h w =
     (case c of
        None \<Rightarrow> Inr (h, w)
      | Some c \<Rightarrow>
          let w = (if c_fd c > 0 then snd (sys os (Sy_close (c_fd c)) w) else w)
          in bindE (case c_reader c of Some r \<Rightarrow> redisReaderFree fn r h | None \<Rightarrow> Inr h) (\<lambda>h. Inr (h, w)))"

definition redisFreeKeepFd ::
  "os \<Rightarrow> 'h redisReplyObjectFunctions \<Rightarrow> redisContext \<Rightarrow> 'h \<Rightarrow> world \<Rightarrow> (int \<times> 'h \<times> world) res" where
  "redisFreeKeepFd os fn c h w =
     (let fd = c_fd c in bindE (redisFree os fn (Some (c\<lparr>c_fd := -1\<rparr>)) h w) (\<lambda>(h, w). Inr (fd, h, w)))"

definition saved :: "'a option \<Rightarrow> 'a cptr" where
  \<comment> \<open>the pointer the context holds, as an argument\<close>
  "saved p = (if p = None then Null else Saved)"

definition redisReconnect ::
  "os \<Rightarrow> allocator \<Rightarrow> 'h redisReplyObjectFunctions \<Rightarrow> redisContext \<Rightarrow> 'h \<Rightarrow> world \<Rightarrow>
     (int \<times> redisContext \<times> 'h \<times> world) res" where
  "redisReconnect os mal fn c h w =
     (let c = c\<lparr>c_err := 0, c_errstr := []\<rparr>;
          w = (if c_fd c > 0 then snd (sys os (Sy_close (c_fd c)) w) else w)
      in bindE (case c_reader c of Some r \<Rightarrow> redisReaderFree fn r h | None \<Rightarrow> Inl OutOfBounds) (\<lambda>h.
         bindE (nullable (sdsempty mal)) (\<lambda>obuf.
         bindE (nullable (redisReaderCreate mal)) (\<lambda>reader.
         let c = c\<lparr>c_obuf := obuf, c_reader := reader\<rparr>
         in bindE (case c_connection_type c of
                REDIS_CONN_TCP \<Rightarrow> redisContextConnectBindTcp os mal c (saved (c_host c)) (c_port c)
                    (saved (c_timeout c)) (saved (c_source_addr c)) w
              | REDIS_CONN_UNIX \<Rightarrow> redisContextConnectUnix os mal c (saved (c_path c)) (saved (c_timeout c)) w) (\<lambda>(st, c, w).
            Inr (st, c, h, w))))))"

subsection \<open>Connecting\<close>

definition connect_with ::
  "allocator \<Rightarrow> (redisContext \<Rightarrow> redisContext) \<Rightarrow> (redisContext \<Rightarrow> world \<Rightarrow> (int \<times> redisContext \<times> world) res) \<Rightarrow>
     world \<Rightarrow> (redisContext option \<times> world) res" where
  \<comment> \<open>a new context with its flags, connected; the result of connecting is in its error field\<close>
  "connect_with mal flags conn w =
     bindE (redisContextInit mal) (\<lambda>c.
     case c of
       None \<Rightarrow> Inr (None, w)
     | Some c \<Rightarrow> bindE (conn (flags c) w) (\<lambda>(st, c, w). Inr (Some c, w)))"

definition redisConnect :: "os \<Rightarrow> allocator \<Rightarrow> char list \<Rightarrow> int \<Rightarrow> world \<Rightarrow> (redisContext option \<times> world) res" where
  "redisConnect os mal ip port w =
     connect_with mal (set_flag REDIS_BLOCK) (\<lambda>c. redisContextConnectTcp os mal c (Given ip) port Null) w"

definition redisConnectWithTimeout ::
  "os \<Rightarrow> allocator \<Rightarrow> char list \<Rightarrow> int \<Rightarrow> timeval \<Rightarrow> world \<Rightarrow> (redisContext option \<times> world) res" where
  "redisConnectWithTimeout os mal ip port tv w =
     connect_with mal (set_flag REDIS_BLOCK) (\<lambda>c. redisContextConnectTcp os mal c (Given ip) port (Given tv)) w"

definition redisConnectNonBlock :: "os \<Rightarrow> allocator \<Rightarrow> char list \<Rightarrow> int \<Rightarrow> world \<Rightarrow> (redisContext option \<times> world) res" where
  "redisConnectNonBlock os mal ip port w =
     connect_with mal (clear_flag REDIS_BLOCK) (\<lambda>c. redisContextConnectTcp os mal c (Given ip) port Null) w"

definition redisConnectBindNonBlock ::
  "os \<Rightarrow> allocator \<Rightarrow> char list \<Rightarrow> int \<Rightarrow> char list \<Rightarrow> world \<Rightarrow> (redisContext option \<times> world) res" where
  "redisConnectBindNonBlock os mal ip port source_addr w =
     connect_with mal (clear_flag REDIS_BLOCK)
       (\<lambda>c. redisContextConnectBindTcp os mal c (Given ip) port Null (Given source_addr)) w"

definition redisConnectBindNonBlockWithReuse ::
  "os \<Rightarrow> allocator \<Rightarrow> char list \<Rightarrow> int \<Rightarrow> char list \<Rightarrow> world \<Rightarrow> (redisContext option \<times> world) res" where
  "redisConnectBindNonBlockWithReuse os mal ip port source_addr w =
     connect_with mal (\<lambda>c. set_flag REDIS_REUSEADDR (clear_flag REDIS_BLOCK c))
       (\<lambda>c. redisContextConnectBindTcp os mal c (Given ip) port Null (Given source_addr)) w"

definition redisConnectUnix :: "os \<Rightarrow> allocator \<Rightarrow> char list \<Rightarrow> world \<Rightarrow> (redisContext option \<times> world) res" where
  "redisConnectUnix os mal path w =
     connect_with mal (set_flag REDIS_BLOCK) (\<lambda>c. redisContextConnectUnix os mal c (Given path) Null) w"

definition redisConnectUnixWithTimeout ::
  "os \<Rightarrow> allocator \<Rightarrow> char list \<Rightarrow> timeval \<Rightarrow> world \<Rightarrow> (redisContext option \<times> world) res" where
  "redisConnectUnixWithTimeout os mal path tv w =
     connect_with mal (set_flag REDIS_BLOCK) (\<lambda>c. redisContextConnectUnix os mal c (Given path) (Given tv)) w"

definition redisConnectUnixNonBlock :: "os \<Rightarrow> allocator \<Rightarrow> char list \<Rightarrow> world \<Rightarrow> (redisContext option \<times> world) res" where
  "redisConnectUnixNonBlock os mal path w =
     connect_with mal (clear_flag REDIS_BLOCK) (\<lambda>c. redisContextConnectUnix os mal c (Given path) Null) w"

definition redisConnectFd :: "allocator \<Rightarrow> int \<Rightarrow> redisContext option res" where
  "redisConnectFd mal fd =
     bindE (redisContextInit mal) (\<lambda>c.
     Inr (map_option (\<lambda>c. set_flag (REDIS_BLOCK OR REDIS_CONNECTED) (c\<lparr>c_fd := fd\<rparr>)) c))"

definition redisSetTimeout :: "os \<Rightarrow> redisContext \<Rightarrow> timeval \<Rightarrow> world \<Rightarrow> int \<times> redisContext \<times> world" where
  "redisSetTimeout os c tv w =
     (if flag_set c REDIS_BLOCK then redisContextSetTimeout os c tv w else (REDIS_ERR, c, w))"

definition redisEnableKeepAlive :: "os \<Rightarrow> redisContext \<Rightarrow> world \<Rightarrow> int \<times> redisContext \<times> world" where
  "redisEnableKeepAlive os c w =
     (let (st, c, w) = redisKeepAlive os c REDIS_KEEPALIVE_INTERVAL w
      in if st \<noteq> REDIS_OK then (REDIS_ERR, c, w) else (REDIS_OK, c, w))"

subsection \<open>Between the buffers and the socket\<close>

definition io_failed ::
  "os \<Rightarrow> redisContext \<Rightarrow> world \<Rightarrow> (redisContext \<Rightarrow> 'a) \<Rightarrow> (redisContext \<Rightarrow> 'a) \<Rightarrow> 'a res" where
  \<comment> \<open>after a call that returned -1: try again later, or record the error\<close>
  "io_failed os c w again failed =
     (if (w_errno w = EAGAIN \<and> \<not> flag_set c REDIS_BLOCK) \<or> w_errno w = EINTR then Inr (again c)
      else bindE (redisSetError os c REDIS_ERR_IO None w) (\<lambda>c. Inr (failed c)))"

definition redisBufferRead ::
  "os \<Rightarrow> allocator \<Rightarrow> 'h redisReplyObjectFunctions \<Rightarrow> redisContext \<Rightarrow> 'h \<Rightarrow> world \<Rightarrow>
     (int \<times> redisContext \<times> 'h \<times> world) res" where
  "redisBufferRead os mal fn c h w =
     (if c_err c \<noteq> 0 then Inr (REDIS_ERR, c, h, w)
      else let (r, w) = sys os (Sy_read (c_fd c) (1024 * 16)) w; nread = sr_ret r
        in if nread = -1 then io_failed os c w (\<lambda>c. (REDIS_OK, c, h, w)) (\<lambda>c. (REDIS_ERR, c, h, w))
           else if nread = 0 then Inr (REDIS_ERR, set_error c REDIS_ERR_EOF ''Server closed the connection'', h, w)
           else case c_reader c of
             None \<Rightarrow> Inl OutOfBounds
           | Some rd \<Rightarrow>
               bindE (redisReaderFeed mal fn rd h (Some (sr_bytes r)) (nat nread)) (\<lambda>(st, rd, h).
               let c = c\<lparr>c_reader := Some rd\<rparr>
               in Inr (if st \<noteq> REDIS_OK then (REDIS_ERR, set_error c (rd_err rd) (rd_errstr rd), h, w)
                       else (REDIS_OK, c, h, w))))"

definition redisBufferWrite :: "os \<Rightarrow> allocator \<Rightarrow> redisContext \<Rightarrow> world \<Rightarrow> (int \<times> bool \<times> redisContext \<times> world) res" where
  \<comment> \<open>the status and \<open>*done\<close>, which is stored only when the status is \<open>REDIS_OK\<close>\<close>
  "redisBufferWrite os mal c w =
     (if c_err c \<noteq> 0 then Inr (REDIS_ERR, False, c, w)
      else let finish = (\<lambda>c w. case c_obuf c of None \<Rightarrow> Inl OutOfBounds | Some s \<Rightarrow> Inr (REDIS_OK, sdslen s = 0, c, w))
        in case c_obuf c of
             None \<Rightarrow> Inl OutOfBounds
           | Some s \<Rightarrow>
               if sdslen s > 0
               then bindE (peekn (hbuf s) 0 (sdslen s)) (\<lambda>bytes.
                    let (r, w) = sys os (Sy_write (c_fd c) bytes) w; nwritten = sr_ret r
                    in if nwritten = -1
                       then bindE (io_failed os c w (\<lambda>c. (True, c)) (\<lambda>c. (False, c))) (\<lambda>(ok, c).
                            if ok then finish c w else Inr (REDIS_ERR, False, c, w))
                       else if nwritten > 0
                       then if nwritten = to_int32 (int (sdslen s))
                            then bindE (nullable (sdsempty mal)) (\<lambda>e. finish (c\<lparr>c_obuf := e\<rparr>) w)
                            else bindE (sdsrange s nwritten (-1)) (\<lambda>s. finish (c\<lparr>c_obuf := Some s\<rparr>) w)
                       else finish c w)
               else finish c w)"

subsection \<open>Replies\<close>

definition redisGetReplyFromReader ::
  "'h redisReplyObjectFunctions \<Rightarrow> redisContext \<Rightarrow> 'h \<Rightarrow> (int \<times> nat \<times> redisContext \<times> 'h) res" where
  "redisGetReplyFromReader fn c h =
     (case c_reader c of
        None \<Rightarrow> Inl OutOfBounds
      | Some rd \<Rightarrow>
          bindE (redisReaderGetReply fn rd h) (\<lambda>(st, reply, rd, h).
          let c = c\<lparr>c_reader := Some rd\<rparr>
          in Inr (if st = REDIS_ERR then (REDIS_ERR, reply, set_error c (rd_err rd) (rd_errstr rd), h)
                  else (REDIS_OK, reply, c, h))))"

partial_function (option) write_loop ::
  "os \<Rightarrow> allocator \<Rightarrow> redisContext \<Rightarrow> world \<Rightarrow> (int \<times> redisContext \<times> world) res option" where
  "write_loop os mal c w =
     (case redisBufferWrite os mal c w of
        Inl e \<Rightarrow> Some (Inl e)
      | Inr (st, done, c, w) \<Rightarrow>
          if st = REDIS_ERR then Some (Inr (REDIS_ERR, c, w))
          else if done then Some (Inr (REDIS_OK, c, w))
          else write_loop os mal c w)"

partial_function (option) read_loop ::
  "os \<Rightarrow> allocator \<Rightarrow> 'h redisReplyObjectFunctions \<Rightarrow> redisContext \<Rightarrow> 'h \<Rightarrow> world \<Rightarrow>
     (int \<times> nat \<times> redisContext \<times> 'h \<times> world) res option" where
  "read_loop os mal fn c h w =
     (case redisBufferRead os mal fn c h w of
        Inl e \<Rightarrow> Some (Inl e)
      | Inr (st, c, h, w) \<Rightarrow>
          if st = REDIS_ERR then Some (Inr (REDIS_ERR, 0, c, h, w))
          else case redisGetReplyFromReader fn c h of
            Inl e \<Rightarrow> Some (Inl e)
          | Inr (st, aux, c, h) \<Rightarrow>
              if st = REDIS_ERR then Some (Inr (REDIS_ERR, 0, c, h, w))
              else if aux \<noteq> 0 then Some (Inr (REDIS_OK, aux, c, h, w))
              else read_loop os mal fn c h w)"

text \<open>The second component of the result is \<open>*reply\<close>, which is stored only with \<open>REDIS_OK\<close>.\<close>

definition redisGetReply ::
  "os \<Rightarrow> allocator \<Rightarrow> 'h redisReplyObjectFunctions \<Rightarrow> redisContext \<Rightarrow> 'h \<Rightarrow> world \<Rightarrow>
     (int \<times> nat \<times> redisContext \<times> 'h \<times> world) res option" where
  "redisGetReply os mal fn c h w =
     (case redisGetReplyFromReader fn c h of
        Inl e \<Rightarrow> Some (Inl e)
      | Inr (st, aux, c, h) \<Rightarrow>
          if st = REDIS_ERR then Some (Inr (REDIS_ERR, 0, c, h, w))
          else if aux = 0 \<and> flag_set c REDIS_BLOCK
          then (case write_loop os mal c w of
                  None \<Rightarrow> None
                | Some (Inl e) \<Rightarrow> Some (Inl e)
                | Some (Inr (st, c, w)) \<Rightarrow>
                    if st = REDIS_ERR then Some (Inr (REDIS_ERR, 0, c, h, w)) else read_loop os mal fn c h w)
          else Some (Inr (REDIS_OK, aux, c, h, w)))"

subsection \<open>Commands\<close>

definition append_command :: "allocator \<Rightarrow> redisContext \<Rightarrow> char list \<Rightarrow> nat \<Rightarrow> (int \<times> redisContext) res" where
  \<comment> \<open>\<open>__redisAppendCommand\<close>\<close>
  "append_command mal c cmd len =
     (case c_obuf c of
        None \<Rightarrow> Inl OutOfBounds
      | Some s \<Rightarrow>
          bindE (nullable (sdscatlen mal s cmd len)) (\<lambda>newbuf.
          Inr (case newbuf of
                 None \<Rightarrow> (REDIS_ERR, set_error c REDIS_ERR_OOM ''Out of memory'')
               | Some s \<Rightarrow> (REDIS_OK, c\<lparr>c_obuf := Some s\<rparr>))))"

definition redisAppendFormattedCommand ::
  "allocator \<Rightarrow> redisContext \<Rightarrow> char list \<Rightarrow> nat \<Rightarrow> (int \<times> redisContext) res" where
  "redisAppendFormattedCommand mal c cmd len =
     bindE (append_command mal c cmd len) (\<lambda>(st, c). Inr (if st \<noteq> REDIS_OK then (REDIS_ERR, c) else (REDIS_OK, c)))"

definition append_formatted ::
  "allocator \<Rightarrow> redisContext \<Rightarrow> int \<Rightarrow> char list option \<Rightarrow> (int \<times> redisContext) res" where
  \<comment> \<open>append the command that was formatted, of length \<open>len\<close>\<close>
  "append_formatted mal c len cmd =
     (case cmd of
        None \<Rightarrow> Inl OutOfBounds
      | Some cmd \<Rightarrow>
          bindE (append_command mal c cmd (nat (len mod 2 ^ 64))) (\<lambda>(st, c).
          Inr (if st \<noteq> REDIS_OK then (REDIS_ERR, c) else (REDIS_OK, c))))"

definition redisvAppendCommand ::
  "allocator \<Rightarrow> vsn \<Rightarrow> redisContext \<Rightarrow> char list \<Rightarrow> va_arg list \<Rightarrow> (int \<times> redisContext) res" where
  "redisvAppendCommand mal vsn c format ap =
     bindE (redisvFormatCommand mal vsn True format ap) (\<lambda>(len, cmd).
     if len = -1 then Inr (REDIS_ERR, set_error c REDIS_ERR_OOM ''Out of memory'')
     else if len = -2 then Inr (REDIS_ERR, set_error c REDIS_ERR_OTHER ''Invalid format string'')
     else append_formatted mal c len cmd)"

definition redisAppendCommand ::
  "allocator \<Rightarrow> vsn \<Rightarrow> redisContext \<Rightarrow> char list \<Rightarrow> va_arg list \<Rightarrow> (int \<times> redisContext) res" where
  "redisAppendCommand mal vsn c format args = redisvAppendCommand mal vsn c format args"

definition redisAppendCommandArgv ::
  "allocator \<Rightarrow> redisContext \<Rightarrow> int \<Rightarrow> char list list \<Rightarrow> nat list option \<Rightarrow> (int \<times> redisContext) res" where
  "redisAppendCommandArgv mal c argc argv argvlen =
     bindE (redisFormatSdsCommandArgv mal True argc argv argvlen) (\<lambda>(len, cmd).
     if len = -1 then Inr (REDIS_ERR, set_error c REDIS_ERR_OOM ''Out of memory'')
     else append_formatted mal c len (map_option hbuf cmd))"

definition block_for_reply ::
  "os \<Rightarrow> allocator \<Rightarrow> 'h redisReplyObjectFunctions \<Rightarrow> redisContext \<Rightarrow> 'h \<Rightarrow> world \<Rightarrow>
     (nat \<times> redisContext \<times> 'h \<times> world) res option" where
  \<comment> \<open>\<open>__redisBlockForReply\<close>\<close>
  "block_for_reply os mal fn c h w =
     (if flag_set c REDIS_BLOCK
      then map_option (\<lambda>r. bindE r (\<lambda>(st, reply, c, h, w). Inr (if st \<noteq> REDIS_OK then 0 else reply, c, h, w)))
             (redisGetReply os mal fn c h w)
      else Some (Inr (0, c, h, w)))"

definition reply_to ::
  "os \<Rightarrow> allocator \<Rightarrow> 'h redisReplyObjectFunctions \<Rightarrow> 'h \<Rightarrow> world \<Rightarrow> (int \<times> redisContext) res \<Rightarrow>
     (nat \<times> redisContext \<times> 'h \<times> world) res option" where
  \<comment> \<open>the reply to a command that was appended with the given outcome\<close>
  "reply_to os mal fn h w appended =
     (case appended of
        Inl e \<Rightarrow> Some (Inl e)
      | Inr (st, c) \<Rightarrow> if st \<noteq> REDIS_OK then Some (Inr (0, c, h, w)) else block_for_reply os mal fn c h w)"

definition redisvCommand ::
  "os \<Rightarrow> allocator \<Rightarrow> vsn \<Rightarrow> 'h redisReplyObjectFunctions \<Rightarrow> redisContext \<Rightarrow> char list \<Rightarrow> va_arg list \<Rightarrow> 'h \<Rightarrow> world \<Rightarrow>
     (nat \<times> redisContext \<times> 'h \<times> world) res option" where
  "redisvCommand os mal vsn fn c format ap h w = reply_to os mal fn h w (redisvAppendCommand mal vsn c format ap)"

definition redisCommand ::
  "os \<Rightarrow> allocator \<Rightarrow> vsn \<Rightarrow> 'h redisReplyObjectFunctions \<Rightarrow> redisContext \<Rightarrow> char list \<Rightarrow> va_arg list \<Rightarrow> 'h \<Rightarrow> world \<Rightarrow>
     (nat \<times> redisContext \<times> 'h \<times> world) res option" where
  "redisCommand os mal vsn fn c format args h w = redisvCommand os mal vsn fn c format args h w"

definition redisCommandArgv ::
  "os \<Rightarrow> allocator \<Rightarrow> 'h redisReplyObjectFunctions \<Rightarrow> redisContext \<Rightarrow> int \<Rightarrow> char list list \<Rightarrow> nat list option \<Rightarrow> 'h \<Rightarrow> world \<Rightarrow>
     (nat \<times> redisContext \<times> 'h \<times> world) res option" where
  "redisCommandArgv os mal fn c argc argv argvlen h w = reply_to os mal fn h w (redisAppendCommandArgv mal c argc argv argvlen)"

end
