(* ===== verification/Delivery.thy ===== *)
theory Delivery
  imports Conn
begin

section \<open>Commands and replies over a socket\<close>

text \<open>
  What the blocking connection promises its caller: commands that were appended go out in order and
  unchanged, however few bytes the system takes at a time, and the replies of the server come back
  in order, however few bytes it delivers at a time. The reader may be stopped in the middle of a
  reply by the end of the bytes it has; \<open>will_get\<close> says that it will return a given reply once the
  rest has been fed, and every call of the code keeps that promise or fulfils it.
\<close>

subsection \<open>A reader that will have a reply\<close>

definition will_get ::
  "allocator \<Rightarrow> 'h redisReplyObjectFunctions \<Rightarrow> redisReader \<Rightarrow> 'h \<Rightarrow> char list \<Rightarrow> (nat \<Rightarrow> 'h \<Rightarrow> char list \<Rightarrow> bool) \<Rightarrow> bool" where
  \<comment> \<open>given the bytes \<open>b\<close>, the reader returns a reply that satisfies \<open>Q\<close> with the store and the bytes left over\<close>
  "will_get mal fn r h b Q \<longleftrightarrow> buffer_ok r \<and> stack_index_ok r \<and> rd_err r = 0 \<and> rd_len r + length b < 2 ^ 31 \<and>
     (\<exists>r2 p w h' u. redisReaderFeed mal fn r h (Some b) (length b) = Inr (REDIS_OK, r2, h) \<and>
        redisReaderGetReply fn r2 h = Inr (REDIS_OK, p, w, h') \<and> p \<noteq> 0 \<and> idle w \<and> reader_bytes w = Inr u \<and> Q p h' u)"

lemma idle_more_input: "more_input c r w \<Longrightarrow> idle w \<Longrightarrow> idle r"
  by (simp add: more_input_def same_but_input_def idle_def)

lemma feed_more_input:
  assumes g: "grants_all mal" and b: "buffer_ok r" and e: "rd_err r = 0" and n: "rd_len r + length c < 2 ^ 31"
  obtains r1 where "redisReaderFeed mal fn r h (Some c) (length c) = Inr (REDIS_OK, r1, h)" "more_input c r r1"
    "rd_len r1 = rd_len r + length c"
proof -
  from b obtain p where p: "reader_bytes r = Inr p" using reader_bytes_val by (auto simp: buffer_ok_def)
  from redisReaderFeed_bytes [OF e b g order_refl n p, of fn h] b p that show thesis
    by (auto simp: more_input_def same_but_input_def)
qed

lemma more_input_cut:
  "more_input c r r1 \<Longrightarrow> more_input (c @ b) r rw \<Longrightarrow> more_input b r1 rw"
  by (auto simp: more_input_def same_but_input_def)

lemma will_get_step:
  assumes g: "grants_all mal" and w: "will_get mal fn r h (c @ b) Q"
  shows "\<exists>r1 q r' h1. redisReaderFeed mal fn r h (Some c) (length c) = Inr (REDIS_OK, r1, h) \<and>
    redisReaderGetReply fn r1 h = Inr (REDIS_OK, q, r', h1) \<and> rd_len r' \<le> rd_len r + length c \<and>
    ((q \<noteq> 0 \<and> idle r' \<and> (\<exists>u. reader_bytes r' = Inr u \<and> Q q h1 (u @ b))) \<or> (q = 0 \<and> b \<noteq> [] \<and> will_get mal fn r' h1 b Q))"
proof -
  from w obtain r2 p x h' u where r: "buffer_ok r" "stack_index_ok r" "rd_err r = 0" "rd_len r + length (c @ b) < 2 ^ 31"
    and f: "redisReaderFeed mal fn r h (Some (c @ b)) (length (c @ b)) = Inr (REDIS_OK, r2, h)"
    and get: "redisReaderGetReply fn r2 h = Inr (REDIS_OK, p, x, h')" "p \<noteq> 0" "idle x" "reader_bytes x = Inr u" "Q p h' u"
    by (auto simp: will_get_def)
  from feed_more_input [OF g r(1,3,4), of fn h] f have m2: "more_input (c @ b) r r2" by auto
  have nc: "rd_len r + length c < 2 ^ 31" using r(4) by simp
  from feed_more_input [OF g r(1,3) nc, of fn h] obtain r1 where
    f1: "redisReaderFeed mal fn r h (Some c) (length c) = Inr (REDIS_OK, r1, h)" "more_input c r r1" "rd_len r1 = rd_len r + length c"
    by blast
  note m = more_input_cut [OF f1(2) m2]
  have r1: "rd_err r1 = 0" "stack_index_ok r1" "buffer_ok r1" "rd_len r1 + length b < 2 ^ 31"
    using more_inputD [OF f1(2)] r f1(3) by (auto simp: stack_index_ok_def)
  show ?thesis
  proof (cases "rd_len r1 = 0")
    case True
    have "b \<noteq> []"
    proof
      assume "b = []"
      with f f1 True get(1,2) r1(1) show False by (simp add: redisReaderGetReply_def)
    qed
    moreover have "reader_bytes r1 = reader_bytes r \<or> c = []" by (cases c) (use f1 True in auto)
    moreover have "c = []" using f1(3) True by simp
    then have "r1 = r" using f1(1) r(3) by (simp add: redisReaderFeed_def)
    ultimately show ?thesis using True f1 r1(1) w \<open>c = []\<close> by (auto simp: redisReaderGetReply_def)
  next
    case False
    from GetReply_prefix [OF g m r1(1,2) False r1(4) get(1,2)] obtain q r' h1 where
      q: "redisReaderGetReply fn r1 h = Inr (REDIS_OK, q, r', h1)" "rd_len r' \<le> rd_len r1" "rd_err r' = 0"
      "(q = p \<and> h1 = h' \<and> more_input b r' x) \<or>
       (q = 0 \<and> b \<noteq> [] \<and> buffer_ok r' \<and> stack_index_ok r' \<and> (\<exists>r2 w'. redisReaderFeed mal fn r' h1 (Some b) (length b) = Inr (REDIS_OK, r2, h1) \<and>
        redisReaderGetReply fn r2 h1 = Inr (REDIS_OK, p, w', h') \<and> (w' = x \<or> more_input [] x w')))" by blast
    from q(4) show ?thesis
    proof (elim disjE conjE)
      assume a: "q = p" "h1 = h'" "more_input b r' x"
      then obtain v where "reader_bytes r' = Inr v" "u = v @ b" using get(4) by (auto simp: more_input_def)
      with a f1 q(1,2) get idle_more_input [OF a(3)] show ?thesis by auto
    next
      assume a: "q = 0" "b \<noteq> []" "buffer_ok r'" "stack_index_ok r'" and
        "\<exists>r2 w'. redisReaderFeed mal fn r' h1 (Some b) (length b) = Inr (REDIS_OK, r2, h1) \<and>
        redisReaderGetReply fn r2 h1 = Inr (REDIS_OK, p, w', h') \<and> (w' = x \<or> more_input [] x w')"
      then obtain r3 w' where b: "redisReaderFeed mal fn r' h1 (Some b) (length b) = Inr (REDIS_OK, r3, h1)"
        "redisReaderGetReply fn r3 h1 = Inr (REDIS_OK, p, w', h')" "w' = x \<or> more_input [] x w'" by blast
      from b(3) get(3,4) have "idle w'" "reader_bytes w' = Inr u"
        by (auto simp: more_input_def same_but_input_def idle_def)
      with a b get q r1(4) have "will_get mal fn r' h1 b Q" by (auto simp: will_get_def)
      with a f1 q show ?thesis by auto
    qed
  qed
qed

lemma will_get_encoded:
  assumes g: "grants_all mal" and t: "sendable t" "depth t \<le> 8" and r: "idle r" and u: "reader_bytes r = Inr u" "u @ b = encode t @ rest"
    and h: "0 < rh_next h" and n: "rd_len r + length b < 2 ^ 31"
  shows "will_get mal (defaultFunctions mal) r h b (\<lambda>p h' u. reply_at t (new_nodes h h') p \<and> rh_next h < rh_next h' \<and>
    (\<forall>q<rh_next h. rh_node h' q = rh_node h q) \<and> u = rest)"
proof -
  from r have i: "buffer_ok r" "rd_err r = 0" "stack_index_ok r" by (auto simp: idle_def stack_index_ok_def)
  from feed_more_input [OF g i(1,2) n, of "defaultFunctions mal" h] obtain r1 where
    f: "redisReaderFeed mal (defaultFunctions mal) r h (Some b) (length b) = Inr (REDIS_OK, r1, h)" "more_input b r r1" by blast
  have "idle r1" "reader_bytes r1 = Inr (encode t @ rest)"
    using f(2) r u by (auto simp: more_input_def same_but_input_def idle_def)
  from GetReply_encoded [OF g t this h] obtain p r' h' where
    p: "redisReaderGetReply (defaultFunctions mal) r1 h = Inr (REDIS_OK, p, r', h')" "reply_at t (new_nodes h h') p"
    "rh_next h < rh_next h'" "\<forall>q<rh_next h. rh_node h' q = rh_node h q" "idle r'" "reader_bytes r' = Inr rest" by blast
  moreover have "p \<noteq> 0" using p(2) h by (cases t) (auto simp: new_nodes_def restrict_map_def split: if_splits)
  ultimately show ?thesis using f i n unfolding will_get_def by blast
qed

subsection \<open>What goes over the socket\<close>

fun bytes_in :: "int \<Rightarrow> call_log \<Rightarrow> char list" where
  \<comment> \<open>everything read from a descriptor, in order\<close>
  "bytes_in fd [] = []"
| "bytes_in fd ((call, r) # l) =
     bytes_in fd l @ (case call of Sy_read d _ \<Rightarrow> if d = fd \<and> 0 < sr_ret r then take (nat (sr_ret r)) (sr_bytes r) else [] | _ \<Rightarrow> [])"

fun bytes_out :: "int \<Rightarrow> call_log \<Rightarrow> char list" where
  \<comment> \<open>everything the system took for a descriptor, in order\<close>
  "bytes_out fd [] = []"
| "bytes_out fd ((call, r) # l) =
     bytes_out fd l @ (case call of Sy_write d s \<Rightarrow> if d = fd \<and> 0 < sr_ret r then take (nat (sr_ret r)) s else [] | _ \<Rightarrow> [])"

definition accepts :: "os \<Rightarrow> int \<Rightarrow> bool" where
  \<comment> \<open>every write takes some of the bytes\<close>
  "accepts os fd \<longleftrightarrow> (\<forall>l s. s \<noteq> [] \<longrightarrow> 0 < sr_ret (os_call os l (Sy_write fd s)) \<and> sr_ret (os_call os l (Sy_write fd s)) \<le> int (length s))"

definition serves :: "os \<Rightarrow> int \<Rightarrow> char list \<Rightarrow> bool" where
  \<comment> \<open>reads deliver the stream in pieces of any size\<close>
  "serves os fd stream \<longleftrightarrow> (\<forall>l n k. bytes_in fd l = take k stream \<longrightarrow> k < length stream \<longrightarrow> 0 < n \<longrightarrow>
     (\<exists>m. 0 < m \<and> m \<le> n \<and> k + m \<le> length stream \<and> sr_ret (os_call os l (Sy_read fd n)) = int m \<and>
        sr_bytes (os_call os l (Sy_read fd n)) = take m (drop k stream)))"

lemma nullable_Inr [simp]: "nullable (Inr x) = Inr (Some x)"
  by (simp add: nullable_def)

lemma sdsempty_total: "grants_all mal \<Longrightarrow> \<exists>s. sdsempty mal = Inr s \<and> sds_wf s \<and> sdsval s = []"
  using res_ok_total [OF sdsempty_ok] by blast

lemma length_sdsval: "sds_wf s \<Longrightarrow> length (sdsval s) = sdslen s"
  by (simp add: sdsval_length sds_wf_shape)

lemma sdsval_hbuf: "sds_wf s \<Longrightarrow> peekn (hbuf s) 0 (sdslen s) = Inr (sdsval s)"
  using length_sdsval [of s] by (simp add: peekn_def sdsval_def sdslen_def min_def split: if_splits)

lemma bufferWrite_some:
  assumes g: "grants_all mal" and e: "c_err c = 0" and s: "c_obuf c = Some s" "sds_wf s" "sdslen s < 2 ^ 31"
    and y: "sys os (Sy_write (c_fd c) (sdsval s)) w = (r, w')" and r: "0 < sr_ret r" "sr_ret r \<le> int (sdslen s)"
  shows "\<exists>s'. redisBufferWrite os mal c w = Inr (REDIS_OK, sdslen s' = 0, c\<lparr>c_obuf := Some s'\<rparr>, w') \<and> sds_wf s' \<and>
    sdsval s' = drop (nat (sr_ret r)) (sdsval s)"
proof -
  have l: "0 < sdslen s" "to_int32 (int (sdslen s)) = int (sdslen s)" using r s(3) by (auto intro: to_int32_id)
  show ?thesis
  proof (cases "sr_ret r = int (sdslen s)")
    case True
    obtain s' where "sdsempty mal = Inr s'" "sds_wf s'" "sdsval s' = []" using sdsempty_total [OF g] by blast
    then show ?thesis
      using e s l y True length_sdsval [OF s(2)] sdsval_hbuf [OF s(2)]
      by (intro exI [of _ s']) (simp add: redisBufferWrite_def Let_def)
  next
    case False
    have "- (2 ^ 31) \<le> sr_ret r" "sr_ret r < 2 ^ 31" using r s(3) by simp_all
    from sdsrange_ok [OF s(2,3) this, of "-1"] obtain s' where "sdsrange s (sr_ret r) (-1) = Inr s'" "sds_wf s'"
      "sdsval s' = slice (sdsval s) (sr_ret r) (-1)" by auto
    then show ?thesis
      using e s l y False r sdsval_hbuf [OF s(2)] slice_tail [of "sdsval s" "nat (sr_ret r)"]
      by (intro exI [of _ s']) (simp add: redisBufferWrite_def Let_def)
  qed
qed

lemma sys_log: "sys os call w = (r, w') \<Longrightarrow> r = os_call os (w_calls w) call \<and> w_calls w' = (call, r) # w_calls w"
  by (auto simp: sys_def Let_def)

lemma write_loop_sends:
  assumes g: "grants_all mal" and a: "accepts os (c_fd c)"
  shows "c_err c = 0 \<Longrightarrow> c_obuf c = Some s \<Longrightarrow> sds_wf s \<Longrightarrow> sdslen s < 2 ^ 31 \<Longrightarrow>
    \<exists>s' w'. write_loop os mal c w = Some (Inr (REDIS_OK, c\<lparr>c_obuf := Some s'\<rparr>, w')) \<and> sds_wf s' \<and> sdslen s' = 0 \<and>
      bytes_out (c_fd c) (w_calls w') = bytes_out (c_fd c) (w_calls w) @ sdsval s \<and>
      bytes_in (c_fd c) (w_calls w') = bytes_in (c_fd c) (w_calls w)"
  using a
proof (induction "sdslen s" arbitrary: c s w rule: less_induct)
  case less
  note e = less.prems(1) and s = less.prems(2-4) and a = less.prems(5)
  show ?case
  proof (cases "sdslen s = 0")
    case True
    then have "redisBufferWrite os mal c w = Inr (REDIS_OK, True, c, w)" using e s by (simp add: redisBufferWrite_def)
    moreover have "c\<lparr>c_obuf := Some s\<rparr> = c" using s(1) by simp
    ultimately show ?thesis
      using True s length_sdsval [OF s(2)] by (intro exI [of _ s] exI [of _ w]) (simp add: write_loop.simps [of os mal c])
  next
    case False
    obtain r w1 where y: "sys os (Sy_write (c_fd c) (sdsval s)) w = (r, w1)" by fastforce
    note ln = length_sdsval [OF s(2)]
    with False have "sdsval s \<noteq> []" by auto
    with a sys_log [OF y] ln have r: "0 < sr_ret r" "sr_ret r \<le> int (sdslen s)" by (auto simp: accepts_def dest!: spec [of _ "w_calls w"] spec [of _ "sdsval s"])
    from bufferWrite_some [OF g e s y r] obtain s1 where
      s1: "redisBufferWrite os mal c w = Inr (REDIS_OK, sdslen s1 = 0, c\<lparr>c_obuf := Some s1\<rparr>, w1)" "sds_wf s1"
      "sdsval s1 = drop (nat (sr_ret r)) (sdsval s)" by blast
    have log: "bytes_out (c_fd c) (w_calls w1) = bytes_out (c_fd c) (w_calls w) @ take (nat (sr_ret r)) (sdsval s)"
      "bytes_in (c_fd c) (w_calls w1) = bytes_in (c_fd c) (w_calls w)" using sys_log [OF y] r by auto
    have l1: "sdslen s1 < sdslen s" using s1(3) ln length_sdsval [OF s1(2)] r False by auto
    then have "sdslen s1 < 2 ^ 31" using s(3) by simp
    from less.hyps [OF l1, of "c\<lparr>c_obuf := Some s1\<rparr>" w1] this e a s1(2) obtain s' w' where
      w': "write_loop os mal (c\<lparr>c_obuf := Some s1\<rparr>) w1 = Some (Inr (REDIS_OK, c\<lparr>c_obuf := Some s'\<rparr>, w'))" "sds_wf s'" "sdslen s' = 0"
      "bytes_out (c_fd c) (w_calls w') = bytes_out (c_fd c) (w_calls w1) @ sdsval s1"
      "bytes_in (c_fd c) (w_calls w') = bytes_in (c_fd c) (w_calls w1)" by auto
    show ?thesis
    proof (cases "sdslen s1 = 0")
      case True
      with length_sdsval [OF s1(2)] have "sdsval s1 = []" by simp
      with s1(3) r have "take (nat (sr_ret r)) (sdsval s) = sdsval s" by simp
      with log s1 True show ?thesis
        by (intro exI [of _ s1] exI [of _ w1]) (simp add: write_loop.simps [of os mal c])
    next
      case False
      with s1(1) w' log s1(3) show ?thesis
        by (intro exI [of _ s'] exI [of _ w']) (simp add: write_loop.simps [of os mal c])
    qed
  qed
qed

lemma getReplyFromReader_step:
  assumes g: "grants_all mal" and rd: "c_reader c = Some rd" and w: "will_get mal fn rd h b Q"
  shows "\<exists>q rd' h'. redisGetReplyFromReader fn c h = Inr (REDIS_OK, q, c\<lparr>c_reader := Some rd'\<rparr>, h') \<and> rd_len rd' \<le> rd_len rd \<and>
    ((q \<noteq> 0 \<and> idle rd' \<and> (\<exists>u. reader_bytes rd' = Inr u \<and> Q q h' (u @ b))) \<or> (q = 0 \<and> b \<noteq> [] \<and> will_get mal fn rd' h' b Q))"
proof -
  have "will_get mal fn rd h ([] @ b) Q" using w by simp
  from will_get_step [OF g this, unfolded list.size] obtain r1 q r' h1 where
    s: "redisReaderFeed mal fn rd h (Some []) 0 = Inr (REDIS_OK, r1, h)" "redisReaderGetReply fn r1 h = Inr (REDIS_OK, q, r', h1)"
    "rd_len r' \<le> rd_len rd + 0"
    "(q \<noteq> 0 \<and> idle r' \<and> (\<exists>u. reader_bytes r' = Inr u \<and> Q q h1 (u @ b))) \<or> (q = 0 \<and> b \<noteq> [] \<and> will_get mal fn r' h1 b Q)" by metis
  have "r1 = rd" using s(1) w by (simp add: redisReaderFeed_def will_get_def)
  with s rd show ?thesis by (auto simp: redisGetReplyFromReader_def Let_def)
qed

lemma read_loop_delivers:
  assumes g: "grants_all mal" and sv: "serves os fd stream"
  shows "c_err c = 0 \<Longrightarrow> c_fd c = fd \<Longrightarrow> c_reader c = Some rd \<Longrightarrow> will_get mal fn rd h (drop k stream) Q \<Longrightarrow> k < length stream \<Longrightarrow>
    bytes_in fd (w_calls w) = take k stream \<Longrightarrow>
    \<exists>q rd' h' w' k' u. read_loop os mal fn c h w = Some (Inr (REDIS_OK, q, c\<lparr>c_reader := Some rd'\<rparr>, h', w')) \<and> q \<noteq> 0 \<and> idle rd' \<and>
      reader_bytes rd' = Inr u \<and> Q q h' (u @ drop k' stream) \<and> k \<le> k' \<and> k' \<le> length stream \<and> bytes_in fd (w_calls w') = take k' stream \<and>
      rd_len rd' + length (drop k' stream) \<le> rd_len rd + length (drop k stream) \<and> bytes_out fd (w_calls w') = bytes_out fd (w_calls w)"
proof (induction "length stream - k" arbitrary: c rd h k w rule: less_induct)
  case less
  note e = less.prems(1) and fd = less.prems(2) and rd = less.prems(3) and wg = less.prems(4) and k = less.prems(5) and inn = less.prems(6)
  obtain r w1 where y: "sys os (Sy_read fd (1024 * 16)) w = (r, w1)" by fastforce
  note lg = sys_log [OF y]
  from sv inn k have "\<exists>m. 0 < m \<and> m \<le> 1024 * 16 \<and> k + m \<le> length stream \<and> sr_ret r = int m \<and> sr_bytes r = take m (drop k stream)"
    using lg unfolding serves_def by simp
  then obtain m where m: "0 < m" "k + m \<le> length stream" "sr_ret r = int m" "sr_bytes r = take m (drop k stream)" by blast
  let ?c = "take m (drop k stream)"
  have lc: "length ?c = m" using m by simp
  have "drop k stream = ?c @ drop (k + m) stream" by (metis add.commute append_take_drop_id drop_drop)
  with wg have "will_get mal fn rd h (?c @ drop (k + m) stream) Q" by simp
  from will_get_step [OF g this] obtain r1 q r' h1 where
    s: "redisReaderFeed mal fn rd h (Some ?c) m = Inr (REDIS_OK, r1, h)" "redisReaderGetReply fn r1 h = Inr (REDIS_OK, q, r', h1)"
    "rd_len r' \<le> rd_len rd + m"
    "(q \<noteq> 0 \<and> idle r' \<and> (\<exists>u. reader_bytes r' = Inr u \<and> Q q h1 (u @ drop (k + m) stream))) \<or>
     (q = 0 \<and> drop (k + m) stream \<noteq> [] \<and> will_get mal fn r' h1 (drop (k + m) stream) Q)" using lc by metis
  have rdm: "redisBufferRead os mal fn c h w = Inr (REDIS_OK, c\<lparr>c_reader := Some r1\<rparr>, h, w1)"
    using e fd rd y m s(1) by (simp add: redisBufferRead_def)
  have gr: "redisGetReplyFromReader fn (c\<lparr>c_reader := Some r1\<rparr>) h = Inr (REDIS_OK, q, c\<lparr>c_reader := Some r'\<rparr>, h1)"
    using s(2) by (simp add: redisGetReplyFromReader_def)
  have log: "bytes_in fd (w_calls w1) = take (k + m) stream" "bytes_out fd (w_calls w1) = bytes_out fd (w_calls w)"
    using lg m inn by (simp_all add: take_add)
  from s(4) show ?case
  proof (elim disjE conjE exE)
    fix u assume "q \<noteq> 0" "idle r'" "reader_bytes r' = Inr u" "Q q h1 (u @ drop (k + m) stream)"
    then show ?thesis
      using rdm gr log m s(3)
      by (intro exI [of _ q] exI [of _ r'] exI [of _ h1] exI [of _ w1] exI [of _ "k + m"] exI [of _ u]) (simp add: read_loop.simps [of os mal fn c])
  next
    assume a: "q = 0" "drop (k + m) stream \<noteq> []" "will_get mal fn r' h1 (drop (k + m) stream) Q"
    have "length stream - (k + m) < length stream - k" "k + m < length stream" using a(2) m k by auto
    from less.hyps [OF this(1) _ _ _ a(3) this(2) log(1), of "c\<lparr>c_reader := Some r'\<rparr>"] e fd obtain q2 rd2 h2 w2 k2 u2 where
      "read_loop os mal fn (c\<lparr>c_reader := Some r'\<rparr>) h1 w1 = Some (Inr (REDIS_OK, q2, c\<lparr>c_reader := Some rd2\<rparr>, h2, w2))" "q2 \<noteq> 0" "idle rd2"
      "reader_bytes rd2 = Inr u2" "Q q2 h2 (u2 @ drop k2 stream)" "k + m \<le> k2" "k2 \<le> length stream" "bytes_in fd (w_calls w2) = take k2 stream"
      "rd_len rd2 + length (drop k2 stream) \<le> rd_len r' + length (drop (k + m) stream)" "bytes_out fd (w_calls w2) = bytes_out fd (w_calls w1)"
      by auto
    then show ?thesis
      using rdm gr a(1) log m s(3)
      by (intro exI [of _ q2] exI [of _ rd2] exI [of _ h2] exI [of _ w2] exI [of _ k2] exI [of _ u2]) (simp add: read_loop.simps [of os mal fn c])
  qed
qed

subsection \<open>Replies in order\<close>

definition outgoing :: "redisContext \<Rightarrow> char list" where
  \<comment> \<open>what waits in the output buffer\<close>
  "outgoing c = (case c_obuf c of None \<Rightarrow> [] | Some s \<Rightarrow> sdsval s)"

definition obuf_ok :: "redisContext \<Rightarrow> bool" where
  "obuf_ok c \<longleftrightarrow> (\<exists>s. c_obuf c = Some s \<and> sds_wf s \<and> sdslen s < 2 ^ 31)"

definition conn_ready :: "int \<Rightarrow> char list \<Rightarrow> reply list \<Rightarrow> redisContext \<Rightarrow> reply_heap \<Rightarrow> world \<Rightarrow> bool" where
  \<comment> \<open>a blocking connection that is not in the middle of a reply; the part of the stream that was
     not read yet, after what the reader still holds, is the encoding of \<open>ts\<close>\<close>
  "conn_ready fd stream ts c h w \<longleftrightarrow> c_err c = 0 \<and> c_fd c = fd \<and> flag_set c REDIS_BLOCK \<and> obuf_ok c \<and> 0 < rh_next h \<and>
     (\<exists>rd u k. c_reader c = Some rd \<and> idle rd \<and> reader_bytes rd = Inr u \<and> k \<le> length stream \<and> bytes_in fd (w_calls w) = take k stream \<and>
        u @ drop k stream = concat (map encode ts) \<and> rd_len rd + length (drop k stream) < 2 ^ 31)"

definition flushed :: "int \<Rightarrow> redisContext \<Rightarrow> world \<Rightarrow> redisContext \<Rightarrow> world \<Rightarrow> bool" where
  \<comment> \<open>the whole output buffer went to the socket\<close>
  "flushed fd c w c' w' \<longleftrightarrow> bytes_out fd (w_calls w') = bytes_out fd (w_calls w) @ outgoing c \<and> outgoing c' = []"

definition untouched :: "int \<Rightarrow> redisContext \<Rightarrow> world \<Rightarrow> redisContext \<Rightarrow> world \<Rightarrow> bool" where
  "untouched fd c w c' w' \<longleftrightarrow> bytes_out fd (w_calls w') = bytes_out fd (w_calls w) \<and> outgoing c' = outgoing c"

lemma GetReply_nothing:
  assumes i: "idle rd" and e: "reader_bytes rd = Inr []"
  shows "\<exists>rd'. redisReaderGetReply fn rd h = Inr (REDIS_OK, 0, rd', h)"
proof (cases "rd_len rd = 0")
  case True
  then show ?thesis using i by (simp add: redisReaderGetReply_def idle_def)
next
  case False
  let ?r = "start_task rd"
  have r: "rd_err rd = 0" "rd_ridx ?r = 0" "tk_type (cur_task ?r) = -1" "rd_len ?r = rd_len rd" "rd_pos ?r = rd_pos rd" "rd_buf ?r = rd_buf rd"
    "rd_err ?r = 0"
    using i by (auto simp: idle_def start_task_def cur_task_def)
  have "rd_pos rd = rd_len rd" using reader_bytes_length [OF e] by simp
  then have "sub64 (rd_len rd) (rd_pos rd) = 0" by (simp add: sub64_def)
  then have "processItem fn ?r h = Inr (REDIS_ERR, ?r, h)" using r by (simp add: processItem_def readBytes_def)
  then have p: "process_items fn ?r h = Inr (?r, h)" using r(2) by (simp add: process_items.simps [of fn ?r])
  have b: "buffer_ok ?r" "reader_bytes ?r = Inr []"
    using i e r reader_bytes_cong [of ?r rd] by (auto simp: idle_def buffer_ok_def)
  from discard_consumed_bytes [OF b] obtain r' where "discard_consumed ?r = Inr r'" "rd_ridx r' = 0" using r(2) by auto
  then show ?thesis using False r p by (auto simp: redisReaderGetReply_def)
qed

lemma getReply_delivers:
  assumes g: "grants_all mal" and a: "accepts os fd" and sv: "serves os fd stream"
    and c: "conn_ready fd stream (t # ts) c h w" and t: "sendable t" "depth t \<le> 8"
  shows "\<exists>p c' h' w'. redisGetReply os mal (defaultFunctions mal) c h w = Some (Inr (REDIS_OK, p, c', h', w')) \<and> p \<noteq> 0 \<and>
    conn_ready fd stream ts c' h' w' \<and> reply_at t (new_nodes h h') p \<and> rh_next h < rh_next h' \<and>
    (\<forall>q<rh_next h. rh_node h' q = rh_node h q) \<and>
    (flushed fd c w c' w' \<or> untouched fd c w c' w' \<and> (\<exists>rd. c_reader c = Some rd \<and> reader_bytes rd \<noteq> Inr []))"
proof -
  let ?fn = "defaultFunctions mal"
  from c obtain rd u k s where b: "c_err c = 0" "c_fd c = fd" "flag_set c REDIS_BLOCK" "0 < rh_next h"
    and rd: "c_reader c = Some rd" "idle rd" "reader_bytes rd = Inr u" and k: "k \<le> length stream" "bytes_in fd (w_calls w) = take k stream"
    "u @ drop k stream = encode t @ concat (map encode ts)" "rd_len rd + length (drop k stream) < 2 ^ 31"
    and s: "c_obuf c = Some s" "sds_wf s" "sdslen s < 2 ^ 31" by (auto simp: conn_ready_def obuf_ok_def)
  define Q where "Q = (\<lambda>p h' u. reply_at t (new_nodes h h') p \<and> rh_next h < rh_next h' \<and>
    (\<forall>q<rh_next h. rh_node h' q = rh_node h q) \<and> u = concat (map encode ts))"
  have wg: "will_get mal ?fn rd h (drop k stream) Q" unfolding Q_def by (rule will_get_encoded [OF g t rd(2,3) k(3) b(4) k(4)])
  from getReplyFromReader_step [OF g rd(1) wg] obtain q rd1 h1 where
    q: "redisGetReplyFromReader ?fn c h = Inr (REDIS_OK, q, c\<lparr>c_reader := Some rd1\<rparr>, h1)" "rd_len rd1 \<le> rd_len rd"
    "(q \<noteq> 0 \<and> idle rd1 \<and> (\<exists>u. reader_bytes rd1 = Inr u \<and> Q q h1 (u @ drop k stream))) \<or>
     (q = 0 \<and> drop k stream \<noteq> [] \<and> will_get mal ?fn rd1 h1 (drop k stream) Q)" by blast
  from q(3) show ?thesis
  proof (elim disjE conjE exE)
    fix v assume v: "q \<noteq> 0" "idle rd1" "reader_bytes rd1 = Inr v" "Q q h1 (v @ drop k stream)"
    have "redisGetReply os mal ?fn c h w = Some (Inr (REDIS_OK, q, c\<lparr>c_reader := Some rd1\<rparr>, h1, w))"
      using q(1) v(1) by (simp add: redisGetReply_def)
    moreover have "conn_ready fd stream ts (c\<lparr>c_reader := Some rd1\<rparr>) h1 w"
      using b v k s q(2) by (auto simp: conn_ready_def obuf_ok_def Q_def flag_set_def)
    moreover have "reader_bytes rd \<noteq> Inr []"
    proof
      assume e: "reader_bytes rd = Inr []"
      from GetReply_nothing [OF rd(2) e, of ?fn h] q(1) rd(1) v(1) show False by (auto simp: redisGetReplyFromReader_def)
    qed
    ultimately show ?thesis using v rd by (auto simp: Q_def untouched_def outgoing_def)
  next
    assume n: "q = 0" "drop k stream \<noteq> []" "will_get mal ?fn rd1 h1 (drop k stream) Q"
    let ?c1 = "c\<lparr>c_reader := Some rd1\<rparr>"
    have a1: "accepts os (c_fd ?c1)" using a b by simp
    from write_loop_sends [OF g a1 _ _ s(2,3), of w] b s obtain s' w1 where
      w1: "write_loop os mal ?c1 w = Some (Inr (REDIS_OK, ?c1\<lparr>c_obuf := Some s'\<rparr>, w1))" "sds_wf s'" "sdslen s' = 0"
      "bytes_out fd (w_calls w1) = bytes_out fd (w_calls w) @ sdsval s" "bytes_in fd (w_calls w1) = take k stream" using k by auto
    have kk: "k < length stream" using n(2) by simp
    let ?c2 = "?c1\<lparr>c_obuf := Some s'\<rparr>"
    from read_loop_delivers [OF g sv _ _ _ n(3) kk w1(5), of ?c2] b obtain p rd2 h2 w2 k2 u2 where
      r: "read_loop os mal ?fn ?c2 h1 w1 = Some (Inr (REDIS_OK, p, ?c2\<lparr>c_reader := Some rd2\<rparr>, h2, w2))" "p \<noteq> 0" "idle rd2"
      "reader_bytes rd2 = Inr u2" "Q p h2 (u2 @ drop k2 stream)" "k2 \<le> length stream" "bytes_in fd (w_calls w2) = take k2 stream"
      "rd_len rd2 + length (drop k2 stream) \<le> rd_len rd1 + length (drop k stream)" "bytes_out fd (w_calls w2) = bytes_out fd (w_calls w1)"
      by auto
    have get: "redisGetReply os mal ?fn c h w = Some (Inr (REDIS_OK, p, ?c2\<lparr>c_reader := Some rd2\<rparr>, h2, w2))"
      using q(1) n(1) b w1(1) r(1) by (simp add: redisGetReply_def flag_set_def)
    have "conn_ready fd stream ts (?c2\<lparr>c_reader := Some rd2\<rparr>) h2 w2"
      using b r k w1 q(2) by (auto simp: conn_ready_def obuf_ok_def Q_def flag_set_def)
    moreover have "flushed fd c w (?c2\<lparr>c_reader := Some rd2\<rparr>) w2"
      using w1 r(9) s length_sdsval [OF w1(2)] by (simp add: flushed_def outgoing_def)
    ultimately show ?thesis using get r(2,5) by (auto simp: Q_def)
  qed
qed

fun getReplies ::
  "os \<Rightarrow> allocator \<Rightarrow> 'h redisReplyObjectFunctions \<Rightarrow> nat \<Rightarrow> redisContext \<Rightarrow> 'h \<Rightarrow> world \<Rightarrow>
     (nat list \<times> redisContext \<times> 'h \<times> world) res option" where
  \<comment> \<open>\<open>n\<close> successful calls of \<open>redisGetReply\<close>\<close>
  "getReplies os mal fn 0 c h w = Some (Inr ([], c, h, w))"
| "getReplies os mal fn (Suc n) c h w =
     (case redisGetReply os mal fn c h w of
        Some (Inr (st, p, c, h, w)) \<Rightarrow>
          if st \<noteq> REDIS_OK then Some (Inl AssertFailed)
          else (case getReplies os mal fn n c h w of
                  Some (Inr (ps, r)) \<Rightarrow> Some (Inr (p # ps, r))
                | Some (Inl e) \<Rightarrow> Some (Inl e)
                | None \<Rightarrow> None)
      | Some (Inl e) \<Rightarrow> Some (Inl e)
      | None \<Rightarrow> None)"

fun append_commands :: "allocator \<Rightarrow> redisContext \<Rightarrow> char list list list \<Rightarrow> (int \<times> redisContext) res" where
  \<comment> \<open>\<open>redisAppendCommandArgv\<close> of each command\<close>
  "append_commands mal c [] = Inr (REDIS_OK, c)"
| "append_commands mal c (xs # cmds) =
     bindE (redisAppendCommandArgv mal c (int (length xs)) xs (Some (map length xs))) (\<lambda>(st, c).
     if st \<noteq> REDIS_OK then Inr (st, c) else append_commands mal c cmds)"

lemma sdsval_prefix: "sds_wf s \<Longrightarrow> take (sdslen s) (hbuf s) = sdsval s \<and> sdslen s \<le> length (hbuf s)"
  using length_sdsval [of s] by (auto simp: sdsval_def sdslen_def)

lemma append_command_ok:
  assumes g: "grants_all mal" and o: "obuf_ok c" and b: "length (outgoing c) + length (command_bytes xs) < 2 ^ 31 - 1"
  shows "\<exists>s. redisAppendCommandArgv mal c (int (length xs)) xs (Some (map length xs)) = Inr (REDIS_OK, c\<lparr>c_obuf := Some s\<rparr>) \<and>
    obuf_ok (c\<lparr>c_obuf := Some s\<rparr>) \<and> outgoing (c\<lparr>c_obuf := Some s\<rparr>) = outgoing c @ command_bytes xs"
proof -
  let ?a = "map (\<lambda>x. (x, length x)) xs"
  have "arg_values ?a = xs" "length ?a = length xs" "lens_fit ?a" by (auto simp: comp_def)
  moreover have "length (command_bytes xs) < 2 ^ 31 - 1" using b by simp
  ultimately have "\<exists>f. redisFormatSdsCommandArgv mal True (int (length xs)) xs (Some (map length xs)) = Inr (int (length (command_bytes xs)), Some f) \<and>
      sds_wf f \<and> sdsval f = command_bytes xs"
    using redisFormatSdsCommandArgv_ok [OF g argv_args_lens [of xs]] by (simp only:)
  then obtain f where
    f: "redisFormatSdsCommandArgv mal True (int (length xs)) xs (Some (map length xs)) = Inr (int (length (command_bytes xs)), Some f)"
    "sds_wf f" "sdsval f = command_bytes xs" by auto
  from o obtain s where s: "c_obuf c = Some s" "sds_wf s" "outgoing c = sdsval s" by (auto simp: obuf_ok_def outgoing_def)
  have lf: "length (command_bytes xs) = sdslen f" using f(2,3) length_sdsval by metis
  have "sdslen s + sdslen f < 2 ^ 62" "sdslen f \<le> length (hbuf f)" using b s length_sdsval [OF s(2)] lf sdsval_prefix [OF f(2)] by auto
  from res_ok_total [OF sdscatlen_ok [OF s(2) this(2,1)] g] obtain s' where
    s': "sdscatlen mal s (hbuf f) (sdslen f) = Inr s'" "sds_wf s'" "sdsval s' = sdsval s @ sdsval f"
    using sdsval_prefix [OF f(2)] by auto
  have "sdslen s' = sdslen s + sdslen f" using s'(3) length_sdsval [OF s'(2)] length_sdsval [OF s(2)] length_sdsval [OF f(2)] by simp
  then have "sdslen s' < 2 ^ 31" using b s length_sdsval [OF s(2)] lf by simp
  moreover have "nat (int (length (command_bytes xs)) mod 2 ^ 64) = sdslen f" using b lf by simp
  ultimately show ?thesis
    using f s s' by (intro exI [of _ s'])
      (simp add: redisAppendCommandArgv_def append_formatted_def append_command_def obuf_ok_def outgoing_def)
qed

lemma append_commands_ok:
  assumes g: "grants_all mal"
  shows "obuf_ok c \<Longrightarrow> length (outgoing c) + length (concat (map command_bytes cmds)) < 2 ^ 31 - 1 \<Longrightarrow>
    \<exists>s. append_commands mal c cmds = Inr (REDIS_OK, c\<lparr>c_obuf := Some s\<rparr>) \<and> obuf_ok (c\<lparr>c_obuf := Some s\<rparr>) \<and>
      outgoing (c\<lparr>c_obuf := Some s\<rparr>) = outgoing c @ concat (map command_bytes cmds)"
proof (induction cmds arbitrary: c)
  case Nil
  then obtain s where "c_obuf c = Some s" by (auto simp: obuf_ok_def)
  then have "c\<lparr>c_obuf := Some s\<rparr> = c" by simp
  with Nil show ?case by (intro exI [of _ s]) simp
next
  case (Cons xs cmds)
  have "length (outgoing c) + length (command_bytes xs) < 2 ^ 31 - 1" using Cons.prems(2) by simp
  from append_command_ok [OF g Cons.prems(1) this] obtain s1 where
    s1: "redisAppendCommandArgv mal c (int (length xs)) xs (Some (map length xs)) = Inr (REDIS_OK, c\<lparr>c_obuf := Some s1\<rparr>)"
    "obuf_ok (c\<lparr>c_obuf := Some s1\<rparr>)" "outgoing (c\<lparr>c_obuf := Some s1\<rparr>) = outgoing c @ command_bytes xs" by blast
  have "length (outgoing (c\<lparr>c_obuf := Some s1\<rparr>)) + length (concat (map command_bytes cmds)) < 2 ^ 31 - 1"
    using Cons.prems(2) s1(3) by simp
  from Cons.IH [OF s1(2) this] s1 show ?case by auto
qed

lemma getReplies_delivers:
  assumes g: "grants_all mal" and a: "accepts os fd" and sv: "serves os fd stream"
  shows "list_all (\<lambda>t. sendable t \<and> depth t \<le> 8) ts \<Longrightarrow> conn_ready fd stream ts c h w \<Longrightarrow>
    \<exists>ps c' h' w'. getReplies os mal (defaultFunctions mal) (length ts) c h w = Some (Inr (ps, c', h', w')) \<and>
      list_all2 (\<lambda>t p. reply_at t (rh_node h') p) ts ps \<and> conn_ready fd stream [] c' h' w' \<and> rh_next h \<le> rh_next h' \<and>
      (\<forall>q<rh_next h. rh_node h' q = rh_node h q) \<and>
      (flushed fd c w c' w' \<or> untouched fd c w c' w' \<and> (ts = [] \<or> (\<exists>rd. c_reader c = Some rd \<and> reader_bytes rd \<noteq> Inr [])))"
proof (induction ts arbitrary: c h w)
  case Nil
  then show ?case by (simp add: untouched_def)
next
  case (Cons t ts)
  from getReply_delivers [OF g a sv Cons.prems(2)] Cons.prems(1) obtain p c1 h1 w1 where
    p: "redisGetReply os mal (defaultFunctions mal) c h w = Some (Inr (REDIS_OK, p, c1, h1, w1))"
    "conn_ready fd stream ts c1 h1 w1" "reply_at t (new_nodes h h1) p" "rh_next h < rh_next h1" "\<forall>q<rh_next h. rh_node h1 q = rh_node h q"
    "flushed fd c w c1 w1 \<or> untouched fd c w c1 w1 \<and> (\<exists>rd. c_reader c = Some rd \<and> reader_bytes rd \<noteq> Inr [])" by auto
  from Cons.IH [OF _ p(2)] Cons.prems(1) obtain ps c2 h2 w2 where
    ps: "getReplies os mal (defaultFunctions mal) (length ts) c1 h1 w1 = Some (Inr (ps, c2, h2, w2))"
    "list_all2 (\<lambda>t p. reply_at t (rh_node h2) p) ts ps" "conn_ready fd stream [] c2 h2 w2" "rh_next h1 \<le> rh_next h2"
    "\<forall>q<rh_next h1. rh_node h2 q = rh_node h1 q" "flushed fd c1 w1 c2 w2 \<or> untouched fd c1 w1 c2 w2" by auto
  have "new_nodes h h1 \<subseteq>\<^sub>m rh_node h2"
    using ps(5) by (auto simp: new_nodes_def map_le_def restrict_map_def split: if_splits)
  with p(3) have "reply_at t (rh_node h2) p" by (rule reply_at_mono)
  moreover have "flushed fd c w c2 w2 \<or> untouched fd c w c2 w2 \<and> (\<exists>rd. c_reader c = Some rd \<and> reader_bytes rd \<noteq> Inr [])"
    using p(6) ps(6) by (auto simp: flushed_def untouched_def)
  ultimately show ?case using p(1,4,5) ps by auto
qed

lemma redisContextInit_ok:
  assumes g: "grants_all mal"
  shows "\<exists>s rd. redisContextInit mal = Inr (Some ((blank_context 0)\<lparr>c_obuf := Some s, c_reader := Some rd\<rparr>)) \<and> sds_wf s \<and> sdsval s = [] \<and>
    idle rd \<and> reader_bytes rd = Inr [] \<and> rd_len rd = 0"
proof -
  from sdsempty_total [OF g] obtain s where s: "sdsempty mal = Inr s" "sds_wf s" "sdsval s = []" by blast
  from redisReaderCreate_total [OF g] obtain rd where rd: "redisReaderCreate mal = Inr rd" ..
  have "mal 208 \<noteq> None" using g by (simp add: grants_all_def)
  with s rd redisReaderCreate_idle [OF rd] show ?thesis
    by (intro exI [of _ s] exI [of _ rd]) (auto simp: redisContextInit_def)
qed

lemma redisConnectFd_ready:
  assumes g: "grants_all mal" and c: "redisConnectFd mal fd = Inr (Some c)" and l: "length (concat (map encode ts)) < 2 ^ 31"
    and w: "bytes_in fd (w_calls w) = []"
  shows "conn_ready fd (concat (map encode ts)) ts c empty_heap w" "outgoing c = []" "\<exists>rd. c_reader c = Some rd \<and> reader_bytes rd = Inr []"
proof -
  from redisContextInit_ok [OF g] obtain s rd where i: "redisContextInit mal = Inr (Some ((blank_context 0)\<lparr>c_obuf := Some s, c_reader := Some rd\<rparr>))"
    "sds_wf s" "sdsval s = []" "idle rd" "reader_bytes rd = Inr []" "rd_len rd = 0" by blast
  have c': "c = set_flag (REDIS_BLOCK OR REDIS_CONNECTED) ((blank_context 0)\<lparr>c_obuf := Some s, c_reader := Some rd, c_fd := fd\<rparr>)"
    using c i(1) by (simp add: redisConnectFd_def)
  have f: "flag_set c REDIS_BLOCK" by (simp add: c' flag_set_def set_flag_def blank_context_def)
  have sf: "c_err (set_flag m x) = c_err x" "c_fd (set_flag m x) = c_fd x" "c_obuf (set_flag m x) = c_obuf x" "c_reader (set_flag m x) = c_reader x"
    for m x by (simp_all add: set_flag_def)
  have "sdslen s = 0" using i(2,3) length_sdsval by fastforce
  then show "conn_ready fd (concat (map encode ts)) ts c empty_heap w" "outgoing c = []" "\<exists>rd. c_reader c = Some rd \<and> reader_bytes rd = Inr []"
    using i f w l by (auto simp: conn_ready_def obuf_ok_def outgoing_def c' sf blank_context_def empty_heap_def)
qed

end
