(* ===== verification/ConnSpec.thy ===== *)
theory ConnSpec
  imports Delivery
begin

section \<open>What a connection promises\<close>

text \<open>
  The properties of the blocking connection: commands and replies arrive in order, descriptors are
  closed once, a failed connection stays silent.
\<close>

subsection \<open>Descriptors\<close>

definition same_fds :: "redisContext \<Rightarrow> world \<Rightarrow> redisContext \<Rightarrow> world \<Rightarrow> bool" where
  \<comment> \<open>nothing was opened or closed\<close>
  "same_fds c w c' w' \<longleftrightarrow> c_fd c' = c_fd c \<and> open_fds (w_calls w') = open_fds (w_calls w) \<and> closes_open (w_calls w') = closes_open (w_calls w)"

lemma same_fds_refl [simp]: "same_fds c w c w"
  by (simp add: same_fds_def)

lemma same_fds_trans: "same_fds c w c' w' \<Longrightarrow> same_fds c' w' c'' w'' \<Longrightarrow> same_fds c w c'' w''"
  by (simp add: same_fds_def)

lemma same_fds_fields [simp]:
  "same_fds c w (c'\<lparr>c_obuf := x\<rparr>) w' = same_fds c w c' w'" "same_fds c w (c'\<lparr>c_reader := y\<rparr>) w' = same_fds c w c' w'"
  "same_fds c w (set_error c' t m) w' = same_fds c w c' w'" "same_fds c w (c'\<lparr>c_err := e, c_errstr := z\<rparr>) w' = same_fds c w c' w'"
  by (simp_all add: same_fds_def)

lemma sys_same_fds: "sys os call w = (r, w') \<Longrightarrow> quiet call \<Longrightarrow> same_fds c w c w'"
  using quiet_log [of call r "w_calls w"] sys_log [of os call w r w'] by (simp add: same_fds_def del: open_fds.simps closes_open.simps)

lemma io_failed_cases:
  assumes "io_failed os c w again failed = Inr x"
  shows "x = again c \<or> (\<exists>c'. x = failed c' \<and> c_fd c' = c_fd c)"
  using assms by (auto simp: io_failed_def bindE_Inr_iff redisSetError_def split: if_splits)

lemma same_fds_fd: "same_fds c w c1 w1 \<Longrightarrow> c_fd c2 = c_fd c1 \<Longrightarrow> same_fds c w c2 w1"
  by (simp add: same_fds_def)

lemma redisBufferRead_fds:
  assumes "redisBufferRead os mal fn c h w = Inr (st, c', h', w')"
  shows "same_fds c w c' w'"
proof (cases "c_err c = 0")
  case True
  obtain r w1 where y: "sys os (Sy_read (c_fd c) (1024 * 16)) w = (r, w1)" by fastforce
  from sys_same_fds [OF y, of c] have q: "same_fds c w c w1" by simp
  have "w' = w1 \<and> c_fd c' = c_fd c"
    using assms True y
    by (auto simp: redisBufferRead_def bindE_Inr_iff Let_def split: if_splits option.splits dest!: io_failed_cases)
  with same_fds_fd [OF q] show ?thesis by simp
qed (use assms in \<open>simp add: redisBufferRead_def\<close>)

lemma redisBufferWrite_fds:
  assumes "redisBufferWrite os mal c w = Inr (st, d, c', w')"
  shows "same_fds c w c' w'"
proof (cases "c_err c = 0")
  case True
  then obtain s where s: "c_obuf c = Some s" using assms by (auto simp: redisBufferWrite_def split: option.splits)
  show ?thesis
  proof (cases "sdslen s = 0")
    case False
    with assms True s obtain bytes where b: "peekn (hbuf s) 0 (sdslen s) = Inr bytes" by (auto simp: redisBufferWrite_def bindE_Inr_iff)
    obtain r w1 where y: "sys os (Sy_write (c_fd c) bytes) w = (r, w1)" by fastforce
    from sys_same_fds [OF y, of c] have q: "same_fds c w c w1" by simp
    have "w' = w1 \<and> c_fd c' = c_fd c"
      using assms True s False b y
      by (auto simp: redisBufferWrite_def bindE_Inr_iff Let_def split: if_splits option.splits dest!: io_failed_cases)
    with same_fds_fd [OF q] show ?thesis by simp
  qed (use assms True s in \<open>simp add: redisBufferWrite_def\<close>)
qed (use assms in \<open>simp add: redisBufferWrite_def\<close>)

lemma write_loop_fds:
  assumes "write_loop os mal c w = Some x"
  shows "case x of Inr (st, c', w') \<Rightarrow> same_fds c w c' w' | Inl _ \<Rightarrow> True"
proof (rule write_loop.raw_induct [OF _ assms])
  fix loop os mal c w x
  assume IH: "\<And>os mal c w x. loop os mal c w = Some x \<Longrightarrow> case x of Inr (st, c', w') \<Rightarrow> same_fds c w c' w' | Inl _ \<Rightarrow> True"
    and run: "(case redisBufferWrite os mal c w of Inl e \<Rightarrow> Some (Inl e)
      | Inr (st, done, c, w) \<Rightarrow> if st = REDIS_ERR then Some (Inr (REDIS_ERR, c, w))
          else if done then Some (Inr (REDIS_OK, c, w)) else loop os mal c w) = Some x"
  show "case x of Inr (st, c', w') \<Rightarrow> same_fds c w c' w' | Inl _ \<Rightarrow> True"
  proof (cases "redisBufferWrite os mal c w")
    case (Inl e)
    then show ?thesis using run [symmetric] by simp
  next
    case (Inr y)
    obtain st1 d c1 w1 where y: "y = (st1, d, c1, w1)" by (cases y)
    note f = redisBufferWrite_fds [OF Inr [unfolded y]]
    show ?thesis
    proof (cases "st1 = REDIS_ERR \<or> d")
      case True
      then show ?thesis using run [symmetric] f Inr y by (auto split: if_splits)
    next
      case False
      then have "loop os mal c1 w1 = Some x" using run Inr y by simp
      from IH [OF this] f show ?thesis by (auto split: sum.splits intro: same_fds_trans)
    qed
  qed
qed

lemma getReplyFromReader_fd: "redisGetReplyFromReader fn c h = Inr (st, p, c', h') \<Longrightarrow> c_fd c' = c_fd c"
  by (auto simp: redisGetReplyFromReader_def bindE_Inr_iff Let_def split: option.splits if_splits)

lemma read_loop_fds:
  fixes h :: 'h
  assumes "read_loop os mal fn c h w = Some x"
  shows "case x of Inr (st, p, c', h', w') \<Rightarrow> same_fds c w c' w' | Inl _ \<Rightarrow> True"
proof (rule read_loop.raw_induct [OF _ assms])
  fix loop os mal fn c w x and h :: 'h
  assume IH: "\<And>os mal fn c h w x. loop os mal fn c h w = Some x \<Longrightarrow>
      case x of Inr (st, p, c', h', w') \<Rightarrow> same_fds c w c' w' | Inl _ \<Rightarrow> True"
    and run: "(case redisBufferRead os mal fn c h w of Inl e \<Rightarrow> Some (Inl e)
      | Inr (st, c, h, w) \<Rightarrow> if st = REDIS_ERR then Some (Inr (REDIS_ERR, 0, c, h, w))
          else case redisGetReplyFromReader fn c h of Inl e \<Rightarrow> Some (Inl e)
          | Inr (st, aux, c, h) \<Rightarrow>
              if st = REDIS_ERR then Some (Inr (REDIS_ERR, 0, c, h, w))
              else if aux \<noteq> 0 then Some (Inr (REDIS_OK, aux, c, h, w)) else loop os mal fn c h w) = Some x"
  show "case x of Inr (st, p, c', h', w') \<Rightarrow> same_fds c w c' w' | Inl _ \<Rightarrow> True"
  proof (cases "redisBufferRead os mal fn c h w")
    case (Inl e)
    then show ?thesis using run [symmetric] by simp
  next
    case (Inr y)
    obtain st1 c1 h1 w1 where y: "y = (st1, c1, h1, w1)" by (cases y)
    note f = redisBufferRead_fds [OF Inr [unfolded y]]
    show ?thesis
    proof (cases "st1 = REDIS_ERR")
      case True
      then show ?thesis using run f Inr y by auto
    next
      case ok: False
      show ?thesis
      proof (cases "redisGetReplyFromReader fn c1 h1")
        case (Inl e)
        then show ?thesis using run Inr y ok \<open>redisBufferRead os mal fn c h w = Inr y\<close> by auto
      next
        case (Inr z)
        obtain st2 q c2 h2 where z: "z = (st2, q, c2, h2)" by (cases z)
        have f2: "same_fds c w c2 w1" using same_fds_fd [OF f getReplyFromReader_fd [OF Inr [unfolded z]]] .
        show ?thesis
        proof (cases "st2 = REDIS_ERR \<or> q \<noteq> 0")
          case True
          then show ?thesis using run f2 Inr z y ok \<open>redisBufferRead os mal fn c h w = Inr y\<close> by (auto split: if_splits)
        next
          case False
          then have "loop os mal fn c2 h2 w1 = Some x"
            using run Inr z y ok \<open>redisBufferRead os mal fn c h w = Inr y\<close> by simp
          from IH [OF this] f2 show ?thesis by (auto split: sum.splits intro: same_fds_trans)
        qed
      qed
    qed
  qed
qed

lemma redisGetReply_fds:
  assumes "redisGetReply os mal fn c h w = Some (Inr (st, p, c', h', w'))"
  shows "same_fds c w c' w'"
proof -
  obtain st1 q c1 h1 where r: "redisGetReplyFromReader fn c h = Inr (st1, q, c1, h1)"
    using assms by (auto simp: redisGetReply_def split: sum.splits)
  have f: "same_fds c w c1 w" using getReplyFromReader_fd [OF r] by (simp add: same_fds_def)
  show ?thesis
  proof (cases "st1 = REDIS_ERR \<or> \<not> (q = 0 \<and> flag_set c1 REDIS_BLOCK)")
    case True
    have "same_fds c w c' w' \<longleftrightarrow> same_fds c w c1 w"
      using True assms r by (cases "st1 = REDIS_ERR") (auto simp: redisGetReply_def)
    with f show ?thesis by simp
  next
    case False
    with assms r obtain st2 c2 w2 where l: "write_loop os mal c1 w = Some (Inr (st2, c2, w2))"
      by (auto simp: redisGetReply_def split: option.splits sum.splits)
    from same_fds_trans [OF f write_loop_fds [OF l, simplified]] have f2: "same_fds c w c2 w2" .
    show ?thesis
    proof (cases "st2 = REDIS_ERR")
      case True
      then show ?thesis using False assms r l f2 by (auto simp: redisGetReply_def)
    next
      case ok: False
      with False assms r l have "read_loop os mal fn c2 h1 w2 = Some (Inr (st, p, c', h', w'))" by (simp add: redisGetReply_def)
      from same_fds_trans [OF f2 read_loop_fds [OF this, simplified]] show ?thesis .
    qed
  qed
qed

lemma redisFree_fds:
  assumes "no_leak base c w" and "redisFree os fn (Some c) h w = Inr (h', w')"
  shows "closes_open (w_calls w') \<and> (open_fds (w_calls w') = base \<or> c_fd c = 0 \<and> open_fds (w_calls w') = insert 0 base)"
proof (cases "c_fd c > 0")
  case True
  then have "holds_fd base c w" using assms(1) by (auto simp: no_leak_def no_fd_def)
  then have "closes_open (w_calls (snd (sys os (Sy_close (c_fd c)) w))) \<and> open_fds (w_calls (snd (sys os (Sy_close (c_fd c)) w))) = base"
    by (auto simp: sys_def Let_def holds_fd_def)
  then show ?thesis using assms(2) True by (auto simp: redisFree_def Let_def bindE_Inr_iff)
next
  case False
  then have "w' = w" using assms(2) by (auto simp: redisFree_def Let_def bindE_Inr_iff)
  from assms(1) show ?thesis unfolding no_leak_def
  proof
    assume "holds_fd base c w"
    moreover from this False have "c_fd c = 0" by (simp add: holds_fd_def)
    ultimately show ?thesis using \<open>w' = w\<close> by (simp add: holds_fd_def)
  next
    assume "no_fd base c w"
    then show ?thesis using \<open>w' = w\<close> by (simp add: no_fd_def)
  qed
qed

lemma redisConnectWithTimeout_fds:
  assumes os: "fresh_sockets os" and "closes_open (w_calls w)" and c: "redisConnectWithTimeout os mal ip port tv w = Inr (Some c, w1)"
  shows "no_leak (open_fds (w_calls w)) c w1 \<and> (c_err c = 0 \<longrightarrow> flag_set c REDIS_CONNECTED)"
proof -
  from c obtain c0 st where i: "redisContextInit mal = Inr (Some c0)"
    and t: "redisContextConnectTcp os mal (set_flag REDIS_BLOCK c0) (Given ip) port (Given tv) w = Inr (st, c, w1)"
    by (auto simp: redisConnectWithTimeout_def connect_with_def bindE_Inr_iff split: option.splits)
  from i have c0: "c_fd c0 = 0" "c_err c0 = 0" "c_flags c0 = 0"
    by (auto simp: redisContextInit_def blank_context_def bindE_Inr_iff split: option.splits if_splits)
  have n: "no_fd (open_fds (w_calls w)) (set_flag REDIS_BLOCK c0) w" using assms(2) c0 by (simp add: no_fd_def)
  have "\<not> flag_set (set_flag REDIS_BLOCK c0) REDIS_REUSEADDR" using c0 by (simp add: flag_set_def set_flag_def)
  moreover have "c_flags c = c_flags (set_flag REDIS_BLOCK c0) OR REDIS_CONNECTED \<Longrightarrow> flag_set c REDIS_CONNECTED"
    using c0 by (simp add: flag_set_def set_flag_def)
  ultimately show ?thesis
    using connect_tcp_ok [OF os n t [unfolded redisContextConnectTcp_def]] by (auto simp: connect_ok_def no_leak_def)
qed

subsection \<open>Properties\<close>

text \<open>
  C31. Pipelining: commands that are appended to a fresh blocking connection all go out, in the order
  they were appended and unchanged, before the first reply is awaited, and the calls of
  \<open>redisGetReply\<close> end and return the replies of the server, one each and in order, whatever the
  pieces in which the system takes the commands and delivers the replies.
\<close>

theorem pipeline_round_trip:
  assumes "grants_all mal" and "accepts os fd" and "serves os fd (concat (map encode ts))"
    and "list_all (\<lambda>t. sendable t \<and> depth t \<le> 8) ts" and "length (concat (map encode ts)) < 2 ^ 31"
    and "length (concat (map command_bytes cmds)) < 2 ^ 31 - 1" and "redisConnectFd mal fd = Inr (Some c)"
  shows "\<exists>c1 ps c2 h w. append_commands mal c cmds = Inr (REDIS_OK, c1) \<and>
    getReplies os mal (defaultFunctions mal) (length ts) c1 empty_heap fresh_world = Some (Inr (ps, c2, h, w)) \<and>
    list_all2 (\<lambda>t p. reply_at t (rh_node h) p) ts ps \<and>
    (ts \<noteq> [] \<longrightarrow> bytes_out fd (w_calls w) = concat (map command_bytes cmds) \<and> outgoing c2 = [])"
proof -
  have "bytes_in fd (w_calls fresh_world) = []" by (simp add: fresh_world_def)
  from redisConnectFd_ready [OF assms(1,7,5) this] have c: "conn_ready fd (concat (map encode ts)) ts c empty_heap fresh_world"
    "outgoing c = []" "\<exists>rd. c_reader c = Some rd \<and> reader_bytes rd = Inr []" by blast+
  then have o: "obuf_ok c" by (simp add: conn_ready_def)
  have "length (outgoing c) + length (concat (map command_bytes cmds)) < 2 ^ 31 - 1" using c(2) assms(6) by simp
  from append_commands_ok [OF assms(1) o this] c(2) obtain s where
    s: "append_commands mal c cmds = Inr (REDIS_OK, c\<lparr>c_obuf := Some s\<rparr>)" "obuf_ok (c\<lparr>c_obuf := Some s\<rparr>)"
    "outgoing (c\<lparr>c_obuf := Some s\<rparr>) = concat (map command_bytes cmds)" by auto
  have "conn_ready fd (concat (map encode ts)) ts (c\<lparr>c_obuf := Some s\<rparr>) empty_heap fresh_world"
    using c(1) s(2) by (simp add: conn_ready_def flag_set_def)
  from getReplies_delivers [OF assms(1-4) this] c(3) s show ?thesis
    by (fastforce simp: flushed_def fresh_world_def)
qed

definition serving_os :: "char list \<Rightarrow> os" where
  \<comment> \<open>takes and delivers one byte at a time\<close>
  "serving_os stream =
     \<lparr>os_call = (\<lambda>l call. case call of
          Sy_read fd n \<Rightarrow> (let k = length (bytes_in fd l) in
            if k < length stream \<and> 0 < n then (answer 1 0)\<lparr>sr_bytes := [stream ! k]\<rparr> else answer 0 0)
        | Sy_write _ s \<Rightarrow> answer (if s = [] then 0 else 1) 0
        | _ \<Rightarrow> answer 0 0),
      os_strerror = (\<lambda>_. ''error''), os_gai_strerror = (\<lambda>_. ''unknown'')\<rparr>"

lemma serving_os_serves: "serves (serving_os stream) fd stream"
  unfolding serves_def
proof (intro allI impI)
  fix l n k
  assume b: "bytes_in fd l = take k stream" and k: "k < length stream" and n: "0 < (n::nat)"
  then have "length (bytes_in fd l) = k" by simp
  with k n show "\<exists>m. 0 < m \<and> m \<le> n \<and> k + m \<le> length stream \<and> sr_ret (os_call (serving_os stream) l (Sy_read fd n)) = int m \<and>
        sr_bytes (os_call (serving_os stream) l (Sy_read fd n)) = take m (drop k stream)"
    by (intro exI [of _ 1]) (simp add: serving_os_def answer_def take_Suc_conv_app_nth hd_drop_conv_nth take_Suc)
qed

lemma serving_os_accepts: "accepts (serving_os stream) fd"
  by (auto simp: accepts_def serving_os_def answer_def Suc_le_eq)

lemma redisConnectFd_total: "grants_all mal \<Longrightarrow> \<exists>c. redisConnectFd mal fd = Inr (Some c)"
  using redisContextInit_ok [of mal] by (auto simp: redisConnectFd_def)

theorem pipeline_round_trip_witness:
  "\<exists>c c1 p q c2 h w. redisConnectFd zero_alloc 3 = Inr (Some c) \<and>
    append_commands zero_alloc c [[''SET'', ''k'', ''v''], [''GET'', ''k'']] = Inr (REDIS_OK, c1) \<and>
    getReplies (serving_os (concat (map encode [RStatus ''OK'', RString ''v'']))) zero_alloc (defaultFunctions zero_alloc)
      (length [RStatus ''OK'', RString ''v'']) c1 empty_heap fresh_world = Some (Inr ([p, q], c2, h, w)) \<and>
    reply_at (RStatus ''OK'') (rh_node h) p \<and> reply_at (RString ''v'') (rh_node h) q \<and>
    bytes_out 3 (w_calls w) = command_bytes [''SET'', ''k'', ''v''] @ command_bytes [''GET'', ''k'']"
proof -
  let ?ts = "[RStatus ''OK'', RString ''v'']" and ?cs = "[[''SET'', ''k'', ''v''], [''GET'', ''k'']]"
  from redisConnectFd_total [OF grants_all_zero_alloc, of 3] obtain c where c: "redisConnectFd zero_alloc 3 = Inr (Some c)" ..
  have "list_all (\<lambda>t. sendable t \<and> depth t \<le> 8) ?ts" by (simp add: no_crlf_def)
  moreover have "length (concat (map encode ?ts)) < 2 ^ 31" by (simp add: length_decimal)
  moreover have "length (concat (map command_bytes ?cs)) < 2 ^ 31 - 1" by (simp add: command_bytes_def length_bulk_bytes length_decimal)
  ultimately show ?thesis
    using pipeline_round_trip [OF grants_all_zero_alloc serving_os_accepts serving_os_serves _ _ _ c, of ?ts ?cs] c
    by (auto simp: list_all2_Cons1 simp del: reply_at.simps encode.simps)
qed

text \<open>
  C32. \<open>redisCommandArgv\<close> on a blocking connection that is not in the middle of a reply returns the reply
  to its command: it ends, what waited in the output buffer and then the command have gone out, and the
  next reply of the server is returned.
\<close>

theorem command_gets_reply:
  assumes "grants_all mal" and "accepts os fd" and "serves os fd stream" and "conn_ready fd stream (t # ts) c h w"
    and "c_reader c = Some rd" and "reader_bytes rd = Inr []"
    and "sendable t" and "depth t \<le> 8" and "length (outgoing c) + length (command_bytes xs) < 2 ^ 31 - 1"
  shows "\<exists>p c' h' w'. redisCommandArgv os mal (defaultFunctions mal) c (int (length xs)) xs (Some (map length xs)) h w =
      Some (Inr (p, c', h', w')) \<and> reply_at t (rh_node h') p \<and> (\<forall>q<rh_next h. rh_node h' q = rh_node h q) \<and>
    bytes_out fd (w_calls w') = bytes_out fd (w_calls w) @ outgoing c @ command_bytes xs \<and> conn_ready fd stream ts c' h' w'"
proof -
  have o: "obuf_ok c" using assms(4) by (simp add: conn_ready_def)
  from append_command_ok [OF assms(1) o assms(9)] obtain s where
    s: "redisAppendCommandArgv mal c (int (length xs)) xs (Some (map length xs)) = Inr (REDIS_OK, c\<lparr>c_obuf := Some s\<rparr>)"
    "obuf_ok (c\<lparr>c_obuf := Some s\<rparr>)" "outgoing (c\<lparr>c_obuf := Some s\<rparr>) = outgoing c @ command_bytes xs" by blast
  let ?c = "c\<lparr>c_obuf := Some s\<rparr>"
  have "conn_ready fd stream (t # ts) ?c h w" using assms(4) s(2) by (simp add: conn_ready_def flag_set_def)
  from getReply_delivers [OF assms(1-3) this assms(7,8)] assms(5,6) obtain p c' h' w' where
    p: "redisGetReply os mal (defaultFunctions mal) ?c h w = Some (Inr (REDIS_OK, p, c', h', w'))" "conn_ready fd stream ts c' h' w'"
    "reply_at t (new_nodes h h') p" "\<forall>q<rh_next h. rh_node h' q = rh_node h q" "flushed fd ?c w c' w'" by auto
  have "flag_set ?c REDIS_BLOCK" using assms(4) by (simp add: conn_ready_def flag_set_def)
  moreover have "new_nodes h h' \<subseteq>\<^sub>m rh_node h'" by (auto simp: new_nodes_def map_le_def restrict_map_def split: if_splits)
  from reply_at_mono [OF p(3) this] have "reply_at t (rh_node h') p" .
  ultimately show ?thesis
    using p s by (simp add: redisCommandArgv_def reply_to_def block_for_reply_def flushed_def)
qed

theorem command_gets_reply_witness:
  "\<exists>c p c' h w. redisConnectFd zero_alloc 3 = Inr (Some c) \<and>
    redisCommandArgv (serving_os (encode (RInt 7))) zero_alloc (defaultFunctions zero_alloc) c (int (length [''INCR'', ''k'']))
      [''INCR'', ''k''] (Some (map length [''INCR'', ''k''])) empty_heap fresh_world = Some (Inr (p, c', h, w)) \<and>
    reply_at (RInt 7) (rh_node h) p \<and> bytes_out 3 (w_calls w) = command_bytes [''INCR'', ''k'']"
proof -
  from redisConnectFd_total [OF grants_all_zero_alloc, of 3] obtain c where c: "redisConnectFd zero_alloc 3 = Inr (Some c)" ..
  have "length (concat (map encode [RInt 7])) < 2 ^ 31" by (simp add: signed_decimal_def length_decimal)
  moreover have "bytes_in 3 (w_calls fresh_world) = []" by (simp add: fresh_world_def)
  ultimately have r: "conn_ready 3 (concat (map encode [RInt 7])) [RInt 7] c empty_heap fresh_world" "outgoing c = []"
    "\<exists>rd. c_reader c = Some rd \<and> reader_bytes rd = Inr []"
    by (rule redisConnectFd_ready [OF grants_all_zero_alloc c])+
  then obtain rd where rd: "c_reader c = Some rd" "reader_bytes rd = Inr []" by blast
  have e: "concat (map encode [RInt 7]) = encode (RInt 7)" by simp
  have "sendable (RInt 7)" "depth (RInt 7) \<le> 8" by simp_all
  moreover have "length (outgoing c) + length (command_bytes [''INCR'', ''k'']) < 2 ^ 31 - 1"
    using r(2) by (simp add: command_bytes_def length_bulk_bytes length_decimal)
  ultimately have "\<exists>p c' h' w'. redisCommandArgv (serving_os (encode (RInt 7))) zero_alloc (defaultFunctions zero_alloc) c
      (int (length [''INCR'', ''k''])) [''INCR'', ''k''] (Some (map length [''INCR'', ''k''])) empty_heap fresh_world =
      Some (Inr (p, c', h', w')) \<and> reply_at (RInt 7) (rh_node h') p \<and>
      bytes_out 3 (w_calls w') = bytes_out 3 (w_calls fresh_world) @ outgoing c @ command_bytes [''INCR'', ''k'']"
    using command_gets_reply [OF grants_all_zero_alloc serving_os_accepts serving_os_serves r(1) [unfolded e] rd,
        of "[''INCR'', ''k'']"] by blast
  with c r(2) show ?thesis by (auto simp: fresh_world_def)
qed

text \<open>
  C33. A connection closes what it opened: after connecting with a timeout, waiting for any number of
  replies with any outcome, and freeing the context, every descriptor opened is closed again, once,
  unless the system handed out descriptor 0, which \<open>redisFree\<close> takes for none.
\<close>

theorem connection_closes_descriptors:
  assumes "fresh_sockets os" and "redisConnectWithTimeout os mal ip port tv fresh_world = Inr (Some c, w1)"
    and "getReplies os mal fn n c h w1 = Some (Inr (ps, c2, h2, w2))" and "redisFree os fn (Some c2) h2 w2 = Inr (h3, w3)"
  shows "closes_open (w_calls w3) \<and> open_fds (w_calls w3) \<subseteq> {0} \<and> (c_fd c \<noteq> 0 \<longrightarrow> open_fds (w_calls w3) = {})"
proof -
  have sf: "same_fds c w c' w'" if "getReplies os mal fn n c h w = Some (Inr (ps, c', h', w'))" for n c h w ps c' h' w'
    using that
  proof (induction n arbitrary: c h w ps)
    case (Suc n)
    then obtain st p c1 h1 w1 qs where "redisGetReply os mal fn c h w = Some (Inr (st, p, c1, h1, w1))"
      "getReplies os mal fn n c1 h1 w1 = Some (Inr (qs, c', h', w'))"
      by (auto split: option.splits sum.splits if_splits)
    then show ?case by (rule same_fds_trans [OF redisGetReply_fds Suc.IH])
  qed simp
  have "no_leak {} c w1" using redisConnectWithTimeout_fds [OF assms(1) _ assms(2)] by (simp add: fresh_world_def)
  with sf [OF assms(3)] have n: "no_leak {} c2 w2" by (auto simp: same_fds_def no_leak_def holds_fd_def no_fd_def)
  from redisFree_fds [OF n assms(4)] sf [OF assms(3)] show ?thesis by (auto simp: same_fds_def)
qed

theorem connection_closes_descriptors_witness:
  "\<exists>c w1 h w2. redisConnectWithTimeout (demo_os (\<lambda>_. None)) zero_alloc ''localhost'' 80 \<lparr>tv_sec = 1, tv_usec = 0\<rparr> fresh_world = Inr (Some c, w1) \<and>
    c_fd c = 3 \<and> redisFree (demo_os (\<lambda>_. None)) (defaultFunctions zero_alloc) (Some c) empty_heap w1 = Inr (h, w2) \<and>
    closes_open (w_calls w2) \<and> open_fds (w_calls w2) = {}"
proof -
  let ?os = "demo_os (\<lambda>_. None)"
  let ?x = "redisConnectWithTimeout ?os zero_alloc ''localhost'' 80 \<lparr>tv_sec = 1, tv_usec = 0\<rparr> fresh_world"
  from redisContextInit_ok [OF grants_all_zero_alloc] obtain s rd where
    i: "redisContextInit zero_alloc = Inr (Some ((blank_context 0)\<lparr>c_obuf := Some s, c_reader := Some rd\<rparr>))" "idle rd" by blast
  have "\<exists>c w. ?x = Inr (Some c, w) \<and> c_fd c = 3 \<and> c_reader c = Some rd"
    by (simp add: redisConnectWithTimeout_def connect_with_def i redisContextConnectTcp_def connect_tcp_def save_host_def
      save_timeout_def save_source_addr_def redisContextTimeoutMsec_def MAX_MSEC_def zero_alloc_def lookup_host_def
      sys_def demo_os_def answer_def Let_def cdiv_def to_int64_def fresh_world_def tcp_loop.simps try_addr_def redisSetBlocking_def
      bind_source_def connect_addr_def finish_connect_def redisSetTcpNoDelay_def flag_set_def set_flag_def blank_context_def demo_addr_def)
  then obtain c w1 where c: "?x = Inr (Some c, w1)" "c_fd c = 3" "c_reader c = Some rd" by blast
  then obtain h w2 where f: "redisFree ?os (defaultFunctions zero_alloc) (Some c) empty_heap w1 = Inr (h, w2)"
    using i(2) by (auto simp: redisFree_def redisReaderFree_def Let_def idle_def)
  from connection_closes_descriptors [OF fresh_sockets_demo c(1) getReplies.simps(1) f] c f show ?thesis by auto
qed

lemma GetReply_err: "redisReaderGetReply fn rd h = Inr (REDIS_ERR, p, rd', h') \<Longrightarrow> rd_err rd' \<noteq> 0"
  by (auto simp: redisReaderGetReply_def bindE_Inr_iff split: if_splits)

text \<open>
  Once a connection is in error it stays silent: reading and writing report the error without
  a system call, and \<open>redisGetReply\<close> makes none either; it can only return replies that the reader
  already holds.
\<close>

theorem failed_connection_is_silent:
  assumes "c_err c \<noteq> 0"
  shows "redisBufferRead os mal fn c h w = Inr (REDIS_ERR, c, h, w) \<and>
    redisBufferWrite os mal c w = Inr (REDIS_ERR, False, c, w) \<and>
    (\<exists>r. redisGetReply os mal fn c h w = Some r \<and>
      (\<forall>st p c' h' w'. r = Inr (st, p, c', h', w') \<longrightarrow> w' = w \<and> c_err c' \<noteq> 0 \<and> (flag_set c REDIS_BLOCK \<and> st = REDIS_OK \<longrightarrow> p \<noteq> 0)))"
proof -
  have get: "flag_set c1 m = flag_set c m" "c_err c1 \<noteq> 0" "st \<noteq> REDIS_ERR \<longrightarrow> st = REDIS_OK"
    if "redisGetReplyFromReader fn c h = Inr (st, q, c1, h1)" for st q c1 h1 m
    using that assms
    by (auto simp: redisGetReplyFromReader_def bindE_Inr_iff Let_def flag_set_def dest: GetReply_err split: option.splits if_splits)
  have wl: "c_err c1 \<noteq> 0 \<Longrightarrow> write_loop os mal c1 w = Some (Inr (REDIS_ERR, c1, w))" for c1
    by (simp add: write_loop.simps [of os mal c1] redisBufferWrite_def)
  show ?thesis
  proof (cases "redisGetReplyFromReader fn c h")
    case (Inl e)
    then show ?thesis using assms by (simp add: redisBufferRead_def redisBufferWrite_def redisGetReply_def)
  next
    case (Inr x)
    obtain st q c1 h1 where x: "x = (st, q, c1, h1)" by (cases x)
    note g = get [OF Inr [unfolded x]]
    show ?thesis
    proof (cases "st = REDIS_ERR")
      case True
      then show ?thesis using assms Inr x g by (simp add: redisBufferRead_def redisBufferWrite_def redisGetReply_def)
    next
      case False
      then show ?thesis using assms Inr x g(2,3) wl [OF g(2)] g(1) [of REDIS_BLOCK]
        by (simp add: redisBufferRead_def redisBufferWrite_def redisGetReply_def)
    qed
  qed
qed

theorem failed_connection_is_silent_witness:
  "redisBufferWrite (demo_os (\<lambda>_. None)) zero_alloc (set_error (blank_context REDIS_BLOCK) REDIS_ERR_EOF ''x'') fresh_world =
     Inr (REDIS_ERR, False, set_error (blank_context REDIS_BLOCK) REDIS_ERR_EOF ''x'', fresh_world)"
  using failed_connection_is_silent [of "set_error (blank_context REDIS_BLOCK) REDIS_ERR_EOF ''x''" "demo_os (\<lambda>_. None)" zero_alloc
    "defaultFunctions zero_alloc" empty_heap fresh_world] by simp

definition flaky_os :: os where
  \<comment> \<open>the resolver works the first time it is asked and then no more\<close>
  "flaky_os = (demo_os (\<lambda>_. None))\<lparr>os_call := (\<lambda>l call. case call of
     Sy_getaddrinfo _ _ _ \<Rightarrow> if l = [] then os_call (demo_os (\<lambda>_. None)) l call else answer (-2) 0
   | _ \<Rightarrow> os_call (demo_os (\<lambda>_. None)) l call)\<rparr>"

text \<open>
  \<open>redisReconnect\<close> closes the descriptor and keeps its number: when it then fails before it has a
  new socket, \<open>redisFree\<close> closes the same number again, which by then may be another file of the
  program.
\<close>

theorem reconnect_closes_twice:
  "\<exists>c w1 c2 w2 h w3. redisConnect flaky_os zero_alloc ''localhost'' 80 fresh_world = Inr (Some c, w1) \<and> c_err c = 0 \<and>
    redisReconnect flaky_os zero_alloc (defaultFunctions zero_alloc) c empty_heap w1 = Inr (REDIS_ERR, c2, empty_heap, w2) \<and>
    closes_open (w_calls w2) \<and>
    redisFree flaky_os (defaultFunctions zero_alloc) (Some c2) empty_heap w2 = Inr (h, w3) \<and> \<not> closes_open (w_calls w3)"
proof -
  from redisContextInit_ok [OF grants_all_zero_alloc] obtain s rd where
    i: "redisContextInit zero_alloc = Inr (Some ((blank_context 0)\<lparr>c_obuf := Some s, c_reader := Some rd\<rparr>))" "idle rd" by blast
  let ?fn = "defaultFunctions zero_alloc"
  have "\<exists>c w. redisConnect flaky_os zero_alloc ''localhost'' 80 fresh_world = Inr (Some c, w) \<and> c_err c = 0 \<and> c_fd c = 3 \<and> c_reader c = Some rd \<and>
      c_connection_type c = REDIS_CONN_TCP \<and> c_host c = strdup zero_alloc ''localhost'' \<and> c_timeout c = None \<and> c_source_addr c = None \<and>
      open_fds (w_calls w) = {3} \<and> closes_open (w_calls w) \<and> w_calls w \<noteq> []"
    by (simp add: redisConnect_def connect_with_def i redisContextConnectTcp_def connect_tcp_def save_host_def
      save_timeout_def save_source_addr_def redisContextTimeoutMsec_def MAX_MSEC_def lookup_host_def
      sys_def flaky_os_def demo_os_def answer_def Let_def cdiv_def to_int64_def fresh_world_def tcp_loop.simps try_addr_def redisSetBlocking_def
      bind_source_def connect_addr_def finish_connect_def redisSetTcpNoDelay_def flag_set_def set_flag_def blank_context_def demo_addr_def)
  then obtain c w where c: "redisConnect flaky_os zero_alloc ''localhost'' 80 fresh_world = Inr (Some c, w)" "c_err c = 0" "c_fd c = 3" "c_reader c = Some rd"
      "c_connection_type c = REDIS_CONN_TCP" "c_host c = strdup zero_alloc ''localhost''" "c_timeout c = None" "c_source_addr c = None"
    and w: "open_fds (w_calls w) = {3}" "closes_open (w_calls w)" "w_calls w \<noteq> []" by blast
  have h: "strdup zero_alloc ''localhost'' \<noteq> None" by (simp add: strdup_def zero_alloc_def)
  have free: "redisReaderFree ?fn rd empty_heap = Inr empty_heap" using i(2) by (simp add: redisReaderFree_def idle_def)
  obtain s2 rd2 where n: "sdsempty zero_alloc = Inr s2" "redisReaderCreate zero_alloc = Inr rd2" "rd_reply rd2 = 0"
    using sdsempty_total [OF grants_all_zero_alloc] redisReaderCreate_total [OF grants_all_zero_alloc] redisReaderCreate_idle
    by (auto simp: idle_def)
  have "\<exists>c2 w2. redisReconnect flaky_os zero_alloc ?fn c empty_heap w = Inr (REDIS_ERR, c2, empty_heap, w2) \<and> c_fd c2 = 3 \<and>
      c_reader c2 = Some rd2 \<and> open_fds (w_calls w2) = {} \<and> closes_open (w_calls w2)"
    using c w h n free
    by (simp add: redisReconnect_def Let_def saved_def redisContextConnectBindTcp_def connect_tcp_def save_host_def
      save_timeout_def save_source_addr_def redisContextTimeoutMsec_def lookup_host_def sys_def flaky_os_def demo_os_def answer_def set_error_def)
  then obtain c2 w2 where r: "redisReconnect flaky_os zero_alloc ?fn c empty_heap w = Inr (REDIS_ERR, c2, empty_heap, w2)" "c_fd c2 = 3"
      "c_reader c2 = Some rd2" "open_fds (w_calls w2) = {}" "closes_open (w_calls w2)" by blast
  have "\<exists>w3. redisFree flaky_os ?fn (Some c2) empty_heap w2 = Inr (empty_heap, w3) \<and> \<not> closes_open (w_calls w3)"
    using r n by (simp add: redisFree_def redisReaderFree_def Let_def sys_def)
  with c(1,2) r show ?thesis by blast
qed

end
