(* ===== verification/Dict.thy ===== *)
theory Dict
  imports Prelude "HOL-Library.Multiset"
begin

section \<open>The hash table (hiredis/dict.c)\<close>

text \<open>
  The chained hash table of the asynchronous interface. A chain is a list of entries, each with
  the address it was allocated at; what the type's destructors are called with is recorded in
  the table, in order. The functions of a \<open>dictType\<close> are a parameter. \<open>calloc\<close> and \<open>malloc\<close> results
  are not checked by the code, so a refused request is a NULL access.
\<close>

unbundle bit_operations_syntax

subsection \<open>State\<close>

record ('k, 'v) dictEntry =
  de_addr :: nat
  de_key :: 'k
  de_val :: 'v

record ('k, 'v) dictType =
  hashFunction :: "'k \<Rightarrow> nat"
  keyDup :: "('k \<Rightarrow> 'k) option"
  valDup :: "('v \<Rightarrow> 'v) option"
  keyCompare :: "('k \<Rightarrow> 'k \<Rightarrow> bool) option"
  keyDestructor :: bool
  valDestructor :: bool

record ('k, 'v) dict =
  dt_table :: "('k, 'v) dictEntry list list option"
  dt_size :: nat
  dt_sizemask :: nat
  dt_used :: nat
  dt_next :: nat
  dt_freed_keys :: "'k list"
  dt_freed_vals :: "'v list"

record dictIterator =
  di_index :: int
  di_entry :: "nat option"
  di_nextEntry :: "nat option"

abbreviation (input) DICT_OK :: int where "DICT_OK \<equiv> 0"
abbreviation (input) DICT_ERR :: int where "DICT_ERR \<equiv> 1"

definition DICT_HT_INITIAL_SIZE :: nat where
  "DICT_HT_INITIAL_SIZE = 4"

definition LONG_MAX :: nat where
  "LONG_MAX = 2 ^ 63 - 1"

subsection \<open>The macros of dict.h\<close>

definition dictHashKey :: "('k, 'v) dictType \<Rightarrow> 'k \<Rightarrow> nat" where
  \<comment> \<open>an \<open>unsigned int\<close>\<close>
  "dictHashKey ty key = hashFunction ty key mod 2 ^ 32"

definition dictCompareHashKeys :: "('k, 'v) dictType \<Rightarrow> 'k \<Rightarrow> 'k \<Rightarrow> bool" where
  "dictCompareHashKeys ty key1 key2 = (case keyCompare ty of Some cmp \<Rightarrow> cmp key1 key2 | None \<Rightarrow> key1 = key2)"

definition dictSetHashKey :: "('k, 'v) dictType \<Rightarrow> 'k \<Rightarrow> 'k" where
  "dictSetHashKey ty key = (case keyDup ty of Some dup \<Rightarrow> dup key | None \<Rightarrow> key)"

definition dictSetHashVal :: "('k, 'v) dictType \<Rightarrow> 'v \<Rightarrow> 'v" where
  "dictSetHashVal ty val = (case valDup ty of Some dup \<Rightarrow> dup val | None \<Rightarrow> val)"

definition dictFreeEntryKey :: "('k, 'v) dictType \<Rightarrow> ('k, 'v) dictEntry \<Rightarrow> ('k, 'v) dict \<Rightarrow> ('k, 'v) dict" where
  "dictFreeEntryKey ty e ht = (if keyDestructor ty then ht\<lparr>dt_freed_keys := dt_freed_keys ht @ [de_key e]\<rparr> else ht)"

definition dictFreeEntryVal :: "('k, 'v) dictType \<Rightarrow> ('k, 'v) dictEntry \<Rightarrow> ('k, 'v) dict \<Rightarrow> ('k, 'v) dict" where
  "dictFreeEntryVal ty e ht = (if valDestructor ty then ht\<lparr>dt_freed_vals := dt_freed_vals ht @ [de_val e]\<rparr> else ht)"

subsection \<open>Operations\<close>

fun dictGenHashFunction :: "char list \<Rightarrow> nat \<Rightarrow> nat" where
  \<comment> \<open>Bernstein's hash of the bytes, in 32 bits; the second argument is the running hash\<close>
  "dictGenHashFunction [] hash = hash"
| "dictGenHashFunction (c # buf) hash = dictGenHashFunction buf ((push_bit 5 hash + hash + of_char c) mod 2 ^ 32)"

definition dictReset :: "('k, 'v) dict \<Rightarrow> ('k, 'v) dict" where
  "dictReset ht = ht\<lparr>dt_table := None, dt_size := 0, dt_sizemask := 0, dt_used := 0\<rparr>"

definition dictInit :: "('k, 'v) dict \<Rightarrow> ('k, 'v) dict" where
  "dictInit ht = dictReset ht"

definition dictCreate :: "allocator \<Rightarrow> ('k, 'v) dict res" where
  "dictCreate mal =
     (case mal 48 of
        None \<Rightarrow> Inl OutOfBounds
      | Some _ \<Rightarrow> Inr (dictInit \<lparr>dt_table = None, dt_size = 0, dt_sizemask = 0, dt_used = 0, dt_next = 1,
                              dt_freed_keys = [], dt_freed_vals = []\<rparr>))"

function next_power_loop :: "nat \<Rightarrow> nat \<Rightarrow> nat" where
  \<comment> \<open>\<open>i\<close> starts at 4 and is never 0\<close>
  "next_power_loop sz i = (if sz \<le> i \<or> i = 0 then i else next_power_loop sz (i * 2))"
  by pat_completeness auto
termination by (relation "measure (\<lambda>(sz, i). sz - i)") auto

declare next_power_loop.simps [simp del]

definition dictNextPower :: "nat \<Rightarrow> nat" where
  "dictNextPower sz = (if sz \<ge> LONG_MAX then LONG_MAX else next_power_loop sz DICT_HT_INITIAL_SIZE)"

fun move_chain ::
  "('k, 'v) dictType \<Rightarrow> nat \<Rightarrow> ('k, 'v) dictEntry list \<Rightarrow> ('k, 'v) dictEntry list list \<times> nat
     \<Rightarrow> (('k, 'v) dictEntry list list \<times> nat) res" where
  \<comment> \<open>the entries of a chain are put in front of the chains of the new table\<close>
  "move_chain ty msk [] st = Inr st"
| "move_chain ty msk (he # es) (n, used) =
     (let h = dictHashKey ty (de_key he) AND msk
      in if h < length n then move_chain ty msk es (n[h := he # n ! h], sub64 used 1) else Inl OutOfBounds)"

fun move_table ::
  "('k, 'v) dictType \<Rightarrow> nat \<Rightarrow> ('k, 'v) dictEntry list list \<Rightarrow> ('k, 'v) dictEntry list list \<times> nat
     \<Rightarrow> (('k, 'v) dictEntry list list \<times> nat) res" where
  "move_table ty msk [] st = Inr st"
| "move_table ty msk (c # cs) st =
     (if snd st > 0 then bindE (move_chain ty msk c st) (move_table ty msk cs) else Inr st)"

definition table_slots :: "('k, 'v) dict \<Rightarrow> ('k, 'v) dictEntry list list res" where
  \<comment> \<open>the slots \<open>0\<close> to \<open>size - 1\<close>\<close>
  "table_slots ht =
     (if dt_size ht = 0 then Inr []
      else case dt_table ht of
             None \<Rightarrow> Inl OutOfBounds
           | Some t \<Rightarrow> if dt_size ht \<le> length t then Inr (take (dt_size ht) t) else Inl OutOfBounds)"

definition dictExpand :: "('k, 'v) dictType \<Rightarrow> allocator \<Rightarrow> ('k, 'v) dict \<Rightarrow> nat \<Rightarrow> (int \<times> ('k, 'v) dict) res" where
  "dictExpand ty mal ht sz =
     (let realsize = dictNextPower sz
      in if dt_used ht > sz then Inr (DICT_ERR, ht)
         else let sizemask = sub64 realsize 1;
                  table = (case mal (realsize * 8) of None \<Rightarrow> None | Some _ \<Rightarrow> Some (replicate realsize []))
              in bindE (if dt_size ht > 0 \<and> dt_used ht > 0 then table_slots ht else Inr []) (\<lambda>slots.
                 bindE (case table of
                          None \<Rightarrow> if concat slots = [] then Inr ([], dt_used ht) else Inl OutOfBounds
                        | Some n \<Rightarrow> move_table ty sizemask slots (n, dt_used ht)) (\<lambda>(n, used).
                 if used \<noteq> 0 then Inl AssertFailed
                 else Inr (DICT_OK, ht\<lparr>dt_table := (if table = None then None else Some n), dt_size := realsize,
                                      dt_sizemask := sizemask\<rparr>))))"

definition dictExpandIfNeeded :: "('k, 'v) dictType \<Rightarrow> allocator \<Rightarrow> ('k, 'v) dict \<Rightarrow> (int \<times> ('k, 'v) dict) res" where
  "dictExpandIfNeeded ty mal ht =
     (if dt_size ht = 0 then dictExpand ty mal ht DICT_HT_INITIAL_SIZE
      else if dt_used ht = dt_size ht then dictExpand ty mal ht (wrap64 (dt_size ht * 2))
      else Inr (DICT_OK, ht))"

definition chain_at :: "('k, 'v) dict \<Rightarrow> int \<Rightarrow> ('k, 'v) dictEntry list res" where
  "chain_at ht h =
     (case dt_table ht of
        None \<Rightarrow> Inl OutOfBounds
      | Some t \<Rightarrow> if 0 \<le> h \<and> nat h < length t then Inr (t ! nat h) else Inl OutOfBounds)"

definition set_chain :: "('k, 'v) dict \<Rightarrow> int \<Rightarrow> ('k, 'v) dictEntry list \<Rightarrow> ('k, 'v) dict" where
  "set_chain ht h c = ht\<lparr>dt_table := map_option (\<lambda>t. t[nat h := c]) (dt_table ht)\<rparr>"

definition slot_of :: "('k, 'v) dictType \<Rightarrow> ('k, 'v) dict \<Rightarrow> 'k \<Rightarrow> nat" where
  "slot_of ty ht key = (dictHashKey ty key AND dt_sizemask ht) mod 2 ^ 32"

definition dictKeyIndex :: "('k, 'v) dictType \<Rightarrow> allocator \<Rightarrow> ('k, 'v) dict \<Rightarrow> 'k \<Rightarrow> (int \<times> ('k, 'v) dict) res" where
  "dictKeyIndex ty mal ht key =
     bindE (dictExpandIfNeeded ty mal ht) (\<lambda>(st, ht).
     if st = DICT_ERR then Inr (-1, ht)
     else let h = slot_of ty ht key
          in bindE (chain_at ht (int h)) (\<lambda>c.
             if \<exists>he\<in>set c. dictCompareHashKeys ty key (de_key he) then Inr (-1, ht) else Inr (to_int32 (int h), ht)))"

definition dictAdd :: "('k, 'v) dictType \<Rightarrow> allocator \<Rightarrow> ('k, 'v) dict \<Rightarrow> 'k \<Rightarrow> 'v \<Rightarrow> (int \<times> ('k, 'v) dict) res" where
  "dictAdd ty mal ht key val =
     bindE (dictKeyIndex ty mal ht key) (\<lambda>(index, ht).
     if index = -1 then Inr (DICT_ERR, ht)
     else if mal 24 = None then Inl OutOfBounds
     else bindE (chain_at ht index) (\<lambda>c.
          let entry = \<lparr>de_addr = dt_next ht, de_key = dictSetHashKey ty key, de_val = dictSetHashVal ty val\<rparr>
          in Inr (DICT_OK, (set_chain ht index (entry # c))\<lparr>dt_used := wrap64 (dt_used ht + 1), dt_next := dt_next ht + 1\<rparr>)))"

definition dictFind :: "('k, 'v) dictType \<Rightarrow> ('k, 'v) dict \<Rightarrow> 'k \<Rightarrow> ('k, 'v) dictEntry option res" where
  "dictFind ty ht key =
     (if dt_size ht = 0 then Inr None
      else bindE (chain_at ht (int (slot_of ty ht key))) (\<lambda>c.
           Inr (List.find (\<lambda>he. dictCompareHashKeys ty key (de_key he)) c)))"

definition set_entry_val :: "('k, 'v) dict \<Rightarrow> nat \<Rightarrow> 'v \<Rightarrow> ('k, 'v) dict" where
  \<comment> \<open>a store through the pointer to an entry\<close>
  "set_entry_val ht a v =
     ht\<lparr>dt_table := map_option (map (map (\<lambda>he. if de_addr he = a then he\<lparr>de_val := v\<rparr> else he))) (dt_table ht)\<rparr>"

definition dictReplace :: "('k, 'v) dictType \<Rightarrow> allocator \<Rightarrow> ('k, 'v) dict \<Rightarrow> 'k \<Rightarrow> 'v \<Rightarrow> (int \<times> ('k, 'v) dict) res" where
  "dictReplace ty mal ht key val =
     bindE (dictAdd ty mal ht key val) (\<lambda>(st, ht).
     if st = DICT_OK then Inr (1, ht)
     else bindE (dictFind ty ht key) (\<lambda>found.
          case found of
            None \<Rightarrow> Inl OutOfBounds
          | Some entry \<Rightarrow> Inr (0, dictFreeEntryVal ty entry (set_entry_val ht (de_addr entry) (dictSetHashVal ty val)))))"

fun unlink_key :: "('k, 'v) dictType \<Rightarrow> 'k \<Rightarrow> ('k, 'v) dictEntry list \<Rightarrow> (('k, 'v) dictEntry \<times> ('k, 'v) dictEntry list) option" where
  \<comment> \<open>the first entry of the chain with the key, and the chain without it\<close>
  "unlink_key ty key [] = None"
| "unlink_key ty key (de # c) =
     (if dictCompareHashKeys ty key (de_key de) then Some (de, c)
      else map_option (\<lambda>(e, c). (e, de # c)) (unlink_key ty key c))"

definition dictDelete :: "('k, 'v) dictType \<Rightarrow> ('k, 'v) dict \<Rightarrow> 'k \<Rightarrow> (int \<times> ('k, 'v) dict) res" where
  "dictDelete ty ht key =
     (if dt_size ht = 0 then Inr (DICT_ERR, ht)
      else let h = int (slot_of ty ht key)
           in bindE (chain_at ht h) (\<lambda>c.
              case unlink_key ty key c of
                None \<Rightarrow> Inr (DICT_ERR, ht)
              | Some (de, c) \<Rightarrow>
                  let ht = dictFreeEntryVal ty de (dictFreeEntryKey ty de (set_chain ht h c))
                  in Inr (DICT_OK, ht\<lparr>dt_used := sub64 (dt_used ht) 1\<rparr>)))"

fun clear_chain :: "('k, 'v) dictType \<Rightarrow> ('k, 'v) dictEntry list \<Rightarrow> ('k, 'v) dict \<Rightarrow> ('k, 'v) dict" where
  "clear_chain ty [] ht = ht"
| "clear_chain ty (he # c) ht =
     (let ht = dictFreeEntryVal ty he (dictFreeEntryKey ty he ht)
      in clear_chain ty c (ht\<lparr>dt_used := sub64 (dt_used ht) 1\<rparr>))"

fun clear_slots :: "('k, 'v) dictType \<Rightarrow> ('k, 'v) dictEntry list list \<Rightarrow> ('k, 'v) dict \<Rightarrow> ('k, 'v) dict" where
  "clear_slots ty [] ht = ht"
| "clear_slots ty (c # cs) ht = (if dt_used ht > 0 then clear_slots ty cs (clear_chain ty c ht) else ht)"

definition dictClear :: "('k, 'v) dictType \<Rightarrow> ('k, 'v) dict \<Rightarrow> (int \<times> ('k, 'v) dict) res" where
  "dictClear ty ht =
     bindE (if dt_used ht > 0 then table_slots ht else Inr []) (\<lambda>slots.
     Inr (DICT_OK, dictReset (clear_slots ty slots ht)))"

definition dictRelease :: "('k, 'v) dictType \<Rightarrow> ('k, 'v) dict \<Rightarrow> ('k, 'v) dict res" where
  \<comment> \<open>what is left records the destructor calls; the table itself is freed\<close>
  "dictRelease ty ht = bindE (dictClear ty ht) (\<lambda>(_, ht). Inr ht)"

subsection \<open>Iterators\<close>

definition dictGetIterator :: "allocator \<Rightarrow> dictIterator res" where
  "dictGetIterator mal =
     (case mal 32 of None \<Rightarrow> Inl OutOfBounds | Some _ \<Rightarrow> Inr \<lparr>di_index = -1, di_entry = None, di_nextEntry = None\<rparr>)"

fun next_in_chain :: "nat \<Rightarrow> ('k, 'v) dictEntry list \<Rightarrow> ('k, 'v) dictEntry option option" where
  \<comment> \<open>the entry at an address is in the chain, and what follows it\<close>
  "next_in_chain a [] = None"
| "next_in_chain a (he # c) = (if de_addr he = a then Some (case c of [] \<Rightarrow> None | e # _ \<Rightarrow> Some e) else next_in_chain a c)"

definition load_entry :: "('k, 'v) dict \<Rightarrow> nat \<Rightarrow> ('k, 'v) dictEntry res" where
  "load_entry ht a =
     (case dt_table ht of
        None \<Rightarrow> Inl OutOfBounds
      | Some t \<Rightarrow> (case List.find (\<lambda>he. de_addr he = a) (concat t) of None \<Rightarrow> Inl OutOfBounds | Some e \<Rightarrow> Inr e))"

fun entry_next :: "nat \<Rightarrow> ('k, 'v) dictEntry list list \<Rightarrow> nat option res" where
  "entry_next a [] = Inl OutOfBounds"
| "entry_next a (c # cs) =
     (case next_in_chain a c of None \<Rightarrow> entry_next a cs | Some n \<Rightarrow> Inr (map_option de_addr n))"

definition visit :: "('k, 'v) dict \<Rightarrow> int \<Rightarrow> nat \<Rightarrow> (nat option \<times> dictIterator) res" where
  \<comment> \<open>the entry is returned, and its successor saved\<close>
  "visit ht i a =
     (case dt_table ht of
        None \<Rightarrow> Inl OutOfBounds
      | Some t \<Rightarrow> bindE (entry_next a t) (\<lambda>n. Inr (Some a, \<lparr>di_index = i, di_entry = Some a, di_nextEntry = n\<rparr>)))"

function next_slot :: "('k, 'v) dict \<Rightarrow> dictIterator \<Rightarrow> (nat option \<times> dictIterator) res" where
  \<comment> \<open>the loop while the current entry is NULL\<close>
  "next_slot ht it =
     (let i = di_index it + 1; it = it\<lparr>di_index := i\<rparr>
      in if i \<ge> to_int32 (int (dt_size ht)) then Inr (None, it)
         else bindE (chain_at ht i) (\<lambda>c.
              case c of [] \<Rightarrow> next_slot ht (it\<lparr>di_entry := None\<rparr>) | e # _ \<Rightarrow> visit ht i (de_addr e)))"
  by pat_completeness auto
termination by (relation "measure (\<lambda>(ht, it). nat (to_int32 (int (dt_size ht)) - di_index it))") auto

declare next_slot.simps [simp del]

definition dictNext :: "('k, 'v) dict \<Rightarrow> dictIterator \<Rightarrow> (nat option \<times> dictIterator) res" where
  \<comment> \<open>the address of the next entry\<close>
  "dictNext ht it =
     (if di_entry it = None then next_slot ht it
      else case di_nextEntry it of
             Some a \<Rightarrow> visit ht (di_index it) a
           | None \<Rightarrow> next_slot ht (it\<lparr>di_entry := None\<rparr>))"

subsection \<open>The invariant\<close>

definition entries :: "('k, 'v) dict \<Rightarrow> ('k, 'v) dictEntry list" where
  "entries ht = (case dt_table ht of None \<Rightarrow> [] | Some t \<Rightarrow> concat t)"

definition placed :: "('k, 'v) dictType \<Rightarrow> nat \<Rightarrow> ('k, 'v) dictEntry list list \<Rightarrow> bool" where
  \<comment> \<open>every entry is in the chain of its hash\<close>
  "placed ty k t \<longleftrightarrow> length t = 2 ^ k \<and> (\<forall>h<length t. \<forall>e\<in>set (t ! h). dictHashKey ty (de_key e) mod 2 ^ k = h)"

definition slots_ok :: "('k, 'v) dictType \<Rightarrow> ('k, 'v) dict \<Rightarrow> bool" where
  "slots_ok ty ht \<longleftrightarrow>
     (case dt_table ht of
        None \<Rightarrow> dt_size ht = 0
      | Some t \<Rightarrow> \<exists>k. 2 \<le> k \<and> k \<le> 30 \<and> dt_size ht = 2 ^ k \<and> dt_sizemask ht = 2 ^ k - 1 \<and> placed ty k t)"

definition keys_distinct :: "('k, 'v) dictType \<Rightarrow> ('k, 'v) dictEntry list \<Rightarrow> bool" where
  "keys_distinct ty es \<longleftrightarrow> (\<forall>e\<in>set es. \<forall>e'\<in>set es. dictCompareHashKeys ty (de_key e) (de_key e') \<longrightarrow> e = e')"

definition dict_ok :: "('k, 'v) dictType \<Rightarrow> ('k, 'v) dict \<Rightarrow> bool" where
  "dict_ok ty ht \<longleftrightarrow>
     slots_ok ty ht \<and> dt_used ht = length (entries ht) \<and> dt_used ht \<le> dt_size ht \<and>
     distinct (map de_addr (entries ht)) \<and> (\<forall>e\<in>set (entries ht). de_addr e < dt_next ht) \<and> keys_distinct ty (entries ht)"

definition dict_map :: "('k, 'v) dictType \<Rightarrow> ('k, 'v) dict \<Rightarrow> 'k \<Rightarrow> 'v option" where
  \<comment> \<open>the finite map a table stands for\<close>
  "dict_map ty ht key = map_option de_val (List.find (\<lambda>e. dictCompareHashKeys ty key (de_key e)) (entries ht))"

subsection \<open>Slots\<close>

lemma and_mask_mod: "(a::nat) AND (2 ^ k - 1) = a mod 2 ^ k"
  by (metis mask_eq_exp_minus_1 take_bit_eq_mask take_bit_eq_mod)

lemmas and_mask_mod_Suc = and_mask_mod [unfolded One_nat_def]

lemma concat_update_mset: "h < length n \<Longrightarrow> mset (concat (n[h := c])) + mset (n ! h) = mset (concat n) + mset c"
proof -
  assume h: "h < length n"
  have n: "n = take h n @ n ! h # drop (Suc h) n" using h by (rule id_take_nth_drop)
  have "mset (concat n) = mset (concat (take h n)) + mset (n ! h) + mset (concat (drop (Suc h) n))"
    by (subst n) simp
  moreover have "mset (concat (n[h := c])) = mset (concat (take h n)) + mset c + mset (concat (drop (Suc h) n))"
    using h by (simp add: upd_conv_take_nth_drop)
  ultimately show ?thesis by simp
qed

lemma find_concat:
  assumes "h < length t" and "\<forall>i<length t. i \<noteq> h \<longrightarrow> (\<forall>e\<in>set (t ! i). \<not> P e)"
  shows "List.find P (concat t) = List.find P (t ! h)"
proof -
  have t: "t = take h t @ t ! h # drop (Suc h) t" using assms(1) by (rule id_take_nth_drop)
  have "\<forall>e\<in>set (concat (take h t)). \<not> P e"
  proof
    fix e assume "e \<in> set (concat (take h t))"
    then obtain c where "c \<in> set (take h t)" "e \<in> set c" by auto
    then obtain i where "i < h" "e \<in> set (t ! i)" using assms(1) by (auto simp: in_set_conv_nth [of c])
    then show "\<not> P e" using assms(2) [rule_format, of i e] assms(1) by simp
  qed
  then have a: "List.find P (concat (take h t)) = None" unfolding find_None_iff by blast
  have "\<forall>e\<in>set (concat (drop (Suc h) t)). \<not> P e"
  proof
    fix e assume "e \<in> set (concat (drop (Suc h) t))"
    then obtain c where "c \<in> set (drop (Suc h) t)" "e \<in> set c" by auto
    then obtain i where "i < length (drop (Suc h) t)" "e \<in> set (drop (Suc h) t ! i)" by (metis in_set_conv_nth)
    then show "\<not> P e" using assms(2)[rule_format, of "Suc h + i"] by auto
  qed
  then have b: "List.find P (concat (drop (Suc h) t)) = None" unfolding find_None_iff by blast
  have app: "List.find P (xs @ ys) = (case List.find P xs of None \<Rightarrow> List.find P ys | Some x \<Rightarrow> Some x)" for xs ys
    by (induction xs) auto
  show ?thesis by (subst t) (simp add: app a b split: option.split)
qed

lemma find_unique:
  assumes "x \<in> set xs" and "P x" and "\<forall>y\<in>set xs. P y \<longrightarrow> y = x"
  shows "List.find P xs = Some x"
proof -
  from assms(1,2) have "List.find P xs \<noteq> None" unfolding find_None_iff by blast
  then obtain y where y: "List.find P xs = Some y" by blast
  then have "y \<in> set xs" "P y" unfolding find_Some_iff by auto
  with assms(3) y show ?thesis by blast
qed

lemma next_power_loop_pow: "j \<le> k \<Longrightarrow> next_power_loop (2 ^ k) (2 ^ j) = 2 ^ k"
proof (induction "k - j" arbitrary: j)
  case (Suc d)
  then have "j < k" by simp
  then have "(2::nat) ^ j < 2 ^ k" by simp
  then show ?case using Suc.hyps(1) [of "Suc j"] Suc.hyps(2) Suc.prems
    by (subst next_power_loop.simps) (simp add: mult.commute)
qed (subst next_power_loop.simps, simp)

lemma dictNextPower_pow: "2 \<le> k \<Longrightarrow> k \<le> 62 \<Longrightarrow> dictNextPower (2 ^ k) = 2 ^ k"
proof -
  assume k: "2 \<le> k" "k \<le> 62"
  have "(2::nat) ^ k \<le> 2 ^ 62" using k by (intro power_increasing) auto
  then have "\<not> LONG_MAX \<le> 2 ^ k" by (simp add: LONG_MAX_def)
  then show ?thesis using next_power_loop_pow [of 2 k] k by (simp add: dictNextPower_def DICT_HT_INITIAL_SIZE_def)
qed

lemma move_chain_ok:
  assumes "placed ty k n" and "length c \<le> used" and "used < 2 ^ 64"
  shows "\<exists>n'. move_chain ty (2 ^ k - 1) c (n, used) = Inr (n', used - length c) \<and> placed ty k n' \<and>
    mset (concat n') = mset (concat n) + mset c"
  using assms
proof (induction c arbitrary: n used)
  case (Cons he c)
  let ?h = "dictHashKey ty (de_key he) mod 2 ^ k"
  have l: "length n = 2 ^ k" using Cons.prems(1) by (simp add: placed_def)
  have h: "?h < length n" unfolding l by simp
  let ?n = "n[?h := he # n ! ?h]"
  have "placed ty k ?n"
    unfolding placed_def
  proof (intro conjI allI impI ballI)
    show "length ?n = 2 ^ k" using l by simp
    fix i e assume "i < length ?n" "e \<in> set (?n ! i)"
    then show "dictHashKey ty (de_key e) mod 2 ^ k = i"
      using Cons.prems(1) h by (cases "i = ?h") (auto simp: placed_def)
  qed
  moreover have "length c \<le> used - 1" "used - 1 < 2 ^ 64" "sub64 used 1 = used - 1"
    using Cons.prems by (auto simp: sub64_id)
  ultimately obtain n' where n': "move_chain ty (2 ^ k - 1) c (?n, used - 1) = Inr (n', used - 1 - length c)" "placed ty k n'"
    "mset (concat n') = mset (concat ?n) + mset c"
    using Cons.IH [of ?n "used - 1"] by blast
  have "mset (concat ?n) = add_mset he (mset (concat n))" using concat_update_mset [OF h, of "he # n ! ?h"] by simp
  with n' h \<open>sub64 used 1 = used - 1\<close> show ?case by (simp add: and_mask_mod_Suc Let_def)
qed simp

lemma move_table_ok:
  assumes "placed ty k n" and "used = length (concat cs)" and "used < 2 ^ 64"
  shows "\<exists>n'. move_table ty (2 ^ k - 1) cs (n, used) = Inr (n', 0) \<and> placed ty k n' \<and>
    mset (concat n') = mset (concat n) + mset (concat cs)"
  using assms
proof (induction cs arbitrary: n used)
  case (Cons c cs)
  show ?case
  proof (cases "used = 0")
    case True
    then show ?thesis using Cons.prems by simp
  next
    case False
    from move_chain_ok [OF Cons.prems(1), of c used] Cons.prems(2,3) obtain n1 where
      n1: "move_chain ty (2 ^ k - 1) c (n, used) = Inr (n1, used - length c)" "placed ty k n1"
      "mset (concat n1) = mset (concat n) + mset c" by auto
    from Cons.IH [OF n1(2), of "used - length c"] Cons.prems(2,3) obtain n2 where
      "move_table ty (2 ^ k - 1) cs (n1, used - length c) = Inr (n2, 0)" "placed ty k n2"
      "mset (concat n2) = mset (concat n1) + mset (concat cs)" by auto
    with n1 False show ?thesis by simp
  qed
qed simp

lemma dict_ok_mset:
  assumes "dict_ok ty ht" and "slots_ok ty ht'" and "mset (entries ht') = mset (entries ht)"
    and "dt_used ht' = dt_used ht" "dt_next ht' = dt_next ht" and "dt_used ht \<le> dt_size ht'"
  shows "dict_ok ty ht'"
proof -
  have "set (entries ht') = set (entries ht)" "length (entries ht') = length (entries ht)"
    using assms(3) by (metis set_mset_mset, metis size_mset)
  moreover have "distinct (map de_addr (entries ht')) = distinct (map de_addr (entries ht))"
    using assms(3) by (metis mset_eq_imp_distinct_iff mset_map)
  ultimately show ?thesis using assms by (simp add: dict_ok_def keys_distinct_def)
qed

lemma table_slots_ok:
  assumes "dict_ok ty ht"
  shows "\<exists>t. table_slots ht = Inr t \<and> concat t = entries ht"
  using assms by (auto simp: table_slots_def dict_ok_def slots_ok_def entries_def placed_def split: option.splits)

lemma placed_empty: "placed ty k (replicate (2 ^ k) [])"
  by (simp add: placed_def)

lemma dictExpand_ok:
  assumes ok: "dict_ok ty ht" and k: "2 \<le> k" "k \<le> 30" and u: "dt_used ht \<le> 2 ^ k" and g: "grants_all mal"
  shows "\<exists>ht'. dictExpand ty mal ht (2 ^ k) = Inr (DICT_OK, ht') \<and> dict_ok ty ht' \<and> mset (entries ht') = mset (entries ht) \<and>
    dt_size ht' = 2 ^ k \<and> dt_used ht' = dt_used ht \<and> dt_next ht' = dt_next ht \<and>
    dt_freed_keys ht' = dt_freed_keys ht \<and> dt_freed_vals ht' = dt_freed_vals ht"
proof -
  have ps: "dictNextPower (2 ^ k) = 2 ^ k" using k by (intro dictNextPower_pow) auto
  have k64: "(2::nat) ^ k < 2 ^ 64" using k by (intro power_strict_increasing) auto
  have m: "sub64 (2 ^ k) 1 = 2 ^ k - 1" using k64 by (intro sub64_id) auto
  obtain f where f: "mal (2 ^ k * 8) = Some f" using g by (auto simp: grants_all_def)
  define slots where "slots = (if dt_size ht > 0 \<and> dt_used ht > 0 then table_slots ht else Inr [])"
  obtain cs where cs: "slots = Inr cs" "concat cs = entries ht"
  proof (cases "dt_size ht > 0 \<and> dt_used ht > 0")
    case True
    then show thesis using table_slots_ok [OF ok] that by (auto simp: slots_def)
  next
    case False
    then have "entries ht = []" using ok by (auto simp: dict_ok_def)
    then show thesis using that [of "[]"] False by (simp add: slots_def)
  qed
  have "dt_used ht = length (concat cs)" "dt_used ht < 2 ^ 64"
    using ok cs(2) u k64 by (auto simp: dict_ok_def)
  from move_table_ok [OF placed_empty this] obtain n where
    n: "move_table ty (2 ^ k - 1) cs (replicate (2 ^ k) [], dt_used ht) = Inr (n, 0)" "placed ty k n"
    "mset (concat n) = mset (entries ht)" using cs(2) by auto
  let ?ht = "ht\<lparr>dt_table := Some n, dt_size := 2 ^ k, dt_sizemask := 2 ^ k - 1\<rparr>"
  have "dictExpand ty mal ht (2 ^ k) = Inr (DICT_OK, ?ht)"
    unfolding dictExpand_def ps m Let_def slots_def [symmetric] cs(1) bindE.simps f using u n(1) by simp
  moreover have "dict_ok ty ?ht"
    by (rule dict_ok_mset [OF ok]) (use n k u in \<open>auto simp: slots_ok_def entries_def\<close>)
  moreover have "mset (entries ?ht) = mset (entries ht)" using n(3) by (simp add: entries_def)
  ultimately show ?thesis by simp
qed

lemma free_val_simps [simp]:
  "dt_table (dictFreeEntryVal ty e h) = dt_table h" "dt_size (dictFreeEntryVal ty e h) = dt_size h"
  "dt_sizemask (dictFreeEntryVal ty e h) = dt_sizemask h" "dt_used (dictFreeEntryVal ty e h) = dt_used h"
  "dt_next (dictFreeEntryVal ty e h) = dt_next h" "dt_freed_keys (dictFreeEntryVal ty e h) = dt_freed_keys h"
  by (simp_all add: dictFreeEntryVal_def)

lemma free_key_simps [simp]:
  "dt_table (dictFreeEntryKey ty e h) = dt_table h" "dt_size (dictFreeEntryKey ty e h) = dt_size h"
  "dt_sizemask (dictFreeEntryKey ty e h) = dt_sizemask h" "dt_used (dictFreeEntryKey ty e h) = dt_used h"
  "dt_next (dictFreeEntryKey ty e h) = dt_next h" "dt_freed_vals (dictFreeEntryKey ty e h) = dt_freed_vals h"
  by (simp_all add: dictFreeEntryKey_def)

subsection \<open>What a dictType promises\<close>

text \<open>
  The laws that the functions of a type must obey: comparison is an equivalence that the hash
  respects, and the copy of a key is equivalent to it.
\<close>

locale dict_type =
  fixes ty :: "('k, 'v) dictType"
  assumes cmp_refl: "dictCompareHashKeys ty k k"
    and cmp_sym: "dictCompareHashKeys ty k k' \<Longrightarrow> dictCompareHashKeys ty k' k"
    and cmp_trans: "dictCompareHashKeys ty k k' \<Longrightarrow> dictCompareHashKeys ty k' k'' \<Longrightarrow> dictCompareHashKeys ty k k''"
    and hash_cong: "dictCompareHashKeys ty k k' \<Longrightarrow> dictHashKey ty k = dictHashKey ty k'"
    and dup_key: "dictCompareHashKeys ty k (dictSetHashKey ty k)"
begin

abbreviation (input) eqk :: "'k \<Rightarrow> 'k \<Rightarrow> bool" where "eqk \<equiv> dictCompareHashKeys ty"

lemma slot_chain:
  assumes ok: "dict_ok ty ht" and s: "0 < dt_size ht"
  shows "\<exists>t. dt_table ht = Some t \<and> chain_at ht (int (slot_of ty ht key)) = Inr (t ! slot_of ty ht key) \<and>
    slot_of ty ht key < length t \<and> slot_of ty ht key < 2 ^ 30 \<and> length t = dt_size ht \<and>
    (\<forall>i<length t. i \<noteq> slot_of ty ht key \<longrightarrow> (\<forall>e\<in>set (t ! i). \<not> eqk key (de_key e))) \<and>
    (\<forall>k. dt_size ht = 2 ^ k \<longrightarrow> placed ty k t \<and> slot_of ty ht key = dictHashKey ty key mod 2 ^ k)"
proof -
  from ok s obtain t k where t: "dt_table ht = Some t" "k \<le> 30" "dt_size ht = 2 ^ k" "dt_sizemask ht = 2 ^ k - 1" "placed ty k t"
    by (auto simp: dict_ok_def slots_ok_def split: option.splits)
  have k30: "(2::nat) ^ k \<le> 2 ^ 30" using t(2) by (intro power_increasing) auto
  have lt: "dictHashKey ty key mod 2 ^ k < 2 ^ k" by simp
  moreover from this k30 have "dictHashKey ty key mod 2 ^ k < 2 ^ 32" by (rule less_le_trans [OF less_le_trans]) simp
  ultimately have sl: "slot_of ty ht key = dictHashKey ty key mod 2 ^ k" "slot_of ty ht key < 2 ^ k"
    unfolding slot_of_def t(4) and_mask_mod by (simp_all only: mod_less)
  moreover have "length t = 2 ^ k" using t(5) by (simp add: placed_def)
  moreover have "\<not> eqk key (de_key e)" if "i < length t" "i \<noteq> slot_of ty ht key" "e \<in> set (t ! i)" for i e
    using that t(5) sl(1) hash_cong [of key "de_key e"] by (auto simp: placed_def)
  moreover have "slot_of ty ht key < 2 ^ 30" using sl(2) k30 by simp
  ultimately show ?thesis using t by (auto simp: chain_at_def)
qed

lemma find_slot:
  assumes "dict_ok ty ht" and "0 < dt_size ht"
  shows "\<exists>c. chain_at ht (int (slot_of ty ht key)) = Inr c \<and>
    List.find (\<lambda>e. eqk key (de_key e)) c = List.find (\<lambda>e. eqk key (de_key e)) (entries ht)"
proof -
  from slot_chain [OF assms, of key] obtain t where t: "dt_table ht = Some t"
    "chain_at ht (int (slot_of ty ht key)) = Inr (t ! slot_of ty ht key)" "slot_of ty ht key < length t"
    "\<forall>i<length t. i \<noteq> slot_of ty ht key \<longrightarrow> (\<forall>e\<in>set (t ! i). \<not> eqk key (de_key e))" by blast
  from find_concat [OF t(3), of "\<lambda>e. eqk key (de_key e)"] t show ?thesis by (simp add: entries_def)
qed

lemma dict_map_eq:
  assumes "dict_ok ty ht" and "e \<in> set (entries ht)" and "eqk key (de_key e)"
  shows "dict_map ty ht key = Some (de_val e)"
proof -
  have "\<forall>y\<in>set (entries ht). eqk key (de_key y) \<longrightarrow> y = e"
    using assms cmp_trans [OF cmp_sym] unfolding dict_ok_def keys_distinct_def by blast
  from find_unique [of e "entries ht" "\<lambda>e. eqk key (de_key e)", OF assms(2,3) this] show ?thesis by (simp add: dict_map_def)
qed

lemma dict_map_none: "dict_map ty ht key = None \<longleftrightarrow> (\<forall>e\<in>set (entries ht). \<not> eqk key (de_key e))"
  by (auto simp: dict_map_def find_None_iff)

lemma dict_map_mset:
  assumes "dict_ok ty ht" and "mset (entries ht') = mset (entries ht)"
  shows "dict_map ty ht' = dict_map ty ht"
proof
  fix key
  have s: "set (entries ht') = set (entries ht)" using assms(2) by (metis set_mset_mset)
  show "dict_map ty ht' key = dict_map ty ht key"
  proof (cases "\<exists>e\<in>set (entries ht). eqk key (de_key e)")
    case True
    then obtain e where e: "e \<in> set (entries ht)" "eqk key (de_key e)" by blast
    have "\<forall>y\<in>set (entries ht'). eqk key (de_key y) \<longrightarrow> y = e"
      using assms(1) e s cmp_trans [OF cmp_sym] unfolding dict_ok_def keys_distinct_def by blast
    from find_unique [of e "entries ht'" "\<lambda>e. eqk key (de_key e)", OF _ e(2) this] dict_map_eq [OF assms(1) e] e(1) s
    show ?thesis by (auto simp: dict_map_def)
  next
    case False
    then show ?thesis using dict_map_none [of ht key] dict_map_none [of ht' key] s by simp
  qed
qed

lemma dictFind_ok:
  assumes "dict_ok ty ht"
  shows "\<exists>r. dictFind ty ht key = Inr r \<and> map_option de_val r = dict_map ty ht key \<and>
    (\<forall>e. r = Some e \<longrightarrow> e \<in> set (entries ht) \<and> eqk key (de_key e))"
proof (cases "dt_size ht = 0")
  case True
  then have "entries ht = []" using assms by (auto simp: dict_ok_def)
  then show ?thesis using True by (simp add: dictFind_def dict_map_def)
next
  case False
  with find_slot [OF assms, of key] obtain c where c: "chain_at ht (int (slot_of ty ht key)) = Inr c"
    "List.find (\<lambda>e. eqk key (de_key e)) c = List.find (\<lambda>e. eqk key (de_key e)) (entries ht)" by auto
  have "e \<in> set (entries ht) \<and> eqk key (de_key e)" if "List.find (\<lambda>e. eqk key (de_key e)) (entries ht) = Some e" for e
    using that unfolding find_Some_iff by auto
  with c False show ?thesis by (simp add: dictFind_def dict_map_def)
qed

lemma dictExpandIfNeeded_ok:
  assumes ok: "dict_ok ty ht" and u: "dt_used ht < 2 ^ 30" and g: "grants_all mal"
  shows "\<exists>ht'. dictExpandIfNeeded ty mal ht = Inr (DICT_OK, ht') \<and> dict_ok ty ht' \<and> mset (entries ht') = mset (entries ht) \<and>
    dt_used ht' < dt_size ht' \<and> dt_used ht' = dt_used ht \<and> dt_next ht' = dt_next ht \<and>
    dt_freed_keys ht' = dt_freed_keys ht \<and> dt_freed_vals ht' = dt_freed_vals ht"
proof -
  consider "dt_size ht = 0" | "dt_size ht \<noteq> 0" "dt_used ht = dt_size ht" | "dt_size ht \<noteq> 0" "dt_used ht < dt_size ht"
    using ok unfolding dict_ok_def by linarith
  then show ?thesis
  proof cases
    case 1
    then have "dt_used ht \<le> 2 ^ 2" using ok by (simp add: dict_ok_def)
    from dictExpand_ok [OF ok _ _ this g] 1 ok show ?thesis
      by (fastforce simp: dictExpandIfNeeded_def DICT_HT_INITIAL_SIZE_def dict_ok_def)
  next
    case 2
    then obtain k where k: "2 \<le> k" "k \<le> 30" "dt_size ht = 2 ^ k"
      using ok by (auto simp: dict_ok_def slots_ok_def split: option.splits)
    have "k < 30" using u 2(2) k(3) power_increasing [of 30 k "2::nat"] by (cases "k < 30") auto
    moreover have "wrap64 (dt_size ht * 2) = 2 ^ Suc k" using k power_increasing [of k 30 "2::nat"] by (simp add: wrap64_def)
    moreover have "dt_used ht \<le> 2 ^ Suc k" using 2(2) k(3) by simp
    ultimately obtain ht' where "dictExpandIfNeeded ty mal ht = Inr (DICT_OK, ht')" "dict_ok ty ht'"
      "mset (entries ht') = mset (entries ht)" "dt_size ht' = 2 ^ Suc k" "dt_used ht' = dt_used ht" "dt_next ht' = dt_next ht"
      "dt_freed_keys ht' = dt_freed_keys ht" "dt_freed_vals ht' = dt_freed_vals ht"
      using dictExpand_ok [OF ok _ _ _ g, of "Suc k"] k 2 by (auto simp: dictExpandIfNeeded_def)
    then show ?thesis using 2(2) k(3) by (intro exI [of _ ht']) simp
  next
    case 3
    then show ?thesis using ok by (auto simp: dictExpandIfNeeded_def)
  qed
qed

end

context dict_type begin

lemma dict_map_some:
  assumes "dict_ok ty ht"
  shows "dict_map ty ht key = Some v \<longleftrightarrow> (\<exists>e\<in>set (entries ht). eqk key (de_key e) \<and> de_val e = v)"
proof
  assume "dict_map ty ht key = Some v"
  then show "\<exists>e\<in>set (entries ht). eqk key (de_key e) \<and> de_val e = v" by (auto simp: dict_map_def find_Some_iff)
qed (use dict_map_eq [OF assms] in auto)

lemma map_eqI: "(\<And>k v. f k = Some v \<longleftrightarrow> g k = Some v) \<Longrightarrow> f = g"
  by (rule ext) (metis not_None_eq)

lemma dict_insert:
  assumes ok: "dict_ok ty ht" and s: "slots_ok ty ht'" "mset (entries ht') = add_mset e (mset (entries ht))"
    and e: "de_addr e = dt_next ht" "eqk key (de_key e)" "\<forall>x\<in>set (entries ht). \<not> eqk key (de_key x)"
    and n: "dt_used ht' = dt_used ht + 1" "dt_next ht' = dt_next ht + 1" "dt_used ht' \<le> dt_size ht'"
  shows "dict_ok ty ht' \<and> dict_map ty ht' = (\<lambda>k. if eqk k key then Some (de_val e) else dict_map ty ht k)"
proof -
  have st: "set (entries ht') = insert e (set (entries ht))" using s(2) by (metis set_mset_add_mset_insert set_mset_mset)
  have ln: "length (entries ht') = Suc (length (entries ht))" using s(2) by (metis size_add_mset size_mset)
  have "mset (map de_addr (entries ht')) = mset (de_addr e # map de_addr (entries ht))" using s(2) by simp
  then have "distinct (map de_addr (entries ht')) = distinct (de_addr e # map de_addr (entries ht))"
    by (rule mset_eq_imp_distinct_iff)
  then have d: "distinct (map de_addr (entries ht'))" using ok e(1) by (auto simp: dict_ok_def)
  have new: "\<not> eqk (de_key e) (de_key x)" "\<not> eqk (de_key x) (de_key e)" if "x \<in> set (entries ht)" for x
    using e(2,3) that cmp_trans cmp_sym by blast+
  have ok': "dict_ok ty ht'"
    using ok s(1) d ln n e(1) new unfolding dict_ok_def keys_distinct_def st by auto
  moreover have "dict_map ty ht' = (\<lambda>k. if eqk k key then Some (de_val e) else dict_map ty ht k)"
  proof (rule map_eqI)
    fix k v
    show "dict_map ty ht' k = Some v \<longleftrightarrow> (if eqk k key then Some (de_val e) else dict_map ty ht k) = Some v"
    proof (cases "eqk k key")
      case True
      then have "eqk k (de_key e)" using e(2) cmp_trans by blast
      with dict_map_eq [OF ok', of e k] st True show ?thesis by auto
    next
      case False
      then have "\<not> eqk k (de_key e)" using e(2) cmp_sym cmp_trans by blast
      with False show ?thesis using dict_map_some [OF ok'] dict_map_some [OF ok] st by auto
    qed
  qed
  ultimately show ?thesis ..
qed

lemma dictAdd_ok:
  assumes ok: "dict_ok ty ht" and u: "dt_used ht < 2 ^ 30" and g: "grants_all mal"
  shows "\<exists>st ht'. dictAdd ty mal ht key val = Inr (st, ht') \<and> dict_ok ty ht' \<and>
    dt_freed_keys ht' = dt_freed_keys ht \<and> dt_freed_vals ht' = dt_freed_vals ht \<and>
    (if dict_map ty ht key = None
     then st = DICT_OK \<and> dt_used ht' = dt_used ht + 1 \<and>
       dict_map ty ht' = (\<lambda>k. if eqk k key then Some (dictSetHashVal ty val) else dict_map ty ht k)
     else st = DICT_ERR \<and> dt_used ht' = dt_used ht \<and> dict_map ty ht' = dict_map ty ht)"
proof -
  from dictExpandIfNeeded_ok [OF assms] obtain h1 where h1: "dictExpandIfNeeded ty mal ht = Inr (DICT_OK, h1)" "dict_ok ty h1"
    "mset (entries h1) = mset (entries ht)" "dt_used h1 < dt_size h1" "dt_used h1 = dt_used ht" "dt_next h1 = dt_next ht"
    "dt_freed_keys h1 = dt_freed_keys ht" "dt_freed_vals h1 = dt_freed_vals ht" by blast
  have m1: "dict_map ty h1 = dict_map ty ht" by (rule dict_map_mset [OF ok h1(3)])
  let ?h = "slot_of ty h1 key"
  from slot_chain [OF h1(2), of key] h1(4) obtain t where t: "dt_table h1 = Some t"
    "chain_at h1 (int ?h) = Inr (t ! ?h)" "?h < length t" "?h < 2 ^ 30" "length t = dt_size h1"
    "\<forall>i<length t. i \<noteq> ?h \<longrightarrow> (\<forall>e\<in>set (t ! i). \<not> eqk key (de_key e))"
    "\<forall>k. dt_size h1 = 2 ^ k \<longrightarrow> placed ty k t \<and> ?h = dictHashKey ty key mod 2 ^ k" by auto
  have iff: "(\<exists>he\<in>set (t ! ?h). eqk key (de_key he)) \<longleftrightarrow> dict_map ty h1 key \<noteq> None"
  proof -
    have "(\<exists>e\<in>set (concat t). eqk key (de_key e)) \<longleftrightarrow> (\<exists>i<length t. \<exists>e\<in>set (t ! i). eqk key (de_key e))"
      by (simp add: Bex_def) (metis in_set_conv_nth)
    also have "\<dots> \<longleftrightarrow> (\<exists>he\<in>set (t ! ?h). eqk key (de_key he))" using t(3,6) by metis
    finally show ?thesis using dict_map_none [of h1 key] t(1) by (auto simp: entries_def)
  qed
  have i32: "to_int32 (int ?h) = int ?h" using t(4) by (intro to_int32_id) auto
  show ?thesis
  proof (cases "dict_map ty ht key = None")
    case False
    then have "dictKeyIndex ty mal ht key = Inr (-1, h1)"
      using h1(1) t(2) iff m1 by (simp add: dictKeyIndex_def Let_def)
    then have "dictAdd ty mal ht key val = Inr (DICT_ERR, h1)" by (simp add: dictAdd_def)
    then show ?thesis using False h1 m1 by simp
  next
    case True
    then have ki: "dictKeyIndex ty mal ht key = Inr (int ?h, h1)"
      using h1(1) t(2) iff m1 i32 by (simp add: dictKeyIndex_def Let_def)
    define e where "e = \<lparr>de_addr = dt_next h1, de_key = dictSetHashKey ty key, de_val = dictSetHashVal ty val\<rparr>"
    define h' where "h' = (set_chain h1 (int ?h) (e # t ! ?h))\<lparr>dt_used := dt_used h1 + 1, dt_next := dt_next h1 + 1\<rparr>"
    have "dt_used h1 + 1 < 2 ^ 64" using u h1(5) by simp
    then have run: "dictAdd ty mal ht key val = Inr (DICT_OK, h')"
      using ki grants_all_def [of mal] g t(2) by (simp add: dictAdd_def Let_def e_def h'_def)
    from h1(2) t(1) obtain k where k: "2 \<le> k" "k \<le> 30" "dt_size h1 = 2 ^ k" "dt_sizemask h1 = 2 ^ k - 1"
      by (auto simp: dict_ok_def slots_ok_def)
    have pl: "placed ty k t" "?h = dictHashKey ty key mod 2 ^ k" using t(7) k(3) by auto
    have "dictHashKey ty (dictSetHashKey ty key) = dictHashKey ty key" using hash_cong [OF dup_key [of key]] by simp
    then have "placed ty k (t[?h := e # t ! ?h])"
      using pl t(3) by (auto simp: placed_def nth_list_update e_def)
    then have "slots_ok ty h'" using k t(1) by (auto simp: slots_ok_def set_chain_def h'_def)
    moreover have "mset (entries h') = add_mset e (mset (entries h1))"
      using concat_update_mset [OF t(3), of "e # t ! ?h"] t(1) by (simp add: entries_def set_chain_def h'_def)
    moreover have "eqk key (de_key e)" using dup_key by (simp add: e_def)
    moreover have "\<forall>x\<in>set (entries h1). \<not> eqk key (de_key x)" using True m1 dict_map_none [of h1 key] by simp
    ultimately have "dict_ok ty h' \<and> dict_map ty h' = (\<lambda>k. if eqk k key then Some (de_val e) else dict_map ty h1 k)"
      using h1(4) by (intro dict_insert [OF h1(2)]) (auto simp: set_chain_def e_def h'_def)
    moreover have "dt_freed_keys h' = dt_freed_keys h1" "dt_freed_vals h' = dt_freed_vals h1" "dt_used h' = dt_used h1 + 1"
      by (simp_all add: h'_def set_chain_def)
    moreover have "de_val e = dictSetHashVal ty val" by (simp add: e_def)
    ultimately show ?thesis using True run h1(5,7,8) m1 by (simp cong: if_cong)
  qed
qed

end

context dict_type begin

lemma entries_set_val: "entries (set_entry_val ht a v) = map (\<lambda>he. if de_addr he = a then he\<lparr>de_val := v\<rparr> else he) (entries ht)"
  by (auto simp: entries_def set_entry_val_def map_concat split: option.split)

lemma set_entry_val_ok:
  assumes ok: "dict_ok ty ht" and e: "e \<in> set (entries ht)" "eqk key (de_key e)"
  shows "dict_ok ty (set_entry_val ht (de_addr e) v) \<and>
    dict_map ty (set_entry_val ht (de_addr e) v) = (\<lambda>k. if eqk k key then Some v else dict_map ty ht k)"
proof -
  let ?u = "\<lambda>he. if de_addr he = de_addr e then he\<lparr>de_val := v\<rparr> else he" and ?h = "set_entry_val ht (de_addr e) v"
  have ka: "de_key (?u x) = de_key x" "de_addr (?u x) = de_addr x" for x by simp_all
  have inj: "x = e" if "x \<in> set (entries ht)" "de_addr x = de_addr e" for x
    using ok that e(1) by (auto simp: dict_ok_def distinct_map inj_on_def)
  have "slots_ok ty ?h"
    using ok by (fastforce simp: dict_ok_def slots_ok_def set_entry_val_def placed_def split: option.splits)
  moreover have "map de_addr (entries ?h) = map de_addr (entries ht)" by (simp add: entries_set_val)
  moreover have "keys_distinct ty (entries ?h)"
    unfolding keys_distinct_def
  proof (intro ballI impI)
    fix a b assume "a \<in> set (entries ?h)" "b \<in> set (entries ?h)" and ab: "eqk (de_key a) (de_key b)"
    then obtain x y where xy: "x \<in> set (entries ht)" "y \<in> set (entries ht)" "a = ?u x" "b = ?u y"
      unfolding entries_set_val set_map by blast
    then have "eqk (de_key x) (de_key y)" using ab ka(1) [of x] ka(1) [of y] by (simp only:)
    then have "x = y" using ok xy(1,2) unfolding dict_ok_def keys_distinct_def by blast
    then show "a = b" using xy(3,4) by simp
  qed
  moreover have "\<forall>x\<in>set (entries ?h). de_addr x < dt_next ?h"
  proof -
    have nx: "dt_next ?h = dt_next ht" by (simp add: set_entry_val_def)
    show ?thesis using ok unfolding nx entries_set_val by (auto simp: dict_ok_def)
  qed
  moreover have "dt_used ?h = length (entries ?h)" "dt_used ?h \<le> dt_size ?h"
    using ok by (simp_all add: dict_ok_def entries_set_val) (simp_all add: set_entry_val_def)
  ultimately have ok': "dict_ok ty ?h" using ok by (simp add: dict_ok_def)
  moreover have "dict_map ty ?h = (\<lambda>k. if eqk k key then Some v else dict_map ty ht k)"
  proof (rule map_eqI)
    fix k w
    have eh: "?u e \<in> set (entries ?h)" using e(1) unfolding entries_set_val set_map by (rule imageI)
    show "dict_map ty ?h k = Some w \<longleftrightarrow> (if eqk k key then Some v else dict_map ty ht k) = Some w"
    proof (cases "eqk k key")
      case True
      then have "eqk k (de_key (?u e))" unfolding ka(1) using e(2) cmp_trans by blast
      from dict_map_eq [OF ok' eh this] True show ?thesis by simp
    next
      case False
      then have ne: "\<not> eqk k (de_key e)" using e(2) cmp_sym cmp_trans by blast
      have "(\<exists>x\<in>set (entries ?h). eqk k (de_key x) \<and> de_val x = w) \<longleftrightarrow> (\<exists>x\<in>set (entries ht). eqk k (de_key x) \<and> de_val x = w)"
      proof -
        have u: "?u x = x" if "x \<in> set (entries ht)" "eqk k (de_key x)" for x using inj [of x] ne that by auto
        have "(\<exists>x\<in>set (entries ?h). eqk k (de_key x) \<and> de_val x = w) \<longleftrightarrow>
            (\<exists>x\<in>set (entries ht). eqk k (de_key (?u x)) \<and> de_val (?u x) = w)"
          unfolding entries_set_val set_map bex_simps ..
        also have "\<dots> \<longleftrightarrow> (\<exists>x\<in>set (entries ht). eqk k (de_key x) \<and> de_val x = w)"
          unfolding ka(1) using u by (intro bex_cong [OF refl] conj_cong [OF refl]) simp
        finally show ?thesis .
      qed
      then show ?thesis using False dict_map_some [OF ok'] dict_map_some [OF ok] by simp
    qed
  qed
  ultimately show ?thesis ..
qed

lemma dictReplace_ok:
  assumes ok: "dict_ok ty ht" and u: "dt_used ht < 2 ^ 30" and g: "grants_all mal"
  shows "\<exists>st ht'. dictReplace ty mal ht key val = Inr (st, ht') \<and> dict_ok ty ht' \<and> dt_freed_keys ht' = dt_freed_keys ht \<and>
    dict_map ty ht' = (\<lambda>k. if eqk k key then Some (dictSetHashVal ty val) else dict_map ty ht k) \<and>
    (case dict_map ty ht key of
       None \<Rightarrow> st = 1 \<and> dt_used ht' = dt_used ht + 1 \<and> dt_freed_vals ht' = dt_freed_vals ht
     | Some old \<Rightarrow> st = 0 \<and> dt_used ht' = dt_used ht \<and>
         dt_freed_vals ht' = dt_freed_vals ht @ (if valDestructor ty then [old] else []))"
proof -
  from dictAdd_ok [OF assms, of key val] obtain st h1 where a: "dictAdd ty mal ht key val = Inr (st, h1)" "dict_ok ty h1"
    "dt_freed_keys h1 = dt_freed_keys ht" "dt_freed_vals h1 = dt_freed_vals ht"
    "if dict_map ty ht key = None
     then st = DICT_OK \<and> dt_used h1 = dt_used ht + 1 \<and>
       dict_map ty h1 = (\<lambda>k. if eqk k key then Some (dictSetHashVal ty val) else dict_map ty ht k)
     else st = DICT_ERR \<and> dt_used h1 = dt_used ht \<and> dict_map ty h1 = dict_map ty ht" by blast
  show ?thesis
  proof (cases "dict_map ty ht key")
    case None
    then show ?thesis using a by (auto simp: dictReplace_def)
  next
    case (Some old)
    from dictFind_ok [OF a(2), of key] Some a(5) obtain e where
      e: "dictFind ty h1 key = Inr (Some e)" "e \<in> set (entries h1)" "eqk key (de_key e)" "de_val e = old" by auto
    let ?h = "set_entry_val h1 (de_addr e) (dictSetHashVal ty val)"
    have run: "dictReplace ty mal ht key val = Inr (0, dictFreeEntryVal ty e ?h)"
      using a(1,5) Some e(1) by (simp add: dictReplace_def)
    have f: "dict_ok ty (dictFreeEntryVal ty e h) = dict_ok ty h" "dict_map ty (dictFreeEntryVal ty e h) = dict_map ty h" for h
      by (simp_all add: dict_ok_def slots_ok_def entries_def dict_map_def [abs_def] cong: option.case_cong)
    have "dict_map ty (dictFreeEntryVal ty e ?h) = (\<lambda>k. if eqk k key then Some (dictSetHashVal ty val) else dict_map ty ht k)"
      using set_entry_val_ok [OF a(2) e(2,3), of "dictSetHashVal ty val"] a(5) Some by (simp add: f cong: if_cong)
    moreover have "dict_ok ty (dictFreeEntryVal ty e ?h)" using set_entry_val_ok [OF a(2) e(2,3), of "dictSetHashVal ty val"] by (simp add: f)
    ultimately show ?thesis using run Some a(3,4,5) e(4) by (simp add: dictFreeEntryVal_def set_entry_val_def)
  qed
qed

lemma unlink_key_find: "unlink_key ty key c =
    (case List.find (\<lambda>e. eqk key (de_key e)) c of None \<Rightarrow> None | Some e \<Rightarrow> Some (e, remove1 e c))"
proof (induction c)
  case (Cons a c)
  have "eqk key (de_key e)" if "List.find (\<lambda>e. eqk key (de_key e)) c = Some e" for e
    using that by (auto simp: find_Some_iff)
  with Cons show ?case by (auto split: option.splits)
qed simp

lemma dict_remove:
  assumes ok: "dict_ok ty ht" and s: "slots_ok ty ht'" "mset (entries ht) = add_mset e (mset (entries ht'))"
    and k: "eqk key (de_key e)" and n: "dt_used ht' = dt_used ht - 1" "dt_next ht' = dt_next ht" "dt_size ht' = dt_size ht"
  shows "dict_ok ty ht' \<and> dict_map ty ht' = (\<lambda>k. if eqk k key then None else dict_map ty ht k)"
proof -
  have st: "set (entries ht) = insert e (set (entries ht'))" using s(2) by (metis set_mset_add_mset_insert set_mset_mset)
  have ln: "length (entries ht) = Suc (length (entries ht'))" using s(2) by (metis size_add_mset size_mset)
  have "mset (map de_addr (entries ht)) = mset (de_addr e # map de_addr (entries ht'))" using s(2) by simp
  then have "distinct (map de_addr (entries ht)) = distinct (de_addr e # map de_addr (entries ht'))"
    by (rule mset_eq_imp_distinct_iff)
  then have d: "distinct (map de_addr (entries ht'))" "e \<notin> set (entries ht')" using ok by (auto simp: dict_ok_def)
  have ok': "dict_ok ty ht'"
    using ok s(1) d(1) ln n unfolding dict_ok_def keys_distinct_def st by auto
  moreover have "dict_map ty ht' = (\<lambda>k. if eqk k key then None else dict_map ty ht k)"
  proof (rule map_eqI)
    fix k v
    show "dict_map ty ht' k = Some v \<longleftrightarrow> (if eqk k key then None else dict_map ty ht k) = Some v"
    proof (cases "eqk k key")
      case True
      have "\<not> eqk k (de_key x)" if "x \<in> set (entries ht')" for x
      proof
        assume "eqk k (de_key x)"
        then have "eqk (de_key e) (de_key x)" using True assms(4) cmp_sym cmp_trans by blast
        then have "e = x" using ok that unfolding dict_ok_def keys_distinct_def st by blast
        with that d(2) show False by simp
      qed
      with True dict_map_none [of ht' k] show ?thesis by auto
    next
      case False
      then have "\<not> eqk k (de_key e)" using assms(4) cmp_sym cmp_trans by blast
      with False show ?thesis using dict_map_some [OF ok'] dict_map_some [OF ok] st by auto
    qed
  qed
  ultimately show ?thesis ..
qed

lemma dictDelete_ok:
  assumes ok: "dict_ok ty ht"
  shows "\<exists>st ht'. dictDelete ty ht key = Inr (st, ht') \<and> dict_ok ty ht' \<and>
    (case dict_map ty ht key of
       None \<Rightarrow> st = DICT_ERR \<and> ht' = ht
     | Some old \<Rightarrow> st = DICT_OK \<and> dt_used ht' = dt_used ht - 1 \<and>
         dict_map ty ht' = (\<lambda>k. if eqk k key then None else dict_map ty ht k) \<and>
         dt_freed_vals ht' = dt_freed_vals ht @ (if valDestructor ty then [old] else []) \<and>
         (\<exists>k. eqk key k \<and> dt_freed_keys ht' = dt_freed_keys ht @ (if keyDestructor ty then [k] else [])))"
proof (cases "dt_size ht = 0")
  case True
  then have "entries ht = []" using ok by (auto simp: dict_ok_def)
  then show ?thesis using True ok by (simp add: dictDelete_def dict_map_def)
next
  case False
  let ?h = "slot_of ty ht key"
  from slot_chain [OF ok, of key] False obtain t where t: "dt_table ht = Some t"
    "chain_at ht (int ?h) = Inr (t ! ?h)" "?h < length t"
    "\<forall>i<length t. i \<noteq> ?h \<longrightarrow> (\<forall>e\<in>set (t ! i). \<not> eqk key (de_key e))" by auto
  have fd: "List.find (\<lambda>e. eqk key (de_key e)) (t ! ?h) = List.find (\<lambda>e. eqk key (de_key e)) (entries ht)"
    using find_concat [OF t(3), of "\<lambda>e. eqk key (de_key e)"] t(1,4) by (simp add: entries_def)
  show ?thesis
  proof (cases "List.find (\<lambda>e. eqk key (de_key e)) (t ! ?h)")
    case None
    then have "dictDelete ty ht key = Inr (DICT_ERR, ht)" "dict_map ty ht key = None"
      using False t(2) fd by (simp_all add: dictDelete_def unlink_key_find Let_def dict_map_def)
    then show ?thesis using ok by simp
  next
    case (Some e)
    then have e: "e \<in> set (t ! ?h)" "eqk key (de_key e)" by (auto simp: find_Some_iff)
    have old: "dict_map ty ht key = Some (de_val e)" using Some fd by (simp add: dict_map_def)
    define h1 where "h1 = set_chain ht (int ?h) (remove1 e (t ! ?h))"
    define h2 where "h2 = (dictFreeEntryVal ty e (dictFreeEntryKey ty e h1))\<lparr>dt_used := sub64 (dt_used ht) 1\<rparr>"
    have tab: "dt_table h2 = Some (t[?h := remove1 e (t ! ?h)])" "dt_size h2 = dt_size ht" "dt_sizemask h2 = dt_sizemask ht"
      "dt_used h2 = sub64 (dt_used ht) 1" "dt_next h2 = dt_next ht"
      using t(1) by (simp_all add: h2_def h1_def set_chain_def dictFreeEntryVal_def dictFreeEntryKey_def)
    have run: "dictDelete ty ht key = Inr (DICT_OK, h2)"
      using False t(2) Some by (simp add: dictDelete_def unlink_key_find Let_def h2_def h1_def)
        (simp add: dictFreeEntryVal_def dictFreeEntryKey_def set_chain_def)
    have m: "mset (entries ht) = add_mset e (mset (entries h2))"
    proof -
      have c: "mset (t ! ?h) = add_mset e (mset (remove1 e (t ! ?h)))" using e(1) by simp
      have "mset (concat (t[?h := remove1 e (t ! ?h)])) + mset (t ! ?h) = mset (concat t) + mset (remove1 e (t ! ?h))"
        by (rule concat_update_mset [OF t(3)])
      then have "mset (concat t) = add_mset e (mset (concat (t[?h := remove1 e (t ! ?h)])))"
        unfolding c by (simp only: union_mset_add_mset_right union_mset_add_mset_left [symmetric] add_right_cancel)
      then show ?thesis using t(1) tab(1) by (simp add: entries_def)
    qed
    have sl: "slots_ok ty h2"
    proof -
      from ok t(1) obtain k where k: "2 \<le> k" "k \<le> 30" "dt_size ht = 2 ^ k" "dt_sizemask ht = 2 ^ k - 1" "placed ty k t"
        by (auto simp: dict_ok_def slots_ok_def)
      have "placed ty k (t[?h := remove1 e (t ! ?h)])"
        using k(5) t(3) set_remove1_subset [of e "t ! ?h"] by (auto simp: placed_def nth_list_update)
      with k tab show ?thesis by (auto simp: slots_ok_def)
    qed
    have "0 < dt_used ht" using ok m by (cases "entries ht") (auto simp: dict_ok_def)
    moreover have "dt_used ht < 2 ^ 64"
    proof -
      from ok t(1) obtain k where k: "k \<le> 30" "dt_size ht = 2 ^ k" by (auto simp: dict_ok_def slots_ok_def)
      then have "(2::nat) ^ k \<le> 2 ^ 30" by (intro power_increasing) auto
      then show ?thesis using ok k by (simp add: dict_ok_def)
    qed
    ultimately have u: "dt_used h2 = dt_used ht - 1" using tab(4) by (simp add: sub64_id)
    from dict_remove [OF ok sl m e(2) u tab(5,2)] run old u e(2)
    show ?thesis by (auto simp: h2_def h1_def set_chain_def dictFreeEntryVal_def dictFreeEntryKey_def)
  qed
qed

end

subsection \<open>Clearing and iterating\<close>

lemma clear_chain_ok:
  assumes "length c \<le> dt_used ht" and "dt_used ht < 2 ^ 64"
  shows "dt_used (clear_chain ty c ht) = dt_used ht - length c \<and> dt_next (clear_chain ty c ht) = dt_next ht \<and>
    dt_freed_keys (clear_chain ty c ht) = dt_freed_keys ht @ (if keyDestructor ty then map de_key c else []) \<and>
    dt_freed_vals (clear_chain ty c ht) = dt_freed_vals ht @ (if valDestructor ty then map de_val c else [])"
  using assms
proof (induction c arbitrary: ht)
  case (Cons e c)
  let ?h = "(dictFreeEntryVal ty e (dictFreeEntryKey ty e ht))\<lparr>dt_used := sub64 (dt_used ht) 1\<rparr>"
  have "dt_used ?h = dt_used ht - 1" using Cons.prems by (simp add: sub64_id)
  then have "length c \<le> dt_used ?h" "dt_used ?h < 2 ^ 64" using Cons.prems by auto
  note IH = Cons.IH [OF this]
  have h: "dt_next ?h = dt_next ht" "dt_freed_keys ?h = dt_freed_keys ht @ (if keyDestructor ty then [de_key e] else [])"
    "dt_freed_vals ?h = dt_freed_vals ht @ (if valDestructor ty then [de_val e] else [])"
    by (simp_all add: dictFreeEntryVal_def dictFreeEntryKey_def)
  have "clear_chain ty (e # c) ht = clear_chain ty c ?h" by (simp add: Let_def del: One_nat_def)
  then show ?case using IH Cons.prems \<open>dt_used ?h = dt_used ht - 1\<close> unfolding h by (simp only:) simp
qed simp

lemma clear_slots_ok:
  assumes "dt_used ht = length (concat cs)" and "dt_used ht < 2 ^ 64"
  shows "dt_next (clear_slots ty cs ht) = dt_next ht \<and>
    dt_freed_keys (clear_slots ty cs ht) = dt_freed_keys ht @ (if keyDestructor ty then map de_key (concat cs) else []) \<and>
    dt_freed_vals (clear_slots ty cs ht) = dt_freed_vals ht @ (if valDestructor ty then map de_val (concat cs) else [])"
  using assms
proof (induction cs arbitrary: ht)
  case (Cons c cs)
  show ?case
  proof (cases "dt_used ht = 0")
    case True
    with Cons.prems have "concat (c # cs) = []" by simp
    with True show ?thesis by (simp only: clear_slots.simps) simp
  next
    case False
    from clear_chain_ok [of c ht ty] Cons.prems have
      c: "dt_used (clear_chain ty c ht) = length (concat cs)" "dt_used (clear_chain ty c ht) < 2 ^ 64"
      "dt_next (clear_chain ty c ht) = dt_next ht"
      "dt_freed_keys (clear_chain ty c ht) = dt_freed_keys ht @ (if keyDestructor ty then map de_key c else [])"
      "dt_freed_vals (clear_chain ty c ht) = dt_freed_vals ht @ (if valDestructor ty then map de_val c else [])" by auto
    from Cons.IH [OF c(1,2)] c(3,4,5) False show ?thesis by simp
  qed
qed simp

lemma dict_used_bound: "dict_ok ty ht \<Longrightarrow> dt_used ht \<le> 2 ^ 30"
proof -
  assume ok: "dict_ok ty ht"
  have "dt_size ht \<le> 2 ^ 30"
  proof (cases "dt_table ht")
    case (Some t)
    with ok obtain k where "k \<le> 30" "dt_size ht = 2 ^ k" by (auto simp: dict_ok_def slots_ok_def)
    then show ?thesis using power_increasing [of k 30 "2::nat"] by simp
  qed (use ok in \<open>simp add: dict_ok_def slots_ok_def\<close>)
  with ok show ?thesis by (simp add: dict_ok_def)
qed

lemma dictClear_ok:
  assumes ok: "dict_ok ty ht"
  shows "\<exists>ht'. dictClear ty ht = Inr (DICT_OK, ht') \<and> dict_ok ty ht' \<and> entries ht' = [] \<and>
    dt_freed_keys ht' = dt_freed_keys ht @ (if keyDestructor ty then map de_key (entries ht) else []) \<and>
    dt_freed_vals ht' = dt_freed_vals ht @ (if valDestructor ty then map de_val (entries ht) else [])"
proof -
  obtain cs where cs: "(if dt_used ht > 0 then table_slots ht else Inr []) = Inr cs" "concat cs = entries ht"
  proof (cases "dt_used ht > 0")
    case True
    then show thesis using table_slots_ok [OF ok] that by auto
  next
    case False
    then have "entries ht = []" using ok by (simp add: dict_ok_def)
    then show thesis using that [of "[]"] False by simp
  qed
  have "dt_used ht = length (concat cs)" "dt_used ht < 2 ^ 64" using ok cs(2) dict_used_bound [OF ok] by (auto simp: dict_ok_def)
  from clear_slots_ok [OF this, of ty] cs show ?thesis
    by (simp add: dictClear_def dictReset_def dict_ok_def slots_ok_def entries_def keys_distinct_def)
qed

lemma next_in_chain_none: "a \<notin> de_addr ` set c \<Longrightarrow> next_in_chain a c = None"
  by (induction c) auto

lemma next_in_chain_at: "de_addr e \<notin> de_addr ` set pre \<Longrightarrow>
    next_in_chain (de_addr e) (pre @ e # suf) = Some (case suf of [] \<Rightarrow> None | b # _ \<Rightarrow> Some b)"
  by (induction pre) auto

abbreviation (input) first_addr :: "('k, 'v) dictEntry list \<Rightarrow> nat option" where
  "first_addr es \<equiv> (case es of [] \<Rightarrow> None | b # _ \<Rightarrow> Some (de_addr b))"

lemma entry_next_at:
  "distinct (map de_addr (concat t)) \<Longrightarrow> i < length t \<Longrightarrow> t ! i = pre @ e # suf \<Longrightarrow>
   entry_next (de_addr e) t = Inr (first_addr suf)"
proof (induction t arbitrary: i)
  case (Cons c t)
  show ?case
  proof (cases i)
    case 0
    with Cons.prems have "c = pre @ e # suf" "de_addr e \<notin> de_addr ` set pre" by auto
    then show ?thesis by (simp add: next_in_chain_at split: list.split)
  next
    case (Suc j)
    with Cons.prems have j: "distinct (map de_addr (concat t))" "j < length t" "t ! j = pre @ e # suf" by auto
    then have "e \<in> set (concat t)" using nth_mem [OF j(2)] by (auto intro!: bexI [of _ "t ! j"])
    then have "de_addr e \<notin> de_addr ` set c" using Cons.prems(1) by auto
    then show ?thesis using Cons.IH [OF j] by (simp add: next_in_chain_none)
  qed
qed simp

definition iter_ok :: "('k, 'v) dict \<Rightarrow> dictIterator \<Rightarrow> ('k, 'v) dictEntry list \<Rightarrow> bool" where
  \<comment> \<open>the iterator has still to visit the entries \<open>rest\<close>\<close>
  "iter_ok ht it rest \<longleftrightarrow> -1 \<le> di_index it \<and>
     (case dt_table ht of
        None \<Rightarrow> rest = [] \<and> di_entry it = None
      | Some t \<Rightarrow>
          (case di_entry it of
             None \<Rightarrow> rest = concat (drop (nat (di_index it + 1)) t)
           | Some a \<Rightarrow> 0 \<le> di_index it \<and> nat (di_index it) < length t \<and>
               (\<exists>pre e suf. t ! nat (di_index it) = pre @ e # suf \<and> de_addr e = a \<and> di_nextEntry it = first_addr suf \<and>
                  rest = suf @ concat (drop (nat (di_index it + 1)) t))))"

lemma visit_ok:
  assumes ok: "dict_ok ty ht" and t: "dt_table ht = Some t" and i: "0 \<le> i" "nat i < length t" "t ! nat i = pre @ e # suf"
  shows "\<exists>it'. visit ht i (de_addr e) = Inr (Some (de_addr e), it') \<and> iter_ok ht it' (suf @ concat (drop (nat (i + 1)) t))"
proof -
  have "distinct (map de_addr (concat t))" using ok t by (simp add: dict_ok_def entries_def)
  from entry_next_at [OF this i(2,3)] show ?thesis using t i by (auto simp: visit_def iter_ok_def)
qed

lemma next_slot_ok:
  shows "dict_ok ty ht \<Longrightarrow> dt_table ht = Some t \<Longrightarrow> -1 \<le> di_index it \<Longrightarrow> di_entry it = None \<Longrightarrow>
    (case concat (drop (nat (di_index it + 1)) t) of
       [] \<Rightarrow> \<exists>it'. next_slot ht it = Inr (None, it') \<and> iter_ok ht it' []
     | e # es \<Rightarrow> \<exists>it'. next_slot ht it = Inr (Some (de_addr e), it') \<and> iter_ok ht it' es)"
proof (induction ht it rule: next_slot.induct)
  case (1 ht it)
  note ok' = "1.prems"(1) and t' = "1.prems"(2)
  let ?i = "di_index it + 1"
  have lt: "length t = dt_size ht" "dt_size ht \<le> 2 ^ 30"
  proof -
    from ok' t' obtain k where "k \<le> 30" "dt_size ht = 2 ^ k" "placed ty k t" by (auto simp: dict_ok_def slots_ok_def)
    then show "length t = dt_size ht" "dt_size ht \<le> 2 ^ 30" using power_increasing [of k 30 "2::nat"] by (auto simp: placed_def)
  qed
  then have sz: "to_int32 (int (dt_size ht)) = int (length t)" by (subst to_int32_id) auto
  show ?case
  proof (cases "int (length t) \<le> ?i")
    case True
    then have "next_slot ht it = Inr (None, it\<lparr>di_index := ?i\<rparr>)" by (simp add: next_slot.simps [of ht it] sz Let_def)
    moreover have "concat (drop (nat ?i) t) = []" "concat (drop (nat (?i + 1)) t) = []" using True by simp_all
    ultimately show ?thesis using "1.prems"(3,4) t' unfolding \<open>concat (drop (nat ?i) t) = []\<close> by (simp add: iter_ok_def)
  next
    case False
    then have n: "0 \<le> ?i" "nat ?i < length t" using "1.prems"(3) by auto
    then have d: "drop (nat ?i) t = t ! nat ?i # drop (nat (?i + 1)) t" 
    proof -
      have "nat (?i + 1) = Suc (nat ?i)" using n(1) by simp
      then show ?thesis using n(2) by (simp only: Cons_nth_drop_Suc)
    qed
    have c: "chain_at ht ?i = Inr (t ! nat ?i)" using n t' by (simp add: chain_at_def)
    show ?thesis
    proof (cases "t ! nat ?i")
      case Nil
      let ?it = "it\<lparr>di_index := ?i, di_entry := None\<rparr>"
      have ns: "next_slot ht it = next_slot ht ?it"
        using False c Nil by (simp add: next_slot.simps [of ht it] sz Let_def)
      have "concat (drop (nat ?i) t) = concat (drop (nat (di_index ?it + 1)) t)" using d Nil by simp
      moreover have "case concat (drop (nat (di_index ?it + 1)) t) of
          [] \<Rightarrow> \<exists>it'. next_slot ht ?it = Inr (None, it') \<and> iter_ok ht it' []
        | e # es \<Rightarrow> \<exists>it'. next_slot ht ?it = Inr (Some (de_addr e), it') \<and> iter_ok ht it' es"
        using "1.IH" [OF refl refl _ c Nil ok' t'] False sz n by simp
      ultimately show ?thesis unfolding ns by (simp only:)
    next
      case (Cons e es)
      have "next_slot ht it = visit ht ?i (de_addr e)" using False c Cons by (simp add: next_slot.simps [of ht it] sz Let_def)
      with visit_ok [OF ok' t' n, of "[]" e es] Cons d show ?thesis by simp
    qed
  qed
qed

lemma dictNext_ok:
  assumes ok: "dict_ok ty ht" and i: "iter_ok ht it rest"
  shows "case rest of [] \<Rightarrow> \<exists>it'. dictNext ht it = Inr (None, it') \<and> iter_ok ht it' []
    | e # es \<Rightarrow> \<exists>it'. dictNext ht it = Inr (Some (de_addr e), it') \<and> iter_ok ht it' es"
proof (cases "dt_table ht")
  case None
  with ok i have n: "dt_size ht = 0" "rest = []" "di_entry it = None" "-1 \<le> di_index it"
    by (auto simp: iter_ok_def dict_ok_def slots_ok_def)
  then have "next_slot ht it = Inr (None, it\<lparr>di_index := di_index it + 1\<rparr>)"
    by (simp add: next_slot.simps [of ht it] to_int32_def Let_def)
  then show ?thesis using n None by (simp add: dictNext_def iter_ok_def)
next
  case (Some t)
  have slot: "case concat (drop (nat (di_index it + 1)) t) of
       [] \<Rightarrow> \<exists>it'. next_slot ht (it\<lparr>di_entry := None\<rparr>) = Inr (None, it') \<and> iter_ok ht it' []
     | e # es \<Rightarrow> \<exists>it'. next_slot ht (it\<lparr>di_entry := None\<rparr>) = Inr (Some (de_addr e), it') \<and> iter_ok ht it' es"
    using next_slot_ok [OF ok Some, of "it\<lparr>di_entry := None\<rparr>"] i by (simp add: iter_ok_def)
  show ?thesis
  proof (cases "di_entry it")
    case None
    then have "it\<lparr>di_entry := None\<rparr> = it" by simp
    moreover have "rest = concat (drop (nat (di_index it + 1)) t)" using i Some None by (simp add: iter_ok_def)
    moreover have "dictNext ht it = next_slot ht it" using None by (simp add: dictNext_def)
    ultimately show ?thesis using slot by (simp only:)
  next
    case (Some a)
    with i \<open>dt_table ht = Some t\<close> obtain pre e suf where
      e: "t ! nat (di_index it) = pre @ e # suf" "di_nextEntry it = first_addr suf" "0 \<le> di_index it" "nat (di_index it) < length t"
      "rest = suf @ concat (drop (nat (di_index it + 1)) t)" by (auto simp: iter_ok_def)
    show ?thesis
    proof (cases suf)
      case Nil
      with e(2,5) Some have "dictNext ht it = next_slot ht (it\<lparr>di_entry := None\<rparr>)" "rest = concat (drop (nat (di_index it + 1)) t)"
        by (simp_all add: dictNext_def)
      with slot show ?thesis by (simp only:)
    next
      case (Cons b bs)
      with e(1) have "t ! nat (di_index it) = (pre @ [e]) @ b # bs" by simp
      from visit_ok [OF ok \<open>dt_table ht = Some t\<close> e(3,4) this] Cons e(2,5) Some show ?thesis by (simp add: dictNext_def)
    qed
  qed
qed

fun iterate :: "('k, 'v) dict \<Rightarrow> nat \<Rightarrow> dictIterator \<Rightarrow> nat list res" where
  \<comment> \<open>the addresses that up to \<open>n\<close> calls of \<open>dictNext\<close> return\<close>
  "iterate ht 0 it = Inr []"
| "iterate ht (Suc n) it =
     bindE (dictNext ht it) (\<lambda>(a, it). case a of None \<Rightarrow> Inr [] | Some a \<Rightarrow> bindE (iterate ht n it) (\<lambda>as. Inr (a # as)))"

lemma iterate_ok:
  "dict_ok ty ht \<Longrightarrow> iter_ok ht it rest \<Longrightarrow> length rest < n \<Longrightarrow> iterate ht n it = Inr (map de_addr rest)"
proof (induction n arbitrary: it rest)
  case (Suc n)
  show ?case
  proof (cases rest)
    case Nil
    with dictNext_ok [OF Suc.prems(1,2)] show ?thesis by auto
  next
    case (Cons e es)
    with dictNext_ok [OF Suc.prems(1,2)] obtain it' where
      "dictNext ht it = Inr (Some (de_addr e), it')" "iter_ok ht it' es" by auto
    with Suc.IH [of it' es] Suc.prems(1,3) Cons show ?thesis by simp
  qed
qed simp

lemma iterator_start:
  "grants_all mal \<Longrightarrow> \<exists>it. dictGetIterator mal = Inr it \<and> iter_ok ht it (entries ht)"
  by (auto simp: dictGetIterator_def grants_all_def iter_ok_def entries_def split: option.splits)

subsection \<open>Properties\<close>

datatype ('k, 'v) dict_op = OpAdd 'k 'v | OpReplace 'k 'v | OpDelete 'k

fun dict_exec :: "('k, 'v) dictType \<Rightarrow> allocator \<Rightarrow> ('k, 'v) dict_op \<Rightarrow> ('k, 'v) dict \<Rightarrow> (int \<times> ('k, 'v) dict) res" where
  "dict_exec ty mal (OpAdd k v) ht = dictAdd ty mal ht k v"
| "dict_exec ty mal (OpReplace k v) ht = dictReplace ty mal ht k v"
| "dict_exec ty mal (OpDelete k) ht = dictDelete ty ht k"

fun dict_run :: "('k, 'v) dictType \<Rightarrow> allocator \<Rightarrow> ('k, 'v) dict_op list \<Rightarrow> ('k, 'v) dict \<Rightarrow> (int list \<times> ('k, 'v) dict) res" where
  "dict_run ty mal [] ht = Inr ([], ht)"
| "dict_run ty mal (op # ops) ht =
     bindE (dict_exec ty mal op ht) (\<lambda>(st, ht). bindE (dict_run ty mal ops ht) (\<lambda>(sts, ht). Inr (st # sts, ht)))"

text \<open>The abstract operations, on finite maps over keys up to the comparison of the type.\<close>

definition map_put :: "('k, 'v) dictType \<Rightarrow> 'k \<Rightarrow> 'v option \<Rightarrow> ('k \<Rightarrow> 'v option) \<Rightarrow> 'k \<Rightarrow> 'v option" where
  "map_put ty key x m = (\<lambda>k. if dictCompareHashKeys ty k key then x else m k)"

fun map_exec :: "('k, 'v) dictType \<Rightarrow> ('k, 'v) dict_op \<Rightarrow> ('k \<Rightarrow> 'v option) \<Rightarrow> int \<times> ('k \<Rightarrow> 'v option)" where
  "map_exec ty (OpAdd k v) m =
     (if m k = None then (DICT_OK, map_put ty k (Some (dictSetHashVal ty v)) m) else (DICT_ERR, m))"
| "map_exec ty (OpReplace k v) m = ((if m k = None then 1 else 0), map_put ty k (Some (dictSetHashVal ty v)) m)"
| "map_exec ty (OpDelete k) m = (if m k = None then (DICT_ERR, m) else (DICT_OK, map_put ty k None m))"

fun map_run :: "('k, 'v) dictType \<Rightarrow> ('k, 'v) dict_op list \<Rightarrow> ('k \<Rightarrow> 'v option) \<Rightarrow> int list \<times> ('k \<Rightarrow> 'v option)" where
  "map_run ty [] m = ([], m)"
| "map_run ty (op # ops) m = (case map_exec ty op m of (st, m) \<Rightarrow> case map_run ty ops m of (sts, m) \<Rightarrow> (st # sts, m))"

context dict_type begin

lemma dict_exec_ok:
  assumes "dict_ok ty ht" and "dt_used ht < 2 ^ 30" and "grants_all mal"
  shows "\<exists>st ht'. dict_exec ty mal op ht = Inr (st, ht') \<and> dict_ok ty ht' \<and> dt_used ht' \<le> dt_used ht + 1 \<and>
    map_exec ty op (dict_map ty ht) = (st, dict_map ty ht')"
proof (cases op)
  case (OpAdd k v)
  from dictAdd_ok [OF assms, of k v] obtain st ht' where a: "dictAdd ty mal ht k v = Inr (st, ht')" "dict_ok ty ht'"
    "if dict_map ty ht k = None
     then st = DICT_OK \<and> dt_used ht' = dt_used ht + 1 \<and>
       dict_map ty ht' = (\<lambda>x. if eqk x k then Some (dictSetHashVal ty v) else dict_map ty ht x)
     else st = DICT_ERR \<and> dt_used ht' = dt_used ht \<and> dict_map ty ht' = dict_map ty ht" by blast
  then show ?thesis unfolding OpAdd by (cases "dict_map ty ht k") (simp_all add: map_put_def)
next
  case (OpReplace k v)
  from dictReplace_ok [OF assms, of k v] obtain st ht' where a: "dictReplace ty mal ht k v = Inr (st, ht')" "dict_ok ty ht'"
    "dict_map ty ht' = (\<lambda>x. if eqk x k then Some (dictSetHashVal ty v) else dict_map ty ht x)"
    "case dict_map ty ht k of
       None \<Rightarrow> st = 1 \<and> dt_used ht' = dt_used ht + 1 \<and> dt_freed_vals ht' = dt_freed_vals ht
     | Some old \<Rightarrow> st = 0 \<and> dt_used ht' = dt_used ht \<and>
         dt_freed_vals ht' = dt_freed_vals ht @ (if valDestructor ty then [old] else [])" by blast
  then show ?thesis unfolding OpReplace by (cases "dict_map ty ht k") (simp_all add: map_put_def)
next
  case (OpDelete k)
  from dictDelete_ok [OF assms(1), of k] obtain st ht' where a: "dictDelete ty ht k = Inr (st, ht')" "dict_ok ty ht'"
    "dict_map ty ht k = None \<longrightarrow> st = DICT_ERR \<and> ht' = ht"
    "dict_map ty ht k \<noteq> None \<longrightarrow> st = DICT_OK \<and> dt_used ht' = dt_used ht - 1 \<and>
       dict_map ty ht' = (\<lambda>x. if eqk x k then None else dict_map ty ht x)" by (auto split: option.splits)
  then show ?thesis unfolding OpDelete by (cases "dict_map ty ht k") (simp_all add: map_put_def)
qed

lemma dict_run_ok:
  assumes g: "grants_all mal"
  shows "dict_ok ty ht \<Longrightarrow> dt_used ht + length ops \<le> 2 ^ 30 \<Longrightarrow>
    \<exists>sts ht'. dict_run ty mal ops ht = Inr (sts, ht') \<and> dict_ok ty ht' \<and>
      map_run ty ops (dict_map ty ht) = (sts, dict_map ty ht')"
proof (induction ops arbitrary: ht)
  case (Cons op ops)
  then have "dt_used ht < 2 ^ 30" by simp
  from dict_exec_ok [OF Cons.prems(1) this g, of op] obtain st h1 where
    h1: "dict_exec ty mal op ht = Inr (st, h1)" "dict_ok ty h1" "dt_used h1 \<le> dt_used ht + 1"
    "map_exec ty op (dict_map ty ht) = (st, dict_map ty h1)" by blast
  have "dt_used h1 + length ops \<le> 2 ^ 30" using h1(3) Cons.prems(2) by simp
  from Cons.IH [OF h1(2) this] h1 show ?case by auto
qed simp

end

text \<open>
  C29. The hash table is a finite map: every run of \<open>dictAdd\<close>, \<open>dictReplace\<close> and \<open>dictDelete\<close>, with all the
  growing of the table it causes, returns what the same run on a map returns and leaves the table
  with the entries of that map, for every type whose functions keep their contract.
\<close>

theorem dict_runs_refine:
  assumes "dict_type ty" and "grants_all mal" and "dict_ok ty ht" and "dt_used ht + length ops \<le> 2 ^ 30"
  shows "\<exists>sts ht'. dict_run ty mal ops ht = Inr (sts, ht') \<and> dict_ok ty ht' \<and>
    map_run ty ops (dict_map ty ht) = (sts, dict_map ty ht')"
  by (rule dict_type.dict_run_ok) (use assms in auto)

definition plain_type :: "(nat, 'v) dictType" where
  \<comment> \<open>numbers as keys, hashed by themselves and compared as pointers\<close>
  "plain_type = \<lparr>hashFunction = (\<lambda>k. k), keyDup = None, valDup = None, keyCompare = None, keyDestructor = False, valDestructor = True\<rparr>"

interpretation plain_dict: dict_type plain_type
  by unfold_locales (auto simp: plain_type_def dictCompareHashKeys_def dictSetHashKey_def)

lemma dictCreate_ok: "grants_all mal \<Longrightarrow> \<exists>ht. dictCreate mal = Inr ht \<and> dict_ok ty ht \<and> entries ht = [] \<and> dt_used ht = 0 \<and>
    dt_freed_keys ht = [] \<and> dt_freed_vals ht = []"
  by (auto simp: dictCreate_def grants_all_def dictInit_def dictReset_def dict_ok_def slots_ok_def entries_def keys_distinct_def
    split: option.splits)

theorem dict_runs_refine_witness:
  "\<exists>ht ht'. dictCreate zero_alloc = Inr ht \<and>
     dict_run plain_type zero_alloc [OpAdd 1 ''a'', OpAdd 5 ''b'', OpAdd 1 ''c'', OpReplace 5 ''d'', OpDelete 1, OpDelete 9] ht =
       Inr ([0, 0, 1, 0, 0, 1], ht') \<and> dict_map plain_type ht' 5 = Some ''d'' \<and> dict_map plain_type ht' 1 = None"
proof -
  let ?ops = "[OpAdd 1 ''a'', OpAdd 5 ''b'', OpAdd 1 ''c'', OpReplace 5 ''d'', OpDelete 1, OpDelete 9] :: (nat, string) dict_op list"
  obtain ht :: "(nat, string) dict" where ht: "dictCreate zero_alloc = Inr ht" "dict_ok plain_type ht" "entries ht = []" "dt_used ht = 0"
    using dictCreate_ok [OF grants_all_zero_alloc, of plain_type] by blast
  have "dt_used ht + length ?ops \<le> 2 ^ 30" using ht(4) by simp
  from dict_runs_refine [OF plain_dict.dict_type_axioms grants_all_zero_alloc ht(2) this] obtain sts ht' where
    r: "dict_run plain_type zero_alloc ?ops ht = Inr (sts, ht')" "map_run plain_type ?ops (dict_map plain_type ht) = (sts, dict_map plain_type ht')"
    by blast
  have "dict_map plain_type ht = (\<lambda>_. None)" using ht(3) by (auto simp: dict_map_def)
  with r(2) have m: "sts = [0, 0, 1, 0, 0, 1]" "dict_map plain_type ht' = map_put plain_type 1 None (map_put plain_type 5 (Some ''d'')
      (map_put plain_type 5 (Some ''b'') (map_put plain_type 1 (Some ''a'') (\<lambda>_. None))))"
    by (auto simp: map_put_def plain_type_def dictCompareHashKeys_def dictSetHashVal_def)
  have "dict_map plain_type ht' 5 = Some ''d''" "dict_map plain_type ht' 1 = None"
    unfolding m(2) by (simp_all add: map_put_def plain_type_def dictCompareHashKeys_def)
  with ht(1) r(1) m(1) show ?thesis by blast
qed

text \<open>
  \<open>dictRelease\<close> calls the destructors of the type on every key and every value of the table,
  exactly once each, in the order of the slots.
\<close>

theorem dictRelease_destroys:
  assumes "dict_ok ty ht"
  shows "\<exists>ht'. dictRelease ty ht = Inr ht' \<and>
    dt_freed_keys ht' = dt_freed_keys ht @ (if keyDestructor ty then map de_key (entries ht) else []) \<and>
    dt_freed_vals ht' = dt_freed_vals ht @ (if valDestructor ty then map de_val (entries ht) else [])"
  using dictClear_ok [OF assms] by (auto simp: dictRelease_def)

theorem dictRelease_destroys_witness:
  "\<exists>ht h1 h2. dictCreate zero_alloc = Inr ht \<and> dictAdd plain_type zero_alloc ht 3 ''x'' = Inr (DICT_OK, h1) \<and>
     dictRelease plain_type h1 = Inr h2 \<and> length (dt_freed_vals h2) = 1"
proof -
  obtain ht :: "(nat, string) dict" where ht: "dictCreate zero_alloc = Inr ht" "dict_ok plain_type ht" "entries ht = []" "dt_used ht = 0"
    "dt_freed_vals ht = []" using dictCreate_ok [OF grants_all_zero_alloc, of plain_type] by blast
  have "dict_map plain_type ht 3 = None" "dt_used ht < 2 ^ 30" using ht(3,4) by (simp_all add: dict_map_def)
  with plain_dict.dictAdd_ok [OF ht(2) _ grants_all_zero_alloc, of 3 "''x''"] obtain h1 where
    h1: "dictAdd plain_type zero_alloc ht 3 ''x'' = Inr (DICT_OK, h1)" "dict_ok plain_type h1" "dt_used h1 = 1" "dt_freed_vals h1 = []"
    using ht(4,5) by auto
  have "length (entries h1) = 1" using h1(2,3) by (simp add: dict_ok_def)
  with dictRelease_destroys [OF h1(2)] h1(4) ht(1) h1(1) show ?thesis by (auto simp: plain_type_def)
qed

text \<open>
  C30. An iterator visits every entry of the table exactly once and then returns NULL: the
  addresses that its calls return are those of the entries, without repetition.
\<close>

theorem dictNext_visits_all:
  assumes "dict_ok ty ht" and "grants_all mal" and "dt_used ht < n"
  shows "\<exists>it. dictGetIterator mal = Inr it \<and> iterate ht n it = Inr (map de_addr (entries ht)) \<and> distinct (map de_addr (entries ht))"
proof -
  from iterator_start [OF assms(2), of ht] obtain it where "dictGetIterator mal = Inr it" "iter_ok ht it (entries ht)" by blast
  with iterate_ok [OF assms(1), of it "entries ht" n] assms(1,3) show ?thesis by (auto simp: dict_ok_def)
qed

theorem dictNext_visits_all_witness:
  "\<exists>ht h1 it a. dictCreate zero_alloc = Inr ht \<and> dictAdd plain_type zero_alloc ht 3 ''x'' = Inr (DICT_OK, h1) \<and>
     dictGetIterator zero_alloc = Inr it \<and> iterate h1 2 it = Inr [a]"
proof -
  obtain ht :: "(nat, string) dict" where ht: "dictCreate zero_alloc = Inr ht" "dict_ok plain_type ht" "entries ht = []" "dt_used ht = 0"
    using dictCreate_ok [OF grants_all_zero_alloc, of plain_type] by blast
  have "dict_map plain_type ht 3 = None" "dt_used ht < 2 ^ 30" using ht(3,4) by (simp_all add: dict_map_def)
  with plain_dict.dictAdd_ok [OF ht(2) _ grants_all_zero_alloc, of 3 "''x''"] obtain h1 where
    h1: "dictAdd plain_type zero_alloc ht 3 ''x'' = Inr (DICT_OK, h1)" "dict_ok plain_type h1" "dt_used h1 = 1"
    using ht(4) by auto
  then obtain e where "entries h1 = [e]" by (cases "entries h1") (auto simp: dict_ok_def)
  with dictNext_visits_all [OF h1(2) grants_all_zero_alloc, of 2] h1(3) ht(1) h1(1) show ?thesis by auto
qed

end
