(* ===== verification/Async.thy ===== *)
theory Async
  imports ConnSpec Dict
begin

unbundle bit_operations_syntax

section \<open>The asynchronous interface (hiredis/async.c)\<close>

text \<open>
  A connection driven by events: commands with callbacks, the queues of callbacks, the tables of
  subscriptions, the handlers for a readable and a writable socket and the ways in which a context
  ends. The callbacks of the user are a parameter: given the reply, they choose a sequence of calls
  of this interface. What the user and the event library see is a list of events. A context that
  was freed is None, and a use of it cannot be expressed but as the failure \<open>OutOfBounds\<close>.
\<close>

subsection \<open>Lists of callbacks\<close>

record redisCallback =
  cb_next :: "nat option"
  cb_fn :: nat
  cb_privdata :: nat

record redisCallbackList =
  cl_head :: "nat option"
  cl_tail :: "nat option"
  cl_nodes :: "nat \<Rightarrow> redisCallback option"
  cl_fresh :: nat

definition null_callback :: redisCallback where
  "null_callback = \<lparr>cb_next = None, cb_fn = 0, cb_privdata = 0\<rparr>"

definition empty_callbacks :: redisCallbackList where
  "empty_callbacks = \<lparr>cl_head = None, cl_tail = None, cl_nodes = (\<lambda>_. None), cl_fresh = 0\<rparr>"

definition redisPushCallback :: "allocator \<Rightarrow> redisCallbackList \<Rightarrow> redisCallback \<Rightarrow> (int \<times> redisCallbackList) res" where
  "redisPushCallback mal l source =
     (case mal 24 of
        None \<Rightarrow> Inr (REDIS_ERR_OOM, l)
      | Some _ \<Rightarrow>
          let cb = cl_fresh l;
              l = l\<lparr>cl_nodes := (cl_nodes l)(cb \<mapsto> source\<lparr>cb_next := None\<rparr>), cl_fresh := Suc cb\<rparr>;
              l = (if cl_head l = None then l\<lparr>cl_head := Some cb\<rparr> else l)
          in bindE (case cl_tail l of
                      None \<Rightarrow> Inr l
                    | Some t \<Rightarrow> (case cl_nodes l t of
                        None \<Rightarrow> Inl OutOfBounds
                      | Some n \<Rightarrow> Inr (l\<lparr>cl_nodes := (cl_nodes l)(t \<mapsto> n\<lparr>cb_next := Some cb\<rparr>)\<rparr>))) (\<lambda>l.
             Inr (REDIS_OK, l\<lparr>cl_tail := Some cb\<rparr>)))"

definition redisShiftCallback :: "redisCallbackList \<Rightarrow> (int \<times> redisCallback option \<times> redisCallbackList) res" where
  \<comment> \<open>the status and \<open>*target\<close>, which is stored only if there is a callback\<close>
  "redisShiftCallback l =
     (case cl_head l of
        None \<Rightarrow> Inr (REDIS_ERR, None, l)
      | Some cb \<Rightarrow>
          (case cl_nodes l cb of
             None \<Rightarrow> Inl OutOfBounds
           | Some n \<Rightarrow>
               let l = l\<lparr>cl_head := cb_next n\<rparr>;
                   l = (if Some cb = cl_tail l then l\<lparr>cl_tail := None\<rparr> else l)
               in Inr (REDIS_OK, Some n, l\<lparr>cl_nodes := (cl_nodes l)(cb := None)\<rparr>)))"

subsection \<open>The tables of subscriptions\<close>

text \<open>Channels and patterns are strings whose length fits the \<open>int\<close> variables of the comparison.\<close>

typedef channel = "{s :: char list. length s < 2 ^ 31}"
  morphisms chan_bytes Abs_channel
  by (intro exI [of _ "[]"]) simp

setup_lifting type_definition_channel

lift_definition chan_prefix :: "char list \<Rightarrow> channel" is "take (2 ^ 31 - 1)"
  by simp

definition channel_of :: "char list \<Rightarrow> channel res" where
  "channel_of s = (if length s < 2 ^ 31 then Inr (chan_prefix s) else Inl OutOfBounds)"

definition callbackHash :: "char list \<Rightarrow> nat" where
  "callbackHash key = dictGenHashFunction key 5381"

definition callbackValDup :: "redisCallback \<Rightarrow> redisCallback" where
  "callbackValDup src = src"

definition callbackKeyCompare :: "char list \<Rightarrow> char list \<Rightarrow> bool" where
  "callbackKeyCompare key1 key2 \<longleftrightarrow>
     (let l1 = to_int32 (int (length key1)); l2 = to_int32 (int (length key2))
      in l1 = l2 \<and> take (nat (l1 mod 2 ^ 64)) key1 = take (nat (l1 mod 2 ^ 64)) key2)"

definition callbackDict :: "(channel, redisCallback) dictType" where
  "callbackDict = \<lparr>hashFunction = (\<lambda>k. callbackHash (chan_bytes k)), keyDup = None, valDup = Some callbackValDup,
     keyCompare = Some (\<lambda>k1 k2. callbackKeyCompare (chan_bytes k1) (chan_bytes k2)), keyDestructor = True, valDestructor = True\<rparr>"

subsection \<open>The context\<close>

record redisAsyncContext =
  a_c :: redisContext
  a_err :: int
  a_errstr :: bool \<comment> \<open>NULL, or the pointer to the text in \<open>a_c\<close>\<close>
  a_addRead :: bool
  a_delRead :: bool
  a_addWrite :: bool
  a_delWrite :: bool
  a_cleanup :: bool
  a_onDisconnect :: bool
  a_onConnect :: bool
  a_replies :: redisCallbackList
  a_invalid :: redisCallbackList
  a_channels :: "(channel, redisCallback) dict option"
  a_patterns :: "(channel, redisCallback) dict option"

datatype event =
    EvCallback nat nat nat
  | EvConnect int
  | EvDisconnect int
  | EvAddRead
  | EvDelRead
  | EvAddWrite
  | EvDelWrite
  | EvCleanup

record 'u env =
  e_heap :: reply_heap
  e_world :: world
  e_events :: "event list"
  e_user :: 'u

datatype action = ACommand nat nat "char list" nat | ADisconnect | AFree

type_synonym 'u callbacks = "nat \<Rightarrow> nat \<Rightarrow> nat \<Rightarrow> reply_heap \<Rightarrow> 'u \<Rightarrow> action list \<times> 'u"

definition emit :: "event \<Rightarrow> 'u env \<Rightarrow> 'u env" where
  "emit ev e = e\<lparr>e_events := e_events e @ [ev]\<rparr>"

definition hook :: "bool \<Rightarrow> event \<Rightarrow> 'u env \<Rightarrow> 'u env" where
  \<comment> \<open>a hook of the event library, if it is set\<close>
  "hook present ev e = (if present then emit ev e else e)"

definition upd_c :: "(redisContext \<Rightarrow> redisContext) \<Rightarrow> redisAsyncContext \<Rightarrow> redisAsyncContext" where
  "upd_c f ac = ac\<lparr>a_c := f (a_c ac)\<rparr>"

abbreviation (input) a_flag :: "redisAsyncContext \<Rightarrow> 32 word \<Rightarrow> bool" where
  "a_flag ac m \<equiv> flag_set (a_c ac) m"

definition redisAsyncInitialize :: "allocator \<Rightarrow> redisContext \<Rightarrow> redisAsyncContext option res" where
  "redisAsyncInitialize mal c =
     (case mal 376 of
        None \<Rightarrow> Inr None
      | Some _ \<Rightarrow>
          bindE (dictCreate mal) (\<lambda>channels.
          bindE (dictCreate mal) (\<lambda>patterns.
          Inr (Some \<lparr>a_c = clear_flag REDIS_CONNECTED c, a_err = 0, a_errstr = False, a_addRead = False, a_delRead = False,
            a_addWrite = False, a_delWrite = False, a_cleanup = False, a_onDisconnect = False, a_onConnect = False,
            a_replies = empty_callbacks, a_invalid = empty_callbacks, a_channels = Some channels, a_patterns = Some patterns\<rparr>))))"

definition redisAsyncCopyError :: "redisAsyncContext \<Rightarrow> redisAsyncContext" where
  "redisAsyncCopyError ac = ac\<lparr>a_err := c_err (a_c ac), a_errstr := True\<rparr>"

definition async_of ::
  "os \<Rightarrow> allocator \<Rightarrow> redisContext option \<times> world \<Rightarrow> reply_heap \<Rightarrow> (redisAsyncContext option \<times> world) res" where
  \<comment> \<open>the context made asynchronous, or freed when memory is exhausted\<close>
  "async_of os mal r h =
     (case r of
        (None, w) \<Rightarrow> Inr (None, w)
      | (Some c, w) \<Rightarrow>
          bindE (redisAsyncInitialize mal c) (\<lambda>ac.
          case ac of
            None \<Rightarrow> bindE (redisFree os (defaultFunctions mal) (Some c) h w) (\<lambda>(h, w). Inr (None, w))
          | Some ac \<Rightarrow> Inr (Some (redisAsyncCopyError ac), w)))"

definition redisAsyncConnect ::
  "os \<Rightarrow> allocator \<Rightarrow> char list \<Rightarrow> int \<Rightarrow> reply_heap \<Rightarrow> world \<Rightarrow> (redisAsyncContext option \<times> world) res" where
  "redisAsyncConnect os mal ip port h w = bindE (redisConnectNonBlock os mal ip port w) (\<lambda>r. async_of os mal r h)"

definition async_of_unchecked ::
  "allocator \<Rightarrow> redisContext option \<times> world \<Rightarrow> (redisAsyncContext option \<times> world) res" where
  \<comment> \<open>the same without the tests for NULL\<close>
  "async_of_unchecked mal r =
     (case r of
        (None, w) \<Rightarrow> if mal 376 = None then Inr (None, w) else Inl OutOfBounds
      | (Some c, w) \<Rightarrow> bindE (redisAsyncInitialize mal c) (\<lambda>ac. Inr (map_option redisAsyncCopyError ac, w)))"

definition redisAsyncConnectBind ::
  "os \<Rightarrow> allocator \<Rightarrow> char list \<Rightarrow> int \<Rightarrow> char list \<Rightarrow> world \<Rightarrow> (redisAsyncContext option \<times> world) res" where
  "redisAsyncConnectBind os mal ip port source_addr w =
     bindE (redisConnectBindNonBlock os mal ip port source_addr w) (async_of_unchecked mal)"

definition redisAsyncConnectBindWithReuse ::
  "os \<Rightarrow> allocator \<Rightarrow> char list \<Rightarrow> int \<Rightarrow> char list \<Rightarrow> world \<Rightarrow> (redisAsyncContext option \<times> world) res" where
  "redisAsyncConnectBindWithReuse os mal ip port source_addr w =
     bindE (redisConnectBindNonBlockWithReuse os mal ip port source_addr w) (async_of_unchecked mal)"

definition redisAsyncConnectUnix ::
  "os \<Rightarrow> allocator \<Rightarrow> char list \<Rightarrow> reply_heap \<Rightarrow> world \<Rightarrow> (redisAsyncContext option \<times> world) res" where
  "redisAsyncConnectUnix os mal path h w = bindE (redisConnectUnixNonBlock os mal path w) (\<lambda>r. async_of os mal r h)"

definition redisAsyncSetConnectCallback :: "redisAsyncContext \<Rightarrow> 'u env \<Rightarrow> int \<times> redisAsyncContext \<times> 'u env" where
  \<comment> \<open>setting a function other than NULL\<close>
  "redisAsyncSetConnectCallback ac e =
     (if \<not> a_onConnect ac then (REDIS_OK, ac\<lparr>a_onConnect := True\<rparr>, hook (a_addWrite ac) EvAddWrite e) else (REDIS_ERR, ac, e))"

definition redisAsyncSetDisconnectCallback :: "redisAsyncContext \<Rightarrow> int \<times> redisAsyncContext" where
  "redisAsyncSetDisconnectCallback ac =
     (if \<not> a_onDisconnect ac then (REDIS_OK, ac\<lparr>a_onDisconnect := True\<rparr>) else (REDIS_ERR, ac))"

subsection \<open>Commands\<close>

definition user_fn :: "nat \<Rightarrow> nat \<Rightarrow> redisCallback" where
  \<comment> \<open>a callback on the stack; the function 0 is NULL; \<open>next\<close> is not used before it is set\<close>
  "user_fn fn privdata = \<lparr>cb_next = None, cb_fn = fn, cb_privdata = privdata\<rparr>"

fun find_char :: "char \<Rightarrow> char list \<Rightarrow> nat option res" where
  \<comment> \<open>\<open>strchr\<close> from the start of a block\<close>
  "find_char c [] = Inl OutOfBounds"
| "find_char c (x # xs) =
     (if x = c then Inr (Some 0) else if x = NUL then Inr None else bindE (find_char c xs) (\<lambda>i. Inr (map_option Suc i)))"

definition strtol10 :: "char list \<Rightarrow> int res" where
  \<comment> \<open>\<open>strtol\<close> in base 10, which saturates; the byte that ends the number is read as well\<close>
  "strtol10 s =
     (let s = dropWhile isspace s;
          (neg, s) = (case s of c # cs \<Rightarrow> if c = CHR ''-'' then (True, cs) else if c = CHR ''+'' then (False, cs) else (False, s)
                              | [] \<Rightarrow> (False, []));
          v = int (dec_val (takeWhile is_digit s))
      in if dropWhile is_digit s = [] then Inl OutOfBounds
         else Inr (if neg then max (- (2 ^ 63)) (- v) else min (2 ^ 63 - 1) v))"

definition argument_at :: "char list \<Rightarrow> nat \<Rightarrow> (nat \<times> nat \<times> nat) res" where
  \<comment> \<open>for the \<open>$\<close> at offset \<open>p\<close>: the offsets of what follows the argument and of the argument, and its length.
     An offset before the command cannot be dereferenced, which the callers do next\<close>
  "argument_at cmd p =
     bindE (strtol10 (drop (p + 1) cmd)) (\<lambda>n.
     bindE (find_char (CHR 0x0D) (drop p cmd)) (\<lambda>i.
     case i of
       None \<Rightarrow> Inl AssertFailed
     | Some i \<Rightarrow>
         if int (p + i) + 2 + to_int32 n + 2 < 0 then Inl OutOfBounds
         else Inr (nat (int (p + i) + 2 + to_int32 n + 2), p + i + 2, nat (to_int32 n mod 2 ^ 64))))"

definition nextArgument :: "char list \<Rightarrow> nat \<Rightarrow> (nat \<times> nat \<times> nat) option res" where
  "nextArgument cmd start =
     bindE (peek cmd start) (\<lambda>c.
     bindE (if c \<noteq> CHR ''$'' then bindE (find_char (CHR ''$'') (drop start cmd)) (\<lambda>i. Inr (map_option ((+) start) i))
            else Inr (Some start)) (\<lambda>p.
     case p of
       None \<Rightarrow> Inr None
     | Some p \<Rightarrow> bindE (argument_at cmd p) (\<lambda>a. Inr (Some a))))"

fun strncasecmp_eq :: "char list \<Rightarrow> char list \<Rightarrow> bool res" where
  \<comment> \<open>\<open>strncasecmp(s, lit, strlen(lit)) == 0\<close>, which stops at the first difference\<close>
  "strncasecmp_eq s [] = Inr True"
| "strncasecmp_eq [] (l # ls) = Inl OutOfBounds"
| "strncasecmp_eq (c # s) (l # ls) = (if c_tolower c = c_tolower l then strncasecmp_eq s ls else Inr False)"

definition push_replies :: "allocator \<Rightarrow> redisCallback \<Rightarrow> redisAsyncContext \<Rightarrow> redisAsyncContext res" where
  "push_replies mal cb ac = bindE (redisPushCallback mal (a_replies ac) cb) (\<lambda>(_, l). Inr (ac\<lparr>a_replies := l\<rparr>))"

definition push_invalid :: "allocator \<Rightarrow> redisCallback \<Rightarrow> redisAsyncContext \<Rightarrow> redisAsyncContext res" where
  "push_invalid mal cb ac = bindE (redisPushCallback mal (a_invalid ac) cb) (\<lambda>(_, l). Inr (ac\<lparr>a_invalid := l\<rparr>))"

definition pubsub_table :: "bool \<Rightarrow> redisAsyncContext \<Rightarrow> (channel, redisCallback) dict res" where
  "pubsub_table pvariant ac =
     (case (if pvariant then a_patterns ac else a_channels ac) of None \<Rightarrow> Inl OutOfBounds | Some ht \<Rightarrow> Inr ht)"

definition set_pubsub_table :: "bool \<Rightarrow> (channel, redisCallback) dict \<Rightarrow> redisAsyncContext \<Rightarrow> redisAsyncContext" where
  "set_pubsub_table pvariant ht ac = (if pvariant then ac\<lparr>a_patterns := Some ht\<rparr> else ac\<lparr>a_channels := Some ht\<rparr>)"

definition subscribe_one :: "allocator \<Rightarrow> bool \<Rightarrow> redisCallback \<Rightarrow> sdshdr \<Rightarrow> redisAsyncContext \<Rightarrow> redisAsyncContext res" where
  "subscribe_one mal pvariant cb sname ac =
     bindE (pubsub_table pvariant ac) (\<lambda>callbacks.
     bindE (channel_of (sdsval sname)) (\<lambda>key.
     bindE (dictReplace callbackDict mal callbacks key cb) (\<lambda>(_, callbacks).
     Inr (set_pubsub_table pvariant callbacks ac))))"

lemma poke_fits: "poke b off xs = Inr b' \<Longrightarrow> length b' = length b \<and> off + length xs \<le> length b"
  by (auto simp: poke_def split: if_splits)

lemma sdsnewlen_huge:
  assumes "sdsnewlen mal (Some t) n = Inr s" and "2 ^ 32 \<le> n" and "n < 2 ^ 64"
  shows "length (sdsval s) = n"
proof -
  have ty: "sdsReqType n = SDS_TYPE_64" using assms(2) by (simp add: sdsReqType_def)
  from assms(1) ty assms(2,3) have "hlen s = n \<and> n \<le> length (hbuf s)"
    by (auto simp: sdsnewlen_def Let_def sds_memcpy_def sds_poke_def bindE_Inr_iff dest!: poke_fits split: if_splits)
  then show ?thesis by (simp add: sdsval_def)
qed

lemma subscribe_one_small:
  "subscribe_one mal pv cb s ac = Inr ac' \<Longrightarrow> length (sdsval s) < 2 ^ 31"
  by (auto simp: subscribe_one_def channel_of_def bindE_Inr_iff split: if_splits)

lemma argument_at_forward:
  assumes "argument_at cmd p = Inr (p', astr, alen)"
  shows "alen < 2 ^ 64" "alen < 2 ^ 32 \<Longrightarrow> p < p'"
proof -
  from assms obtain n i where q: "alen = nat (to_int32 n mod 2 ^ 64)" "p' = nat (int (p + i) + 2 + to_int32 n + 2)"
    by (force simp: argument_at_def bindE_Inr_iff split: if_splits option.splits)
  then show "alen < 2 ^ 64" by (auto simp: nat_less_iff)
  assume "alen < 2 ^ 32"
  moreover have "- (2 ^ 31) \<le> to_int32 n" "to_int32 n < 2 ^ 31" by (simp_all add: to_int32_def)
  moreover have "to_int32 n mod 2 ^ 64 = to_int32 n + 2 ^ 64" if "to_int32 n < 0" "- (2 ^ 31) \<le> to_int32 n"
    using that by (subst mod_add_self2 [symmetric], intro mod_pos_pos_trivial) auto
  ultimately have "0 \<le> to_int32 n" using q(1) by (cases "0 \<le> to_int32 n") auto
  then show "p < p'" using q(2) by simp
qed

lemma nextArgument_forward:
  assumes "nextArgument cmd p = Inr (Some (p', astr, alen))"
  shows "p < length cmd" "alen < 2 ^ 64" "alen < 2 ^ 32 \<Longrightarrow> p < p'"
proof -
  from assms obtain q where q: "p < length cmd" "p \<le> q" "argument_at cmd q = Inr (p', astr, alen)"
    by (auto simp: nextArgument_def peek_def bindE_Inr_iff split: if_splits option.splits) (meson le_add1)
  with argument_at_forward [of cmd q p' astr alen] show "p < length cmd" "alen < 2 ^ 64" "alen < 2 ^ 32 \<Longrightarrow> p < p'" by auto
qed

function subscribe_loop ::
  "allocator \<Rightarrow> bool \<Rightarrow> redisCallback \<Rightarrow> char list \<Rightarrow> nat \<Rightarrow> redisAsyncContext \<Rightarrow> redisAsyncContext res" where
  "subscribe_loop mal pvariant cb cmd p ac =
     bindE (nextArgument cmd p) (\<lambda>a.
     case a of
       None \<Rightarrow> Inr ac
     | Some (p, astr, alen) \<Rightarrow>
         bindE (null_deref (sdsnewlen mal (Some (drop astr cmd)) alen)) (\<lambda>sname.
         bindE (subscribe_one mal pvariant cb sname ac) (\<lambda>ac.
         subscribe_loop mal pvariant cb cmd p ac)))"
  by pat_completeness auto

termination
proof (relation "measure (\<lambda>(mal, pvariant, cb, cmd, p, ac). length cmd - p)", goal_cases)
  case (2 mal pvariant cb cmd p ac a x p' y astr alen sname ac')
  then show ?case using nextArgument_forward [of cmd p p' astr alen] subscribe_one_small [of mal pvariant cb sname ac ac']
    sdsnewlen_huge [of mal "drop astr cmd" alen sname]
    by (cases "alen < 2 ^ 32") (auto simp: null_deref_def split: sum.splits mem_error.splits)
qed simp

declare subscribe_loop.simps [simp del]

definition async_command ::
  "allocator \<Rightarrow> redisAsyncContext \<Rightarrow> 'u env \<Rightarrow> nat \<Rightarrow> nat \<Rightarrow> char list \<Rightarrow> nat \<Rightarrow> (int \<times> redisAsyncContext \<times> 'u env) res" where
  \<comment> \<open>\<open>__redisAsyncCommand\<close>; the results of pushing and of appending are not used\<close>
  "async_command mal ac e fn privdata cmd len =
     (if a_flag ac (REDIS_DISCONNECTING OR REDIS_FREEING) then Inr (REDIS_ERR, ac, e)
      else
        let cb = user_fn fn privdata;
            finish = (\<lambda>ac. bindE (append_command mal (a_c ac) cmd len) (\<lambda>(_, c).
                       Inr (REDIS_OK, ac\<lparr>a_c := c\<rparr>, hook (a_addWrite ac) EvAddWrite e)))
        in bindE (nextArgument cmd 0) (\<lambda>first.
           case first of
             None \<Rightarrow> Inl AssertFailed
           | Some (p, cstr, clen) \<Rightarrow>
               bindE (peek cmd p) (\<lambda>c.
               bindE (peek cmd cstr) (\<lambda>t.
               let hasnext = (c = CHR ''$''); pvariant = (c_tolower t = CHR ''p'');
                   name = drop (if pvariant then cstr + 1 else cstr) cmd
               in bindE (if hasnext then strncasecmp_eq name (''subscribe'' @ CRLF) else Inr False) (\<lambda>is_sub.
                  if is_sub
                  then bindE (subscribe_loop mal pvariant cb cmd p (upd_c (set_flag REDIS_SUBSCRIBED) ac)) finish
                  else bindE (strncasecmp_eq name (''unsubscribe'' @ CRLF)) (\<lambda>is_unsub.
                       if is_unsub then (if \<not> a_flag ac REDIS_SUBSCRIBED then Inr (REDIS_ERR, ac, e) else finish ac)
                       else bindE (strncasecmp_eq name (''monitor'' @ CRLF)) (\<lambda>is_mon.
                            if is_mon then bindE (push_replies mal cb (upd_c (set_flag REDIS_MONITORING) ac)) finish
                            else if a_flag ac REDIS_SUBSCRIBED then bindE (push_invalid mal cb ac) finish
                            else bindE (push_replies mal cb ac) finish)))))))"

definition redisvAsyncCommand ::
  "allocator \<Rightarrow> vsn \<Rightarrow> redisAsyncContext \<Rightarrow> 'u env \<Rightarrow> nat \<Rightarrow> nat \<Rightarrow> char list \<Rightarrow> va_arg list \<Rightarrow>
     (int \<times> redisAsyncContext \<times> 'u env) res" where
  "redisvAsyncCommand mal vsn ac e fn privdata format ap =
     bindE (redisvFormatCommand mal vsn True format ap) (\<lambda>(len, cmd).
     if len < 0 then Inr (REDIS_ERR, ac, e)
     else case cmd of
            None \<Rightarrow> Inl OutOfBounds
          | Some cmd \<Rightarrow> async_command mal ac e fn privdata cmd (nat len))"

definition redisAsyncCommand ::
  "allocator \<Rightarrow> vsn \<Rightarrow> redisAsyncContext \<Rightarrow> 'u env \<Rightarrow> nat \<Rightarrow> nat \<Rightarrow> char list \<Rightarrow> va_arg list \<Rightarrow>
     (int \<times> redisAsyncContext \<times> 'u env) res" where
  "redisAsyncCommand mal vsn ac e fn privdata format args = redisvAsyncCommand mal vsn ac e fn privdata format args"

definition redisAsyncCommandArgv ::
  "allocator \<Rightarrow> redisAsyncContext \<Rightarrow> 'u env \<Rightarrow> nat \<Rightarrow> nat \<Rightarrow> int \<Rightarrow> char list list \<Rightarrow> nat list option \<Rightarrow>
     (int \<times> redisAsyncContext \<times> 'u env) res" where
  "redisAsyncCommandArgv mal ac e fn privdata argc argv argvlen =
     bindE (redisFormatSdsCommandArgv mal True argc argv argvlen) (\<lambda>(len, cmd).
     if len < 0 then Inr (REDIS_ERR, ac, e)
     else case cmd of
            None \<Rightarrow> Inl OutOfBounds
          | Some cmd \<Rightarrow> async_command mal ac e fn privdata (hbuf cmd) (nat len))"

definition redisAsyncFormattedCommand ::
  "allocator \<Rightarrow> redisAsyncContext \<Rightarrow> 'u env \<Rightarrow> nat \<Rightarrow> nat \<Rightarrow> char list \<Rightarrow> nat \<Rightarrow> (int \<times> redisAsyncContext \<times> 'u env) res" where
  "redisAsyncFormattedCommand mal ac e fn privdata cmd len = async_command mal ac e fn privdata cmd len"

subsection \<open>Callbacks\<close>

text \<open>
  What a callback may ask for. It runs with \<open>REDIS_IN_CALLBACK\<close> set, so \<open>redisAsyncDisconnect\<close> and
  \<open>redisAsyncFree\<close>, which are defined below, only set their flags.
\<close>

fun perform :: "allocator \<Rightarrow> action list \<Rightarrow> redisAsyncContext \<Rightarrow> 'u env \<Rightarrow> (redisAsyncContext \<times> 'u env) res" where
  "perform mal [] ac e = Inr (ac, e)"
| "perform mal (ACommand fn privdata cmd len # as) ac e =
     bindE (async_command mal ac e fn privdata cmd len) (\<lambda>(_, ac, e). perform mal as ac e)"
| "perform mal (ADisconnect # as) ac e = perform mal as (upd_c (set_flag REDIS_DISCONNECTING) ac) e"
| "perform mal (AFree # as) ac e = perform mal as (upd_c (set_flag REDIS_FREEING) ac) e"

definition redisRunCallback ::
  "allocator \<Rightarrow> 'u callbacks \<Rightarrow> redisAsyncContext \<Rightarrow> 'u env \<Rightarrow> redisCallback \<Rightarrow> nat \<Rightarrow> (redisAsyncContext \<times> 'u env) res" where
  "redisRunCallback mal cbs ac e cb reply =
     (if cb_fn cb \<noteq> 0
      then let ac = upd_c (set_flag REDIS_IN_CALLBACK) ac;
               e = emit (EvCallback (cb_fn cb) (cb_privdata cb) reply) e;
               (actions, u) = cbs (cb_fn cb) (cb_privdata cb) reply (e_heap e) (e_user e)
           in bindE (perform mal actions ac (e\<lparr>e_user := u\<rparr>)) (\<lambda>(ac, e).
              Inr (upd_c (clear_flag REDIS_IN_CALLBACK) ac, e))
      else Inr (ac, e))"

subsection \<open>Freeing and disconnecting\<close>

definition shift_replies :: "redisAsyncContext \<Rightarrow> (redisCallback option \<times> redisAsyncContext) res" where
  "shift_replies ac = bindE (redisShiftCallback (a_replies ac)) (\<lambda>(st, cb, l). Inr (cb, ac\<lparr>a_replies := l\<rparr>))"

definition shift_invalid :: "redisAsyncContext \<Rightarrow> (redisCallback option \<times> redisAsyncContext) res" where
  "shift_invalid ac = bindE (redisShiftCallback (a_invalid ac)) (\<lambda>(st, cb, l). Inr (cb, ac\<lparr>a_invalid := l\<rparr>))"

partial_function (option) drain ::
  "(redisAsyncContext \<Rightarrow> (redisCallback option \<times> redisAsyncContext) res) \<Rightarrow> allocator \<Rightarrow> 'u callbacks \<Rightarrow>
     redisAsyncContext \<Rightarrow> 'u env \<Rightarrow> (redisAsyncContext \<times> 'u env) res option" where
  "drain shift mal cbs ac e =
     (case shift ac of
        Inl er \<Rightarrow> Some (Inl er)
      | Inr (None, ac) \<Rightarrow> Some (Inr (ac, e))
      | Inr (Some cb, ac) \<Rightarrow>
          (case redisRunCallback mal cbs ac e cb 0 of
             Inl er \<Rightarrow> Some (Inl er)
           | Inr (ac, e) \<Rightarrow> drain shift mal cbs ac e))"

partial_function (option) run_table ::
  "(redisAsyncContext \<Rightarrow> (channel, redisCallback) dict option) \<Rightarrow> allocator \<Rightarrow> 'u callbacks \<Rightarrow> dictIterator \<Rightarrow>
     redisAsyncContext \<Rightarrow> 'u env \<Rightarrow> (redisAsyncContext \<times> 'u env) res option" where
  "run_table tbl mal cbs it ac e =
     (case tbl ac of
        None \<Rightarrow> Some (Inl OutOfBounds)
      | Some ht \<Rightarrow>
          (case dictNext ht it of
             Inl er \<Rightarrow> Some (Inl er)
           | Inr (None, it) \<Rightarrow> Some (Inr (ac, e))
           | Inr (Some a, it) \<Rightarrow>
               (case bindE (load_entry ht a) (\<lambda>de. redisRunCallback mal cbs ac e (de_val de) 0) of
                  Inl er \<Rightarrow> Some (Inl er)
                | Inr (ac, e) \<Rightarrow> run_table tbl mal cbs it ac e)))"

definition bindO :: "'a res option \<Rightarrow> ('a \<Rightarrow> 'b res option) \<Rightarrow> 'b res option" where
  \<comment> \<open>sequencing of computations that may not end\<close>
  "bindO x f = (case x of None \<Rightarrow> None | Some (Inl er) \<Rightarrow> Some (Inl er) | Some (Inr y) \<Rightarrow> f y)"

definition release_table ::
  "(channel, redisCallback) dict option \<Rightarrow> unit res" where
  "release_table t = (case t of None \<Rightarrow> Inl OutOfBounds | Some ht \<Rightarrow> bindE (dictRelease callbackDict ht) (\<lambda>_. Inr ()))"

definition last_events :: "redisAsyncContext \<Rightarrow> 'u env \<Rightarrow> 'u env" where
  \<comment> \<open>the event library and the user are told\<close>
  "last_events ac e =
     (let e = hook (a_cleanup ac) EvCleanup e
      in if a_onDisconnect ac \<and> a_flag ac REDIS_CONNECTED
         then emit (EvDisconnect (if a_flag ac REDIS_FREEING then REDIS_OK else if a_err ac = 0 then REDIS_OK else REDIS_ERR)) e
         else e)"

definition async_free :: "os \<Rightarrow> allocator \<Rightarrow> 'u callbacks \<Rightarrow> redisAsyncContext \<Rightarrow> 'u env \<Rightarrow> 'u env res option" where
  \<comment> \<open>\<open>__redisAsyncFree\<close>; what is left is the environment\<close>
  "async_free os mal cbs ac e =
     bindO (drain shift_replies mal cbs ac e) (\<lambda>(ac, e).
     bindO (drain shift_invalid mal cbs ac e) (\<lambda>(ac, e).
     bindO (Some (dictGetIterator mal)) (\<lambda>it.
     bindO (run_table a_channels mal cbs it ac e) (\<lambda>(ac, e).
     bindO (Some (release_table (a_channels ac))) (\<lambda>_.
     let ac = ac\<lparr>a_channels := None\<rparr> in
     bindO (Some (dictGetIterator mal)) (\<lambda>it.
     bindO (run_table a_patterns mal cbs it ac e) (\<lambda>(ac, e).
     bindO (Some (release_table (a_patterns ac))) (\<lambda>_.
     let e = last_events ac e
     in Some (bindE (redisFree os (defaultFunctions mal) (Some (a_c ac)) (e_heap e) (e_world e)) (\<lambda>(h, w).
        Inr (e\<lparr>e_heap := h, e_world := w\<rparr>)))))))))))"

type_synonym 'u outcome = "(redisAsyncContext option \<times> 'u env) res option"

definition freed :: "'u env res option \<Rightarrow> 'u outcome" where
  \<comment> \<open>the context is gone\<close>
  "freed r = map_option (map_sum id (Pair None)) r"

definition redisAsyncFree :: "os \<Rightarrow> allocator \<Rightarrow> 'u callbacks \<Rightarrow> redisAsyncContext \<Rightarrow> 'u env \<Rightarrow> 'u outcome" where
  "redisAsyncFree os mal cbs ac e =
     (let ac = upd_c (set_flag REDIS_FREEING) ac
      in if \<not> a_flag ac REDIS_IN_CALLBACK then freed (async_free os mal cbs ac e) else Some (Inr (Some ac, e)))"

definition async_disconnect :: "os \<Rightarrow> allocator \<Rightarrow> 'u callbacks \<Rightarrow> redisAsyncContext \<Rightarrow> 'u env \<Rightarrow> 'u outcome" where
  \<comment> \<open>\<open>__redisAsyncDisconnect\<close>\<close>
  "async_disconnect os mal cbs ac e =
     (let ac = redisAsyncCopyError ac
      in if a_err ac = 0
         then (case shift_replies ac of
                 Inl er \<Rightarrow> Some (Inl er)
               | Inr (cb, ac) \<Rightarrow> if cb \<noteq> None then Some (Inl AssertFailed) else freed (async_free os mal cbs ac e))
         else freed (async_free os mal cbs (upd_c (set_flag REDIS_DISCONNECTING) ac) e))"

definition redisAsyncDisconnect :: "os \<Rightarrow> allocator \<Rightarrow> 'u callbacks \<Rightarrow> redisAsyncContext \<Rightarrow> 'u env \<Rightarrow> 'u outcome" where
  "redisAsyncDisconnect os mal cbs ac e =
     (let ac = upd_c (set_flag REDIS_DISCONNECTING) ac
      in if \<not> a_flag ac REDIS_IN_CALLBACK \<and> cl_head (a_replies ac) = None then async_disconnect os mal cbs ac e
         else Some (Inr (Some ac, e)))"

subsection \<open>Replies\<close>

definition element_at :: "reply_heap \<Rightarrow> redisReply \<Rightarrow> nat \<Rightarrow> redisReply res" where
  "element_at h r i =
     (case rp_element r of
        None \<Rightarrow> Inl OutOfBounds
      | Some es \<Rightarrow> if i < length es then rh_load h (es ! i) else Inl OutOfBounds)"

definition str_of :: "redisReply \<Rightarrow> char list res" where
  "str_of r = (case rp_str r of None \<Rightarrow> Inl OutOfBounds | Some s \<Rightarrow> Inr s)"

definition redisGetSubscribeCallback ::
  "allocator \<Rightarrow> redisAsyncContext \<Rightarrow> reply_heap \<Rightarrow> nat \<Rightarrow> redisCallback \<Rightarrow> (redisCallback \<times> redisAsyncContext) res" where
  \<comment> \<open>\<open>dstcb\<close> is what the caller's variable holds, and is returned if nothing is stored there\<close>
  "redisGetSubscribeCallback mal ac h reply dstcb =
     bindE (rh_load h reply) (\<lambda>r.
     if rp_type r = REDIS_REPLY_ARRAY
     then if rp_elements r < 2 then Inl AssertFailed
          else bindE (element_at h r 0) (\<lambda>r0.
               if rp_type r0 \<noteq> REDIS_REPLY_STRING then Inl AssertFailed
               else bindE (str_of r0) (\<lambda>stype.
                    bindE (peek stype 0) (\<lambda>s0.
                    let pvariant = (c_tolower s0 = CHR ''p'')
                    in bindE (element_at h r 1) (\<lambda>r1.
                       if rp_type r1 \<noteq> REDIS_REPLY_STRING then Inl AssertFailed
                       else bindE (str_of r1) (\<lambda>name.
                            bindE (null_deref (sdsnewlen mal (Some name) (rp_len r1))) (\<lambda>sname.
                            bindE (channel_of (sdsval sname)) (\<lambda>key.
                            bindE (pubsub_table pvariant ac) (\<lambda>callbacks.
                            bindE (dictFind callbackDict callbacks key) (\<lambda>de.
                            case de of
                              None \<Rightarrow> Inr (dstcb, ac)
                            | Some de \<Rightarrow>
                                bindE (strncasecmp_eq (drop (if pvariant then 1 else 0) stype) (''unsubscribe'' @ [NUL])) (\<lambda>unsub.
                                if unsub
                                then bindE (dictDelete callbackDict callbacks key) (\<lambda>(_, callbacks).
                                     bindE (element_at h r 2) (\<lambda>r2.
                                     if rp_type r2 \<noteq> REDIS_REPLY_INTEGER then Inl AssertFailed
                                     else let ac = set_pubsub_table pvariant callbacks ac
                                          in Inr (de_val de, if rp_integer r2 = 0 then upd_c (clear_flag REDIS_SUBSCRIBED) ac else ac)))
                                else Inr (de_val de, ac)))))))))))
     else bindE (shift_invalid ac) (\<lambda>(cb, ac). Inr (case cb of Some cb \<Rightarrow> cb | None \<Rightarrow> dstcb, ac)))"

definition free_object :: "allocator \<Rightarrow> redisAsyncContext \<Rightarrow> nat \<Rightarrow> 'u env \<Rightarrow> 'u env res" where
  \<comment> \<open>\<open>c->reader->fn->freeObject(reply)\<close>\<close>
  "free_object mal ac reply e =
     (case (c_reader (a_c ac), freeObject (defaultFunctions mal)) of
        (Some _, Some f) \<Rightarrow> bindE (f reply (e_heap e)) (\<lambda>h. Inr (e\<lparr>e_heap := h\<rparr>))
      | _ \<Rightarrow> Inl OutOfBounds)"

definition no_reply :: "os \<Rightarrow> allocator \<Rightarrow> 'u callbacks \<Rightarrow> redisAsyncContext \<Rightarrow> 'u env \<Rightarrow> redisCallback \<Rightarrow> 'u outcome" where
  \<comment> \<open>the body of the loop when there is no further reply\<close>
  "no_reply os mal cbs ac e cb =
     (let repush = Some (if a_flag ac REDIS_MONITORING then bindE (push_replies mal cb ac) (\<lambda>ac. Inr (Some ac, e)) else Inr (Some ac, e))
      in if a_flag ac REDIS_DISCONNECTING
         then (case c_obuf (a_c ac) of
                 None \<Rightarrow> Some (Inl OutOfBounds)
               | Some obuf \<Rightarrow> if sdslen obuf = 0 \<and> cl_head (a_replies ac) = None then async_disconnect os mal cbs ac e else repush)
         else repush)"

type_synonym 'u progress = "(redisAsyncContext \<times> 'u env \<times> redisCallback + redisAsyncContext option \<times> 'u env) res option"

definition run_and_release ::
  "os \<Rightarrow> allocator \<Rightarrow> 'u callbacks \<Rightarrow> redisAsyncContext \<Rightarrow> 'u env \<Rightarrow> redisCallback \<Rightarrow> nat \<Rightarrow> 'u progress" where
  \<comment> \<open>run the callback, release the reply; Inl goes on with the loop\<close>
  "run_and_release os mal cbs ac e cb reply =
     (if cb_fn cb \<noteq> 0
      then bindO (Some (bindE (redisRunCallback mal cbs ac e cb reply) (\<lambda>(ac, e).
                  bindE (free_object mal ac reply e) (\<lambda>e. Inr (ac, e))))) (\<lambda>(ac, e).
           if a_flag ac REDIS_FREEING then bindO (freed (async_free os mal cbs ac e)) (\<lambda>r. Some (Inr (Inr r)))
           else Some (Inr (Inl (ac, e, cb))))
      else Some (bindE (free_object mal ac reply e) (\<lambda>e. Inr (Inl (ac, e, cb)))))"

definition spontaneous ::
  "os \<Rightarrow> allocator \<Rightarrow> 'u callbacks \<Rightarrow> redisAsyncContext \<Rightarrow> 'u env \<Rightarrow> redisCallback \<Rightarrow> nat \<Rightarrow> 'u progress" where
  \<comment> \<open>a reply for which no callback is queued\<close>
  "spontaneous os mal cbs ac e cb reply =
     bindO (Some (rh_load (e_heap e) reply)) (\<lambda>r.
     if rp_type r = REDIS_REPLY_ERROR
     then bindO (Some (str_of r)) (\<lambda>s.
          let ac = upd_c (\<lambda>c. set_error c REDIS_ERR_OTHER s) ac
          in bindO (Some (free_object mal ac reply e)) (\<lambda>e.
             bindO (async_disconnect os mal cbs ac e) (\<lambda>r. Some (Inr (Inr r)))))
     else if a_flag ac REDIS_SUBSCRIBED
     then bindO (Some (redisGetSubscribeCallback mal ac (e_heap e) reply cb)) (\<lambda>(cb, ac).
          run_and_release os mal cbs ac e cb reply)
     else if a_flag ac REDIS_MONITORING then run_and_release os mal cbs ac e cb reply
     else Some (Inl AssertFailed))"

definition got_reply ::
  "os \<Rightarrow> allocator \<Rightarrow> 'u callbacks \<Rightarrow> redisAsyncContext \<Rightarrow> 'u env \<Rightarrow> redisCallback \<Rightarrow> nat \<Rightarrow> 'u progress" where
  "got_reply os mal cbs ac e cb reply =
     bindO (Some (shift_replies ac)) (\<lambda>(shifted, ac).
     case shifted of
       Some cb \<Rightarrow> run_and_release os mal cbs ac e cb reply
     | None \<Rightarrow> spontaneous os mal cbs ac e cb reply)"

partial_function (option) process_loop ::
  "os \<Rightarrow> allocator \<Rightarrow> 'u callbacks \<Rightarrow> redisAsyncContext \<Rightarrow> 'u env \<Rightarrow> redisCallback \<Rightarrow> 'u outcome" where
  \<comment> \<open>\<open>cb\<close> is the variable of \<open>redisProcessCallbacks\<close>, which keeps its value from one reply to the next\<close>
  "process_loop os mal cbs ac e cb =
     (case redisGetReply os mal (defaultFunctions mal) (a_c ac) (e_heap e) (e_world e) of
        None \<Rightarrow> None
      | Some (Inl er) \<Rightarrow> Some (Inl er)
      | Some (Inr (st, reply, c, h, w)) \<Rightarrow>
          if st \<noteq> REDIS_OK then async_disconnect os mal cbs (ac\<lparr>a_c := c\<rparr>) (e\<lparr>e_heap := h, e_world := w\<rparr>)
          else if reply = 0 then no_reply os mal cbs (ac\<lparr>a_c := c\<rparr>) (e\<lparr>e_heap := h, e_world := w\<rparr>) cb
          else (case got_reply os mal cbs (ac\<lparr>a_c := c\<rparr>) (e\<lparr>e_heap := h, e_world := w\<rparr>) cb reply of
                  None \<Rightarrow> None
                | Some (Inl er) \<Rightarrow> Some (Inl er)
                | Some (Inr (Inr r)) \<Rightarrow> Some (Inr r)
                | Some (Inr (Inl (ac, e, cb))) \<Rightarrow> process_loop os mal cbs ac e cb))"

definition redisProcessCallbacks :: "os \<Rightarrow> allocator \<Rightarrow> 'u callbacks \<Rightarrow> redisAsyncContext \<Rightarrow> 'u env \<Rightarrow> 'u outcome" where
  "redisProcessCallbacks os mal cbs ac e = process_loop os mal cbs ac e null_callback"

subsection \<open>Events\<close>

definition async_handle_connect ::
  "os \<Rightarrow> allocator \<Rightarrow> 'u callbacks \<Rightarrow> redisAsyncContext \<Rightarrow> 'u env \<Rightarrow> (int \<times> redisAsyncContext option \<times> 'u env) res option" where
  \<comment> \<open>\<open>__redisAsyncHandleConnect\<close>; the connect callback has a constant context, and can only take note of the status\<close>
  "async_handle_connect os mal cbs ac e =
     (let (st, c, w) = redisCheckSocketError os (a_c ac) (e_world e); ac = ac\<lparr>a_c := c\<rparr>; e = e\<lparr>e_world := w\<rparr>
     in if st = REDIS_ERR
        then if w_errno w = EINPROGRESS then Some (Inr (REDIS_OK, Some ac, e))
             else bindO (async_disconnect os mal cbs ac (hook (a_onConnect ac) (EvConnect REDIS_ERR) e)) (\<lambda>(ac, e).
                  Some (Inr (REDIS_ERR, ac, e)))
        else let ac = upd_c (set_flag REDIS_CONNECTED) ac
             in Some (Inr (REDIS_OK, Some ac, hook (a_onConnect ac) (EvConnect REDIS_OK) e)))"

definition when_connected ::
  "os \<Rightarrow> allocator \<Rightarrow> 'u callbacks \<Rightarrow> redisAsyncContext \<Rightarrow> 'u env \<Rightarrow> (redisAsyncContext \<Rightarrow> 'u env \<Rightarrow> 'u outcome) \<Rightarrow> 'u outcome" where
  \<comment> \<open>the start of both handlers\<close>
  "when_connected os mal cbs ac e body =
     (if a_flag ac REDIS_CONNECTED then body ac e
      else bindO (async_handle_connect os mal cbs ac e) (\<lambda>(st, ac, e).
           if st \<noteq> REDIS_OK then Some (Inr (ac, e))
           else case ac of
                  None \<Rightarrow> Some (Inl OutOfBounds)
                | Some ac \<Rightarrow> if a_flag ac REDIS_CONNECTED then body ac e else Some (Inr (Some ac, e))))"

definition redisAsyncHandleRead :: "os \<Rightarrow> allocator \<Rightarrow> 'u callbacks \<Rightarrow> redisAsyncContext \<Rightarrow> 'u env \<Rightarrow> 'u outcome" where
  "redisAsyncHandleRead os mal cbs ac e =
     when_connected os mal cbs ac e (\<lambda>ac e.
     bindO (Some (redisBufferRead os mal (defaultFunctions mal) (a_c ac) (e_heap e) (e_world e))) (\<lambda>(st, c, h, w).
     let ac = ac\<lparr>a_c := c\<rparr>; e = e\<lparr>e_heap := h, e_world := w\<rparr>
     in if st = REDIS_ERR then async_disconnect os mal cbs ac e
        else redisProcessCallbacks os mal cbs ac (hook (a_addRead ac) EvAddRead e)))"

definition redisAsyncHandleWrite :: "os \<Rightarrow> allocator \<Rightarrow> 'u callbacks \<Rightarrow> redisAsyncContext \<Rightarrow> 'u env \<Rightarrow> 'u outcome" where
  "redisAsyncHandleWrite os mal cbs ac e =
     when_connected os mal cbs ac e (\<lambda>ac e.
     bindO (Some (redisBufferWrite os mal (a_c ac) (e_world e))) (\<lambda>(st, done, c, w).
     let ac = ac\<lparr>a_c := c\<rparr>; e = e\<lparr>e_world := w\<rparr>
     in if st = REDIS_ERR then async_disconnect os mal cbs ac e
        else let e = (if \<not> done then hook (a_addWrite ac) EvAddWrite e else hook (a_delWrite ac) EvDelWrite e)
             in Some (Inr (Some ac, hook (a_addRead ac) EvAddRead e))))"

end
