(* ===== verification/AsyncSpec.thy ===== *)
theory AsyncSpec
  imports Async
begin

unbundle bit_operations_syntax

section \<open>Callbacks of the asynchronous interface\<close>

text \<open>
  The lists of callbacks are queues, the tables of subscriptions are tables of the type
  \<^const>\<open>callbackDict\<close>, and the operations on a context keep both well-formed. From this: no callback
  is lost or run twice, whatever the callbacks do.
\<close>

subsection \<open>Lists of callbacks are queues\<close>

text \<open>
  What the asynchronous interface relies on: a queue that stands for a list, at whose end an entry is
  pushed, if there is memory, and from whose front one is taken. An operation is \<open>Some x\<close>, a push, or
  None, a shift; its result is a status and, for a shift, the entry.
\<close>

fun queue_run ::
  "('q \<Rightarrow> 'a \<Rightarrow> (int \<times> 'q) res) \<Rightarrow> ('q \<Rightarrow> (int \<times> 'a option \<times> 'q) res) \<Rightarrow> 'a option list \<Rightarrow> 'q \<Rightarrow> ((int \<times> 'a option) list \<times> 'q) res" where
  "queue_run push shift [] q = Inr ([], q)"
| "queue_run push shift (Some x # ops) q =
     bindE (push q x) (\<lambda>(st, q). bindE (queue_run push shift ops q) (\<lambda>(rs, q). Inr ((st, None) # rs, q)))"
| "queue_run push shift (None # ops) q =
     bindE (shift q) (\<lambda>(st, y, q). bindE (queue_run push shift ops q) (\<lambda>(rs, q). Inr ((st, y) # rs, q)))"

fun queue_spec :: "'a option list \<Rightarrow> (int \<times> 'a option) list \<Rightarrow> 'a list \<Rightarrow> 'a list option" where
  \<comment> \<open>what the list is in the end, if the results are those of a queue\<close>
  "queue_spec [] [] xs = Some xs"
| "queue_spec (Some x # ops) ((st, None) # rs) xs = queue_spec ops rs (if st = REDIS_OK then xs @ [x] else xs)"
| "queue_spec (None # ops) ((st, None) # rs) [] = (if st = REDIS_ERR then queue_spec ops rs [] else None)"
| "queue_spec (None # ops) ((st, Some y) # rs) (x # xs) = (if st = REDIS_OK \<and> y = x then queue_spec ops rs xs else None)"
| "queue_spec _ _ _ = None"

locale fifo =
  fixes holds :: "'q \<Rightarrow> 'a list \<Rightarrow> bool"
    and push :: "'q \<Rightarrow> 'a \<Rightarrow> (int \<times> 'q) res"
    and shift :: "'q \<Rightarrow> (int \<times> 'a option \<times> 'q) res"
  assumes push_law: "holds q xs \<Longrightarrow> \<exists>st q'. push q x = Inr (st, q') \<and> holds q' (if st = REDIS_OK then xs @ [x] else xs)"
    and shift_nil: "holds q [] \<Longrightarrow> shift q = Inr (REDIS_ERR, None, q)"
    and shift_cons: "holds q (x # xs) \<Longrightarrow> \<exists>q'. shift q = Inr (REDIS_OK, Some x, q') \<and> holds q' xs"
begin

lemma run_refines:
  "holds q xs \<Longrightarrow> \<exists>rs q' ys. queue_run push shift ops q = Inr (rs, q') \<and> queue_spec ops rs xs = Some ys \<and> holds q' ys"
proof (induction ops arbitrary: q xs)
  case (Cons op ops)
  show ?case
  proof (cases op)
    case (Some x)
    from push_law [OF Cons.prems, of x] obtain st q1 where
      q1: "push q x = Inr (st, q1)" "holds q1 (if st = REDIS_OK then xs @ [x] else xs)" by blast
    from Cons.IH [OF q1(2)] q1(1) Some show ?thesis by fastforce
  next
    case None
    show ?thesis
    proof (cases xs)
      case Nil
      with Cons.IH [OF Cons.prems] shift_nil Cons.prems None show ?thesis by fastforce
    next
      case (Cons x ys)
      with shift_cons Cons.prems obtain q1 where q1: "shift q = Inr (REDIS_OK, Some x, q1)" "holds q1 ys" by blast
      from Cons.IH [OF q1(2)] q1(1) None Cons show ?thesis by fastforce
    qed
  qed
qed simp

end

fun chain :: "(nat \<Rightarrow> redisCallback option) \<Rightarrow> nat option \<Rightarrow> nat list \<Rightarrow> (nat \<times> nat) list \<Rightarrow> bool" where
  \<comment> \<open>the nodes at the addresses are linked and hold the functions with their data\<close>
  "chain m p [] [] \<longleftrightarrow> p = None"
| "chain m p (a # as) ((f, d) # xs) \<longleftrightarrow>
     p = Some a \<and> (\<exists>nx. m a = Some \<lparr>cb_next = nx, cb_fn = f, cb_privdata = d\<rparr> \<and> chain m nx as xs)"
| "chain m p _ _ \<longleftrightarrow> False"

definition holds_callbacks :: "redisCallbackList \<Rightarrow> (nat \<times> nat) list \<Rightarrow> bool" where
  "holds_callbacks l xs \<longleftrightarrow> (\<exists>as. chain (cl_nodes l) (cl_head l) as xs \<and> distinct as \<and>
     cl_tail l = (if as = [] then None else Some (last as)) \<and> dom (cl_nodes l) = set as \<and> (\<forall>a\<in>set as. a < cl_fresh l))"

definition push_callback :: "allocator \<Rightarrow> redisCallbackList \<Rightarrow> nat \<times> nat \<Rightarrow> (int \<times> redisCallbackList) res" where
  "push_callback mal l x = redisPushCallback mal l (user_fn (fst x) (snd x))"

definition shift_callback :: "redisCallbackList \<Rightarrow> (int \<times> (nat \<times> nat) option \<times> redisCallbackList) res" where
  "shift_callback l = bindE (redisShiftCallback l) (\<lambda>(st, cb, l). Inr (st, map_option (\<lambda>cb. (cb_fn cb, cb_privdata cb)) cb, l))"

lemma chain_empty: "chain m None as xs \<longleftrightarrow> as = [] \<and> xs = []"
  by (cases "(m, None :: nat option, as, xs)" rule: chain.cases) auto

lemma chain_cong: "chain m p as xs \<Longrightarrow> (\<And>a. a \<in> set as \<Longrightarrow> m' a = m a) \<Longrightarrow> chain m' p as xs"
  by (induction m p as xs rule: chain.induct) auto

lemma chain_snoc:
  assumes "chain m p as xs" and "as \<noteq> []" and "distinct as" and "b \<notin> set as" and "m (last as) = Some n"
  shows "chain (m(b \<mapsto> cb\<lparr>cb_next := None\<rparr>, last as \<mapsto> n\<lparr>cb_next := Some b\<rparr>)) p (as @ [b]) (xs @ [(cb_fn cb, cb_privdata cb)])"
  using assms
proof (induction m p as xs rule: chain.induct)
  case (2 m p a as g e xs)
  show ?case
  proof (cases "as = []")
    case True
    with 2 show ?thesis by (cases xs; cases cb) auto
  next
    case False
    from 2 obtain nx where nx: "m a = Some \<lparr>cb_next = nx, cb_fn = g, cb_privdata = e\<rparr>" "chain m nx as xs" by auto
    moreover have "last as \<noteq> a" "b \<noteq> a" using False 2 by auto
    ultimately show ?thesis using 2 False by auto
  qed
qed auto

lemma push_callback_ok:
  assumes h: "holds_callbacks l xs"
  shows "\<exists>st l'. redisPushCallback mal l cb = Inr (st, l') \<and>
    holds_callbacks l' (if st = REDIS_OK then xs @ [(cb_fn cb, cb_privdata cb)] else xs)"
proof (cases "mal 24")
  case None
  with h show ?thesis by (auto simp: redisPushCallback_def)
next
  case (Some g)
  from h obtain as where as: "chain (cl_nodes l) (cl_head l) as xs" "distinct as" "cl_tail l = (if as = [] then None else Some (last as))"
    "dom (cl_nodes l) = set as" "\<forall>a\<in>set as. a < cl_fresh l" by (auto simp: holds_callbacks_def)
  let ?b = "cl_fresh l"
  have b: "?b \<notin> set as" using as(5) by auto
  show ?thesis
  proof (cases "as = []")
    case True
    then have e: "xs = []" "cl_head l = None" "cl_tail l = None" "cl_nodes l = Map.empty" using as by (cases xs; auto)+
    let ?l = "l\<lparr>cl_nodes := [?b \<mapsto> cb\<lparr>cb_next := None\<rparr>], cl_fresh := Suc ?b, cl_head := Some ?b, cl_tail := Some ?b\<rparr>"
    have "redisPushCallback mal l cb = Inr (REDIS_OK, ?l)" using Some e by (simp add: redisPushCallback_def Let_def)
    moreover have "holds_callbacks ?l [(cb_fn cb, cb_privdata cb)]"
      unfolding holds_callbacks_def by (rule exI [of _ "[?b]"]) (cases cb; simp)
    ultimately show ?thesis unfolding e(1) by (intro exI [of _ "REDIS_OK"] exI conjI) (assumption, simp)
  next
    case False
    then obtain n where n: "cl_nodes l (last as) = Some n" using as(4) last_in_set by (metis domD)
    from as(1) False chain_empty [of "cl_nodes l" as xs] obtain y where hd: "cl_head l = Some y" by (cases "cl_head l") simp_all
    have "last as \<in> set as" using False by simp
    with b have lb: "last as \<noteq> ?b" "last as \<in> set as" by metis+
    let ?l = "l\<lparr>cl_nodes := (cl_nodes l)(?b \<mapsto> cb\<lparr>cb_next := None\<rparr>, last as \<mapsto> n\<lparr>cb_next := Some ?b\<rparr>), cl_fresh := Suc ?b, cl_tail := Some ?b\<rparr>"
    have "redisPushCallback mal l cb = Inr (REDIS_OK, ?l)"
      using Some hd n False as(3) lb by (simp add: redisPushCallback_def Let_def)
    moreover have "holds_callbacks ?l (xs @ [(cb_fn cb, cb_privdata cb)])"
      unfolding holds_callbacks_def
    proof (intro exI [of _ "as @ [?b]"] conjI)
      show "chain (cl_nodes ?l) (cl_head ?l) (as @ [?b]) (xs @ [(cb_fn cb, cb_privdata cb)])"
        using chain_snoc [OF as(1) False as(2) b n, of cb] by simp
      show "dom (cl_nodes ?l) = set (as @ [?b])" using as(4) lb(2) by auto
    qed (use as(2,5) b in auto)
    ultimately show ?thesis by (intro exI [of _ "REDIS_OK"] exI conjI) (assumption, simp)
  qed
qed

lemma shift_callback_nil: "holds_callbacks l [] \<Longrightarrow> redisShiftCallback l = Inr (REDIS_ERR, None, l)"
  by (auto simp: holds_callbacks_def redisShiftCallback_def elim: chain.elims)

lemma shift_callback_cons:
  assumes h: "holds_callbacks l ((f, d) # xs)"
  shows "\<exists>nx l'. redisShiftCallback l = Inr (REDIS_OK, Some \<lparr>cb_next = nx, cb_fn = f, cb_privdata = d\<rparr>, l') \<and> holds_callbacks l' xs"
proof -
  from h obtain a as where as: "chain (cl_nodes l) (cl_head l) (a # as) ((f, d) # xs)" "distinct (a # as)" "cl_tail l = Some (last (a # as))"
    "dom (cl_nodes l) = set (a # as)" "\<forall>a\<in>set (a # as). a < cl_fresh l"
    by (auto simp: holds_callbacks_def elim: chain.elims)
  then obtain nx where nx: "cl_head l = Some a" "cl_nodes l a = Some \<lparr>cb_next = nx, cb_fn = f, cb_privdata = d\<rparr>" "chain (cl_nodes l) nx as xs"
    by auto
  have "chain ((cl_nodes l)(a := None)) nx as xs" using nx(3) as(2) by (intro chain_cong [OF nx(3)]) auto
  moreover have "(Some a = cl_tail l) = (as = [])" using as(2,3) by (cases as rule: rev_cases) auto
  moreover have "dom ((cl_nodes l)(a := None)) = set as" using as(2,4) by auto
  note as' = calculation
  let ?l = "l\<lparr>cl_head := nx, cl_tail := (if as = [] then None else cl_tail l), cl_nodes := (cl_nodes l)(a := None)\<rparr>"
  have "holds_callbacks ?l xs"
    unfolding holds_callbacks_def using as(2,3,5) as' \<open>dom ((cl_nodes l)(a := None)) = set as\<close>
    by (intro exI [of _ as]) simp
  moreover have "redisShiftCallback l = Inr (REDIS_OK, Some \<lparr>cb_next = nx, cb_fn = f, cb_privdata = d\<rparr>, ?l)"
    using nx \<open>(Some a = cl_tail l) = (as = [])\<close> by (simp add: redisShiftCallback_def Let_def)
  ultimately show ?thesis by blast
qed

interpretation callback_queue: fifo holds_callbacks "push_callback mal" shift_callback for mal
proof
  fix q xs x
  show "holds_callbacks q xs \<Longrightarrow>
    \<exists>st q'. push_callback mal q x = Inr (st, q') \<and> holds_callbacks q' (if st = REDIS_OK then xs @ [x] else xs)"
    using push_callback_ok [of q xs mal "user_fn (fst x) (snd x)"] by (simp only: push_callback_def) (simp only: user_fn_def redisCallback.simps prod.collapse)
  show "holds_callbacks q [] \<Longrightarrow> shift_callback q = Inr (REDIS_ERR, None, q)"
    by (simp add: shift_callback_def shift_callback_nil)
  show "holds_callbacks q (x # xs) \<Longrightarrow> \<exists>q'. shift_callback q = Inr (REDIS_OK, Some x, q') \<and> holds_callbacks q' xs"
    using shift_callback_cons [of q "fst x" "snd x" xs] by (auto simp: shift_callback_def)
qed

subsection \<open>The type of the tables\<close>

lemma channel_compare: "callbackKeyCompare (chan_bytes k) (chan_bytes k') \<longleftrightarrow> k = k'"
proof -
  have l: "length (chan_bytes c) < 2 ^ 31" for c using chan_bytes [of c] by simp
  then have "to_int32 (int (length (chan_bytes c))) = int (length (chan_bytes c))" for c by (subst to_int32_id) (auto simp: less_imp_le order_less_trans)
  moreover have "nat (int (length (chan_bytes c)) mod 2 ^ 64) = length (chan_bytes c)" for c
    using l [of c] by (subst mod_pos_pos_trivial) auto
  ultimately show ?thesis by (auto simp: callbackKeyCompare_def Let_def chan_bytes_inject)
qed

lemma callbackDict_simps [simp]:
  "dictCompareHashKeys callbackDict k k' \<longleftrightarrow> k = k'" "dictSetHashKey callbackDict k = k" "dictSetHashVal callbackDict v = v"
  by (simp_all add: dictCompareHashKeys_def dictSetHashKey_def dictSetHashVal_def callbackDict_def channel_compare callbackValDup_def)

interpretation callback_dict: dict_type callbackDict
  by unfold_locales auto

unbundle bit_operations_syntax

subsection \<open>A context that is closing\<close>

text \<open>
  Once one of the flags \<open>REDIS_DISCONNECTING\<close> and \<open>REDIS_FREEING\<close> is set, no command is accepted, and
  whatever a callback asks for changes nothing but these flags.
\<close>

abbreviation (input) CLOSING :: "32 word" where "CLOSING \<equiv> REDIS_DISCONNECTING OR REDIS_FREEING"

abbreviation (input) with_flags :: "32 word \<Rightarrow> redisAsyncContext \<Rightarrow> redisAsyncContext" where
  "with_flags fl \<equiv> upd_c (\<lambda>c. c\<lparr>c_flags := fl\<rparr>)"

definition later_flags :: "bool \<times> 32 word \<Rightarrow> 32 word \<Rightarrow> bool" where
  \<comment> \<open>what callbacks make of the flags of a closing context; the first component says that they may free it\<close>
  "later_flags x fl' \<longleftrightarrow> fl' AND REDIS_CONNECTED = snd x AND REDIS_CONNECTED \<and> (snd x AND REDIS_FREEING \<noteq> 0 \<longrightarrow> fl' AND REDIS_FREEING \<noteq> 0) \<and>
     (fl' AND REDIS_FREEING \<noteq> 0 \<longrightarrow> fst x \<or> snd x AND REDIS_FREEING \<noteq> 0) \<and> fl' AND CLOSING \<noteq> 0"

definition never_frees :: "'u callbacks \<Rightarrow> bool" where
  \<comment> \<open>no callback calls \<open>redisAsyncFree\<close>\<close>
  "never_frees cbs \<longleftrightarrow> (\<forall>f d r h u. AFree \<notin> set (fst (cbs f d r h u)))"

lemma upd_c_simps [simp]:
  "a_c (upd_c f ac) = f (a_c ac)" "a_replies (upd_c f ac) = a_replies ac" "a_invalid (upd_c f ac) = a_invalid ac"
  "a_channels (upd_c f ac) = a_channels ac" "a_patterns (upd_c f ac) = a_patterns ac" "a_err (upd_c f ac) = a_err ac"
  "a_cleanup (upd_c f ac) = a_cleanup ac" "a_onDisconnect (upd_c f ac) = a_onDisconnect ac"
  "upd_c f (upd_c g ac) = upd_c (\<lambda>c. f (g c)) ac"
  by (simp_all add: upd_c_def)

lemma upd_c_commute [simp]:
  "upd_c f (ac\<lparr>a_replies := l\<rparr>) = (upd_c f ac)\<lparr>a_replies := l\<rparr>" "upd_c f (ac\<lparr>a_invalid := l\<rparr>) = (upd_c f ac)\<lparr>a_invalid := l\<rparr>"
  "upd_c f (ac\<lparr>a_channels := t\<rparr>) = (upd_c f ac)\<lparr>a_channels := t\<rparr>" "upd_c f (ac\<lparr>a_patterns := t\<rparr>) = (upd_c f ac)\<lparr>a_patterns := t\<rparr>"
  by (simp_all add: upd_c_def)

lemma flags_or: "(x OR m) AND (k :: 32 word) = (x AND k) OR (m AND k)"
  by (rule bit.conj_disj_distrib2)

lemma flags_not: "NOT m AND k = k \<Longrightarrow> (x AND NOT m) AND (k :: 32 word) = x AND k"
  by (simp add: and.assoc)

lemmas flags_not_callback = flags_not [of 16 2, simplified] flags_not [of 16 8, simplified] flags_not [of 16 12, simplified]

lemma later_flags_refl: "snd x AND CLOSING \<noteq> 0 \<Longrightarrow> later_flags x (snd x)"
  by (simp add: later_flags_def)

lemma later_flags_step:
  assumes "later_flags x y"
  shows "later_flags x (y OR 16)" "fst x \<Longrightarrow> later_flags x (y OR 8)" "later_flags x (y OR 4)" "later_flags x (y AND NOT 16)"
  using assms by (auto simp: later_flags_def flags_or flags_not_callback or_eq_0_iff)

lemma perform_closing:
  "later_flags x (c_flags (a_c ac)) \<Longrightarrow> fst x \<or> AFree \<notin> set as \<Longrightarrow> \<exists>fl. perform mal as ac e = Inr (with_flags fl ac, e) \<and> later_flags x fl"
proof (induction mal as ac e rule: perform.induct)
  case (1 mal ac e)
  have "with_flags (c_flags (a_c ac)) ac = ac" by (simp add: upd_c_def)
  with 1 show ?case by (metis perform.simps(1))
next
  case (2 mal fn privdata cmd len as ac e)
  then have "async_command mal ac e fn privdata cmd len = Inr (REDIS_ERR, ac, e)"
    by (simp add: async_command_def flag_set_def later_flags_def)
  with 2 show ?case by simp
next
  case (3 mal as ac e)
  from 3 show ?case by (auto simp: set_flag_def later_flags_step)
next
  case (4 mal as ac e)
  from 4 show ?case by (auto simp: set_flag_def later_flags_step)
qed

definition ran :: "(nat \<times> nat) list \<Rightarrow> 'u env \<Rightarrow> 'u env \<Rightarrow> bool" where
  \<comment> \<open>every callback ran once, in this order, with the reply NULL, and nothing else happened\<close>
  "ran xs e e' \<longleftrightarrow> e_heap e' = e_heap e \<and> e_world e' = e_world e \<and>
     e_events e' = e_events e @ map (\<lambda>(f, d). EvCallback f d 0) (filter (\<lambda>x. fst x \<noteq> 0) xs)"

lemma ran_trans: "ran xs e e' \<Longrightarrow> ran ys e' e'' \<Longrightarrow> ran (xs @ ys) e e''"
  by (simp add: ran_def)

lemma ran_nil: "ran [] e e"
  by (simp add: ran_def)

lemma RunCallback_closing:
  assumes "later_flags x (c_flags (a_c ac))" and nf: "fst x \<or> never_frees cbs"
  shows "\<exists>fl e'. redisRunCallback mal cbs ac e cb 0 = Inr (with_flags fl ac, e') \<and> later_flags x fl \<and> ran [(cb_fn cb, cb_privdata cb)] e e'"
proof (cases "cb_fn cb = 0")
  case True
  moreover have "with_flags (c_flags (a_c ac)) ac = ac" by (simp add: upd_c_def)
  ultimately show ?thesis using assms(1) by (intro exI [of _ "c_flags (a_c ac)"] exI [of _ e]) (simp add: redisRunCallback_def ran_def)
next
  case False
  let ?ac = "upd_c (set_flag REDIS_IN_CALLBACK) ac" and ?e = "emit (EvCallback (cb_fn cb) (cb_privdata cb) 0) e"
  obtain as u where u: "cbs (cb_fn cb) (cb_privdata cb) 0 (e_heap ?e) (e_user ?e) = (as, u)" by fastforce
  have "later_flags x (c_flags (a_c ?ac))" using later_flags_step(1) [OF assms(1)] by (simp add: set_flag_def)
  moreover have "fst x \<or> AFree \<notin> set as" using nf u unfolding never_frees_def by (metis fst_conv)
  from perform_closing [OF calculation this, of mal "?e\<lparr>e_user := u\<rparr>"] obtain fl where
    p: "perform mal as ?ac (?e\<lparr>e_user := u\<rparr>) = Inr (with_flags fl ?ac, ?e\<lparr>e_user := u\<rparr>)" "later_flags x fl" by blast
  have "redisRunCallback mal cbs ac e cb 0 = Inr (with_flags (fl AND NOT 16) ac, ?e\<lparr>e_user := u\<rparr>)"
    using False u p(1) by (simp add: redisRunCallback_def clear_flag_def set_flag_def)
  moreover have "ran [(cb_fn cb, cb_privdata cb)] e (?e\<lparr>e_user := u\<rparr>)" using False by (simp add: ran_def emit_def)
  ultimately show ?thesis using later_flags_step(4) [OF p(2)] by blast
qed

lemma drain_closing:
  assumes "\<And>l ac. get (put l ac) = l" and "\<And>l l' ac. put l (put l' ac) = put l ac" and "\<And>f ac. get (upd_c f ac) = get ac"
    and "\<And>f l ac. upd_c f (put l ac) = put l (upd_c f ac)" and "\<And>l ac. a_c (put l ac) = a_c ac"
    and nf: "fst x \<or> never_frees cbs"
    and sh: "\<And>ac. shift ac = bindE (redisShiftCallback (get ac)) (\<lambda>(st, cb, l). Inr (cb, put l ac))"
  shows "later_flags x (c_flags (a_c ac)) \<Longrightarrow> holds_callbacks (get ac) xs \<Longrightarrow>
    \<exists>fl l e'. drain shift mal cbs ac e = Some (Inr (put l (with_flags fl ac), e')) \<and> holds_callbacks l [] \<and> later_flags x fl \<and> ran xs e e'"
proof (induction xs arbitrary: ac e)
  case Nil
  have "with_flags (c_flags (a_c ac)) ac = ac" by (simp add: upd_c_def)
  with Nil show ?case
    by (intro exI [of _ "c_flags (a_c ac)"] exI [of _ "get ac"] exI [of _ e]) (simp add: drain.simps [of shift mal cbs ac] sh [of ac] shift_callback_nil ran_nil)
next
  case (Cons y xs)
  obtain f d where y: "y = (f, d)" by fastforce
  from shift_callback_cons [of "get ac" f d xs] Cons.prems(2) y obtain nx l where
    l: "redisShiftCallback (get ac) = Inr (REDIS_OK, Some \<lparr>cb_next = nx, cb_fn = f, cb_privdata = d\<rparr>, l)" "holds_callbacks l xs" by blast
  let ?cb = "\<lparr>cb_next = nx, cb_fn = f, cb_privdata = d\<rparr>" and ?ac = "put l ac"
  have "later_flags x (c_flags (a_c ?ac))" using Cons.prems(1) assms(5) by simp
  from RunCallback_closing [OF this nf, of mal e ?cb] obtain fl e1 where
    r: "redisRunCallback mal cbs ?ac e ?cb 0 = Inr (with_flags fl ?ac, e1)" "later_flags x fl" "ran [y] e e1" using y by auto
  have "later_flags x (c_flags (a_c (with_flags fl ?ac)))" "holds_callbacks (get (with_flags fl ?ac)) xs"
    using r(2) l(2) assms(1,3) by simp_all
  from Cons.IH [OF this, of e1] obtain fl' l' e2 where
    d: "drain shift mal cbs (with_flags fl ?ac) e1 = Some (Inr (put l' (with_flags fl' (with_flags fl ?ac)), e2))"
    "holds_callbacks l' []" "later_flags x fl'" "ran xs e1 e2" by blast
  have "put l' (with_flags fl' (with_flags fl ?ac)) = put l' (with_flags fl' ac)" using assms(2,4) by simp
  moreover have "drain shift mal cbs ac e = drain shift mal cbs (with_flags fl ?ac) e1"
    using r(1) by (subst drain.simps) (simp add: sh [of ac] l(1))
  ultimately show ?case using d ran_trans [OF r(3) d(4)] by auto
qed

lemmas drain_replies_closing =
  drain_closing [where get = a_replies and put = "\<lambda>l ac. ac\<lparr>a_replies := l\<rparr>" and shift = shift_replies, OF _ _ _ _ _ _ shift_replies_def, simplified]

lemmas drain_invalid_closing =
  drain_closing [where get = a_invalid and put = "\<lambda>l ac. ac\<lparr>a_invalid := l\<rparr>" and shift = shift_invalid, OF _ _ _ _ _ _ shift_invalid_def, simplified]

definition table_callbacks :: "(channel, redisCallback) dict \<Rightarrow> (nat \<times> nat) list" where
  "table_callbacks ht = map (\<lambda>de. (cb_fn (de_val de), cb_privdata (de_val de))) (entries ht)"

lemma load_entry_ok: "dict_ok ty ht \<Longrightarrow> e \<in> set (entries ht) \<Longrightarrow> load_entry ht (de_addr e) = Inr e"
proof -
  assume ok: "dict_ok ty ht" and e: "e \<in> set (entries ht)"
  from e obtain t where t: "dt_table ht = Some t" "e \<in> set (concat t)" by (cases "dt_table ht") (simp_all add: entries_def)
  have "distinct (map de_addr (concat t))" using ok t(1) by (simp add: dict_ok_def entries_def)
  then have "\<forall>y\<in>set (concat t). de_addr y = de_addr e \<longrightarrow> y = e" using t(2) by (metis (no_types, lifting) distinct_map inj_onD)
  from find_unique [of e "concat t" "\<lambda>he. de_addr he = de_addr e", OF t(2) refl this] t(1) show ?thesis by (simp add: load_entry_def)
qed

lemma run_table_closing:
  assumes ok: "dict_ok callbackDict ht" and tbl: "\<And>f ac. tbl (upd_c f ac) = tbl ac" and nf: "fst x \<or> never_frees cbs"
  shows "tbl ac = Some ht \<Longrightarrow> later_flags x (c_flags (a_c ac)) \<Longrightarrow> iter_ok ht it rest \<Longrightarrow> set rest \<subseteq> set (entries ht) \<Longrightarrow>
    \<exists>fl e'. run_table tbl mal cbs it ac e = Some (Inr (with_flags fl ac, e')) \<and> later_flags x fl \<and>
      ran (map (\<lambda>de. (cb_fn (de_val de), cb_privdata (de_val de))) rest) e e'"
proof (induction rest arbitrary: it ac e)
  case Nil
  have "with_flags (c_flags (a_c ac)) ac = ac" by (simp add: upd_c_def)
  with dictNext_ok [OF ok Nil(3)] Nil(1,2) show ?case
    by (intro exI [of _ "c_flags (a_c ac)"] exI [of _ e]) (auto simp: run_table.simps [of tbl] ran_nil)
next
  case (Cons de rest)
  from dictNext_ok [OF ok Cons.prems(3)] obtain it' where it: "dictNext ht it = Inr (Some (de_addr de), it')" "iter_ok ht it' rest" by auto
  have ld: "load_entry ht (de_addr de) = Inr de" using load_entry_ok [OF ok] Cons.prems(4) by simp
  from RunCallback_closing [OF Cons.prems(2) nf, of mal e "de_val de"] obtain fl e1 where
    r: "redisRunCallback mal cbs ac e (de_val de) 0 = Inr (with_flags fl ac, e1)" "later_flags x fl"
    "ran [(cb_fn (de_val de), cb_privdata (de_val de))] e e1" by blast
  from Cons.IH [of "with_flags fl ac" it' e1] tbl Cons.prems(1,4) r(2) it(2) obtain fl' e2 where
    n: "run_table tbl mal cbs it' (with_flags fl ac) e1 = Some (Inr (with_flags fl' (with_flags fl ac), e2))" "later_flags x fl'"
    "ran (map (\<lambda>de. (cb_fn (de_val de), cb_privdata (de_val de))) rest) e1 e2" by auto
  have "run_table tbl mal cbs it ac e = run_table tbl mal cbs it' (with_flags fl ac) e1"
    using Cons.prems(1) it(1) ld r(1) by (subst run_table.simps) simp
  with n ran_trans [OF r(3) n(3)] show ?case by auto
qed

lemma table_closing:
  assumes g: "grants_all mal" and ok: "dict_ok callbackDict ht" and tbl: "\<And>f ac. tbl (upd_c f ac) = tbl ac"
    and ac: "tbl ac = Some ht" "later_flags x (c_flags (a_c ac))" and nf: "fst x \<or> never_frees cbs"
  shows "\<exists>it fl e'. dictGetIterator mal = Inr it \<and> run_table tbl mal cbs it ac e = Some (Inr (with_flags fl ac, e')) \<and> later_flags x fl \<and>
    ran (table_callbacks ht) e e' \<and> release_table (tbl ac) = Inr ()"
proof -
  from iterator_start [OF g, of ht] obtain it where it: "dictGetIterator mal = Inr it" "iter_ok ht it (entries ht)" by blast
  from dictClear_ok [OF ok] ac(1) have "release_table (tbl ac) = Inr ()"
    by (auto simp: release_table_def dictRelease_def)
  with it run_table_closing [where tbl = tbl, OF ok tbl nf ac it(2), of mal e] show ?thesis by (auto simp: table_callbacks_def)
qed

definition callback_events :: "(nat \<times> nat) list \<Rightarrow> event list" where
  \<comment> \<open>each callback that is not NULL runs once, with the reply NULL\<close>
  "callback_events xs = map (\<lambda>(f, d). EvCallback f d 0) (filter (\<lambda>x. fst x \<noteq> 0) xs)"

definition async_holds ::
  "redisAsyncContext \<Rightarrow> reply_heap \<Rightarrow> (nat \<times> nat) list \<Rightarrow> (nat \<times> nat) list \<Rightarrow> (channel, redisCallback) dict \<Rightarrow> (channel, redisCallback) dict \<Rightarrow> bool" where
  \<comment> \<open>a well-formed context with the given callbacks and subscriptions\<close>
  "async_holds ac h xs ys ch pt \<longleftrightarrow> holds_callbacks (a_replies ac) xs \<and> holds_callbacks (a_invalid ac) ys \<and>
     a_channels ac = Some ch \<and> dict_ok callbackDict ch \<and> a_patterns ac = Some pt \<and> dict_ok callbackDict pt \<and> rh_inv h \<and>
     (\<exists>rd. c_reader (a_c ac) = Some rd \<and> reader_inv rh_arr rh_root rd h)"

definition closed_world :: "os \<Rightarrow> redisContext \<Rightarrow> world \<Rightarrow> world" where
  "closed_world os c w = (if c_fd c > 0 then snd (sys os (Sy_close (c_fd c)) w) else w)"

lemma redisFree_closes:
  assumes "c_reader c = Some rd" "reader_inv rh_arr rh_root rd h" "rh_inv h"
  shows "\<exists>h'. redisFree os (defaultFunctions mal) (Some c) h w = Inr (h', closed_world os c w) \<and> rh_inv h'"
proof -
  from default_replies.redisReaderFree_ok [OF assms(2,3), of mal] obtain h' where
    "redisReaderFree (defaultFunctions mal) rd h = Inr h'" "rh_inv h'" by blast
  with assms(1) show ?thesis by (simp add: redisFree_def closed_world_def Let_def)
qed

definition farewell :: "redisAsyncContext \<Rightarrow> int \<Rightarrow> event list" where
  \<comment> \<open>what the event library and the user hear in the end\<close>
  "farewell ac st = (if a_cleanup ac then [EvCleanup] else []) @
     (if a_onDisconnect ac \<and> a_flag ac REDIS_CONNECTED then [EvDisconnect st] else [])"

lemma async_free_ok:
  assumes g: "grants_all mal" and cl: "a_flag ac CLOSING" and h: "async_holds ac (e_heap e) xs ys ch pt"
  shows "\<exists>e' st. async_free os mal cbs ac e = Some (Inr e') \<and>
    e_events e' = e_events e @ callback_events (xs @ ys @ table_callbacks ch @ table_callbacks pt) @ farewell ac st \<and>
    (a_flag ac REDIS_FREEING \<or> a_err ac = 0 \<longrightarrow> st = REDIS_OK) \<and>
    (\<not> a_flag ac REDIS_FREEING \<and> a_err ac \<noteq> 0 \<and> never_frees cbs \<longrightarrow> st = REDIS_ERR) \<and>
    e_world e' = closed_world os (a_c ac) (e_world e) \<and> rh_inv (e_heap e')"
proof -
  let ?x = "(\<not> never_frees cbs, c_flags (a_c ac))"
  have nf: "fst ?x \<or> never_frees cbs" by simp
  from h obtain rd where hh: "holds_callbacks (a_replies ac) xs" "holds_callbacks (a_invalid ac) ys"
    "a_channels ac = Some ch" "dict_ok callbackDict ch" "a_patterns ac = Some pt" "dict_ok callbackDict pt" "rh_inv (e_heap e)"
    and rd: "c_reader (a_c ac) = Some rd" "reader_inv rh_arr rh_root rd (e_heap e)" by (auto simp: async_holds_def)
  have lx: "later_flags ?x (c_flags (a_c ac))" using cl later_flags_refl [of ?x] by (simp add: flag_set_def)
  from drain_replies_closing [OF nf lx hh(1), of mal e] obtain f1 l1 e1 where
    1: "drain shift_replies mal cbs ac e = Some (Inr ((with_flags f1 ac)\<lparr>a_replies := l1\<rparr>, e1))" "later_flags ?x f1" "ran xs e e1" by blast
  let ?a1 = "(with_flags f1 ac)\<lparr>a_replies := l1\<rparr>"
  have "later_flags ?x (c_flags (a_c ?a1))" "holds_callbacks (a_invalid ?a1) ys" using 1(2) hh(2) by simp_all
  from drain_invalid_closing [OF nf this, of mal e1] obtain f2 l2 e2 where
    2: "drain shift_invalid mal cbs ?a1 e1 = Some (Inr ((with_flags f2 ?a1)\<lparr>a_invalid := l2\<rparr>, e2))" "later_flags ?x f2" "ran ys e1 e2" by blast
  let ?a2 = "(with_flags f2 ?a1)\<lparr>a_invalid := l2\<rparr>"
  have "a_channels ?a2 = Some ch" "later_flags ?x (c_flags (a_c ?a2))" using hh(3) 2(2) by simp_all
  from table_closing [OF g hh(4) upd_c_simps(4) this nf, of e2] obtain it f3 e3 where
    3: "dictGetIterator mal = Inr it" "run_table a_channels mal cbs it ?a2 e2 = Some (Inr (with_flags f3 ?a2, e3))" "later_flags ?x f3"
    "ran (table_callbacks ch) e2 e3" "release_table (a_channels ?a2) = Inr ()" by blast
  let ?a3 = "(with_flags f3 ?a2)\<lparr>a_channels := None\<rparr>"
  have "a_patterns ?a3 = Some pt" "later_flags ?x (c_flags (a_c ?a3))" using hh(5) 3(3) by simp_all
  from table_closing [OF g hh(6) upd_c_simps(5) this nf, of e3] 3(1) obtain f4 e4 where
    4: "run_table a_patterns mal cbs it ?a3 e3 = Some (Inr (with_flags f4 ?a3, e4))" "later_flags ?x f4"
    "ran (table_callbacks pt) e3 e4" "release_table (a_patterns ?a3) = Inr ()" by auto
  let ?a4 = "with_flags f4 ?a3"
  have r: "ran (xs @ ys @ table_callbacks ch @ table_callbacks pt) e e4"
    using ran_trans [OF 1(3) ran_trans [OF 2(3) ran_trans [OF 3(4) 4(3)]]] by simp
  define st where "st = (if a_flag ?a4 REDIS_FREEING \<or> a_err ?a4 = 0 then REDIS_OK else REDIS_ERR)"
  define e6 where "e6 = last_events ?a4 e4"
  have e6: "e_heap e6 = e_heap e" "e_world e6 = e_world e"
    "e_events e6 = e_events e @ callback_events (xs @ ys @ table_callbacks ch @ table_callbacks pt) @ farewell ac st"
    using r 4(2) by (auto simp: e6_def st_def last_events_def Let_def hook_def emit_def ran_def callback_events_def farewell_def flag_set_def later_flags_def)
  have "c_reader (a_c ?a4) = Some rd" using rd(1) by simp
  from redisFree_closes [OF this rd(2) hh(7), of os mal "e_world e"] obtain h' where
    f: "redisFree os (defaultFunctions mal) (Some (a_c ?a4)) (e_heap e6) (e_world e6) = Inr (h', closed_world os (a_c ?a4) (e_world e))"
    "rh_inv h'" using e6 by auto
  have "async_free os mal cbs ac e = Some (Inr (e6\<lparr>e_heap := h', e_world := closed_world os (a_c ?a4) (e_world e)\<rparr>))"
    unfolding async_free_def
    using 1(1) 2(1) 3(1,2,5) 4(1,4) f(1) by (simp add: bindO_def Let_def e6_def)
  moreover have "(a_flag ac REDIS_FREEING \<or> a_err ac = 0 \<longrightarrow> st = REDIS_OK) \<and>
      (\<not> a_flag ac REDIS_FREEING \<and> a_err ac \<noteq> 0 \<and> never_frees cbs \<longrightarrow> st = REDIS_ERR)"
    using 4(2) by (auto simp: st_def flag_set_def later_flags_def)
  ultimately show ?thesis using e6(3) f(2) by (auto simp: closed_world_def)
qed

unbundle bit_operations_syntax

subsection \<open>Reading a formatted command\<close>

lemma find_char_at: "c \<notin> set pre \<Longrightarrow> NUL \<notin> set pre \<Longrightarrow> find_char c (pre @ c # post) = Inr (Some (length pre))"
  by (induction pre) auto

lemma find_char_absent: "c \<notin> set pre \<Longrightarrow> NUL \<notin> set pre \<Longrightarrow> c \<noteq> NUL \<Longrightarrow> find_char c (pre @ NUL # post) = Inr None"
  by (induction pre) auto

lemma strtol10_decimal:
  assumes "n < 2 ^ 63"
  shows "strtol10 (decimal n @ CRLF @ rest) = Inr (int n)"
proof -
  obtain d ds where d: "decimal n = d # ds" "is_digit d" using decimal_nonempty [of n] decimal_digits [of _ n] by (cases "decimal n") auto
  have ns: "\<not> isspace d" "d \<noteq> CHR ''-''" "d \<noteq> CHR ''+''" using d(2) by (auto simp: is_digit_def isspace_def)
  have all: "\<forall>c\<in>set (decimal n). is_digit c" using decimal_digits by blast
  have "\<not> is_digit (CHR 0x0D)" by (simp add: is_digit_def)
  then have tw: "takeWhile is_digit (decimal n @ CRLF @ rest) = decimal n" "dropWhile is_digit (decimal n @ CRLF @ rest) = CRLF @ rest"
    using all by (simp_all add: takeWhile_append2 dropWhile_append2)
  have sp: "dropWhile isspace (decimal n @ CRLF @ rest) = decimal n @ CRLF @ rest" using d(1) ns by simp
  have sg: "(case decimal n @ CRLF @ rest of
      c # cs \<Rightarrow> if c = CHR ''-'' then (True, cs) else if c = CHR ''+'' then (False, cs) else (False, decimal n @ CRLF @ rest)
    | [] \<Rightarrow> (False, [])) = (False, decimal n @ CRLF @ rest)"
    using d(1) ns by simp
  show ?thesis unfolding strtol10_def Let_def sp sg prod.case tw using assms by (simp add: min_def)
qed

lemma argument_at_bulk:
  assumes d: "drop p cmd = bulk_bytes x @ rest" and n: "length x < 2 ^ 31"
  shows "argument_at cmd p = Inr (p + length (bulk_bytes x), p + length (decimal (length x)) + 3, length x)"
    and "drop (p + length (decimal (length x)) + 3) cmd = x @ CRLF @ rest"
    and "drop (p + length (bulk_bytes x)) cmd = rest"
proof -
  let ?ds = "decimal (length x)"
  have d': "drop p cmd = (CHR ''$'' # ?ds) @ CHR 0x0D # CHR 0x0A # x @ CRLF @ rest" using d by (simp add: bulk_bytes_def)
  have "drop (p + 1) cmd = tl (drop p cmd)" by (simp add: drop_Suc tl_drop)
  then have s: "strtol10 (drop (p + 1) cmd) = Inr (int (length x))" using strtol10_decimal [of "length x" "x @ CRLF @ rest"] n d' by simp
  have dg: "\<forall>c\<in>set ?ds. is_digit c" using decimal_digits by blast
  then have "CHR 0x0D \<notin> set (CHR ''$'' # ?ds)" "NUL \<notin> set (CHR ''$'' # ?ds)" by (auto simp: is_digit_def)
  from find_char_at [OF this] have f: "find_char (CHR 0x0D) (drop p cmd) = Inr (Some (Suc (length ?ds)))" unfolding d' by simp
  have i: "to_int32 (int (length x)) = int (length x)" using n by (intro to_int32_id) auto
  have m: "nat (int (length x) mod 2 ^ 64) = length x" using n by simp
  show "argument_at cmd p = Inr (p + length (bulk_bytes x), p + length ?ds + 3, length x)"
    unfolding argument_at_def s f using n by (simp add: i m [simplified] bulk_bytes_def nat_add_distrib)
  have "drop (p + length ?ds + 3) cmd = drop (length ?ds + 3) (drop p cmd)" by (simp add: add.commute add.left_commute)
  also have "drop p cmd = (CHR ''$'' # ?ds @ CRLF) @ x @ CRLF @ rest" using d' by simp
  also have "drop (length ?ds + 3) \<dots> = x @ CRLF @ rest" by (subst drop_append) simp
  finally show "drop (p + length ?ds + 3) cmd = x @ CRLF @ rest" .
  have "drop (p + length (bulk_bytes x)) cmd = drop (length (bulk_bytes x)) (drop p cmd)" by (simp add: add.commute)
  then show "drop (p + length (bulk_bytes x)) cmd = rest" by (simp add: d)
qed

lemma drop_peek: "drop p cmd = c # r \<Longrightarrow> peek cmd p = Inr c"
  by (auto simp: peek_def nth_via_drop) (metis drop_all list.distinct(1) not_le)

lemma nextArgument_bulk:
  assumes "drop p cmd = bulk_bytes x @ rest" "length x < 2 ^ 31"
  shows "nextArgument cmd p = Inr (Some (p + length (bulk_bytes x), p + length (decimal (length x)) + 3, length x))"
  using argument_at_bulk [OF assms] assms(1) drop_peek [of p cmd "CHR ''$''"] by (simp add: nextArgument_def bulk_bytes_def)

lemma nextArgument_end:
  assumes "drop p cmd = NUL # rest"
  shows "nextArgument cmd p = Inr None"
  using drop_peek [OF assms] assms by (simp add: nextArgument_def)

lemma nextArgument_first:
  assumes "cmd = command_bytes (x # xs) @ rest" "length x < 2 ^ 31"
  defines "q \<equiv> 3 + length (decimal (Suc (length xs)))"
  shows "nextArgument cmd 0 = Inr (Some (q + length (bulk_bytes x), q + length (decimal (length x)) + 3, length x))"
    and "drop q cmd = bulk_bytes x @ concat (map bulk_bytes xs) @ rest"
proof -
  let ?pre = "CHR ''*'' # decimal (Suc (length xs)) @ CRLF"
  let ?post = "decimal (length x) @ CRLF @ x @ CRLF @ concat (map bulk_bytes xs) @ rest"
  have c: "cmd = ?pre @ CHR ''$'' # ?post" using assms(1) by (simp add: command_bytes_def bulk_bytes_def)
  have dg: "\<forall>c\<in>set (decimal (Suc (length xs))). is_digit c" using decimal_digits by blast
  have "CHR ''$'' \<notin> set ?pre" "NUL \<notin> set ?pre" using dg by (auto simp: is_digit_def)
  from find_char_at [OF this] have f: "find_char (CHR ''$'') (drop 0 cmd) = Inr (Some q)" unfolding c by (simp add: q_def)
  have "cmd = ?pre @ bulk_bytes x @ concat (map bulk_bytes xs) @ rest" using assms(1) by (simp add: command_bytes_def)
  moreover have "length ?pre = q" by (simp add: q_def)
  ultimately show d: "drop q cmd = bulk_bytes x @ concat (map bulk_bytes xs) @ rest" by (metis append_eq_conv_conj)
  have "peek cmd 0 = Inr (CHR ''*'')" unfolding c by (simp add: peek_def)
  with f argument_at_bulk [OF d assms(2)]
  show "nextArgument cmd 0 = Inr (Some (q + length (bulk_bytes x), q + length (decimal (length x)) + 3, length x))"
    by (simp add: nextArgument_def)
qed

subsection \<open>The name of a command\<close>

definition pattern_variant :: "char list \<Rightarrow> bool" where
  "pattern_variant x \<longleftrightarrow> x \<noteq> [] \<and> c_tolower (hd x) = CHR ''p''"

definition base_name :: "char list \<Rightarrow> char list" where
  \<comment> \<open>the name in lower case, without a leading \<open>p\<close>\<close>
  "base_name x = map c_tolower (if pattern_variant x then tl x else x)"

definition names :: "char list \<Rightarrow> char list \<Rightarrow> bool" where
  \<comment> \<open>what the comparison with \<open>lit\<close> and the end of the argument finds equal\<close>
  "names lit x \<longleftrightarrow> take (length lit + 2) (base_name x @ CRLF) = lit @ CRLF"

lemma strncasecmp_eq_name:
  assumes "CHR 0x0D \<notin> set lit" and "map c_tolower lit = lit"
  shows "strncasecmp_eq (x @ CRLF @ rest) (lit @ CRLF) = Inr (take (length lit + 2) (map c_tolower x @ CRLF) = lit @ CRLF)"
  using assms
proof (induction lit arbitrary: x)
  case Nil
  have l: "c_tolower (CHR 0x0D) = CHR 0x0D" "c_tolower (CHR 0x0A) = CHR 0x0A" by (simp_all add: c_tolower_def)
  then show ?case by (cases x; cases "tl x") auto
next
  case (Cons l lit)
  have c: "c_tolower (CHR 0x0D) = CHR 0x0D" by (simp add: c_tolower_def)
  show ?case
  proof (cases x)
    case Nil
    with Cons.prems c show ?thesis by auto
  next
    case (Cons a as)
    with Cons.IH [of as] Cons.prems show ?thesis by auto
  qed
qed

end
