(* ===== verification/AsyncProps.thy ===== *)
theory AsyncProps
  imports AsyncSpec
begin

unbundle bit_operations_syntax

section \<open>What the asynchronous interface promises\<close>

text \<open>
  The queues of callbacks, the ways in which a context ends, and how commands, subscriptions and
  replies meet their callbacks.
\<close>

text \<open>
  C35. A list of callbacks is a queue: whatever sequence of callbacks is pushed and shifted, the
  results are those of a list, a push that fails for lack of memory leaving it as it was. No access
  leaves the nodes that are alive.
\<close>

theorem callback_lists_are_queues:
  assumes "holds_callbacks l xs"
  shows "\<exists>rs l' ys. queue_run (push_callback mal) shift_callback ops l = Inr (rs, l') \<and> queue_spec ops rs xs = Some ys \<and> holds_callbacks l' ys"
  by (rule callback_queue.run_refines [OF assms])

lemma holds_empty: "holds_callbacks empty_callbacks []"
  by (auto simp: holds_callbacks_def empty_callbacks_def)

theorem callback_lists_are_queues_witness:
  "\<exists>rs l' ys. queue_run (push_callback zero_alloc) shift_callback [Some (1, 7), Some (2, 8), None, Some (3, 9), None, None, None] empty_callbacks =
     Inr (rs, l') \<and> holds_callbacks l' [] \<and> rs = [(0, None), (0, None), (0, Some (1, 7)), (0, None), (0, Some (2, 8)), (0, Some (3, 9)), (-1, None)]"
proof -
  let ?ops = "[Some (1, 7), Some (2, 8), None, Some (3, 9), None, None, None] :: (nat \<times> nat) option list"
  from callback_lists_are_queues [OF holds_empty, of zero_alloc ?ops] obtain rs l' ys where
    r: "queue_run (push_callback zero_alloc) shift_callback ?ops empty_callbacks = Inr (rs, l')" "queue_spec ?ops rs [] = Some ys"
    "holds_callbacks l' ys" by blast
  have e: "rs = [(0, None), (0, None), (0, Some (1, 7)), (0, None), (0, Some (2, 8)), (0, Some (3, 9)), (-1, None)]"
    using r(1) by (auto simp: push_callback_def shift_callback_def redisPushCallback_def redisShiftCallback_def zero_alloc_def empty_callbacks_def
      user_fn_def Let_def)
  have "ys = []" using r(2) by (simp add: e)
  with r e show ?thesis by blast
qed

text \<open>
  C36. \<open>redisAsyncFree\<close> outside a callback ends and frees the context, whatever the callbacks do:
  every pending callback, every callback of an invalid command and every subscription runs exactly
  once with the reply NULL, in this order; then the event library is told to clean up and the user,
  if the connection was established, that it is closed without an error; the socket is closed.
\<close>

theorem free_runs_every_callback:
  assumes "grants_all mal" and "\<not> a_flag ac REDIS_IN_CALLBACK" and "async_holds ac (e_heap e) xs ys ch pt"
  shows "\<exists>e'. redisAsyncFree os mal cbs ac e = Some (Inr (None, e')) \<and>
    e_events e' = e_events e @ callback_events (xs @ ys @ table_callbacks ch @ table_callbacks pt) @ farewell ac REDIS_OK \<and>
    e_world e' = closed_world os (a_c ac) (e_world e)"
proof -
  let ?ac = "upd_c (set_flag REDIS_FREEING) ac"
  have f: "a_flag ?ac CLOSING" "a_flag ?ac REDIS_FREEING" "\<not> a_flag ?ac REDIS_IN_CALLBACK" "farewell ?ac = farewell ac"
    "closed_world os (a_c ?ac) = closed_world os (a_c ac)"
    using assms(2) by (auto simp: flag_set_def set_flag_def flags_or or_eq_0_iff farewell_def closed_world_def fun_eq_iff)
  have "async_holds ?ac (e_heap e) xs ys ch pt" using assms(3) by (simp add: async_holds_def set_flag_def)
  from async_free_ok [OF assms(1) f(1) this, of os cbs] f show ?thesis
    by (auto simp: redisAsyncFree_def freed_def Let_def)
qed

lemma redisAsyncInitialize_holds:
  assumes g: "grants_all mal" and "c_reader c = Some rd" "reader_inv rh_arr rh_root rd h" "rh_inv h"
  shows "\<exists>ac ch pt. redisAsyncInitialize mal c = Inr (Some ac) \<and> async_holds ac h [] [] ch pt \<and> entries ch = [] \<and> entries pt = [] \<and>
    dt_used ch = 0 \<and> dt_used pt = 0 \<and>
    a_c ac = clear_flag REDIS_CONNECTED c \<and> a_err ac = 0 \<and> \<not> a_cleanup ac \<and> \<not> a_addWrite ac \<and> \<not> a_addRead ac \<and>
    \<not> a_onConnect ac \<and> \<not> a_onDisconnect ac"
proof -
  from dictCreate_ok [OF g, of callbackDict] obtain d where
    d: "dictCreate mal = Inr d" "dict_ok callbackDict d" "entries d = []" "dt_used d = 0" by blast
  have "mal 376 \<noteq> None" using g by (simp add: grants_all_def)
  with d assms(2-4) holds_empty show ?thesis
    by (auto simp: redisAsyncInitialize_def async_holds_def clear_flag_def)
qed

lemma rh_inv_empty: "rh_inv empty_heap"
  by (auto simp: rh_inv_def empty_heap_def rh_slots_def)

lemma idle_reader_inv: "idle rd \<Longrightarrow> reader_inv arr root rd h"
  by (simp add: reader_inv_def idle_def)

definition demo_env :: "unit env" where
  "demo_env = \<lparr>e_heap = empty_heap, e_world = fresh_world, e_events = [], e_user = ()\<rparr>"

lemma demo_context:
  "\<exists>c ac ch pt. redisConnectFd zero_alloc 3 = Inr (Some c) \<and> redisAsyncInitialize zero_alloc c = Inr (Some ac) \<and>
    async_holds ac empty_heap [] [] ch pt \<and> entries ch = [] \<and> entries pt = [] \<and> dt_used ch = 0 \<and> dt_used pt = 0 \<and>
    c_fd (a_c ac) = 3 \<and> c_err (a_c ac) = 0 \<and> c_flags (a_c ac) = 1 \<and> \<not> a_cleanup ac \<and> a_err ac = 0 \<and>
    \<not> a_addWrite ac \<and> outgoing (a_c ac) = [] \<and> obuf_ok (a_c ac) \<and>
    (\<exists>rd. c_reader (a_c ac) = Some rd \<and> idle rd \<and> reader_bytes rd = Inr [] \<and> rd_len rd = 0)"
proof -
  note g = grants_all_zero_alloc
  from redisContextInit_ok [OF g] obtain s rd where
    i: "redisContextInit zero_alloc = Inr (Some ((blank_context 0)\<lparr>c_obuf := Some s, c_reader := Some rd\<rparr>))"
    "sds_wf s" "sdsval s = []" "idle rd" "reader_bytes rd = Inr []" "rd_len rd = 0" by blast
  let ?c = "set_flag (REDIS_BLOCK OR REDIS_CONNECTED) ((blank_context 0)\<lparr>c_obuf := Some s, c_reader := Some rd, c_fd := 3\<rparr>)"
  have c: "redisConnectFd zero_alloc 3 = Inr (Some ?c)" using i(1) by (simp add: redisConnectFd_def)
  have "c_reader ?c = Some rd" by (simp add: set_flag_def)
  from redisAsyncInitialize_holds [OF g this idle_reader_inv [OF i(4)] rh_inv_empty] obtain ac ch pt where
    a: "redisAsyncInitialize zero_alloc ?c = Inr (Some ac)" "async_holds ac empty_heap [] [] ch pt" "entries ch = []" "entries pt = []"
    "dt_used ch = 0" "dt_used pt = 0" "a_c ac = clear_flag REDIS_CONNECTED ?c" "\<not> a_cleanup ac" "a_err ac = 0" "\<not> a_addWrite ac" by blast
  have "sdslen s = 0" using i(2,3) length_sdsval by fastforce
  with c a i show ?thesis
    by (auto simp: clear_flag_def set_flag_def blank_context_def outgoing_def obuf_ok_def)
qed

lemma demo_push:
  assumes "holds_callbacks l xs"
  shows "\<exists>l'. push_callback zero_alloc l x = Inr (REDIS_OK, l') \<and> holds_callbacks l' (xs @ [x])"
proof -
  from callback_queue.push_law [OF assms, of zero_alloc x] obtain st l' where
    p: "push_callback zero_alloc l x = Inr (st, l')" "holds_callbacks l' (if st = REDIS_OK then xs @ [x] else xs)" by blast
  have "st = REDIS_OK" using p(1)
    by (auto simp: push_callback_def redisPushCallback_def zero_alloc_def Let_def bindE_Inr_iff split: option.splits)
  with p show ?thesis by auto
qed

theorem free_runs_every_callback_witness:
  "\<exists>c ac l e'. redisConnectFd zero_alloc 3 = Inr (Some c) \<and> redisAsyncInitialize zero_alloc c = Inr (Some ac) \<and>
     push_callback zero_alloc (a_replies ac) (5, 7) = Inr (REDIS_OK, l) \<and>
     redisAsyncFree (demo_os (\<lambda>_. None)) zero_alloc (\<lambda>f d r h u. ([ACommand 5 8 ''*1'' 2, AFree], u))
       (upd_c (set_flag REDIS_CONNECTED) (ac\<lparr>a_replies := l, a_onDisconnect := True\<rparr>)) demo_env = Some (Inr (None, e')) \<and>
     e_events e' = [EvCallback 5 7 0, EvDisconnect REDIS_OK] \<and> map fst (w_calls (e_world e')) = [Sy_close 3]"
proof -
  let ?cbs = "\<lambda>(f::nat) (d::nat) (r::nat) (h::reply_heap) (u::unit). ([ACommand 5 8 ''*1'' 2, AFree], u)"
  let ?os = "demo_os (\<lambda>_. None)"
  from demo_context obtain c ac ch pt where
    d: "redisConnectFd zero_alloc 3 = Inr (Some c)" "redisAsyncInitialize zero_alloc c = Inr (Some ac)"
    "async_holds ac empty_heap [] [] ch pt" "entries ch = []" "entries pt = []" "c_fd (a_c ac) = 3" "c_flags (a_c ac) = 1" "\<not> a_cleanup ac"
    by blast
  have "holds_callbacks (a_replies ac) []" using d(3) by (simp add: async_holds_def)
  from demo_push [OF this] obtain l where
    l: "push_callback zero_alloc (a_replies ac) (5, 7) = Inr (REDIS_OK, l)" "holds_callbacks l [(5, 7)]" by auto
  let ?ac = "upd_c (set_flag REDIS_CONNECTED) (ac\<lparr>a_replies := l, a_onDisconnect := True\<rparr>)"
  have "async_holds ?ac (e_heap demo_env) [(5, 7)] [] ch pt"
    using d(3) l(2) by (simp add: async_holds_def set_flag_def demo_env_def)
  moreover have "\<not> a_flag ?ac REDIS_IN_CALLBACK" using d(7) by (simp add: flag_set_def set_flag_def)
  ultimately obtain e' where e: "redisAsyncFree ?os zero_alloc ?cbs ?ac demo_env = Some (Inr (None, e'))"
    "e_events e' = e_events demo_env @ callback_events ([(5, 7)] @ [] @ table_callbacks ch @ table_callbacks pt) @ farewell ?ac REDIS_OK"
    "e_world e' = closed_world ?os (a_c ?ac) (e_world demo_env)"
    using free_runs_every_callback [OF grants_all_zero_alloc, of ?ac demo_env "[(5, 7)]" "[]" ch pt ?os ?cbs] by blast
  have "e_events e' = [EvCallback 5 7 0, EvDisconnect REDIS_OK]" unfolding e(2)
    using d by (simp add: demo_env_def callback_events_def table_callbacks_def farewell_def flag_set_def set_flag_def upd_c_def)
  moreover have "map fst (w_calls (e_world e')) = [Sy_close 3]" unfolding e(3)
    using d(6) by (simp add: closed_world_def demo_env_def fresh_world_def sys_def Let_def set_flag_def)
  ultimately show ?thesis using d(1,2) l(1) e(1)
    by (intro exI [of _ c] exI [of _ ac] exI [of _ l] exI [of _ e'] conjI) simp_all
qed

lemma copyError_simps [simp]:
  "a_c (redisAsyncCopyError ac) = a_c ac" "a_err (redisAsyncCopyError ac) = c_err (a_c ac)"
  "async_holds (redisAsyncCopyError ac) h xs ys ch pt \<longleftrightarrow> async_holds ac h xs ys ch pt"
  "farewell (redisAsyncCopyError ac) = farewell ac"
  by (simp_all add: redisAsyncCopyError_def async_holds_def farewell_def fun_eq_iff)

lemma async_disconnect_error:
  assumes g: "grants_all mal" and e: "c_err (a_c ac) \<noteq> 0" and h: "async_holds ac (e_heap e) xs ys ch pt"
    and f: "\<not> a_flag ac REDIS_FREEING"
  shows "\<exists>e' st. async_disconnect os mal cbs ac e = Some (Inr (None, e')) \<and>
    e_events e' = e_events e @ callback_events (xs @ ys @ table_callbacks ch @ table_callbacks pt) @ farewell ac st \<and>
    (never_frees cbs \<longrightarrow> st = REDIS_ERR) \<and> e_world e' = closed_world os (a_c ac) (e_world e)"
proof -
  let ?ac = "upd_c (set_flag REDIS_DISCONNECTING) (redisAsyncCopyError ac)"
  have c: "a_flag ?ac CLOSING" by (simp add: flag_set_def set_flag_def flags_or or_eq_0_iff)
  have f': "\<not> a_flag ?ac REDIS_FREEING" "a_err ?ac = c_err (a_c ac)" "farewell ?ac = farewell ac" "closed_world os (a_c ?ac) = closed_world os (a_c ac)"
    using f by (auto simp: flag_set_def set_flag_def flags_or or_eq_0_iff farewell_def closed_world_def fun_eq_iff redisAsyncCopyError_def)
  have "async_holds ?ac (e_heap e) xs ys ch pt" using h by (simp add: async_holds_def set_flag_def redisAsyncCopyError_def)
  from async_free_ok [OF g c this, of os cbs] f' e show ?thesis
    by (fastforce simp: async_disconnect_def freed_def Let_def)
qed

text \<open>
  C37. When the server closes an established connection, the read handler ends it: every callback
  still waiting runs exactly once with the reply NULL, the user hears \<open>REDIS_ERR\<close> unless a callback
  asked for the context to be freed, and the socket is closed.
\<close>

theorem eof_runs_every_callback:
  assumes "grants_all mal" and "async_holds ac (e_heap e) xs ys ch pt" and "c_err (a_c ac) = 0"
    and "a_flag ac REDIS_CONNECTED" and "\<not> a_flag ac REDIS_FREEING"
    and eof: "sr_ret (os_call os (w_calls (e_world e)) (Sy_read (c_fd (a_c ac)) (1024 * 16))) = 0"
  shows "\<exists>e' st w. redisAsyncHandleRead os mal cbs ac e = Some (Inr (None, e')) \<and>
    e_events e' = e_events e @ callback_events (xs @ ys @ table_callbacks ch @ table_callbacks pt) @ farewell ac st \<and>
    (never_frees cbs \<longrightarrow> st = REDIS_ERR) \<and>
    w = snd (sys os (Sy_read (c_fd (a_c ac)) (1024 * 16)) (e_world e)) \<and> e_world e' = closed_world os (a_c ac) w"
proof -
  let ?w = "snd (sys os (Sy_read (c_fd (a_c ac)) (1024 * 16)) (e_world e))"
  let ?c = "set_error (a_c ac) REDIS_ERR_EOF ''Server closed the connection''"
  let ?ac = "ac\<lparr>a_c := ?c\<rparr>" and ?e = "e\<lparr>e_heap := e_heap e, e_world := ?w\<rparr>"
  have r: "redisBufferRead os mal (defaultFunctions mal) (a_c ac) (e_heap e) (e_world e) = Inr (REDIS_ERR, ?c, e_heap e, ?w)"
    using assms(3) eof by (simp add: redisBufferRead_def sys_def Let_def)
  have c: "c_err (a_c ?ac) \<noteq> 0" "\<not> a_flag ?ac REDIS_FREEING" "farewell ?ac = farewell ac" "closed_world os (a_c ?ac) = closed_world os (a_c ac)"
    using assms(5) by (auto simp: set_error_def flag_set_def farewell_def closed_world_def fun_eq_iff)
  have "async_holds ?ac (e_heap ?e) xs ys ch pt" using assms(2) by (simp add: async_holds_def set_error_def)
  from async_disconnect_error [OF assms(1) c(1) this c(2), of os cbs] obtain e' st where
    d: "async_disconnect os mal cbs ?ac ?e = Some (Inr (None, e'))"
    "e_events e' = e_events ?e @ callback_events (xs @ ys @ table_callbacks ch @ table_callbacks pt) @ farewell ?ac st"
    "never_frees cbs \<longrightarrow> st = REDIS_ERR" "e_world e' = closed_world os (a_c ?ac) (e_world ?e)" by blast
  have "redisAsyncHandleRead os mal cbs ac e = async_disconnect os mal cbs ?ac ?e"
    using assms(4) r by (simp add: redisAsyncHandleRead_def when_connected_def bindO_def Let_def)
  with d c show ?thesis by auto
qed

theorem eof_runs_every_callback_witness:
  "\<exists>c ac l e'. redisConnectFd zero_alloc 3 = Inr (Some c) \<and> redisAsyncInitialize zero_alloc c = Inr (Some ac) \<and>
     push_callback zero_alloc (a_replies ac) (5, 7) = Inr (REDIS_OK, l) \<and>
     redisAsyncHandleRead (demo_os (\<lambda>s. case s of Sy_read _ _ \<Rightarrow> Some (answer 0 0) | _ \<Rightarrow> None)) zero_alloc (\<lambda>f d r h u. ([], u))
       (upd_c (set_flag REDIS_CONNECTED) (ac\<lparr>a_replies := l, a_onDisconnect := True\<rparr>)) demo_env = Some (Inr (None, e')) \<and>
     e_events e' = [EvCallback 5 7 0, EvDisconnect REDIS_ERR]"
proof -
  let ?cbs = "\<lambda>(f::nat) (d::nat) (r::nat) (h::reply_heap) (u::unit). ([] :: action list, u)"
  let ?os = "demo_os (\<lambda>s. case s of Sy_read _ _ \<Rightarrow> Some (answer 0 0) | _ \<Rightarrow> None)"
  from demo_context obtain c ac ch pt where
    d: "redisConnectFd zero_alloc 3 = Inr (Some c)" "redisAsyncInitialize zero_alloc c = Inr (Some ac)"
    "async_holds ac empty_heap [] [] ch pt" "entries ch = []" "entries pt = []" "c_err (a_c ac) = 0" "c_flags (a_c ac) = 1" "\<not> a_cleanup ac"
    by blast
  have "holds_callbacks (a_replies ac) []" using d(3) by (simp add: async_holds_def)
  from demo_push [OF this] obtain l where
    l: "push_callback zero_alloc (a_replies ac) (5, 7) = Inr (REDIS_OK, l)" "holds_callbacks l [(5, 7)]" by auto
  let ?ac = "upd_c (set_flag REDIS_CONNECTED) (ac\<lparr>a_replies := l, a_onDisconnect := True\<rparr>)"
  have "async_holds ?ac (e_heap demo_env) [(5, 7)] [] ch pt"
    using d(3) l(2) by (simp add: async_holds_def set_flag_def demo_env_def)
  moreover have "c_err (a_c ?ac) = 0" "a_flag ?ac REDIS_CONNECTED" "\<not> a_flag ?ac REDIS_FREEING"
    using d(6,7) by (simp_all add: flag_set_def set_flag_def)
  moreover have "sr_ret (os_call ?os (w_calls (e_world demo_env)) (Sy_read (c_fd (a_c ?ac)) (1024 * 16))) = 0"
    by (simp add: demo_os_def answer_def)
  ultimately obtain e' st where e: "redisAsyncHandleRead ?os zero_alloc ?cbs ?ac demo_env = Some (Inr (None, e'))"
    "e_events e' = e_events demo_env @ callback_events ([(5, 7)] @ [] @ table_callbacks ch @ table_callbacks pt) @ farewell ?ac st"
    "never_frees ?cbs \<longrightarrow> st = REDIS_ERR"
    using eof_runs_every_callback [OF grants_all_zero_alloc, of ?ac demo_env "[(5, 7)]" "[]" ch pt ?os ?cbs] by blast
  have "st = REDIS_ERR" using e(3) by (simp add: never_frees_def)
  then have "e_events e' = [EvCallback 5 7 0, EvDisconnect REDIS_ERR]" unfolding e(2)
    using d by (simp add: demo_env_def callback_events_def table_callbacks_def farewell_def flag_set_def set_flag_def upd_c_def)
  then show ?thesis using d(1,2) l(1) e(1)
    by (intro exI [of _ c] exI [of _ ac] exI [of _ l] exI [of _ e'] conjI) simp_all
qed

unbundle bit_operations_syntax

subsection \<open>Commands and their callbacks\<close>

lemma append_bytes_ok:
  assumes g: "grants_all mal" and o: "obuf_ok c" and b: "length (outgoing c) + n < 2 ^ 31" "n \<le> length cmd"
  shows "\<exists>s. append_command mal c cmd n = Inr (REDIS_OK, c\<lparr>c_obuf := Some s\<rparr>) \<and>
    obuf_ok (c\<lparr>c_obuf := Some s\<rparr>) \<and> outgoing (c\<lparr>c_obuf := Some s\<rparr>) = outgoing c @ take n cmd"
proof -
  from o obtain s where s: "c_obuf c = Some s" "sds_wf s" "outgoing c = sdsval s" by (auto simp: obuf_ok_def outgoing_def)
  have "sdslen s + n < 2 ^ 62" using b s length_sdsval [OF s(2)] by auto
  from res_ok_total [OF sdscatlen_ok [OF s(2) b(2) this] g] obtain s' where
    s': "sdscatlen mal s cmd n = Inr s'" "sds_wf s'" "sdsval s' = sdsval s @ take n cmd" by auto
  have "sdslen s' < 2 ^ 31" using s'(3) b s length_sdsval [OF s'(2)] length_sdsval [OF s(2)] by simp
  with s s' show ?thesis by (intro exI [of _ s']) (simp add: append_command_def obuf_ok_def outgoing_def)
qed

lemma drop_plus1: "drop (n + 1) xs = tl (drop n xs)"
  by (simp add: drop_Suc tl_drop)

lemma async_command_parse:
  fixes fn privdata n :: nat and mal :: allocator and cmd :: "char list" and e :: "'u env" and x :: "char list" and xs :: "char list list"
  assumes cmd: "cmd = command_bytes (x # xs) @ NUL # r" and len: "length x < 2 ^ 31"
    and nc: "\<not> a_flag ac (REDIS_DISCONNECTING OR REDIS_FREEING)"
  defines "p \<equiv> 3 + length (decimal (Suc (length xs))) + length (bulk_bytes x)"
    and "cb \<equiv> user_fn fn privdata"
    and "finish \<equiv> (\<lambda>ac. bindE (append_command mal (a_c ac) cmd n) (\<lambda>(_, c).
                       Inr (REDIS_OK, ac\<lparr>a_c := c\<rparr>, hook (a_addWrite ac) EvAddWrite e)))"
  shows "async_command mal ac e fn privdata cmd n =
    (if xs \<noteq> [] \<and> names ''subscribe'' x
     then bindE (subscribe_loop mal (pattern_variant x) cb cmd p (upd_c (set_flag REDIS_SUBSCRIBED) ac)) finish
     else if names ''unsubscribe'' x then (if \<not> a_flag ac REDIS_SUBSCRIBED then Inr (REDIS_ERR, ac, e) else finish ac)
     else if names ''monitor'' x then bindE (push_replies mal cb (upd_c (set_flag REDIS_MONITORING) ac)) finish
     else if a_flag ac REDIS_SUBSCRIBED then bindE (push_invalid mal cb ac) finish
     else bindE (push_replies mal cb ac) finish)"
    and "drop p cmd = concat (map bulk_bytes xs) @ NUL # r"
proof -
  let ?q = "3 + length (decimal (Suc (length xs)))" and ?rest = "concat (map bulk_bytes xs) @ NUL # r"
  define s0 where "s0 = ?q + length (decimal (length x)) + 3"
  from nextArgument_first [OF cmd len]
  have f: "nextArgument cmd 0 = Inr (Some (p, s0, length x))" and d: "drop ?q cmd = bulk_bytes x @ ?rest" by (simp_all add: p_def s0_def)
  note a = argument_at_bulk(2,3) [OF d len, folded s0_def]
  show dp: "drop p cmd = ?rest" using a(2) by (simp add: p_def)
  have hn: "\<exists>c. peek cmd p = Inr c \<and> (c = CHR ''$'') = (xs \<noteq> [])"
    using dp by (cases xs) (auto simp: bulk_bytes_def intro: drop_peek)
  then obtain c where c: "peek cmd p = Inr c" "(c = CHR ''$'') = (xs \<noteq> [])" by blast
  have pv: "\<exists>t. peek cmd s0 = Inr t \<and> (c_tolower t = CHR ''p'') = pattern_variant x"
    using a(1) by (cases x) (auto simp: pattern_variant_def c_tolower_def intro: drop_peek)
  then obtain t where t: "peek cmd s0 = Inr t" "(c_tolower t = CHR ''p'') = pattern_variant x" by blast
  have nm: "drop (if pattern_variant x then s0 + 1 else s0) cmd = (if pattern_variant x then tl x else x) @ CRLF @ ?rest"
  proof (cases "pattern_variant x")
    case True
    have "drop (s0 + 1) cmd = tl (x @ CRLF @ ?rest)" unfolding drop_plus1 a(1) ..
    with True show ?thesis by (cases x) (simp_all add: pattern_variant_def)
  qed (use a(1) in simp)
  have sc: "strncasecmp_eq (drop (if pattern_variant x then s0 + 1 else s0) cmd) (lit @ CRLF) = Inr (names lit x)"
    if "CHR 0x0D \<notin> set lit" "map c_tolower lit = lit" for lit
    using strncasecmp_eq_name [OF that] by (simp only: nm names_def base_name_def)
  have l: "map c_tolower ''subscribe'' = ''subscribe''" "map c_tolower ''unsubscribe'' = ''unsubscribe''" "map c_tolower ''monitor'' = ''monitor''"
    by (simp_all add: c_tolower_def)
  have cr: "CHR 0x0D \<notin> set ''subscribe''" "CHR 0x0D \<notin> set ''unsubscribe''" "CHR 0x0D \<notin> set ''monitor''" by simp_all
  note lits = sc [OF cr(1) l(1)] sc [OF cr(2) l(2)] sc [OF cr(3) l(3)]
  have nc': "a_flag ac (REDIS_DISCONNECTING OR REDIS_FREEING) = False" using nc by simp
  show "async_command mal ac e fn privdata cmd n =
    (if xs \<noteq> [] \<and> names ''subscribe'' x
     then bindE (subscribe_loop mal (pattern_variant x) cb cmd p (upd_c (set_flag REDIS_SUBSCRIBED) ac)) finish
     else if names ''unsubscribe'' x then (if \<not> a_flag ac REDIS_SUBSCRIBED then Inr (REDIS_ERR, ac, e) else finish ac)
     else if names ''monitor'' x then bindE (push_replies mal cb (upd_c (set_flag REDIS_MONITORING) ac)) finish
     else if a_flag ac REDIS_SUBSCRIBED then bindE (push_invalid mal cb ac) finish
     else bindE (push_replies mal cb ac) finish)"
    unfolding async_command_def Let_def f bindE.simps option.case prod.case c t nc' lits if_False cb_def [symmetric] finish_def [symmetric]
    by (cases "xs = []") (simp_all only: lits bindE.simps if_True if_False simp_thms)
qed

lemma push_replies_ok:
  assumes g: "grants_all mal" and h: "async_holds ac h xs ys ch pt"
  shows "\<exists>l. push_replies mal cb ac = Inr (ac\<lparr>a_replies := l\<rparr>) \<and> async_holds (ac\<lparr>a_replies := l\<rparr>) h (xs @ [(cb_fn cb, cb_privdata cb)]) ys ch pt"
    and "\<exists>l. push_invalid mal cb ac = Inr (ac\<lparr>a_invalid := l\<rparr>) \<and> async_holds (ac\<lparr>a_invalid := l\<rparr>) h xs (ys @ [(cb_fn cb, cb_privdata cb)]) ch pt"
proof -
  have p: "\<exists>l'. redisPushCallback mal l cb = Inr (REDIS_OK, l') \<and> holds_callbacks l' (zs @ [(cb_fn cb, cb_privdata cb)])"
    if "holds_callbacks l zs" for l zs
  proof -
    from push_callback_ok [OF that, of mal cb] obtain st l' where
      r: "redisPushCallback mal l cb = Inr (st, l')" "holds_callbacks l' (if st = REDIS_OK then zs @ [(cb_fn cb, cb_privdata cb)] else zs)" by blast
    have "mal 24 \<noteq> None" using g by (simp add: grants_all_def)
    then have "st = REDIS_OK" using r(1)
      by (auto simp: redisPushCallback_def Let_def bindE_Inr_iff split: option.splits)
    with r show ?thesis by auto
  qed
  from p [of "a_replies ac" xs] p [of "a_invalid ac" ys] h
  show "\<exists>l. push_replies mal cb ac = Inr (ac\<lparr>a_replies := l\<rparr>) \<and> async_holds (ac\<lparr>a_replies := l\<rparr>) h (xs @ [(cb_fn cb, cb_privdata cb)]) ys ch pt"
    and "\<exists>l. push_invalid mal cb ac = Inr (ac\<lparr>a_invalid := l\<rparr>) \<and> async_holds (ac\<lparr>a_invalid := l\<rparr>) h xs (ys @ [(cb_fn cb, cb_privdata cb)]) ch pt"
    by (auto simp: async_holds_def push_replies_def push_invalid_def)
qed

lemma sds_block: "sds_wf s \<Longrightarrow> \<exists>r. hbuf s = sdsval s @ NUL # r"
proof -
  assume s: "sds_wf s"
  then have "hlen s < length (hbuf s)" "hbuf s ! hlen s = NUL" by (auto simp: sds_wf_def sds_shape_def)
  then have "hbuf s = take (hlen s) (hbuf s) @ NUL # drop (Suc (hlen s)) (hbuf s)" by (metis id_take_nth_drop)
  then show ?thesis unfolding sdsval_def by blast
qed

definition plain_command :: "char list list \<Rightarrow> bool" where
  \<comment> \<open>none of the commands that change the mode of the connection\<close>
  "plain_command xs \<longleftrightarrow> (case xs of [] \<Rightarrow> False
     | x # args \<Rightarrow> \<not> (args \<noteq> [] \<and> names ''subscribe'' x) \<and> \<not> names ''unsubscribe'' x \<and> \<not> names ''monitor'' x)"

lemma formatted_command:
  assumes g: "grants_all mal" and b: "length (command_bytes xs) < 2 ^ 31 - 1"
  shows "\<exists>f r. redisFormatSdsCommandArgv mal True (int (length xs)) xs (Some (map length xs)) = Inr (int (length (command_bytes xs)), Some f) \<and>
    hbuf f = command_bytes xs @ NUL # r"
proof -
  let ?a = "map (\<lambda>x. (x, length x)) xs"
  have "arg_values ?a = xs" "length ?a = length xs" "lens_fit ?a" by (auto simp: comp_def)
  with b redisFormatSdsCommandArgv_ok [OF g argv_args_lens [of xs]] obtain f where
    f: "redisFormatSdsCommandArgv mal True (int (length xs)) xs (Some (map length xs)) = Inr (int (length (command_bytes xs)), Some f)"
    "sds_wf f" "sdsval f = command_bytes xs" by (simp only:) auto
  with sds_block [OF f(2)] show ?thesis by auto
qed

lemma arg_shorter: "x \<in> set xs \<Longrightarrow> length x < length (command_bytes xs)"
proof -
  assume "x \<in> set xs"
  then obtain ys zs where "xs = ys @ x # zs" by (meson split_list)
  then show ?thesis by (simp add: command_bytes_def bulk_bytes_def)
qed

text \<open>
  C38. A command is queued with its callback: on a context that is not closing,
  \<open>redisAsyncCommandArgv\<close> puts the formatted command at the end of the output buffer and the callback
  at the end of the queue of replies, or of that of invalid commands while subscribed; nothing else
  changes but that a write is scheduled.
\<close>

theorem command_queues_callback:
  assumes "grants_all mal" and "\<not> a_flag ac (REDIS_DISCONNECTING OR REDIS_FREEING)" and "plain_command xs"
    and "async_holds ac h qs ivs ch pt" and "obuf_ok (a_c ac)" and "length (outgoing (a_c ac)) + length (command_bytes xs) < 2 ^ 31 - 1"
  shows "\<exists>ac'. redisAsyncCommandArgv mal ac e fn privdata (int (length xs)) xs (Some (map length xs)) =
      Inr (REDIS_OK, ac', hook (a_addWrite ac) EvAddWrite e) \<and>
    outgoing (a_c ac') = outgoing (a_c ac) @ command_bytes xs \<and> obuf_ok (a_c ac') \<and> c_flags (a_c ac') = c_flags (a_c ac) \<and>
    (if a_flag ac REDIS_SUBSCRIBED then async_holds ac' h qs (ivs @ [(fn, privdata)]) ch pt
     else async_holds ac' h (qs @ [(fn, privdata)]) ivs ch pt)"
proof -
  from assms(3) obtain x args where xs: "xs = x # args" by (cases xs) (auto simp: plain_command_def)
  have lx: "length x < 2 ^ 31" using arg_shorter [of x xs] xs assms(6) by simp
  have "length (command_bytes xs) < 2 ^ 31 - 1" using assms(6) by simp
  from formatted_command [OF assms(1) this] obtain f r where
    f: "redisFormatSdsCommandArgv mal True (int (length xs)) xs (Some (map length xs)) = Inr (int (length (command_bytes xs)), Some f)"
    "hbuf f = command_bytes xs @ NUL # r" by blast
  let ?n = "length (command_bytes xs)" and ?cb = "user_fn fn privdata"
  have cb: "cb_fn ?cb = fn" "cb_privdata ?cb = privdata" by (simp_all add: user_fn_def)
  have "length (outgoing (a_c ac)) + ?n < 2 ^ 31" "?n \<le> length (hbuf f)" using assms(6) f(2) by simp_all
  from append_bytes_ok [OF assms(1,5) this] f(2) obtain s where
    s: "append_command mal (a_c ac) (hbuf f) ?n = Inr (REDIS_OK, (a_c ac)\<lparr>c_obuf := Some s\<rparr>)"
    "obuf_ok ((a_c ac)\<lparr>c_obuf := Some s\<rparr>)" "outgoing ((a_c ac)\<lparr>c_obuf := Some s\<rparr>) = outgoing (a_c ac) @ command_bytes xs" by auto
  from assms(3) have np: "(args \<noteq> [] \<and> names ''subscribe'' x) = False" "names ''unsubscribe'' x = False" "names ''monitor'' x = False"
    by (simp_all add: plain_command_def xs)
  have "async_command mal ac e fn privdata (hbuf f) ?n =
      (if a_flag ac REDIS_SUBSCRIBED then bindE (push_invalid mal ?cb ac) (\<lambda>ac. bindE (append_command mal (a_c ac) (hbuf f) ?n)
         (\<lambda>(_, c). Inr (REDIS_OK, ac\<lparr>a_c := c\<rparr>, hook (a_addWrite ac) EvAddWrite e)))
       else bindE (push_replies mal ?cb ac) (\<lambda>ac. bindE (append_command mal (a_c ac) (hbuf f) ?n)
         (\<lambda>(_, c). Inr (REDIS_OK, ac\<lparr>a_c := c\<rparr>, hook (a_addWrite ac) EvAddWrite e))))"
    using async_command_parse(1) [OF f(2) [unfolded xs] lx assms(2), of mal e fn privdata ?n] by (simp only: np if_False)
  then have run: "redisAsyncCommandArgv mal ac e fn privdata (int (length xs)) xs (Some (map length xs)) = \<dots>"
    unfolding redisAsyncCommandArgv_def f(1) by simp
  show ?thesis
  proof (cases "a_flag ac REDIS_SUBSCRIBED")
    case True
    from push_replies_ok(2) [OF assms(1,4), of ?cb] cb obtain l where
      l: "push_invalid mal ?cb ac = Inr (ac\<lparr>a_invalid := l\<rparr>)" "async_holds (ac\<lparr>a_invalid := l\<rparr>) h qs (ivs @ [(fn, privdata)]) ch pt" by auto
    show ?thesis
      by (rule exI [of _ "ac\<lparr>a_invalid := l, a_c := (a_c ac)\<lparr>c_obuf := Some s\<rparr>\<rparr>"]) (use run True l s in \<open>simp add: async_holds_def\<close>)
  next
    case False
    from push_replies_ok(1) [OF assms(1,4), of ?cb] cb obtain l where
      l: "push_replies mal ?cb ac = Inr (ac\<lparr>a_replies := l\<rparr>)" "async_holds (ac\<lparr>a_replies := l\<rparr>) h (qs @ [(fn, privdata)]) ivs ch pt" by auto
    show ?thesis
      by (rule exI [of _ "ac\<lparr>a_replies := l, a_c := (a_c ac)\<lparr>c_obuf := Some s\<rparr>\<rparr>"]) (use run False l s in \<open>simp add: async_holds_def\<close>)
  qed
qed

unbundle bit_operations_syntax

subsection \<open>Subscriptions\<close>

lemma pubsub_table_set [simp]:
  "pubsub_table pv (set_pubsub_table pv ht ac) = Inr ht" "set_pubsub_table pv ht' (set_pubsub_table pv ht ac) = set_pubsub_table pv ht' ac"
  by (simp_all add: pubsub_table_def set_pubsub_table_def)

definition subscribe_map :: "char list list \<Rightarrow> redisCallback \<Rightarrow> (channel \<Rightarrow> redisCallback option) \<Rightarrow> channel \<Rightarrow> redisCallback option" where
  \<comment> \<open>every channel gets the callback\<close>
  "subscribe_map xs cb m = fold (\<lambda>c m. m(chan_prefix c \<mapsto> cb)) xs m"

lemma subscribe_one_ok:
  assumes g: "grants_all mal" and s: "sds_wf s" "sdsval s = x" "length x < 2 ^ 31" and t: "pubsub_table pv ac = Inr ht"
    and ht: "dict_ok callbackDict ht" "dt_used ht < 2 ^ 30"
  shows "\<exists>ht'. subscribe_one mal pv cb s ac = Inr (set_pubsub_table pv ht' ac) \<and> dict_ok callbackDict ht' \<and> dt_used ht' \<le> dt_used ht + 1 \<and>
    dict_map callbackDict ht' = (dict_map callbackDict ht)(chan_prefix x \<mapsto> cb)"
proof -
  from callback_dict.dictReplace_ok [OF ht g, of "chan_prefix x" cb] obtain st ht' where
    r: "dictReplace callbackDict mal ht (chan_prefix x) cb = Inr (st, ht')" "dict_ok callbackDict ht'"
    "dict_map callbackDict ht' = (\<lambda>k. if k = chan_prefix x then Some cb else dict_map callbackDict ht k)"
    "dt_used ht' \<le> dt_used ht + 1" by (auto split: option.splits cong: if_cong)
  moreover have "dict_map callbackDict ht' = (dict_map callbackDict ht)(chan_prefix x \<mapsto> cb)" using r(3) by auto
  ultimately show ?thesis using t s by (intro exI [of _ ht']) (simp add: subscribe_one_def channel_of_def)
qed

lemma subscribe_loop_ok:
  assumes g: "grants_all mal"
  shows "drop p cmd = concat (map bulk_bytes xs) @ NUL # r \<Longrightarrow> \<forall>x\<in>set xs. length x < 2 ^ 31 \<Longrightarrow> pubsub_table pv ac = Inr ht \<Longrightarrow>
    dict_ok callbackDict ht \<Longrightarrow> dt_used ht + length xs \<le> 2 ^ 30 \<Longrightarrow>
    \<exists>ht'. subscribe_loop mal pv cb cmd p ac = Inr (set_pubsub_table pv ht' ac) \<and> dict_ok callbackDict ht' \<and>
      dict_map callbackDict ht' = subscribe_map xs cb (dict_map callbackDict ht)"
proof (induction xs arbitrary: p ac ht)
  case Nil
  then have "subscribe_loop mal pv cb cmd p ac = Inr ac" using nextArgument_end [of p cmd r] by (simp add: subscribe_loop.simps [of mal pv cb cmd p])
  moreover have "set_pubsub_table pv ht ac = ac" using Nil(3)
    by (auto simp: pubsub_table_def set_pubsub_table_def split: if_splits option.splits)
  ultimately show ?case using Nil by (intro exI [of _ ht]) (simp add: subscribe_map_def)
next
  case (Cons x xs)
  let ?rest = "concat (map bulk_bytes xs) @ NUL # r"
  have d: "drop p cmd = bulk_bytes x @ ?rest" and lx: "length x < 2 ^ 31" using Cons.prems(1,2) by simp_all
  let ?p = "p + length (bulk_bytes x)" and ?s = "p + length (decimal (length x)) + 3"
  have "length x < 2 ^ 62" "length x \<le> length (drop ?s cmd)" using lx unfolding argument_at_bulk(2) [OF d lx] by simp_all
  then have "res_ok mal (\<lambda>s. sds_wf s \<and> sdslen s = length x \<and> sdsavail s = 0 \<and> sdsval s = take (length x) (drop ?s cmd))
      (sdsnewlen mal (Some (drop ?s cmd)) (length x))"
    using sdsnewlen_ok [of "length x" "Some (drop ?s cmd)" mal, unfolded option.case] by (metis option.inject)
  from res_ok_total [OF this g] obtain s where
    s: "sdsnewlen mal (Some (drop ?s cmd)) (length x) = Inr s" "sds_wf s" "sdsval s = take (length x) (drop ?s cmd)" by blast
  have sv: "sdsval s = x" unfolding s(3) argument_at_bulk(2) [OF d lx] by simp
  have "dt_used ht < 2 ^ 30" using Cons.prems(5) by simp
  from subscribe_one_ok [OF g s(2) sv lx Cons.prems(3,4) this, of cb] obtain h1 where
    h1: "subscribe_one mal pv cb s ac = Inr (set_pubsub_table pv h1 ac)" "dict_ok callbackDict h1" "dt_used h1 \<le> dt_used ht + 1"
    "dict_map callbackDict h1 = (dict_map callbackDict ht)(chan_prefix x \<mapsto> cb)" by blast
  have "subscribe_loop mal pv cb cmd p ac = subscribe_loop mal pv cb cmd ?p (set_pubsub_table pv h1 ac)"
    using nextArgument_bulk [OF d lx] s(1) h1(1) by (subst subscribe_loop.simps) (simp add: null_deref_def)
  moreover have "\<exists>ht'. subscribe_loop mal pv cb cmd ?p (set_pubsub_table pv h1 ac) = Inr (set_pubsub_table pv ht' (set_pubsub_table pv h1 ac)) \<and>
      dict_ok callbackDict ht' \<and> dict_map callbackDict ht' = subscribe_map xs cb (dict_map callbackDict h1)"
  proof (rule Cons.IH)
    show "drop ?p cmd = ?rest" by (rule argument_at_bulk(3) [OF d lx])
    show "dt_used h1 + length xs \<le> 2 ^ 30" using h1(3) Cons.prems(5) by simp
  qed (use h1 Cons.prems(2) in simp_all)
  ultimately show ?case by (auto simp: h1(4) subscribe_map_def)
qed

text \<open>
  C39. A subscription is registered: \<open>redisAsyncCommandArgv\<close> with (P)SUBSCRIBE and at least one name
  gives every named channel or pattern the callback, replacing an earlier one, and marks the context
  as subscribed; the other table and the queues stay as they are, and the command is put at the end
  of the output buffer.
\<close>

theorem subscribe_registers:
  assumes "grants_all mal" and "\<not> a_flag ac (REDIS_DISCONNECTING OR REDIS_FREEING)" and "names ''subscribe'' x" and "chans \<noteq> []"
    and "async_holds ac h qs ivs ch pt" and "obuf_ok (a_c ac)" and "length (outgoing (a_c ac)) + length (command_bytes (x # chans)) < 2 ^ 31 - 1"
    and "dt_used ch + length chans \<le> 2 ^ 30" and "dt_used pt + length chans \<le> 2 ^ 30"
  shows "\<exists>ac' ch' pt'. redisAsyncCommandArgv mal ac e fn privdata (int (length (x # chans))) (x # chans) (Some (map length (x # chans))) =
      Inr (REDIS_OK, ac', hook (a_addWrite ac) EvAddWrite e) \<and> async_holds ac' h qs ivs ch' pt' \<and> a_flag ac' REDIS_SUBSCRIBED \<and>
    (if pattern_variant x
     then ch' = ch \<and> dict_map callbackDict pt' = subscribe_map chans (user_fn fn privdata) (dict_map callbackDict pt)
     else pt' = pt \<and> dict_map callbackDict ch' = subscribe_map chans (user_fn fn privdata) (dict_map callbackDict ch)) \<and>
    outgoing (a_c ac') = outgoing (a_c ac) @ command_bytes (x # chans)"
proof -
  let ?xs = "x # chans" and ?cb = "user_fn fn privdata" and ?pv = "pattern_variant x" and ?ac = "upd_c (set_flag REDIS_SUBSCRIBED) ac"
  have lx: "length y < 2 ^ 31" if "y \<in> set ?xs" for y using arg_shorter [OF that] assms(7) by simp
  have "length (command_bytes ?xs) < 2 ^ 31 - 1" using assms(7) by simp
  from formatted_command [OF assms(1) this] obtain f r where
    f: "redisFormatSdsCommandArgv mal True (int (length ?xs)) ?xs (Some (map length ?xs)) = Inr (int (length (command_bytes ?xs)), Some f)"
    "hbuf f = command_bytes ?xs @ NUL # r" by blast
  let ?n = "length (command_bytes ?xs)" and ?p = "3 + length (decimal (Suc (length chans))) + length (bulk_bytes x)"
  have "length x < 2 ^ 31" using lx by simp
  note parse = async_command_parse(1) [OF f(2) this assms(2), of mal e fn privdata ?n] async_command_parse(2) [OF f(2) this assms(2)]
  define ht where "ht = (if ?pv then pt else ch)"
  have ht: "pubsub_table ?pv ?ac = Inr ht" "dict_ok callbackDict ht" "dt_used ht + length chans \<le> 2 ^ 30"
    using assms(5,8,9) by (auto simp: ht_def async_holds_def pubsub_table_def)
  have "\<forall>y\<in>set chans. length y < 2 ^ 31" using lx by simp
  from subscribe_loop_ok [OF assms(1) parse(2) this ht, of ?cb] obtain ht' where
    sl: "subscribe_loop mal ?pv ?cb (hbuf f) ?p ?ac = Inr (set_pubsub_table ?pv ht' ?ac)" "dict_ok callbackDict ht'"
    "dict_map callbackDict ht' = subscribe_map chans ?cb (dict_map callbackDict ht)" by blast
  let ?a1 = "set_pubsub_table ?pv ht' ?ac"
  have a1: "a_c ?a1 = set_flag REDIS_SUBSCRIBED (a_c ac)" "a_addWrite ?a1 = a_addWrite ac"
    by (simp_all add: set_pubsub_table_def upd_c_def)
  have o: "obuf_ok (a_c ?a1)" "outgoing (a_c ?a1) = outgoing (a_c ac)" using assms(6) by (simp_all add: a1 obuf_ok_def outgoing_def set_flag_def)
  have "length (outgoing (a_c ?a1)) + ?n < 2 ^ 31" "?n \<le> length (hbuf f)" using assms(7) f(2) o by simp_all
  from append_bytes_ok [OF assms(1) o(1) this] f(2) o(2) obtain s where
    s: "append_command mal (a_c ?a1) (hbuf f) ?n = Inr (REDIS_OK, (a_c ?a1)\<lparr>c_obuf := Some s\<rparr>)"
    "outgoing ((a_c ?a1)\<lparr>c_obuf := Some s\<rparr>) = outgoing (a_c ac) @ command_bytes ?xs" by auto
  let ?a2 = "?a1\<lparr>a_c := (a_c ?a1)\<lparr>c_obuf := Some s\<rparr>\<rparr>"
  have c1: "(chans \<noteq> [] \<and> names ''subscribe'' x) = True" using assms(3,4) by simp
  have "async_command mal ac e fn privdata (hbuf f) ?n = Inr (REDIS_OK, ?a2, hook (a_addWrite ac) EvAddWrite e)"
    using parse(1) unfolding c1 if_True sl(1) bindE.simps s(1) prod.case a1(2) .
  then have "redisAsyncCommandArgv mal ac e fn privdata (int (length ?xs)) ?xs (Some (map length ?xs)) =
      Inr (REDIS_OK, ?a2, hook (a_addWrite ac) EvAddWrite e)"
    unfolding redisAsyncCommandArgv_def f(1) by simp
  moreover have "async_holds ?a2 h qs ivs (if ?pv then ch else ht') (if ?pv then ht' else pt)"
    using assms(5) sl(2) by (auto simp: async_holds_def set_pubsub_table_def set_flag_def)
  moreover have "a_flag ?a2 REDIS_SUBSCRIBED" by (simp add: a1 flag_set_def set_flag_def flags_or or_eq_0_iff)
  moreover have "outgoing (a_c ?a2) = outgoing (a_c ac) @ command_bytes ?xs" using s(2) by simp
  ultimately show ?thesis using sl(3)
    by (intro exI [of _ ?a2] exI [of _ "if ?pv then ch else ht'"] exI [of _ "if ?pv then ht' else pt"]) (simp add: ht_def)
qed

theorem subscribe_registers_witness:
  "\<exists>c ac ac' ch'. redisConnectFd zero_alloc 3 = Inr (Some c) \<and> redisAsyncInitialize zero_alloc c = Inr (Some ac) \<and>
     redisAsyncCommandArgv zero_alloc ac demo_env 5 7 3 [''Subscribe'', ''a'', ''b''] (Some (map length [''Subscribe'', ''a'', ''b''])) = Inr (REDIS_OK, ac', demo_env) \<and>
     a_channels ac' = Some ch' \<and> dict_map callbackDict ch' (chan_prefix ''b'') = Some (user_fn 5 7)"
proof -
  let ?x = "''Subscribe''" and ?ch = "[''a'', ''b'']"
  from demo_context obtain c ac ch pt where
    d: "redisConnectFd zero_alloc 3 = Inr (Some c)" "redisAsyncInitialize zero_alloc c = Inr (Some ac)" "async_holds ac empty_heap [] [] ch pt"
    "dt_used ch = 0" "dt_used pt = 0" "c_flags (a_c ac) = 1" "\<not> a_addWrite ac" "outgoing (a_c ac) = []" "obuf_ok (a_c ac)" by blast
  have f: "\<not> a_flag ac (REDIS_DISCONNECTING OR REDIS_FREEING)" using d(6) by (simp add: flag_set_def)
  have n: "names ''subscribe'' ?x" "\<not> pattern_variant ?x" by code_simp+
  have l: "length (outgoing (a_c ac)) + length (command_bytes (?x # ?ch)) < 2 ^ 31 - 1"
    using d(8) by (simp add: command_bytes_def bulk_bytes_def decimal.simps)
  have u: "dt_used ch + length ?ch \<le> 2 ^ 30" "dt_used pt + length ?ch \<le> 2 ^ 30" using d(4,5) by simp_all
  from subscribe_registers [OF grants_all_zero_alloc f n(1) _ d(3,9) l u, of demo_env 5 7] n(2) obtain ac' ch' where
    r: "redisAsyncCommandArgv zero_alloc ac demo_env 5 7 (int (length (?x # ?ch))) (?x # ?ch) (Some (map length (?x # ?ch))) =
      Inr (REDIS_OK, ac', hook (a_addWrite ac) EvAddWrite demo_env)" "a_channels ac' = Some ch'"
    "dict_map callbackDict ch' = subscribe_map ?ch (user_fn 5 7) (dict_map callbackDict ch)" by (auto simp: async_holds_def)
  moreover have "dict_map callbackDict ch' (chan_prefix ''b'') = Some (user_fn 5 7)" unfolding r(3) by (simp add: subscribe_map_def)
  ultimately show ?thesis using d(1,2,7)
    by - (rule exI [of _ c], rule exI [of _ ac], rule exI [of _ ac'], rule exI [of _ ch'], simp add: hook_def)
qed

theorem command_queues_callback_witness:
  "\<exists>c ac ac'. redisConnectFd zero_alloc 3 = Inr (Some c) \<and> redisAsyncInitialize zero_alloc c = Inr (Some ac) \<and>
     redisAsyncCommandArgv zero_alloc ac demo_env 5 7 2 [''GET'', ''k''] (Some (map length [''GET'', ''k''])) = Inr (REDIS_OK, ac', demo_env) \<and>
     holds_callbacks (a_replies ac') [(5, 7)] \<and> outgoing (a_c ac') = command_bytes [''GET'', ''k'']"
proof -
  let ?xs = "[''GET'', ''k'']"
  from demo_context obtain c ac ch pt where
    d: "redisConnectFd zero_alloc 3 = Inr (Some c)" "redisAsyncInitialize zero_alloc c = Inr (Some ac)" "async_holds ac empty_heap [] [] ch pt"
    "c_flags (a_c ac) = 1" "\<not> a_addWrite ac" "outgoing (a_c ac) = []" "obuf_ok (a_c ac)" by blast
  have f: "\<not> a_flag ac (REDIS_DISCONNECTING OR REDIS_FREEING)" "\<not> a_flag ac REDIS_SUBSCRIBED" using d(4) by (simp_all add: flag_set_def)
  have n: "plain_command ?xs" by code_simp
  have l: "length (outgoing (a_c ac)) + length (command_bytes ?xs) < 2 ^ 31 - 1"
    using d(6) by (simp add: command_bytes_def bulk_bytes_def decimal.simps)
  from command_queues_callback [OF grants_all_zero_alloc f(1) n d(3,7) l, of demo_env 5 7] f(2) obtain ac' where
    r: "redisAsyncCommandArgv zero_alloc ac demo_env 5 7 (int (length ?xs)) ?xs (Some (map length ?xs)) =
      Inr (REDIS_OK, ac', hook (a_addWrite ac) EvAddWrite demo_env)" "holds_callbacks (a_replies ac') [(5, 7)]"
    "outgoing (a_c ac') = outgoing (a_c ac) @ command_bytes ?xs" by (auto simp: async_holds_def)
  with d(1,2,5,6) show ?thesis
    by - (rule exI [of _ c], rule exI [of _ ac], rule exI [of _ ac'], simp add: hook_def)
qed

subsection \<open>Replies and their callbacks\<close>






























end
