(* ===== verification/Http.thy ===== *)
theory Http
  imports SdsOps
begin

unbundle bit_operations_syntax

section \<open>Form variables and chunked answers (mg_http.c, mg_util.c)\<close>

text \<open>
  What the server uses of the HTTP library to read a request and to answer it: the variables of a
  form, their URL encoding, the comparison of strings, and answers in chunks. A buffer that the
  caller passes is a block with the contents it had before. The lengths of a body and of the
  buffers fit an \<open>int\<close>.
\<close>

subsection \<open>URL encoding\<close>

definition c_isxdigit :: "char \<Rightarrow> bool" where
  "c_isxdigit c \<longleftrightarrow> is_digit c \<or> (97 \<le> (of_char (c_tolower c) :: nat) \<and> (of_char (c_tolower c) :: nat) \<le> 102)"

definition c_isalnum :: "char \<Rightarrow> bool" where
  "c_isalnum c \<longleftrightarrow> is_digit c \<or> (97 \<le> (of_char (c_tolower c) :: nat) \<and> (of_char (c_tolower c) :: nat) \<le> 122)"

definition HEXTOI :: "char \<Rightarrow> nat" where
  "HEXTOI c = (if is_digit c then of_char c - 48 else of_char c - 87)"

fun url_decode_loop :: "char list \<Rightarrow> char list \<Rightarrow> nat \<Rightarrow> nat \<Rightarrow> bool \<Rightarrow> (int \<times> char list) res" where
  \<comment> \<open>what is left of the source, the destination, the room in it, the index \<open>j\<close> into it\<close>
  "url_decode_loop src dst n j is_form =
     (if src = [] \<or> \<not> Suc j < n
      then bindE (poke dst j [NUL]) (\<lambda>dst. Inr (if src = [] then int j else -1, dst))
      else case src of
        [] \<Rightarrow> Inr (-1, dst)
      | c # cs \<Rightarrow>
          if c = CHR ''%''
          then (case cs of
                  a # b # cs \<Rightarrow>
                    if c_isxdigit a \<and> c_isxdigit b
                    then bindE (poke dst j [char_of (HEXTOI (c_tolower a) * 16 + HEXTOI (c_tolower b))]) (\<lambda>dst.
                         url_decode_loop cs dst n (Suc j) is_form)
                    else Inr (-1, dst)
                | _ \<Rightarrow> Inr (-1, dst))
          else bindE (poke dst j [if is_form \<and> c = CHR ''+'' then CHR '' '' else c]) (\<lambda>dst.
               url_decode_loop cs dst n (Suc j) is_form))"

declare url_decode_loop.simps [simp del]

definition mg_url_decode :: "char list \<Rightarrow> int \<Rightarrow> char list \<Rightarrow> int \<Rightarrow> bool \<Rightarrow> (int \<times> char list) res" where
  \<comment> \<open>the lengths are of type \<open>int\<close>: with a negative one the loop does not run\<close>
  "mg_url_decode src src_len dst dst_len is_form = url_decode_loop (take (nat src_len) src) dst (nat dst_len) 0 is_form"

definition url_encode_char :: "char \<Rightarrow> char list" where
  \<comment> \<open>the body of the loop of \<open>mg_url_encode\<close>; \<open>strchr\<close> also finds the NUL that ends its string\<close>
  "url_encode_char c =
     (if c_isalnum c \<or> c \<in> set ''._-$,;~()/'' \<or> c = NUL then [c]
      else [CHR ''%'', hex_char (of_char c div 16), hex_char (of_char c mod 16)])"

definition mg_url_encode :: "char list \<Rightarrow> char list" where
  "mg_url_encode src = concat (map url_encode_char src)"

subsection \<open>Form variables\<close>

fun mg_ncasecmp :: "char list \<Rightarrow> char list \<Rightarrow> nat \<Rightarrow> int res" where
  "mg_ncasecmp s1 s2 0 = Inr 0"
| "mg_ncasecmp (c # s1) (d # s2) (Suc len) =
     (let diff = int (of_char (c_tolower c)) - int (of_char (c_tolower d))
      in if diff = 0 \<and> c \<noteq> NUL then mg_ncasecmp s1 s2 len else Inr diff)"
| "mg_ncasecmp _ _ (Suc len) = Inl OutOfBounds"

fun find_var :: "char list \<Rightarrow> bool \<Rightarrow> char list \<Rightarrow> char list option res" where
  \<comment> \<open>the loop of \<open>mg_get_http_var\<close> from the pointer \<open>p\<close> on: what follows \<open>name=\<close>. The flag says that
     \<open>p\<close> is the start of the body or follows an ampersand\<close>
  "find_var name start [] = Inr None"
| "find_var name start (c # cs) =
     (if \<not> length name < length (c # cs) then Inr None
      else if start \<and> (c # cs) ! length name = CHR ''=''
      then bindE (mg_ncasecmp name (c # cs) (length name)) (\<lambda>diff.
           if diff = 0 then Inr (Some (drop (Suc (length name)) (c # cs)))
           else find_var name (c = CHR ''&'') cs)
      else find_var name (c = CHR ''&'') cs)"

definition mg_get_http_var :: "char list option \<Rightarrow> char list \<Rightarrow> char list \<Rightarrow> (int \<times> char list) res" where
  \<comment> \<open>the body, the name and the destination with its size; both lengths are narrowed for \<open>mg_url_decode\<close>\<close>
  "mg_get_http_var buf name dst =
     (if length dst = 0 then Inr (-2, dst)
      else bindE (poke dst 0 [NUL]) (\<lambda>dst.
           case buf of
             None \<Rightarrow> Inr (-1, dst)
           | Some b \<Rightarrow>
               if length b = 0 then Inr (-1, dst)
               else bindE (find_var name True b) (\<lambda>p.
                    case p of
                      None \<Rightarrow> Inr (-4, dst)
                    | Some p \<Rightarrow>
                        let v = takeWhile (\<lambda>c. c \<noteq> CHR ''&'') p
                        in bindE (mg_url_decode v (to_int32 (int (length v))) dst (to_int32 (int (length dst))) True) (\<lambda>(len, dst).
                           Inr (if len = -1 then -3 else len, dst)))))"

fun c_strncmp :: "char list \<Rightarrow> char list \<Rightarrow> nat \<Rightarrow> int" where
  \<comment> \<open>\<open>strncmp\<close>, for strings that are as long as the bound\<close>
  "c_strncmp (c # s) (d # t) (Suc n) =
     (if c \<noteq> d then int (of_char c) - int (of_char d) else if c = NUL then 0 else c_strncmp s t n)"
| "c_strncmp _ _ _ = 0"

definition mg_vcmp :: "char list \<Rightarrow> char list \<Rightarrow> int" where
  "mg_vcmp str1 str2 =
     (let n2 = length str2; n1 = length str1; r = c_strncmp str1 str2 (if n1 < n2 then n1 else n2)
      in if r = 0 then to_int32 (int n1 - int n2) else r)"

subsection \<open>Answers\<close>

fun hex_upper :: "nat \<Rightarrow> char list" where
  \<comment> \<open>what \<open>%lX\<close> prints\<close>
  "hex_upper n =
     (let d = (\<lambda>k. if k < 10 then char_of (48 + k) else char_of (55 + k))
      in if n < 16 then [d n] else hex_upper (n div 16) @ [d (n mod 16)])"

declare hex_upper.simps [simp del]

definition mg_send_http_chunk :: "char list \<Rightarrow> char list" where
  \<comment> \<open>the bytes appended to the send buffer of the connection\<close>
  "mg_send_http_chunk buf = hex_upper (length buf) @ [CHR 0x0D, CHR 0x0A] @ buf @ [CHR 0x0D, CHR 0x0A]"

subsection \<open>Encoded values are decoded\<close>

lemma of_char_less: "(of_char (c :: char) :: nat) < 256"
  using of_char_mod_256 [of c, where 'a = nat] by (metis mod_less_divisor zero_less_numeral)

lemma hex_char_val:
  assumes "d < 16"
  shows "c_isxdigit (hex_char d)" "HEXTOI (c_tolower (hex_char d)) = d"
  using assms by (auto simp: c_isxdigit_def HEXTOI_def hex_char_def c_tolower_def is_digit_def of_char_of)

lemma percent_not_plain: "\<not> (c_isalnum (CHR ''%'') \<or> CHR ''%'' \<in> set ''._-$,;~()/'' \<or> CHR ''%'' = NUL)"
  by (simp add: c_isalnum_def is_digit_def c_tolower_def)

lemma plus_not_plain: "\<not> (c_isalnum (CHR ''+'') \<or> CHR ''+'' \<in> set ''._-$,;~()/'' \<or> CHR ''+'' = NUL)"
  by (simp add: c_isalnum_def is_digit_def c_tolower_def)

lemma poke_at:
  assumes "length pre = j" and "j < length dst" and "take j dst = pre"
  shows "\<exists>dst'. poke dst j [c] = Inr dst' \<and> length dst' = length dst \<and> take (Suc j) dst' = pre @ [c]"
  using assms by (auto simp: poke_def)

lemma decode_one:
  assumes "Suc j < length dst"
  shows "url_decode_loop (url_encode_char c @ rest) dst (length dst) j True = bindE (poke dst j [c]) (\<lambda>d. url_decode_loop rest d (length dst) (Suc j) True)"
proof (cases "c_isalnum c \<or> c \<in> set ''._-$,;~()/'' \<or> c = NUL")
  case True
  then have "c \<noteq> CHR ''%''" "c \<noteq> CHR ''+''" using percent_not_plain plus_not_plain by metis+
  with True assms show ?thesis by (subst url_decode_loop.simps) (simp add: url_encode_char_def)
next
  case False
  have d: "(of_char c :: nat) div 16 < 16" "(of_char c :: nat) mod 16 < 16" using of_char_less [of c] by linarith+
  have e: "(of_char c :: nat) div 16 * 16 + of_char c mod 16 = of_char c" by simp
  have "url_encode_char c = [CHR ''%'', hex_char (of_char c div 16), hex_char (of_char c mod 16)]"
    using False by (simp only: url_encode_char_def if_False)
  with assms show ?thesis
    by (subst url_decode_loop.simps) (simp add: hex_char_val [OF d(1)] hex_char_val [OF d(2)] e del: div_mult_mod_eq)
qed

lemma url_decode_encode:
  "length pre = j \<Longrightarrow> take j dst = pre \<Longrightarrow> j + length s < length dst \<Longrightarrow>
    \<exists>dst'. url_decode_loop (mg_url_encode s) dst (length dst) j True = Inr (int (j + length s), dst') \<and> length dst' = length dst \<and>
      take (Suc (j + length s)) dst' = pre @ s @ [NUL]"
proof (induction s arbitrary: pre j dst)
  case Nil
  then show ?case using poke_at [of pre j dst NUL] by (subst url_decode_loop.simps) (auto simp: mg_url_encode_def)
next
  case (Cons c s)
  have enc: "mg_url_encode (c # s) = url_encode_char c @ mg_url_encode s" by (simp add: mg_url_encode_def)
  from poke_at [of pre j dst c] Cons.prems obtain d where
    d: "poke dst j [c] = Inr d" "length d = length dst" "take (Suc j) d = pre @ [c]" by auto
  have "Suc j < length dst" using Cons.prems by simp
  from decode_one [OF this, of c "mg_url_encode s"] d(1) enc
  have s: "url_decode_loop (mg_url_encode (c # s)) dst (length dst) j True = url_decode_loop (mg_url_encode s) d (length d) (Suc j) True" using d(2) by simp
  have p: "length (pre @ [c]) = Suc j" "Suc j + length s < length d" using Cons.prems d(2) by simp_all
  from Cons.IH [OF p(1) d(3) p(2)] show ?case unfolding s using d(2) by simp
qed

lemma strncmp_zero:
  "NUL \<notin> set t \<Longrightarrow> n \<le> length s \<Longrightarrow> n \<le> length t \<Longrightarrow> c_strncmp s t n = 0 \<longleftrightarrow> take n s = take n t"
  by (induction s t n rule: c_strncmp.induct) (auto simp: of_char_eq_iff)

lemma mg_vcmp_eq:
  assumes "NUL \<notin> set t" and "length s < 2 ^ 31" and "length t < 2 ^ 31"
  shows "mg_vcmp s t = 0 \<longleftrightarrow> s = t"
  using strncmp_zero [OF assms(1), of "min (length s) (length t)" s] assms
  by (auto simp: mg_vcmp_def Let_def min_def to_int32_id split: if_splits)

subsection \<open>Finding a variable\<close>

definition var_name :: "char list \<Rightarrow> bool" where
  "var_name k \<longleftrightarrow> NUL \<notin> set k \<and> CHR ''&'' \<notin> set k \<and> CHR ''='' \<notin> set k"

abbreviation lower :: "char list \<Rightarrow> char list" where
  "lower \<equiv> map c_tolower"

fun form_body :: "(char list \<times> char list) list \<Rightarrow> char list" where
  \<comment> \<open>the body of a form as a browser sends it\<close>
  "form_body [] = []"
| "form_body [(k, v)] = k @ CHR ''='' # mg_url_encode v"
| "form_body ((k, v) # ps) = k @ CHR ''='' # mg_url_encode v @ CHR ''&'' # form_body ps"

lemma c_tolower_inj: "of_char (c_tolower c) = (of_char (c_tolower d) :: nat) \<longleftrightarrow> c_tolower c = c_tolower d"
  by (rule of_char_eq_iff)

lemma ncasecmp_zero:
  "NUL \<notin> set a \<Longrightarrow> length a \<le> length b \<Longrightarrow> \<exists>d. mg_ncasecmp a b (length a) = Inr d \<and> (d = 0 \<longleftrightarrow> lower a = lower (take (length a) b))"
proof (induction a arbitrary: b)
  case (Cons c a)
  then obtain e b' where "b = e # b'" by (cases b) auto
  with Cons show ?case by (auto simp: Let_def c_tolower_inj)
qed simp

lemma tolower_special:
  "c_tolower c = CHR ''&'' \<longleftrightarrow> c = CHR ''&''" "c_tolower c = CHR ''='' \<longleftrightarrow> c = CHR ''=''"
  by (auto simp: c_tolower_def char_of_eq_iff take_bit_eq_mod split: if_splits)

lemma lower_no_special:
  assumes "lower a = lower b"
  shows "CHR ''&'' \<in> set a \<longleftrightarrow> CHR ''&'' \<in> set b" "CHR ''='' \<in> set a \<longleftrightarrow> CHR ''='' \<in> set b"
proof -
  have "x \<in> set a \<longleftrightarrow> x \<in> set b" if "\<And>c. c_tolower c = x \<longleftrightarrow> c = x" for x
  proof -
    have "x \<in> set a \<longleftrightarrow> x \<in> set (lower a)" "x \<in> set b \<longleftrightarrow> x \<in> set (lower b)" using that by (auto simp: image_iff) metis+
    then show ?thesis using assms by simp
  qed
  then show "CHR ''&'' \<in> set a \<longleftrightarrow> CHR ''&'' \<in> set b" "CHR ''='' \<in> set a \<longleftrightarrow> CHR ''='' \<in> set b"
    using tolower_special by blast+
qed

lemma encode_no_special: "CHR ''&'' \<notin> set (mg_url_encode v)" "CHR ''='' \<notin> set (mg_url_encode v)"
proof -
  have h: "hex_char d \<noteq> CHR ''&''" "hex_char d \<noteq> CHR ''=''" if "d < 16" for d
    using that by (auto simp: hex_char_def char_of_eq_iff take_bit_eq_mod split: if_splits)
  have p: "\<not> (c_isalnum x \<or> x \<in> set ''._-$,;~()/'' \<or> x = NUL)" if "x = CHR ''&'' \<or> x = CHR ''=''" for x
    using that by (auto simp: c_isalnum_def is_digit_def c_tolower_def)
  have "x \<notin> set (url_encode_char c)" if "x = CHR ''&'' \<or> x = CHR ''=''" for x c
  proof (cases "c_isalnum c \<or> c \<in> set ''._-$,;~()/'' \<or> c = NUL")
    case True
    then have "c \<noteq> x" using p [OF that] by metis
    then show ?thesis unfolding url_encode_char_def if_P [OF True] by simp
  next
    case False
    have d: "(of_char c :: nat) div 16 < 16" "(of_char c :: nat) mod 16 < 16" using of_char_less [of c] by linarith+
    show ?thesis unfolding url_encode_char_def if_not_P [OF False] using that h [OF d(1)] h [OF d(2)] by auto
  qed
  then show "CHR ''&'' \<notin> set (mg_url_encode v)" "CHR ''='' \<notin> set (mg_url_encode v)" by (auto simp: mg_url_encode_def)
qed

lemma find_short: "\<not> length name < length b \<Longrightarrow> find_var name st b = Inr None"
  by (cases b) auto

lemma find_skip:
  \<comment> \<open>up to the next ampersand nothing is found once the start of a pair has been passed\<close>
  "CHR ''&'' \<notin> set w \<Longrightarrow> find_var name False (w @ CHR ''&'' # rest) = find_var name True rest"
  by (induction w) (auto simp: find_short)

lemma find_skip_end: "CHR ''&'' \<notin> set w \<Longrightarrow> find_var name False w = Inr None"
  by (induction w) auto

lemma name_matches:
  assumes "var_name k" and "var_name name" and "length name < length b" and b: "b = k @ CHR ''='' # w" and "b ! length name = CHR ''=''"
  shows "lower name = lower (take (length name) b) \<longleftrightarrow> lower name = lower k"
proof
  assume l: "lower name = lower (take (length name) b)"
  then have n: "CHR ''='' \<notin> set (take (length name) b)" using lower_no_special [OF l] assms(2) by (simp add: var_name_def)
  have "\<not> length name < length k"
  proof
    assume l: "length name < length k"
    then have "k ! length name = CHR ''=''" using assms(5) by (simp add: b nth_append)
    with nth_mem [OF l] assms(1) show False unfolding var_name_def by metis
  qed
  moreover have "\<not> length k < length name" using n by (auto simp: b take_Cons' in_set_conv_nth)
  ultimately show "lower name = lower k" using l by (simp add: b)
next
  assume "lower name = lower k"
  moreover from this have "length name = length k" by (metis length_map)
  ultimately show "lower name = lower (take (length name) b)" by (simp add: b)
qed

lemma find_pair:
  assumes k: "var_name k" and n: "var_name name" and w: "CHR ''&'' \<notin> set w"
    and b: "b = k @ CHR ''='' # w @ tail" and t: "tail = [] \<or> (\<exists>rest. tail = CHR ''&'' # rest)"
  shows "find_var name True b = (if lower k = lower name then Inr (Some (w @ tail))
    else case tail of [] \<Rightarrow> Inr None | _ # rest \<Rightarrow> find_var name True rest)"
proof (cases "lower k = lower name")
  case True
  then have l: "length name = length k" by (metis length_map)
  obtain c cs where c: "b = c # cs" by (cases b) (auto simp: b)
  have x: "length name < length b" "b ! length name = CHR ''=''" "drop (Suc (length name)) b = w @ tail"
    by (simp_all add: b l)
  have "NUL \<notin> set name" "length name \<le> length b" using n x(1) by (simp_all add: var_name_def)
  from ncasecmp_zero [OF this] name_matches [OF k n x(1) b x(2)] True
  have "mg_ncasecmp name b (length name) = Inr 0" by auto
  then show ?thesis using x True unfolding c by simp
next
  case False
  obtain c cs where c: "b = c # cs" "c \<noteq> CHR ''&''" and cs: "\<exists>u. cs = u @ tail \<and> CHR ''&'' \<notin> set u"
    using k w by (cases k) (auto simp: b var_name_def)
  have step: "find_var name True b = find_var name False cs"
  proof (cases "length name < length b \<and> b ! length name = CHR ''=''")
    case True
    then have "NUL \<notin> set name" "length name \<le> length b" using n by (simp_all add: var_name_def)
    from ncasecmp_zero [OF this] name_matches [OF k n _ b] True False obtain d where
      "mg_ncasecmp name b (length name) = Inr d" "d \<noteq> 0" by metis
    then show ?thesis using True c by auto
  next
    case False
    then show ?thesis using c find_short [of name cs False] by auto
  qed
  from cs obtain u where u: "cs = u @ tail" "CHR ''&'' \<notin> set u" by blast
  show ?thesis
  proof (cases tail)
    case Nil
    then show ?thesis using step False u find_skip_end by simp
  next
    case (Cons x rest)
    then have "tail = CHR ''&'' # rest" using t by auto
    then show ?thesis using step False u find_skip by simp
  qed
qed

lemma find_var_form:
  "var_name name \<Longrightarrow> \<forall>(k, v)\<in>set ps. var_name k \<Longrightarrow>
    \<exists>tail. (tail = [] \<or> (\<exists>rest. tail = CHR ''&'' # rest)) \<and> find_var name True (form_body ps) =
      Inr (map_option (\<lambda>v. mg_url_encode v @ tail) (map_of (map (\<lambda>(k, v). (lower k, v)) ps) (lower name)))"
proof (induction ps rule: form_body.induct)
  case (2 k v)
  have "var_name k" using 2 by simp
  from find_pair [OF this 2(1) encode_no_special(1), of "form_body [(k, v)]" v "[]"] show ?case by (intro exI [of _ "[]"]) simp
next
  case (3 k v p ps)
  have k: "var_name k" "\<forall>(k, v)\<in>set (p # ps). var_name k" using 3(3) by simp_all
  from 3(1) [OF 3(2) k(2)] obtain tail where tail: "tail = [] \<or> (\<exists>rest. tail = CHR ''&'' # rest)" "find_var name True (form_body (p # ps)) =
      Inr (map_option (\<lambda>v. mg_url_encode v @ tail) (map_of (map (\<lambda>(k, v). (lower k, v)) (p # ps)) (lower name)))" by blast
  from find_pair [OF k(1) 3(2) encode_no_special(1), of "form_body ((k, v) # p # ps)" v "CHR ''&'' # form_body (p # ps)"]
  have f: "find_var name True (form_body ((k, v) # p # ps)) = (if lower k = lower name then Inr (Some (mg_url_encode v @ CHR ''&'' # form_body (p # ps)))
     else find_var name True (form_body (p # ps)))" by simp
  show ?case
  proof (cases "lower k = lower name")
    case True
    then show ?thesis unfolding f by (intro exI [of _ "CHR ''&'' # form_body (p # ps)"]) simp
  next
    case False
    then show ?thesis unfolding f using tail by (intro exI [of _ tail]) simp
  qed
qed (rule exI [of _ "[]"], simp)

lemma poke_length_ok: "j + length xs \<le> length dst \<Longrightarrow> \<exists>d. poke dst j xs = Inr d \<and> length d = length dst"
  by (simp add: poke_def)

lemma url_decode_safe:
  "j < length dst \<Longrightarrow> \<exists>len dst'. url_decode_loop src dst (length dst) j f = Inr (len, dst') \<and> length dst' = length dst"
proof (induction src arbitrary: dst j rule: length_induct)
  case (1 src)
  have p: "\<exists>d. poke dst j [c] = Inr d \<and> length d = length dst" for c using 1(2) by (intro poke_length_ok) simp
  show ?case
  proof (cases "src = [] \<or> \<not> Suc j < length dst")
    case True
    then show ?thesis using p [of NUL] by (subst url_decode_loop.simps) auto
  next
    case nempty: False
    then obtain c cs where c: "src = c # cs" by (cases src) auto
    have rec: "\<exists>len dst'. bindE (poke dst j [x]) (\<lambda>d. url_decode_loop s d (length dst) (Suc j) f) = Inr (len, dst') \<and> length dst' = length dst"
      if "length s < length src" for s x
    proof -
      obtain d where d: "poke dst j [x] = Inr d" "length d = length dst" using p [of x] by blast
      have "Suc j < length d" using nempty d(2) by simp
      from 1(1) [rule_format, OF that this] d show ?thesis by auto
    qed
    show ?thesis
    proof (cases "\<exists>a b s. c = CHR ''%'' \<and> cs = a # b # s \<and> c_isxdigit a \<and> c_isxdigit b")
      case True
      then obtain a b s where x: "c = CHR ''%''" "cs = a # b # s" "c_isxdigit a \<and> c_isxdigit b" by blast
      then have "length s < length src" using c by simp
      from rec [OF this, of "char_of (HEXTOI (c_tolower a) * 16 + HEXTOI (c_tolower b))"] nempty x c show ?thesis
        by (subst url_decode_loop.simps) simp
    next
      case nx: False
      show ?thesis
      proof (cases "c = CHR ''%''")
        case True
        then have "url_decode_loop src dst (length dst) j f = Inr (-1, dst)"
          using nempty nx c True by (subst url_decode_loop.simps) (auto split: list.split)
        then show ?thesis by simp
      next
        case False
        have "length cs < length src" using c by simp
        from rec [OF this, of "if f \<and> c = CHR ''+'' then CHR '' '' else c"] False nempty c show ?thesis
          by (subst url_decode_loop.simps) simp
      qed
    qed
  qed
qed

lemma form_body_nonempty: "ps \<noteq> [] \<Longrightarrow> form_body ps \<noteq> []"
  by (induction ps rule: form_body.induct) auto

lemma http_var_lookup:
  assumes "var_name name" and "\<forall>(k, v)\<in>set ps. var_name k" and "ps \<noteq> []" and "0 < length dst" and "length dst < 2 ^ 31"
  shows "\<exists>len dst'. mg_get_http_var (Some (form_body ps)) name dst = Inr (len, dst') \<and> length dst' = length dst \<and>
    (case map_of (map (\<lambda>(k, v). (lower k, v)) ps) (lower name) of
       None \<Rightarrow> len = -4 \<and> take 1 dst' = [NUL]
     | Some v \<Rightarrow> length v < length dst \<and> length (mg_url_encode v) < 2 ^ 31 \<longrightarrow> len = int (length v) \<and> take (Suc (length v)) dst' = v @ [NUL])"
proof -
  obtain d0 where d0: "poke dst 0 [NUL] = Inr d0" "length d0 = length dst" "take 1 d0 = [NUL]"
    using assms(4) by (auto simp: poke_def)
  from find_var_form [OF assms(1,2)] obtain tail where t: "tail = [] \<or> (\<exists>rest. tail = CHR ''&'' # rest)"
    "find_var name True (form_body ps) = Inr (map_option (\<lambda>v. mg_url_encode v @ tail) (map_of (map (\<lambda>(k, v). (lower k, v)) ps) (lower name)))"
    by blast
  show ?thesis
  proof (cases "map_of (map (\<lambda>(k, v). (lower k, v)) ps) (lower name)")
    case None
    then show ?thesis using d0 t(2) assms(4) form_body_nonempty [OF assms(3)] by (simp add: mg_get_http_var_def)
  next
    case (Some v)
    have w: "takeWhile (\<lambda>c. c \<noteq> CHR ''&'') (mg_url_encode v @ tail) = mg_url_encode v"
    proof -
      have "c \<in> set (mg_url_encode v) \<Longrightarrow> c \<noteq> CHR ''&''" for c using encode_no_special(1) by metis
      from takeWhile_append2 [of "mg_url_encode v", OF this] t(1) show ?thesis by auto
    qed
    have n: "nat (to_int32 (int (length d0))) = length d0" using d0(2) assms(5) by (simp add: to_int32_id)
    let ?src = "take (nat (to_int32 (int (length (mg_url_encode v))))) (mg_url_encode v)"
    have g: "mg_get_http_var (Some (form_body ps)) name dst =
        bindE (url_decode_loop ?src d0 (length d0) 0 True) (\<lambda>(len, dst). Inr (if len = -1 then -3 else len, dst))"
      using d0 t(2) Some assms(4) form_body_nonempty [OF assms(3)] w n by (simp add: mg_get_http_var_def mg_url_decode_def Let_def)
    have l: "0 < length d0" using d0(2) assms(4) by simp
    show ?thesis
    proof (cases "length v < length dst \<and> length (mg_url_encode v) < 2 ^ 31")
      case True
      then have src: "?src = mg_url_encode v" by (simp add: to_int32_id)
      have "0 + length v < length d0" using d0(2) True by simp
      from url_decode_encode [of "[]" 0 d0 v, OF _ _ this] obtain d1 where
        "url_decode_loop (mg_url_encode v) d0 (length d0) 0 True = Inr (int (length v), d1)" "length d1 = length d0" "take (Suc (length v)) d1 = v @ [NUL]"
        by auto
      then show ?thesis using g Some d0(2) unfolding src by simp
    next
      case False
      from url_decode_safe [OF l, of ?src True] obtain len d1 where
        "url_decode_loop ?src d0 (length d0) 0 True = Inr (len, d1)" "length d1 = length d0" by blast
      then show ?thesis using g Some d0(2) False by auto
    qed
  qed
qed

lemma length_url_encode: "length (mg_url_encode v) \<le> 3 * length v"
proof (induction v)
  case (Cons c v)
  have "length (url_encode_char c) \<le> 3" by (simp add: url_encode_char_def)
  then show ?case using Cons by (simp add: mg_url_encode_def)
qed (simp add: mg_url_encode_def)

text \<open>
  C6. A form variable is read back: from the body of a form, names compared without regard to case,
  \<open>mg_get_http_var\<close> returns the length of the first value with this name and stores the decoded value
  and a terminator in a buffer that is large enough (and smaller than 2 GB, as the encoded value is); without such a
  variable it stores the empty string and returns -4, although its documentation says 0.
\<close>

theorem http_var_round_trip:
  assumes "var_name name" and "\<forall>(k, v)\<in>set ps. var_name k" and "ps \<noteq> []" and "0 < length dst" and "length dst < 2 ^ 31"
  shows "\<exists>len dst'. mg_get_http_var (Some (form_body ps)) name dst = Inr (len, dst') \<and> length dst' = length dst \<and>
    (case map_of (map (\<lambda>(k, v). (lower k, v)) ps) (lower name) of
       None \<Rightarrow> len = -4 \<and> take 1 dst' = [NUL]
     | Some v \<Rightarrow> length v < length dst \<and> length (mg_url_encode v) < 2 ^ 31 \<longrightarrow> len = int (length v) \<and> take (Suc (length v)) dst' = v @ [NUL])"
  by (rule http_var_lookup [OF assms])

theorem http_var_round_trip_witness:
  "form_body [(''diary_id'', ''1''), (''Content'', ''a&b=%'')] = ''diary_id=1&Content=a%26b%3d%25'' \<and>
   (\<exists>dst. mg_get_http_var (Some (form_body [(''diary_id'', ''1''), (''Content'', ''a&b=%'')])) ''content'' (replicate 8 CHR ''?'') = Inr (5, dst) \<and>
     take (Suc (length ''a&b=%'')) dst = ''a&b=%'' @ [NUL])"
proof -
  let ?ps = "[(''diary_id'', ''1''), (''Content'', ''a&b=%'')]"
  have n: "var_name ''content''" "\<forall>(k, v)\<in>set ?ps. var_name k" by (simp_all add: var_name_def)
  have "map_of (map (\<lambda>(k, v). (lower k, v)) ?ps) (lower ''content'') = Some ''a&b=%''" by code_simp
  with http_var_round_trip [OF n, of "replicate 8 CHR ''?''"] show ?thesis
    by (auto simp: mg_url_encode_def url_encode_char_def c_isalnum_def is_digit_def c_tolower_def hex_char_def char_of_def bit_0)
qed

end
