(* ===== verification/Diary.thy ===== *)
theory Diary
  imports Async Resp Http
begin

section \<open>The diary server (server.cpp, object.hpp)\<close>

text \<open>
  A site runs one web server and one Redis server; the two sites replicate to each other. Each
  function of the server is a program: a tree of the atomic actions it takes, each with what
  follows for every result. A Redis command is one action, and so is the part of the program that
  holds \<open>vts_lock\<close> or \<open>mutex\<close>. Redis, and the JSON library that turns objects into text and
  back, are parameters. Output for the console is left out.
\<close>

subsection \<open>Objects\<close>

type_synonym psi_ver_t = "int \<times> int"

record object =
  ob_id :: int
  ob_ver :: psi_ver_t

record diary = object +
  d_user :: "char list"
  d_content :: "char list"
  d_utime :: nat

record comment = object +
  c_diary_id :: int
  c_user :: "char list"
  c_content :: "char list"

datatype obj = DIARY diary | COMMENT comment

text \<open>
  A JSON object of this program maps names to integers and strings. The library prints and parses
  text; \<open>json::parse\<close> and \<open>dump\<close> may throw, which nothing catches, and so does a text that is no
  object when a member is looked up.
\<close>

datatype jvalue = JInt int | JString "char list"

type_synonym json = "char list \<Rightarrow> jvalue option"

record json_lib =
  dump :: "json \<Rightarrow> char list option"
  parse :: "char list \<Rightarrow> json option"

definition object_json :: "('a object_scheme) \<Rightarrow> json" where
  \<comment> \<open>\<open>to_json\<close> of the base type\<close>
  "object_json ob = [''id'' \<mapsto> JInt (ob_id ob), ''ver1'' \<mapsto> JInt (fst (ob_ver ob)), ''ver2'' \<mapsto> JInt (snd (ob_ver ob))]"

definition diary_json :: "diary \<Rightarrow> json" where
  "diary_json d =
     (object_json d)(''user'' \<mapsto> JString (d_user d), ''content'' \<mapsto> JString (d_content d), ''utime'' \<mapsto> JInt (int (d_utime d)))"

definition comment_json :: "comment \<Rightarrow> json" where
  "comment_json c =
     (object_json c)(''user'' \<mapsto> JString (c_user c), ''content'' \<mapsto> JString (c_content c), ''diary_id'' \<mapsto> JInt (c_diary_id c))"

definition get_integer :: "json \<Rightarrow> char list \<Rightarrow> int option" where
  \<comment> \<open>\<open>j.at(name).get<int>()\<close>, which throws if the member is missing or no number, and converts\<close>
  "get_integer j name = (case j name of Some (JInt i) \<Rightarrow> Some i | _ \<Rightarrow> None)"

definition get_string :: "json \<Rightarrow> char list \<Rightarrow> char list option" where
  "get_string j name = (case j name of Some (JString s) \<Rightarrow> Some s | _ \<Rightarrow> None)"

definition object_of_json :: "json \<Rightarrow> object option" where
  "object_of_json j =
     (case (get_integer j ''id'', get_integer j ''ver1'', get_integer j ''ver2'') of
        (Some i, Some v1, Some v2) \<Rightarrow> Some \<lparr>ob_id = to_int32 i, ob_ver = (to_int32 v1, to_int32 v2)\<rparr>
      | _ \<Rightarrow> None)"

definition diary_of_json :: "json \<Rightarrow> diary option" where
  "diary_of_json j =
     (case (object_of_json j, get_string j ''user'', get_string j ''content'', get_integer j ''utime'') of
        (Some ob, Some u, Some c, Some t) \<Rightarrow>
          Some \<lparr>ob_id = ob_id ob, ob_ver = ob_ver ob, d_user = u, d_content = c, d_utime = nat (t mod 2 ^ 64)\<rparr>
      | _ \<Rightarrow> None)"

definition obj_json :: "obj \<Rightarrow> json" where
  "obj_json x = (case x of DIARY d \<Rightarrow> diary_json d | COMMENT c \<Rightarrow> comment_json c)"

definition set_ver :: "psi_ver_t \<Rightarrow> obj \<Rightarrow> obj" where
  "set_ver v x = (case x of DIARY d \<Rightarrow> DIARY (d\<lparr>ob_ver := v\<rparr>) | COMMENT c \<Rightarrow> COMMENT (c\<lparr>ob_ver := v\<rparr>))"

subsection \<open>Programs\<close>

text \<open>
  \<open>Crash\<close> ends the process: an exception that is not caught, or behaviour that C++ leaves undefined,
  among it the end of a function without a value.
\<close>

datatype crash = NullReply | JsonException | OutOfBuffer | BadIndex | IntOverflow | NoReturnValue

datatype connection = Cli | Master \<comment> \<open>\<open>redis_cli\<close> and \<open>redis_cli_master\<close>\<close>

datatype commit_type = FAST_CMT | SLOW_CMT

record rep_msg =
  m_commit_type :: commit_type
  m_key_len :: nat
  m_value_len :: nat
  m_key :: "char list"
  m_value :: "char list"

datatype 'a prog =
    Return 'a
  | Crash crash
  | Redis connection "char list list" "reply option \<Rightarrow> 'a prog" \<comment> \<open>a command, and what follows for its reply or NULL\<close>
  | Increment int "psi_ver_t \<Rightarrow> 'a prog" \<comment> \<open>under \<open>vts_lock\<close>: count \<open>committedVTS[i]\<close> up and read both numbers\<close>
  | Push rep_msg "'a prog" \<comment> \<open>under \<open>mutex\<close>: append to \<open>msg_list\<close>\<close>

primrec bindP :: "'a prog \<Rightarrow> ('a \<Rightarrow> 'b prog) \<Rightarrow> 'b prog" where
  "bindP (Return x) f = f x"
| "bindP (Crash c) f = Crash c"
| "bindP (Redis con args k) f = Redis con args (\<lambda>r. bindP (k r) f)"
| "bindP (Increment i k) f = Increment i (\<lambda>v. bindP (k v) f)"
| "bindP (Push m p) f = Push m (bindP p f)"

definition from_option :: "crash \<Rightarrow> 'a option \<Rightarrow> 'a prog" where
  "from_option c x = (case x of None \<Rightarrow> Crash c | Some y \<Rightarrow> Return y)"

text \<open>What the code reads of a reply: the reader clears an object before it sets its fields.\<close>

definition deref :: "reply option \<Rightarrow> (reply \<Rightarrow> 'a prog) \<Rightarrow> 'a prog" where
  "deref r f = (case r of None \<Rightarrow> Crash NullReply | Some r \<Rightarrow> f r)"

definition reply_elements :: "reply \<Rightarrow> reply list" where
  "reply_elements r = (case r of RArray rs \<Rightarrow> rs | _ \<Rightarrow> [])"

definition reply_integer :: "reply \<Rightarrow> int" where
  "reply_integer r = (case r of RInt i \<Rightarrow> i | _ \<Rightarrow> 0)"

definition reply_str :: "reply \<Rightarrow> char list option" where
  "reply_str r = (case r of RStatus s \<Rightarrow> Some s | RError s \<Rightarrow> Some s | RString s \<Rightarrow> Some s | _ \<Rightarrow> None)"

subsection \<open>Keys, locks and messages\<close>

definition history_key :: "obj \<Rightarrow> char list" where
  "history_key x =
     (case x of DIARY d \<Rightarrow> ''diary_'' @ signed_decimal (ob_id d)
      | COMMENT c \<Rightarrow> ''diary_'' @ signed_decimal (c_diary_id c) @ ''_comments'')"

definition lock_key :: "char list \<Rightarrow> char list" where
  "lock_key k = k @ ''_lock''"

definition acquire_lock :: "char list \<Rightarrow> bool prog" where
  "acquire_lock key = Redis Cli [''INCR'', key] (\<lambda>r. deref r (\<lambda>r. Return (\<exists>i. r = RInt i \<and> i = 1)))"

definition release_lock :: "char list \<Rightarrow> unit prog" where
  "release_lock key = Redis Cli [''SET'', key, ''0''] (\<lambda>_. Return ())"

definition MAX_KEY_LEN :: nat where "MAX_KEY_LEN = 32"
definition MAX_VALUE_LEN :: nat where "MAX_VALUE_LEN = 2048"

definition strncpy0 :: "nat \<Rightarrow> char list \<Rightarrow> nat \<Rightarrow> char list option" where
  \<comment> \<open>\<open>strncpy\<close> of \<open>n\<close> bytes into an array of \<open>room\<close> zero bytes\<close>
  "strncpy0 room s n =
     (if n \<le> room then Some (take n (cstring s) @ replicate (room - length (take n (cstring s))) NUL) else None)"

definition rep_msg_t :: "commit_type \<Rightarrow> char list \<Rightarrow> char list \<Rightarrow> nat \<Rightarrow> nat \<Rightarrow> rep_msg prog" where
  \<comment> \<open>the constructor\<close>
  "rep_msg_t cmt k v k_l v_l =
     bindP (from_option OutOfBuffer (strncpy0 MAX_KEY_LEN k k_l)) (\<lambda>key.
     bindP (from_option OutOfBuffer (strncpy0 MAX_VALUE_LEN v v_l)) (\<lambda>val.
     Return \<lparr>m_commit_type = cmt, m_key_len = k_l, m_value_len = v_l, m_key = key, m_value = val\<rparr>))"

subsection \<open>Commits\<close>

fun conflict :: "(char list \<Rightarrow> psi_ver_t option) \<Rightarrow> psi_ver_t \<Rightarrow> reply list \<Rightarrow> crash + bool" where
  \<comment> \<open>the loop over the history: whether a version is not covered by the start version\<close>
  "conflict ver_of start [] = Inr False"
| "conflict ver_of start (r # rs) =
     (case reply_str r of
        None \<Rightarrow> Inl NullReply
      | Some s \<Rightarrow>
          (case ver_of s of
             None \<Rightarrow> Inl JsonException
           | Some v \<Rightarrow> if fst start < fst v \<or> snd start < snd v then Inr True else conflict ver_of start rs))"

definition object_ver :: "json_lib \<Rightarrow> char list \<Rightarrow> psi_ver_t option" where
  "object_ver J s = map_option ob_ver (Option.bind (parse J (cstring s)) object_of_json)"

definition diary_ver :: "json_lib \<Rightarrow> char list \<Rightarrow> psi_ver_t option" where
  "diary_ver J s = map_option ob_ver (Option.bind (parse J (cstring s)) diary_of_json)"

definition when_free :: "crash + bool \<Rightarrow> (bool \<Rightarrow> 'a prog) \<Rightarrow> 'a prog" where
  "when_free c f = (case c of Inl e \<Rightarrow> Crash e | Inr b \<Rightarrow> f b)"

definition record_commit :: "json_lib \<Rightarrow> int \<Rightarrow> commit_type \<Rightarrow> char list \<Rightarrow> obj \<Rightarrow> unit prog" where
  \<comment> \<open>the common end of both commits: a new version, the history, the message to the other site\<close>
  "record_commit J site cmt key x =
     Increment site (\<lambda>ver.
     bindP (from_option JsonException (dump J (obj_json (set_ver ver x)))) (\<lambda>json_str.
     Redis Cli [''RPUSH'', key, cstring json_str] (\<lambda>_.
     bindP (rep_msg_t cmt key json_str (length key) (length json_str)) (\<lambda>msg.
     Push msg (Return ())))))"

definition fast_commit :: "json_lib \<Rightarrow> int \<Rightarrow> psi_ver_t \<Rightarrow> obj \<Rightarrow> bool prog" where
  "fast_commit J site startTs x =
     (let key = history_key x; lock = lock_key key; finish = (\<lambda>success. bindP (release_lock lock) (\<lambda>_. Return success));
          commit = bindP (record_commit J site FAST_CMT key x) (\<lambda>_. finish True)
      in bindP (acquire_lock lock) (\<lambda>rc.
         if \<not> rc then Return False
         else case x of
                COMMENT _ \<Rightarrow> commit
              | DIARY _ \<Rightarrow>
                  Redis Cli [''LRANGE'', key, ''0'', ''-1''] (\<lambda>r. deref r (\<lambda>r.
                  if r = RNil then commit
                  else when_free (conflict (object_ver J) startTs (reply_elements r)) (\<lambda>b.
                       if b then finish False else commit)))))"

definition slow_commit :: "json_lib \<Rightarrow> int \<Rightarrow> psi_ver_t \<Rightarrow> obj \<Rightarrow> bool prog" where
  "slow_commit J site startTs x =
     (case x of
        COMMENT _ \<Rightarrow> Return False
      | DIARY d \<Rightarrow>
          let key = ''diary_'' @ signed_decimal (ob_id d); lock = lock_key key
          in Redis Master [''INCR'', lock] (\<lambda>r. deref r (\<lambda>r.
             if r = RInt 1
             then Redis Master [''LRANGE'', key, ''0'', ''-1''] (\<lambda>r. deref r (\<lambda>r.
                  if r = RNil then Crash NoReturnValue
                  else when_free (conflict (diary_ver J) startTs (reply_elements r)) (\<lambda>b.
                       if b then Redis Master [''SET'', lock, ''0''] (\<lambda>_. Return False)
                       else bindP (record_commit J site SLOW_CMT key x) (\<lambda>_. Return True))))
             else Return False)))"

subsection \<open>Replication\<close>

definition c_string_at :: "char list \<Rightarrow> char list prog" where
  \<comment> \<open>the string at the start of a block, read as \<open>%s\<close> does\<close>
  "c_string_at b = (if NUL \<in> set b then Return (cstring b) else Crash OutOfBuffer)"

definition replicate_message :: "int \<Rightarrow> rep_msg \<Rightarrow> unit prog" where
  \<comment> \<open>what \<open>replicater_thread\<close> does with a message; key and value are next to each other in the message\<close>
  "replicate_message site m =
     bindP (c_string_at (m_key m @ m_value m)) (\<lambda>key.
     bindP (c_string_at (m_value m)) (\<lambda>val.
     Redis Cli [''RPUSH'', key, val] (\<lambda>_.
     bindP (if m_commit_type m = SLOW_CMT
            then if length key + 6 \<le> 48 then release_lock (lock_key key) else Crash OutOfBuffer
            else Return ()) (\<lambda>_.
     Increment (1 - site) (\<lambda>_. Return ())))))"

subsection \<open>Requests\<close>

text \<open>
  The handlers look up form variables in buffers on the stack whose former contents are a parameter,
  by the name of the buffer; they ignore whether a variable was found and could be decoded.
\<close>

type_synonym stack = "char list \<Rightarrow> nat \<Rightarrow> char"

definition form_var :: "stack \<Rightarrow> char list \<Rightarrow> char list \<Rightarrow> nat \<Rightarrow> char list \<Rightarrow> char list prog" where
  \<comment> \<open>the buffer after \<open>mg_get_http_var\<close>\<close>
  "form_var stack body buffer room name =
     (case mg_get_http_var (Some body) name (map (stack buffer) [0..<room]) of
        Inl _ \<Rightarrow> Crash OutOfBuffer
      | Inr (_, dst) \<Rightarrow> Return dst)"

definition c_atoi :: "char list \<Rightarrow> int prog" where
  "c_atoi b = (case strtol10 b of Inl _ \<Rightarrow> Crash OutOfBuffer | Inr v \<Rightarrow> Return (to_int32 v))"

definition PREFER_SITE :: "int \<Rightarrow> int" where
  \<comment> \<open>the remainder of C has the sign of the number\<close>
  "PREFER_SITE oid = (if oid < 0 then - (- oid mod 2) else oid mod 2)"

definition response :: "char list \<Rightarrow> char list" where
  "response body =
     ''HTTP/1.1 200 OK'' @ CRLF @ ''Transfer-Encoding: chunked'' @ CRLF @ CRLF @ mg_send_http_chunk body @ mg_send_http_chunk []"

fun latest_diary :: "json_lib \<Rightarrow> reply list \<Rightarrow> nat \<Rightarrow> psi_ver_t \<Rightarrow> nat \<Rightarrow> diary list \<Rightarrow> crash + nat \<times> diary list" where
  \<comment> \<open>the loop of \<open>handle_get_diary_content\<close>: \<open>max_idx\<close> and \<open>hlist\<close>\<close>
  "latest_diary J [] i max_ver max_idx hlist = Inr (max_idx, hlist)"
| "latest_diary J (r # rs) i max_ver max_idx hlist =
     (case reply_str r of
        None \<Rightarrow> Inl NullReply
      | Some s \<Rightarrow>
          (case Option.bind (parse J (cstring s)) diary_of_json of
             None \<Rightarrow> Inl JsonException
           | Some di \<Rightarrow>
               if fst (ob_ver di) \<ge> fst max_ver \<and> snd (ob_ver di) \<ge> snd max_ver
               then latest_diary J rs (Suc i) (ob_ver di) i (hlist @ [di])
               else latest_diary J rs (Suc i) max_ver max_idx hlist))"

definition handle_get_diary_content :: "json_lib \<Rightarrow> stack \<Rightarrow> char list \<Rightarrow> char list prog" where
  "handle_get_diary_content J stack body =
     bindP (form_var stack body ''d_id'' 100 ''diary_id'') (\<lambda>d_id.
     let hlist_id = ''diary_'' @ take 10 (cstring d_id)
     in Redis Cli [''LRANGE'', hlist_id, ''0'', ''-1''] (\<lambda>r. deref r (\<lambda>r.
        case (if r = RNil then Inr (0, []) else latest_diary J (reply_elements r) 0 (0, 0) 0 []) of
          Inl c \<Rightarrow> Crash c
        | Inr (max_idx, hlist) \<Rightarrow>
            if max_idx < length hlist
            then bindP (from_option JsonException (dump J (diary_json (hlist ! max_idx)))) (\<lambda>s. Return (response (cstring s)))
            else Crash BadIndex)))"

definition handle_edit_diary :: "json_lib \<Rightarrow> int \<Rightarrow> stack \<Rightarrow> nat \<Rightarrow> char list \<Rightarrow> char list prog" where
  \<comment> \<open>the member \<open>utime\<close> of the new diary keeps the value that its memory has\<close>
  "handle_edit_diary J site stack utime body =
     bindP (form_var stack body ''diary_id'' 16 ''diary_id'') (\<lambda>diary_id.
     bindP (form_var stack body ''user'' 16 ''user_id'') (\<lambda>user.
     bindP (form_var stack body ''content'' 1024 ''content'') (\<lambda>content.
     bindP (form_var stack body ''ver1'' 16 ''ver1'') (\<lambda>ver1.
     bindP (form_var stack body ''ver2'' 16 ''ver2'') (\<lambda>ver2.
     bindP (c_atoi diary_id) (\<lambda>i.
     bindP (c_atoi ver1) (\<lambda>v1.
     bindP (c_atoi ver2) (\<lambda>v2.
     bindP (c_string_at content) (\<lambda>content.
     bindP (c_string_at user) (\<lambda>user.
     let d = \<lparr>ob_id = i, ob_ver = (v1, v2), d_user = user, d_content = content, d_utime = utime\<rparr>
     in bindP (if site = PREFER_SITE i then fast_commit J site (v1, v2) (DIARY d) else slow_commit J site (v1, v2) (DIARY d)) (\<lambda>success.
        Return (response (if success then ''{ \"success\": 1 }'' else ''{ \"success\": 0 }'')))))))))))))"

definition handle_add_comment :: "json_lib \<Rightarrow> int \<Rightarrow> stack \<Rightarrow> char list \<Rightarrow> char list prog" where
  "handle_add_comment J site stack body =
     bindP (form_var stack body ''d_id'' 100 ''diary_id'') (\<lambda>d_id.
     bindP (form_var stack body ''user_id'' 100 ''user_id'') (\<lambda>user_id.
     bindP (form_var stack body ''content'' 500 ''content'') (\<lambda>content.
     bindP (c_atoi d_id) (\<lambda>did.
     bindP (c_string_at user_id) (\<lambda>user.
     bindP (c_string_at content) (\<lambda>content.
     let com = \<lparr>ob_id = -1, ob_ver = (0, 0), c_diary_id = did, c_user = user, c_content = content\<rparr>
     in bindP (fast_commit J site (0, 0) (COMMENT com)) (\<lambda>_. Return (response ''{ \"success\": 1 }'')))))))) "

fun comma_separated :: "reply list \<Rightarrow> char list option" where
  \<comment> \<open>the loop of \<open>handle_get_comments\<close>\<close>
  "comma_separated [] = Some []"
| "comma_separated [r] = map_option cstring (reply_str r)"
| "comma_separated (r # rs) =
     (case (reply_str r, comma_separated rs) of (Some s, Some t) \<Rightarrow> Some (cstring s @ '','' @ t) | _ \<Rightarrow> None)"

definition handle_get_comments :: "stack \<Rightarrow> char list \<Rightarrow> char list prog" where
  "handle_get_comments stack body =
     bindP (form_var stack body ''d_id'' 100 ''diary_id'') (\<lambda>d_id.
     bindP (c_string_at d_id) (\<lambda>d_id.
     if length d_id + 16 > 100 then Crash OutOfBuffer
     else Redis Cli [''LRANGE'', ''diary_'' @ d_id @ ''_comments'', ''0'', ''-1''] (\<lambda>r. deref r (\<lambda>r.
          bindP (from_option NullReply (comma_separated (reply_elements r))) (\<lambda>s.
          Return (response (''['' @ s @ '']'')))))))"

definition like_connection :: "int \<Rightarrow> int \<Rightarrow> connection" where
  "like_connection site diary_id = (if PREFER_SITE diary_id = site then Cli else Master)"

definition handle_get_like :: "json_lib \<Rightarrow> int \<Rightarrow> stack \<Rightarrow> char list \<Rightarrow> char list prog" where
  "handle_get_like J site stack body =
     bindP (form_var stack body ''d_id'' 100 ''diary_id'') (\<lambda>d_id.
     bindP (c_string_at d_id) (\<lambda>id_str.
     if length id_str + 12 > 100 then Crash OutOfBuffer
     else bindP (c_atoi d_id) (\<lambda>diary_id.
          Redis (like_connection site diary_id) [''GET'', ''diary_'' @ id_str @ ''_like''] (\<lambda>r. deref r (\<lambda>r.
          bindP (case reply_str r of None \<Rightarrow> Return 0 | Some s \<Rightarrow> c_atoi (s @ [NUL])) (\<lambda>num.
          bindP (from_option JsonException (dump J [''diary_id'' \<mapsto> JInt diary_id, ''num'' \<mapsto> JInt num])) (\<lambda>s.
          Return (response (cstring s)))))))))"

definition handle_like :: "json_lib \<Rightarrow> int \<Rightarrow> stack \<Rightarrow> bool \<Rightarrow> char list \<Rightarrow> char list prog" where
  \<comment> \<open>the variable \<open>success\<close> is never set: its value is a parameter\<close>
  "handle_like J site stack success body =
     bindP (form_var stack body ''d_id'' 100 ''diary_id'') (\<lambda>d_id.
     bindP (c_atoi d_id) (\<lambda>diary_id.
     Redis (like_connection site diary_id) [''INCR'', ''diary_'' @ signed_decimal diary_id @ ''_like''] (\<lambda>r. deref r (\<lambda>r.
     bindP (from_option JsonException (dump J [''success'' \<mapsto> JInt (if success then 1 else 0), ''num'' \<mapsto> JInt (reply_integer r)])) (\<lambda>s.
     Return (response (cstring s)))))))"

datatype answer = Answer "char list" | StaticFile \<comment> \<open>\<open>mg_serve_http\<close>\<close> | NoAnswer

definition ev_handler :: "json_lib \<Rightarrow> int \<Rightarrow> stack \<Rightarrow> nat \<Rightarrow> bool \<Rightarrow> char list \<Rightarrow> char list \<Rightarrow> answer prog" where
  \<comment> \<open>the event MG_EV_HTTP_REQUEST, which alone is handled\<close>
  "ev_handler J site stack utime success uri body =
     (let send = (\<lambda>p. bindP p (\<lambda>s. Return (Answer s)))
      in if mg_vcmp uri ''/api/get_diary_content'' = 0 then send (handle_get_diary_content J stack body)
         else if mg_vcmp uri ''/api/edit_diary'' = 0 then send (handle_edit_diary J site stack utime body)
         else if mg_vcmp uri ''/api/add_comment'' = 0 then send (handle_add_comment J site stack body)
         else if mg_vcmp uri ''/api/get_comments'' = 0 then send (handle_get_comments stack body)
         else if mg_vcmp uri ''/api/get_like'' = 0 then send (handle_get_like J site stack body)
         else if mg_vcmp uri ''/api/like'' = 0 then send (handle_like J site stack success body)
         else if mg_vcmp uri ''/printcontent'' = 0 then Return NoAnswer
         else Return StaticFile)"

end
