(* ===== verification/Psi.thy ===== *)
theory Psi
  imports Diary "HOL-Library.Multiset"
begin

section \<open>Two sites at work\<close>

text \<open>
  The state of the two sites and the steps their threads take: first \<open>psi_step\<close>, in which a command to Redis and its
  reply are one action, then \<open>shared_step\<close>, in which the threads of a site call their common connection and may race
  for it, and the proof that the runs without a race are runs of the first; and the discipline in which the programs of the server use their locks.
\<close>

subsection \<open>Redis\<close>

text \<open>
  What the server relies on: the documented effect and reply of the commands it sends. A command may
  also fail with the connection, before or after it took effect; then the client gets NULL. Nothing
  is said of other commands.
\<close>

datatype redis_value = Str "char list" | Lst "char list list"

type_synonym redis_store = "char list \<Rightarrow> redis_value option"

type_synonym 's redis = "char list list \<Rightarrow> 's \<Rightarrow> reply option \<times> 's"

definition is_error :: "reply \<Rightarrow> bool" where
  "is_error r \<longleftrightarrow> (case r of RError _ \<Rightarrow> True | _ \<Rightarrow> False)"

definition counter :: "redis_store \<Rightarrow> char list \<Rightarrow> int \<Rightarrow> bool" where
  \<comment> \<open>the key holds this number of 64 bits\<close>
  "counter st k v \<longleftrightarrow> - (2 ^ 63) \<le> v \<and> v < 2 ^ 63 \<and> (st k = Some (Str (signed_decimal v)) \<or> st k = None \<and> v = 0)"

definition list_at :: "redis_store \<Rightarrow> char list \<Rightarrow> char list list option" where
  "list_at st k = (case st k of None \<Rightarrow> Some [] | Some (Lst xs) \<Rightarrow> Some xs | Some (Str _) \<Rightarrow> None)"

definition redis_effect :: "char list list \<Rightarrow> redis_store \<Rightarrow> reply \<Rightarrow> redis_store \<Rightarrow> bool" where
  "redis_effect args st r st' \<longleftrightarrow>
     (\<forall>k v. args = [''INCR'', k] \<longrightarrow> counter st k v \<longrightarrow>
        (if v + 1 < 2 ^ 63 then r = RInt (v + 1) \<and> st' = st(k \<mapsto> Str (signed_decimal (v + 1))) else is_error r \<and> st' = st)) \<and>
     (\<forall>k. args = [''INCR'', k] \<longrightarrow> (\<forall>v. \<not> counter st k v) \<longrightarrow> is_error r \<and> st' = st) \<and>
     (\<forall>k v. args = [''SET'', k, v] \<longrightarrow> r = RStatus ''OK'' \<and> st' = st(k \<mapsto> Str v)) \<and>
     (\<forall>k v. args = [''RPUSH'', k, v] \<longrightarrow>
        (case list_at st k of
           Some xs \<Rightarrow> r = RInt (int (length xs) + 1) \<and> st' = st(k \<mapsto> Lst (xs @ [v]))
         | None \<Rightarrow> is_error r \<and> st' = st)) \<and>
     (\<forall>k. args = [''LRANGE'', k, ''0'', ''-1''] \<longrightarrow> st' = st \<and>
        (case list_at st k of Some xs \<Rightarrow> r = RArray (map RString xs) | None \<Rightarrow> is_error r)) \<and>
     (\<forall>k. args = [''GET'', k] \<longrightarrow> st' = st \<and>
        (case st k of None \<Rightarrow> r = RNil | Some (Str s) \<Rightarrow> r = RString s | Some (Lst _) \<Rightarrow> is_error r))"

definition redis_ok :: "'s redis \<Rightarrow> ('s \<Rightarrow> redis_store) \<Rightarrow> bool" where
  "redis_ok redis view \<longleftrightarrow>
     (\<forall>args s r s'. redis args s = (r, s') \<longrightarrow>
        (\<exists>a st. redis_effect args (view s) a st \<and>
           (r = Some a \<and> view s' = st \<or> r = None \<and> (view s' = view s \<or> view s' = st))))"

subsection \<open>The state and the steps of the threads\<close>

type_synonym lock = "int \<times> char list" \<comment> \<open>a server and a key\<close>

datatype thread = Main int | Replicater int

text \<open>
  The state of both sites: the Redis servers, \<open>committedVTS\<close> and \<open>msg_list\<close> of each process, the messages
  on their way to a site, and what the threads have still to do. The field \<open>held\<close> does not influence
  anything: it notes the locks a thread got by \<open>INCR\<close> and has not given back by \<open>SET\<close> or handed on
  with a message of a slow commit.
\<close>

record 's psi_state =
  servers :: "int \<Rightarrow> 's"
  committedVTS :: "int \<Rightarrow> psi_ver_t"
  msg_list :: "int \<Rightarrow> rep_msg list"
  network :: "int \<Rightarrow> rep_msg list"
  main_thread :: "int \<Rightarrow> answer prog"
  replicater_thread :: "int \<Rightarrow> unit prog"
  held :: "thread \<Rightarrow> lock multiset"

definition server_of :: "int \<Rightarrow> connection \<Rightarrow> int" where
  "server_of site con = (case con of Cli \<Rightarrow> site | Master \<Rightarrow> 1 - site)"

definition is_lock :: "char list \<Rightarrow> bool" where
  "is_lock k \<longleftrightarrow> drop (length k - 5) k = ''_lock''"

definition after_command :: "int \<Rightarrow> char list list \<Rightarrow> reply option \<Rightarrow> lock multiset \<Rightarrow> lock multiset" where
  \<comment> \<open>the locks held after a command and its reply\<close>
  "after_command srv args r H =
     (case args of
        [c, k] \<Rightarrow> if c = ''INCR'' \<and> is_lock k \<and> r = Some (RInt 1) then add_mset (srv, k) H else H
      | [c, k, v] \<Rightarrow> if c = ''SET'' then H - {#(srv, k)#} else H
      | _ \<Rightarrow> H)"

definition message_key :: "rep_msg \<Rightarrow> char list" where
  "message_key m = cstring (m_key m @ m_value m)"

definition message_lock :: "int \<Rightarrow> rep_msg \<Rightarrow> lock multiset" where
  \<comment> \<open>the lock that the receiver of a message at this site gives back\<close>
  "message_lock site m = (if m_commit_type m = SLOW_CMT then {#(site, lock_key (message_key m))#} else {#})"

fun act :: "'s redis \<Rightarrow> thread \<Rightarrow> int \<Rightarrow> 'a prog \<Rightarrow> 's psi_state \<Rightarrow> ('a prog \<times> 's psi_state) option" where
  \<comment> \<open>one atomic action of a thread at a site; the calls behind a Redis command are taken apart in \<open>shared_step\<close>\<close>
  "act redis t site (Return x) w = None"
| "act redis t site (Crash c) w = None"
| "act redis t site (Redis con args k) w =
     (let srv = server_of site con; (r, s) = redis args (servers w srv)
      in Some (k r, w\<lparr>servers := (servers w)(srv := s), held := (held w)(t := after_command srv args r (held w t))\<rparr>))"
| "act redis t site (Increment i k) w =
     (let v = committedVTS w site
      in if i \<noteq> 0 \<and> i \<noteq> 1 then Some (Crash BadIndex, w)
         else if (if i = 0 then fst v else snd v) \<ge> 2 ^ 31 - 1 then Some (Crash IntOverflow, w)
         else let v = (if i = 0 then (fst v + 1, snd v) else (fst v, snd v + 1))
              in Some (k v, w\<lparr>committedVTS := (committedVTS w)(site := v)\<rparr>))"
| "act redis t site (Push m p) w =
     Some (p, w\<lparr>msg_list := (msg_list w)(site := msg_list w site @ [m]), held := (held w)(t := held w t - message_lock (1 - site) m)\<rparr>)"

definition sites :: "int set" where
  "sites = {0, 1}"

text \<open>
  The main thread handles one request after the other. The replicater, when it is done with a
  message, receives the next or sends what is in \<open>msg_list\<close>; it holds \<open>mutex\<close> while it sends the whole list,
  so that sending message by message only adds behaviour. Sockets of type PUB and SUB may drop messages.
\<close>

inductive psi_step :: "'s redis \<Rightarrow> json_lib \<Rightarrow> bool \<Rightarrow> 's psi_state \<Rightarrow> 's psi_state \<Rightarrow> bool" for redis J lossy where
  main: "site \<in> sites \<Longrightarrow> act redis (Main site) site (main_thread w site) w = Some (p, w') \<Longrightarrow>
    psi_step redis J lossy w (w'\<lparr>main_thread := (main_thread w')(site := p)\<rparr>)"
| replicater: "site \<in> sites \<Longrightarrow> act redis (Replicater site) site (replicater_thread w site) w = Some (p, w') \<Longrightarrow>
    psi_step redis J lossy w (w'\<lparr>replicater_thread := (replicater_thread w')(site := p)\<rparr>)"
| request: "site \<in> sites \<Longrightarrow> main_thread w site = Return a \<Longrightarrow>
    psi_step redis J lossy w (w\<lparr>main_thread := (main_thread w)(site := ev_handler J site stack utime success uri body)\<rparr>)"
| receive: "site \<in> sites \<Longrightarrow> replicater_thread w site = Return () \<Longrightarrow> network w site = m # ms \<Longrightarrow>
    psi_step redis J lossy w (w\<lparr>network := (network w)(site := ms), replicater_thread := (replicater_thread w)(site := replicate_message site m),
      held := (held w)(Replicater site := held w (Replicater site) + message_lock site m)\<rparr>)"
| send: "site \<in> sites \<Longrightarrow> replicater_thread w site = Return () \<Longrightarrow> msg_list w site = m # ms \<Longrightarrow>
    psi_step redis J lossy w (w\<lparr>msg_list := (msg_list w)(site := ms), network := (network w)(1 - site := network w (1 - site) @ [m])\<rparr>)"
| lose: "lossy \<Longrightarrow> site \<in> sites \<Longrightarrow> network w site = ms @ m # ms' \<Longrightarrow>
    psi_step redis J lossy w (w\<lparr>network := (network w)(site := ms @ ms')\<rparr>)"

definition psi_start :: "'s psi_state \<Rightarrow> bool" where
  "psi_start w \<longleftrightarrow> (\<forall>site. committedVTS w site = (0, 0) \<and> msg_list w site = [] \<and> network w site = [] \<and>
     main_thread w site = Return NoAnswer \<and> replicater_thread w site = Return ()) \<and> (\<forall>t. held w t = {#})"

definition psi_reachable :: "'s redis \<Rightarrow> json_lib \<Rightarrow> bool \<Rightarrow> 's psi_state \<Rightarrow> bool" where
  "psi_reachable redis J lossy w \<longleftrightarrow> (\<exists>w0. psi_start w0 \<and> (psi_step redis J lossy)\<^sup>*\<^sup>* w0 w)"

subsection \<open>The connection that two threads share\<close>

text \<open>
  Both threads of a site send their commands through \<open>redis_cli\<close>, a context without a lock; hiredis documents
  that a context is not safe for threads. So a command to the own server is not one action: a thread enters
  \<open>redisCommand\<close>, the server carries the command out, and the thread leaves with the reply. When the other
  thread of the site enters while a thread is inside, their bytes and replies mix in the buffers of one context: from then
  on anything may happen, and \<open>raced\<close> notes it. The commands to \<open>redis_cli_master\<close>, which only the main
  thread uses, and everything else that threads share under a mutex are single actions.
  A run without such a collision is a run of \<open>psi_step\<close> when the calls are forgotten (\<open>shared_run_refines\<close>), and every run
  of \<open>psi_step\<close> is one in which the calls do not overlap (\<open>psi_run_alone\<close>). Not modelled is
  that \<open>fast_commit\<close> prints \<open>committedVTS\<close> without its mutex.
\<close>

definition threads :: "thread set" where
  "threads = {Main 0, Main 1, Replicater 0, Replicater 1}"

fun site_of :: "thread \<Rightarrow> int" where
  "site_of (Main i) = i"
| "site_of (Replicater i) = i"

definition sends_to_cli :: "'a prog \<Rightarrow> bool" where
  "sends_to_cli p \<longleftrightarrow> (case p of Redis con _ _ \<Rightarrow> con = Cli | _ \<Rightarrow> False)"

fun wants_cli :: "'s psi_state \<Rightarrow> thread \<Rightarrow> bool" where
  "wants_cli w (Main site) = sends_to_cli (main_thread w site)"
| "wants_cli w (Replicater site) = sends_to_cli (replicater_thread w site)"

inductive thread_step :: "'s redis \<Rightarrow> thread \<Rightarrow> 's psi_state \<Rightarrow> 's psi_state \<Rightarrow> bool" for redis where
  main: "act redis (Main site) site (main_thread w site) w = Some (p, w') \<Longrightarrow>
    thread_step redis (Main site) w (w'\<lparr>main_thread := (main_thread w')(site := p)\<rparr>)"
| replicater: "act redis (Replicater site) site (replicater_thread w site) w = Some (p, w') \<Longrightarrow>
    thread_step redis (Replicater site) w (w'\<lparr>replicater_thread := (replicater_thread w')(site := p)\<rparr>)"

record 's shared_state =
  world :: "'s psi_state"
  calling :: "int \<Rightarrow> (thread \<times> bool) option" \<comment> \<open>at each site: who is inside \<open>redisCommand\<close>, and whether the command was carried out\<close>
  raced :: bool

definition in_call :: "'s shared_state \<Rightarrow> thread \<Rightarrow> bool" where
  "in_call s t \<longleftrightarrow> (\<exists>b. calling s (site_of t) = Some (t, b))"

inductive shared_step :: "'s redis \<Rightarrow> json_lib \<Rightarrow> bool \<Rightarrow> 's shared_state \<Rightarrow> 's shared_state \<Rightarrow> bool" for redis J lossy where
  enter: "t \<in> threads \<Longrightarrow> wants_cli (world s) t \<Longrightarrow> calling s (site_of t) = None \<Longrightarrow>
    shared_step redis J lossy s (s\<lparr>calling := (calling s)(site_of t := Some (t, False))\<rparr>)"
| collide: "t \<in> threads \<Longrightarrow> wants_cli (world s) t \<Longrightarrow> calling s (site_of t) = Some (t', b) \<Longrightarrow> t' \<noteq> t \<Longrightarrow>
    shared_step redis J lossy s (s'\<lparr>raced := True\<rparr>)"
| execute: "t \<in> threads \<Longrightarrow> calling s (site_of t) = Some (t, False) \<Longrightarrow> thread_step redis t (world s) w \<Longrightarrow>
    shared_step redis J lossy s (s\<lparr>world := w, calling := (calling s)(site_of t := Some (t, True))\<rparr>)"
| leave: "t \<in> threads \<Longrightarrow> calling s (site_of t) = Some (t, True) \<Longrightarrow>
    shared_step redis J lossy s (s\<lparr>calling := (calling s)(site_of t := None)\<rparr>)"
| own: "t \<in> threads \<Longrightarrow> \<not> in_call s t \<Longrightarrow> \<not> wants_cli (world s) t \<Longrightarrow> thread_step redis t (world s) w \<Longrightarrow>
    shared_step redis J lossy s (s\<lparr>world := w\<rparr>)"
| request: "site \<in> sites \<Longrightarrow> \<not> in_call s (Main site) \<Longrightarrow> w = world s \<Longrightarrow> main_thread w site = Return a \<Longrightarrow>
    shared_step redis J lossy s (s\<lparr>world := w\<lparr>main_thread := (main_thread w)(site := ev_handler J site stack utime success uri body)\<rparr>\<rparr>)"
| receive: "site \<in> sites \<Longrightarrow> \<not> in_call s (Replicater site) \<Longrightarrow> w = world s \<Longrightarrow> replicater_thread w site = Return () \<Longrightarrow> network w site = m # ms \<Longrightarrow>
    shared_step redis J lossy s (s\<lparr>world := w\<lparr>network := (network w)(site := ms), replicater_thread := (replicater_thread w)(site := replicate_message site m),
      held := (held w)(Replicater site := held w (Replicater site) + message_lock site m)\<rparr>\<rparr>)"
| send: "site \<in> sites \<Longrightarrow> \<not> in_call s (Replicater site) \<Longrightarrow> w = world s \<Longrightarrow> replicater_thread w site = Return () \<Longrightarrow> msg_list w site = m # ms \<Longrightarrow>
    shared_step redis J lossy s (s\<lparr>world := w\<lparr>msg_list := (msg_list w)(site := ms), network := (network w)(1 - site := network w (1 - site) @ [m])\<rparr>\<rparr>)"
| lose: "lossy \<Longrightarrow> site \<in> sites \<Longrightarrow> w = world s \<Longrightarrow> network w site = ms @ m # ms' \<Longrightarrow>
    shared_step redis J lossy s (s\<lparr>world := w\<lparr>network := (network w)(site := ms @ ms')\<rparr>\<rparr>)"
| chaos: "raced s \<Longrightarrow> shared_step redis J lossy s (s'\<lparr>raced := True\<rparr>)"

definition alone :: "'s psi_state \<Rightarrow> 's shared_state" where
  \<comment> \<open>no call is under way\<close>
  "alone w = \<lparr>world = w, calling = (\<lambda>_. None), raced = False\<rparr>"

definition shared_reachable :: "'s redis \<Rightarrow> json_lib \<Rightarrow> bool \<Rightarrow> 's shared_state \<Rightarrow> bool" where
  "shared_reachable redis J lossy s \<longleftrightarrow> (\<exists>w. psi_start w \<and> (shared_step redis J lossy)\<^sup>*\<^sup>* (alone w) s)"

lemma thread_psi_step: "thread_step redis t w w' \<Longrightarrow> t \<in> threads \<Longrightarrow> psi_step redis J lossy w w'"
  by (cases rule: thread_step.cases) (auto simp: threads_def sites_def intro: psi_step.main psi_step.replicater)

lemma shared_step_refines:
  assumes "shared_step redis J lossy s s'" and "\<not> raced s'"
  shows "\<not> raced s \<and> (psi_step redis J lossy)\<^sup>*\<^sup>* (world s) (world s')"
  using assms
proof (cases rule: shared_step.cases)
  case (execute t w)
  then show ?thesis using thread_psi_step [OF execute(4,2), of J lossy] assms(2) by auto
next
  case (own t w)
  then show ?thesis using thread_psi_step [OF own(5,2), of J lossy] assms(2) by auto
qed (auto intro: psi_step.request psi_step.receive psi_step.send psi_step.lose)

lemma shared_run_refines:
  assumes "(shared_step redis J lossy)\<^sup>*\<^sup>* s s'" and "\<not> raced s'"
  shows "\<not> raced s \<and> (psi_step redis J lossy)\<^sup>*\<^sup>* (world s) (world s')"
  using assms
proof (induction rule: rtranclp_induct)
  case (step y z)
  from shared_step_refines [OF step.hyps(2) step.prems] step.IH show ?case by (metis rtranclp_trans)
qed simp

lemma thread_alone:
  assumes "thread_step redis t w w'" and "t \<in> threads"
  shows "(shared_step redis J lossy)\<^sup>*\<^sup>* (alone w) (alone w')"
proof (cases "wants_cli w t")
  case True
  let ?step = "shared_step redis J lossy" and ?s = "alone w"
  let ?s1 = "?s\<lparr>calling := (calling ?s)(site_of t := Some (t, False))\<rparr>"
  let ?s2 = "?s1\<lparr>world := w', calling := (calling ?s1)(site_of t := Some (t, True))\<rparr>"
  let ?s3 = "?s2\<lparr>calling := (calling ?s2)(site_of t := None)\<rparr>"
  have 1: "?step ?s ?s1" by (rule shared_step.enter [OF assms(2)]) (simp_all add: alone_def True)
  have 2: "?step ?s1 ?s2" by (rule shared_step.execute [OF assms(2)]) (simp_all add: alone_def assms(1))
  have 3: "?step ?s2 ?s3" by (rule shared_step.leave [OF assms(2)]) simp
  have e: "?s3 = alone w'" by (simp add: alone_def fun_eq_iff)
  have "?step\<^sup>*\<^sup>* ?s1 ?s3" using 2 3 by (rule converse_rtranclp_into_rtranclp [OF _ r_into_rtranclp])
  with 1 have "?step\<^sup>*\<^sup>* ?s ?s3" by (rule converse_rtranclp_into_rtranclp)
  then show ?thesis unfolding e .
next
  case False
  have "shared_step redis J lossy (alone w) ((alone w)\<lparr>world := w'\<rparr>)"
    by (rule shared_step.own [OF assms(2)]) (simp_all add: alone_def in_call_def False assms(1))
  then show ?thesis by (simp add: alone_def r_into_rtranclp)
qed

lemma psi_step_alone:
  assumes "psi_step redis J lossy w w'"
  shows "(shared_step redis J lossy)\<^sup>*\<^sup>* (alone w) (alone w')"
proof -
  have one: "shared_step redis J lossy (alone w) ((alone w)\<lparr>world := w'\<rparr>) \<Longrightarrow> ?thesis" by (simp add: alone_def r_into_rtranclp)
  have free: "world (alone w) = w" "\<not> in_call (alone w) t" for t by (simp_all add: alone_def in_call_def)
  from assms show ?thesis
  proof (cases rule: psi_step.cases)
    case (main site p v)
    then show ?thesis by (auto simp: threads_def sites_def intro: thread_alone thread_step.main)
  next
    case (replicater site p v)
    then show ?thesis by (auto simp: threads_def sites_def intro: thread_alone thread_step.replicater)
  next
    case (request site a stack utime success uri body)
    show ?thesis unfolding request(1)
      by (rule one [unfolded request(1)], rule shared_step.request) (use request free in auto)
  next
    case (receive site m ms)
    show ?thesis unfolding receive(1)
      by (rule one [unfolded receive(1)], rule shared_step.receive) (use receive free in auto)
  next
    case (send site m ms)
    show ?thesis unfolding send(1)
      by (rule one [unfolded send(1)], rule shared_step.send) (use send free in auto)
  next
    case (lose site ms m ms')
    show ?thesis unfolding lose(1)
      by (rule one [unfolded lose(1)], rule shared_step.lose) (use lose free in auto)
  qed
qed

lemma psi_run_alone: "(psi_step redis J lossy)\<^sup>*\<^sup>* w w' \<Longrightarrow> (shared_step redis J lossy)\<^sup>*\<^sup>* (alone w) (alone w')"
  by (induction rule: rtranclp_induct) (auto intro: rtranclp_trans psi_step_alone)

subsection \<open>The discipline of the locks\<close>

definition diary_key :: "int \<Rightarrow> char list" where
  "diary_key n = ''diary_'' @ signed_decimal n"

definition guarded :: "int \<Rightarrow> char list \<Rightarrow> lock multiset \<Rightarrow> bool" where
  \<comment> \<open>who appends to a history at the site that its diary prefers holds the lock there\<close>
  "guarded srv key H \<longleftrightarrow> (\<forall>n. key = diary_key n \<longrightarrow> PREFER_SITE n = srv \<longrightarrow> (srv, lock_key key) \<in># H)"

definition may_send :: "int \<Rightarrow> char list list \<Rightarrow> lock multiset \<Rightarrow> bool" where
  "may_send srv args H \<longleftrightarrow>
     (\<exists>k. args = [''INCR'', k] \<or> args = [''GET'', k] \<or> args = [''LRANGE'', k, ''0'', ''-1'']) \<or>
     (\<exists>k. args = [''SET'', k, ''0''] \<and> is_lock k \<and> (srv, k) \<in># H) \<or>
     (\<exists>k v. args = [''RPUSH'', k, v] \<and> \<not> is_lock k \<and> guarded srv k H)"

definition message_ok :: "int \<Rightarrow> rep_msg \<Rightarrow> bool" where
  \<comment> \<open>a message for this site\<close>
  "message_ok site m \<longleftrightarrow> NUL \<in> set (m_key m) \<and> \<not> is_lock (message_key m) \<and>
     (m_commit_type m = FAST_CMT \<longrightarrow> guarded site (message_key m) {#})"

primrec disciplined :: "int \<Rightarrow> 'a prog \<Rightarrow> lock multiset \<Rightarrow> ('a \<Rightarrow> lock multiset \<Rightarrow> bool) \<Rightarrow> bool" where
  \<comment> \<open>started with these locks, the program keeps the rules and ends as \<open>Q\<close> says\<close>
  "disciplined site (Return x) H Q = Q x H"
| "disciplined site (Crash c) H Q = True"
| "disciplined site (Redis con args k) H Q =
     (may_send (server_of site con) args H \<and> (\<forall>r. disciplined site (k r) (after_command (server_of site con) args r H) Q))"
| "disciplined site (Increment i k) H Q = (\<forall>v. disciplined site (k v) H Q)"
| "disciplined site (Push m p) H Q =
     (message_ok (1 - site) m \<and> message_lock (1 - site) m \<subseteq># H \<and> disciplined site p (H - message_lock (1 - site) m) Q)"

lemma disciplined_bind [simp]:
  "disciplined site (bindP p f) H Q = disciplined site p H (\<lambda>x H. disciplined site (f x) H Q)"
  by (induction p arbitrary: H) auto

lemma disciplined_mono:
  "disciplined site p H Q \<Longrightarrow> (\<And>x H. Q x H \<Longrightarrow> R x H) \<Longrightarrow> disciplined site p H R"
  by (induction p arbitrary: H) auto

end
