(* ===== verification/PsiProps.thy ===== *)
theory PsiProps
  imports Psi
begin

section \<open>Locks and replication\<close>

subsection \<open>Keys\<close>

lemma is_lock_lock_key [simp]: "is_lock (lock_key k)"
  by (simp add: is_lock_def lock_key_def)

lemma not_lock_last: "k \<noteq> [] \<Longrightarrow> last k \<noteq> CHR ''k'' \<Longrightarrow> \<not> is_lock k"
  by (auto simp: is_lock_def dest: arg_cong [of _ _ last] split: if_splits)

lemma signed_decimal_last: "signed_decimal i \<noteq> []" "is_digit (last (signed_decimal i))"
  using decimal_digits [OF last_in_set] by (auto simp: signed_decimal_def)

lemma digit_not: "is_digit c \<Longrightarrow> c \<noteq> CHR ''k''" "is_digit c \<Longrightarrow> c \<noteq> CHR ''s''" "is_digit c \<Longrightarrow> c \<noteq> NUL" "is_digit c \<Longrightarrow> c \<noteq> CHR ''-''"
  by (auto simp: is_digit_def)

lemma signed_decimal_inj: "signed_decimal i = signed_decimal j \<longleftrightarrow> i = j"
proof
  assume e: "signed_decimal i = signed_decimal j"
  have d: "decimal n \<noteq> CHR ''-'' # xs" for n xs using decimal_digits [of "CHR ''-''" n] by (auto simp: is_digit_def)
  show "i = j"
  proof (cases "i < 0"; cases "j < 0")
    assume "i < 0" "j < 0"
    then show ?thesis using e by (simp add: signed_decimal_def decimal_inj)
  next
    assume "i < 0" "\<not> j < 0"
    then show ?thesis using e d [of "nat j"] by (simp add: signed_decimal_def) metis
  next
    assume "\<not> i < 0" "j < 0"
    then show ?thesis using e d [of "nat i"] by (simp add: signed_decimal_def)
  next
    assume "\<not> i < 0" "\<not> j < 0"
    then show ?thesis using e by (simp add: signed_decimal_def decimal_inj)
  qed
qed simp

lemma diary_key_inj [simp]: "diary_key i = diary_key j \<longleftrightarrow> i = j"
  by (simp add: diary_key_def signed_decimal_inj)

definition comments_key :: "int \<Rightarrow> char list" where
  "comments_key n = ''diary_'' @ signed_decimal n @ ''_comments''"

lemma comments_not_diary [simp]: "comments_key i \<noteq> diary_key j"
proof
  assume "comments_key i = diary_key j"
  then have "last (comments_key i) = last (diary_key j)" by simp
  then have "last (signed_decimal j) = CHR ''s''" by (simp add: comments_key_def diary_key_def signed_decimal_last(1))
  then show False using digit_not(2) [OF signed_decimal_last(2)] by metis
qed

lemma keys_no_lock [simp]: "\<not> is_lock (diary_key n)" "\<not> is_lock (comments_key n)"
  using digit_not(1) [OF signed_decimal_last(2) [of n]] not_lock_last [of "diary_key n"] not_lock_last [of "comments_key n"]
  by (simp_all add: diary_key_def comments_key_def signed_decimal_last(1))

definition int32 :: "int \<Rightarrow> bool" where
  "int32 i \<longleftrightarrow> - (2 ^ 31) \<le> i \<and> i < 2 ^ 31"

lemma signed_decimal_length: "int32 i \<Longrightarrow> length (signed_decimal i) \<le> 11"
proof -
  assume "int32 i"
  then have "nat (- i) < 10 ^ 10" "nat i < 10 ^ 10" by (auto simp: int32_def)
  then have "length (decimal (nat (- i))) \<le> 10" "length (decimal (nat i)) \<le> 10" by (simp_all only: length_decimal_le zero_less_numeral)
  then show ?thesis by (simp add: signed_decimal_def)
qed

lemma signed_decimal_no_nul: "NUL \<notin> set (signed_decimal i)"
proof -
  have "NUL \<notin> set (decimal n)" for n using decimal_digits [of NUL n] by (auto simp: is_digit_def)
  then show ?thesis by (simp add: signed_decimal_def)
qed

lemma keys_fit:
  assumes "int32 n"
  shows "length (diary_key n) < 32" "length (comments_key n) < 32" "NUL \<notin> set (diary_key n)" "NUL \<notin> set (comments_key n)"
  using signed_decimal_length [OF assms] signed_decimal_no_nul [of n] by (simp_all add: diary_key_def comments_key_def)

subsection \<open>The programs keep the discipline\<close>

declare disciplined.simps(3) [simp del]

lemma disciplined_commands [simp]:
  "disciplined site (Redis con [''LRANGE'', k, ''0'', ''-1''] f) H Q \<longleftrightarrow> (\<forall>r. disciplined site (f r) H Q)"
  "disciplined site (Redis con [''GET'', k] f) H Q \<longleftrightarrow> (\<forall>r. disciplined site (f r) H Q)"
  "disciplined site (Redis con [''INCR'', k] f) H Q \<longleftrightarrow>
     (\<forall>r. disciplined site (f r) (if is_lock k \<and> r = Some (RInt 1) then add_mset (server_of site con, k) H else H) Q)"
  "disciplined site (Redis con [''SET'', k, v] f) H Q \<longleftrightarrow> v = ''0'' \<and> is_lock k \<and> (server_of site con, k) \<in># H \<and>
     (\<forall>r. disciplined site (f r) (H - {#(server_of site con, k)#}) Q)"
  "disciplined site (Redis con [''RPUSH'', k, v] f) H Q \<longleftrightarrow> \<not> is_lock k \<and> guarded (server_of site con) k H \<and> (\<forall>r. disciplined site (f r) H Q)"
  by (auto simp: disciplined.simps(3) may_send_def after_command_def)

lemma disciplined_acquire:
  "is_lock k \<Longrightarrow> Q True (add_mset (site, k) H) \<Longrightarrow> Q False H \<Longrightarrow> disciplined site (acquire_lock k) H Q"
  by (auto simp: acquire_lock_def deref_def server_of_def split: option.split)

lemma disciplined_release:
  "is_lock k \<Longrightarrow> (site, k) \<in># H \<Longrightarrow> Q () (H - {#(site, k)#}) \<Longrightarrow> disciplined site (release_lock k) H Q"
  by (simp add: release_lock_def server_of_def)

lemma disciplined_from_option: "(\<And>y. x = Some y \<Longrightarrow> Q y H) \<Longrightarrow> disciplined site (from_option c x) H Q"
  by (auto simp: from_option_def split: option.split)

lemma disciplined_deref: "(\<And>y. disciplined site (f y) H Q) \<Longrightarrow> disciplined site (deref r f) H Q"
  by (auto simp: deref_def split: option.split)

lemma disciplined_when_free: "(\<And>b. disciplined site (f b) H Q) \<Longrightarrow> disciplined site (when_free c f) H Q"
  by (auto simp: when_free_def split: sum.split)

lemma strncpy0_key:
  assumes "strncpy0 MAX_KEY_LEN k (length k) = Some a" and "length k < 32" and "NUL \<notin> set k"
  shows "NUL \<in> set a" "cstring (a @ v) = k"
proof -
  have "a = k @ replicate (32 - length k) NUL" using assms by (simp add: strncpy0_def MAX_KEY_LEN_def cstring_id)
  moreover obtain n where "32 - length k = Suc n" using assms(2) by (metis Suc_diff_Suc)
  ultimately have "a = k @ NUL # replicate n NUL" by simp
  moreover have "\<And>c. c \<in> set k \<Longrightarrow> c \<noteq> NUL" using assms(3) by metis
  ultimately show "NUL \<in> set a" "cstring (a @ v) = k" by (simp_all add: cstring_def takeWhile_append2)
qed

lemma disciplined_record_commit:
  assumes k: "length key < 32" "NUL \<notin> set key" "\<not> is_lock key" and g: "guarded site key H"
    and f: "cmt = FAST_CMT \<Longrightarrow> guarded (1 - site) key {#} \<and> Q () H"
    and s: "cmt = SLOW_CMT \<Longrightarrow> (1 - site, lock_key key) \<in># H \<and> Q () (H - {#(1 - site, lock_key key)#})"
  shows "disciplined site (record_commit J site cmt key x) H Q"
proof -
  have msg: "message_ok (1 - site) m \<and> message_lock (1 - site) m \<subseteq># H \<and> Q () (H - message_lock (1 - site) m)"
    if m: "m_commit_type m = cmt" and a: "strncpy0 MAX_KEY_LEN key (length key) = Some (m_key m)" for m
    using strncpy0_key(1) [OF a k(1,2)] strncpy0_key(2) [OF a k(1,2), of "m_value m"] m k(3) f s
    by (cases cmt) (auto simp: message_ok_def message_lock_def message_key_def)
  show ?thesis
    using k(3) g msg
    by (auto simp: record_commit_def rep_msg_t_def server_of_def from_option_def split: option.split)
qed

lemma disciplined_fast_commit:
  assumes "int32 (case x of DIARY d \<Rightarrow> ob_id d | COMMENT c \<Rightarrow> c_diary_id c)" and "\<And>d. x = DIARY d \<Longrightarrow> PREFER_SITE (ob_id d) = site"
    and s: "site \<in> sites"
  shows "disciplined site (fast_commit J site v x) {#} (\<lambda>_ H. H = {#})"
proof -
  let ?k = "history_key x" and ?l = "{#(site, lock_key (history_key x))#}"
  have k: "?k = (case x of DIARY d \<Rightarrow> diary_key (ob_id d) | COMMENT c \<Rightarrow> comments_key (c_diary_id c))"
    by (cases x) (simp_all add: history_key_def diary_key_def comments_key_def)
  have fit: "length ?k < 32" "NUL \<notin> set ?k" "\<not> is_lock ?k" using assms(1) keys_fit by (auto simp: k split: obj.splits)
  have g: "guarded site ?k ?l" by (simp add: guarded_def)
  have g': "guarded (1 - site) ?k {#}" using assms(2) s by (auto simp: guarded_def k sites_def split: obj.splits)
  have fin: "disciplined site (bindP (release_lock (lock_key ?k)) (\<lambda>_. Return b)) ?l (\<lambda>_ H. H = {#})" for b
    by (simp add: disciplined_release)
  have com: "disciplined site (bindP (record_commit J site FAST_CMT ?k x) (\<lambda>_. bindP (release_lock (lock_key ?k)) (\<lambda>_. Return True))) ?l (\<lambda>_ H. H = {#})"
    using g' by (simp only: disciplined_bind) (rule disciplined_record_commit [OF fit g], simp_all add: disciplined_release)
  show ?thesis
    unfolding fast_commit_def Let_def disciplined_bind
  proof (rule disciplined_acquire)
    show "disciplined site (if \<not> True then Return False else case x of
        DIARY d \<Rightarrow> Redis Cli [''LRANGE'', ?k, ''0'', ''-1''] (\<lambda>r. deref r (\<lambda>r. if r = RNil
          then bindP (record_commit J site FAST_CMT ?k x) (\<lambda>_. bindP (release_lock (lock_key ?k)) (\<lambda>_. Return True))
          else when_free (conflict (object_ver J) v (reply_elements r)) (\<lambda>b.
            if b then bindP (release_lock (lock_key ?k)) (\<lambda>_. Return False)
            else bindP (record_commit J site FAST_CMT ?k x) (\<lambda>_. bindP (release_lock (lock_key ?k)) (\<lambda>_. Return True)))))
      | COMMENT _ \<Rightarrow> bindP (record_commit J site FAST_CMT ?k x) (\<lambda>_. bindP (release_lock (lock_key ?k)) (\<lambda>_. Return True)))
      (add_mset (site, lock_key ?k) {#}) (\<lambda>_ H. H = {#})"
      using fin com by (cases x) (auto intro!: disciplined_deref disciplined_when_free simp del: disciplined_bind)
  qed simp_all
qed

lemma disciplined_fast_diary:
  "int32 (ob_id d) \<Longrightarrow> PREFER_SITE (ob_id d) = site \<Longrightarrow> site \<in> sites \<Longrightarrow> disciplined site (fast_commit J site v (DIARY d)) {#} (\<lambda>_ H. H = {#})"
  by (rule disciplined_fast_commit) auto

lemma disciplined_fast_comment:
  "int32 (c_diary_id c) \<Longrightarrow> site \<in> sites \<Longrightarrow> disciplined site (fast_commit J site v (COMMENT c)) {#} (\<lambda>_ H. H = {#})"
  by (rule disciplined_fast_commit) auto

lemma disciplined_slow_commit:
  assumes "int32 (ob_id d)" and p: "PREFER_SITE (ob_id d) \<noteq> site"
  shows "disciplined site (slow_commit J site v (DIARY d)) {#} (\<lambda>_ H. H = {#})"
proof -
  let ?k = "diary_key (ob_id d)" and ?l = "{#(1 - site, lock_key (diary_key (ob_id d)))#}"
  note fit = keys_fit(1,3) [OF assms(1)] keys_no_lock(1) [of "ob_id d"]
  have g: "guarded site ?k ?l" using p by (auto simp: guarded_def)
  have com: "disciplined site (bindP (record_commit J site SLOW_CMT ?k (DIARY d)) (\<lambda>_. Return True)) ?l (\<lambda>_ H. H = {#})"
    by (simp only: disciplined_bind) (rule disciplined_record_commit [OF fit g], simp_all)
  have fin: "disciplined site (Redis Master [''SET'', lock_key ?k, ''0''] (\<lambda>_. Return False)) ?l (\<lambda>_ H. H = {#})"
    by (simp add: server_of_def)
  have chk: "disciplined site (Redis Master [''LRANGE'', ?k, ''0'', ''-1''] (\<lambda>r. deref r (\<lambda>r.
      if r = RNil then Crash NoReturnValue
      else when_free (conflict (diary_ver J) v (reply_elements r)) (\<lambda>b.
        if b then Redis Master [''SET'', lock_key ?k, ''0''] (\<lambda>_. Return False)
        else bindP (record_commit J site SLOW_CMT ?k (DIARY d)) (\<lambda>_. Return True))))) ?l (\<lambda>_ H. H = {#})"
    using fin com by (auto intro!: disciplined_deref disciplined_when_free simp del: disciplined_bind)
  show ?thesis
    unfolding slow_commit_def Let_def obj.case diary_key_def [symmetric]
    using chk by (auto simp: server_of_def deref_def simp del: disciplined_bind split: option.split)
qed

lemma disciplined_replicate:
  assumes "message_ok site m"
  shows "disciplined site (replicate_message site m) (message_lock site m) (\<lambda>_ H. H = {#})"
proof -
  have g: "guarded site (message_key m) (message_lock site m)"
    using assms by (cases "m_commit_type m") (auto simp: message_ok_def message_lock_def guarded_def)
  show ?thesis
    using g assms
    by (auto simp: replicate_message_def c_string_at_def message_key_def [symmetric] server_of_def release_lock_def message_ok_def message_lock_def)
qed

lemma disciplined_form_var: "(\<And>dst. Q dst H) \<Longrightarrow> disciplined site (form_var stack body b n name) H Q"
  by (auto simp: form_var_def split: sum.split)

lemma disciplined_string: "(\<And>s. Q s H) \<Longrightarrow> disciplined site (c_string_at b) H Q"
  by (auto simp: c_string_at_def)

lemma disciplined_atoi: "(\<And>i. int32 i \<Longrightarrow> Q i H) \<Longrightarrow> disciplined site (c_atoi b) H Q"
  using to_int32_range by (auto simp: c_atoi_def int32_def split: sum.split)

lemmas disciplined_intros = disciplined_form_var disciplined_string disciplined_atoi disciplined_from_option disciplined_deref

lemma like_key_no_lock: "\<not> is_lock (''diary_'' @ s @ ''_like'')"
  by (rule not_lock_last) simp_all

lemma disciplined_handler:
  assumes "site \<in> sites"
  shows "disciplined site (ev_handler J site stack utime success uri body) {#} (\<lambda>_ H. H = {#})"
proof -
  have content: "disciplined site (handle_get_diary_content J stack body) {#} (\<lambda>_ H. H = {#})"
    by (auto intro!: disciplined_intros simp: handle_get_diary_content_def Let_def split: sum.split)
  have edit: "disciplined site (handle_edit_diary J site stack utime body) {#} (\<lambda>_ H. H = {#})"
    using disciplined_fast_diary disciplined_slow_commit assms
    by (auto intro!: disciplined_intros simp: handle_edit_diary_def Let_def)
  have comment: "disciplined site (handle_add_comment J site stack body) {#} (\<lambda>_ H. H = {#})"
    using disciplined_fast_comment assms by (auto intro!: disciplined_intros simp: handle_add_comment_def Let_def)
  have comments: "disciplined site (handle_get_comments stack body) {#} (\<lambda>_ H. H = {#})"
    by (auto intro!: disciplined_intros simp: handle_get_comments_def)
  have get_like: "disciplined site (handle_get_like J site stack body) {#} (\<lambda>_ H. H = {#})"
    by (auto intro!: disciplined_intros simp: handle_get_like_def split: option.split)
  have like: "disciplined site (handle_like J site stack success body) {#} (\<lambda>_ H. H = {#})"
    using like_key_no_lock by (auto intro!: disciplined_intros simp: handle_like_def)
  show ?thesis using content edit comment comments get_like like by (simp add: ev_handler_def Let_def)
qed

subsection \<open>The invariant\<close>

definition message_locks :: "int \<Rightarrow> rep_msg list \<Rightarrow> lock multiset" where
  "message_locks site ms = sum_list (map (message_lock site) ms)"

definition owners :: "'s psi_state \<Rightarrow> lock multiset" where
  \<comment> \<open>every lock that a thread holds or a message on its way will give back\<close>
  "owners w = held w (Main 0) + held w (Main 1) + held w (Replicater 0) + held w (Replicater 1) +
     message_locks 1 (msg_list w 0) + message_locks 0 (msg_list w 1) + message_locks 0 (network w 0) + message_locks 1 (network w 1)"

definition locked :: "('s \<Rightarrow> redis_store) \<Rightarrow> 's psi_state \<Rightarrow> lock \<Rightarrow> bool" where
  "locked view w l \<longleftrightarrow> (\<exists>v \<ge> 1. counter (view (servers w (fst l))) (snd l) v)"

definition locks_ok :: "('s \<Rightarrow> redis_store) \<Rightarrow> 's psi_state \<Rightarrow> bool" where
  "locks_ok view w \<longleftrightarrow> (\<forall>l. count (owners w) l \<le> 1) \<and> (\<forall>l\<in>#owners w. is_lock (snd l) \<and> locked view w l)"

definition threads_ok :: "'s psi_state \<Rightarrow> bool" where
  "threads_ok w \<longleftrightarrow> (\<forall>site\<in>sites.
     disciplined site (main_thread w site) (held w (Main site)) (\<lambda>_ H. H = {#}) \<and>
     disciplined site (replicater_thread w site) (held w (Replicater site)) (\<lambda>_ H. H = {#}) \<and>
     (\<forall>m\<in>set (msg_list w site). message_ok (1 - site) m) \<and> (\<forall>m\<in>set (network w site). message_ok site m))"

lemma counter_unique: "counter st k v \<Longrightarrow> counter st k v' \<Longrightarrow> v = v'"
  by (auto simp: counter_def signed_decimal_inj)

lemma counter_step:
  assumes e: "redis_effect args st r st'" and a: "args = [''INCR'', k]"
  shows "counter st k' v \<Longrightarrow> 1 \<le> v \<Longrightarrow> (\<exists>v' \<ge> 1. counter st' k' v') \<and> (k = k' \<longrightarrow> r \<noteq> RInt 1)" and "r = RInt 1 \<Longrightarrow> counter st' k 1"
proof -
  have none: "st' = st \<and> is_error r" if "\<forall>u. \<not> counter st k u" using e that a by (simp add: redis_effect_def)
  have some: "if u + 1 < 2 ^ 63 then r = RInt (u + 1) \<and> st' = st(k \<mapsto> Str (signed_decimal (u + 1))) else is_error r \<and> st' = st"
    if "counter st k u" for u using e that a by (simp add: redis_effect_def)
  have err: "is_error r \<Longrightarrow> r \<noteq> RInt 1" by (auto simp: is_error_def)
  have new: "counter st' k (u + 1)" if "counter st k u" "u + 1 < 2 ^ 63" for u
    using that some [OF that(1)] by (auto simp: counter_def)
  show "r = RInt 1 \<Longrightarrow> counter st' k 1"
  proof (cases "\<exists>u. counter st k u")
    case True
    then obtain u where u: "counter st k u" by blast
    assume "r = RInt 1"
    with some [OF u] err have "u = 0" by (auto split: if_splits)
    with new [OF u] show ?thesis by simp
  qed (use none err in auto)
  assume c: "counter st k' v" "1 \<le> v"
  show "(\<exists>v' \<ge> 1. counter st' k' v') \<and> (k = k' \<longrightarrow> r \<noteq> RInt 1)"
  proof (cases "k = k'")
    case True
    then have kv: "counter st k v" using c(1) by simp
    show ?thesis
    proof (cases "v + 1 < 2 ^ 63")
      case less: True
      have "r = RInt (v + 1)" using some [OF kv] less by simp
      then show ?thesis using new [OF kv less] c(2) True by (intro conjI exI [of _ "v + 1"]) auto
    next
      case False
      then have "is_error r" "st' = st" using some [OF kv] by simp_all
      then show ?thesis using err c by (intro conjI exI [of _ v]) auto
    qed
  next
    case False
    have "st' k' = st k'"
    proof (cases "\<exists>u. counter st k u")
      case True
      then obtain u where u: "counter st k u" by blast
      show ?thesis using some [OF u] False by (cases "u + 1 < 2 ^ 63") simp_all
    qed (use none in auto)
    then have "counter st' k' v" using c(1) by (simp add: counter_def)
    then show ?thesis using c False by blast
  qed
qed

lemma redis_okD:
  assumes "redis_ok redis view" and "redis args s = (r, s')"
  obtains a st where "redis_effect args (view s) a st" "r = Some a \<and> view s' = st \<or> r = None \<and> (view s' = view s \<or> view s' = st)"
  using assms unfolding redis_ok_def by blast

lemma command_keeps_counter:
  assumes ok: "redis_ok redis view" and c: "redis args s = (r, s')" and m: "may_send srv args H" and k: "is_lock k'"
    and v: "counter (view s) k' v" "1 \<le> v"
  shows "(\<exists>v' \<ge> 1. counter (view s') k' v') \<or> args = [''SET'', k', ''0'']" and "args = [''INCR'', k'] \<Longrightarrow> r \<noteq> Some (RInt 1)"
proof -
  from redis_okD [OF ok c] obtain a st where e: "redis_effect args (view s) a st"
    "r = Some a \<and> view s' = st \<or> r = None \<and> (view s' = view s \<or> view s' = st)" by blast
  show "args = [''INCR'', k'] \<Longrightarrow> r \<noteq> Some (RInt 1)" using counter_step(1) [OF e(1) _ v] e(2) by auto
  have "(\<exists>v' \<ge> 1. counter st k' v') \<or> args = [''SET'', k', ''0'']"
  proof (cases "\<exists>k. args = [''INCR'', k]")
    case True
    then show ?thesis using counter_step(1) [OF e(1) _ v] by blast
  next
    case False
    with m consider k where "args = [''GET'', k] \<or> args = [''LRANGE'', k, ''0'', ''-1'']" | k where "args = [''SET'', k, ''0'']"
      | k u where "args = [''RPUSH'', k, u]" "\<not> is_lock k" by (auto simp: may_send_def)
    then show ?thesis
    proof cases
      case 1
      then have "st = view s" using e(1) by (auto simp: redis_effect_def)
      then show ?thesis using v by blast
    next
      case 2
      then have "st = (view s)(k \<mapsto> Str ''0'')" using e(1) by (simp add: redis_effect_def)
      then show ?thesis using v 2 by (cases "k = k'") (auto simp: counter_def)
    next
      case 3
      then have "k \<noteq> k'" using k by auto
      then have "st k' = view s k'" using e(1) 3 by (auto simp: redis_effect_def split: option.splits)
      then show ?thesis using v by (auto simp: counter_def)
    qed
  qed
  then show "(\<exists>v' \<ge> 1. counter (view s') k' v') \<or> args = [''SET'', k', ''0'']" using e(2) v by auto
qed

lemma incr_gets_lock:
  assumes "redis_ok redis view" and "redis [''INCR'', k] s = (Some (RInt 1), s')"
  shows "counter (view s') k 1"
proof -
  from redis_okD [OF assms] obtain a st where e: "redis_effect [''INCR'', k] (view s) a st"
    "Some (RInt 1) = Some a \<and> view s' = st \<or> Some (RInt 1) = None \<and> (view s' = view s \<or> view s' = st)" by blast
  then show ?thesis using counter_step(2) [OF e(1) refl] by auto
qed

definition others :: "thread \<Rightarrow> 's psi_state \<Rightarrow> lock multiset" where
  "others t w = (if t = Main 0 then {#} else held w (Main 0)) + (if t = Main 1 then {#} else held w (Main 1)) +
     (if t = Replicater 0 then {#} else held w (Replicater 0)) + (if t = Replicater 1 then {#} else held w (Replicater 1)) +
     message_locks 1 (msg_list w 0) + message_locks 0 (msg_list w 1) + message_locks 0 (network w 0) + message_locks 1 (network w 1)"

lemma owners_others: "t \<in> threads \<Longrightarrow> owners w = held w t + others t w"
  by (auto simp: threads_def owners_def others_def ac_simps)

lemma others_cong:
  "(\<And>t'. t' \<noteq> t \<Longrightarrow> held w' t' = held w t') \<Longrightarrow> msg_list w' = msg_list w \<Longrightarrow> network w' = network w \<Longrightarrow> others t w' = others t w"
  by (simp add: others_def)

lemma locks_after_command:
  assumes ok: "redis_ok redis view" and l: "locks_ok view w" and t: "t \<in> threads" and m: "may_send srv args (held w t)"
    and r: "redis args (servers w srv) = (r, s)"
    and w': "w' = w\<lparr>servers := (servers w)(srv := s), held := (held w)(t := after_command srv args r (held w t))\<rparr>"
  shows "locks_ok view w'"
proof -
  have "others t w' = others t w" by (rule others_cong) (simp_all add: w')
  then have R: "owners w = held w t + others t w" "owners w' = after_command srv args r (held w t) + others t w"
    using owners_others [OF t, of w] owners_others [OF t, of w'] by (simp_all add: w')
  have one: "count (owners w) x \<le> 1" for x using l by (cases x) (simp add: locks_ok_def)
  have old: "is_lock (snd x) \<and> (\<exists>v \<ge> 1. counter (view (servers w (fst x))) (snd x) v)" if "x \<in># owners w" for x
    using l that by (auto simp: locks_ok_def locked_def)
  have kept: "locked view w' x" if x: "x \<in># owners w" "\<not> (fst x = srv \<and> args = [''SET'', snd x, ''0''])" for x
  proof (cases "fst x = srv")
    case True
    then obtain v where v: "counter (view (servers w srv)) (snd x) v" "1 \<le> v" using old [OF x(1)] by blast
    have "\<not> args = [''SET'', snd x, ''0'']" using x(2) True by blast
    with command_keeps_counter(1) [OF ok r m _ v] old [OF x(1)] True show ?thesis by (auto simp: locked_def w')
  next
    case False
    then show ?thesis using old [OF x(1)] by (auto simp: locked_def w')
  qed
  show ?thesis
  proof (cases "\<exists>k. args = [''INCR'', k] \<and> is_lock k \<and> r = Some (RInt 1)")
    case True
    then obtain k where k: "args = [''INCR'', k]" "is_lock k" "r = Some (RInt 1)" by blast
    have o: "owners w' = add_mset (srv, k) (owners w)" unfolding R by (simp add: after_command_def k)
    have n: "(srv, k) \<notin># owners w"
    proof
      assume "(srv, k) \<in># owners w"
      from old [OF this] obtain v where v: "counter (view (servers w srv)) k v" "1 \<le> v" by auto
      from command_keeps_counter(2) [OF ok r m k(2) v k(1)] k(3) show False by simp
    qed
    have c: "count (owners w') x \<le> 1" for x using one [of x] n by (cases "x = (srv, k)") (auto simp: o not_in_iff)
    have new: "locked view w' (srv, k)"
      using incr_gets_lock [OF ok r [unfolded k(1,3)]] by (auto simp: locked_def w' intro: exI [of _ 1])
    have "is_lock (snd x) \<and> locked view w' x" if "x \<in># owners w'" for x
    proof (cases "x = (srv, k)")
      case False
      then have "x \<in># owners w" using that by (simp add: o)
      then show ?thesis using old kept k(1) by auto
    qed (use new k(2) in simp)
    then show ?thesis using c by (simp add: locks_ok_def)
  next
    case incr: False
    show ?thesis
    proof (cases "\<exists>k. args = [''SET'', k, ''0'']")
      case True
      then obtain k where k: "args = [''SET'', k, ''0'']" by blast
      then have h: "(srv, k) \<in># held w t" using m by (auto simp: may_send_def)
      then have o: "owners w = add_mset (srv, k) (owners w')" unfolding R by (simp add: after_command_def k)
      have c: "count (owners w') x \<le> 1" for x using one [of x] by (simp add: o split: if_splits)
      have n: "(srv, k) \<notin># owners w'" using one [of "(srv, k)"] by (simp add: o not_in_iff)
      have "is_lock (snd x) \<and> locked view w' x" if x: "x \<in># owners w'" for x
      proof -
        have "x \<in># owners w" using x by (simp add: o)
        moreover have "\<not> (fst x = srv \<and> args = [''SET'', snd x, ''0''])" using x n by (auto simp: k)
        ultimately show ?thesis using old kept by blast
      qed
      then show ?thesis using c by (simp add: locks_ok_def)
    next
      case False
      have "after_command srv args r (held w t) = held w t"
        using m incr False by (auto simp: may_send_def after_command_def)
      then have "owners w' = owners w" by (simp add: R)
      moreover have "\<not> (fst x = srv \<and> args = [''SET'', snd x, ''0''])" for x using False by blast
      ultimately show ?thesis using one old kept by (simp add: locks_ok_def)
    qed
  qed
qed

lemma owners_thread [simp]:
  "owners (w\<lparr>main_thread := x\<rparr>) = owners w" "owners (w\<lparr>replicater_thread := y\<rparr>) = owners w"
  by (simp_all add: owners_def)

lemma locks_ok_thread [simp]:
  "locks_ok view (w\<lparr>main_thread := x\<rparr>) = locks_ok view w" "locks_ok view (w\<lparr>replicater_thread := y\<rparr>) = locks_ok view w"
  by (simp_all add: locks_ok_def locked_def)

lemma sites_other [simp]: "site \<in> sites \<Longrightarrow> 1 - site \<in> sites"
  by (auto simp: sites_def)

definition psi_inv :: "('s \<Rightarrow> redis_store) \<Rightarrow> 's psi_state \<Rightarrow> bool" where
  "psi_inv view w \<longleftrightarrow> locks_ok view w \<and> threads_ok w"

lemma act_ok:
  assumes ok: "redis_ok redis view" and l: "locks_ok view w" and t: "t \<in> threads" "site_of t = site"
    and d: "disciplined site p (held w t) Q" and a: "act redis t site p w = Some (p', w')"
  shows "locks_ok view w' \<and> disciplined site p' (held w' t) Q \<and> (\<forall>t'. t' \<noteq> t \<longrightarrow> held w' t' = held w t') \<and>
    main_thread w' = main_thread w \<and> replicater_thread w' = replicater_thread w \<and> network w' = network w \<and>
    (\<forall>i. \<forall>m\<in>set (msg_list w' i). m \<in> set (msg_list w i) \<or> i = site \<and> message_ok (1 - site) m)"
proof (cases p)
  case (Redis con args k)
  let ?srv = "server_of site con"
  obtain r s where r: "redis args (servers w ?srv) = (r, s)" by (cases "redis args (servers w ?srv)")
  then have w': "p' = k r" "w' = w\<lparr>servers := (servers w)(?srv := s), held := (held w)(t := after_command ?srv args r (held w t))\<rparr>"
    using a by (auto simp: Redis Let_def)
  have m: "may_send ?srv args (held w t)" "disciplined site (k r) (after_command ?srv args r (held w t)) Q"
    using d by (auto simp: Redis disciplined.simps(3))
  from locks_after_command [OF ok l t(1) m(1) r w'(2)] m(2) show ?thesis by (auto simp: w')
next
  case (Increment i k)
  have "owners w' = owners w \<and> servers w' = servers w \<and> held w' = held w \<and> main_thread w' = main_thread w \<and>
      replicater_thread w' = replicater_thread w \<and> network w' = network w \<and> msg_list w' = msg_list w"
    using a by (auto simp: Increment Let_def owners_def split: if_splits)
  moreover have "disciplined site p' (held w t) Q" using a d by (auto simp: Increment Let_def split: if_splits)
  ultimately show ?thesis using l by (simp add: locks_ok_def locked_def)
next
  case (Push m p1)
  let ?L = "message_lock (1 - site) m"
  have w': "p' = p1" "w' = w\<lparr>msg_list := (msg_list w)(site := msg_list w site @ [m]), held := (held w)(t := held w t - ?L)\<rparr>"
    using a by (auto simp: Push)
  have m: "message_ok (1 - site) m" "?L \<subseteq># held w t" "disciplined site p1 (held w t - ?L) Q" using d by (auto simp: Push)
  have s: "site = 0 \<or> site = 1" using t by (auto simp: threads_def)
  have "others t w' = others t w + ?L" using s by (auto simp: others_def w' message_locks_def ac_simps)
  then have "owners w' = owners w" using owners_others [OF t(1), of w] owners_others [OF t(1), of w'] m(2)
    by (auto simp: w' ac_simps)
  then have "locks_ok view w'" using l by (simp add: locks_ok_def locked_def w')
  then show ?thesis using m by (auto simp: w')
qed (use a in auto)

lemma psi_inv_step:
  assumes ok: "redis_ok redis view" and "psi_step redis J lossy w w'" and "psi_inv view w"
  shows "psi_inv view w'"
  using assms(2,3)
proof cases
  case (main site p w1)
  note s = main(2) and i = assms(3) [unfolded psi_inv_def threads_ok_def]
  have t: "Main site \<in> threads" using s by (auto simp: sites_def threads_def)
  from act_ok [OF ok _ t _ _ main(3), where Q = "\<lambda>_ H. H = {#}"] s i have "locks_ok view w1 \<and> disciplined site p (held w1 (Main site)) (\<lambda>_ H. H = {#}) \<and>
    (\<forall>t'. t' \<noteq> Main site \<longrightarrow> held w1 t' = held w t') \<and> main_thread w1 = main_thread w \<and> replicater_thread w1 = replicater_thread w \<and>
    network w1 = network w \<and> (\<forall>i. \<forall>m\<in>set (msg_list w1 i). m \<in> set (msg_list w i) \<or> i = site \<and> message_ok (1 - site) m)" by simp
  with i show ?thesis unfolding main(1) psi_inv_def threads_ok_def by fastforce
next
  case (replicater site p w1)
  note s = replicater(2) and i = assms(3) [unfolded psi_inv_def threads_ok_def]
  have t: "Replicater site \<in> threads" using s by (auto simp: sites_def threads_def)
  from act_ok [OF ok _ t _ _ replicater(3), where Q = "\<lambda>_ H. H = {#}"] s i have "locks_ok view w1 \<and> disciplined site p (held w1 (Replicater site)) (\<lambda>_ H. H = {#}) \<and>
    (\<forall>t'. t' \<noteq> Replicater site \<longrightarrow> held w1 t' = held w t') \<and> main_thread w1 = main_thread w \<and> replicater_thread w1 = replicater_thread w \<and>
    network w1 = network w \<and> (\<forall>i. \<forall>m\<in>set (msg_list w1 i). m \<in> set (msg_list w i) \<or> i = site \<and> message_ok (1 - site) m)" by simp
  with i show ?thesis unfolding replicater(1) psi_inv_def threads_ok_def by fastforce
next
  case (request site a stack utime success uri body)
  then have "held w (Main site) = {#}" using assms(3) by (auto simp: psi_inv_def threads_ok_def)
  with assms(3) disciplined_handler [OF request(2)] show ?thesis unfolding request(1)
    by (auto simp: psi_inv_def threads_ok_def)
next
  case (receive site m ms)
  note i = assms(3) [unfolded psi_inv_def threads_ok_def]
  have h: "held w (Replicater site) = {#}" "message_ok site m" using i receive by auto
  have "owners w' = owners w" using receive(2,4) h(1) by (auto simp: receive(1) sites_def owners_def message_locks_def ac_simps)
  then have "locks_ok view w'" using i by (simp add: locks_ok_def locked_def receive(1))
  with i h disciplined_replicate [OF h(2)] receive show ?thesis by (auto simp: psi_inv_def threads_ok_def)
next
  case (send site m ms)
  note i = assms(3) [unfolded psi_inv_def threads_ok_def]
  have "owners w' = owners w" using send(2,4) by (auto simp: send(1) sites_def owners_def message_locks_def ac_simps)
  then have "locks_ok view w'" using i by (simp add: locks_ok_def locked_def send(1))
  moreover have "site = 0 \<or> site = 1" using send(2) by (simp add: sites_def)
  ultimately show ?thesis using i send by (auto simp: psi_inv_def threads_ok_def sites_def)
next
  case (lose site ms m ms')
  note i = assms(3) [unfolded psi_inv_def threads_ok_def]
  have o: "owners w = owners w' + message_lock site m"
    using lose(3,4) by (auto simp: lose(1) sites_def owners_def message_locks_def ac_simps)
  have "count (owners w') x \<le> 1" for x
  proof -
    have "count (owners w) x \<le> 1" using i by (cases x) (simp add: locks_ok_def)
    then show ?thesis unfolding o by simp
  qed
  moreover have "x \<in># owners w' \<Longrightarrow> is_lock (snd x) \<and> locked view w x" for x using i by (simp add: locks_ok_def o)
  ultimately have "locks_ok view w'" by (simp add: locks_ok_def locked_def lose(1))
  then show ?thesis using i lose by (auto simp: psi_inv_def threads_ok_def)
qed

lemma psi_inv_start: "psi_start w \<Longrightarrow> psi_inv view w"
  by (simp add: psi_start_def psi_inv_def locks_ok_def threads_ok_def owners_def message_locks_def)

lemma psi_inv_reachable:
  assumes "redis_ok redis view" and "psi_reachable redis J lossy w"
  shows "psi_inv view w"
proof -
  from assms(2) obtain w0 where "psi_start w0" "(psi_step redis J lossy)\<^sup>*\<^sup>* w0 w" by (auto simp: psi_reachable_def)
  from this(2) psi_inv_start [OF this(1)] show ?thesis
    by induction (auto intro: psi_inv_step [OF assms(1)])
qed

subsection \<open>A Redis server in memory\<close>

definition number_of :: "redis_value option \<Rightarrow> int option" where
  "number_of x =
     (case x of
        None \<Rightarrow> Some 0
      | Some (Lst _) \<Rightarrow> None
      | Some (Str s) \<Rightarrow>
          let v = (if s \<noteq> [] \<and> hd s = CHR ''-'' then - int (dec_val (tl s)) else int (dec_val s))
          in if signed_decimal v = s \<and> - (2 ^ 63) \<le> v \<and> v < 2 ^ 63 then Some v else None)"

definition mem_redis :: "redis_store redis" where
  "mem_redis args st =
     (let err = (Some (RError ''ERR''), st)
      in case args of
        [c, k] \<Rightarrow>
          if c = ''INCR''
          then (case number_of (st k) of
                  Some v \<Rightarrow> if v + 1 < 2 ^ 63 then (Some (RInt (v + 1)), st(k \<mapsto> Str (signed_decimal (v + 1)))) else err
                | None \<Rightarrow> err)
          else (case st k of None \<Rightarrow> (Some RNil, st) | Some (Str s) \<Rightarrow> (Some (RString s), st) | Some (Lst _) \<Rightarrow> err)
      | [c, k, v] \<Rightarrow>
          if c = ''SET'' then (Some (RStatus ''OK''), st(k \<mapsto> Str v))
          else (case list_at st k of
                  Some xs \<Rightarrow> (Some (RInt (int (length xs) + 1)), st(k \<mapsto> Lst (xs @ [v])))
                | None \<Rightarrow> err)
      | [c, k, a, b] \<Rightarrow> (case list_at st k of Some xs \<Rightarrow> (Some (RArray (map RString xs)), st) | None \<Rightarrow> err)
      | _ \<Rightarrow> err)"

lemma number_of_counter: "number_of (st k) = Some v \<longleftrightarrow> counter st k v"
proof -
  have d: "(if signed_decimal v \<noteq> [] \<and> hd (signed_decimal v) = CHR ''-'' then - int (dec_val (tl (signed_decimal v)))
      else int (dec_val (signed_decimal v))) = v" for v
  proof (cases "v < 0")
    case False
    have "hd (decimal (nat v)) \<noteq> CHR ''-''" using digit_not(4) decimal_digits [OF hd_in_set [OF decimal_nonempty]] by metis
    then show ?thesis using False by (simp add: signed_decimal_def)
  qed (simp add: signed_decimal_def)
  show ?thesis
  proof (cases "st k")
    case (Some x)
    show ?thesis
    proof (cases x)
      case (Str s)
      show ?thesis using d [of v] Some by (auto simp: number_of_def counter_def Str Let_def)
    qed (simp add: number_of_def counter_def Some)
  qed (auto simp: number_of_def counter_def)
qed

lemma mem_redis_replies: "\<exists>a. fst (mem_redis args st) = Some a"
proof -
  consider "args = [] \<or> (\<exists>c. args = [c])" | c k where "args = [c, k]" | c k v where "args = [c, k, v]" | c k a b where "args = [c, k, a, b]"
    | c k a b d r where "args = c # k # a # b # d # r"
    by (metis list.exhaust)
  then show ?thesis
    by cases (auto simp: mem_redis_def Let_def split: option.split redis_value.split)
qed

lemma mem_redis_simps [simp]:
  "mem_redis [''INCR'', k] st = (case number_of (st k) of
     Some v \<Rightarrow> if v + 1 < 2 ^ 63 then (Some (RInt (v + 1)), st(k \<mapsto> Str (signed_decimal (v + 1)))) else (Some (RError ''ERR''), st)
   | None \<Rightarrow> (Some (RError ''ERR''), st))"
  "mem_redis [''GET'', k] st =
     (case st k of None \<Rightarrow> (Some RNil, st) | Some (Str s) \<Rightarrow> (Some (RString s), st) | Some (Lst _) \<Rightarrow> (Some (RError ''ERR''), st))"
  "mem_redis [''SET'', k, v] st = (Some (RStatus ''OK''), st(k \<mapsto> Str v))"
  "mem_redis [''RPUSH'', k, v] st = (case list_at st k of
     Some xs \<Rightarrow> (Some (RInt (int (length xs) + 1)), st(k \<mapsto> Lst (xs @ [v]))) | None \<Rightarrow> (Some (RError ''ERR''), st))"
  "mem_redis [''LRANGE'', k, ''0'', ''-1''] st = (case list_at st k of Some xs \<Rightarrow> (Some (RArray (map RString xs)), st) | None \<Rightarrow> (Some (RError ''ERR''), st))"
  by (simp_all add: mem_redis_def Let_def)

lemma mem_redis_effect:
  assumes "mem_redis args st = (Some a, st')"
  shows "redis_effect args st a st'"
proof -
  consider k where "args = [''INCR'', k]" | k where "args = [''GET'', k]" | k v where "args = [''SET'', k, v]" | k v where "args = [''RPUSH'', k, v]"
    | k where "args = [''LRANGE'', k, ''0'', ''-1'']"
    | "\<forall>k v. args \<noteq> [''INCR'', k] \<and> args \<noteq> [''GET'', k] \<and> args \<noteq> [''SET'', k, v] \<and> args \<noteq> [''RPUSH'', k, v] \<and> args \<noteq> [''LRANGE'', k, ''0'', ''-1'']"
    by meson
  then show ?thesis
  proof cases
    case 1
    show ?thesis
    proof (cases "number_of (st k)")
      case None
      then have "\<forall>v. \<not> counter st k v" using number_of_counter [of st k] by auto
      then show ?thesis using assms None by (auto simp: 1 redis_effect_def is_error_def)
    next
      case (Some u)
      then have "counter st k u" using number_of_counter [of st k] by blast
      then have "counter st k v \<longleftrightarrow> v = u" for v using counter_unique [of st k] by blast
      then show ?thesis using assms Some by (auto simp: 1 redis_effect_def is_error_def split: if_splits)
    qed
  qed (use assms in \<open>auto simp: redis_effect_def is_error_def split: option.splits redis_value.splits\<close>)
qed

lemma mem_redis_ok: "redis_ok mem_redis id"
  unfolding redis_ok_def
proof (intro allI impI)
  fix args :: "char list list" and s s' :: redis_store and r
  assume m: "mem_redis args s = (r, s')"
  then obtain a where "r = Some a" using mem_redis_replies [of args s] by auto
  with m mem_redis_effect show "\<exists>a st. redis_effect args (id s) a st \<and> (r = Some a \<and> id s' = st \<or> r = None \<and> (id s' = id s \<or> id s' = st))"
    by fastforce
qed

definition demo_start :: "redis_store psi_state" where
  "demo_start =
     \<lparr>servers = (\<lambda>_. Map.empty), committedVTS = (\<lambda>_. (0, 0)), msg_list = (\<lambda>_. []), network = (\<lambda>_. []),
      main_thread = (\<lambda>_. Return NoAnswer), replicater_thread = (\<lambda>_. Return ()), held = (\<lambda>_. {#})\<rparr>"

end
