(* ===== verification/PsiRepl.thy ===== *)
theory PsiRepl
  imports PsiProps
begin

section \<open>Replication\<close>

text \<open>
  What one site commits, the other applies. The account of a thread of the web server lists what it
  has appended to a history and not yet handed to the replicater, and how many commits it has counted
  and not yet handed on; the account of a replicater lists what it has still to append and to count.
\<close>

type_synonym entry = "char list \<times> char list"

definition message_entry :: "rep_msg \<Rightarrow> entry" where
  "message_entry m = (message_key m, cstring (m_value m))"

definition is_history :: "char list \<Rightarrow> bool" where
  "is_history k \<longleftrightarrow> (\<exists>n. k = diary_key n \<or> k = comments_key n)"

definition leaves_histories :: "char list list \<Rightarrow> bool" where
  "leaves_histories args \<longleftrightarrow>
     (\<exists>k. args = [''GET'', k] \<or> args = [''LRANGE'', k, ''0'', ''-1''] \<or>
        (args = [''INCR'', k] \<or> args = [''SET'', k, ''0'']) \<and> \<not> is_history k)"

primrec accounted :: "bool \<Rightarrow> int \<Rightarrow> 'a prog \<Rightarrow> entry multiset \<Rightarrow> int \<Rightarrow> ('a \<Rightarrow> entry multiset \<Rightarrow> int \<Rightarrow> bool) \<Rightarrow> bool" where
  \<comment> \<open>the flag tells a main thread from a replicater\<close>
  "accounted main site (Return x) D c Q = Q x D c"
| "accounted main site (Crash z) D c Q = True"
| "accounted main site (Redis con args k) D c Q =
     (leaves_histories args \<and> (\<forall>r. accounted main site (k r) D c Q) \<or>
      (\<exists>key v. args = [''RPUSH'', key, v] \<and> con = Cli \<and> is_history key \<and>
         (if main then \<forall>r. accounted main site (k r) (add_mset (key, v) D) c Q
          else (key, v) \<in># D \<and> (\<forall>r. accounted main site (k r) (D - {#(key, v)#}) c Q))))"
| "accounted main site (Increment i k) D c Q =
     (if main then i = site \<and> (\<forall>v. accounted main site (k v) D (c + 1) Q)
      else i = 1 - site \<and> (\<forall>v. accounted main site (k v) D (c - 1) Q))"
| "accounted main site (Push m p) D c Q =
     (main \<and> message_entry m \<in># D \<and> is_history (message_key m) \<and> accounted main site p (D - {#message_entry m#}) (c - 1) Q)"

definition settled :: "'a \<Rightarrow> entry multiset \<Rightarrow> int \<Rightarrow> bool" where
  "settled x D c \<longleftrightarrow> D = {#} \<and> c = 0"

lemma accounted_bind [simp]:
  "accounted main site (bindP p f) D c Q = accounted main site p D c (\<lambda>x D c. accounted main site (f x) D c Q)"
proof (induction p arbitrary: D c)
  case (Redis con args k)
  have "accounted main site (bindP (k r) f) D c Q = accounted main site (k r) D c (\<lambda>x D c. accounted main site (f x) D c Q)" for r D c
    using Redis by blast
  then show ?case by (cases main) simp_all
next
  case (Increment i k)
  have "accounted main site (bindP (k v) f) D c Q = accounted main site (k v) D c (\<lambda>x D c. accounted main site (f x) D c Q)" for v D c
    using Increment by blast
  then show ?case by (cases main) simp_all
qed simp_all

lemma history_keys [simp]: "is_history (diary_key n)" "is_history (comments_key n)"
  by (auto simp: is_history_def)

lemma history_not_lock: "is_history k \<Longrightarrow> \<not> is_lock k"
  by (auto simp: is_history_def)

lemma lock_not_history [simp]: "\<not> is_history (lock_key k)"
  using history_not_lock is_lock_lock_key by blast

lemma like_not_history [simp]: "\<not> is_history (''diary_'' @ s @ ''_like'')"
proof
  assume "is_history (''diary_'' @ s @ ''_like'')"
  then obtain n where "''diary_'' @ s @ ''_like'' = diary_key n \<or> ''diary_'' @ s @ ''_like'' = comments_key n" by (auto simp: is_history_def)
  then have "last (''diary_'' @ s @ ''_like'') = last (diary_key n) \<or> last (''diary_'' @ s @ ''_like'') = last (comments_key n)" by metis
  then have "is_digit (CHR ''e'')" using signed_decimal_last [of n] by (simp add: diary_key_def comments_key_def)
  then show False by (simp add: is_digit_def)
qed

declare accounted.simps(3) [simp del]

lemma accounted_commands [simp]:
  "accounted main site (Redis con [''LRANGE'', k, ''0'', ''-1''] f) D c Q \<longleftrightarrow> (\<forall>r. accounted main site (f r) D c Q)"
  "accounted main site (Redis con [''GET'', k] f) D c Q \<longleftrightarrow> (\<forall>r. accounted main site (f r) D c Q)"
  "accounted main site (Redis con [''INCR'', k] f) D c Q \<longleftrightarrow> \<not> is_history k \<and> (\<forall>r. accounted main site (f r) D c Q)"
  "accounted main site (Redis con [''SET'', k, ''0''] f) D c Q \<longleftrightarrow> \<not> is_history k \<and> (\<forall>r. accounted main site (f r) D c Q)"
  "accounted True site (Redis con [''RPUSH'', k, v] f) D c Q \<longleftrightarrow> con = Cli \<and> is_history k \<and> (\<forall>r. accounted True site (f r) (add_mset (k, v) D) c Q)"
  "accounted False site (Redis con [''RPUSH'', k, v] f) D c Q \<longleftrightarrow>
     con = Cli \<and> is_history k \<and> (k, v) \<in># D \<and> (\<forall>r. accounted False site (f r) (D - {#(k, v)#}) c Q)"
  by (auto simp: accounted.simps(3) leaves_histories_def)

lemma accounted_release: "\<not> is_history k \<Longrightarrow> Q () D c \<Longrightarrow> accounted main site (release_lock k) D c Q"
  by (simp add: release_lock_def)

lemma accounted_from_option: "(\<And>y. x = Some y \<Longrightarrow> Q y D c) \<Longrightarrow> accounted main site (from_option z x) D c Q"
  by (auto simp: from_option_def split: option.split)

lemma accounted_deref: "(\<And>y. accounted main site (f y) D c Q) \<Longrightarrow> accounted main site (deref r f) D c Q"
  by (auto simp: deref_def split: option.split)

lemma accounted_when_free: "(\<And>b. accounted main site (f b) D c Q) \<Longrightarrow> accounted main site (when_free z f) D c Q"
  by (auto simp: when_free_def split: sum.split)

lemma accounted_form_var: "(\<And>dst. Q dst D c) \<Longrightarrow> accounted main site (form_var stack body b n name) D c Q"
  by (auto simp: form_var_def split: sum.split)

lemma accounted_string: "(\<And>s. Q s D c) \<Longrightarrow> accounted main site (c_string_at b) D c Q"
  by (auto simp: c_string_at_def)

lemma accounted_atoi: "(\<And>i. int32 i \<Longrightarrow> Q i D c) \<Longrightarrow> accounted main site (c_atoi b) D c Q"
  using to_int32_range by (auto simp: c_atoi_def int32_def split: sum.split)

lemmas accounted_intros = accounted_form_var accounted_string accounted_atoi accounted_from_option accounted_deref

lemma cstring_pad: "NUL \<notin> set xs \<Longrightarrow> cstring (xs @ replicate n NUL) = xs"
proof -
  assume "NUL \<notin> set xs"
  then have c: "c \<in> set xs \<Longrightarrow> c \<noteq> NUL" for c by metis
  have "takeWhile (\<lambda>c. c \<noteq> NUL) (xs @ ys) = xs @ takeWhile (\<lambda>c. c \<noteq> NUL) ys" for ys
    by (rule takeWhile_append2) (rule c)
  from this [of "replicate n NUL"] show ?thesis by (cases n) (simp_all add: cstring_def)
qed

lemma strncpy0_value:
  assumes "strncpy0 room s (length s) = Some a"
  shows "cstring a = cstring s"
proof -
  have "length (cstring s) \<le> length s" by (simp add: cstring_def length_takeWhile_le)
  then have "a = cstring s @ replicate (room - length (cstring s)) NUL" using assms by (auto simp: strncpy0_def split: if_splits)
  then show ?thesis by (simp only: cstring_pad [OF NUL_notin_cstring])
qed

lemma accounted_record_commit:
  assumes k: "length key < 32" "NUL \<notin> set key" "is_history key" and q: "Q () D c"
  shows "accounted True site (record_commit J site cmt key x) D c Q"
proof -
  have m: "message_entry m = (key, cstring s) \<and> message_key m = key"
    if "strncpy0 MAX_KEY_LEN key (length key) = Some (m_key m)" "strncpy0 MAX_VALUE_LEN s (length s) = Some (m_value m)" for m s
    using strncpy0_key(2) [OF that(1) k(1,2), of "m_value m"] strncpy0_value [OF that(2)] by (simp add: message_entry_def message_key_def)
  show ?thesis using k(3) q m
    by (auto simp: record_commit_def rep_msg_t_def from_option_def split: option.split)
qed

lemma accounted_fast_commit:
  assumes "int32 (case x of DIARY d \<Rightarrow> ob_id d | COMMENT c \<Rightarrow> c_diary_id c)"
  shows "accounted True site (fast_commit J site v x) {#} 0 settled"
proof -
  let ?k = "history_key x"
  have k: "?k = (case x of DIARY d \<Rightarrow> diary_key (ob_id d) | COMMENT c \<Rightarrow> comments_key (c_diary_id c))"
    by (cases x) (simp_all add: history_key_def diary_key_def comments_key_def)
  have fit: "length ?k < 32" "NUL \<notin> set ?k" "is_history ?k" using assms(1) keys_fit by (auto simp: k split: obj.splits)
  have fin: "accounted True site (bindP (release_lock (lock_key ?k)) (\<lambda>_. Return b)) {#} 0 settled" for b
    by (simp add: accounted_release settled_def)
  have com: "accounted True site (bindP (record_commit J site FAST_CMT ?k x) (\<lambda>_. bindP (release_lock (lock_key ?k)) (\<lambda>_. Return True))) {#} 0 settled"
    by (simp only: accounted_bind) (rule accounted_record_commit [OF fit], simp add: accounted_release settled_def)
  show ?thesis
    using fin com unfolding fast_commit_def Let_def
    by (cases x) (auto intro!: accounted_deref accounted_when_free simp: acquire_lock_def settled_def deref_def split: option.split)
qed

lemma accounted_fast_diary: "int32 (ob_id d) \<Longrightarrow> accounted True site (fast_commit J site v (DIARY d)) {#} 0 settled"
  by (rule accounted_fast_commit) simp

lemma accounted_fast_comment: "int32 (c_diary_id c) \<Longrightarrow> accounted True site (fast_commit J site v (COMMENT c)) {#} 0 settled"
  by (rule accounted_fast_commit) simp

lemma accounted_slow_commit:
  assumes "int32 (ob_id d)"
  shows "accounted True site (slow_commit J site v (DIARY d)) {#} 0 settled"
proof -
  let ?k = "diary_key (ob_id d)"
  note fit = keys_fit(1,3) [OF assms(1)] history_keys(1) [of "ob_id d"]
  have com: "accounted True site (bindP (record_commit J site SLOW_CMT ?k (DIARY d)) (\<lambda>_. Return True)) {#} 0 settled"
    by (simp only: accounted_bind) (rule accounted_record_commit [OF fit], simp add: settled_def)
  show ?thesis
    using com unfolding slow_commit_def Let_def obj.case diary_key_def [symmetric]
    by (auto intro!: accounted_deref accounted_when_free simp: settled_def)
qed

lemma accounted_replicate:
  assumes "is_history (message_key m)"
  shows "accounted False site (replicate_message site m) {#message_entry m#} 1 settled"
  using assms
  by (auto simp: replicate_message_def c_string_at_def message_key_def [symmetric] message_entry_def release_lock_def settled_def)

lemma accounted_handler: "accounted True site (ev_handler J site stack utime success uri body) {#} 0 settled"
proof -
  have content: "accounted True site (handle_get_diary_content J stack body) {#} 0 settled"
    by (auto intro!: accounted_intros simp: handle_get_diary_content_def Let_def settled_def split: sum.split)
  note e = settled_def [abs_def]
  note commits = accounted_fast_diary [unfolded e] accounted_fast_comment [unfolded e] accounted_slow_commit [unfolded e]
  have edit: "accounted True site (handle_edit_diary J site stack utime body) {#} 0 settled"
    by (auto intro!: accounted_intros commits simp: handle_edit_diary_def Let_def settled_def)
  have comment: "accounted True site (handle_add_comment J site stack body) {#} 0 settled"
    by (auto intro!: accounted_intros commits simp: handle_add_comment_def Let_def settled_def)
  have comments: "accounted True site (handle_get_comments stack body) {#} 0 settled"
    by (auto intro!: accounted_intros simp: handle_get_comments_def settled_def)
  have get_like: "accounted True site (handle_get_like J site stack body) {#} 0 settled"
    by (auto intro!: accounted_intros simp: handle_get_like_def settled_def split: option.split)
  have like: "accounted True site (handle_like J site stack success body) {#} 0 settled"
    by (auto intro!: accounted_intros simp: handle_like_def settled_def simp del: append.simps)
  show ?thesis using content edit comment comments get_like like by (simp add: ev_handler_def Let_def settled_def [abs_def])
qed

subsection \<open>The balance of the two sites\<close>

definition redis_up :: "'s redis \<Rightarrow> ('s \<Rightarrow> redis_store) \<Rightarrow> bool" where
  \<comment> \<open>the connections do not fail\<close>
  "redis_up redis view \<longleftrightarrow> redis_ok redis view \<and> (\<forall>args s. fst (redis args s) \<noteq> None)"

definition history :: "('s \<Rightarrow> redis_store) \<Rightarrow> 's psi_state \<Rightarrow> int \<Rightarrow> char list \<Rightarrow> char list list option" where
  "history view w site k = list_at (view (servers w site)) k"

definition incoming :: "'s psi_state \<Rightarrow> int \<Rightarrow> rep_msg list" where
  \<comment> \<open>the messages for a site, on their way or still in \<open>msg_list\<close> of the other\<close>
  "incoming w site = network w site @ msg_list w (1 - site)"

definition own :: "int \<Rightarrow> psi_ver_t \<Rightarrow> int" where
  "own site v = (if site = 0 then fst v else snd v)"

definition at_key :: "char list \<Rightarrow> entry multiset \<Rightarrow> char list multiset" where
  "at_key k M = image_mset snd (filter_mset (\<lambda>x. fst x = k) M)"

definition will_hold :: "('s \<Rightarrow> redis_store) \<Rightarrow> 's psi_state \<Rightarrow> (int \<Rightarrow> entry multiset) \<Rightarrow> (int \<Rightarrow> entry multiset) \<Rightarrow> int \<Rightarrow> char list \<Rightarrow> char list multiset" where
  \<comment> \<open>what a history holds and what is bound for it: \<open>D\<close> are the accounts of the main threads, \<open>E\<close> those of the replicaters\<close>
  "will_hold view w D E site k =
     mset (the (history view w site k)) + at_key k (E site) + at_key k (mset (map message_entry (incoming w site))) + at_key k (D (1 - site))"

definition balanced ::
  "('s \<Rightarrow> redis_store) \<Rightarrow> 's psi_state \<Rightarrow> (int \<Rightarrow> entry multiset) \<Rightarrow> (int \<Rightarrow> int) \<Rightarrow> (int \<Rightarrow> entry multiset) \<Rightarrow> (int \<Rightarrow> int) \<Rightarrow> bool" where
  "balanced view w D c E e \<longleftrightarrow>
     (\<forall>k. is_history k \<longrightarrow> (\<forall>site\<in>sites. history view w site k \<noteq> None) \<and> will_hold view w D E 0 k = will_hold view w D E 1 k) \<and>
     (\<forall>site\<in>sites. own (1 - site) (committedVTS w site) + e site + int (length (incoming w site)) + c (1 - site) =
        own (1 - site) (committedVTS w (1 - site))) \<and>
     (\<forall>site\<in>sites. \<forall>m\<in>set (incoming w site). is_history (message_key m))"

definition repl_inv :: "('s \<Rightarrow> redis_store) \<Rightarrow> 's psi_state \<Rightarrow> bool" where
  "repl_inv view w \<longleftrightarrow> (\<exists>D c E e. balanced view w D c E e \<and> (\<forall>site\<in>sites.
     accounted True site (main_thread w site) (D site) (c site) settled \<and>
     accounted False site (replicater_thread w site) (E site) (e site) settled))"

lemma at_key_simps [simp]:
  "at_key k (M + N) = at_key k M + at_key k N" "at_key k {#} = {#}"
  "at_key k (add_mset (k', v) M) = (if k' = k then add_mset v (at_key k M) else at_key k M)"
  by (auto simp: at_key_def)

lemma at_key_remove: "(k', v) \<in># M \<Longrightarrow> (if k' = k then add_mset v (at_key k (M - {#(k', v)#})) else at_key k (M - {#(k', v)#})) = at_key k M"
proof -
  assume "(k', v) \<in># M"
  then have "M = add_mset (k', v) (M - {#(k', v)#})" by simp
  then show ?thesis by (metis at_key_simps(3))
qed

lemma command_histories:
  assumes up: "redis_up redis view" and c: "redis args s = (r, s')"
  shows "leaves_histories args \<Longrightarrow> is_history k \<Longrightarrow> list_at (view s') k = list_at (view s) k"
    and "args = [''RPUSH'', key, v] \<Longrightarrow> list_at (view s) key = Some xs \<Longrightarrow> list_at (view s') = (list_at (view s))(key := Some (xs @ [v]))"
proof -
  have "redis_ok redis view" "r \<noteq> None" using up c unfolding redis_up_def by (metis fst_conv)+
  from redis_okD [OF this(1) c] this(2) obtain a where e: "redis_effect args (view s) a (view s')" by metis
  show "list_at (view s') = (list_at (view s))(key := Some (xs @ [v]))" if "args = [''RPUSH'', key, v]" "list_at (view s) key = Some xs"
  proof -
    have "view s' = (view s)(key \<mapsto> Lst (xs @ [v]))" using e that by (simp add: redis_effect_def)
    then show ?thesis by (auto simp: list_at_def)
  qed
  assume l: "leaves_histories args" and k: "is_history k"
  have "view s' = view s \<or> (\<exists>k' x. \<not> is_history k' \<and> view s' = (view s)(k' \<mapsto> x))"
  proof (cases "\<exists>k'. args = [''INCR'', k'] \<and> \<not> is_history k'")
    case True
    then obtain k' where k': "args = [''INCR'', k']" "\<not> is_history k'" by blast
    show ?thesis
    proof (cases "\<exists>u. counter (view s) k' u")
      case True
      then obtain u where "counter (view s) k' u" by blast
      then have "if u + 1 < 2 ^ 63 then a = RInt (u + 1) \<and> view s' = (view s)(k' \<mapsto> Str (signed_decimal (u + 1))) else is_error a \<and> view s' = view s"
        using e k'(1) by (simp add: redis_effect_def)
      then show ?thesis using k'(2) by (auto split: if_splits)
    next
      case False
      then show ?thesis using e k'(1) by (simp add: redis_effect_def)
    qed
  next
    case False
    with l obtain k' where "args = [''GET'', k'] \<or> args = [''LRANGE'', k', ''0'', ''-1''] \<or> args = [''SET'', k', ''0''] \<and> \<not> is_history k'"
      by (auto simp: leaves_histories_def)
    then have "view s' = view s \<or> (\<not> is_history k' \<and> view s' = (view s)(k' \<mapsto> Str ''0''))" using e by (auto simp: redis_effect_def)
    then show ?thesis by blast
  qed
  then show "list_at (view s') k = list_at (view s) k" using k by (auto simp: list_at_def)
qed

lemma other_site [simp]: "(1 - site = site) = False" for site :: int
  by presburger

lemma balanced_cong:
  assumes "\<And>site k. site \<in> sites \<Longrightarrow> is_history k \<Longrightarrow> history view w' site k = history view w site k"
    and "committedVTS w' = committedVTS w" and "msg_list w' = msg_list w" and "network w' = network w"
  shows "balanced view w' D c E e = balanced view w D c E e"
proof -
  have "incoming w' = incoming w" using assms(3,4) by (simp add: incoming_def fun_eq_iff)
  moreover have "will_hold view w' D E site k = will_hold view w D E site k" if "site \<in> sites" "is_history k" for site k
    using assms(1) [OF that] \<open>incoming w' = _\<close> by (simp add: will_hold_def)
  ultimately show ?thesis using assms(1,2) by (auto simp: balanced_def sites_def)
qed

lemma main_act:
  assumes up: "redis_up redis view" and s: "site \<in> sites" and b: "balanced view w D c E e"
    and p: "accounted True site p (D site) (c site) settled" and a: "act redis t site p w = Some (p', w')"
  shows "\<exists>M z. balanced view w' (D(site := M)) (c(site := z)) E e \<and> accounted True site p' M z settled"
proof (cases p)
  case (Redis con args k)
  let ?srv = "server_of site con"
  obtain r x where r: "redis args (servers w ?srv) = (r, x)" by (cases "redis args (servers w ?srv)")
  then have w': "p' = k r" "servers w' = (servers w)(?srv := x)" "committedVTS w' = committedVTS w" "msg_list w' = msg_list w" "network w' = network w"
    using a by (auto simp: Redis Let_def)
  consider "leaves_histories args" "accounted True site (k r) (D site) (c site) settled"
    | key v where "args = [''RPUSH'', key, v]" "con = Cli" "is_history key" "accounted True site (k r) (add_mset (key, v) (D site)) (c site) settled"
    using p by (auto simp: Redis accounted.simps(3))
  then show ?thesis
  proof cases
    case 1
    have "balanced view w' D c E e = balanced view w D c E e"
      by (rule balanced_cong) (use w' command_histories(1) [OF up r 1(1)] in \<open>auto simp: history_def\<close>)
    then show ?thesis using b 1(2) w'(1) by (intro exI [of _ "D site"] exI [of _ "c site"]) simp
  next
    case 2
    have srv: "?srv = site" using 2(2) by (simp add: server_of_def)
    obtain xs where xs: "list_at (view (servers w site)) key = Some xs" using b 2(3) s unfolding balanced_def history_def by blast
    from command_histories(2) [OF up r 2(1)] xs srv have
      h: "history view w' i k' = (if i = site \<and> k' = key then Some (xs @ [v]) else history view w i k')" for i k'
      using w'(2) by (auto simp: history_def)
    have inc: "incoming w' = incoming w" using w' by (simp add: incoming_def fun_eq_iff)
    let ?D = "D(site := add_mset (key, v) (D site))"
    have "will_hold view w' ?D E i k' = will_hold view w D E i k' + (if k' = key then {#v#} else {#})" if i: "i \<in> sites" for i k'
    proof (cases "i = site")
      case True
      have "history view w site key = Some xs" using xs by (simp add: history_def)
      then show ?thesis using True by (simp add: will_hold_def h inc)
    next
      case False
      then have "1 - i = site" using i s by (auto simp: sites_def)
      then show ?thesis using False by (simp add: will_hold_def h inc)
    qed
    moreover have "history view w' i k' \<noteq> None" if "i \<in> sites" "is_history k'" for i k' using b that by (simp add: h balanced_def)
    ultimately have "balanced view w' ?D (c(site := c site)) E e"
      using b w' by (simp add: balanced_def inc sites_def)
    then show ?thesis using 2(4) w'(1) by blast
  qed
next
  case (Increment i k)
  have i: "i = site" using p by (simp add: Increment)
  have k: "accounted True site (k v) (D site) (c site + 1) settled" for v using p by (cases v) (simp add: Increment)
  show ?thesis
  proof (cases "own i (committedVTS w site) \<ge> 2 ^ 31 - 1")
    case True
    then have "w' = w" "\<exists>z. p' = Crash z" using a i s by (auto simp: Increment Let_def sites_def own_def split: if_splits)
    then show ?thesis using b by (intro exI [of _ "D site"] exI [of _ "c site"]) auto
  next
    case False
    let ?old = "committedVTS w site" and ?v = "if i = 0 then (fst (committedVTS w site) + 1, snd (committedVTS w site)) else (fst (committedVTS w site), snd (committedVTS w site) + 1)"
    have n: "\<not> (if i = 0 then fst ?old else snd ?old) \<ge> 2 ^ 31 - 1" "i = 0 \<or> i = 1" using False i s by (auto simp: own_def sites_def)
    have "p' = k ?v \<and> w' = w\<lparr>committedVTS := (committedVTS w)(site := ?v)\<rparr>"
      using a n unfolding Increment act.simps Let_def by auto
    then have v: "p' = k ?v" "committedVTS w' = (committedVTS w)(site := ?v)" "servers w' = servers w" "msg_list w' = msg_list w" "network w' = network w"
      by simp_all
    have o: "own site ?v = own site (committedVTS w site) + 1" "own (1 - site) ?v = own (1 - site) (committedVTS w site)" using i s by (auto simp: own_def sites_def)
    have "incoming w' = incoming w" "history view w' = history view w" using v by (simp_all add: incoming_def history_def fun_eq_iff)
    then have "balanced view w' (D(site := D site)) (c(site := c site + 1)) E e"
      using b s v(2) o by (auto simp: balanced_def will_hold_def sites_def)
    then show ?thesis using k v(1) by blast
  qed
next
  case (Push m p1)
  have m: "message_entry m \<in># D site" "is_history (message_key m)" "accounted True site p1 (D site - {#message_entry m#}) (c site - 1) settled"
    using p by (auto simp: Push)
  have w': "p' = p1" "servers w' = servers w" "committedVTS w' = committedVTS w" "network w' = network w"
    "msg_list w' = (msg_list w)(site := msg_list w site @ [m])" using a by (auto simp: Push)
  have h: "history view w' = history view w" using w' by (simp add: history_def fun_eq_iff)
  have inc: "incoming w' i = (if i = 1 - site then incoming w i @ [m] else incoming w i)" if "i \<in> sites" for i
    using that s w' by (auto simp: incoming_def sites_def)
  obtain key v where kv: "message_entry m = (key, v)" by (cases "message_entry m")
  have D: "at_key k (D site) = at_key k (D site - {#(key, v)#}) + (if key = k then {#v#} else {#})" for k
    using at_key_remove [of key v "D site" k] m(1) kv by (auto split: if_splits)
  have "balanced view w' (D(site := D site - {#message_entry m#})) (c(site := c site - 1)) E e"
    using b s w'(3) m(2) D kv by (auto simp: balanced_def will_hold_def h inc sites_def)
  then show ?thesis using m(3) w'(1) by blast
qed (use a in auto)

lemma replicater_act:
  assumes up: "redis_up redis view" and s: "site \<in> sites" and b: "balanced view w D c E e"
    and p: "accounted False site p (E site) (e site) settled" and a: "act redis t site p w = Some (p', w')"
  shows "\<exists>M z. balanced view w' D c (E(site := M)) (e(site := z)) \<and> accounted False site p' M z settled"
proof (cases p)
  case (Redis con args k)
  let ?srv = "server_of site con"
  obtain r x where r: "redis args (servers w ?srv) = (r, x)" by (cases "redis args (servers w ?srv)")
  then have w': "p' = k r" "servers w' = (servers w)(?srv := x)" "committedVTS w' = committedVTS w" "msg_list w' = msg_list w" "network w' = network w"
    using a by (auto simp: Redis Let_def)
  consider "leaves_histories args" "accounted False site (k r) (E site) (e site) settled"
    | key v where "args = [''RPUSH'', key, v]" "con = Cli" "is_history key" "(key, v) \<in># E site"
      "accounted False site (k r) (E site - {#(key, v)#}) (e site) settled"
    using p by (auto simp: Redis accounted.simps(3))
  then show ?thesis
  proof cases
    case 1
    have "balanced view w' D c E e = balanced view w D c E e"
      by (rule balanced_cong) (use w' command_histories(1) [OF up r 1(1)] in \<open>auto simp: history_def\<close>)
    then show ?thesis using b 1(2) w'(1) by (intro exI [of _ "E site"] exI [of _ "e site"]) simp
  next
    case 2
    have srv: "?srv = site" using 2(2) by (simp add: server_of_def)
    obtain xs where xs: "list_at (view (servers w site)) key = Some xs" using b 2(3) s unfolding balanced_def history_def by blast
    from command_histories(2) [OF up r 2(1)] xs srv have
      h: "history view w' i k' = (if i = site \<and> k' = key then Some (xs @ [v]) else history view w i k')" for i k'
      using w'(2) by (auto simp: history_def)
    have inc: "incoming w' = incoming w" using w' by (simp add: incoming_def fun_eq_iff)
    let ?E = "E(site := E site - {#(key, v)#})"
    have "will_hold view w' D ?E i k' = will_hold view w D E i k'" if i: "i \<in> sites" for i k'
    proof (cases "i = site")
      case True
      have "history view w site key = Some xs" using xs by (simp add: history_def)
      then show ?thesis using True at_key_remove [OF 2(4), of k'] by (auto simp: will_hold_def h inc split: if_splits)
    qed (simp add: will_hold_def h inc)
    moreover have "history view w' i k' \<noteq> None" if "i \<in> sites" "is_history k'" for i k' using b that by (simp add: h balanced_def)
    ultimately have "balanced view w' D c ?E (e(site := e site))"
      using b w' by (simp add: balanced_def inc sites_def)
    then show ?thesis using 2(5) w'(1) by blast
  qed
next
  case (Increment i k)
  have i: "i = 1 - site" using p by (simp add: Increment)
  have k: "accounted False site (k v) (E site) (e site - 1) settled" for v using p by (cases v) (simp add: Increment)
  show ?thesis
  proof (cases "own i (committedVTS w site) \<ge> 2 ^ 31 - 1")
    case True
    then have "w' = w" "\<exists>z. p' = Crash z" using a i s by (auto simp: Increment Let_def sites_def own_def split: if_splits)
    then show ?thesis using b by (intro exI [of _ "E site"] exI [of _ "e site"]) auto
  next
    case False
    let ?old = "committedVTS w site" and ?v = "if i = 0 then (fst (committedVTS w site) + 1, snd (committedVTS w site)) else (fst (committedVTS w site), snd (committedVTS w site) + 1)"
    have n: "\<not> (if i = 0 then fst ?old else snd ?old) \<ge> 2 ^ 31 - 1" "i = 0 \<or> i = 1" using False i s by (auto simp: own_def sites_def)
    have "p' = k ?v \<and> w' = w\<lparr>committedVTS := (committedVTS w)(site := ?v)\<rparr>"
      using a n unfolding Increment act.simps Let_def by auto
    then have v: "p' = k ?v" "committedVTS w' = (committedVTS w)(site := ?v)" "servers w' = servers w" "msg_list w' = msg_list w" "network w' = network w"
      by simp_all
    have o: "own (1 - site) ?v = own (1 - site) (committedVTS w site) + 1" "own site ?v = own site (committedVTS w site)" using i s by (auto simp: own_def sites_def)
    have "incoming w' = incoming w" "history view w' = history view w" using v by (simp_all add: incoming_def history_def fun_eq_iff)
    then have "balanced view w' D c (E(site := E site)) (e(site := e site - 1))"
      using b s v(2) o by (auto simp: balanced_def will_hold_def sites_def)
    then show ?thesis using k v(1) by blast
  qed
qed (use p a in auto)

lemma repl_inv_step:
  assumes up: "redis_up redis view" and "psi_step redis J False w w'" and "repl_inv view w"
  shows "repl_inv view w'"
proof -
  from assms(3) obtain D c E e where b: "balanced view w D c E e"
    and m: "\<And>site. site \<in> sites \<Longrightarrow> accounted True site (main_thread w site) (D site) (c site) settled"
    and r: "\<And>site. site \<in> sites \<Longrightarrow> accounted False site (replicater_thread w site) (E site) (e site) settled"
    unfolding repl_inv_def by blast
  have keep: "balanced view (x\<lparr>main_thread := y\<rparr>) D c E e = balanced view x D c E e"
    "balanced view (x\<lparr>replicater_thread := z\<rparr>) D c E e = balanced view x D c E e" for x y z D c E e
    by (rule balanced_cong; simp add: history_def)+
  from assms(2) show ?thesis
  proof cases
    case (main site p w1)
    have o: "main_thread w1 = main_thread w" "replicater_thread w1 = replicater_thread w"
      using main(3) by (auto simp: Let_def elim!: act.elims split: if_splits prod.splits)
    from main_act [OF up main(2) b m [OF main(2)] main(3)] obtain M z where
      "balanced view w1 (D(site := M)) (c(site := z)) E e" "accounted True site p M z settled" by blast
    with m r show ?thesis unfolding repl_inv_def main(1)
      by (intro exI [of _ "D(site := M)"] exI [of _ "c(site := z)"] exI [of _ E] exI [of _ e]) (simp add: keep o)
  next
    case (replicater site p w1)
    have o: "main_thread w1 = main_thread w" "replicater_thread w1 = replicater_thread w"
      using replicater(3) by (auto simp: Let_def elim!: act.elims split: if_splits prod.splits)
    from replicater_act [OF up replicater(2) b r [OF replicater(2)] replicater(3)] obtain M z where
      "balanced view w1 D c (E(site := M)) (e(site := z))" "accounted False site p M z settled" by blast
    with m r show ?thesis unfolding repl_inv_def replicater(1)
      by (intro exI [of _ D] exI [of _ c] exI [of _ "E(site := M)"] exI [of _ "e(site := z)"]) (simp add: keep o)
  next
    case (request site a stack utime success uri body)
    have "D site = {#}" "c site = 0" using m [OF request(2)] request(3) by (simp_all add: settled_def)
    with m r b accounted_handler show ?thesis unfolding repl_inv_def request(1)
      by (intro exI [of _ D] exI [of _ c] exI [of _ E] exI [of _ e]) (simp add: keep)
  next
    case (receive site x ms)
    have z: "E site = {#}" "e site = 0" using r [OF receive(2)] receive(3) by (simp_all add: settled_def)
    have h: "is_history (message_key x)" using b receive(2,4) by (auto simp: balanced_def incoming_def)
    have hist: "history view w' = history view w" by (simp add: receive(1) history_def fun_eq_iff)
    have inc: "incoming w i = (if i = site then x # incoming w' i else incoming w' i)" if "i \<in> sites" for i
      using receive by (simp add: incoming_def)
    have vts: "committedVTS w' = committedVTS w" by (simp add: receive(1))
    obtain key v where kv: "message_entry x = (key, v)" by (cases "message_entry x")
    have "balanced view w' D c (E(site := {#message_entry x#})) (e(site := 1))"
      using b receive(2) z by (auto simp: balanced_def will_hold_def hist inc sites_def vts kv)
    with m r accounted_replicate [OF h] show ?thesis unfolding repl_inv_def
      by (intro exI [of _ D] exI [of _ c] exI [of _ "E(site := {#message_entry x#})"] exI [of _ "e(site := 1)"]) (simp add: receive(1))
  next
    case (send site x ms)
    have hist: "history view w' = history view w" by (simp add: send(1) history_def fun_eq_iff)
    have inc: "incoming w' i = incoming w i" if "i \<in> sites" for i
      using send that by (auto simp: incoming_def sites_def)
    have vts: "committedVTS w' = committedVTS w" by (simp add: send(1))
    have "balanced view w' D c E e"
      using b by (auto simp: balanced_def will_hold_def hist inc sites_def vts)
    with m r show ?thesis unfolding repl_inv_def
      by (intro exI [of _ D] exI [of _ c] exI [of _ E] exI [of _ e]) (simp add: send(1))
  qed auto
qed

definition same_histories :: "('s \<Rightarrow> redis_store) \<Rightarrow> 's psi_state \<Rightarrow> bool" where
  \<comment> \<open>both servers hold the same entries in every history, as after \<open>generate_data\<close>\<close>
  "same_histories view w \<longleftrightarrow> (\<forall>k. is_history k \<longrightarrow>
     (\<exists>xs ys. history view w 0 k = Some xs \<and> history view w 1 k = Some ys \<and> mset xs = mset ys))"

lemma repl_inv_start: "psi_start w \<Longrightarrow> same_histories view w \<Longrightarrow> repl_inv view w"
  unfolding repl_inv_def
  by (intro exI [of _ "\<lambda>_. {#}"] exI [of _ "\<lambda>_. 0"])
    (auto simp: psi_start_def balanced_def same_histories_def will_hold_def incoming_def own_def settled_def sites_def)

lemma repl_inv_run: "(psi_step redis J False)\<^sup>*\<^sup>* w0 w \<Longrightarrow> redis_up redis view \<Longrightarrow> repl_inv view w0 \<Longrightarrow> repl_inv view w"
  by (induction rule: rtranclp_induct) (auto intro: repl_inv_step)

definition quiet :: "'s psi_state \<Rightarrow> bool" where
  \<comment> \<open>no thread has anything to do and no message is on its way\<close>
  "quiet w \<longleftrightarrow> (\<forall>site\<in>sites. (\<exists>a. main_thread w site = Return a) \<and> replicater_thread w site = Return () \<and> incoming w site = [])"

lemma quiet_converged:
  assumes "repl_inv view w" and q: "quiet w"
  shows "same_histories view w" "committedVTS w 0 = committedVTS w 1"
proof -
  from assms(1) obtain D c E e where b: "balanced view w D c E e"
    and m: "\<And>site. site \<in> sites \<Longrightarrow> accounted True site (main_thread w site) (D site) (c site) settled"
    and r: "\<And>site. site \<in> sites \<Longrightarrow> accounted False site (replicater_thread w site) (E site) (e site) settled"
    unfolding repl_inv_def by blast
  have z: "D site = {#}" "c site = 0" "E site = {#}" "e site = 0" "incoming w site = []" if "site \<in> sites" for site
    using m [OF that] r [OF that] q that by (auto simp: quiet_def settled_def)
  have s: "(0 :: int) \<in> sites" "(1 :: int) \<in> sites" by (simp_all add: sites_def)
  show "same_histories view w" using b z [OF s(1)] z [OF s(2)] by (auto simp: same_histories_def balanced_def will_hold_def sites_def)
  show "committedVTS w 0 = committedVTS w 1"
    using b z [OF s(1)] z [OF s(2)] by (auto simp: balanced_def own_def sites_def prod_eq_iff)
qed

end
