(* ===== verification/PsiSpec.thy ===== *)
theory PsiSpec
  imports PsiRepl
begin

section \<open>What the diary server promises\<close>

subsection \<open>A thread that runs alone\<close>

inductive runs :: "'s redis \<Rightarrow> thread \<Rightarrow> int \<Rightarrow> 'a prog \<Rightarrow> 's psi_state \<Rightarrow> 'a prog \<Rightarrow> 's psi_state \<Rightarrow> bool" for redis t site where
  stop: "runs redis t site p w p w"
| step: "act redis t site p w = Some (p1, w1) \<Longrightarrow> runs redis t site p1 w1 p2 w2 \<Longrightarrow> runs redis t site p w p2 w2"

lemma runs_Redis:
  "redis args (servers w (server_of site con)) = (r, s) \<Longrightarrow>
   runs redis t site (k r) (w\<lparr>servers := (servers w)(server_of site con := s), held := (held w)(t := after_command (server_of site con) args r (held w t))\<rparr>) q v \<Longrightarrow>
   runs redis t site (Redis con args k) w q v"
  by (rule step) (auto simp: Let_def)

lemma runs_read:
  assumes "redis args (servers w (server_of site con)) = (r, s)" and "after_command (server_of site con) args r (held w t) = held w t"
  shows "runs redis t site (Redis con args k) w (k r) (w\<lparr>servers := (servers w)(server_of site con := s)\<rparr>)"
  by (rule runs_Redis, rule assms(1)) (simp add: assms(2) runs.stop)

definition next_ver :: "int \<Rightarrow> psi_ver_t \<Rightarrow> psi_ver_t" where
  "next_ver i v = (if i = 0 then (fst v + 1, snd v) else (fst v, snd v + 1))"

lemma runs_Increment:
  "i \<in> sites \<Longrightarrow> own i (committedVTS w site) < 2 ^ 31 - 1 \<Longrightarrow>
   runs redis t site (k (next_ver i (committedVTS w site))) (w\<lparr>committedVTS := (committedVTS w)(site := next_ver i (committedVTS w site))\<rparr>) q v \<Longrightarrow>
   runs redis t site (Increment i k) w q v"
  by (rule step) (auto simp: Let_def sites_def own_def next_ver_def)

lemma runs_Push:
  "runs redis t site p (w\<lparr>msg_list := (msg_list w)(site := msg_list w site @ [m]), held := (held w)(t := held w t - message_lock (1 - site) m)\<rparr>) q v \<Longrightarrow>
   runs redis t site (Push m p) w q v"
  by (rule step) auto

lemma up_command:
  assumes "redis_up redis view"
  obtains a s' where "redis args s = (Some a, s')" "redis_effect args (view s) a (view s')"
proof -
  obtain r s' where r: "redis args s = (r, s')" by (cases "redis args s")
  have "redis_ok redis view" "r \<noteq> None" using assms r unfolding redis_up_def by (metis fst_conv)+
  from redis_okD [OF this(1) r] this(2) that r show thesis by metis
qed

lemma up_incr:
  assumes "redis_up redis view" and "counter (view s) k n" and "n + 1 < 2 ^ 63"
  obtains s' where "redis [''INCR'', k] s = (Some (RInt (n + 1)), s')" "view s' = (view s)(k \<mapsto> Str (signed_decimal (n + 1)))"
proof -
  from up_command [OF assms(1)] obtain a s' where "redis [''INCR'', k] s = (Some a, s')" "redis_effect [''INCR'', k] (view s) a (view s')" by blast
  with assms(2,3) that show thesis by (auto simp: redis_effect_def)
qed

lemma up_set:
  assumes "redis_up redis view"
  obtains s' where "redis [''SET'', k, v] s = (Some (RStatus ''OK''), s')" "view s' = (view s)(k \<mapsto> Str v)"
proof -
  from up_command [OF assms(1)] obtain a s' where "redis [''SET'', k, v] s = (Some a, s')" "redis_effect [''SET'', k, v] (view s) a (view s')" by blast
  with that show thesis by (auto simp: redis_effect_def)
qed

lemma up_lrange:
  assumes "redis_up redis view" and "list_at (view s) k = Some xs"
  obtains s' where "redis [''LRANGE'', k, ''0'', ''-1''] s = (Some (RArray (map RString xs)), s')" "view s' = view s"
proof -
  from up_command [OF assms(1)] obtain a s' where "redis [''LRANGE'', k, ''0'', ''-1''] s = (Some a, s')"
    "redis_effect [''LRANGE'', k, ''0'', ''-1''] (view s) a (view s')" by blast
  with assms(2) that show thesis by (auto simp: redis_effect_def)
qed

lemma up_rpush:
  assumes "redis_up redis view" and "list_at (view s) k = Some xs"
  obtains s' where "redis [''RPUSH'', k, v] s = (Some (RInt (int (length xs) + 1)), s')" "view s' = (view s)(k \<mapsto> Lst (xs @ [v]))"
proof -
  from up_command [OF assms(1)] obtain a s' where "redis [''RPUSH'', k, v] s = (Some a, s')"
    "redis_effect [''RPUSH'', k, v] (view s) a (view s')" by blast
  with assms(2) that show thesis by (auto simp: redis_effect_def)
qed

subsection \<open>Commits\<close>

definition covers :: "psi_ver_t \<Rightarrow> psi_ver_t \<Rightarrow> bool" where
  "covers start v \<longleftrightarrow> fst v \<le> fst start \<and> snd v \<le> snd start"

definition covers_all :: "(char list \<Rightarrow> psi_ver_t option) \<Rightarrow> psi_ver_t \<Rightarrow> char list list \<Rightarrow> bool" where
  "covers_all ver_of start hist \<longleftrightarrow> (\<forall>s\<in>set hist. \<forall>v. ver_of s = Some v \<longrightarrow> covers start v)"

lemma conflict_covers:
  "\<forall>s\<in>set hist. ver_of s \<noteq> None \<Longrightarrow> conflict ver_of start (map RString hist) = Inr (\<not> covers_all ver_of start hist)"
  by (induction hist) (auto simp: reply_str_def covers_all_def covers_def)

definition committed_at ::
  "('s \<Rightarrow> redis_store) \<Rightarrow> commit_type \<Rightarrow> int \<Rightarrow> char list \<Rightarrow> char list \<Rightarrow> 's psi_state \<Rightarrow> 's psi_state \<Rightarrow> bool" where
  \<comment> \<open>the new version is counted, the entry at the end of the history, and its message waits to be sent\<close>
  "committed_at view cmt site key entry w w' \<longleftrightarrow>
     (\<forall>xs. history view w site key = Some xs \<longrightarrow> history view w' site key = Some (xs @ [entry])) \<and>
     committedVTS w' = (committedVTS w)(site := next_ver site (committedVTS w site)) \<and>
     (\<exists>m. msg_list w' = (msg_list w)(site := msg_list w site @ [m]) \<and> message_entry m = (key, entry) \<and> m_commit_type m = cmt \<and>
        NUL \<in> set (m_key m) \<and> (length entry < MAX_VALUE_LEN \<longrightarrow> NUL \<in> set (m_value m))) \<and>
     network w' = network w \<and> main_thread w' = main_thread w \<and> replicater_thread w' = replicater_thread w"

lemma record_commit_runs:
  assumes up: "redis_up redis view" and s: "site \<in> sites" and k: "length key < 32" "NUL \<notin> set key"
    and h: "history view w site key = Some hist" and n: "own site (committedVTS w site) < 2 ^ 31 - 1"
    and j: "dump J (obj_json (set_ver (next_ver site (committedVTS w site)) x)) = Some js" "length js \<le> MAX_VALUE_LEN"
  shows "\<exists>w'. (\<forall>f q v. runs redis t site (f ()) w' q v \<longrightarrow> runs redis t site (bindP (record_commit J site cmt key x) f) w q v) \<and>
    committed_at view cmt site key (cstring js) w w' \<and>
    view (servers w' site) = (view (servers w site))(key \<mapsto> Lst (hist @ [cstring js])) \<and> (\<forall>i. i \<noteq> site \<longrightarrow> servers w' i = servers w i) \<and>
    held w' = (held w)(t := held w t - (if cmt = SLOW_CMT then {#(1 - site, lock_key key)#} else {#}))"
proof -
  let ?w1 = "w\<lparr>committedVTS := (committedVTS w)(site := next_ver site (committedVTS w site))\<rparr>"
  have "list_at (view (servers w site)) key = Some hist" using h by (simp add: history_def)
  from up_rpush [OF up this, of "cstring js"] obtain s2 where
    r: "redis [''RPUSH'', key, cstring js] (servers w site) = (Some (RInt (int (length hist) + 1)), s2)"
    "view s2 = (view (servers w site))(key \<mapsto> Lst (hist @ [cstring js]))" .
  obtain a where a: "strncpy0 MAX_KEY_LEN key (length key) = Some a" using k(1) by (simp add: strncpy0_def MAX_KEY_LEN_def)
  obtain b where b: "strncpy0 MAX_VALUE_LEN js (length js) = Some b" using j(2) by (simp add: strncpy0_def)
  have nul: "NUL \<in> set a" "length (cstring js) < MAX_VALUE_LEN \<longrightarrow> NUL \<in> set b"
    using strncpy0_key(1) [OF a k] b by (auto simp: strncpy0_def split: if_splits)
  let ?m = "\<lparr>m_commit_type = cmt, m_key_len = length key, m_value_len = length js, m_key = a, m_value = b\<rparr>"
  have e: "message_entry ?m = (key, cstring js)" "message_lock (1 - site) ?m = (if cmt = SLOW_CMT then {#(1 - site, lock_key key)#} else {#})"
    using strncpy0_key(2) [OF a k, of b] strncpy0_value [OF b] by (simp_all add: message_entry_def message_key_def message_lock_def)
  let ?w' = "?w1\<lparr>servers := (servers w)(site := s2), msg_list := (msg_list w)(site := msg_list w site @ [?m]),
    held := (held w)(t := held w t - message_lock (1 - site) ?m)\<rparr>"
  have "runs redis t site (bindP (record_commit J site cmt key x) f) w q v" if "runs redis t site (f ()) ?w' q v" for f q v
    unfolding record_commit_def bindP.simps
    by (rule runs_Increment [OF s n], simp add: j(1) from_option_def, rule runs_Redis)
      (use r that a b in \<open>simp_all add: server_of_def rep_msg_t_def from_option_def after_command_def, auto intro!: runs_Push\<close>)
  then show ?thesis
    by (intro exI [of _ ?w']) (use e r(2) h nul in \<open>auto simp: committed_at_def history_def list_at_def\<close>)
qed

lemma counter_incremented: "counter st k n \<Longrightarrow> n + 1 < 2 ^ 63 \<Longrightarrow> counter (st(k \<mapsto> Str (signed_decimal (n + 1)))) k (n + 1)"
  by (simp add: counter_def)

lemma counter_reset: "counter (st(k \<mapsto> Str ''0'')) k 0"
proof -
  have "signed_decimal 0 = ''0''" by (simp add: signed_decimal_def decimal.simps digit_char_def char_of_def bit_0)
  then show ?thesis by (simp add: counter_def)
qed

lemma key_not_own_lock: "key \<noteq> lock_key key"
  by (simp add: lock_key_def)

definition rejected_at :: "('s \<Rightarrow> redis_store) \<Rightarrow> 's psi_state \<Rightarrow> 's psi_state \<Rightarrow> bool" where
  \<comment> \<open>no history, no version and no message has changed\<close>
  "rejected_at view w w' \<longleftrightarrow>
     (\<forall>i k. \<not> is_lock k \<longrightarrow> view (servers w' i) k = view (servers w i) k) \<and> committedVTS w' = committedVTS w \<and> msg_list w' = msg_list w \<and>
     network w' = network w \<and> main_thread w' = main_thread w \<and> replicater_thread w' = replicater_thread w"

text \<open>
  A fast commit of a diary, alone at the site with a Redis server that answers.
\<close>

lemma fast_commit_outcome:
  assumes up: "redis_up redis view" and s: "site \<in> sites" and i: "int32 (ob_id d)"
    and h: "history view w site (diary_key (ob_id d)) = Some hist" and v: "\<forall>e\<in>set hist. object_ver J e \<noteq> None"
    and c: "counter (view (servers w site)) (lock_key (diary_key (ob_id d))) n" "0 \<le> n" "n + 1 < 2 ^ 63"
    and o: "own site (committedVTS w site) < 2 ^ 31 - 1"
    and j: "dump J (diary_json (d\<lparr>ob_ver := next_ver site (committedVTS w site)\<rparr>)) = Some js" "length js \<le> MAX_VALUE_LEN"
  shows "\<exists>w'. let ok = (n = 0 \<and> covers_all (object_ver J) start hist) in
    runs redis t site (fast_commit J site start (DIARY d)) w (Return ok) w' \<and>
    (if ok then committed_at view FAST_CMT site (diary_key (ob_id d)) (cstring js) w w' else rejected_at view w w') \<and>
    counter (view (servers w' site)) (lock_key (diary_key (ob_id d))) (if n = 0 then 0 else n + 1) \<and>
    (\<forall>i. i \<noteq> site \<longrightarrow> servers w' i = servers w i) \<and> held w' = held w"
proof -
  let ?k = "diary_key (ob_id d)"
  let ?l = "lock_key ?k"
  have hk: "history_key (DIARY d) = ?k" by (simp add: history_key_def diary_key_def)
  from up_incr [OF up c(1,3)] obtain s1 where
    r1: "redis [''INCR'', ?l] (servers w site) = (Some (RInt (n + 1)), s1)" "view s1 = (view (servers w site))(?l \<mapsto> Str (signed_decimal (n + 1)))" .
  have c1: "counter (view s1) ?l (n + 1)" using counter_incremented [OF c(1,3)] by (simp add: r1(2))
  show ?thesis
  proof (cases "n = 0")
    case False
    let ?w1 = "w\<lparr>servers := (servers w)(site := s1), held := (held w)(t := held w t)\<rparr>"
    have "runs redis t site (fast_commit J site start (DIARY d)) w (Return False) ?w1"
      unfolding fast_commit_def Let_def hk acquire_lock_def bindP.simps
      by (rule runs_Redis) (use r1 False in \<open>auto simp: server_of_def deref_def after_command_def intro!: runs.stop\<close>)
    moreover have "rejected_at view w ?w1" using r1(2) by (auto simp: rejected_at_def)
    ultimately show ?thesis using False c1 by (intro exI [of _ ?w1]) simp
  next
    case True
    let ?w1 = "w\<lparr>servers := (servers w)(site := s1), held := (held w)(t := add_mset (site, ?l) (held w t))\<rparr>"
    have "list_at (view s1) ?k = Some hist" using h key_not_own_lock [of ?k] by (simp add: r1(2) list_at_def history_def)
    from up_lrange [OF up this] obtain s2 where
      r2: "redis [''LRANGE'', ?k, ''0'', ''-1''] s1 = (Some (RArray (map RString hist)), s2)" "view s2 = view s1" .
    let ?w2 = "w\<lparr>servers := (servers w)(site := s2), held := (held w)(t := add_mset (site, ?l) (held w t))\<rparr>"
    let ?finish = "\<lambda>b. bindP (release_lock ?l) (\<lambda>_. Return b)"
    have start: "runs redis t site (fast_commit J site start (DIARY d)) w q w'"
      if "runs redis t site (if covers_all (object_ver J) start hist
        then bindP (record_commit J site FAST_CMT ?k (DIARY d)) (\<lambda>_. ?finish True) else ?finish False) ?w2 q w'" for q w'
      unfolding fast_commit_def Let_def hk acquire_lock_def bindP.simps
      by (rule runs_Redis, use r1 True in \<open>simp add: server_of_def\<close>,
          simp add: deref_def after_command_def server_of_def, rule runs_Redis)
        (use r2 that conflict_covers [OF v, of start] in \<open>auto simp: server_of_def deref_def after_command_def when_free_def reply_elements_def split: if_splits\<close>)
    have fin: "\<exists>w'. runs redis t site (?finish b) x (Return b) w' \<and> view (servers w' site) = (view (servers x site))(?l \<mapsto> Str ''0'') \<and>
        w' = x\<lparr>servers := servers w', held := held w'\<rparr> \<and> (\<forall>i. i \<noteq> site \<longrightarrow> servers w' i = servers x i) \<and> held w' = (held x)(t := held x t - {#(site, ?l)#})"
      for b x
    proof -
      from up_set [OF up, of ?l "''0''" "servers x site"] obtain s3 where
        r3: "redis [''SET'', ?l, ''0''] (servers x site) = (Some (RStatus ''OK''), s3)" "view s3 = (view (servers x site))(?l \<mapsto> Str ''0'')" .
      show ?thesis unfolding release_lock_def bindP.simps
        by (rule exI, rule conjI, rule runs_Redis) (use r3 in \<open>auto simp: server_of_def after_command_def intro!: runs.stop\<close>)
    qed
    show ?thesis
    proof (cases "covers_all (object_ver J) start hist")
      case False
      from fin [of False ?w2] obtain w' where w': "runs redis t site (?finish False) ?w2 (Return False) w'"
        "view (servers w' site) = (view s2)(?l \<mapsto> Str ''0'')" "w' = ?w2\<lparr>servers := servers w', held := held w'\<rparr>"
        "\<forall>i. i \<noteq> site \<longrightarrow> servers w' i = servers w i" "held w' = held w" by auto
      have "view (servers w' i) k = view (servers w i) k" if "\<not> is_lock k" for i k
      proof -
        have "k \<noteq> ?l" using that by auto
        then show ?thesis using w'(2,4) r1(2) r2(2) by (cases "i = site") simp_all
      qed
      moreover have "committedVTS w' = committedVTS w" "msg_list w' = msg_list w" "network w' = network w" "main_thread w' = main_thread w"
        "replicater_thread w' = replicater_thread w" by (subst w'(3), simp)+
      ultimately have "rejected_at view w w'" by (simp add: rejected_at_def)
      with start [of "Return False" w'] w' False show ?thesis using counter_reset True by (intro exI [of _ w']) simp
    next
      case cov: True
      have o2: "own site (committedVTS ?w2 site) < 2 ^ 31 - 1" and j2: "dump J (obj_json (set_ver (next_ver site (committedVTS ?w2 site)) (DIARY d))) = Some js"
        and h2: "history view ?w2 site ?k = Some hist"
        using o j(1) h key_not_own_lock [of ?k] by (simp_all add: obj_json_def set_ver_def history_def r2(2) r1(2) list_at_def)
      from record_commit_runs [OF up s keys_fit(1,3) [OF i] h2 o2 j2 j(2), of t FAST_CMT] obtain w3 where
        w3: "\<And>(f :: unit \<Rightarrow> bool prog) q v. runs redis t site (f ()) w3 q v \<Longrightarrow> runs redis t site (bindP (record_commit J site FAST_CMT ?k (DIARY d)) f) ?w2 q v"
        "committed_at view FAST_CMT site ?k (cstring js) ?w2 w3" "\<forall>i. i \<noteq> site \<longrightarrow> servers w3 i = servers ?w2 i" "held w3 = held ?w2" by auto
      from fin [of True w3] obtain w' where w': "runs redis t site (?finish True) w3 (Return True) w'"
        "view (servers w' site) = (view (servers w3 site))(?l \<mapsto> Str ''0'')" "w' = w3\<lparr>servers := servers w', held := held w'\<rparr>"
        "\<forall>i. i \<noteq> site \<longrightarrow> servers w' i = servers w3 i" "held w' = (held w3)(t := held w3 t - {#(site, ?l)#})" by blast
      have f: "committedVTS w' = committedVTS w3" "msg_list w' = msg_list w3" "network w' = network w3" "main_thread w' = main_thread w3"
        "replicater_thread w' = replicater_thread w3" by (subst w'(3), simp)+
      have "history view w3 site ?k = Some (hist @ [cstring js])" using w3(2) h2 unfolding committed_at_def by blast
      then have h': "history view w' site ?k = Some (hist @ [cstring js])"
        using key_not_own_lock [of ?k] by (simp add: history_def w'(2) list_at_def)
      have "committed_at view FAST_CMT site ?k (cstring js) w w'"
        using w3(2) h' h f by (simp add: committed_at_def)
      moreover have "runs redis t site (fast_commit J site start (DIARY d)) w (Return True) w'"
        by (rule start) (use w3(1) [of "\<lambda>_. ?finish True" "Return True" w', OF w'(1)] cov in simp)
      ultimately show ?thesis using True cov w' w3(3,4) counter_reset by (intro exI [of _ w']) simp
    qed
  qed
qed

subsection \<open>Requests with forms\<close>

lemma runs_bind:
  "runs redis t site p w q w1 \<Longrightarrow> runs redis t site (bindP q f) w1 q' w2 \<Longrightarrow> runs redis t site (bindP p f) w q' w2"
proof (induction rule: runs.induct)
  case (step p w p1 w1 p2 w2)
  have "act redis t site (bindP p f) w = Some (bindP p1 f, w1)"
    using step.hyps(1) by (cases p) (auto simp: Let_def split: if_splits prod.splits)
  then show ?case using step.IH [OF step.prems] by (rule runs.step)
qed

definition form_value :: "(char list \<times> char list) list \<Rightarrow> char list \<Rightarrow> char list option" where
  \<comment> \<open>the first value with this name\<close>
  "form_value ps name = map_of (map (\<lambda>(k, v). (lower k, v)) ps) (lower name)"

definition form_ok :: "(char list \<times> char list) list \<Rightarrow> bool" where
  "form_ok ps \<longleftrightarrow> (\<forall>(k, v)\<in>set ps. var_name k)"

lemma form_var_value:
  assumes "form_ok ps" and "var_name name" and "form_value ps name = Some v" and "length v < n" and "n \<le> 2 ^ 16"
  shows "\<exists>r. form_var stack (form_body ps) b n name = Return (v @ NUL # r)"
proof -
  let ?dst = "map (stack b) [0..<n]"
  have "ps \<noteq> []" "0 < length ?dst" using assms(3,4) by (auto simp: form_value_def)
  moreover have "length ?dst < 2 ^ 31" "length (mg_url_encode v) < 2 ^ 31" using length_url_encode [of v] assms(4,5) by simp_all
  ultimately obtain len dst where
    g: "mg_get_http_var (Some (form_body ps)) name ?dst = Inr (len, dst)" "take (Suc (length v)) dst = v @ [NUL]" "length dst = n"
    using http_var_lookup [OF assms(2), of ps ?dst] assms(1,3,4) by (auto simp: form_ok_def form_value_def)
  then have "dst = v @ NUL # drop (Suc (length v)) dst" by (metis append_Cons append_assoc append_self_conv2 append_take_drop_id)
  then show ?thesis using g(1) by (auto simp: form_var_def)
qed

lemma string_of_buffer [simp]: "NUL \<notin> set v \<Longrightarrow> c_string_at (v @ NUL # r) = Return v"
proof -
  assume "NUL \<notin> set v"
  then have c: "c \<in> set v \<Longrightarrow> c \<noteq> NUL" for c by metis
  have "takeWhile (\<lambda>c. c \<noteq> NUL) (v @ NUL # r) = v @ takeWhile (\<lambda>c. c \<noteq> NUL) (NUL # r)"
    by (rule takeWhile_append2) (rule c)
  then show ?thesis by (simp add: c_string_at_def cstring_def)
qed

lemma atoi_of_buffer [simp]:
  assumes "int32 i"
  shows "c_atoi (signed_decimal i @ NUL # r) = Return i"
proof -
  have dig: "takeWhile is_digit (decimal n @ NUL # r) = decimal n" "dropWhile is_digit (decimal n @ NUL # r) = NUL # r" for n
  proof -
    have a: "c \<in> set (decimal n) \<Longrightarrow> is_digit c" for c by (rule decimal_digits)
    have n: "\<not> is_digit NUL" by (simp add: is_digit_def)
    show "takeWhile is_digit (decimal n @ NUL # r) = decimal n" "dropWhile is_digit (decimal n @ NUL # r) = NUL # r"
      using takeWhile_append2 [of "decimal n" is_digit "NUL # r", OF a] dropWhile_append2 [of "decimal n" is_digit "NUL # r", OF a] n by simp_all
  qed
  have sp: "dropWhile isspace (decimal n @ NUL # r) = decimal n @ NUL # r" and
    sg: "(case decimal n @ NUL # r of [] \<Rightarrow> (False, []) | c # cs \<Rightarrow> if c = CHR ''-'' then (True, cs) else if c = CHR ''+'' then (False, cs) else (False, decimal n @ NUL # r))
      = (False, decimal n @ NUL # r)" for n
  proof -
    obtain d ds where d: "decimal n = d # ds" "is_digit d" using decimal_nonempty [of n] decimal_digits [of _ n] by (cases "decimal n") auto
    have ns: "\<not> isspace d" "d \<noteq> CHR ''-''" "d \<noteq> CHR ''+''" using d(2) by (auto simp: is_digit_def isspace_def)
    show "dropWhile isspace (decimal n @ NUL # r) = decimal n @ NUL # r" using ns d(1) by simp
    show "(case decimal n @ NUL # r of [] \<Rightarrow> (False, []) | c # cs \<Rightarrow> if c = CHR ''-'' then (True, cs) else if c = CHR ''+'' then (False, cs) else (False, decimal n @ NUL # r))
      = (False, decimal n @ NUL # r)" using ns d(1) by simp
  qed
  have m: "\<not> isspace (CHR ''-'')" "\<not> is_digit NUL" by (simp_all add: isspace_def is_digit_def)
  have "strtol10 (signed_decimal i @ NUL # r) = Inr i"
  proof (cases "i < 0")
    case True
    then have "signed_decimal i @ NUL # r = CHR ''-'' # decimal (nat (- i)) @ NUL # r" by (simp add: signed_decimal_def)
    then show ?thesis using True assms dig [of "nat (- i)"] m by (simp add: strtol10_def Let_def int32_def)
  next
    case False
    then have "signed_decimal i @ NUL # r = decimal (nat i) @ NUL # r" by (simp add: signed_decimal_def)
    then show ?thesis using False assms dig [of "nat i"] sp [of "nat i"] sg [of "nat i"] m unfolding strtol10_def by (simp add: Let_def int32_def)
  qed
  then show ?thesis using assms to_int32_id [of i] by (simp add: c_atoi_def int32_def)
qed

lemma edit_names [simp]:
  "var_name ''diary_id''" "var_name ''user_id''" "var_name ''content''" "var_name ''ver1''" "var_name ''ver2''"
  by (simp_all add: var_name_def)

definition edit_form :: "(char list \<times> char list) list \<Rightarrow> diary \<Rightarrow> bool" where
  \<comment> \<open>the form asks to store this diary, which started from its version\<close>
  "edit_form ps d \<longleftrightarrow> form_ok ps \<and> form_value ps ''diary_id'' = Some (signed_decimal (ob_id d)) \<and> form_value ps ''user_id'' = Some (d_user d) \<and>
     form_value ps ''content'' = Some (d_content d) \<and> form_value ps ''ver1'' = Some (signed_decimal (fst (ob_ver d))) \<and>
     form_value ps ''ver2'' = Some (signed_decimal (snd (ob_ver d))) \<and> int32 (ob_id d) \<and> int32 (fst (ob_ver d)) \<and> int32 (snd (ob_ver d)) \<and>
     length (d_user d) < 16 \<and> NUL \<notin> set (d_user d) \<and> length (d_content d) < 1024 \<and> NUL \<notin> set (d_content d)"

definition success_answer :: "bool \<Rightarrow> answer" where
  "success_answer ok = Answer (response (if ok then ''{ \"success\": 1 }'' else ''{ \"success\": 0 }''))"

lemma edit_request:
  assumes "edit_form ps d"
  shows "ev_handler J site stack (d_utime d) success ''/api/edit_diary'' (form_body ps) =
    bindP (if site = PREFER_SITE (ob_id d) then fast_commit J site (ob_ver d) (DIARY d) else slow_commit J site (ob_ver d) (DIARY d))
      (\<lambda>ok. Return (success_answer ok))"
proof -
  have n: "(16 :: nat) \<le> 2 ^ 16" "(1024 :: nat) \<le> 2 ^ 16" by simp_all
  have v: "length (signed_decimal i) < 16" if "int32 i" for i using signed_decimal_length [OF that] by simp
  note f = assms [unfolded edit_form_def]
  obtain r1 where r1: "form_var stack (form_body ps) ''diary_id'' 16 ''diary_id'' = Return (signed_decimal (ob_id d) @ NUL # r1)"
    using form_var_value [of ps, OF _ edit_names(1)] f v n by blast
  obtain r2 where r2: "form_var stack (form_body ps) ''user'' 16 ''user_id'' = Return (d_user d @ NUL # r2)"
    using form_var_value [of ps, OF _ edit_names(2)] f n by blast
  obtain r3 where r3: "form_var stack (form_body ps) ''content'' 1024 ''content'' = Return (d_content d @ NUL # r3)"
    using form_var_value [of ps, OF _ edit_names(3)] f n by blast
  obtain r4 where r4: "form_var stack (form_body ps) ''ver1'' 16 ''ver1'' = Return (signed_decimal (fst (ob_ver d)) @ NUL # r4)"
    using form_var_value [of ps, OF _ edit_names(4)] f v n by blast
  obtain r5 where r5: "form_var stack (form_body ps) ''ver2'' 16 ''ver2'' = Return (signed_decimal (snd (ob_ver d)) @ NUL # r5)"
    using form_var_value [of ps, OF _ edit_names(5)] f v n by blast
  have d: "\<lparr>ob_id = ob_id d, ob_ver = ob_ver d, d_user = d_user d, d_content = d_content d, d_utime = d_utime d\<rparr> = d"
    by (cases d) simp
  have e: "handle_edit_diary J site stack (d_utime d) (form_body ps) =
      bindP (if site = PREFER_SITE (ob_id d) then fast_commit J site (ob_ver d) (DIARY d) else slow_commit J site (ob_ver d) (DIARY d))
        (\<lambda>success. Return (response (if success then ''{ \"success\": 1 }'' else ''{ \"success\": 0 }'')))"
    unfolding handle_edit_diary_def r1 r2 r3 r4 r5 bindP.simps using f by (simp add: Let_def d)
  have b: "bindP (bindP p g) h = bindP p (\<lambda>x. bindP (g x) h)" for p :: "'x prog" and g :: "'x \<Rightarrow> 'y prog" and h :: "'y \<Rightarrow> 'z prog"
    by (induction p) auto
  show ?thesis by (simp add: ev_handler_def Let_def mg_vcmp_eq e b success_answer_def)
qed

text \<open>
  C3. An edit of a diary is committed: the form posted to a site that its diary prefers, where nothing else
  runs and Redis answers, is decoded and committed. The answer reports success if and only if the lock was
  free and the version in the form covers every version in the history; then the diary with the
  next version of the site is the last entry of the history, its message waits in \<open>msg_list\<close> and the
  version is counted. Otherwise nothing but the lock has changed. A lock that was free is free
  again.
\<close>

theorem edit_is_committed:
  assumes "edit_form ps d" and "site = PREFER_SITE (ob_id d)" and "site \<in> sites" and "redis_up redis view"
    and "history view w site (diary_key (ob_id d)) = Some hist" and "\<forall>e\<in>set hist. object_ver J e \<noteq> None"
    and "counter (view (servers w site)) (lock_key (diary_key (ob_id d))) n" and "0 \<le> n" and "n + 1 < 2 ^ 63"
    and "own site (committedVTS w site) < 2 ^ 31 - 1"
    and "dump J (diary_json (d\<lparr>ob_ver := next_ver site (committedVTS w site)\<rparr>)) = Some js" and "length js \<le> MAX_VALUE_LEN"
  shows "\<exists>w'. let ok = (n = 0 \<and> covers_all (object_ver J) (ob_ver d) hist) in
    runs redis t site (ev_handler J site stack (d_utime d) success ''/api/edit_diary'' (form_body ps)) w (Return (success_answer ok)) w' \<and>
    (if ok then committed_at view FAST_CMT site (diary_key (ob_id d)) (cstring js) w w' else rejected_at view w w') \<and>
    counter (view (servers w' site)) (lock_key (diary_key (ob_id d))) (if n = 0 then 0 else n + 1) \<and>
    (\<forall>i. i \<noteq> site \<longrightarrow> servers w' i = servers w i) \<and> held w' = held w"
proof -
  let ?ok = "n = 0 \<and> covers_all (object_ver J) (ob_ver d) hist"
  have "int32 (ob_id d)" using assms(1) by (simp add: edit_form_def)
  from fast_commit_outcome [OF assms(4,3) this assms(5-12), of "ob_ver d" t] obtain w' where
    w': "runs redis t site (fast_commit J site (ob_ver d) (DIARY d)) w (Return ?ok) w'"
    "if ?ok then committed_at view FAST_CMT site (diary_key (ob_id d)) (cstring js) w w' else rejected_at view w w'"
    "counter (view (servers w' site)) (lock_key (diary_key (ob_id d))) (if n = 0 then 0 else n + 1)"
    "\<forall>i. i \<noteq> site \<longrightarrow> servers w' i = servers w i" "held w' = held w" unfolding Let_def by blast
  have "runs redis t site (ev_handler J site stack (d_utime d) success ''/api/edit_diary'' (form_body ps)) w (Return (success_answer ?ok)) w'"
    unfolding edit_request [OF assms(1)] using assms(2)
    by (intro runs_bind [OF _ runs.stop, where q = "Return ?ok" and f = "\<lambda>ok. Return (success_answer ok)", simplified bindP.simps])
      (use w'(1) in simp)
  with w' show ?thesis unfolding Let_def by blast
qed

subsection \<open>Reading a diary\<close>

definition stored_diaries :: "json_lib \<Rightarrow> char list list \<Rightarrow> diary list \<Rightarrow> bool" where
  "stored_diaries J hist ds \<longleftrightarrow> map (\<lambda>s. Option.bind (parse J (cstring s)) diary_of_json) hist = map Some ds"

lemma latest_diary_sorted:
  "stored_diaries J hist ds \<Longrightarrow> sorted_wrt (\<lambda>a b. covers (ob_ver b) (ob_ver a)) ds \<Longrightarrow> \<forall>d\<in>set ds. covers (ob_ver d) mv \<Longrightarrow>
    latest_diary J (map RString hist) i mv mi hl = Inr (if ds = [] then mi else i + length ds - 1, hl @ ds)"
proof (induction hist arbitrary: ds i mv mi hl)
  case (Cons s hist)
  then obtain d ds' where ds: "ds = d # ds'" "Option.bind (parse J (cstring s)) diary_of_json = Some d" "stored_diaries J hist ds'"
    by (cases ds) (auto simp: stored_diaries_def)
  have "latest_diary J (map RString hist) (Suc i) (ob_ver d) i (hl @ [d]) = Inr (if ds' = [] then i else Suc i + length ds' - 1, (hl @ [d]) @ ds')"
    by (rule Cons.IH [OF ds(3)]) (use Cons.prems(2) ds(1) in auto)
  moreover have "covers (ob_ver d) mv" using Cons.prems(3) ds(1) by simp
  ultimately show ?case using ds(1,2) by (simp add: reply_str_def covers_def)
qed (simp add: stored_diaries_def)

definition content_result :: "json_lib \<Rightarrow> diary list \<Rightarrow> answer prog" where
  \<comment> \<open>the answer with the last of these diaries\<close>
  "content_result J ds =
     (if ds = [] then Crash BadIndex
      else case dump J (diary_json (last ds)) of None \<Rightarrow> Crash JsonException | Some s \<Rightarrow> Return (Answer (response (cstring s))))"

lemma content_runs:
  assumes f: "form_ok ps" "form_value ps ''diary_id'' = Some x" "NUL \<notin> set x" "length x \<le> 10" and up: "redis_up redis view"
    and h: "history view w site (''diary_'' @ x) = Some hist" and l: "latest_diary J (map RString hist) 0 (0, 0) 0 [] = Inr (mi, hl)"
  shows "\<exists>w'. runs redis t site (ev_handler J site stack utime success ''/api/get_diary_content'' (form_body ps)) w
      (if mi < length hl then bindP (from_option JsonException (dump J (diary_json (hl ! mi)))) (\<lambda>s. Return (Answer (response (cstring s)))) else Crash BadIndex) w' \<and>
    (\<forall>i. view (servers w' i) = view (servers w i)) \<and> w' = w\<lparr>servers := servers w'\<rparr>"
proof -
  have "list_at (view (servers w site)) (''diary_'' @ x) = Some hist" using h by (simp add: history_def)
  from up_lrange [OF up this] obtain s where
    r: "redis [''LRANGE'', ''diary_'' @ x, ''0'', ''-1''] (servers w site) = (Some (RArray (map RString hist)), s)" "view s = view (servers w site)" .
  have "length x < 100" "(100 :: nat) \<le> 2 ^ 16" using f(4) by simp_all
  with form_var_value [of ps, OF f(1) edit_names(1) f(2)] obtain q where
    q: "form_var stack (form_body ps) ''d_id'' 100 ''diary_id'' = Return (x @ NUL # q)" by blast
  have c: "take 10 (cstring (x @ NUL # q)) = x"
    using string_of_buffer [OF f(3), of q] f(4) by (simp add: c_string_at_def)
  let ?w' = "w\<lparr>servers := (servers w)(site := s)\<rparr>"
  let ?rest = "\<lambda>r. bindP (deref r (\<lambda>r. case (if r = RNil then Inr (0, []) else latest_diary J (reply_elements r) 0 (0, 0) 0 []) of
      Inl c \<Rightarrow> Crash c
    | Inr (mi, hl) \<Rightarrow>
        if mi < length hl then bindP (from_option JsonException (dump J (diary_json (hl ! mi)))) (\<lambda>s. Return (response (cstring s)))
        else Crash BadIndex)) (\<lambda>s. Return (Answer s))"
  have e: "ev_handler J site stack utime success ''/api/get_diary_content'' (form_body ps) = Redis Cli [''LRANGE'', ''diary_'' @ x, ''0'', ''-1''] ?rest"
    by (simp add: ev_handler_def Let_def mg_vcmp_eq handle_get_diary_content_def q c)
  have k: "?rest (Some (RArray (map RString hist))) =
      (if mi < length hl then bindP (from_option JsonException (dump J (diary_json (hl ! mi)))) (\<lambda>s. Return (Answer (response (cstring s)))) else Crash BadIndex)"
    by (simp add: deref_def reply_elements_def l from_option_def split: option.split)
  have "runs redis t site (Redis Cli [''LRANGE'', ''diary_'' @ x, ''0'', ''-1''] ?rest) w (?rest (Some (RArray (map RString hist)))) ?w'"
    using runs_read [of redis "[''LRANGE'', ''diary_'' @ x, ''0'', ''-1'']" w site Cli _ _ t ?rest] r by (simp add: server_of_def after_command_def)
  then show ?thesis unfolding e k by (intro exI [of _ ?w']) (use r(2) in simp)
qed

text \<open>
  C4. Reading a diary whose versions grow: when every version in the history covers the versions
  before it, the request answers with the last entry; a diary that does not exist makes the
  server read the first element of an empty vector.
\<close>

theorem content_request:
  assumes "form_ok ps" and "form_value ps ''diary_id'' = Some x" and "NUL \<notin> set x" and "length x \<le> 10" and "redis_up redis view"
    and "history view w site (''diary_'' @ x) = Some hist" and "stored_diaries J hist ds"
    and "sorted_wrt (\<lambda>a b. covers (ob_ver b) (ob_ver a)) ds" and "\<forall>d\<in>set ds. covers (ob_ver d) (0, 0)"
  shows "\<exists>w'. runs redis t site (ev_handler J site stack utime success ''/api/get_diary_content'' (form_body ps)) w (content_result J ds) w' \<and>
    (\<forall>i. view (servers w' i) = view (servers w i)) \<and> w' = w\<lparr>servers := servers w'\<rparr>"
proof -
  have "content_result J ds = (if (if ds = [] then 0 else 0 + length ds - 1) < length ([] @ ds)
      then bindP (from_option JsonException (dump J (diary_json (([] @ ds) ! (if ds = [] then 0 else 0 + length ds - 1))))) (\<lambda>s. Return (Answer (response (cstring s))))
      else Crash BadIndex)"
    by (simp add: content_result_def from_option_def last_conv_nth split: option.split)
  with content_runs [OF assms(1-6) latest_diary_sorted [OF assms(7-9)], of t stack utime success] show ?thesis by simp
qed

fun candidates :: "diary list \<Rightarrow> nat \<Rightarrow> psi_ver_t \<Rightarrow> nat \<Rightarrow> diary list \<Rightarrow> nat \<times> diary list" where
  \<comment> \<open>the loop of \<open>handle_get_diary_content\<close> on diaries\<close>
  "candidates [] i mv mi hl = (mi, hl)"
| "candidates (d # ds) i mv mi hl =
     (if covers (ob_ver d) mv then candidates ds (Suc i) (ob_ver d) i (hl @ [d]) else candidates ds (Suc i) mv mi hl)"

lemma latest_diary_candidates:
  "stored_diaries J hist ds \<Longrightarrow> latest_diary J (map RString hist) i mv mi hl = Inr (candidates ds i mv mi hl)"
proof (induction hist arbitrary: ds i mv mi hl)
  case (Cons s hist)
  then obtain d ds' where ds: "ds = d # ds'" "Option.bind (parse J (cstring s)) diary_of_json = Some d" "stored_diaries J hist ds'"
    by (cases ds) (auto simp: stored_diaries_def)
  then show ?case using Cons.IH [OF ds(3)] by (simp add: reply_str_def covers_def)
qed (simp add: stored_diaries_def)

definition behind_end :: "nat \<times> diary list \<Rightarrow> bool" where
  "behind_end r \<longleftrightarrow> length (snd r) \<le> fst r"

lemma covers_trans: "covers c b \<Longrightarrow> covers b a \<Longrightarrow> covers c a"
  by (auto simp: covers_def)

lemma stays_behind: "length hl \<le> mi \<Longrightarrow> mi < i \<Longrightarrow> behind_end (candidates ds i mv mi hl)"
  by (induction ds arbitrary: i mv mi hl) (auto simp: behind_end_def)

lemma behind_after_skip:
  "length hl < i \<Longrightarrow> covers (ob_ver d) mv \<Longrightarrow> \<forall>x\<in>set cs. covers (ob_ver d) (ob_ver x) \<Longrightarrow> behind_end (candidates (cs @ d # es) i mv mi hl)"
proof (induction cs arbitrary: i mv mi hl)
  case Nil
  then show ?case using stays_behind [of "hl @ [d]" i "Suc i"] by simp
next
  case (Cons c cs)
  show ?case
  proof (cases "covers (ob_ver c) mv")
    case True
    then show ?thesis using stays_behind [of "hl @ [c]" i "Suc i"] Cons.prems(1) by simp
  qed (use Cons in simp)
qed

lemma behind_not_covering:
  "length hl \<le> i \<Longrightarrow> \<not> covers (ob_ver b) mv \<Longrightarrow> covers (ob_ver d) mv \<Longrightarrow> \<forall>x\<in>set (bs @ b # cs). covers (ob_ver d) (ob_ver x) \<Longrightarrow>
    behind_end (candidates (bs @ b # cs @ d # es) i mv mi hl)"
proof (induction bs arbitrary: i mv mi hl)
  case (Cons c bs)
  show ?case
  proof (cases "covers (ob_ver c) mv")
    case True
    with Cons.prems(2) have "\<not> covers (ob_ver b) (ob_ver c)" using covers_trans by blast
    with Cons.IH [of "hl @ [c]" "Suc i" "ob_ver c" i] Cons.prems True show ?thesis by simp
  next
    case False
    then show ?thesis using behind_after_skip [of hl "Suc i" d mv "bs @ b # cs" es mi] Cons.prems by simp
  qed
qed (simp add: behind_after_skip)

lemma behind_concurrent:
  "length hl \<le> i \<Longrightarrow> \<not> covers (ob_ver b) (ob_ver a) \<Longrightarrow> covers (ob_ver d) mv \<Longrightarrow>
    \<forall>x\<in>set (as @ a # bs @ b # cs). covers (ob_ver d) (ob_ver x) \<Longrightarrow>
    behind_end (candidates (as @ a # bs @ b # cs @ d # es) i mv mi hl)"
proof (induction as arbitrary: i mv mi hl)
  case Nil
  then show ?case using behind_not_covering [of "hl @ [a]" "Suc i" b "ob_ver a" d bs cs es i]
      behind_after_skip [of hl "Suc i" d mv "bs @ b # cs" es mi] by simp
next
  case (Cons c as)
  then show ?case using behind_after_skip [of hl "Suc i" d mv "as @ a # bs @ b # cs" es mi] by simp
qed

text \<open>
  C5. The index of the newest diary is an index into the history, but the vector it is used for leaves
  out the entries whose version does not cover the ones kept before it. So reading fails for good once a version that covers
  all before it follows two versions of which the later does not cover the earlier, as edits of both sites that did
  not see each other leave them: the index then lies behind the end of the vector, whatever is stored afterwards.
\<close>

theorem content_index_bug:
  assumes "form_ok ps" and "form_value ps ''diary_id'' = Some x" and "NUL \<notin> set x" and "length x \<le> 10" and "redis_up redis view"
    and "history view w site (''diary_'' @ x) = Some hist" and "stored_diaries J hist (as @ a # bs @ b # cs @ d # es)"
    and "\<not> covers (ob_ver b) (ob_ver a)" and "covers (ob_ver d) (0, 0)" and "\<forall>x\<in>set (as @ a # bs @ b # cs). covers (ob_ver d) (ob_ver x)"
  shows "\<exists>w'. runs redis t site (ev_handler J site stack utime success ''/api/get_diary_content'' (form_body ps)) w (Crash BadIndex) w'"
proof -
  obtain mi hl where c: "candidates (as @ a # bs @ b # cs @ d # es) 0 (0, 0) 0 [] = (mi, hl)"
    by (cases "candidates (as @ a # bs @ b # cs @ d # es) 0 (0, 0) 0 []")
  have "\<not> mi < length hl" using behind_concurrent [OF _ assms(8,9,10), of "[]" 0 es 0] unfolding c by (simp add: behind_end_def)
  with content_runs [OF assms(1-6) latest_diary_candidates [OF assms(7), of 0 "(0, 0)" 0 "[]", unfolded c], of t stack utime success] show ?thesis by auto
qed

subsection \<open>Both sites\<close>

lemma act_thread:
  "act redis t site p w = Some (p', w') \<Longrightarrow> act redis t site p (w\<lparr>main_thread := x\<rparr>) = Some (p', w'\<lparr>main_thread := x\<rparr>)"
  "act redis t site p w = Some (p', w') \<Longrightarrow> act redis t site p (w\<lparr>replicater_thread := y\<rparr>) = Some (p', w'\<lparr>replicater_thread := y\<rparr>)"
  by (cases p; auto simp: Let_def split: if_splits prod.splits)+

lemma runs_main:
  "runs redis (Main site) site p w q w' \<Longrightarrow> site \<in> sites \<Longrightarrow> mt site = p \<Longrightarrow>
    (psi_step redis J lossy)\<^sup>*\<^sup>* (w\<lparr>main_thread := mt\<rparr>) (w'\<lparr>main_thread := mt(site := q)\<rparr>)"
proof (induction arbitrary: mt rule: runs.induct)
  case (step p w p1 w1 p2 w2)
  have "act redis (Main site) site (main_thread (w\<lparr>main_thread := mt\<rparr>) site) (w\<lparr>main_thread := mt\<rparr>) = Some (p1, w1\<lparr>main_thread := mt\<rparr>)"
    using act_thread(1) [OF step.hyps(1)] step.prems(2) by simp
  from psi_step.main [OF step.prems(1) this, of J lossy]
  have "psi_step redis J lossy (w\<lparr>main_thread := mt\<rparr>) (w1\<lparr>main_thread := mt(site := p1)\<rparr>)" by simp
  moreover have "(psi_step redis J lossy)\<^sup>*\<^sup>* (w1\<lparr>main_thread := mt(site := p1)\<rparr>) (w2\<lparr>main_thread := mt(site := p2)\<rparr>)"
    using step.IH [OF step.prems(1), of "mt(site := p1)", unfolded fun_upd_upd, OF fun_upd_same] .
  ultimately show ?case by (rule converse_rtranclp_into_rtranclp)
qed auto

lemma runs_replicater:
  "runs redis (Replicater site) site p w q w' \<Longrightarrow> site \<in> sites \<Longrightarrow> rt site = p \<Longrightarrow>
    (psi_step redis J lossy)\<^sup>*\<^sup>* (w\<lparr>replicater_thread := rt\<rparr>) (w'\<lparr>replicater_thread := rt(site := q)\<rparr>)"
proof (induction arbitrary: rt rule: runs.induct)
  case (step p w p1 w1 p2 w2)
  have "act redis (Replicater site) site (replicater_thread (w\<lparr>replicater_thread := rt\<rparr>) site) (w\<lparr>replicater_thread := rt\<rparr>) =
      Some (p1, w1\<lparr>replicater_thread := rt\<rparr>)"
    using act_thread(2) [OF step.hyps(1)] step.prems(2) by simp
  from psi_step.replicater [OF step.prems(1) this, of J lossy]
  have "psi_step redis J lossy (w\<lparr>replicater_thread := rt\<rparr>) (w1\<lparr>replicater_thread := rt(site := p1)\<rparr>)" by simp
  moreover have "(psi_step redis J lossy)\<^sup>*\<^sup>* (w1\<lparr>replicater_thread := rt(site := p1)\<rparr>) (w2\<lparr>replicater_thread := rt(site := p2)\<rparr>)"
    using step.IH [OF step.prems(1), of "rt(site := p1)", unfolded fun_upd_upd, OF fun_upd_same] .
  ultimately show ?case by (rule converse_rtranclp_into_rtranclp)
qed auto

text \<open>
  C2. The locks work: in every state that the two sites can reach, whatever their threads do at the
  same time and whatever messages are lost, a lock has at most one owner, a thread or a message on its
  way, and its counter is positive while it has one; a thread sends SET only for a lock that it owns, and
  appends to the history of a diary at the site the diary prefers only while it owns the lock there. This
  holds as long as the two threads of a site were never inside a call with their common connection at the same time. The
  histories of comments are not protected in this way: the replicater appends to them without the lock that
  \<open>fast_commit\<close> takes.
\<close>

theorem locks_are_respected:
  assumes "redis_ok redis view" and "shared_reachable redis J lossy s" and "\<not> raced s" and "site \<in> sites"
  shows "count (owners (world s)) l \<le> 1 \<and> (l \<in># owners (world s) \<longrightarrow> is_lock (snd l) \<and> locked view (world s) l) \<and>
    (\<forall>con args k. main_thread (world s) site = Redis con args k \<longrightarrow> may_send (server_of site con) args (held (world s) (Main site))) \<and>
    (\<forall>con args k. replicater_thread (world s) site = Redis con args k \<longrightarrow> may_send (server_of site con) args (held (world s) (Replicater site)))"
proof -
  let ?w = "world s"
  from assms(2) obtain w0 where "psi_start w0" "(shared_step redis J lossy)\<^sup>*\<^sup>* (alone w0) s" by (auto simp: shared_reachable_def)
  with shared_run_refines [OF _ assms(3)] have "psi_reachable redis J lossy ?w" by (fastforce simp: psi_reachable_def alone_def)
  from psi_inv_reachable [OF assms(1) this] have i: "locks_ok view ?w" "threads_ok ?w" by (simp_all add: psi_inv_def)
  have "count (owners ?w) l \<le> 1" using i(1) by (cases l) (simp add: locks_ok_def)
  moreover have "l \<in># owners ?w \<longrightarrow> is_lock (snd l) \<and> locked view ?w l" using i(1) by (simp add: locks_ok_def)
  ultimately show ?thesis using i(2) assms(4) by (auto simp: threads_ok_def disciplined.simps(3))
qed

text \<open>
  C1. The sites converge: if no message is lost and Redis answers, then whenever no thread has anything to
  do and no message is on its way, both sites hold the same entries in every history and have counted
  the same commits, however the threads of the two sites were interleaved before. The order of the entries
  may differ. This holds as long as the two threads of a site were never inside a call with their common
  connection at the same time, which nothing in the program prevents.
\<close>

theorem replicas_converge:
  assumes "redis_up redis view" and "psi_start w0" and "same_histories view w0" and "(shared_step redis J False)\<^sup>*\<^sup>* (alone w0) s"
    and "\<not> raced s" and "quiet (world s)"
  shows "same_histories view (world s) \<and> committedVTS (world s) 0 = committedVTS (world s) 1"
proof -
  have "(psi_step redis J False)\<^sup>*\<^sup>* w0 (world s)" using shared_run_refines [OF assms(4,5)] by (simp add: alone_def)
  from quiet_converged [OF repl_inv_run [OF this assms(1) repl_inv_start [OF assms(2,3)]] assms(6)] show ?thesis by blast
qed

subsection \<open>Examples\<close>

definition demo_diary :: "int \<Rightarrow> int \<Rightarrow> diary" where
  "demo_diary v1 v2 = \<lparr>ob_id = 2, ob_ver = (v1, v2), d_user = ''u'', d_content = ''c'', d_utime = 0\<rparr>"

definition demo_json :: json_lib where
  \<comment> \<open>four texts that can be parsed, and a printer that always prints the same\<close>
  "demo_json =
     \<lparr>dump = (\<lambda>_. Some ''{}''),
      parse = map_of [(''a'', diary_json (demo_diary 0 0)), (''b'', diary_json (demo_diary 1 0)),
        (''c'', diary_json (demo_diary 0 1)), (''d'', diary_json (demo_diary 1 1))]\<rparr>"

lemma diary_json_round_trip:
  "int32 (ob_id d) \<Longrightarrow> int32 (fst (ob_ver d)) \<Longrightarrow> int32 (snd (ob_ver d)) \<Longrightarrow> d_utime d < 2 ^ 64 \<Longrightarrow> diary_of_json (diary_json d) = Some d"
  using to_int32_id [of "ob_id d"] to_int32_id [of "fst (ob_ver d)"] to_int32_id [of "snd (ob_ver d)"]
  by (cases d) (auto simp: diary_of_json_def diary_json_def object_of_json_def object_json_def get_integer_def get_string_def int32_def)

lemma demo_parse:
  assumes "x = ''a'' \<and> v = (0, 0) \<or> x = ''b'' \<and> v = (1, 0) \<or> x = ''c'' \<and> v = (0, 1) \<or> x = ''d'' \<and> v = (1, 1)"
  shows "Option.bind (parse demo_json (cstring x)) diary_of_json = Some (demo_diary (fst v) (snd v))" "object_ver demo_json x = Some v"
proof -
  have d: "diary_of_json (diary_json (demo_diary (fst v) (snd v))) = Some (demo_diary (fst v) (snd v))"
    using assms by (intro diary_json_round_trip) (auto simp: demo_diary_def int32_def)
  have p: "parse demo_json (cstring x) = Some (diary_json (demo_diary (fst v) (snd v)))"
    using assms by (auto simp: demo_json_def cstring_def)
  show "Option.bind (parse demo_json (cstring x)) diary_of_json = Some (demo_diary (fst v) (snd v))" using d p by simp
  have "object_of_json (diary_json (demo_diary (fst v) (snd v))) = Some \<lparr>ob_id = 2, ob_ver = v\<rparr>"
    using assms by (auto simp: object_of_json_def diary_json_def object_json_def get_integer_def demo_diary_def to_int32_def)
  then show "object_ver demo_json x = Some v" using p by (simp add: object_ver_def)
qed

lemma mem_redis_up: "redis_up mem_redis id"
  using mem_redis_ok mem_redis_replies by (force simp: redis_up_def)

definition demo_world :: "char list list \<Rightarrow> redis_store psi_state" where
  "demo_world hist = demo_start\<lparr>servers := (\<lambda>_. [diary_key 2 \<mapsto> Lst hist])\<rparr>"

definition demo_form :: "(char list \<times> char list) list" where
  "demo_form = [(''diary_id'', signed_decimal 2), (''user_id'', ''u''), (''content'', ''c''), (''ver1'', signed_decimal 0), (''ver2'', signed_decimal 0)]"

lemma demo_form_ok: "edit_form demo_form (demo_diary 0 0)" "form_ok demo_form" "form_value demo_form ''diary_id'' = Some (signed_decimal 2)"
proof -
  have l: "lower s = s" if "s \<in> {''diary_id'', ''user_id'', ''content'', ''ver1'', ''ver2''}" for s
    using that by (auto simp: c_tolower_def)
  show v: "form_value demo_form ''diary_id'' = Some (signed_decimal 2)" by (simp add: form_value_def demo_form_def)
  show f: "form_ok demo_form" by (simp add: form_ok_def demo_form_def)
  show "edit_form demo_form (demo_diary 0 0)"
    using v f by (simp add: edit_form_def demo_diary_def int32_def form_value_def demo_form_def c_tolower_def)
qed

lemma demo_history: "history id (demo_world hist) 0 (diary_key 2) = Some hist"
  by (simp add: history_def demo_world_def list_at_def)

lemma demo_prefer: "(0 :: int) = PREFER_SITE (ob_id (demo_diary 0 0))" "ob_id (demo_diary 0 0) = 2"
  by (simp_all add: PREFER_SITE_def demo_diary_def)

lemma demo_id: "NUL \<notin> set (signed_decimal 2)" "length (signed_decimal 2) \<le> 10"
  by (rule signed_decimal_no_nul) (simp add: signed_decimal_def decimal.simps)

definition demo_stack :: stack where
  "demo_stack buffer i = NUL"

theorem edit_is_committed_witness:
  "\<exists>w'. runs mem_redis (Main 0) 0 (ev_handler demo_json 0 demo_stack 0 False ''/api/edit_diary'' (form_body demo_form)) (demo_world [''a''])
      (Return (success_answer True)) w' \<and> history id w' 0 (diary_key 2) = Some [''a'', ''{}''] \<and> committedVTS w' 0 = (1, 0)"
proof -
  let ?w = "demo_world [''a'']"
  have c: "counter (id (servers ?w 0)) (lock_key (diary_key (ob_id (demo_diary 0 0)))) 0"
    using key_not_own_lock [of "diary_key 2"] by (auto simp: counter_def demo_world_def demo_prefer(2))
  have o: "own 0 (committedVTS ?w 0) < 2 ^ 31 - 1" by (simp add: own_def demo_world_def demo_start_def)
  have v: "object_ver demo_json ''a'' = Some (0, 0)" by (rule demo_parse(2)) simp
  have h: "history id ?w 0 (diary_key (ob_id (demo_diary 0 0))) = Some [''a'']" by (simp add: demo_history demo_prefer(2))
  have j: "dump demo_json x = Some ''{}''" "length ''{}'' \<le> MAX_VALUE_LEN" for x by (simp_all add: demo_json_def MAX_VALUE_LEN_def)
  have s: "(0 :: int) \<in> sites" by (simp add: sites_def)
  have u: "d_utime (demo_diary 0 0) = 0" by (simp add: demo_diary_def)
  have cov: "covers_all (object_ver demo_json) (ob_ver (demo_diary 0 0)) [''a'']" by (simp add: covers_all_def v covers_def demo_diary_def)
  have "\<forall>e\<in>set [''a'']. object_ver demo_json e \<noteq> None" by (simp add: v)
  from edit_is_committed [OF demo_form_ok(1) demo_prefer(1) s mem_redis_up h this c _ _ o j, of "Main 0" demo_stack False] obtain w' where
    "runs mem_redis (Main 0) 0 (ev_handler demo_json 0 demo_stack 0 False ''/api/edit_diary'' (form_body demo_form)) ?w (Return (success_answer True)) w'"
    "committed_at id FAST_CMT 0 (diary_key 2) (cstring ''{}'') ?w w'" using cov u by (auto simp: demo_prefer(2))
  then show ?thesis using demo_history [of "[''a'']"]
    by (intro exI [of _ w']) (simp add: committed_at_def cstring_def next_ver_def demo_world_def demo_start_def)
qed

theorem content_request_witness:
  "\<exists>w'. runs mem_redis (Main 0) 0 (ev_handler demo_json 0 demo_stack 0 False ''/api/get_diary_content'' (form_body demo_form)) (demo_world [''a'', ''b''])
      (Return (Answer (response ''{}''))) w'"
proof -
  note demo_id
  moreover have "history id (demo_world [''a'', ''b'']) 0 (''diary_'' @ signed_decimal 2) = Some [''a'', ''b'']"
    using demo_history by (simp add: diary_key_def)
  moreover have "stored_diaries demo_json [''a'', ''b''] [demo_diary 0 0, demo_diary 1 0]"
    using demo_parse(1) [of "''a''" "(0, 0)"] demo_parse(1) [of "''b''" "(1, 0)"] by (simp add: stored_diaries_def)
  ultimately obtain w' where
    "runs mem_redis (Main 0) 0 (ev_handler demo_json 0 demo_stack 0 False ''/api/get_diary_content'' (form_body demo_form)) (demo_world [''a'', ''b''])
      (content_result demo_json [demo_diary 0 0, demo_diary 1 0]) w'"
    using content_request [OF demo_form_ok(2,3) _ _ mem_redis_up, of "demo_world [''a'', ''b'']" 0 "[''a'', ''b'']" demo_json "[demo_diary 0 0, demo_diary 1 0]"
      "Main 0" demo_stack 0 False] by (auto simp: covers_def demo_diary_def)
  moreover have "content_result demo_json [demo_diary 0 0, demo_diary 1 0] = Return (Answer (response ''{}''))"
    by (simp add: content_result_def demo_json_def cstring_def)
  ultimately show ?thesis by auto
qed

theorem content_index_bug_witness:
  "\<exists>w'. runs mem_redis (Main 0) 0 (ev_handler demo_json 0 demo_stack 0 False ''/api/get_diary_content'' (form_body demo_form))
      (demo_world [''a'', ''b'', ''c'', ''d'']) (Crash BadIndex) w'"
proof -
  let ?h = "[''a'', ''b'', ''c'', ''d'']" and ?ds = "[demo_diary 0 0, demo_diary 1 0, demo_diary 0 1, demo_diary 1 1]"
  note demo_id
  moreover have "history id (demo_world ?h) 0 (''diary_'' @ signed_decimal 2) = Some ?h"
    using demo_history by (simp add: diary_key_def)
  moreover have "stored_diaries demo_json ?h ?ds"
    using demo_parse(1) [of "''a''" "(0, 0)"] demo_parse(1) [of "''b''" "(1, 0)"] demo_parse(1) [of "''c''" "(0, 1)"] demo_parse(1) [of "''d''" "(1, 1)"]
    by (simp add: stored_diaries_def)
  ultimately show ?thesis
    using content_index_bug [OF demo_form_ok(2,3) _ _ mem_redis_up, of "demo_world ?h" 0 ?h demo_json "[demo_diary 0 0]" "demo_diary 1 0" "[]" "demo_diary 0 1" "[]"
      "demo_diary 1 1" "[]" "Main 0" demo_stack 0 False] by (simp add: covers_def demo_diary_def)
qed

lemma replicate_runs:
  assumes up: "redis_up redis view" and s: "site \<in> sites" and m: "NUL \<in> set (m_key m)" "NUL \<in> set (m_value m)" "m_commit_type m = FAST_CMT"
    and h: "history view w site (fst (message_entry m)) = Some hist" and n: "own (1 - site) (committedVTS w site) < 2 ^ 31 - 1"
  shows "\<exists>w'. runs redis t site (replicate_message site m) w (Return ()) w' \<and>
    history view w' site (fst (message_entry m)) = Some (hist @ [snd (message_entry m)]) \<and> main_thread w' = main_thread w \<and>
    replicater_thread w' = replicater_thread w \<and> msg_list w' = msg_list w \<and> network w' = network w"
proof -
  have "list_at (view (servers w site)) (message_key m) = Some hist" using h by (simp add: history_def message_entry_def)
  from up_rpush [OF up this, of "cstring (m_value m)"] obtain x where
    r: "redis [''RPUSH'', message_key m, cstring (m_value m)] (servers w site) = (Some (RInt (int (length hist) + 1)), x)"
    "view x = (view (servers w site))(message_key m \<mapsto> Lst (hist @ [cstring (m_value m)]))" .
  have e: "replicate_message site m = Redis Cli [''RPUSH'', message_key m, cstring (m_value m)] (\<lambda>_. Increment (1 - site) (\<lambda>_. Return ()))"
    using m by (simp add: replicate_message_def c_string_at_def message_key_def)
  let ?w1 = "w\<lparr>servers := (servers w)(site := x)\<rparr>"
  let ?w' = "?w1\<lparr>committedVTS := (committedVTS ?w1)(site := next_ver (1 - site) (committedVTS ?w1 site))\<rparr>"
  have "runs redis t site (Increment (1 - site) (\<lambda>_. Return ())) ?w1 (Return ()) ?w'"
    by (rule runs_Increment) (use s n in \<open>simp_all add: runs.stop\<close>)
  then have "runs redis t site (replicate_message site m) w (Return ()) ?w'"
    unfolding e by (intro runs_Redis) (use r in \<open>simp_all add: server_of_def after_command_def\<close>)
  then show ?thesis by (intro exI [of _ ?w']) (use r(2) in \<open>simp add: history_def list_at_def message_entry_def\<close>)
qed

lemma runs_replicater_at:
  "runs redis (Replicater site) site p w q w' \<Longrightarrow> site \<in> sites \<Longrightarrow> replicater_thread w site = p \<Longrightarrow>
    (psi_step redis J lossy)\<^sup>*\<^sup>* w (w'\<lparr>replicater_thread := (replicater_thread w)(site := q)\<rparr>)"
  using runs_replicater [of redis site p w q w' "replicater_thread w"] by simp

lemma act_redis:
  "p = Redis con args k \<Longrightarrow> redis args (servers w (server_of site con)) = (r, s) \<Longrightarrow> act redis t site p w =
    Some (k r, w\<lparr>servers := (servers w)(server_of site con := s), held := (held w)(t := after_command (server_of site con) args r (held w t))\<rparr>)"
  by (simp add: Let_def)

lemma demo_edit_request:
  "psi_step mem_redis demo_json lossy demo_start
    (demo_start\<lparr>main_thread := (main_thread demo_start)(0 := ev_handler demo_json 0 stack 0 False ''/api/edit_diary'' (form_body demo_form))\<rparr>)"
  by (rule psi_step.request [where a = NoAnswer]) (simp_all add: sites_def demo_start_def)

lemma demo_start_ok: "psi_start demo_start" "same_histories id demo_start"
  by (simp_all add: psi_start_def same_histories_def demo_start_def history_def list_at_def)

theorem locks_are_respected_witness:
  "\<exists>w. shared_reachable mem_redis demo_json True (alone w) \<and> held w (Main 0) = {#(0, lock_key (diary_key 2))#} \<and>
     locked id w (0, lock_key (diary_key 2)) \<and> count (owners w) (0, lock_key (diary_key 2)) \<le> 1"
proof -
  let ?P = "ev_handler demo_json 0 (\<lambda>_ _. NUL) 0 False ''/api/edit_diary'' (form_body demo_form)" and ?l = "lock_key (diary_key 2)"
  let ?w1 = "demo_start\<lparr>main_thread := (main_thread demo_start)(0 := ?P)\<rparr>"
  have u: "d_utime (demo_diary 0 0) = 0" by (simp add: demo_diary_def)
  have hk: "history_key (DIARY (demo_diary 0 0)) = diary_key 2" by (simp add: history_key_def demo_diary_def diary_key_def)
  obtain k where k: "?P = Redis Cli [''INCR'', ?l] k"
    using edit_request [OF demo_form_ok(1), of demo_json 0 "\<lambda>_ _. NUL" False] demo_prefer(1) u
    by (simp add: fast_commit_def Let_def hk acquire_lock_def)
  have "number_of (Map.empty ?l) = Some 0" by (simp add: number_of_def)
  then have r: "mem_redis [''INCR'', ?l] Map.empty = (Some (RInt 1), [?l \<mapsto> Str (signed_decimal 1)])" by simp
  let ?w2 = "?w1\<lparr>servers := (servers ?w1)(0 := [?l \<mapsto> Str (signed_decimal 1)]),
      held := (held ?w1)(Main 0 := after_command 0 [''INCR'', ?l] (Some (RInt 1)) (held ?w1 (Main 0)))\<rparr>"
  have "main_thread ?w1 0 = Redis Cli [''INCR'', ?l] k" using k by simp
  moreover have "mem_redis [''INCR'', ?l] (servers ?w1 (server_of 0 Cli)) = (Some (RInt 1), [?l \<mapsto> Str (signed_decimal 1)])"
    using r by (simp only: server_of_def demo_start_def) simp
  ultimately have a: "act mem_redis (Main 0) 0 (main_thread ?w1 0) ?w1 = Some (k (Some (RInt 1)), ?w2)"
    by (simp only: act_redis) (simp only: server_of_def connection.case)
  have h: "held ?w2 (Main 0) = {#(0, ?l)#}" by (simp add: after_command_def demo_start_def)
  let ?w = "?w2\<lparr>main_thread := (main_thread ?w2)(0 := k (Some (RInt 1)))\<rparr>"
  have "psi_step mem_redis demo_json True ?w1 ?w" by (rule psi_step.main [OF _ a]) (simp add: sites_def)
  with demo_edit_request [of True "\<lambda>_ _. NUL"] have "(psi_step mem_redis demo_json True)\<^sup>*\<^sup>* demo_start ?w" by (rule converse_rtranclp_into_rtranclp [OF _ r_into_rtranclp])
  then have reach: "shared_reachable mem_redis demo_json True (alone ?w)"
    using demo_start_ok(1) psi_run_alone unfolding shared_reachable_def by blast
  have "?l \<in># image_mset snd (held ?w (Main 0))" "(0, ?l) \<in># owners ?w" using h by (simp_all add: owners_def)
  with locks_are_respected [OF mem_redis_ok reach, of 0 "(0, ?l)"] h reach show ?thesis
    by (intro exI [of _ ?w]) (simp add: sites_def alone_def)
qed

lemma demo_replication:
  \<comment> \<open>site 0 commits an edit, and its message arrives at site 1\<close>
  obtains w m where "(psi_step mem_redis demo_json False)\<^sup>*\<^sup>* demo_start w" "message_entry m = (diary_key 2, ''{}'')" "m_commit_type m = FAST_CMT"
    "NUL \<in> set (m_key m)" "NUL \<in> set (m_value m)" "main_thread w = (main_thread demo_start)(0 := Return (success_answer True))"
    "replicater_thread w = (replicater_thread demo_start)(1 := replicate_message 1 m)" "msg_list w = (\<lambda>_. [])" "network w = (\<lambda>_. [])"
    "servers w 1 = Map.empty" "committedVTS w 1 = (0, 0)"
proof -
  let ?P = "ev_handler demo_json 0 (\<lambda>_ _. NUL) 0 False ''/api/edit_diary'' (form_body demo_form)" and ?k = "diary_key 2"
  let ?step = "psi_step mem_redis demo_json False"
  let ?w1 = "demo_start\<lparr>main_thread := (main_thread demo_start)(0 := ?P)\<rparr>"
  note id = demo_prefer(2)
  have h: "history id demo_start 0 (diary_key (ob_id (demo_diary 0 0))) = Some []" by (simp add: demo_start_def history_def list_at_def)
  have c: "counter (id (servers demo_start 0)) (lock_key (diary_key (ob_id (demo_diary 0 0)))) 0" by (simp add: counter_def demo_start_def)
  have o: "own 0 (committedVTS demo_start 0) < 2 ^ 31 - 1" by (simp add: own_def demo_start_def)
  have j: "dump demo_json x = Some ''{}''" "length ''{}'' \<le> MAX_VALUE_LEN" for x by (simp_all add: demo_json_def MAX_VALUE_LEN_def)
  have s: "(0 :: int) \<in> sites" "(1 :: int) \<in> sites" by (simp_all add: sites_def)
  have i: "int32 (ob_id (demo_diary 0 0))" using demo_form_ok(1) by (simp add: edit_form_def)
  from fast_commit_outcome [OF mem_redis_up s(1) i h _ c _ _ o j, of "(0, 0)" "Main 0"] obtain w2 where
    r2: "runs mem_redis (Main 0) 0 (fast_commit demo_json 0 (0, 0) (DIARY (demo_diary 0 0))) demo_start (Return True) w2"
    "committed_at id FAST_CMT 0 ?k (cstring ''{}'') demo_start w2" "servers w2 1 = servers demo_start 1" by (auto simp: covers_all_def id)
  have P: "?P = bindP (fast_commit demo_json 0 (0, 0) (DIARY (demo_diary 0 0))) (\<lambda>ok. Return (success_answer ok))"
    using edit_request [OF demo_form_ok(1), of demo_json 0 "\<lambda>_ _. NUL" False] demo_prefer(1) by (simp add: demo_diary_def)
  have "runs mem_redis (Main 0) 0 ?P demo_start (Return (success_answer True)) w2"
    unfolding P by (rule runs_bind [OF r2(1)]) (simp add: runs.stop)
  from runs_main [OF this s(1), of "(main_thread demo_start)(0 := ?P)" demo_json False]
  have main: "?step\<^sup>*\<^sup>* ?w1 (w2\<lparr>main_thread := (main_thread demo_start)(0 := Return (success_answer True))\<rparr>)" by simp
  let ?w3 = "w2\<lparr>main_thread := (main_thread demo_start)(0 := Return (success_answer True))\<rparr>"
  from r2(2) obtain m where m: "msg_list w2 = (msg_list demo_start)(0 := [m])" "message_entry m = (?k, ''{}'')" "m_commit_type m = FAST_CMT"
    "NUL \<in> set (m_key m)" "NUL \<in> set (m_value m)" "network w2 = network demo_start" "replicater_thread w2 = replicater_thread demo_start"
    "committedVTS w2 1 = (0, 0)"
    by (auto simp: committed_at_def cstring_def demo_start_def MAX_VALUE_LEN_def)
  let ?w4 = "?w3\<lparr>msg_list := (msg_list ?w3)(0 := []), network := (network ?w3)(1 - 0 := network ?w3 (1 - 0) @ [m])\<rparr>"
  have send: "?step ?w3 ?w4" by (rule psi_step.send [OF s(1)]) (simp_all add: m demo_start_def)
  let ?w5 = "?w4\<lparr>network := (network ?w4)(1 := []), replicater_thread := (replicater_thread ?w4)(1 := replicate_message 1 m),
      held := (held ?w4)(Replicater 1 := held ?w4 (Replicater 1) + message_lock 1 m)\<rparr>"
  have receive: "?step ?w4 ?w5" by (rule psi_step.receive [OF s(2)]) (simp_all add: m demo_start_def)
  have "?step\<^sup>*\<^sup>* demo_start ?w5"
    using demo_edit_request [of False "\<lambda>_ _. NUL"] main send receive by (meson converse_rtranclp_into_rtranclp rtranclp_trans rtranclp.rtrancl_refl)
  then show thesis
    by (rule that [of _ m]) (use r2(3) in \<open>simp_all add: m fun_eq_iff demo_start_def\<close>)
qed

theorem replicas_converge_witness:
  "\<exists>w. (shared_step mem_redis demo_json False)\<^sup>*\<^sup>* (alone demo_start) (alone w) \<and> history id w 1 (diary_key 2) = Some [''{}''] \<and>
     same_histories id w \<and> committedVTS w 0 = committedVTS w 1"
proof (rule demo_replication)
  fix w m
  let ?step = "psi_step mem_redis demo_json False"
  assume w: "?step\<^sup>*\<^sup>* demo_start w" and m: "message_entry m = (diary_key 2, ''{}'')" "m_commit_type m = FAST_CMT"
    "NUL \<in> set (m_key m)" "NUL \<in> set (m_value m)" and main: "main_thread w = (main_thread demo_start)(0 := Return (success_answer True))"
    and repl: "replicater_thread w = (replicater_thread demo_start)(1 := replicate_message 1 m)" and mail: "msg_list w = (\<lambda>_. [])" "network w = (\<lambda>_. [])"
    and at1: "servers w 1 = Map.empty" "committedVTS w 1 = (0, 0)"
  have s: "(1 :: int) \<in> sites" by (simp add: sites_def)
  have h: "history id w 1 (fst (message_entry m)) = Some []" using at1 by (simp add: history_def list_at_def)
  have o: "own (1 - 1) (committedVTS w 1) < 2 ^ 31 - 1" by (simp add: own_def at1)
  from replicate_runs [OF mem_redis_up s m(3,4,2) h o, of "Replicater 1"] obtain v where
    r: "runs mem_redis (Replicater 1) 1 (replicate_message 1 m) w (Return ()) v" "history id v 1 (diary_key 2) = Some [''{}'']"
    "main_thread v = main_thread w" "replicater_thread v = replicater_thread w" "msg_list v = msg_list w" "network v = network w"
    by (auto simp: m(1))
  let ?v = "v\<lparr>replicater_thread := (replicater_thread w)(1 := Return ())\<rparr>"
  have "?step\<^sup>*\<^sup>* w ?v" by (rule runs_replicater_at [OF r(1) s]) (simp add: repl)
  with w have "?step\<^sup>*\<^sup>* demo_start ?v" by (rule rtranclp_trans)
  then have run: "(shared_step mem_redis demo_json False)\<^sup>*\<^sup>* (alone demo_start) (alone ?v)" by (rule psi_run_alone)
  have q: "quiet (world (alone ?v))" by (simp add: quiet_def sites_def incoming_def r main repl mail demo_start_def alone_def)
  have "history id ?v 1 (diary_key 2) = Some [''{}'']" using r(2) by (simp add: history_def)
  with replicas_converge [OF mem_redis_up demo_start_ok run _ q] run show ?thesis by (auto simp: alone_def)
qed

text \<open>
  Nothing keeps the threads of a site apart: while the replicater of site 1 stores the message, a request makes the
  main thread use the same connection.
\<close>

theorem shared_connection_races:
  "\<exists>s. shared_reachable mem_redis demo_json False s \<and> raced s"
proof (rule demo_replication)
  fix w m
  let ?step = "shared_step mem_redis demo_json False"
  assume w: "(psi_step mem_redis demo_json False)\<^sup>*\<^sup>* demo_start w" and m: "NUL \<in> set (m_key m)" "NUL \<in> set (m_value m)"
    and main: "main_thread w = (main_thread demo_start)(0 := Return (success_answer True))"
    and repl: "replicater_thread w = (replicater_thread demo_start)(1 := replicate_message 1 m)"
  let ?s1 = "(alone w)\<lparr>calling := (\<lambda>_. None)(1 := Some (Replicater 1, False))\<rparr>"
  have t: "Main 1 \<in> threads" "Replicater 1 \<in> threads" "(1 :: int) \<in> sites" by (simp_all add: threads_def sites_def)
  have "?step (alone w) ((alone w)\<lparr>calling := (calling (alone w))(site_of (Replicater 1) := Some (Replicater 1, False))\<rparr>)"
    by (rule shared_step.enter [OF t(2)]) (use m in \<open>simp_all add: alone_def repl replicate_message_def c_string_at_def sends_to_cli_def\<close>)
  then have enter: "?step (alone w) ?s1" by (simp add: alone_def)
  let ?P = "ev_handler demo_json 1 demo_stack 0 False ''/api/get_diary_content'' (form_body demo_form)"
  let ?w2 = "w\<lparr>main_thread := (main_thread w)(1 := ?P)\<rparr>" and ?a = "main_thread w 1"
  have "?a = Return NoAnswer" by (simp add: main demo_start_def)
  then have request: "?step ?s1 (?s1\<lparr>world := ?w2\<rparr>)"
    by (intro shared_step.request [OF t(3)]) (simp_all add: alone_def in_call_def)
  have "\<exists>r. form_var demo_stack (form_body demo_form) ''d_id'' 100 ''diary_id'' = Return (signed_decimal 2 @ NUL # r)"
    using demo_form_ok(2,3) demo_id by (intro form_var_value) simp_all
  then have "sends_to_cli ?P" by (auto simp: ev_handler_def Let_def mg_vcmp_eq handle_get_diary_content_def sends_to_cli_def)
  then have "?step (?s1\<lparr>world := ?w2\<rparr>) (?s1\<lparr>raced := True\<rparr>)"
    by (intro shared_step.collide [OF t(1), where t' = "Replicater 1" and b = False]) (simp_all add: alone_def)
  with enter request have "?step\<^sup>*\<^sup>* (alone w) (?s1\<lparr>raced := True\<rparr>)" by (meson converse_rtranclp_into_rtranclp rtranclp.rtrancl_refl)
  then have "?step\<^sup>*\<^sup>* (alone demo_start) (?s1\<lparr>raced := True\<rparr>)" by (rule rtranclp_trans [OF psi_run_alone [OF w]])
  then show ?thesis using demo_start_ok(1) unfolding shared_reachable_def by fastforce
qed

end
