(* ===== verification/Mbuf.thy ===== *)
theory Mbuf
  imports Http
begin

section \<open>Buffers that grow (mbuf.c)\<close>

text \<open>
  The I/O buffers of the web server. The address of a block matters only to the overflow check of
  \<open>mbuf_insert\<close>, and 0 is NULL. \<open>realloc\<close> is a parameter that refuses a request or grants it with an address
  and new bytes of arbitrary contents. The factor 1.5 is computed in floating point, exactly for
  buffers of less than \<open>2 ^ 52\<close> bytes.
\<close>

record mbuf =
  mb_addr :: nat
  mb_buf :: "char list"
  mb_len :: nat
  mb_size :: nat

type_synonym realloc = "nat \<Rightarrow> (nat \<times> (nat \<Rightarrow> char)) option"

definition mbuf_realloc :: "realloc \<Rightarrow> mbuf \<Rightarrow> nat \<Rightarrow> mbuf option" where
  \<comment> \<open>\<open>MBUF_REALLOC\<close> of the block of a buffer, whose other fields stay\<close>
  "mbuf_realloc ra a n =
     (case ra n of
        None \<Rightarrow> None
      | Some (addr, f) \<Rightarrow> Some (a\<lparr>mb_addr := addr, mb_buf := take n (mb_buf a) @ map f [length (mb_buf a)..<n]\<rparr>))"

definition mbuf_resize :: "realloc \<Rightarrow> mbuf \<Rightarrow> nat \<Rightarrow> mbuf" where
  "mbuf_resize ra a new_size =
     (if new_size > mb_size a \<or> new_size < mb_size a \<and> new_size \<ge> mb_len a
      then case mbuf_realloc ra a new_size of
             None \<Rightarrow> if new_size \<noteq> 0 then a else a\<lparr>mb_addr := 0, mb_buf := [], mb_size := 0\<rparr>
           | Some a \<Rightarrow> a\<lparr>mb_size := new_size\<rparr>
      else a)"

definition mbuf_init :: "realloc \<Rightarrow> nat \<Rightarrow> mbuf" where
  "mbuf_init ra initial_size = mbuf_resize ra \<lparr>mb_addr = 0, mb_buf = [], mb_len = 0, mb_size = 0\<rparr> initial_size"

definition mbuf_free :: "realloc \<Rightarrow> mbuf \<Rightarrow> mbuf" where
  "mbuf_free ra a = (if mb_addr a \<noteq> 0 then mbuf_init ra 0 else a)"

definition mbuf_trim :: "realloc \<Rightarrow> mbuf \<Rightarrow> mbuf" where
  "mbuf_trim ra a = mbuf_resize ra a (mb_len a)"

definition mbuf_put :: "mbuf \<Rightarrow> nat \<Rightarrow> char list option \<Rightarrow> nat \<Rightarrow> mbuf res" where
  \<comment> \<open>the gap and its contents, if the caller gives any\<close>
  "mbuf_put a off src len =
     bindE (peekn (mb_buf a) off (mb_len a - off)) (\<lambda>tail.
     bindE (poke (mb_buf a) (off + len) tail) (\<lambda>b.
     bindE (case src of None \<Rightarrow> Inr b | Some s \<Rightarrow> memcpy b off s len) (\<lambda>b.
     Inr (a\<lparr>mb_buf := b, mb_len := wrap64 (mb_len a + len)\<rparr>))))"

definition mbuf_insert :: "realloc \<Rightarrow> mbuf \<Rightarrow> nat \<Rightarrow> char list option \<Rightarrow> nat \<Rightarrow> (nat \<times> mbuf) res" where
  "mbuf_insert ra a off src len =
     (if \<not> (mb_len a \<le> mb_size a \<and> off \<le> mb_len a) then Inl AssertFailed
      else if 2 ^ 64 - 1 - mb_addr a < len then Inr (0, a)
      else if wrap64 (mb_len a + len) \<le> mb_size a
      then bindE (mbuf_put a off src len) (\<lambda>a. Inr (len, a))
      else let new_size = wrap64 (mb_len a + len) * 3 div 2
           in case mbuf_realloc ra a new_size of
                None \<Rightarrow> Inr (0, a)
              | Some a \<Rightarrow> bindE (mbuf_put a off src len) (\<lambda>a. Inr (len, a\<lparr>mb_size := new_size\<rparr>)))"

definition mbuf_append :: "realloc \<Rightarrow> mbuf \<Rightarrow> char list option \<Rightarrow> nat \<Rightarrow> (nat \<times> mbuf) res" where
  "mbuf_append ra a src len = mbuf_insert ra a (mb_len a) src len"

definition mbuf_remove :: "mbuf \<Rightarrow> nat \<Rightarrow> mbuf res" where
  "mbuf_remove mb n =
     (if n > 0 \<and> n \<le> mb_len mb
      then bindE (peekn (mb_buf mb) n (mb_len mb - n)) (\<lambda>rest.
           bindE (poke (mb_buf mb) 0 rest) (\<lambda>b.
           Inr (mb\<lparr>mb_buf := b, mb_len := mb_len mb - n\<rparr>)))
      else Inr mb)"

subsection \<open>Buffers are byte lists\<close>

definition mbuf_ok :: "mbuf \<Rightarrow> bool" where
  "mbuf_ok a \<longleftrightarrow> length (mb_buf a) = mb_size a \<and> mb_len a \<le> mb_size a \<and> mb_addr a + mb_size a < 2 ^ 64 \<and>
     (mb_addr a = 0 \<longrightarrow> mb_size a = 0)"

definition realloc_ok :: "realloc \<Rightarrow> bool" where
  \<comment> \<open>a granted block lies in the address space; the block of size 0 may be NULL\<close>
  "realloc_ok ra \<longleftrightarrow> (\<forall>n addr f. ra n = Some (addr, f) \<longrightarrow> addr + n < 2 ^ 64 \<and> (addr = 0 \<longrightarrow> n = 0))"

definition mbuf_bytes :: "mbuf \<Rightarrow> char list" where
  "mbuf_bytes a = take (mb_len a) (mb_buf a)"

datatype mbuf_op = Insert nat "char list" | Append "char list" | Remove nat | Trim | Resize nat | Free

fun mbuf_exec :: "realloc \<Rightarrow> mbuf_op \<Rightarrow> mbuf \<Rightarrow> (nat \<times> mbuf) res" where
  \<comment> \<open>the result is the number of bytes inserted\<close>
  "mbuf_exec ra (Insert off s) a = mbuf_insert ra a off (Some s) (length s)"
| "mbuf_exec ra (Append s) a = mbuf_append ra a (Some s) (length s)"
| "mbuf_exec ra (Remove n) a = bindE (mbuf_remove a n) (\<lambda>a. Inr (0, a))"
| "mbuf_exec ra Trim a = Inr (0, mbuf_trim ra a)"
| "mbuf_exec ra (Resize n) a = Inr (0, mbuf_resize ra a n)"
| "mbuf_exec ra Free a = Inr (0, mbuf_free ra a)"

fun bytes_exec :: "mbuf_op \<Rightarrow> nat \<Rightarrow> char list \<Rightarrow> char list" where
  \<comment> \<open>the same on byte lists, given how many bytes were inserted\<close>
  "bytes_exec (Insert off s) n xs = (if n = length s then take off xs @ s @ drop off xs else xs)"
| "bytes_exec (Append s) n xs = (if n = length s then xs @ s else xs)"
| "bytes_exec (Remove k) n xs = (if k \<le> length xs then drop k xs else xs)"
| "bytes_exec Trim n xs = xs"
| "bytes_exec (Resize k) n xs = xs"
| "bytes_exec Free n xs = []"

fun op_fits :: "mbuf_op \<Rightarrow> char list \<Rightarrow> bool" where
  "op_fits (Insert off s) xs \<longleftrightarrow> off \<le> length xs \<and> length xs + length s < 2 ^ 62"
| "op_fits (Append s) xs \<longleftrightarrow> length xs + length s < 2 ^ 62"
| "op_fits _ xs \<longleftrightarrow> True"

definition op_size :: "mbuf_op \<Rightarrow> nat" where
  "op_size op = (case op of Insert off s \<Rightarrow> length s | Append s \<Rightarrow> length s | _ \<Rightarrow> 0)"

lemma mbuf_realloc_ok:
  assumes "mbuf_ok a" and "realloc_ok ra" and "mbuf_realloc ra a n = Some b" and "mb_len a \<le> n"
  shows "length (mb_buf b) = n" "mb_len b = mb_len a" "mbuf_bytes b = mbuf_bytes a" "mb_addr b + n < 2 ^ 64" "mb_addr b = 0 \<longrightarrow> n = 0"
    "mb_size b = mb_size a"
  using assms by (auto simp: mbuf_realloc_def mbuf_ok_def realloc_ok_def mbuf_bytes_def min_def split: option.splits)

lemma mbuf_resize_ok:
  assumes "mbuf_ok a" and "realloc_ok ra"
  shows "mbuf_ok (mbuf_resize ra a n)" "mbuf_bytes (mbuf_resize ra a n) = mbuf_bytes a"
proof -
  have "mbuf_ok (mbuf_resize ra a n) \<and> mbuf_bytes (mbuf_resize ra a n) = mbuf_bytes a"
  proof (cases "n > mb_size a \<or> n < mb_size a \<and> n \<ge> mb_len a")
    case True
    then have n: "mb_len a \<le> n" using assms(1) by (auto simp: mbuf_ok_def)
    show ?thesis
    proof (cases "mbuf_realloc ra a n")
      case None
      then show ?thesis using True n assms(1) by (auto simp: mbuf_resize_def mbuf_ok_def mbuf_bytes_def)
    next
      case (Some b)
      then have "mbuf_resize ra a n = b\<lparr>mb_size := n\<rparr>" using True by (simp add: mbuf_resize_def)
      with mbuf_realloc_ok [OF assms Some n] n show ?thesis by (simp add: mbuf_ok_def) (simp add: mbuf_bytes_def)
    qed
  next
    case False
    then have "mbuf_resize ra a n = a" unfolding mbuf_resize_def by (rule if_not_P)
    then show ?thesis using assms(1) by simp
  qed
  then show "mbuf_ok (mbuf_resize ra a n)" "mbuf_bytes (mbuf_resize ra a n) = mbuf_bytes a" by blast+
qed

lemma mbuf_put_ok:
  assumes "mb_len a + length s \<le> length (mb_buf a)" and "off \<le> mb_len a" and "mb_len a + length s < 2 ^ 64"
  obtains b where "mbuf_put a off (Some s) (length s) = Inr (a\<lparr>mb_buf := b, mb_len := mb_len a + length s\<rparr>)" "length b = length (mb_buf a)"
    "take (mb_len a + length s) b = take off (mbuf_bytes a) @ s @ drop off (mbuf_bytes a)"
proof -
  let ?t = "take (mb_len a - off) (drop off (mb_buf a))"
  let ?b = "take (off + length s) (mb_buf a) @ ?t @ drop (off + length s + (mb_len a - off)) (mb_buf a)"
  let ?c = "take off ?b @ s @ drop (off + length s) ?b"
  have t: "length ?t = mb_len a - off" using assms by simp
  have l: "length ?b = length (mb_buf a)" using assms by simp
  have "mbuf_put a off (Some s) (length s) = Inr (a\<lparr>mb_buf := ?c, mb_len := mb_len a + length s\<rparr>)"
    unfolding mbuf_put_def using assms by (simp add: peekn_Inr poke_Inr t memcpy_Inr l)
  moreover have "length ?c = length (mb_buf a)" using assms by simp
  moreover have "take (mb_len a + length s) ?c = take off (mbuf_bytes a) @ s @ drop off (mbuf_bytes a)"
  proof -
    have "take off ?b = take off (mb_buf a)" using assms by simp
    moreover have "drop (off + length s) ?b = ?t @ drop (mb_len a + length s) (mb_buf a)" using assms by (simp add: add.commute)
    ultimately have "?c = (take off (mb_buf a) @ s @ ?t) @ drop (mb_len a + length s) (mb_buf a)" by simp
    moreover have "length (take off (mb_buf a) @ s @ ?t) = mb_len a + length s" using assms by simp
    ultimately have "take (mb_len a + length s) ?c = take off (mb_buf a) @ s @ ?t" by (metis append_eq_conv_conj)
    then show ?thesis using assms by (simp add: mbuf_bytes_def drop_take)
  qed
  ultimately show thesis by (rule that)
qed

lemma mbuf_insert_ok:
  assumes "mbuf_ok a" and "realloc_ok ra" and "off \<le> mb_len a" and "mb_len a + length s < 2 ^ 62"
  shows "\<exists>n b. mbuf_insert ra a off (Some s) (length s) = Inr (n, b) \<and> mbuf_ok b \<and> (n = length s \<or> n = 0) \<and>
    mbuf_bytes b = (if n = length s then take off (mbuf_bytes a) @ s @ drop off (mbuf_bytes a) else mbuf_bytes a)"
proof -
  have w: "wrap64 (mb_len a + length s) = mb_len a + length s" using assms(4) by simp
  have s: "mb_len a \<le> mb_size a" "length (mb_buf a) = mb_size a" using assms(1) by (simp_all add: mbuf_ok_def)
  have same: "take off (mbuf_bytes a) @ [] @ drop off (mbuf_bytes a) = mbuf_bytes a" by simp
  consider "2 ^ 64 - 1 - mb_addr a < length s" | "\<not> 2 ^ 64 - 1 - mb_addr a < length s" "mb_len a + length s \<le> mb_size a"
    | "\<not> 2 ^ 64 - 1 - mb_addr a < length s" "\<not> mb_len a + length s \<le> mb_size a" by blast
  then show ?thesis
  proof cases
    case 1
    then have "mbuf_insert ra a off (Some s) (length s) = Inr (0, a)" using assms(3) s by (simp add: mbuf_insert_def)
    then show ?thesis using assms(1) by (cases s) auto
  next
    case 2
    with s assms(3,4) obtain b where b: "mbuf_put a off (Some s) (length s) = Inr (a\<lparr>mb_buf := b, mb_len := mb_len a + length s\<rparr>)"
      "length b = length (mb_buf a)" "take (mb_len a + length s) b = take off (mbuf_bytes a) @ s @ drop off (mbuf_bytes a)"
      using mbuf_put_ok [of a s off] by auto
    have "mbuf_insert ra a off (Some s) (length s) = Inr (length s, a\<lparr>mb_buf := b, mb_len := mb_len a + length s\<rparr>)"
      using 2 assms(3) s by (simp add: mbuf_insert_def w b(1))
    then show ?thesis using b(2,3) 2 assms(1) by (simp add: mbuf_ok_def) (simp add: mbuf_bytes_def)
  next
    case 3
    let ?n = "(mb_len a + length s) * 3 div 2"
    have e: "mbuf_insert ra a off (Some s) (length s) = (case mbuf_realloc ra a ?n of None \<Rightarrow> Inr (0, a)
        | Some a \<Rightarrow> bindE (mbuf_put a off (Some s) (length s)) (\<lambda>a. Inr (length s, a\<lparr>mb_size := ?n\<rparr>)))"
      using 3 assms(3) s unfolding mbuf_insert_def w Let_def by simp
    show ?thesis
    proof (cases "mbuf_realloc ra a ?n")
      case None
      then have "mbuf_insert ra a off (Some s) (length s) = Inr (0, a)" by (simp only: e option.case)
      then show ?thesis using assms(1) by (cases s) auto
    next
      case (Some a')
      have n: "mb_len a + length s \<le> ?n" by simp
      then have "mb_len a \<le> ?n" by simp
      from mbuf_realloc_ok [OF assms(1,2) Some this] have a': "length (mb_buf a') = ?n" "mb_len a' = mb_len a" "mbuf_bytes a' = mbuf_bytes a"
        "mb_addr a' + ?n < 2 ^ 64" "mb_addr a' = 0 \<longrightarrow> ?n = 0" by simp_all
      have "mb_len a' + length s \<le> length (mb_buf a')" using n a' by simp
      moreover have "off \<le> mb_len a'" "mb_len a' + length s < 2 ^ 64" using a' assms(3,4) by simp_all
      ultimately obtain b where b: "mbuf_put a' off (Some s) (length s) = Inr (a'\<lparr>mb_buf := b, mb_len := mb_len a' + length s\<rparr>)"
        "length b = length (mb_buf a')" "take (mb_len a' + length s) b = take off (mbuf_bytes a') @ s @ drop off (mbuf_bytes a')"
        by (rule mbuf_put_ok)
      have "mbuf_insert ra a off (Some s) (length s) = Inr (length s, a'\<lparr>mb_buf := b, mb_len := mb_len a + length s, mb_size := ?n\<rparr>)"
        unfolding e Some using b(1) a'(2) by simp
      then show ?thesis using b(2,3) a' n by (simp add: mbuf_ok_def) (simp add: mbuf_bytes_def)
    qed
  qed
qed

lemma mbuf_remove_ok:
  assumes "mbuf_ok a"
  shows "\<exists>b. mbuf_remove a n = Inr b \<and> mbuf_ok b \<and> mbuf_bytes b = (if n \<le> mb_len a then drop n (mbuf_bytes a) else mbuf_bytes a)"
proof (cases "n > 0 \<and> n \<le> mb_len a")
  case True
  let ?b = "take (mb_len a - n) (drop n (mb_buf a)) @ drop (mb_len a - n) (mb_buf a)"
  have "mbuf_remove a n = Inr (a\<lparr>mb_buf := ?b, mb_len := mb_len a - n\<rparr>)"
  proof -
    have t: "length (take (mb_len a - n) (drop n (mb_buf a))) = mb_len a - n" using True assms by (auto simp: mbuf_ok_def)
    show ?thesis using True assms unfolding mbuf_remove_def peekn_def poke_def bindE.simps t by (auto simp: mbuf_ok_def t simp del: length_take)
  qed
  then show ?thesis using True assms by (auto simp: mbuf_ok_def mbuf_bytes_def drop_take)
qed (use assms in \<open>auto simp: mbuf_remove_def\<close>)

lemma mbuf_init_ok: "realloc_ok ra \<Longrightarrow> mbuf_ok (mbuf_init ra n) \<and> mbuf_bytes (mbuf_init ra n) = []"
  unfolding mbuf_init_def
  using mbuf_resize_ok [of "\<lparr>mb_addr = 0, mb_buf = [], mb_len = 0, mb_size = 0\<rparr>" ra n] by (simp add: mbuf_ok_def mbuf_bytes_def)

lemma mbuf_exec_ok:
  assumes "mbuf_ok a" and "realloc_ok ra" and "op_fits op (mbuf_bytes a)"
  shows "\<exists>n b. mbuf_exec ra op a = Inr (n, b) \<and> mbuf_ok b \<and> mbuf_bytes b = bytes_exec op n (mbuf_bytes a) \<and>
    (n = op_size op \<or> n = 0)"
proof -
  have l: "length (mbuf_bytes a) = mb_len a" using assms(1) by (simp add: mbuf_ok_def mbuf_bytes_def)
  have full: "take (mb_len a) (mbuf_bytes a) = mbuf_bytes a" "drop (mb_len a) (mbuf_bytes a) = []" using l by simp_all
  show ?thesis
  proof (cases op)
    case (Insert off s)
    with mbuf_insert_ok [OF assms(1,2), of off s] assms(3) l show ?thesis by (fastforce simp: op_size_def)
  next
    case (Append s)
    with mbuf_insert_ok [OF assms(1,2), of "mb_len a" s] assms(3) l full show ?thesis by (fastforce simp: mbuf_append_def op_size_def)
  next
    case (Remove n)
    with mbuf_remove_ok [OF assms(1), of n] l show ?thesis by (auto simp: op_size_def)
  next
    case Free
    have "mb_addr a = 0 \<Longrightarrow> mbuf_bytes a = []" using assms(1) by (auto simp: mbuf_ok_def mbuf_bytes_def)
    with Free mbuf_init_ok [OF assms(2), of 0] assms(1) show ?thesis by (auto simp: mbuf_free_def op_size_def)
  qed (use mbuf_resize_ok [OF assms(1,2)] in \<open>simp_all add: mbuf_trim_def op_size_def\<close>)
qed

fun mbuf_run :: "realloc \<Rightarrow> mbuf_op list \<Rightarrow> mbuf \<Rightarrow> (nat list \<times> mbuf) res" where
  "mbuf_run ra [] a = Inr ([], a)"
| "mbuf_run ra (op # ops) a =
     bindE (mbuf_exec ra op a) (\<lambda>(n, a). bindE (mbuf_run ra ops a) (\<lambda>(ns, a). Inr (n # ns, a)))"

fun bytes_run :: "mbuf_op list \<Rightarrow> nat list \<Rightarrow> char list \<Rightarrow> char list" where
  "bytes_run (op # ops) (n # ns) xs = bytes_run ops ns (bytes_exec op n xs)"
| "bytes_run _ _ xs = xs"

fun ops_fit :: "mbuf_op list \<Rightarrow> char list \<Rightarrow> bool" where
  \<comment> \<open>whatever the allocator refuses\<close>
  "ops_fit [] xs \<longleftrightarrow> True"
| "ops_fit (op # ops) xs \<longleftrightarrow> op_fits op xs \<and> (\<forall>n\<in>{0, op_size op}. ops_fit ops (bytes_exec op n xs))"

lemma mbuf_run_ok:
  "mbuf_ok a \<Longrightarrow> realloc_ok ra \<Longrightarrow> ops_fit ops (mbuf_bytes a) \<Longrightarrow>
   \<exists>ns b. mbuf_run ra ops a = Inr (ns, b) \<and> mbuf_ok b \<and> list_all2 (\<lambda>op n. n = op_size op \<or> n = 0) ops ns \<and>
     mbuf_bytes b = bytes_run ops ns (mbuf_bytes a)"
proof (induction ops arbitrary: a)
  case (Cons op ops)
  from Cons.prems(3) have "op_fits op (mbuf_bytes a)" by simp
  from mbuf_exec_ok [OF Cons.prems(1,2) this] obtain k b where
    b: "mbuf_exec ra op a = Inr (k, b)" "mbuf_ok b" "mbuf_bytes b = bytes_exec op k (mbuf_bytes a)" "k = op_size op \<or> k = 0" by blast
  with Cons.prems(3) have "ops_fit ops (mbuf_bytes b)" by auto
  from Cons.IH [OF b(2) Cons.prems(2) this] b show ?case by auto
qed simp

text \<open>
  C18. Every run of operations on a fresh buffer stays inside its block and implements the same run on byte
  lists, in which an insertion that the allocator refused changes nothing: it returns 0, otherwise
  the number of bytes.
\<close>

theorem mbuf_refines:
  assumes "realloc_ok ra" and "ops_fit ops []"
  shows "\<exists>ns b. mbuf_run ra ops (mbuf_init ra n) = Inr (ns, b) \<and> mbuf_bytes b = bytes_run ops ns [] \<and>
    mb_len b \<le> mb_size b \<and> length (mb_buf b) = mb_size b \<and> list_all2 (\<lambda>op k. k = op_size op \<or> k = 0) ops ns"
proof -
  have "mbuf_ok (mbuf_init ra n)" "mbuf_bytes (mbuf_init ra n) = []" using mbuf_init_ok [OF assms(1)] by simp_all
  with mbuf_run_ok [OF this(1) assms(1), of ops] assms(2) show ?thesis by (auto simp: mbuf_ok_def)
qed

definition demo_realloc :: realloc where
  \<comment> \<open>refuses blocks of more than 16 bytes\<close>
  "demo_realloc n = (if n \<le> 16 then Some (4096, \<lambda>_. NUL) else None)"

theorem mbuf_refines_witness:
  "\<exists>b. mbuf_run demo_realloc [Append ''hello'', Insert 0 '' world'', Append ''longer text'', Remove 6, Trim] (mbuf_init demo_realloc 0) =
      Inr ([5, 6, 0, 0, 0], b) \<and> mbuf_bytes b = ''hello'' \<and> mb_len b \<le> mb_size b"
proof -
  have "realloc_ok demo_realloc" by (auto simp: realloc_ok_def demo_realloc_def)
  moreover have "ops_fit [Append ''hello'', Insert 0 '' world'', Append ''longer text'', Remove 6, Trim] []" by (simp add: op_size_def)
  ultimately obtain ns b where
    "mbuf_run demo_realloc [Append ''hello'', Insert 0 '' world'', Append ''longer text'', Remove 6, Trim] (mbuf_init demo_realloc 0) = Inr (ns, b)"
    "mbuf_bytes b = bytes_run [Append ''hello'', Insert 0 '' world'', Append ''longer text'', Remove 6, Trim] ns []" "mb_len b \<le> mb_size b"
    using mbuf_refines [of demo_realloc "[Append ''hello'', Insert 0 '' world'', Append ''longer text'', Remove 6, Trim]" 0] by blast
  moreover from this(1) have "ns = [5, 6, 0, 0, 0]"
    by (simp add: mbuf_append_def mbuf_insert_def mbuf_init_def mbuf_resize_def mbuf_realloc_def demo_realloc_def mbuf_put_def peekn_def poke_def
        memcpy_def mbuf_remove_def mbuf_trim_def Let_def upt_rec) (auto simp: eval_nat_numeral)
  ultimately show ?thesis by simp
qed

end
