(* ===== verification/Uri.thy ===== *)
theory Uri
  imports Mbuf
begin

section \<open>URIs (mg_uri.c)\<close>

text \<open>
  Parsing, assembling and normalizing URIs. A \<open>mg_str\<close> is an offset into a block of memory and a
  length; NULL is None. Every access to the block is checked.
\<close>

type_synonym mg_str = "nat \<times> nat"

definition str_bytes :: "char list \<Rightarrow> mg_str \<Rightarrow> char list" where
  "str_bytes mem s = take (snd s) (drop (fst s) mem)"

subsection \<open>Components\<close>

function scan_component :: "char list \<Rightarrow> nat \<Rightarrow> nat \<Rightarrow> char list \<Rightarrow> nat res" where
  \<comment> \<open>the pointer at the end of the loop\<close>
  "scan_component mem p e seps =
     (if p < e then bindE (peek mem p) (\<lambda>c. if c \<in> set seps then Inr p else scan_component mem (Suc p) e seps) else Inr p)"
  by pat_completeness auto
termination by (relation "measure (\<lambda>(mem, p, e, seps). e - p)") auto

declare scan_component.simps [simp del]

definition parse_uri_component :: "char list \<Rightarrow> nat \<Rightarrow> nat \<Rightarrow> char list \<Rightarrow> (mg_str \<times> nat) res" where
  \<comment> \<open>the component and the pointer behind the separator\<close>
  "parse_uri_component mem p e seps =
     bindE (scan_component mem p e seps) (\<lambda>q. Inr ((p, q - p), if q < e then Suc q else q))"

lemma scan_component_bounds: "scan_component mem p e seps = Inr q \<Longrightarrow> p \<le> q \<and> (p \<le> e \<longrightarrow> q \<le> e)"
proof (induction mem p e seps rule: scan_component.induct)
  case (1 mem p e seps)
  show ?case
  proof (cases "p < e")
    case True
    with "1.prems" obtain c where "c \<in> set seps \<and> q = p \<or> peek mem p = Inr c \<and> c \<notin> set seps \<and> scan_component mem (Suc p) e seps = Inr q"
      by (subst (asm) scan_component.simps) (auto simp: bindE_Inr_iff split: if_splits)
    with "1.IH" [OF True, of c] True show ?thesis by auto
  qed (use "1.prems" in \<open>subst (asm) scan_component.simps, simp\<close>)
qed

lemma parse_uri_component_next:
  "parse_uri_component mem p e seps = Inr (c, n) \<Longrightarrow> p < e \<Longrightarrow> p < n \<and> n \<le> e"
  by (auto simp: parse_uri_component_def bindE_Inr_iff dest: scan_component_bounds split: if_splits)

lemma scan_component_slice:
  "e \<le> length mem \<Longrightarrow> p \<le> e \<Longrightarrow> scan_component mem p e seps = Inr (p + length (takeWhile (\<lambda>c. c \<notin> set seps) (take (e - p) (drop p mem))))"
proof (induction mem p e seps rule: scan_component.induct)
  case (1 mem p e seps)
  show ?case
  proof (cases "p < e")
    case True
    then have d: "take (e - p) (drop p mem) = mem ! p # take (e - Suc p) (drop (Suc p) mem)"
      using "1.prems" by (simp add: Cons_nth_drop_Suc [symmetric] take_Cons' Suc_diff_Suc [symmetric])
    show ?thesis
      using True "1.prems" "1.IH" [OF True, of "mem ! p"] by (subst scan_component.simps) (simp add: d)
  qed (use "1.prems" in \<open>subst scan_component.simps, simp\<close>)
qed

subsection \<open>Normalizing a path\<close>

fun backtrack :: "char list \<Rightarrow> nat \<Rightarrow> nat \<Rightarrow> nat res" where
  "backtrack mem cp d =
     (if d > cp then bindE (peek mem (d - 1)) (\<lambda>c. if c \<noteq> CHR ''/'' then backtrack mem cp (d - 1) else Inr d) else Inr d)"

declare backtrack.simps [simp del]

function normalize_loop :: "char list \<Rightarrow> nat \<Rightarrow> nat \<Rightarrow> nat \<Rightarrow> nat \<Rightarrow> (char list \<times> nat) res" where
  "normalize_loop mem cp s se d =
     (if s < se
      then bindE (parse_uri_component mem s se ''/'') (\<lambda>(component, nxt).
           bindE (peekn mem (fst component) (snd component)) (\<lambda>cs.
           if mg_vcmp cs ''.'' = 0 then normalize_loop mem cp nxt se d
           else if mg_vcmp cs ''..'' = 0
           then bindE (if d > cp + 1 then bindE (peek mem (d - 1)) (\<lambda>c. Inr (if c = CHR ''/'' then d - 1 else d)) else Inr d) (\<lambda>d.
                bindE (backtrack mem cp d) (\<lambda>d. normalize_loop mem cp nxt se d))
           else bindE (peekn mem s (nxt - s)) (\<lambda>x.
                bindE (poke mem d x) (\<lambda>mem. normalize_loop mem cp nxt se (d + (nxt - s))))))
      else Inr (mem, d))"
  by pat_completeness auto
termination
  by (relation "measure (\<lambda>(mem, cp, s, se, d). se - s)") (auto dest!: parse_uri_component_next)

declare normalize_loop.simps [simp del]

definition mg_normalize_uri_path :: "char list \<Rightarrow> mg_str \<Rightarrow> nat \<Rightarrow> (int \<times> char list \<times> nat) res" where
  \<comment> \<open>the input, and where the output goes, which may be the same place; the length of the output\<close>
  "mg_normalize_uri_path mem inp cp =
     (if snd inp = 0 then Inr (0, mem, 0)
      else bindE (peek mem (fst inp)) (\<lambda>c.
           if c \<noteq> CHR ''/'' then Inr (0, mem, 0)
           else bindE (normalize_loop mem cp (fst inp) (fst inp + snd inp) cp) (\<lambda>(mem, d).
                bindE (if d = cp then bindE (poke mem d ''/'') (\<lambda>mem. Inr (mem, Suc d)) else Inr (mem, d)) (\<lambda>(mem, d).
                Inr (1, mem, d - cp)))))"

text \<open>The reference: a path is a list of components, each with the slash behind it, and \<open>..\<close> removes the one before.\<close>

function chunks :: "char list \<Rightarrow> char list list" where
  "chunks xs =
     (if xs = [] then []
      else let c = takeWhile (\<lambda>x. x \<noteq> CHR ''/'') xs in take (Suc (length c)) xs # chunks (drop (Suc (length c)) xs))"
  by pat_completeness auto
termination by (relation "measure length") auto

declare chunks.simps [simp del]

definition name_of :: "char list \<Rightarrow> char list" where
  "name_of k = takeWhile (\<lambda>x. x \<noteq> CHR ''/'') k"

fun resolve_step :: "char list list \<Rightarrow> char list \<Rightarrow> char list list" where
  \<comment> \<open>the components so far, the last one first\<close>
  "resolve_step st k =
     (if name_of k = ''.'' then st
      else if name_of k = ''..'' then (if length st > 1 then tl st else st)
      else k # st)"

definition resolve :: "char list \<Rightarrow> char list" where
  "resolve p = concat (rev (foldl resolve_step [] (chunks p)))"

definition no_dots :: "char list \<Rightarrow> bool" where
  "no_dots p \<longleftrightarrow> (\<forall>k\<in>set (chunks p). name_of k \<noteq> ''.'' \<and> name_of k \<noteq> ''..'')"

lemma chunks_Nil [simp]: "chunks [] = []"
  by (subst chunks.simps) simp

definition full :: "char list \<Rightarrow> bool" where
  "full k \<longleftrightarrow> (\<exists>c. CHR ''/'' \<notin> set c \<and> k = c @ ''/'')"

definition stack_fits :: "char list list \<Rightarrow> bool" where
  "stack_fits st \<longleftrightarrow> (\<forall>k\<in>set st. full k) \<and> (st \<noteq> [] \<longrightarrow> last st = ''/'')"

lemma backtrack_to_slash:
  "CHR ''/'' \<notin> set c \<Longrightarrow> pre = [] \<or> last pre = CHR ''/'' \<Longrightarrow> d \<le> length mem \<Longrightarrow> cp \<le> d \<Longrightarrow>
   take (d - cp) (drop cp mem) = pre @ c \<Longrightarrow> backtrack mem cp d = Inr (cp + length pre)"
proof (induction c arbitrary: d rule: rev_induct)
  case Nil
  then have l: "length pre = d - cp" by (metis append_Nil2 diff_le_mono length_drop length_take min.absorb2)
  show ?case
  proof (cases "d = cp")
    case True
    then show ?thesis using l by (subst backtrack.simps) simp
  next
    case False
    then have "pre \<noteq> []" using l Nil.prems(4) by auto
    have "mem ! (d - 1) = take (d - cp) (drop cp mem) ! (d - cp - 1)" using False Nil.prems(3,4) by simp
    also have "\<dots> = last pre" using Nil.prems(5) l \<open>pre \<noteq> []\<close> by (simp add: last_conv_nth)
    finally have "mem ! (d - 1) = CHR ''/''" using Nil.prems(2) \<open>pre \<noteq> []\<close> by simp
    then show ?thesis using False Nil.prems(3,4) l by (subst backtrack.simps) simp
  qed
next
  case (snoc x c)
  have l: "d - cp = Suc (length (pre @ c))"
    using arg_cong [OF snoc.prems(5), of length] snoc.prems(3,4) by simp
  have d: "d = Suc (cp + length (pre @ c))" using l by simp
  have "mem ! (d - 1) = take (d - cp) (drop cp mem) ! length (pre @ c)" using d snoc.prems(3,4) by simp
  also have "\<dots> = x" unfolding snoc.prems(5) by (simp add: nth_append)
  finally have x: "mem ! (d - 1) \<noteq> CHR ''/''" using snoc.prems(1) by auto
  have "d - 1 - cp = length (pre @ c)" using l by simp
  then have "take (d - 1 - cp) (drop cp mem) = take (length (pre @ c)) (take (d - cp) (drop cp mem))" using l by (simp add: min_def)
  then have "take (d - 1 - cp) (drop cp mem) = pre @ c" unfolding snoc.prems(5) by simp
  then have "backtrack mem cp (d - 1) = Inr (cp + length pre)"
    using snoc.prems l by (intro snoc.IH) auto
  moreover have "cp < d" using l by simp
  ultimately show ?case using x snoc.prems(3,4) by (subst backtrack.simps) simp
qed

lemma go_up:
  assumes "stack_fits st" and "d = cp + length (concat (rev st))" and "d \<le> length mem" and "take (d - cp) (drop cp mem) = concat (rev st)"
  shows "bindE (if d > cp + 1 then bindE (peek mem (d - 1)) (\<lambda>c. Inr (if c = CHR ''/'' then d - 1 else d)) else Inr d) (backtrack mem cp) =
    Inr (cp + length (concat (rev (if length st > 1 then tl st else st))))"
proof (cases st)
  case Nil
  then show ?thesis using assms(2) by (simp add: backtrack.simps)
next
  case (Cons k st')
  then obtain c where c: "CHR ''/'' \<notin> set c" "k = c @ ''/''" using assms(1) by (auto simp: stack_fits_def full_def)
  have out: "take (d - cp) (drop cp mem) = (concat (rev st') @ c) @ ''/''" using assms(4) Cons c by simp
  have l: "d - cp = Suc (length (concat (rev st') @ c))" using assms(2) Cons c by simp
  have "mem ! (d - 1) = take (d - cp) (drop cp mem) ! length (concat (rev st') @ c)" using l assms(2,3) by simp
  also have "\<dots> = CHR ''/''" unfolding out by (simp add: nth_append)
  finally have x: "mem ! (d - 1) = CHR ''/''" .
  show ?thesis
  proof (cases "st' = []")
    case True
    then have k: "k = ''/''" using assms(1) Cons by (simp add: stack_fits_def)
    then have "backtrack mem cp d = Inr d" using True Cons assms(2,3) x by (subst backtrack.simps) simp
    then show ?thesis using True k Cons assms(2) by simp
  next
    case False
    then have "last st' = ''/''" using assms(1) Cons by (simp add: stack_fits_def)
    then have "''/'' \<in> set st'" using last_in_set [OF False] by simp
    then have "concat (rev st') \<noteq> []" by (auto simp: concat_eq_Nil_conv)
    then have "0 < length (concat (rev st'))" by (rule length_greater_0_conv [THEN iffD2])
    then have g: "d > cp + 1" using l unfolding length_append by linarith
    obtain k2 st2 where st': "st' = k2 # st2" using False by (cases st') auto
    then obtain c2 where c2: "k2 = c2 @ ''/''" using assms(1) Cons by (auto simp: stack_fits_def full_def)
    have "d - 1 - cp = length (concat (rev st') @ c)" using l by linarith
    then have "take (d - 1 - cp) (drop cp mem) = take (length (concat (rev st') @ c)) (take (d - cp) (drop cp mem))"
      using l by (simp only: take_take min.absorb1 [OF le_SucI [OF order_refl]])
    then have t: "take (d - 1 - cp) (drop cp mem) = concat (rev st') @ c" unfolding out by simp
    have "backtrack mem cp (d - 1) = Inr (cp + length (concat (rev st')))"
      by (rule backtrack_to_slash [OF c(1) _ _ _ t]) (use g assms(3) in \<open>simp_all add: st' c2\<close>)
    then show ?thesis using g x assms(3) Cons st' by simp
  qed
qed

lemma name_of_take: "name_of (take (Suc (length (takeWhile (\<lambda>x. x \<noteq> CHR ''/'') xs))) xs) = takeWhile (\<lambda>x. x \<noteq> CHR ''/'') xs"
  unfolding name_of_def by (induction xs) auto

lemma chunk_full:
  "Suc (length (takeWhile (\<lambda>x. x \<noteq> CHR ''/'') xs)) \<le> length xs \<Longrightarrow> full (take (Suc (length (takeWhile (\<lambda>x. x \<noteq> CHR ''/'') xs))) xs)"
proof (induction xs)
  case (Cons x xs)
  show ?case
  proof (cases "x = CHR ''/''")
    case False
    then obtain c where "CHR ''/'' \<notin> set c" "take (Suc (length (takeWhile (\<lambda>x. x \<noteq> CHR ''/'') xs))) xs = c @ ''/''"
      using Cons by (auto simp: full_def)
    then show ?thesis using False unfolding full_def by (intro exI [of _ "x # c"]) auto
  qed (auto simp: full_def)
qed simp


lemma take_eq_prefix: "take m xs = a @ b \<Longrightarrow> take (length a) xs = a"
  by (metis append_eq_conv_conj length_append min.absorb1 le_add1 take_take append_take_drop_id length_take min.bounded_iff nle_le)

lemma drop_eq_mono: "drop a xs = drop a ys \<Longrightarrow> a \<le> b \<Longrightarrow> drop b xs = drop b ys"
  by (metis drop_drop le_add_diff_inverse2)

lemma normalize_loop_resolves:
  assumes "s \<le> se" and "se \<le> length mem" and "length mem < 2 ^ 31" and "d \<le> s \<or> se \<le> cp \<and> d + (se - s) \<le> length mem"
    and "s < se \<Longrightarrow> stack_fits st" and "st = [] \<Longrightarrow> s < se \<Longrightarrow> mem ! s = CHR ''/''"
    and "d = cp + length (concat (rev st))" and "take (d - cp) (drop cp mem) = concat (rev st)" and "d \<le> length mem"
  shows "\<exists>mem' out. out = concat (rev (foldl resolve_step st (chunks (take (se - s) (drop s mem))))) \<and>
    normalize_loop mem cp s se d = Inr (mem', cp + length out) \<and> take (length out) (drop cp mem') = out \<and>
    length mem' = length mem \<and> take cp mem' = take cp mem \<and> drop (d + (se - s)) mem' = drop (d + (se - s)) mem \<and> length out \<le> d - cp + (se - s)"
  using assms
proof (induction "se - s" arbitrary: s d mem st rule: less_induct)
  case less
  note p = less.prems
  show ?case
  proof (cases "s < se")
    case False
    then show ?thesis using p by (subst normalize_loop.simps) simp
  next
    case True
    define xs where "xs = take (se - s) (drop s mem)"
    define c where "c = takeWhile (\<lambda>x. x \<noteq> CHR ''/'') xs"
    define k where "k = take (Suc (length c)) xs"
    define nxt where "nxt = s + length k"
    have lx: "length xs = se - s" using p(1,2) by (simp add: xs_def)
    have cx: "length c \<le> length xs" by (simp add: c_def length_takeWhile_le)
    have lk: "length k = min (Suc (length c)) (se - s)" by (simp add: k_def lx min.commute)
    have n: "s < nxt" "nxt \<le> se" using True lk by (auto simp: nxt_def)
    have scan: "scan_component mem s se ''/'' = Inr (s + length c)"
      using scan_component_slice [OF p(2,1), of "''/''"] by (simp add: c_def xs_def)
    have "(if s + length c < se then Suc (s + length c) else s + length c) = nxt"
      using cx lx lk by (auto simp: nxt_def)
    then have parse: "parse_uri_component mem s se ''/'' = Inr ((s, length c), nxt)" by (simp add: parse_uri_component_def scan)
    have "take (length c) (drop s mem) = take (length c) xs" using cx lx by (simp add: xs_def min_def)
    also have "\<dots> = c" unfolding c_def by (simp add: takeWhile_eq_take [symmetric])
    finally have comp: "peekn mem s (length c) = Inr c" using cx lx p(2) True by (simp add: peekn_def)
    have "length c \<le> length mem" using cx lx p(2) by simp
    then have cmp: "mg_vcmp c ''.'' = 0 \<longleftrightarrow> c = ''.''" "mg_vcmp c ''..'' = 0 \<longleftrightarrow> c = ''..''"
      using p(3) by (auto simp: mg_vcmp_eq)
    have rest: "take (se - nxt) (drop nxt mem) = drop (length k) xs"
      by (simp add: xs_def nxt_def drop_take add.commute)
    have "xs \<noteq> []" using True lx by auto
    then have chunks: "chunks xs = k # chunks (drop (length k) xs)"
      using True lx by (subst chunks.simps) (auto simp: Let_def c_def [symmetric] k_def lx lk min_def)
    have name: "name_of k = c" by (simp add: k_def c_def name_of_take)
    have fit: "stack_fits st" by (rule p(5)) (rule True)
    have kfull: "full k" if "nxt < se"
    proof -
      have "Suc (length c) \<le> length xs" using that lk lx by (auto simp: nxt_def)
      then show ?thesis unfolding k_def c_def by (rule chunk_full)
    qed
    have dec: "se - nxt < se - s" using n by simp
    show ?thesis
    proof (cases "c = ''.'' \<or> c = ''..''")
      case True
      let ?st = "resolve_step st k"
      obtain d' where loop: "normalize_loop mem cp s se d = normalize_loop mem cp nxt se d'" "d' = cp + length (concat (rev ?st))" "d' \<le> d"
      proof (cases "c = ''.''")
        case c1: True
        have "normalize_loop mem cp s se d = normalize_loop mem cp nxt se d"
          using c1 \<open>s < se\<close> cmp(1) comp by (subst normalize_loop.simps) (simp add: parse)
        then show thesis by (rule that) (use c1 p(7) in \<open>simp_all add: name\<close>)
      next
        case False
        then have c2: "c = ''..''" using True by simp
        from go_up [OF fit p(7,9,8)] obtain e where
          e: "(if d > cp + 1 then bindE (peek mem (d - 1)) (\<lambda>c. Inr (if c = CHR ''/'' then d - 1 else d)) else Inr d) = Inr e"
          "backtrack mem cp e = Inr (cp + length (concat (rev (if length st > 1 then tl st else st))))"
          unfolding bindE_Inr_iff by blast
        have rs: "?st = (if length st > 1 then tl st else st)" using c2 by (simp add: name)
        have m: "(mg_vcmp c ''.'' = 0) = False" "(mg_vcmp c ''..'' = 0) = True" using cmp c2 by simp_all
        have "normalize_loop mem cp s se d = normalize_loop mem cp nxt se (cp + length (concat (rev ?st)))"
          unfolding rs by (subst normalize_loop.simps)
            (simp only: \<open>s < se\<close> if_True if_False parse bindE.simps prod.case fst_conv snd_conv comp m e)
        then show thesis by (rule that) (use p(7) in \<open>cases st; auto simp: name c2\<close>)+
      qed
      have ne: "st \<noteq> []"
      proof
        assume "st = []"
        then have "hd xs = CHR ''/''" using p(6,2) \<open>s < se\<close> by (simp add: xs_def hd_drop_conv_nth)
        then have "c = []" by (cases xs) (simp_all add: c_def)
        with True show False by simp
      qed
      obtain r where r: "concat (rev st) = concat (rev ?st) @ r"
        using True by (cases st; cases "tl st = []") (auto simp: name)
      have "take (length (concat (rev ?st))) (drop cp mem) = concat (rev ?st)"
        by (rule take_eq_prefix) (use p(8) r in simp)
      then have t: "take (d' - cp) (drop cp mem) = concat (rev ?st)" using loop(2) by simp
      have sf: "stack_fits ?st" using fit True ne by (cases st) (auto simp: name stack_fits_def)
      have ne': "?st \<noteq> []" using ne True by (cases st) (auto simp: name)
      have "\<exists>mem' out. out = concat (rev (foldl resolve_step ?st (chunks (take (se - nxt) (drop nxt mem))))) \<and>
        normalize_loop mem cp nxt se d' = Inr (mem', cp + length out) \<and> take (length out) (drop cp mem') = out \<and>
        length mem' = length mem \<and> take cp mem' = take cp mem \<and> drop (d' + (se - nxt)) mem' = drop (d' + (se - nxt)) mem \<and>
        length out \<le> d' - cp + (se - nxt)"
        by (rule less.hyps [OF dec n(2) p(2,3) _ sf _ loop(2) t]) (use p(4,9) n loop(3) ne' in auto)
      then obtain mem' out where m: "out = concat (rev (foldl resolve_step ?st (chunks (take (se - nxt) (drop nxt mem)))))"
        "normalize_loop mem cp nxt se d' = Inr (mem', cp + length out)" "take (length out) (drop cp mem') = out"
        "length mem' = length mem" "take cp mem' = take cp mem" "drop (d' + (se - nxt)) mem' = drop (d' + (se - nxt)) mem"
        "length out \<le> d' - cp + (se - nxt)" by blast
      have "drop (d + (se - s)) mem' = drop (d + (se - s)) mem" using m(6) by (rule drop_eq_mono) (use loop(3) n in linarith)
      moreover have "length out \<le> d - cp + (se - s)" using m(7) loop(3) n by linarith
      moreover have "out = concat (rev (foldl resolve_step st (chunks xs)))" using m(1) unfolding chunks rest by simp
      ultimately show ?thesis unfolding loop(1) xs_def [symmetric] using m(2-5) by blast
    next
      case False
      let ?m = "take d mem @ k @ drop (d + length k) mem" and ?d = "d + length k"
      have room: "?d \<le> length mem" using p(2,4) n by (auto simp: nxt_def)
      have lm: "length ?m = length mem" using room by simp
      have "peekn mem s (nxt - s) = Inr (take (nxt - s) (drop s mem))" using n p(2) by (simp add: peekn_def)
      moreover have "take (nxt - s) (drop s mem) = k" using n lk by (simp add: k_def xs_def nxt_def min_def)
      ultimately have loop: "normalize_loop mem cp s se d = normalize_loop ?m cp nxt se ?d"
        using False \<open>s < se\<close> cmp room by (subst normalize_loop.simps) (simp add: parse comp poke_def nxt_def)
      have rest': "take (se - nxt) (drop nxt ?m) = take (se - nxt) (drop nxt mem)"
      proof (cases "d \<le> s")
        case True
        then have "?d \<le> nxt" by (simp add: nxt_def)
        then have "drop nxt ?m = drop (nxt - ?d) (drop ?d mem)" using room by (simp add: drop_append)
        then show ?thesis using \<open>?d \<le> nxt\<close> by simp
      next
        case False
        then have "se \<le> d" using p(4,7) by auto
        then have "take se ?m = take se mem" using room by simp
        then show ?thesis by (metis take_drop le_add_diff_inverse2 n(2))
      qed
      have t: "take (?d - cp) (drop cp ?m) = concat (rev (k # st))"
      proof -
        have "drop cp ?m = take (d - cp) (drop cp mem) @ k @ drop ?d mem" using p(7,9) by (simp add: drop_take)
        moreover have "length (take (d - cp) (drop cp mem)) = d - cp" using p(7,9) by simp
        ultimately show ?thesis using p(7,8) by simp
      qed
      have sf: "stack_fits (k # st)" if "nxt < se"
      proof (cases "st = []")
        case True
        then have "hd xs = CHR ''/''" using p(6,2) \<open>s < se\<close> by (simp add: xs_def hd_drop_conv_nth)
        then have "k = ''/''" using \<open>xs \<noteq> []\<close> by (cases xs) (simp_all add: c_def k_def)
        then show ?thesis using True by (simp add: stack_fits_def full_def)
      qed (use fit kfull [OF that] in \<open>auto simp: stack_fits_def\<close>)
      have "\<exists>mem' out. out = concat (rev (foldl resolve_step (k # st) (chunks (take (se - nxt) (drop nxt ?m))))) \<and>
        normalize_loop ?m cp nxt se ?d = Inr (mem', cp + length out) \<and> take (length out) (drop cp mem') = out \<and>
        length mem' = length ?m \<and> take cp mem' = take cp ?m \<and> drop (?d + (se - nxt)) mem' = drop (?d + (se - nxt)) ?m \<and>
        length out \<le> ?d - cp + (se - nxt)"
        by (rule less.hyps [OF dec n(2) _ _ _ sf _ _ t]) (use p(2,3,4,7) n room lm in \<open>auto simp: nxt_def\<close>)
      then obtain mem' out where m: "out = concat (rev (foldl resolve_step (k # st) (chunks (take (se - nxt) (drop nxt ?m)))))"
        "normalize_loop ?m cp nxt se ?d = Inr (mem', cp + length out)" "take (length out) (drop cp mem') = out"
        "length mem' = length ?m" "take cp mem' = take cp ?m" "drop (?d + (se - nxt)) mem' = drop (?d + (se - nxt)) ?m"
        "length out \<le> ?d - cp + (se - nxt)" by blast
      have e: "?d + (se - nxt) = d + (se - s)" using n by (simp add: nxt_def)
      have "drop (d + (se - s)) mem' = drop (d + (se - s)) mem" using m(6) room n unfolding e by (simp add: drop_append nxt_def add.commute)
      moreover have "take cp mem' = take cp mem" using m(5) p(7,9) by simp
      moreover have "length mem' = length mem" using m(4) lm by simp
      moreover have "length out \<le> d - cp + (se - s)" using m(7) e p(7) by linarith
      moreover have "out = concat (rev (foldl resolve_step st (chunks xs)))" using m(1) False unfolding chunks rest rest' by (simp add: name)
      ultimately show ?thesis unfolding loop xs_def [symmetric] using m(2,3) by blast
    qed
  qed
qed


lemma name_no_slash: "CHR ''/'' \<notin> set (name_of k)"
  unfolding name_of_def using set_takeWhileD by fastforce

lemma chunks_snoc_full:
  "\<forall>k\<in>set ks. full k \<Longrightarrow> chunks (concat ks @ xs) = ks @ chunks xs"
proof (induction ks)
  case (Cons k ks)
  then obtain c where c: "CHR ''/'' \<notin> set c" "k = c @ ''/''" by (auto simp: full_def)
  then have t: "takeWhile (\<lambda>x. x \<noteq> CHR ''/'') (c @ ''/'' @ concat ks @ xs) = c"
    by (subst takeWhile_append2) auto
  have "chunks (k @ concat ks @ xs) = k # chunks (concat ks @ xs)"
    using t c(2) by (subst chunks.simps) (simp add: Let_def)
  then show ?case using Cons by simp
qed simp

lemma chunks_open: "CHR ''/'' \<notin> set c \<Longrightarrow> c \<noteq> [] \<Longrightarrow> chunks c = [c]"
proof -
  assume a: "CHR ''/'' \<notin> set c" "c \<noteq> []"
  have t: "takeWhile (\<lambda>x. x \<noteq> CHR ''/'') c = c" using a(1) by (subst takeWhile_eq_all_conv) auto
  show ?thesis using a(2) by (subst chunks.simps) (simp add: Let_def t)
qed

lemma chunks_shape: "\<exists>ks l. chunks xs = ks @ l \<and> (\<forall>k\<in>set ks. full k) \<and> (l = [] \<or> (\<exists>c. l = [c] \<and> c \<noteq> [] \<and> CHR ''/'' \<notin> set c))"
proof (induction xs rule: chunks.induct)
  case (1 xs)
  let ?c = "takeWhile (\<lambda>x. x \<noteq> CHR ''/'') xs"
  show ?case
  proof (cases "xs = []")
    case False
    from "1.IH" [OF False refl] obtain ks l where k: "chunks (drop (Suc (length ?c)) xs) = ks @ l" "\<forall>k\<in>set ks. full k"
      "l = [] \<or> (\<exists>c. l = [c] \<and> c \<noteq> [] \<and> CHR ''/'' \<notin> set c)" by blast
    have e: "chunks xs = take (Suc (length ?c)) xs # ks @ l" using False k(1) by (subst chunks.simps) (simp add: Let_def)
    show ?thesis
    proof (cases "Suc (length ?c) \<le> length xs")
      case True
      then show ?thesis using e k chunk_full [OF True] by (intro exI [of _ "take (Suc (length ?c)) xs # ks"] exI [of _ l]) simp
    next
      case short: False
      then have "length ?c = length xs" using length_takeWhile_le [of "\<lambda>x. x \<noteq> CHR ''/''" xs] by linarith
      then have "?c = xs" by (metis takeWhile_eq_take take_all order_refl)
      then have "CHR ''/'' \<notin> set xs" by (metis name_of_def name_no_slash)
      then show ?thesis using False by (intro exI [of _ "[]"] exI [of _ "[xs]"]) (simp add: chunks_open)
    qed
  qed (auto intro: exI [of _ "[]"])
qed

lemma resolve_step_cases:
  obtains "resolve_step st k = st" | "resolve_step st k = tl st" "length st > 1"
    | "resolve_step st k = k # st" "name_of k \<noteq> ''.''" "name_of k \<noteq> ''..''"
  by (cases "name_of k = ''.''"; cases "name_of k = ''..''"; cases "length st > 1") auto

lemma resolve_stack:
  "\<forall>k\<in>set ks. full k \<Longrightarrow> \<forall>k\<in>set st. full k \<and> name_of k \<noteq> ''.'' \<and> name_of k \<noteq> ''..'' \<Longrightarrow>
   (\<forall>k\<in>set (foldl resolve_step st ks). full k \<and> name_of k \<noteq> ''.'' \<and> name_of k \<noteq> ''..'')"
proof (induction ks arbitrary: st)
  case (Cons k ks)
  have "\<forall>j\<in>set (resolve_step st k). full j \<and> name_of j \<noteq> ''.'' \<and> name_of j \<noteq> ''..''"
  proof (rule resolve_step_cases [of st k])
    assume "resolve_step st k = tl st"
    moreover have "set (tl st) \<subseteq> set st" by (cases st) auto
    ultimately show ?thesis using Cons.prems(2) by (simp only:) blast
  next
    assume a: "resolve_step st k = st"
    show ?thesis unfolding a by (rule Cons.prems(2))
  next
    assume a: "resolve_step st k = k # st" and n: "name_of k \<noteq> ''.''" "name_of k \<noteq> ''..''"
    have "full k" using Cons.prems(1) by simp
    then show ?thesis unfolding a list.set ball_simps using Cons.prems(2) n by blast
  qed
  from Cons.IH [OF _ this] Cons.prems(1) show ?case by (simp del: resolve_step.simps)
qed simp

lemma resolve_plain:
  "\<forall>k\<in>set ks. name_of k \<noteq> ''.'' \<and> name_of k \<noteq> ''..'' \<Longrightarrow> foldl resolve_step st ks = rev ks @ st"
  by (induction ks arbitrary: st) auto

lemma resolve_chunks:
  obtains ks where "chunks (resolve xs) = ks" "resolve xs = concat ks" "\<forall>k\<in>set ks. name_of k \<noteq> ''.'' \<and> name_of k \<noteq> ''..''"
proof -
  obtain ks l where k: "chunks xs = ks @ l" "\<forall>k\<in>set ks. full k" "l = [] \<or> (\<exists>c. l = [c] \<and> c \<noteq> [] \<and> CHR ''/'' \<notin> set c)"
    using chunks_shape [of xs] by blast
  let ?st = "foldl resolve_step [] ks"
  have st: "\<forall>k\<in>set ?st. full k \<and> name_of k \<noteq> ''.'' \<and> name_of k \<noteq> ''..''" using resolve_stack [OF k(2), of "[]"] by simp
  note wit = that
  have sub: thesis if e: "foldl resolve_step [] (chunks xs) = st'" "set st' \<subseteq> set ?st" for st'
  proof (rule wit)
    have "\<forall>k\<in>set (rev st'). full k" using e(2) st by auto
    from chunks_snoc_full [OF this, of "[]"] show "chunks (resolve xs) = rev st'" by (simp add: resolve_def e(1))
  qed (use e st in \<open>auto simp: resolve_def\<close>)
  from k(3) show thesis
  proof
    assume "l = []"
    then show thesis using sub [of ?st] k(1) by simp
  next
    assume "\<exists>c. l = [c] \<and> c \<noteq> [] \<and> CHR ''/'' \<notin> set c"
    then obtain c where c: "l = [c]" "c \<noteq> []" "CHR ''/'' \<notin> set c" by blast
    then have n: "name_of c = c" by (auto simp: name_of_def takeWhile_eq_all_conv)
    have f: "foldl resolve_step [] (chunks xs) = resolve_step ?st c" using k(1) c(1) by simp
    show thesis
    proof (cases "c = ''.'' \<or> c = ''..''")
      case True
      then show thesis using n by (intro sub [OF f]; cases "foldl resolve_step [] ks") auto
    next
      case False
      have full: "\<forall>k\<in>set (rev ?st). full k" using st by simp
      have r: "resolve xs = concat (rev ?st) @ c" using f n False by (simp add: resolve_def)
      show thesis
      proof (rule that)
        show "chunks (resolve xs) = rev ?st @ [c]" unfolding r chunks_snoc_full [OF full] using c by (simp add: chunks_open)
      qed (use r n False st in auto)
    qed
  qed
qed

lemma resolve_safe: "no_dots (resolve xs)" "resolve (resolve xs) = resolve xs"
proof -
  from resolve_chunks [of xs] obtain ks where k: "chunks (resolve xs) = ks" "resolve xs = concat ks"
    "\<forall>k\<in>set ks. name_of k \<noteq> ''.'' \<and> name_of k \<noteq> ''..''" by blast
  then show "no_dots (resolve xs)" by (simp add: no_dots_def)
  have "resolve (resolve xs) = concat (rev (rev ks))"
    unfolding resolve_def [of "resolve xs"] k(1) using resolve_plain [OF k(3), of "[]"] by (simp only: append_Nil2)
  then show "resolve (resolve xs) = resolve xs" using k(2) by simp
qed

lemma resolve_hd:
  assumes "xs \<noteq> []" and "hd xs = CHR ''/''"
  shows "resolve xs \<noteq> []" "hd (resolve xs) = CHR ''/''"
proof -
  obtain ys where xs: "xs = CHR ''/'' # ys" using assms by (cases xs) auto
  then have c: "chunks xs = ''/'' # chunks ys" by (subst chunks.simps) simp
  have bottom: "foldl resolve_step (st @ [''/'']) ks \<in> {st' @ [''/''] |st'. True}" for st ks
  proof (induction ks arbitrary: st)
    case (Cons k ks)
    obtain st' where "resolve_step (st @ [''/'']) k = st' @ [''/'']"
      by (rule resolve_step_cases [of "st @ [''/'']" k]) (cases st; auto simp del: resolve_step.simps)+
    then show ?case using Cons [of st'] by (simp del: resolve_step.simps)
  qed auto
  have "foldl resolve_step [] (chunks xs) = foldl resolve_step ([] @ [''/'']) (chunks ys)" by (simp add: c name_of_def)
  with bottom [of "[]" "chunks ys"] obtain st' where "foldl resolve_step [] (chunks xs) = st' @ [''/'']" by auto
  then show "resolve xs \<noteq> []" "hd (resolve xs) = CHR ''/''" by (simp_all add: resolve_def)
qed

lemma normalize_resolves:
  assumes "fst inp + snd inp \<le> length mem" and "length mem < 2 ^ 31" and "path = str_bytes mem inp" and "path \<noteq> []" and "hd path = CHR ''/''"
    and "out \<le> fst inp \<or> fst inp + snd inp \<le> out \<and> out + snd inp \<le> length mem"
  shows "\<exists>mem'. mg_normalize_uri_path mem inp out = Inr (1, mem', length (resolve path)) \<and> str_bytes mem' (out, length (resolve path)) = resolve path \<and>
    length mem' = length mem \<and> take out mem' = take out mem \<and> drop (out + snd inp) mem' = drop (out + snd inp) mem \<and>
    length (resolve path) \<le> snd inp \<and> hd (resolve path) = CHR ''/'' \<and> no_dots (resolve path) \<and> resolve (resolve path) = resolve path"
proof -
  obtain s n where inp: "inp = (s, n)" by fastforce
  have p: "path = take n (drop s mem)" using assms(3) by (simp add: str_bytes_def inp)
  have n: "n > 0" using assms(4) p by auto
  have s: "s < length mem" "mem ! s = CHR ''/''" using assms(1,4,5) n by (simp_all add: inp p hd_drop_conv_nth)
  have "out \<le> length mem" using assms(1,6) by (auto simp: inp)
  then have "\<exists>mem' r. r = concat (rev (foldl resolve_step [] (chunks (take (s + n - s) (drop s mem))))) \<and>
      normalize_loop mem out s (s + n) out = Inr (mem', out + length r) \<and> take (length r) (drop out mem') = r \<and>
      length mem' = length mem \<and> take out mem' = take out mem \<and> drop (out + (s + n - s)) mem' = drop (out + (s + n - s)) mem \<and> length r \<le> out - out + (s + n - s)"
    by (intro normalize_loop_resolves) (use assms(1,2,6) s in \<open>simp_all add: inp stack_fits_def\<close>)
  then obtain mem' where m: "normalize_loop mem out s (s + n) out = Inr (mem', out + length (resolve path))"
    "take (length (resolve path)) (drop out mem') = resolve path" "length mem' = length mem" "take out mem' = take out mem"
    "drop (out + n) mem' = drop (out + n) mem" "length (resolve path) \<le> n"
    by (auto simp: resolve_def [symmetric] p [symmetric])
  have "mg_normalize_uri_path mem inp out = Inr (1, mem', length (resolve path))"
    using resolve_hd [OF assms(4,5)] n s m(1) by (simp add: mg_normalize_uri_path_def inp)
  then show ?thesis using m resolve_hd [OF assms(4,5)] resolve_safe [of path] by (simp add: inp str_bytes_def)
qed

text \<open>
  C15. Normalizing a path in place, or into a disjoint buffer, stays inside the block and yields the reference: the
  components with \<open>.\<close> dropped and each \<open>..\<close> dropped together with the component before it, if there
  is one. The result starts with a slash, is not longer than the path, names no \<open>.\<close> or \<open>..\<close>, and
  normalizing it again changes nothing.
\<close>

theorem normalize_uri_path_resolves:
  assumes "fst inp + snd inp \<le> length mem" and "length mem < 2 ^ 31" and "path = str_bytes mem inp" and "path \<noteq> []" and "hd path = CHR ''/''"
    and "out \<le> fst inp \<or> fst inp + snd inp \<le> out \<and> out + snd inp \<le> length mem"
  shows "\<exists>mem'. mg_normalize_uri_path mem inp out = Inr (1, mem', length (resolve path)) \<and> str_bytes mem' (out, length (resolve path)) = resolve path \<and>
    length mem' = length mem \<and> take out mem' = take out mem \<and> drop (out + snd inp) mem' = drop (out + snd inp) mem \<and>
    length (resolve path) \<le> snd inp \<and> hd (resolve path) = CHR ''/'' \<and> no_dots (resolve path) \<and> resolve (resolve path) = resolve path"
  by (rule normalize_resolves [OF assms])

theorem normalize_uri_path_resolves_witness:
  "\<exists>mem'. mg_normalize_uri_path ''GET /a/./../b//../..%2e/c'' (4, 21) 4 = Inr (1, mem', 10) \<and> str_bytes mem' (4, 10) = ''/b/..%2e/c''"
proof -
  let ?m = "''GET /a/./../b//../..%2e/c''" and ?p = "''/a/./../b//../..%2e/c''"
  have r: "resolve ?p = ''/b/..%2e/c''" by (simp add: resolve_def chunks.simps name_of_def Let_def)
  have l: "length ''/b/..%2e/c'' = 10" by simp
  have "fst (4 :: nat, 21 :: nat) + snd (4 :: nat, 21 :: nat) \<le> length ?m" "length ?m < 2 ^ 31" "?p = str_bytes ?m (4, 21)" "?p \<noteq> []"
    "hd ?p = CHR ''/''" "4 \<le> fst (4 :: nat, 21 :: nat) \<or> fst (4 :: nat, 21 :: nat) + snd (4 :: nat, 21 :: nat) \<le> 4 \<and> 4 + snd (4 :: nat, 21 :: nat) \<le> length ?m"
    by (simp_all add: str_bytes_def)
  from normalize_uri_path_resolves [OF this] show ?thesis unfolding r l by blast
qed

end
