(* ===== verification/HttpMsg.thy ===== *)
theory HttpMsg
  imports Async Uri
begin

section \<open>HTTP messages (mg_http.c)\<close>

text \<open>
  The parser of requests and responses, the decoding of chunked bodies, and the handler that the web
  server runs when bytes have arrived. The buffer is the contents of \<open>recv_mbuf\<close>; a message refers to it
  by offsets. Its length is a \<open>size_t\<close> that becomes an \<open>int\<close> where the handler calls the parser. The limits are those that
  \<open>mongoose.h\<close> sets for Unix: 40 entries for headers, 8192 bytes for a head; the handshake of WebSocket is switched off by the Makefile, and
  streamed multipart bodies by default.
\<close>

subsection \<open>The head of a message\<close>

definition bad_byte :: "char \<Rightarrow> bool" where
  "bad_byte c \<longleftrightarrow> \<not> isprint c \<and> c \<noteq> CHR 0x0D \<and> c \<noteq> CHR 0x0A \<and> (of_char c :: nat) < 128"

fun request_len :: "char list \<Rightarrow> nat \<Rightarrow> int" where
  \<comment> \<open>the loop of \<open>mg_http_get_request_len\<close> over the bytes from index \<open>i\<close> on\<close>
  "request_len [] i = 0"
| "request_len (c # cs) i =
     (if bad_byte c then -1
      else if c = CHR 0x0A \<and> take 1 cs = [CHR 0x0A] then int i + 2
      else if c = CHR 0x0A \<and> take 2 cs = [CHR 0x0D, CHR 0x0A] then int i + 3
      else request_len cs (Suc i))"

definition mg_http_get_request_len :: "char list \<Rightarrow> int \<Rightarrow> int" where
  \<comment> \<open>the length is an \<open>int\<close>; it is at most that of the buffer, and may be negative\<close>
  "mg_http_get_request_len buf buf_len = request_len (take (nat buf_len) buf) 0"

definition is_delim :: "char list \<Rightarrow> char \<Rightarrow> bool" where
  \<comment> \<open>\<open>strchr\<close> also finds the NUL that ends its string\<close>
  "is_delim delims c \<longleftrightarrow> c \<in> set delims \<or> c = NUL"

function skip_while :: "(char \<Rightarrow> bool) \<Rightarrow> char list \<Rightarrow> nat \<Rightarrow> nat \<Rightarrow> nat res" where
  "skip_while P buf s e =
     (if s < e then bindE (peek buf s) (\<lambda>c. if P c then skip_while P buf (Suc s) e else Inr s) else Inr s)"
  by pat_completeness auto
termination by (relation "measure (\<lambda>(P, buf, s, e). e - s)") auto

declare skip_while.simps [simp del]

definition mg_skip :: "char list \<Rightarrow> nat \<Rightarrow> nat \<Rightarrow> char list \<Rightarrow> (mg_str \<times> nat) res" where
  "mg_skip buf s e delims =
     bindE (skip_while (\<lambda>c. \<not> is_delim delims c) buf s e) (\<lambda>q.
     bindE (skip_while (is_delim delims) buf q e) (\<lambda>r. Inr ((s, q - s), r)))"

function trim_value :: "char list \<Rightarrow> mg_str \<Rightarrow> mg_str res" where
  "trim_value buf v =
     (if snd v > 0
      then bindE (peek buf (fst v + snd v - 1)) (\<lambda>c. if c = CHR '' '' then trim_value buf (fst v, snd v - 1) else Inr v)
      else Inr v)"
  by pat_completeness auto
termination by (relation "measure (\<lambda>(buf, v). snd v)") auto

declare trim_value.simps [simp del]

definition MG_MAX_HTTP_HEADERS :: nat where "MG_MAX_HTTP_HEADERS = 40"

record http_message =
  message :: mg_str
  body :: mg_str
  meth :: mg_str
  uri :: mg_str
  proto :: mg_str
  resp_code :: int
  resp_status_msg :: mg_str
  query_string :: "mg_str option"
  headers :: "(mg_str \<times> mg_str) list" \<comment> \<open>the entries of \<open>header_names\<close> and \<open>header_values\<close> in use\<close>

definition set_content_length :: "nat \<Rightarrow> int \<Rightarrow> http_message \<Rightarrow> http_message" where
  "set_content_length len v req =
     (let n = nat (v mod 2 ^ 64) in req\<lparr>body := (fst (body req), n), message := (fst (message req), wrap64 (len + n))\<rparr>)"

lemma skip_while_bounds: "skip_while P buf s e = Inr q \<Longrightarrow> s \<le> q \<and> (s \<le> e \<longrightarrow> q \<le> e) \<and> (e \<le> s \<longrightarrow> q = s)"
proof (induction P buf s e rule: skip_while.induct)
  case (1 P buf s e)
  show ?case
  proof (cases "s < e")
    case True
    with "1.prems" obtain c where "peek buf s = Inr c" "\<not> P c \<and> q = s \<or> P c \<and> skip_while P buf (Suc s) e = Inr q"
      by (subst (asm) skip_while.simps) (auto simp: bindE_Inr_iff split: if_splits)
    with "1.IH" [OF True, of c] True show ?thesis by auto
  qed (use "1.prems" in \<open>subst (asm) skip_while.simps, simp\<close>)
qed

lemma mg_skip_bounds: "mg_skip buf s e delims = Inr (v, r) \<Longrightarrow> s + snd v \<le> r \<and> (s \<le> e \<longrightarrow> r \<le> e) \<and> fst v = s \<and> (e \<le> s \<longrightarrow> snd v = 0)"
  by (auto simp: mg_skip_def bindE_Inr_iff dest!: skip_while_bounds)

function mg_http_parse_headers :: "char list \<Rightarrow> nat \<Rightarrow> nat \<Rightarrow> nat \<Rightarrow> http_message \<Rightarrow> http_message res" where
  "mg_http_parse_headers buf s e len req =
     (if length (headers req) < MG_MAX_HTTP_HEADERS - 1
      then bindE (mg_skip buf s e '': '') (\<lambda>(k, s1).
           bindE (mg_skip buf s1 e [CHR 0x0D, CHR 0x0A]) (\<lambda>(v, s2).
           bindE (trim_value buf v) (\<lambda>v.
           if snd k \<noteq> 0 \<and> snd v = 0 then mg_http_parse_headers buf s2 e len req
           else if snd k = 0 \<or> snd v = 0 then Inr req
           else bindE (mg_ncasecmp (drop (fst k) buf) ''Content-Length'' 14) (\<lambda>diff.
                bindE (if diff = 0 then bindE (strtol10 (drop (fst v) buf)) (\<lambda>n. Inr (set_content_length len n req)) else Inr req) (\<lambda>req.
                mg_http_parse_headers buf s2 e len (req\<lparr>headers := headers req @ [(k, v)]\<rparr>))))))
      else Inr req)"
  by pat_completeness auto
termination
  by (relation "measure (\<lambda>(buf, s, e, len, req). MG_MAX_HTTP_HEADERS - length (headers req) + (e - s))")
    (auto simp: bindE_Inr_iff set_content_length_def Let_def dest!: mg_skip_bounds split: if_splits)

declare mg_http_parse_headers.simps [simp del]

definition parse_request_line :: "char list \<Rightarrow> nat \<Rightarrow> nat \<Rightarrow> http_message \<Rightarrow> (nat \<times> http_message) option res" where
  \<comment> \<open>None for the return with -1\<close>
  "parse_request_line buf s e hm =
     bindE (mg_skip buf s e '' '') (\<lambda>(m, s).
     bindE (mg_skip buf s e '' '') (\<lambda>(u, s).
     bindE (mg_skip buf s e [CHR 0x0D, CHR 0x0A]) (\<lambda>(p, s).
     let hm = hm\<lparr>meth := m, uri := u, proto := p\<rparr>
     in if fst u \<le> fst m \<or> fst p \<le> fst u then Inr None
        else bindE (scan_component buf (fst u) (fst u + snd u) ''?'') (\<lambda>qs.
             if qs < fst u + snd u
             then Inr (Some (s, hm\<lparr>query_string := Some (qs + 1, fst u + snd u - (qs + 1)), uri := (fst u, qs - fst u)\<rparr>))
             else Inr (Some (s, hm))))))"

definition parse_status_line :: "char list \<Rightarrow> nat \<Rightarrow> nat \<Rightarrow> http_message \<Rightarrow> (nat \<times> http_message) option res" where
  "parse_status_line buf s e hm =
     bindE (mg_skip buf s e '' '') (\<lambda>(p, s).
     let hm = hm\<lparr>proto := p\<rparr>
     in if e - s < 4 then Inr None
        else bindE (peek buf (s + 3)) (\<lambda>c.
             if c \<noteq> CHR '' '' then Inr None
             else bindE (strtol10 (drop s buf)) (\<lambda>code.
                  let code = to_int32 code; hm = hm\<lparr>resp_code := code\<rparr>
                  in if code < 100 \<or> code \<ge> 600 then Inr None
                     else bindE (mg_skip buf (s + 4) e [CHR 0x0D, CHR 0x0A]) (\<lambda>(msg, s).
                          Inr (Some (s, hm\<lparr>resp_status_msg := msg\<rparr>))))))"

definition mg_vcasecmp :: "char list \<Rightarrow> mg_str \<Rightarrow> char list \<Rightarrow> int res" where
  "mg_vcasecmp buf str1 str2 =
     (let n2 = length str2; n1 = snd str1
      in bindE (mg_ncasecmp (drop (fst str1) buf) (str2 @ [NUL]) (if n1 < n2 then n1 else n2)) (\<lambda>r.
         Inr (if r = 0 then to_int32 (int n1 - int n2) else r)))"

definition empty_message :: http_message where
  "empty_message = \<lparr>message = (0, 2 ^ 64 - 1), body = (0, 2 ^ 64 - 1), meth = (0, 0), uri = (0, 0), proto = (0, 0), resp_code = 0,
     resp_status_msg = (0, 0), query_string = None, headers = []\<rparr>"

definition mg_parse_http :: "char list \<Rightarrow> int \<Rightarrow> bool \<Rightarrow> (int \<times> http_message) res" where
  \<comment> \<open>the message counts only if the result is positive\<close>
  "mg_parse_http buf n is_req =
     (let len = mg_http_get_request_len buf n
      in if len \<le> 0 then Inr (len, empty_message)
         else let e = nat len; hm = empty_message\<lparr>body := (e, 2 ^ 64 - 1)\<rparr>
              in bindE (skip_while isspace buf 0 e) (\<lambda>s.
                 bindE (if is_req then parse_request_line buf s e hm else parse_status_line buf s e hm) (\<lambda>r.
                 case r of
                   None \<Rightarrow> Inr (-1, hm)
                 | Some (s, hm) \<Rightarrow>
                     bindE (mg_http_parse_headers buf s e e hm) (\<lambda>hm.
                     if snd (body hm) = 2 ^ 64 - 1 \<and> is_req
                     then bindE (mg_vcasecmp buf (meth hm) ''PUT'') (\<lambda>d.
                          if d = 0 then Inr (len, hm)
                          else bindE (mg_vcasecmp buf (meth hm) ''POST'') (\<lambda>d.
                               if d = 0 then Inr (len, hm)
                               else Inr (len, hm\<lparr>body := (fst (body hm), 0), message := (fst (message hm), e)\<rparr>)))
                     else Inr (len, hm)))))"

fun find_header :: "char list \<Rightarrow> char list \<Rightarrow> (mg_str \<times> mg_str) list \<Rightarrow> mg_str option res" where
  "find_header buf name [] = Inr None"
| "find_header buf name ((h, v) # hs) =
     (if snd h = length name
      then bindE (mg_ncasecmp (drop (fst h) buf) name (length name)) (\<lambda>d. if d = 0 then Inr (Some v) else find_header buf name hs)
      else find_header buf name hs)"

definition mg_get_http_header :: "char list \<Rightarrow> http_message \<Rightarrow> char list \<Rightarrow> mg_str option res" where
  "mg_get_http_header buf hm name = find_header buf name (headers hm)"

subsection \<open>Chunks\<close>

function chunk_length :: "char list \<Rightarrow> nat \<Rightarrow> nat \<Rightarrow> nat \<Rightarrow> (nat \<times> nat) res" where
  \<comment> \<open>the loop over the hexadecimal digits: \<open>n\<close> and \<open>i\<close>\<close>
  "chunk_length s len n i =
     (if i < len
      then bindE (peek s i) (\<lambda>c.
           if c_isxdigit c
           then chunk_length s len (wrap64 (wrap64 (n * 16) + (if is_digit c then of_char c - 48 else of_char (c_tolower c) - 97 + 10))) (Suc i)
           else Inr (n, i))
      else Inr (n, i))"
  by pat_completeness auto
termination by (relation "measure (\<lambda>(s, len, n, i). len - i)") auto

declare chunk_length.simps [simp del]

definition no_line_end :: "char list \<Rightarrow> nat \<Rightarrow> nat \<Rightarrow> bool res" where
  \<comment> \<open>\<open>i == 0 || i + 2 > len || s[i] != CR || s[i + 1] != LF\<close>\<close>
  "no_line_end s len i =
     (if i = 0 \<or> wrap64 (i + 2) > len then Inr True
      else bindE (peek s i) (\<lambda>a.
           if a \<noteq> CHR 0x0D then Inr True
           else bindE (peek s (wrap64 (i + 1))) (\<lambda>b. Inr (b \<noteq> CHR 0x0A))))"

definition mg_http_parse_chunk :: "char list \<Rightarrow> nat \<Rightarrow> (nat \<times> mg_str) res" where
  \<comment> \<open>the bytes of the chunk, or 0, and where its data is\<close>
  "mg_http_parse_chunk s len =
     bindE (chunk_length s len 0 0) (\<lambda>(n, i).
     bindE (no_line_end s len i) (\<lambda>none.
     if none then Inr (0, (0, 0))
     else let i = wrap64 (i + 2); data = (i, n); i = wrap64 (i + n)
          in bindE (no_line_end s len i) (\<lambda>none.
             if none then Inr (0, data) else Inr (wrap64 (i + 2), data))))"

function collapse :: "char list \<Rightarrow> nat \<Rightarrow> nat \<Rightarrow> nat \<Rightarrow> (nat \<times> nat \<times> bool \<times> char list) res" where
  \<comment> \<open>the loop of \<open>mg_handle_chunked\<close>: \<open>i\<close>, \<open>body_len\<close>, whether the last chunk was received, and the buffer\<close>
  "collapse buf blen i body_len =
     (if i \<le> blen
      then bindE (mg_http_parse_chunk (drop i buf) (blen - i)) (\<lambda>(n, (data, data_len)).
           if n = 0 then Inr (i, body_len, False, buf)
           else bindE (peekn buf (i + data) data_len) (\<lambda>d.
                bindE (poke buf body_len d) (\<lambda>buf.
                if data_len = 0 then Inr (i + n, body_len + data_len, True, buf)
                else collapse buf blen (i + n) (body_len + data_len))))
      else Inl OutOfBounds)"
  by pat_completeness auto
termination by (relation "measure (\<lambda>(buf, blen, i, body_len). Suc blen - i)") auto

declare collapse.simps [simp del]


subsection \<open>Receiving\<close>

text \<open>
  The connection, as far as the handler of the protocol uses it: the bytes received and not yet removed,
  \<open>pd->rcvd\<close>, \<open>pd->chunk.body_len\<close>, two flags, and the events its user was called with, each with the message and
  the buffer at that moment. The user is a parameter: whether it answers an event by setting
  \<open>MG_F_DELETE_CHUNK\<close>; the diary server never does. The default \<open>recv_mbuf_limit\<close> is never reached. The limits are those
  of the Unix section of \<open>mongoose.h\<close>, and websockets are switched off as the Makefile of the server does. The length of the buffer is
  a \<open>size_t\<close> that the calls of \<open>mg_parse_http\<close> narrow to an \<open>int\<close>.
\<close>

datatype http_event = HttpChunk http_message "char list" | HttpRequest http_message "char list"

record http_conn =
  io :: "char list"
  rcvd :: nat
  chunk_body_len :: nat
  close_now :: bool
  delete_chunk :: bool
  events :: "http_event list"

type_synonym http_user = "http_event \<Rightarrow> bool"

definition MG_MAX_HTTP_REQUEST_SIZE :: nat where "MG_MAX_HTTP_REQUEST_SIZE = 8192"

definition mg_call :: "http_user \<Rightarrow> http_event \<Rightarrow> http_conn \<Rightarrow> http_conn" where
  "mg_call user ev c = c\<lparr>delete_chunk := delete_chunk c \<or> user ev, events := events c @ [ev]\<rparr>"

definition mg_handle_chunked :: "http_user \<Rightarrow> nat \<Rightarrow> http_message \<Rightarrow> http_conn \<Rightarrow> (http_message \<times> http_conn) res" where
  \<comment> \<open>the buffer starts behind the head of the message\<close>
  "mg_handle_chunked user req_len hm c =
     (let buf = drop req_len (io c); blen = length buf; old = chunk_body_len c
      in if \<not> old \<le> blen then Inl AssertFailed
         else bindE (collapse buf blen old old) (\<lambda>(i, body_len, zero_chunk, buf).
              let hm = (if i = old then hm else hm\<lparr>body := (fst (body hm), body_len)\<rparr>)
              in if i > body_len
                 then if \<not> i \<le> blen then Inl AssertFailed
                      else let buf = take body_len buf @ drop i buf;
                               c = mg_call user (HttpChunk hm (take req_len (io c) @ buf))
                                     (c\<lparr>io := take req_len (io c) @ buf, chunk_body_len := body_len, delete_chunk := False\<rparr>);
                               (hm, c) = (if delete_chunk c
                                          then (hm\<lparr>body := (fst (body hm), 0)\<rparr>,
                                                c\<lparr>io := take req_len (io c) @ drop body_len buf, chunk_body_len := 0\<rparr>)
                                          else (hm, c))
                           in Inr (if zero_chunk
                                   then hm\<lparr>message := (fst (message hm), chunk_body_len c + (blen - i) + (fst (body hm) - fst (message hm)))\<rparr>
                                   else hm, c)
                 else Inr (hm, c)))"

definition deliver_chunk :: "http_user \<Rightarrow> nat \<Rightarrow> http_message \<Rightarrow> http_conn \<Rightarrow> http_message \<times> http_conn" where
  "deliver_chunk user req_len hm c =
     (let hm = hm\<lparr>body := (fst (body hm), length (io c) - req_len)\<rparr>;
          c = mg_call user (HttpChunk hm (io c)) (c\<lparr>delete_chunk := False\<rparr>)
      in (hm, if delete_chunk c then c\<lparr>io := take req_len (io c)\<rparr> else c))"

definition mg_http_recv :: "http_user \<Rightarrow> char list \<Rightarrow> http_conn \<Rightarrow> http_conn res" where
  \<comment> \<open>the bytes are appended to the buffer, then \<open>mg_http_handler\<close> gets MG_EV_RECV on a connection of a listener\<close>
  "mg_http_recv user bytes c =
     (let c = c\<lparr>io := io c @ bytes, rcvd := rcvd c + length bytes\<rparr>
      in bindE (mg_parse_http (io c) (to_int32 (int (length (io c)))) True) (\<lambda>(req_len, hm).
         bindE (if req_len > 0
                then bindE (mg_get_http_header (io c) hm ''Transfer-Encoding'') (\<lambda>te.
                     case te of
                       None \<Rightarrow> Inr (hm, c)
                     | Some v \<Rightarrow> bindE (mg_vcasecmp (io c) v ''chunked'') (\<lambda>d.
                                if d = 0 then mg_handle_chunked user (nat req_len) hm c else Inr (hm, c)))
                else Inr (hm, c)) (\<lambda>(hm, c).
         if req_len < 0 \<or> req_len = 0 \<and> length (io c) \<ge> MG_MAX_HTTP_REQUEST_SIZE then Inr (c\<lparr>close_now := True\<rparr>)
         else if req_len = 0 then Inr c
         else if snd (message hm) > rcvd c then Inr (snd (deliver_chunk user (nat req_len) hm c))
         else let (hm, c) = deliver_chunk user (nat req_len) hm c;
                  c = mg_call user (HttpRequest hm (io c)) c;
                  n = snd (message hm)
              in Inr (c\<lparr>io := if 0 < n \<and> n \<le> length (io c) then drop n (io c) else io c, rcvd := 0\<rparr>))))"

fun mg_http_recv_all :: "http_user \<Rightarrow> char list list \<Rightarrow> http_conn \<Rightarrow> http_conn res" where
  "mg_http_recv_all user [] c = Inr c"
| "mg_http_recv_all user (p # ps) c = bindE (mg_http_recv user p c) (mg_http_recv_all user ps)"

definition mg_http_close :: "http_user \<Rightarrow> http_conn \<Rightarrow> http_conn res" where
  \<comment> \<open>\<open>mg_http_handler\<close> gets MG_EV_CLOSE\<close>
  "mg_http_close user c =
     (if io c = [] then Inr (c\<lparr>rcvd := 0\<rparr>)
      else bindE (mg_parse_http (io c) (to_int32 (int (length (io c)))) True) (\<lambda>(req_len, hm).
           if req_len > 0
           then let hm = hm\<lparr>message := (fst (message hm), length (io c)), body := (fst (body hm), length (io c) - fst (body hm))\<rparr>;
                    (hm, c) = deliver_chunk user (nat req_len) hm c
                in Inr ((mg_call user (HttpRequest hm (io c)) c)\<lparr>rcvd := 0\<rparr>)
           else Inr (c\<lparr>rcvd := 0\<rparr>)))"

subsection \<open>Requests as they are written\<close>

definition line_ends :: "'a list \<Rightarrow> char list" where
  \<comment> \<open>the end of a line, and the empty line after the last one\<close>
  "line_ends hs = (if hs = [] then CRLF @ CRLF else CRLF)"

fun header_text :: "(char list \<times> char list) list \<Rightarrow> char list" where
  "header_text [] = []"
| "header_text ((k, v) # hs) = k @ '': '' @ v @ line_ends hs @ header_text hs"

definition request_head :: "char list \<Rightarrow> char list \<Rightarrow> char list \<Rightarrow> (char list \<times> char list) list \<Rightarrow> char list" where
  "request_head m u p hs = m @ '' '' @ u @ '' '' @ p @ line_ends hs @ header_text hs"

definition token :: "char list \<Rightarrow> bool" where
  "token t \<longleftrightarrow> t \<noteq> [] \<and> (\<forall>c\<in>set t. isprint c \<and> c \<noteq> CHR '' '')"

definition phrase :: "char list \<Rightarrow> bool" where
  "phrase t \<longleftrightarrow> t \<noteq> [] \<and> (\<forall>c\<in>set t. isprint c) \<and> hd t \<noteq> CHR '' '' \<and> last t \<noteq> CHR '' ''"

definition header_ok :: "char list \<times> char list \<Rightarrow> bool" where
  "header_ok h \<longleftrightarrow> token (fst h) \<and> CHR '':'' \<notin> set (fst h) \<and> phrase (snd h) \<and> hd (snd h) \<noteq> CHR '':''"

definition request_ok :: "char list \<Rightarrow> char list \<Rightarrow> char list \<Rightarrow> (char list \<times> char list) list \<Rightarrow> bool" where
  "request_ok m u p hs \<longleftrightarrow> token m \<and> token u \<and> phrase p \<and> (\<forall>h\<in>set hs. header_ok h) \<and> length hs < MG_MAX_HTTP_HEADERS"

subsection \<open>The length of the head\<close>

lemma request_len_take:
  "request_len xs i = int r \<Longrightarrow> 0 < r \<Longrightarrow> i < r \<and> r \<le> i + length xs \<and> request_len (take n xs) i = (if i + n < r then 0 else int r)"
proof (induction xs i arbitrary: n rule: request_len.induct)
  case (2 c cs i)
  have good: "\<not> bad_byte c" using "2.prems" by auto
  consider (lf) "c = CHR 0x0A" "take 1 cs = [CHR 0x0A]" "int r = int i + 2"
    | (crlf) "c = CHR 0x0A" "take 1 cs \<noteq> [CHR 0x0A]" "take 2 cs = [CHR 0x0D, CHR 0x0A]" "int r = int i + 3"
    | (more) "\<not> (c = CHR 0x0A \<and> take 1 cs = [CHR 0x0A])" "\<not> (c = CHR 0x0A \<and> take 2 cs = [CHR 0x0D, CHR 0x0A])" "request_len cs (Suc i) = int r"
    using "2.prems"(1) good by (auto split: if_splits)
  then show ?case
  proof cases
    case lf
    then obtain cs' where "cs = CHR 0x0A # cs'" by (cases cs) auto
    with lf good show ?thesis by (cases n; cases "n - 1") auto
  next
    case crlf
    then obtain cs' where "cs = CHR 0x0D # CHR 0x0A # cs'" by (cases cs; cases "tl cs") auto
    with crlf good show ?thesis by (cases n; cases "n - 1"; cases "n - 2") (auto simp: bad_byte_def)
  next
    case more
    have ih: "Suc i < r \<and> r \<le> Suc i + length cs \<and> request_len (take k cs) (Suc i) = (if Suc i + k < r then 0 else int r)" for k
      using "2.IH" [OF good more(1,2,3) "2.prems"(2)] by blast
    show ?thesis
    proof (cases n)
      case 0
      then show ?thesis using ih [of 0] by simp
    next
      case (Suc k)
      have "take 1 (take k cs) = [CHR 0x0A] \<Longrightarrow> take 1 cs = [CHR 0x0A]" by (cases k; cases cs) auto
      moreover have "take 2 (take k cs) = [CHR 0x0D, CHR 0x0A] \<Longrightarrow> take 2 cs = [CHR 0x0D, CHR 0x0A]"
        by (cases k; cases "k - 1"; cases cs; cases "tl cs") (auto simp: numeral_2_eq_2)
      ultimately have "request_len (take n (c # cs)) i = request_len (take k cs) (Suc i)"
        using good more(1,2) Suc by auto
      then show ?thesis using ih [of k] Suc by simp
    qed
  qed
qed auto

lemma isprint_not_bad: "isprint c \<Longrightarrow> \<not> bad_byte c \<and> c \<noteq> CHR 0x0D \<and> c \<noteq> CHR 0x0A \<and> c \<noteq> NUL"
  by (auto simp: bad_byte_def isprint_def)

lemma request_len_text: "\<forall>c\<in>set t. isprint c \<Longrightarrow> request_len (t @ rest) i = request_len rest (i + length t)"
proof (induction t arbitrary: i)
  case (Cons c t)
  have "request_len (c # t @ rest) i = request_len (t @ rest) (Suc i)" using isprint_not_bad [of c] Cons.prems by simp
  then show ?case using Cons by simp
qed simp

lemma request_len_line: "rest \<noteq> [] \<Longrightarrow> isprint (hd rest) \<Longrightarrow> request_len (CRLF @ rest) i = request_len rest (i + 2)"
  using isprint_not_bad [of "hd rest"] by (cases rest) (auto simp: bad_byte_def isprint_def)

lemma request_len_end: "request_len (CRLF @ CRLF @ rest) i = int i + 4"
  by (simp add: bad_byte_def isprint_def)

lemma header_ok_parts:
  assumes "header_ok (k, v)"
  shows "\<forall>c\<in>set k. isprint c" "\<forall>c\<in>set v. isprint c" "k \<noteq> []" "v \<noteq> []" "\<forall>c\<in>set k. c \<noteq> CHR '' '' \<and> c \<noteq> CHR '':''"
    "hd v \<noteq> CHR '' ''" "hd v \<noteq> CHR '':''" "last v \<noteq> CHR '' ''"
  using assms by (auto simp: header_ok_def token_def phrase_def)

lemma request_len_headers:
  "\<forall>h\<in>set hs. header_ok h \<Longrightarrow> request_len (line_ends hs @ header_text hs @ rest) i = int (i + length (line_ends hs @ header_text hs))"
proof (induction hs arbitrary: i)
  case Nil
  then show ?case using request_len_end [of rest i] by (simp add: line_ends_def)
next
  case (Cons h hs)
  obtain k v where h: "h = (k, v)" by fastforce
  then have ok: "header_ok (k, v)" "\<forall>h\<in>set hs. header_ok h" using Cons.prems by auto
  note p = header_ok_parts [OF ok(1)]
  let ?r = "line_ends hs @ header_text hs @ rest"
  have l: "line_ends ((k, v) # hs) = CRLF" by (simp add: line_ends_def)
  have "request_len (CRLF @ k @ '': '' @ v @ ?r) i = request_len (k @ '': '' @ v @ ?r) (i + 2)"
    by (rule request_len_line) (use p(1,3) in \<open>auto simp: hd_append\<close>)
  also have "\<dots> = request_len ((k @ '': '' @ v) @ ?r) (i + 2)" by simp
  also have "\<dots> = request_len ?r (i + 2 + length (k @ '': '' @ v))"
    by (rule request_len_text) (use p(1,2) in \<open>auto simp: isprint_def\<close>)
  also have "\<dots> = int (i + 2 + length (k @ '': '' @ v) + length (line_ends hs @ header_text hs))" by (rule Cons.IH [OF ok(2)])
  finally show ?case unfolding h l header_text.simps append_assoc by (simp del: request_len.simps)
qed

lemma request_len_request:
  assumes "request_ok m u p hs" and "int (length (request_head m u p hs)) \<le> n"
  shows "mg_http_get_request_len (request_head m u p hs @ rest) n = int (length (request_head m u p hs))"
proof -
  have t: "\<forall>c\<in>set (m @ '' '' @ u @ '' '' @ p). isprint c" using assms by (auto simp: request_ok_def token_def phrase_def isprint_def)
  have hs: "\<forall>h\<in>set hs. header_ok h" using assms by (simp add: request_ok_def)
  let ?rest = "take (nat n - length (request_head m u p hs)) rest"
  have "length (request_head m u p hs) \<le> nat n" using assms(2) by simp
  then have "take (nat n) (request_head m u p hs @ rest) = request_head m u p hs @ ?rest" by (simp del: take_append add: take_append [of "nat n"])
  then have "mg_http_get_request_len (request_head m u p hs @ rest) n = request_len ((m @ '' '' @ u @ '' '' @ p) @ line_ends hs @ header_text hs @ ?rest) 0"
    by (simp add: mg_http_get_request_len_def request_head_def)
  also have "\<dots> = int (length (m @ '' '' @ u @ '' '' @ p) + length (line_ends hs @ header_text hs))"
    using request_len_text [OF t] request_len_headers [OF hs] by (metis add_0)
  finally show ?thesis by (simp add: request_head_def)
qed

lemma request_len_prefix:
  assumes "request_ok m u p hs"
  shows "mg_http_get_request_len (take n (request_head m u p hs @ rest)) (int (length (take n (request_head m u p hs @ rest)))) =
    (if n < length (request_head m u p hs) then 0 else int (length (request_head m u p hs)))"
proof -
  have "0 < length (request_head m u p hs)" by (simp add: request_head_def)
  have "mg_http_get_request_len (request_head m u p hs @ rest) (int (length (request_head m u p hs @ rest))) = int (length (request_head m u p hs))"
    by (rule request_len_request [OF assms]) simp
  then have "request_len (request_head m u p hs @ rest) 0 = int (length (request_head m u p hs))" by (simp add: mg_http_get_request_len_def)
  from request_len_take [OF this \<open>0 < length (request_head m u p hs)\<close>, of n]
  show ?thesis unfolding mg_http_get_request_len_def nat_int take_all [OF order_refl] add_0 by blast
qed

subsection \<open>Parsing a request\<close>

lemma skip_while_span:
  "\<forall>c\<in>set a. P c \<Longrightarrow> length pre + length a \<le> e \<Longrightarrow> length pre + length a = e \<or> rest \<noteq> [] \<and> \<not> P (hd rest) \<Longrightarrow>
   skip_while P (pre @ a @ rest) (length pre) e = Inr (length pre + length a)"
proof (induction a arbitrary: pre)
  case Nil
  then show ?case by (subst skip_while.simps) (auto simp: nth_append hd_conv_nth peek_def)
next
  case (Cons c a)
  have "skip_while P ((pre @ [c]) @ a @ rest) (length (pre @ [c])) e = Inr (length (pre @ [c]) + length a)"
    by (rule Cons.IH) (use Cons.prems in auto)
  then show ?case using Cons.prems by (subst skip_while.simps) (auto simp: nth_append peek_def)
qed

lemma mg_skip_span:
  assumes "\<forall>c\<in>set t. \<not> is_delim ds c" and "\<forall>c\<in>set d. is_delim ds c" and "d \<noteq> []" and "length pre + length t + length d \<le> e"
    and "length pre + length t + length d = e \<or> rest \<noteq> [] \<and> \<not> is_delim ds (hd rest)"
  shows "mg_skip (pre @ t @ d @ rest) (length pre) e ds = Inr ((length pre, length t), length pre + length t + length d)"
proof -
  have 1: "skip_while (\<lambda>c. \<not> is_delim ds c) (pre @ t @ d @ rest) (length pre) e = Inr (length pre + length t)"
    by (rule skip_while_span) (use assms in auto)
  have 2: "skip_while (is_delim ds) ((pre @ t) @ d @ rest) (length (pre @ t)) e = Inr (length (pre @ t) + length d)"
    by (rule skip_while_span) (use assms in auto)
  show ?thesis using 1 2 by (simp add: mg_skip_def)
qed


definition slice_is :: "char list \<Rightarrow> mg_str \<Rightarrow> char list \<Rightarrow> bool" where
  \<comment> \<open>a string of the message lies in the first \<open>n\<close> bytes, for any \<open>n\<close> behind it\<close>
  "slice_is head s t \<longleftrightarrow> fst s + snd s \<le> length head \<and> str_bytes head s = t"

lemma slice_at: "slice_is (pre @ t @ rest) (length pre, length t) t"
  by (simp add: slice_is_def str_bytes_def)

lemma slice_extend: "slice_is head s t \<Longrightarrow> str_bytes (head @ rest) s = t"
  by (auto simp: slice_is_def str_bytes_def)

lemma slice_drop: "slice_is head s t \<Longrightarrow> \<exists>r. drop (fst s) (head @ rest) = t @ r @ rest"
  unfolding slice_is_def str_bytes_def
  by (rule exI [of _ "drop (snd s) (drop (fst s) head)"]) (use append_take_drop_id [of "snd s" "drop (fst s) head"] in auto)

lemma ncasecmp_lower:
  assumes "n \<le> length s" and "NUL \<notin> set (take n t)" and "n \<le> length t"
  shows "\<exists>d. mg_ncasecmp s t n = Inr d \<and> (d = 0 \<longleftrightarrow> map c_tolower (take n s) = map c_tolower (take n t))"
  using assms
proof (induction s t n rule: mg_ncasecmp.induct)
  case (2 c s1 d s2 len)
  have z: "int (of_char (c_tolower c)) - int (of_char (c_tolower d)) = 0 \<longleftrightarrow> c_tolower c = c_tolower d"
    by (simp add: of_char_eq_iff)
  have nul: "c = NUL \<Longrightarrow> c_tolower c = c_tolower d \<Longrightarrow> d = NUL"
    by (auto simp: c_tolower_def split: if_splits dest!: arg_cong [of _ _ "of_char :: char \<Rightarrow> nat"] simp: of_char_of)
  show ?case
  proof (cases "c_tolower c = c_tolower d")
    case True
    then have "c \<noteq> NUL" using nul 2(3) by auto
    with 2 True show ?thesis by (auto simp: Let_def z)
  next
    case False
    then show ?thesis by (auto simp: Let_def z of_char_eq_iff)
  qed
qed auto

definition is_content_length :: "char list \<Rightarrow> bool" where
  "is_content_length k \<longleftrightarrow> map c_tolower (take 14 k) = map c_tolower ''Content-Length''"

lemma ncasecmp_stops:
  assumes "c_tolower c \<notin> set (map c_tolower t)" and "length k < n" and "n \<le> length t" and "NUL \<notin> set t"
  shows "\<exists>d. mg_ncasecmp (k @ c # r) t n = Inr d \<and> d \<noteq> 0"
  using assms
proof (induction k arbitrary: t n)
  case Nil
  then obtain x t' n' where "t = x # t'" "n = Suc n'" by (cases t; cases n) auto
  then show ?case using Nil(1) by (auto simp: Let_def of_char_eq_iff)
next
  case (Cons a k)
  then obtain x t' n' where t: "t = x # t'" "n = Suc n'" by (cases t; cases n) auto
  have nul: "a = NUL \<Longrightarrow> c_tolower a = c_tolower x \<Longrightarrow> x = NUL"
    by (auto simp: c_tolower_def split: if_splits dest!: arg_cong [of _ _ "of_char :: char \<Rightarrow> nat"] simp: of_char_of)
  show ?case
  proof (cases "c_tolower a = c_tolower x")
    case True
    then have "a \<noteq> NUL" using nul Cons.prems(4) t by auto
    then show ?thesis using Cons.IH [of t' n'] Cons.prems t True by (auto simp: Let_def)
  qed (use t in \<open>auto simp: Let_def of_char_eq_iff\<close>)
qed

lemma name_compare: "\<exists>d. mg_ncasecmp (k @ '': '' @ rest) ''Content-Length'' 14 = Inr d \<and> (d = 0 \<longleftrightarrow> is_content_length k)"
proof (cases "14 \<le> length k")
  case True
  have "\<exists>d. mg_ncasecmp (k @ '': '' @ rest) ''Content-Length'' 14 = Inr d \<and>
      (d = 0 \<longleftrightarrow> map c_tolower (take 14 (k @ '': '' @ rest)) = map c_tolower (take 14 ''Content-Length''))"
    by (rule ncasecmp_lower) (use True in \<open>simp_all\<close>)
  then show ?thesis using True by (simp add: is_content_length_def)
next
  case False
  have "c_tolower (CHR '':'') \<notin> set (map c_tolower ''Content-Length'')" by code_simp
  from ncasecmp_stops [OF this, of k 14 "CHR '' '' # rest"] False
  have "\<exists>d. mg_ncasecmp (k @ '': '' @ rest) ''Content-Length'' 14 = Inr d \<and> d \<noteq> 0" by simp
  moreover have "\<not> is_content_length k" using False by (auto simp: is_content_length_def dest!: arg_cong [of _ _ length])
  ultimately show ?thesis by blast
qed

definition number_in :: "char list \<Rightarrow> int" where
  \<comment> \<open>what \<open>strtoll\<close> reads of a value\<close>
  "number_in v = (case strtol10 (v @ [CHR 0x0D]) of Inl _ \<Rightarrow> 0 | Inr n \<Rightarrow> n)"

lemma takeWhile_stop: "\<not> P c \<Longrightarrow> takeWhile P (s @ c # r) = takeWhile P s \<and> dropWhile P (s @ c # r) = dropWhile P s @ c # r"
  by (induction s) auto

lemma strtol_value:
  assumes "v \<noteq> []" and "\<forall>c\<in>set v. isprint c" and "hd v \<noteq> CHR '' ''"
  shows "strtol10 (v @ CHR 0x0D # rest) = Inr (number_in v)"
proof -
  obtain c cs where v: "v = c # cs" using assms(1) by (cases v) auto
  have d: "\<not> is_digit (CHR 0x0D)" by (simp add: is_digit_def)
  have "c = CHR '' ''" if "(of_char c :: nat) = 32" using that of_char_eq_iff [of c "CHR '' ''", where 'a = nat] by simp
  then have s: "\<not> isspace c" using assms by (auto simp: v isprint_def isspace_def)
  have sg: "\<not> is_digit (CHR ''+'')" "\<not> is_digit (CHR ''-'')" by (simp_all add: is_digit_def)
  show ?thesis using s
    by (simp add: strtol10_def number_in_def v Let_def takeWhile_stop [of is_digit, OF d] d sg del: dropWhile_eq_Nil_conv)
qed

fun content_length :: "nat \<Rightarrow> (char list \<times> char list) list \<Rightarrow> nat" where
  "content_length n [] = n"
| "content_length n ((k, v) # hs) = content_length (if is_content_length k then nat (number_in v mod 2 ^ 64) else n) hs"


lemma trim_value_same: "fst v + snd v \<le> length buf \<Longrightarrow> snd v > 0 \<Longrightarrow> buf ! (fst v + snd v - 1) \<noteq> CHR '' '' \<Longrightarrow> trim_value buf v = Inr v"
  by (subst trim_value.simps) simp

definition kept_fields :: "http_message \<Rightarrow> http_message \<Rightarrow> bool" where
  "kept_fields a b \<longleftrightarrow> meth a = meth b \<and> uri a = uri b \<and> proto a = proto b \<and> query_string a = query_string b \<and> resp_code a = resp_code b \<and>
     resp_status_msg a = resp_status_msg b \<and> fst (body a) = fst (body b) \<and> fst (message a) = fst (message b)"

definition headers_are :: "char list \<Rightarrow> (mg_str \<times> mg_str) list \<Rightarrow> (char list \<times> char list) list \<Rightarrow> bool" where
  "headers_are head ss hs \<longleftrightarrow> list_all2 (\<lambda>(a, b) (k, v). slice_is head a k \<and> slice_is head b v) ss hs"

lemma slice_more: "slice_is head s t \<Longrightarrow> slice_is (head @ rest) s t"
  by (auto simp: slice_is_def str_bytes_def)

lemma delim_facts:
  assumes "header_ok (k, v)"
  shows "\<forall>c\<in>set k. \<not> is_delim '': '' c" "\<not> is_delim '': '' (hd v)" "\<forall>c\<in>set v. \<not> is_delim [CHR 0x0D, CHR 0x0A] c"
    "\<not> is_delim [CHR 0x0D, CHR 0x0A] (hd k)" "\<forall>c\<in>set (line_ends hs). is_delim [CHR 0x0D, CHR 0x0A] c" "\<forall>c\<in>set '': ''. is_delim '': '' c"
proof -
  note p = header_ok_parts [OF assms]
  show "\<forall>c\<in>set k. \<not> is_delim '': '' c" using p(1,5) isprint_not_bad by (fastforce simp: is_delim_def)
  show "\<not> is_delim '': '' (hd v)" using p(2,4,6,7) isprint_not_bad [of "hd v"] by (auto simp: is_delim_def)
  show "\<forall>c\<in>set v. \<not> is_delim [CHR 0x0D, CHR 0x0A] c" using p(2) isprint_not_bad by (fastforce simp: is_delim_def)
  show "\<not> is_delim [CHR 0x0D, CHR 0x0A] (hd k)" using p(1,3) isprint_not_bad [of "hd k"] by (auto simp: is_delim_def)
qed (auto simp: is_delim_def line_ends_def)

lemma content_length_none: "\<not> (\<exists>(k, v)\<in>set hs. is_content_length k) \<Longrightarrow> content_length n hs = n"
  by (induction hs) auto

lemma headers_set_content_length [simp]: "headers (set_content_length len n req) = headers req"
  by (simp add: set_content_length_def Let_def)

lemma parse_headers_text:
  "\<forall>h\<in>set hs. header_ok h \<Longrightarrow> length (headers req) + length hs < MG_MAX_HTTP_HEADERS \<Longrightarrow>
   \<exists>req' ss. (\<forall>rest. mg_http_parse_headers (pre @ header_text hs @ rest) (length pre) (length pre + length (header_text hs)) len req = Inr req') \<and>
     kept_fields req' req \<and> headers req' = headers req @ ss \<and> headers_are (pre @ header_text hs) ss hs \<and>
     snd (body req') = content_length (snd (body req)) hs \<and>
     snd (message req') = (if \<exists>(k, v)\<in>set hs. is_content_length k then wrap64 (len + snd (body req')) else snd (message req))"
proof (induction hs arbitrary: pre req)
  case Nil
  have "mg_http_parse_headers (pre @ rest) (length pre) (length pre) len req = Inr req" for rest
    by (subst mg_http_parse_headers.simps) (simp add: mg_skip_def skip_while.simps trim_value.simps)
  then show ?case by (intro exI [of _ req] exI [of _ "[]"]) (simp add: kept_fields_def headers_are_def)
next
  case (Cons h hs)
  obtain k v where h: "h = (k, v)" by fastforce
  then have ok: "header_ok (k, v)" "\<forall>h\<in>set hs. header_ok h" using Cons.prems by auto
  note p = header_ok_parts [OF ok(1)] and d = delim_facts [OF ok(1)]
  let ?pre = "pre @ k @ '': '' @ v @ line_ends hs" and ?kv = "((length pre, length k), (length pre + length k + 2, length v))"
  let ?cl = "\<lambda>req. if is_content_length k then set_content_length len (number_in v) req else req"
  let ?req = "(?cl req)\<lparr>headers := headers req @ [?kv]\<rparr>"
  let ?e = "length pre + length (header_text (h # hs))"
  have e: "?e = length ?pre + length (header_text hs)" by (simp add: h)
  have lt: "length (headers req) < MG_MAX_HTTP_HEADERS - Suc 0" using Cons.prems(2) by simp
  have "length (headers ?req) + length hs < MG_MAX_HTTP_HEADERS" using Cons.prems(2) by simp
  from Cons.IH [OF ok(2) this, of ?pre] obtain req' ss where ih:
    "\<And>rest. mg_http_parse_headers (?pre @ header_text hs @ rest) (length ?pre) (length ?pre + length (header_text hs)) len ?req = Inr req'"
    "kept_fields req' ?req" "headers req' = headers ?req @ ss" "headers_are (?pre @ header_text hs) ss hs"
    "snd (body req') = content_length (snd (body ?req)) hs"
    "snd (message req') = (if \<exists>(k, v)\<in>set hs. is_content_length k then wrap64 (len + snd (body req')) else snd (message ?req))" by blast
  have step: "mg_http_parse_headers (pre @ header_text (h # hs) @ rest) (length pre) ?e len req = Inr req'" for rest
  proof -
    let ?tl = "line_ends hs @ header_text hs @ rest"
    let ?buf = "pre @ k @ '': '' @ v @ ?tl"
    have 1: "mg_skip ?buf (length pre) ?e '': '' = Inr ((length pre, length k), length pre + length k + length '': '')"
      by (rule mg_skip_span [OF d(1,6)]) (use p(4) d(2) in \<open>auto simp: h hd_append\<close>)
    have l: "line_ends hs \<noteq> []" by (simp add: line_ends_def)
    have n: "hs = [] \<or> header_text hs @ rest \<noteq> [] \<and> \<not> is_delim [CHR 0x0D, CHR 0x0A] (hd (header_text hs @ rest))"
    proof (cases hs)
      case (Cons h2 hs2)
      then obtain k2 v2 where h2: "h2 = (k2, v2)" "header_ok (k2, v2)" using ok(2) by (cases h2) auto
      from delim_facts(4) [OF h2(2)] header_ok_parts(3) [OF h2(2)] show ?thesis by (simp add: Cons h2(1))
    qed simp
    have "mg_skip ((pre @ k @ '': '') @ v @ line_ends hs @ header_text hs @ rest) (length (pre @ k @ '': '')) ?e [CHR 0x0D, CHR 0x0A] =
        Inr ((length (pre @ k @ '': ''), length v), length (pre @ k @ '': '') + length v + length (line_ends hs))"
      by (rule mg_skip_span [OF d(3,5) l]) (use n in \<open>auto simp: h\<close>)
    then have 2: "mg_skip ?buf (length pre + length k + length '': '') ?e [CHR 0x0D, CHR 0x0A] = Inr (snd ?kv, length ?pre)"
      by (simp add: add.assoc)
    have "(pre @ k @ '': '' @ v @ ?tl) ! (length pre + length k + 2 + length v - 1) = last v"
      using p(4) by (simp add: nth_append last_conv_nth)
    then have 3: "trim_value ?buf (snd ?kv) = Inr (snd ?kv)" using p(4,8) by (intro trim_value_same) auto
    from name_compare [of k "v @ ?tl"] obtain df where
      4: "mg_ncasecmp (drop (length pre) ?buf) ''Content-Length'' 14 = Inr df" "df = 0 \<longleftrightarrow> is_content_length k" by auto
    obtain r where "line_ends hs = CHR 0x0D # r" by (cases hs) (auto simp: line_ends_def)
    then have 5: "strtol10 (drop (length pre + length k + 2) ?buf) = Inr (number_in v)"
      using strtol_value [OF p(4,2,6)] by simp
    have "mg_http_parse_headers ?buf (length pre) ?e len req = mg_http_parse_headers ?buf (length ?pre) ?e len ?req"
      using lt p(3,4) 4(2) by (subst mg_http_parse_headers.simps) (simp add: 1 [simplified] 2 [simplified] 3 [simplified] 4(1) [simplified] 5 [simplified])
    moreover have "?buf = ?pre @ header_text hs @ rest" by simp
    ultimately show ?thesis using ih(1) [of rest] unfolding e by (simp add: h)
  qed
  have "headers_are (pre @ header_text (h # hs)) (?kv # ss) (h # hs)"
  proof -
    have "slice_is (pre @ header_text (h # hs)) (fst ?kv) k" using slice_at [of pre k] by (simp add: h)
    moreover have "slice_is (pre @ header_text (h # hs)) (snd ?kv) v"
      using slice_at [of "pre @ k @ '': ''" v "line_ends hs @ header_text hs"] by (simp add: h)
    ultimately show ?thesis using ih(4) by (simp add: headers_are_def h)
  qed
  moreover have "kept_fields req' req" using ih(2) by (simp add: kept_fields_def set_content_length_def Let_def split: if_splits)
  moreover have "headers req' = headers req @ ?kv # ss" using ih(3) by simp
  moreover have "snd (body req') = content_length (snd (body req)) (h # hs)" using ih(5) by (simp add: h set_content_length_def Let_def)
  moreover have "snd (message req') = (if \<exists>(k, v)\<in>set (h # hs). is_content_length k then wrap64 (len + snd (body req')) else snd (message req))"
    using ih(5,6) content_length_none [of hs] by (auto simp: h set_content_length_def Let_def)
  ultimately show ?case using step by blast
qed


lemma vcasecmp_slice:
  assumes "slice_is head s t" and "length t < 2 ^ 31" and "length name < 2 ^ 31" and "NUL \<notin> set name"
  shows "\<exists>d. mg_vcasecmp (head @ rest) s name = Inr d \<and> (d = 0 \<longleftrightarrow> map c_tolower t = map c_tolower name)"
proof -
  let ?n = "min (length t) (length name)"
  from slice_drop [OF assms(1)] obtain r where r: "drop (fst s) (head @ rest) = t @ r @ rest" by blast
  have l: "snd s = length t" using assms(1) by (auto simp: slice_is_def str_bytes_def)
  have "\<exists>d. mg_ncasecmp (t @ r @ rest) (name @ [NUL]) ?n = Inr d \<and>
      (d = 0 \<longleftrightarrow> map c_tolower (take ?n (t @ r @ rest)) = map c_tolower (take ?n (name @ [NUL])))"
    by (rule ncasecmp_lower) (use assms(4) in \<open>auto dest: in_set_takeD\<close>)
  then obtain d where d: "mg_ncasecmp (t @ r @ rest) (name @ [NUL]) ?n = Inr d"
    "d = 0 \<longleftrightarrow> map c_tolower (take ?n t) = map c_tolower (take ?n name)" by auto
  have "mg_vcasecmp (head @ rest) s name = Inr (if d = 0 then to_int32 (int (length t) - int (length name)) else d)"
  proof -
    have n: "(if length t < length name then length t else length name) = ?n" by (simp add: min_def)
    show ?thesis unfolding mg_vcasecmp_def Let_def l r n d(1) by simp
  qed
  moreover have "map c_tolower t = map c_tolower name \<longleftrightarrow> d = 0 \<and> length t = length name"
  proof
    assume a: "map c_tolower t = map c_tolower name"
    then have "length t = length name" by (rule map_eq_imp_length_eq)
    then show "d = 0 \<and> length t = length name" using a d(2) by simp
  qed (use d(2) in auto)
  ultimately show ?thesis using assms(2,3) by (auto simp: to_int32_id)
qed

definition takes_body :: "char list \<Rightarrow> bool" where
  "takes_body m \<longleftrightarrow> map c_tolower m = map c_tolower ''PUT'' \<or> map c_tolower m = map c_tolower ''POST''"

definition NO_LENGTH :: nat where "NO_LENGTH = 2 ^ 64 - 1"

definition parsed_as :: "char list \<Rightarrow> http_message \<Rightarrow> char list \<Rightarrow> char list \<Rightarrow> char list \<Rightarrow> (char list \<times> char list) list \<Rightarrow> bool" where
  \<comment> \<open>the message refers to the parts of the request\<close>
  "parsed_as head hm m u p hs \<longleftrightarrow>
     slice_is head (meth hm) m \<and> slice_is head (uri hm) (takeWhile (\<lambda>c. c \<noteq> CHR ''?'') u) \<and> slice_is head (proto hm) p \<and>
     headers_are head (headers hm) hs \<and>
     (case query_string hm of None \<Rightarrow> CHR ''?'' \<notin> set u
      | Some q \<Rightarrow> CHR ''?'' \<in> set u \<and> slice_is head q (tl (dropWhile (\<lambda>c. c \<noteq> CHR ''?'') u))) \<and>
     fst (message hm) = 0 \<and> fst (body hm) = length head \<and>
     (let n = content_length NO_LENGTH hs
      in if n \<noteq> NO_LENGTH then snd (body hm) = n \<and> snd (message hm) = wrap64 (length head + n)
         else (\<not> takes_body m \<longrightarrow> snd (body hm) = 0 \<and> snd (message hm) = length head) \<and>
           (takes_body m \<longrightarrow> (\<forall>h\<in>set hs. \<not> is_content_length (fst h)) \<longrightarrow> snd (message hm) = NO_LENGTH))"

lemma parse_request:
  assumes "request_ok m u p hs" and "length (request_head m u p hs) < 2 ^ 31"
  shows "\<exists>hm. (\<forall>rest n. int (length (request_head m u p hs)) \<le> n \<longrightarrow> mg_parse_http (request_head m u p hs @ rest) n True = Inr (int (length (request_head m u p hs)), hm)) \<and>
    parsed_as (request_head m u p hs) hm m u p hs"
proof -
  let ?h = "request_head m u p hs" and ?e = "length (request_head m u p hs)"
  let ?sp = "[CHR '' '']"
  have ok: "token m" "token u" "phrase p" "\<forall>h\<in>set hs. header_ok h" "length hs < MG_MAX_HTTP_HEADERS" using assms(1) by (auto simp: request_ok_def)
  have tok: "t \<noteq> []" "\<forall>c\<in>set t. \<not> is_delim ?sp c" "\<not> is_delim ?sp (hd t)" if "token t" for t
    using that isprint_not_bad by (fastforce simp: token_def is_delim_def)+
  have ph: "p \<noteq> []" "\<forall>c\<in>set p. \<not> is_delim [CHR 0x0D, CHR 0x0A] c" "\<not> is_delim ?sp (hd p)"
    using ok(3) isprint_not_bad by (fastforce simp: phrase_def is_delim_def)+
  let ?pre = "m @ ?sp @ u @ ?sp @ p @ line_ends hs"
  let ?hm0 = "empty_message\<lparr>body := (?e, 2 ^ 64 - 1), meth := (0, length m), uri := (length (m @ ?sp), length u), proto := (length (m @ ?sp @ u @ ?sp), length p)\<rparr>"
  let ?q = "length (takeWhile (\<lambda>c. c \<noteq> CHR ''?'') u)"
  let ?hm1 = "if ?q < length u then ?hm0\<lparr>query_string := Some (length (m @ ?sp) + ?q + 1, length u - (?q + 1)), uri := (length (m @ ?sp), ?q)\<rparr> else ?hm0"
  have pre: "?h @ rest = ?pre @ header_text hs @ rest" for rest by (simp add: request_head_def)
  have e: "?e = length ?pre + length (header_text hs)" by (simp add: request_head_def)
  have "length (headers ?hm1) + length hs < MG_MAX_HTTP_HEADERS" using ok(5) by (simp add: empty_message_def)
  from parse_headers_text [OF ok(4) this, of ?pre ?e] obtain req' ss where
    hd: "\<And>rest. mg_http_parse_headers (?h @ rest) (length ?pre) ?e ?e ?hm1 = Inr req'" "kept_fields req' ?hm1"
      "headers req' = headers ?hm1 @ ss" "headers_are ?h ss hs" "snd (body req') = content_length (snd (body ?hm1)) hs"
      "snd (message req') = (if \<exists>(k, v)\<in>set hs. is_content_length k then wrap64 (?e + snd (body req')) else snd (message ?hm1))"
    unfolding pre e [symmetric] by (auto simp: request_head_def)
  have line: "parse_request_line (?h @ rest) 0 ?e (empty_message\<lparr>body := (?e, 2 ^ 64 - 1)\<rparr>) = Inr (Some (length ?pre, ?hm1))" for rest
  proof -
    let ?tl = "line_ends hs @ header_text hs @ rest"
    have b: "?h @ rest = m @ ?sp @ u @ ?sp @ p @ ?tl" by (simp add: request_head_def)
    have sp: "\<forall>c\<in>set ?sp. is_delim ?sp c" by (simp add: is_delim_def)
    have l: "line_ends hs \<noteq> []" "\<forall>c\<in>set (line_ends hs). is_delim [CHR 0x0D, CHR 0x0A] c" by (auto simp: is_delim_def line_ends_def)
    have n: "hs = [] \<or> header_text hs @ rest \<noteq> [] \<and> \<not> is_delim [CHR 0x0D, CHR 0x0A] (hd (header_text hs @ rest))"
    proof (cases hs)
      case (Cons h2 hs2)
      then obtain k2 v2 where h2: "h2 = (k2, v2)" "header_ok (k2, v2)" using ok(4) by (cases h2) auto
      from delim_facts(4) [OF h2(2)] header_ok_parts(3) [OF h2(2)] show ?thesis by (simp add: Cons h2(1))
    qed simp
    have "mg_skip ([] @ m @ ?sp @ u @ ?sp @ p @ ?tl) (length ([] :: char list)) ?e ?sp =
        Inr ((length ([] :: char list), length m), length ([] :: char list) + length m + length ?sp)"
      by (rule mg_skip_span [OF tok(2) [OF ok(1)] sp]) (use tok(1,3) [OF ok(2)] in \<open>auto simp: request_head_def\<close>)
    then have 1: "mg_skip (?h @ rest) 0 ?e ?sp = Inr ((0, length m), length (m @ ?sp))" unfolding b by simp
    have "mg_skip ((m @ ?sp) @ u @ ?sp @ p @ ?tl) (length (m @ ?sp)) ?e ?sp = Inr ((length (m @ ?sp), length u), length (m @ ?sp) + length u + length ?sp)"
      by (rule mg_skip_span [OF tok(2) [OF ok(2)] sp]) (use ph(1,3) in \<open>auto simp: request_head_def\<close>)
    then have 2: "mg_skip (?h @ rest) (length (m @ ?sp)) ?e ?sp = Inr ((length (m @ ?sp), length u), length (m @ ?sp @ u @ ?sp))"
      unfolding b by simp
    have "mg_skip ((m @ ?sp @ u @ ?sp) @ p @ line_ends hs @ header_text hs @ rest) (length (m @ ?sp @ u @ ?sp)) ?e [CHR 0x0D, CHR 0x0A] =
        Inr ((length (m @ ?sp @ u @ ?sp), length p), length (m @ ?sp @ u @ ?sp) + length p + length (line_ends hs))"
      by (rule mg_skip_span [OF ph(2) l(2,1)]) (use n in \<open>auto simp: request_head_def\<close>)
    then have 3: "mg_skip (?h @ rest) (length (m @ ?sp @ u @ ?sp)) ?e [CHR 0x0D, CHR 0x0A] = Inr ((length (m @ ?sp @ u @ ?sp), length p), length ?pre)"
      unfolding b by simp
    have "take (length u) (drop (length (m @ ?sp)) (?h @ rest)) = u" unfolding b by simp
    then have 4: "scan_component (?h @ rest) (length (m @ ?sp)) (length (m @ ?sp) + length u) ''?'' = Inr (length (m @ ?sp) + ?q)"
      by (subst scan_component_slice) (simp_all add: b)
    show ?thesis unfolding parse_request_line_def 1 bindE.simps prod.case 2 3 Let_def fst_conv snd_conv 4
      using tok(1) [OF ok(1)] tok(1) [OF ok(2)] by simp
  qed
  have ws: "skip_while isspace (?h @ rest) 0 ?e = Inr 0" for rest
  proof -
    have "isprint (hd m)" "hd m \<noteq> CHR '' ''" "m \<noteq> []" using ok(1) by (auto simp: token_def)
    then have "\<not> isspace (hd m)" using of_char_eq_iff [of "hd m" "CHR '' ''", where 'a = nat] by (auto simp: isprint_def isspace_def)
    then show ?thesis using \<open>m \<noteq> []\<close> by (subst skip_while.simps) (simp add: request_head_def peek_def nth_append hd_conv_nth)
  qed
  let ?u1 = "takeWhile (\<lambda>c. c \<noteq> CHR ''?'') u" and ?u2 = "dropWhile (\<lambda>c. c \<noteq> CHR ''?'') u" and ?tl = "?sp @ p @ line_ends hs @ header_text hs"
  have h: "?h = (m @ ?sp) @ u @ ?tl" "u = ?u1 @ ?u2" by (simp_all add: request_head_def)
  have mem: "?q < length u \<longleftrightarrow> CHR ''?'' \<in> set u"
  proof
    assume "?q < length u"
    then have "u ! ?q = CHR ''?''" using nth_length_takeWhile [of "\<lambda>c. c \<noteq> CHR ''?''" u] by simp
    then show "CHR ''?'' \<in> set u" using \<open>?q < length u\<close> by (metis nth_mem)
  next
    assume m: "CHR ''?'' \<in> set u"
    show "?q < length u"
    proof (rule ccontr)
      assume "\<not> ?q < length u"
      then have "?u1 = u" using length_takeWhile_le [of "\<lambda>c. c \<noteq> CHR ''?''" u] by (metis takeWhile_eq_take take_all linorder_not_less)
      with m show False by (metis set_takeWhileD)
    qed
  qed
  have all: "?u1 = u" if "\<not> ?q < length u" using that mem by (auto simp: takeWhile_eq_all_conv)
  have "slice_is ((m @ ?sp) @ ?u1 @ ?u2 @ ?tl) (length (m @ ?sp), ?q) ?u1" by (rule slice_at)
  moreover have "?h = (m @ ?sp) @ ?u1 @ ?u2 @ ?tl" unfolding h(1) by simp
  ultimately have u1: "slice_is ?h (length (m @ ?sp), ?q) ?u1" by metis
  have sl: "slice_is ?h (meth ?hm1) m" "slice_is ?h (uri ?hm1) ?u1" "slice_is ?h (proto ?hm1) p"
  proof -
    show "slice_is ?h (meth ?hm1) m" using slice_at [of "[]" m "?sp @ u @ ?tl"] by (simp add: h(1))
    show "slice_is ?h (uri ?hm1) ?u1"
    proof (cases "?q < length u")
      case False
      then have "?q = length u" using length_takeWhile_le [of "\<lambda>c. c \<noteq> CHR ''?''" u] by linarith
      with u1 show ?thesis by simp
    qed (use u1 in simp)
    show "slice_is ?h (proto ?hm1) p" using slice_at [of "m @ ?sp @ u @ ?sp" p "line_ends hs @ header_text hs"] by (simp add: h(1))
  qed
  have q: "case query_string ?hm1 of None \<Rightarrow> CHR ''?'' \<notin> set u | Some q \<Rightarrow> CHR ''?'' \<in> set u \<and> slice_is ?h q (tl ?u2)"
  proof (cases "?q < length u")
    case True
    then have ne: "?u2 \<noteq> []" using mem by (auto simp: dropWhile_eq_Nil_conv)
    moreover have "hd ?u2 = CHR ''?''" using hd_dropWhile [OF ne] by simp
    ultimately obtain r where r: "?u2 = CHR ''?'' # r" by (cases ?u2) simp_all
    have "slice_is ((m @ ?sp @ ?u1 @ ''?'') @ r @ ?tl) (length (m @ ?sp @ ?u1 @ ''?''), length r) r" by (rule slice_at)
    moreover have "?h = (m @ ?sp @ ?u1 @ ''?'') @ r @ ?tl" unfolding h(1) using h(2) r by (metis append.assoc append_Cons append_Nil)
    moreover have "length r = length u - (?q + 1)" using arg_cong [OF h(2), of length] r by simp
    ultimately have "slice_is ?h (length (m @ ?sp) + ?q + 1, length u - (?q + 1)) r" by simp
    then show ?thesis using True mem by (simp add: r)
  qed (use mem in \<open>simp add: empty_message_def\<close>)
  let ?n = "content_length NO_LENGTH hs"
  let ?hm = "if ?n = NO_LENGTH \<and> \<not> takes_body m then req'\<lparr>body := (fst (body req'), 0), message := (fst (message req'), ?e)\<rparr> else req'"
  have body: "snd (body req') = ?n" using hd(5) by (simp add: NO_LENGTH_def)
  have parse: "mg_parse_http (?h @ rest) n True = Inr (int ?e, ?hm)" if "int ?e \<le> n" for rest n
  proof -
    have p: "0 < ?e" by (simp add: request_head_def)
    have m: "slice_is ?h (meth req') m" using sl(1) hd(2) by (simp add: kept_fields_def)
    have small: "length m < 2 ^ 31" using assms(2) by (simp add: request_head_def)
    from vcasecmp_slice [OF m small, of "''PUT''" rest] vcasecmp_slice [OF m small, of "''POST''" rest] obtain d1 d2 where
      "mg_vcasecmp (?h @ rest) (meth req') ''PUT'' = Inr d1" "d1 = 0 \<longleftrightarrow> map c_tolower m = map c_tolower ''PUT''"
      "mg_vcasecmp (?h @ rest) (meth req') ''POST'' = Inr d2" "d2 = 0 \<longleftrightarrow> map c_tolower m = map c_tolower ''POST''" by auto
    note d = this
    have p': "\<not> int ?e \<le> 0" using p by simp
    show ?thesis
      unfolding mg_parse_http_def request_len_request [OF assms(1) that] Let_def nat_int if_not_P [OF p'] ws bindE.simps if_True line option.case prod.case hd(1)
      using body d by (auto simp: takes_body_def NO_LENGTH_def)
  qed
  obtain hm1 where hm1: "hm1 = ?hm1" by simp
  have f: "headers hm1 = []" "fst (body hm1) = ?e" "fst (message hm1) = 0" by (simp_all add: hm1 empty_message_def)
  have k: "meth ?hm = meth hm1" "uri ?hm = uri hm1" "proto ?hm = proto hm1" "query_string ?hm = query_string hm1" "headers ?hm = headers hm1 @ ss"
    "fst (body ?hm) = fst (body hm1)" "fst (message ?hm) = fst (message hm1)"
    using hd(2,3) unfolding hm1 [symmetric] by (simp_all add: kept_fields_def)
  have n: "snd (body ?hm) = ?n \<and> snd (message ?hm) = wrap64 (?e + ?n)" if "?n \<noteq> NO_LENGTH"
    using hd(6) body content_length_none [of hs NO_LENGTH] that by auto
  have z: "snd (body ?hm) = 0 \<and> snd (message ?hm) = ?e" if "?n = NO_LENGTH" "\<not> takes_body m" using that by simp
  have open_end: "snd (message ?hm) = NO_LENGTH" if "takes_body m" "\<forall>h\<in>set hs. \<not> is_content_length (fst h)"
  proof -
    have "\<not> (\<exists>(k, v)\<in>set hs. is_content_length k)" using that(2) by auto
    moreover have "snd (message ?hm1) = NO_LENGTH" by (simp add: empty_message_def NO_LENGTH_def)
    ultimately show ?thesis using hd(6) that(1) by simp
  qed
  have nz: "if ?n \<noteq> NO_LENGTH then snd (body ?hm) = ?n \<and> snd (message ?hm) = wrap64 (?e + ?n)
      else (\<not> takes_body m \<longrightarrow> snd (body ?hm) = 0 \<and> snd (message ?hm) = ?e) \<and>
        (takes_body m \<longrightarrow> (\<forall>h\<in>set hs. \<not> is_content_length (fst h)) \<longrightarrow> snd (message ?hm) = NO_LENGTH)"
  proof (cases "?n = NO_LENGTH")
    case False
    then show ?thesis unfolding if_P [OF False] by (rule n)
  next
    case True
    then show ?thesis using z open_end by meson
  qed
  have "parsed_as ?h ?hm m u p hs"
    unfolding parsed_as_def Let_def k f append_Nil
    by (intro conjI refl nz hd(4) sl [folded hm1] q [folded hm1])
  with parse show ?thesis by blast
qed

end
