(* ===== verification/HttpSpec.thy ===== *)
theory HttpSpec
  imports HttpMsg
begin

section \<open>What the handler of HTTP promises\<close>

subsection \<open>Headers\<close>

abbreviation lower :: "char list \<Rightarrow> char list" where
  "lower \<equiv> map c_tolower"

fun header_value :: "char list \<Rightarrow> (char list \<times> char list) list \<Rightarrow> char list option" where
  "header_value name [] = None"
| "header_value name ((k, v) # hs) = (if lower k = lower name then Some v else header_value name hs)"

lemma find_header_value:
  assumes "headers_are head ss hs" and "NUL \<notin> set name"
  shows "\<exists>r. find_header (head @ rest) name ss = Inr r \<and>
    (case header_value name hs of None \<Rightarrow> r = None | Some v \<Rightarrow> \<exists>s. r = Some s \<and> slice_is head s v)"
  using assms(1) unfolding headers_are_def
proof (induction rule: list_all2_induct)
  case (Cons h ss x hs)
  obtain a b k v where h: "h = (a, b)" "x = (k, v)" "slice_is head a k" "slice_is head b v" using Cons.hyps by (cases h; cases x) auto
  have l: "snd a = length k" using h(3) by (auto simp: slice_is_def str_bytes_def)
  show ?case
  proof (cases "length k = length name")
    case True
    from slice_drop [OF h(3)] obtain r where r: "drop (fst a) (head @ rest) = k @ r @ rest" by blast
    have "\<exists>d. mg_ncasecmp (k @ r @ rest) name (length name) = Inr d \<and> (d = 0 \<longleftrightarrow> lower (take (length name) (k @ r @ rest)) = lower (take (length name) name))"
      by (rule ncasecmp_lower) (use True assms(2) in simp_all)
    then obtain d where "mg_ncasecmp (k @ r @ rest) name (length name) = Inr d" "d = 0 \<longleftrightarrow> lower k = lower name" using True by auto
    then show ?thesis using Cons.IH h(4) True l by (cases b) (auto simp: h(1,2) r [simplified])
  next
    case False
    then have "lower k \<noteq> lower name" by (auto dest: map_eq_imp_length_eq)
    then show ?thesis using Cons.IH False l by (simp add: h(1,2))
  qed
qed simp

lemma parsed_header:
  assumes "parsed_as head hm m u p hs" and "NUL \<notin> set name"
  shows "\<exists>r. mg_get_http_header (head @ rest) hm name = Inr r \<and>
    (case header_value name hs of None \<Rightarrow> r = None | Some v \<Rightarrow> \<exists>s. r = Some s \<and> slice_is head s v)"
  using find_header_value [OF _ assms(2)] assms(1) by (simp add: mg_get_http_header_def parsed_as_def Let_def)

subsection \<open>Parsing\<close>

lemma narrow: "length buf < 2 ^ 31 \<Longrightarrow> to_int32 (int (length buf)) = int (length buf)"
  by (rule to_int32_id) simp_all


text \<open>
  C9. A request with fewer than 40 headers is understood as it was written, however much of it has arrived, up to the 2 GB that an
  \<open>int\<close> can count: any part of its head is
  reported as incomplete; once the head is there the result is its length, and the message refers to
  the method, the path, the query, the protocol and all headers, in order; the length of the body is
  that of the last \<open>Content-Length\<close>.
\<close>

theorem http_request_parsed:
  assumes "request_ok m u p hs" and "length (request_head m u p hs) < 2 ^ 31"
  shows "\<exists>hm. parsed_as (request_head m u p hs) hm m u p hs \<and>
    (\<forall>n body. length (take n (request_head m u p hs @ body)) < 2 ^ 31 \<longrightarrow>
       mg_parse_http (take n (request_head m u p hs @ body)) (to_int32 (int (length (take n (request_head m u p hs @ body))))) True =
       (if n < length (request_head m u p hs) then Inr (0, empty_message) else Inr (int (length (request_head m u p hs)), hm)))"
proof -
  let ?h = "request_head m u p hs"
  from parse_request [OF assms] obtain hm where
    hm: "\<And>rest n. int (length ?h) \<le> n \<Longrightarrow> mg_parse_http (?h @ rest) n True = Inr (int (length ?h), hm)" "parsed_as ?h hm m u p hs" by blast
  have "mg_parse_http (take n (?h @ body)) (to_int32 (int (length (take n (?h @ body))))) True =
      (if n < length ?h then Inr (0, empty_message) else Inr (int (length ?h), hm))" if lt: "length (take n (?h @ body)) < 2 ^ 31" for n body
  proof (cases "n < length ?h")
    case True
    then show ?thesis using request_len_prefix [OF assms(1), of n body] unfolding narrow [OF lt] mg_parse_http_def Let_def by simp
  next
    case False
    then have t: "take n (?h @ body) = ?h @ take (n - length ?h) body" by simp
    show ?thesis using False unfolding narrow [OF lt] unfolding t by (simp add: hm(1))
  qed
  with hm(2) show ?thesis by blast
qed

definition demo_headers :: "(char list \<times> char list) list" where
  "demo_headers = [(''Host'', ''localhost:8000''), (''content-length'', ''4'')]"

lemma demo_request: "request_ok ''POST'' ''/api/like?x=1'' ''HTTP/1.1'' demo_headers"
  by code_simp

lemma demo_length: "length (request_head ''POST'' ''/api/like?x=1'' ''HTTP/1.1'' demo_headers) = 72"
  by code_simp

lemma demo_content_length: "content_length NO_LENGTH demo_headers = 4" "(4 :: nat) \<noteq> NO_LENGTH"
proof -
  have "is_content_length ''content-length''" "\<not> is_content_length ''Host''" "number_in ''4'' = 4" by code_simp+
  then show "content_length NO_LENGTH demo_headers = 4" "(4 :: nat) \<noteq> NO_LENGTH" by (simp_all add: demo_headers_def NO_LENGTH_def)
qed

theorem http_request_parsed_witness:
  "\<exists>hm. mg_parse_http (request_head ''POST'' ''/api/like?x=1'' ''HTTP/1.1'' demo_headers @ ''ab'') 74 True = Inr (72, hm) \<and>
     str_bytes (request_head ''POST'' ''/api/like?x=1'' ''HTTP/1.1'' demo_headers) (uri hm) = ''/api/like'' \<and> snd (body hm) = 4"
proof -
  let ?h = "request_head ''POST'' ''/api/like?x=1'' ''HTTP/1.1'' demo_headers"
  note l = demo_length
  then have "length ?h < 2 ^ 31" by simp
  from http_request_parsed [OF demo_request this] obtain hm where
    hm: "parsed_as ?h hm ''POST'' ''/api/like?x=1'' ''HTTP/1.1'' demo_headers"
    "length (take 74 (?h @ ''ab'')) < 2 ^ 31 \<longrightarrow> mg_parse_http (take 74 (?h @ ''ab'')) (to_int32 (int (length (take 74 (?h @ ''ab''))))) True =
       (if 74 < length ?h then Inr (0, empty_message) else Inr (int (length ?h), hm))" by blast
  have t: "take 74 (?h @ ''ab'') = ?h @ ''ab''" "length (?h @ ''ab'') = 74" "to_int32 (int 74) = 74" using l by (simp_all add: to_int32_def)
  show ?thesis using demo_content_length hm(2) hm(1) unfolding t l by (auto simp: parsed_as_def slice_is_def)
qed


subsection \<open>Receiving in pieces\<close>

definition keeps_chunks :: http_user where
  \<comment> \<open>the diary server: it never sets \<open>MG_F_DELETE_CHUNK\<close>\<close>
  "keeps_chunks ev = False"

definition chunked :: "(char list \<times> char list) list \<Rightarrow> bool" where
  "chunked hs \<longleftrightarrow> (case header_value ''Transfer-Encoding'' hs of None \<Rightarrow> False | Some v \<Rightarrow> lower v = lower ''chunked'')"

definition body_length :: "(char list \<times> char list) list \<Rightarrow> nat" where
  "body_length hs = (let n = content_length NO_LENGTH hs in if n = NO_LENGTH then 0 else n)"

definition sized :: "char list \<Rightarrow> (char list \<times> char list) list \<Rightarrow> bool" where
  \<comment> \<open>the method takes no body, or its length is given\<close>
  "sized m hs \<longleftrightarrow> (content_length NO_LENGTH hs = NO_LENGTH \<longrightarrow> \<not> takes_body m)"

definition requests :: "http_event list \<Rightarrow> (http_message \<times> char list) list" where
  "requests es = concat (map (\<lambda>ev. case ev of HttpRequest hm buf \<Rightarrow> [(hm, buf)] | _ \<Rightarrow> []) es)"

lemma requests_append [simp]: "requests (a @ b) = requests a @ requests b"
  by (simp add: requests_def)

lemma te_check:
  assumes "parsed_as head hm m u p hs" and "length head < 2 ^ 31"
  shows "\<exists>r. mg_get_http_header (head @ rest) hm ''Transfer-Encoding'' = Inr r \<and>
    (case r of None \<Rightarrow> \<not> chunked hs | Some v \<Rightarrow> \<exists>d. mg_vcasecmp (head @ rest) v ''chunked'' = Inr d \<and> (d = 0 \<longleftrightarrow> chunked hs))"
proof -
  obtain r where r: "mg_get_http_header (head @ rest) hm ''Transfer-Encoding'' = Inr r"
    "case header_value ''Transfer-Encoding'' hs of None \<Rightarrow> r = None | Some v \<Rightarrow> \<exists>s. r = Some s \<and> slice_is head s v"
    using parsed_header [OF assms(1), of "''Transfer-Encoding''" rest] by auto
  show ?thesis
  proof (cases "header_value ''Transfer-Encoding'' hs")
    case None
    then show ?thesis using r by (simp add: chunked_def)
  next
    case (Some v)
    then obtain s where s: "r = Some s" "slice_is head s v" using r(2) by auto
    then have "length v \<le> length head" by (auto simp: slice_is_def str_bytes_def)
    then have "length v < 2 ^ 31" using assms(2) by linarith
    from vcasecmp_slice [OF s(2) this, of "''chunked''" rest] show ?thesis using r(1) s(1) Some by (auto simp: chunked_def)
  qed
qed

definition told :: "http_message \<Rightarrow> nat \<Rightarrow> http_conn \<Rightarrow> http_conn" where
  \<comment> \<open>the user was told of what there is of the body\<close>
  "told hm e c = c\<lparr>delete_chunk := False, events := events c @ [HttpChunk (hm\<lparr>body := (fst (body hm), length (io c) - e)\<rparr>) (io c)]\<rparr>"

lemma deliver_keeps: "deliver_chunk keeps_chunks e hm c = (hm\<lparr>body := (fst (body hm), length (io c) - e)\<rparr>, told hm e c)"
  by (simp add: deliver_chunk_def Let_def mg_call_def told_def keeps_chunks_def)

lemma recv_plain:
  assumes ok: "request_ok m u p hs" and small: "length (request_head m u p hs) < 2 ^ 31" and h: "\<not> chunked hs" "sized m hs"
    and fits: "length (request_head m u p hs) + body_length hs < 2 ^ 31"
  obtains hm where "parsed_as (request_head m u p hs) hm m u p hs"
    "\<And>(c :: http_conn) bytes x. io c @ bytes = request_head m u p hs @ x \<Longrightarrow> length (io c @ bytes) < 2 ^ 31 \<Longrightarrow>
      mg_http_recv keeps_chunks bytes c =
        (let e = length (request_head m u p hs); c = told hm e (c\<lparr>io := io c @ bytes, rcvd := rcvd c + length bytes\<rparr>)
         in if e + body_length hs > rcvd c then Inr c
            else Inr (c\<lparr>io := if e + body_length hs \<le> length (io c) then drop (e + body_length hs) (io c) else io c, rcvd := 0,
                   events := events c @ [HttpRequest (hm\<lparr>body := (e, length (io c) - e)\<rparr>) (io c)]\<rparr>))"
proof -
  let ?h = "request_head m u p hs"
  from parse_request [OF ok small] obtain hm where
    hm: "\<And>rest n. int (length ?h) \<le> n \<Longrightarrow> mg_parse_http (?h @ rest) n True = Inr (int (length ?h), hm)" "parsed_as ?h hm m u p hs" by blast
  have len: "snd (message hm) = length ?h + body_length hs"
    using hm(2) h(2) fits by (auto simp: parsed_as_def Let_def body_length_def sized_def wrap64_def split: if_splits)
  have bd: "fst (body hm) = length ?h" using hm(2) by (simp add: parsed_as_def)
  have pos: "0 < length ?h" by (simp add: request_head_def)
  show thesis
  proof (rule that [OF hm(2)])
    fix c :: http_conn and bytes x assume x: "io c @ bytes = ?h @ x" and lt: "length (io c @ bytes) < 2 ^ 31"
    let ?c = "c\<lparr>io := io c @ bytes, rcvd := rcvd c + length bytes\<rparr>"
    have io: "io ?c = ?h @ x" by (simp add: x)
    have "int (length ?h) \<le> to_int32 (int (length (?h @ x)))" using narrow [OF lt] unfolding x by simp
    note parse = hm(1) [OF this]
    have lx: "length x = length (io c) + length bytes - length ?h" using arg_cong [OF x, of length] by simp
    from te_check [OF hm(2) small, of x] h(1) obtain r where r: "mg_get_http_header (?h @ x) hm ''Transfer-Encoding'' = Inr r"
      "case r of None \<Rightarrow> True | Some v \<Rightarrow> \<exists>d. mg_vcasecmp (?h @ x) v ''chunked'' = Inr d \<and> d \<noteq> 0" by (auto split: option.splits)
    have te: "bindE (mg_get_http_header (?h @ x) hm ''Transfer-Encoding'') (\<lambda>te.
        case te of None \<Rightarrow> Inr (hm, ?c)
        | Some v \<Rightarrow> bindE (mg_vcasecmp (?h @ x) v ''chunked'') (\<lambda>d. if d = 0 then mg_handle_chunked keeps_chunks (length ?h) hm ?c else Inr (hm, ?c))) = Inr (hm, ?c)"
      using r by (cases r) auto
    have p: "\<not> (int (length ?h) < 0 \<or> int (length ?h) = 0 \<and> q)" "int (length ?h) \<noteq> 0" "0 < int (length ?h)" for q using pos by simp_all
    show "mg_http_recv keeps_chunks bytes c =
        (let e = length ?h; c = told hm e ?c
         in if e + body_length hs > rcvd c then Inr c
            else Inr (c\<lparr>io := if e + body_length hs \<le> length (io c) then drop (e + body_length hs) (io c) else io c, rcvd := 0,
                   events := events c @ [HttpRequest (hm\<lparr>body := (e, length (io c) - e)\<rparr>) (io c)]\<rparr>))"
      unfolding mg_http_recv_def Let_def io parse bindE.simps prod.case if_P [OF p(3)] nat_int te deliver_keeps
      using p(1,2) pos lx by (cases c) (simp add: len bd told_def mg_call_def keeps_chunks_def)
  qed
qed

lemma recv_incomplete:
  assumes "request_ok m u p hs" and "length (request_head m u p hs) \<le> MG_MAX_HTTP_REQUEST_SIZE"
    and "io c @ bytes = take n (request_head m u p hs @ b)" and "n < length (request_head m u p hs)"
  shows "mg_http_recv keeps_chunks bytes c = Inr (c\<lparr>io := io c @ bytes, rcvd := rcvd c + length bytes\<rparr>)"
proof -
  have lt: "length (io c @ bytes) < MG_MAX_HTTP_REQUEST_SIZE" using assms(2,3,4) by simp
  then have n: "to_int32 (int (length (io c @ bytes))) = int (length (io c @ bytes))" by (intro narrow) (simp add: MG_MAX_HTTP_REQUEST_SIZE_def)
  have "mg_parse_http (io c @ bytes) (to_int32 (int (length (io c @ bytes)))) True = Inr (0, empty_message)"
    using request_len_prefix [OF assms(1), of n b] assms(3,4) unfolding n mg_parse_http_def Let_def by simp
  then show ?thesis using lt by (simp add: mg_http_recv_def Let_def)
qed


lemma requests_simps [simp]: "requests (HttpChunk hm buf # es) = requests es" "requests (HttpRequest hm buf # es) = (hm, buf) # requests es"
  "requests [] = []"
  by (simp_all add: requests_def)

definition at_rest :: "http_conn \<Rightarrow> bool" where
  \<comment> \<open>nothing of a request has been received\<close>
  "at_rest c \<longleftrightarrow> io c = [] \<and> rcvd c = 0 \<and> chunk_body_len c = 0 \<and> \<not> close_now c"

lemma recv_nothing: "io c = [] \<Longrightarrow> rcvd c = 0 \<Longrightarrow> concat ps = [] \<Longrightarrow> mg_http_recv_all keeps_chunks ps c = Inr c"
proof (induction ps)
  case (Cons q ps)
  have "mg_http_recv keeps_chunks [] c = Inr (c\<lparr>io := [], rcvd := 0\<rparr>)"
    by (simp add: Cons.prems mg_http_recv_def mg_parse_http_def mg_http_get_request_len_def MG_MAX_HTTP_REQUEST_SIZE_def Let_def)
  also have "c\<lparr>io := [], rcvd := 0\<rparr> = c" by (cases c) (use Cons.prems in auto)
  finally have "mg_http_recv keeps_chunks [] c = Inr c" .
  then show ?case using Cons by simp
qed simp

definition plain_request :: "char list \<Rightarrow> char list \<Rightarrow> char list \<Rightarrow> (char list \<times> char list) list \<Rightarrow> char list \<Rightarrow> bool" where
  \<comment> \<open>what a browser sends to the diary server: a head that fits, and a body of the length it announces\<close>
  "plain_request m u p hs b \<longleftrightarrow>
     request_ok m u p hs \<and> length (request_head m u p hs) \<le> MG_MAX_HTTP_REQUEST_SIZE \<and> \<not> chunked hs \<and> sized m hs \<and>
     length b = body_length hs \<and> length (request_head m u p hs) + length b < 2 ^ 31"

lemma recv_pieces:
  assumes plain: "plain_request m u p hs b"
  obtains hm where "parsed_as (request_head m u p hs) hm m u p hs" "body hm = (length (request_head m u p hs), length b)"
    "\<And>(c :: http_conn) ps. io c @ concat ps = request_head m u p hs @ b \<Longrightarrow> rcvd c = length (io c) \<Longrightarrow>
       length (io c) < length (request_head m u p hs @ b) \<Longrightarrow> chunk_body_len c = 0 \<Longrightarrow> \<not> close_now c \<Longrightarrow>
       \<exists>c'. mg_http_recv_all keeps_chunks ps c = Inr c' \<and> at_rest c' \<and> requests (events c') = requests (events c) @ [(hm, request_head m u p hs @ b)]"
proof -
  let ?h = "request_head m u p hs" and ?e = "length (request_head m u p hs)"
  have ok: "request_ok m u p hs" "?e \<le> MG_MAX_HTTP_REQUEST_SIZE" "\<not> chunked hs" "sized m hs" "length b = body_length hs" "?e + length b < 2 ^ 31"
    using plain by (auto simp: plain_request_def)
  have small: "?e < 2 ^ 31" using ok(2) by (simp add: MG_MAX_HTTP_REQUEST_SIZE_def)
  from recv_plain [OF ok(1) small ok(3,4)] ok(5,6) obtain hm where hm: "parsed_as ?h hm m u p hs"
    "\<And>(c :: http_conn) bytes x. io c @ bytes = ?h @ x \<Longrightarrow> length (io c @ bytes) < 2 ^ 31 \<Longrightarrow> mg_http_recv keeps_chunks bytes c =
        (let e = ?e; c = told hm e (c\<lparr>io := io c @ bytes, rcvd := rcvd c + length bytes\<rparr>)
         in if e + length b > rcvd c then Inr c
            else Inr (c\<lparr>io := if e + length b \<le> length (io c) then drop (e + length b) (io c) else io c, rcvd := 0,
                   events := events c @ [HttpRequest (hm\<lparr>body := (e, length (io c) - e)\<rparr>) (io c)]\<rparr>))" by metis
  let ?hm = "hm\<lparr>body := (?e, length b)\<rparr>"
  have "parsed_as ?h ?hm m u p hs" using hm(1) ok(5) by (auto simp: parsed_as_def Let_def body_length_def split: if_splits)
  then show thesis
  proof (rule that)
    show "\<exists>c'. mg_http_recv_all keeps_chunks ps c = Inr c' \<and> at_rest c' \<and> requests (events c') = requests (events c) @ [(?hm, ?h @ b)]"
      if "io c @ concat ps = ?h @ b" "rcvd c = length (io c)" "length (io c) < length (?h @ b)" "chunk_body_len c = 0" "\<not> close_now c" for c :: http_conn and ps
      using that
    proof (induction ps arbitrary: c)
      case (Cons q ps)
      let ?c = "c\<lparr>io := io c @ q, rcvd := rcvd c + length q\<rparr>" and ?n = "length (io c @ q)"
      have all: "(io c @ q) @ concat ps = ?h @ b" using Cons.prems(1) by simp
      then have pre: "io c @ q = take ?n (?h @ b)" by (metis append_eq_conv_conj)
      have le: "?n \<le> ?e + length b" using arg_cong [OF all, of length] by simp
      then have lt: "?n < 2 ^ 31" using ok(6) by linarith
      consider "?n < ?e" | "?e \<le> ?n" "?n < ?e + length b" | "?n = ?e + length b" using le by linarith
      then show ?case
      proof cases
        case 1
        from recv_incomplete [OF ok(1,2) pre 1] have r: "mg_http_recv keeps_chunks q c = Inr ?c" .
        have "\<exists>c'. mg_http_recv_all keeps_chunks ps ?c = Inr c' \<and> at_rest c' \<and> requests (events c') = requests (events ?c) @ [(?hm, ?h @ b)]"
          by (rule Cons.IH) (use all Cons.prems(2,4,5) 1 in simp_all)
        then show ?thesis by (simp add: r)
      next
        case 2
        then have x: "io c @ q = ?h @ take (?n - ?e) b" using pre by simp
        have r: "mg_http_recv keeps_chunks q c = Inr (told hm ?e ?c)"
          unfolding hm(2) [OF x lt] using 2 Cons.prems(2) by (simp add: Let_def told_def)
        have "\<exists>c'. mg_http_recv_all keeps_chunks ps (told hm ?e ?c) = Inr c' \<and> at_rest c' \<and>
            requests (events c') = requests (events (told hm ?e ?c)) @ [(?hm, ?h @ b)]"
          by (rule Cons.IH) (use all Cons.prems(2,4,5) 2 in \<open>simp_all add: told_def\<close>)
        then show ?thesis by (simp add: r told_def)
      next
        case 3
        then have x: "io c @ q = ?h @ b" using pre by simp
        let ?d = "(told hm ?e ?c)\<lparr>io := [], rcvd := 0, events := events (told hm ?e ?c) @ [HttpRequest ?hm (?h @ b)]\<rparr>"
        have l: "rcvd c + length q = ?e + length b" using 3 Cons.prems(2) by simp
        have r: "mg_http_recv keeps_chunks q c = Inr ?d"
          unfolding hm(2) [OF x lt] by (cases c) (use l x in \<open>simp add: Let_def told_def\<close>)
        have d: "at_rest ?d" using Cons.prems(4,5) by (simp add: at_rest_def told_def)
        have "mg_http_recv_all keeps_chunks ps ?d = Inr ?d" by (rule recv_nothing) (use all x in simp_all)
        then have "mg_http_recv_all keeps_chunks (q # ps) c = Inr ?d" unfolding mg_http_recv_all.simps r bindE.simps .
        moreover have "requests (events ?d) = requests (events c) @ [(?hm, ?h @ b)]" by (simp add: told_def)
        ultimately show ?thesis using d by blast
      qed
    qed simp
  qed simp
qed

text \<open>
  C7. A request whose head fits into 8192 bytes, and which is shorter than 2 GB, is handled no matter how the network cuts it into pieces: on
  an idle connection, after the last piece the user has been called with the request exactly once, with
  the message parsed from the head and exactly the announced body, and the connection is idle again, ready for the next request.
\<close>

theorem request_in_pieces:
  assumes "plain_request m u p hs b" and "concat ps = request_head m u p hs @ b" and "at_rest c"
  shows "\<exists>c' hm. mg_http_recv_all keeps_chunks ps c = Inr c' \<and> at_rest c' \<and>
    requests (events c') = requests (events c) @ [(hm, request_head m u p hs @ b)] \<and>
    parsed_as (request_head m u p hs) hm m u p hs \<and> str_bytes (request_head m u p hs @ b) (body hm) = b"
proof -
  from recv_pieces [OF assms(1)] obtain hm where hm: "parsed_as (request_head m u p hs) hm m u p hs"
    "body hm = (length (request_head m u p hs), length b)"
    "\<And>(c :: http_conn) ps. io c @ concat ps = request_head m u p hs @ b \<Longrightarrow> rcvd c = length (io c) \<Longrightarrow>
       length (io c) < length (request_head m u p hs @ b) \<Longrightarrow> chunk_body_len c = 0 \<Longrightarrow> \<not> close_now c \<Longrightarrow>
       \<exists>c'. mg_http_recv_all keeps_chunks ps c = Inr c' \<and> at_rest c' \<and> requests (events c') = requests (events c) @ [(hm, request_head m u p hs @ b)]"
    by blast
  have "\<exists>c'. mg_http_recv_all keeps_chunks ps c = Inr c' \<and> at_rest c' \<and> requests (events c') = requests (events c) @ [(hm, request_head m u p hs @ b)]"
    by (rule hm(3)) (use assms(2,3) in \<open>auto simp: at_rest_def request_head_def\<close>)
  moreover have "str_bytes (request_head m u p hs @ b) (body hm) = b" by (simp add: hm(2) str_bytes_def)
  ultimately show ?thesis using hm(1) by blast
qed


definition fresh :: http_conn where
  "fresh = \<lparr>io = [], rcvd = 0, chunk_body_len = 0, close_now = False, delete_chunk = False, events = []\<rparr>"

lemma demo_plain: "plain_request ''POST'' ''/api/like?x=1'' ''HTTP/1.1'' demo_headers ''id=7''"
proof -
  have "\<not> chunked demo_headers" by code_simp
  then show ?thesis
    using demo_request demo_content_length
    by (simp add: plain_request_def demo_length MG_MAX_HTTP_REQUEST_SIZE_def sized_def body_length_def)
qed

theorem request_in_pieces_witness:
  "\<exists>c' hm. mg_http_recv_all keeps_chunks
      [take 10 (request_head ''POST'' ''/api/like?x=1'' ''HTTP/1.1'' demo_headers), [],
       drop 10 (request_head ''POST'' ''/api/like?x=1'' ''HTTP/1.1'' demo_headers) @ ''id'', ''=7''] fresh = Inr c' \<and>
     requests (events c') = [(hm, request_head ''POST'' ''/api/like?x=1'' ''HTTP/1.1'' demo_headers @ ''id=7'')] \<and> snd (body hm) = 4"
proof -
  let ?h = "request_head ''POST'' ''/api/like?x=1'' ''HTTP/1.1'' demo_headers"
  have "concat [take 10 ?h, [], drop 10 ?h @ ''id'', ''=7''] = ?h @ ''id=7''" by (simp del: take_append drop_append)
  moreover have "at_rest fresh" by (simp add: at_rest_def fresh_def)
  ultimately obtain c' hm where "mg_http_recv_all keeps_chunks [take 10 ?h, [], drop 10 ?h @ ''id'', ''=7''] fresh = Inr c'"
    "requests (events c') = requests (events fresh) @ [(hm, ?h @ ''id=7'')]" "str_bytes (?h @ ''id=7'') (body hm) = ''id=7''"
    "parsed_as ?h hm ''POST'' ''/api/like?x=1'' ''HTTP/1.1'' demo_headers"
    using request_in_pieces [OF demo_plain] by blast
  then show ?thesis using demo_content_length by (auto simp: fresh_def parsed_as_def)
qed

text \<open>
  C12. Requests that arrive glued together, less than 2 GB in all, are not told apart: the user is called once, the body it is given
  runs on through the bytes of the next request, and these bytes stay in the buffer although the count of
  received bytes is reset, so that the next request is not handled.
\<close>

theorem glued_request_ignored:
  assumes "plain_request m u p hs b" and "at_rest c" and "length (request_head m u p hs @ b @ x) < 2 ^ 31"
  shows "\<exists>c' hm. mg_http_recv keeps_chunks (request_head m u p hs @ b @ x) c = Inr c' \<and> io c' = x \<and> rcvd c' = 0 \<and>
    requests (events c') = requests (events c) @ [(hm, request_head m u p hs @ b @ x)] \<and>
    str_bytes (request_head m u p hs @ b @ x) (body hm) = b @ x"
proof -
  let ?h = "request_head m u p hs" and ?e = "length (request_head m u p hs)"
  have ok: "request_ok m u p hs" "?e < 2 ^ 31" "\<not> chunked hs" "sized m hs" "length b = body_length hs" "?e + length b < 2 ^ 31"
    using assms(1) by (auto simp: plain_request_def MG_MAX_HTTP_REQUEST_SIZE_def)
  have c: "io c = []" "rcvd c = 0" using assms(2) by (auto simp: at_rest_def)
  have x: "io c @ (?h @ b @ x) = ?h @ (b @ x)" by (simp add: c)
  obtain hm where "mg_http_recv keeps_chunks (?h @ b @ x) c = Inr (let c = told hm ?e (c\<lparr>io := ?h @ b @ x, rcvd := ?e + length b + length x\<rparr>)
     in c\<lparr>io := x, rcvd := 0, events := events c @ [HttpRequest (hm\<lparr>body := (?e, length b + length x)\<rparr>) (?h @ b @ x)]\<rparr>)"
    by (rule recv_plain [OF ok(1-4) ok(6) [unfolded ok(5)]]) (insert x ok(5) c assms(3), simp add: Let_def told_def add.assoc)
  then show ?thesis by (auto simp: Let_def told_def str_bytes_def)
qed

theorem glued_request_ignored_witness:
  "\<exists>c' hm. mg_http_recv keeps_chunks
      (request_head ''POST'' ''/api/like?x=1'' ''HTTP/1.1'' demo_headers @ ''id=7'' @ request_head ''GET'' ''/'' ''HTTP/1.1'' []) fresh = Inr c' \<and>
     length (requests (events c')) = 1 \<and> io c' = ''GET / HTTP/1.1'' @ CRLF @ CRLF"
proof -
  have g: "request_head ''GET'' ''/'' ''HTTP/1.1'' [] = ''GET / HTTP/1.1'' @ CRLF @ CRLF" by code_simp
  have "at_rest fresh" by (simp add: at_rest_def fresh_def)
  moreover have "length (request_head ''POST'' ''/api/like?x=1'' ''HTTP/1.1'' demo_headers @ ''id=7'' @ request_head ''GET'' ''/'' ''HTTP/1.1'' []) < 2 ^ 31"
    by (simp add: demo_length g)
  ultimately
  obtain c' hm where "mg_http_recv keeps_chunks
      (request_head ''POST'' ''/api/like?x=1'' ''HTTP/1.1'' demo_headers @ ''id=7'' @ request_head ''GET'' ''/'' ''HTTP/1.1'' []) fresh = Inr c'"
    "io c' = request_head ''GET'' ''/'' ''HTTP/1.1'' []"
    "requests (events c') = requests (events fresh) @ [(hm, request_head ''POST'' ''/api/like?x=1'' ''HTTP/1.1'' demo_headers @ ''id=7'' @
       request_head ''GET'' ''/'' ''HTTP/1.1'' [])]" using glued_request_ignored [OF demo_plain] by blast
  then show ?thesis using g by (auto simp: fresh_def)
qed


subsection \<open>A connection that ends\<close>

lemma recv_part:
  assumes plain: "plain_request m u p hs b"
  shows "(io c @ concat ps) @ r = request_head m u p hs @ b \<Longrightarrow> r \<noteq> [] \<Longrightarrow> rcvd c = length (io c) \<Longrightarrow>
    \<exists>c'. mg_http_recv_all keeps_chunks ps c = Inr c' \<and> io c' = io c @ concat ps \<and> rcvd c' = length (io c') \<and> requests (events c') = requests (events c)"
proof (induction ps arbitrary: c)
  case (Cons q ps)
  let ?h = "request_head m u p hs" and ?e = "length (request_head m u p hs)"
  let ?c = "c\<lparr>io := io c @ q, rcvd := rcvd c + length q\<rparr>" and ?n = "length (io c @ q)"
  have ok: "request_ok m u p hs" "?e \<le> MG_MAX_HTTP_REQUEST_SIZE" "\<not> chunked hs" "sized m hs" "length b = body_length hs" "?e + length b < 2 ^ 31"
    using plain by (auto simp: plain_request_def)
  have small: "?e < 2 ^ 31" using ok(2) by (simp add: MG_MAX_HTTP_REQUEST_SIZE_def)
  have all: "(io c @ q) @ concat ps @ r = ?h @ b" using Cons.prems(1) by simp
  then have pre: "io c @ q = take ?n (?h @ b)" by (metis append_eq_conv_conj)
  have "?n + length (concat ps) + length r = ?e + length b" using arg_cong [OF all, of length] by simp
  then have lt: "?n < ?e + length b" using Cons.prems(2) by (cases r) simp_all
  have "\<exists>c1. mg_http_recv keeps_chunks q c = Inr c1 \<and> io c1 = io c @ q \<and> rcvd c1 = length (io c1) \<and> requests (events c1) = requests (events c)"
  proof (cases "?n < ?e")
    case True
    from recv_incomplete [OF ok(1,2) pre True] show ?thesis using Cons.prems(3) by simp
  next
    case False
    then have x: "io c @ q = ?h @ take (?n - ?e) b" using pre lt by (simp add: min_def)
    have more: "rcvd c + length q < ?e + body_length hs" using lt Cons.prems(3) ok(5) by simp
    have fits: "length (io c @ q) < 2 ^ 31" using lt ok(6) by linarith
    obtain hm where "mg_http_recv keeps_chunks q c = Inr (told hm ?e ?c)"
    proof (rule recv_plain [OF ok(1) small ok(3,4) ok(6) [unfolded ok(5)]])
      fix hm :: http_message
      assume "\<And>(c :: http_conn) bytes x. io c @ bytes = ?h @ x \<Longrightarrow> length (io c @ bytes) < 2 ^ 31 \<Longrightarrow> mg_http_recv keeps_chunks bytes c =
        (let e = ?e; c = told hm e (c\<lparr>io := io c @ bytes, rcvd := rcvd c + length bytes\<rparr>)
         in if e + body_length hs > rcvd c then Inr c
            else Inr (c\<lparr>io := if e + body_length hs \<le> length (io c) then drop (e + body_length hs) (io c) else io c, rcvd := 0,
                   events := events c @ [HttpRequest (hm\<lparr>body := (e, length (io c) - e)\<rparr>) (io c)]\<rparr>))"
      from this [OF x fits] show thesis by (rule_tac that) (simp add: Let_def told_def more)
    qed
    then show ?thesis using Cons.prems(3) by (simp add: told_def)
  qed
  then obtain c1 where c1: "mg_http_recv keeps_chunks q c = Inr c1" "io c1 = io c @ q" "rcvd c1 = length (io c1)" "requests (events c1) = requests (events c)" by blast
  have "\<exists>c'. mg_http_recv_all keeps_chunks ps c1 = Inr c' \<and> io c' = io c1 @ concat ps \<and> rcvd c' = length (io c') \<and> requests (events c') = requests (events c1)"
    by (rule Cons.IH) (use c1 all Cons.prems(2) in simp_all)
  then show ?case using c1 by simp
qed simp

text \<open>
  C11. When the connection ends inside the body of a request whose head fits into 8192 bytes and which is shorter than 2 GB, the user is given the truncated request as if it were complete:
  what has arrived of the body counts as the body, although its length was announced.
\<close>

theorem truncated_request_delivered:
  assumes "plain_request m u p hs b" and "b = b1 @ b2" and "b2 \<noteq> []" and "concat ps = request_head m u p hs @ b1" and "at_rest c"
  shows "\<exists>c1 c2 hm. mg_http_recv_all keeps_chunks ps c = Inr c1 \<and> requests (events c1) = requests (events c) \<and>
    mg_http_close keeps_chunks c1 = Inr c2 \<and> requests (events c2) = requests (events c) @ [(hm, request_head m u p hs @ b1)] \<and>
    str_bytes (request_head m u p hs @ b1) (meth hm) = m \<and> str_bytes (request_head m u p hs @ b1) (body hm) = b1"
proof -
  let ?h = "request_head m u p hs"
  have ok: "request_ok m u p hs" "length ?h < 2 ^ 31" using assms(1) by (auto simp: plain_request_def MG_MAX_HTTP_REQUEST_SIZE_def)
  have "\<exists>c1. mg_http_recv_all keeps_chunks ps c = Inr c1 \<and> io c1 = io c @ concat ps \<and> rcvd c1 = length (io c1) \<and> requests (events c1) = requests (events c)"
    by (rule recv_part [OF assms(1), of _ _ b2]) (use assms(2-5) in \<open>simp_all add: at_rest_def\<close>)
  then obtain c1 where c1: "mg_http_recv_all keeps_chunks ps c = Inr c1" "io c1 = ?h @ b1" "requests (events c1) = requests (events c)"
    using assms(4,5) by (auto simp: at_rest_def)
  from parse_request [OF ok] obtain hm where
    hm: "\<And>rest n. int (length ?h) \<le> n \<Longrightarrow> mg_parse_http (?h @ rest) n True = Inr (int (length ?h), hm)" "parsed_as ?h hm m u p hs" by blast
  have "length (?h @ b1) < 2 ^ 31" using assms(1,2) by (simp add: plain_request_def)
  then have "int (length ?h) \<le> to_int32 (int (length (?h @ b1)))" by (simp only: narrow) simp
  note parse = hm(1) [OF this]
  have pos: "?h @ b1 \<noteq> []" "0 < int (length ?h)" by (simp_all add: request_head_def)
  have b: "fst (body hm) = length ?h" "str_bytes (?h @ b1) (meth hm) = m" using hm(2) slice_extend by (auto simp: parsed_as_def)
  let ?hm = "hm\<lparr>message := (fst (message hm), length (?h @ b1)), body := (length ?h, length b1)\<rparr>"
  have cl: "mg_http_close keeps_chunks c1 = Inr ((mg_call keeps_chunks (HttpRequest ?hm (?h @ b1)) (told ?hm (length ?h) c1))\<lparr>rcvd := 0\<rparr>)"
    unfolding mg_http_close_def c1(2) if_not_P [OF pos(1)] parse bindE.simps prod.case if_P [OF pos(2)] Let_def nat_int deliver_keeps b(1)
    by (simp add: c1(2) told_def)
  have "requests (events ((mg_call keeps_chunks (HttpRequest ?hm (?h @ b1)) (told ?hm (length ?h) c1))\<lparr>rcvd := 0\<rparr>)) =
      requests (events c) @ [(?hm, ?h @ b1)]" by (simp add: told_def mg_call_def c1(3))
  moreover have "str_bytes (?h @ b1) (meth ?hm) = m" "str_bytes (?h @ b1) (body ?hm) = b1" using b(2) by (simp_all add: str_bytes_def)
  ultimately show ?thesis using c1(1,3) cl by blast
qed

theorem truncated_request_delivered_witness:
  "\<exists>c1 c2 hm. mg_http_recv_all keeps_chunks [request_head ''POST'' ''/api/like?x=1'' ''HTTP/1.1'' demo_headers @ ''id''] fresh = Inr c1 \<and>
     mg_http_close keeps_chunks c1 = Inr c2 \<and> requests (events c2) = [(hm, request_head ''POST'' ''/api/like?x=1'' ''HTTP/1.1'' demo_headers @ ''id'')]"
proof -
  let ?h = "request_head ''POST'' ''/api/like?x=1'' ''HTTP/1.1'' demo_headers"
  have "''id=7'' = ''id'' @ ''=7''" "''=7'' \<noteq> []" "concat [?h @ ''id''] = ?h @ ''id''" "at_rest fresh" by (simp_all add: at_rest_def fresh_def)
  from truncated_request_delivered [OF demo_plain this] show ?thesis by (auto simp: fresh_def)
qed

end
