(* ===== verification/HttpChunked.thy ===== *)
theory HttpChunked
  imports HttpSpec
begin

section \<open>Bodies in chunks\<close>

text \<open>
  What becomes of a request whose body is sent in chunks, cut into pieces anyhow by the network; and what
  the decoder does with a length that wraps round, and with the second such request of a connection.
\<close>

subsection \<open>The length of a chunk\<close>

definition hex_digit :: "char \<Rightarrow> nat" where
  "hex_digit c = (if is_digit c then of_char c - 48 else of_char (c_tolower c) - 97 + 10)"

definition hex_value :: "char list \<Rightarrow> nat \<Rightarrow> nat" where
  "hex_value t n = fold (\<lambda>c n. wrap64 (wrap64 (n * 16) + hex_digit c)) t n"

lemma chunk_length_span:
  "\<forall>c\<in>set t. c_isxdigit c \<Longrightarrow> length pre + length t \<le> len \<Longrightarrow> length pre + length t = len \<or> rest \<noteq> [] \<and> \<not> c_isxdigit (hd rest) \<Longrightarrow>
   chunk_length (pre @ t @ rest) len n (length pre) = Inr (hex_value t n, length pre + length t)"
proof (induction t arbitrary: pre n)
  case Nil
  then show ?case by (subst chunk_length.simps) (auto simp: nth_append hd_conv_nth peek_def hex_value_def)
next
  case (Cons c t)
  have "chunk_length ((pre @ [c]) @ t @ rest) len (wrap64 (wrap64 (n * 16) + hex_digit c)) (length (pre @ [c])) =
      Inr (hex_value t (wrap64 (wrap64 (n * 16) + hex_digit c)), length (pre @ [c]) + length t)"
    by (rule Cons.IH) (use Cons.prems in auto)
  then show ?case using Cons.prems by (subst chunk_length.simps) (auto simp: nth_append peek_def hex_value_def hex_digit_def)
qed

lemma hex_upper_digit:
  assumes "k < 16"
  shows "c_isxdigit (if k < 10 then char_of (48 + k) else char_of (55 + k))" "hex_digit (if k < 10 then char_of (48 + k) else char_of (55 + k)) = k"
  using assms by (auto simp: c_isxdigit_def hex_digit_def c_tolower_def is_digit_def of_char_of)

lemma hex_upper_digits: "\<forall>c\<in>set (hex_upper n). c_isxdigit c"
proof (induction n rule: hex_upper.induct)
  case (1 n)
  show ?case
  proof (cases "n < 16")
    case True
    then show ?thesis using hex_upper_digit(1) [of n] by (subst hex_upper.simps) (simp add: Let_def)
  next
    case False
    then show ?thesis using 1 hex_upper_digit(1) [of "n mod 16"] by (subst hex_upper.simps) (auto simp: Let_def)
  qed
qed

lemma hex_upper_value: "n < 2 ^ 64 \<Longrightarrow> hex_value (hex_upper n) 0 = n"
proof (induction n rule: hex_upper.induct)
  case (1 n)
  show ?case
  proof (cases "n < 16")
    case True
    then show ?thesis using 1(2) hex_upper_digit(2) [of n] by (subst hex_upper.simps) (simp add: Let_def hex_value_def wrap64_def)
  next
    case False
    have ih: "hex_value (hex_upper (n div 16)) 0 = n div 16" by (rule 1(1)) (use False 1(2) in simp_all)
    have "n div 16 * 16 + n mod 16 = n" by simp
    then show ?thesis using False ih 1(2) hex_upper_digit(2) [of "n mod 16"]
      by (subst hex_upper.simps) (simp add: Let_def hex_value_def wrap64_def)
  qed
qed

lemma hex_upper_nonempty: "hex_upper n \<noteq> []"
  by (subst hex_upper.simps) (simp add: Let_def)

subsection \<open>Parsing a chunk\<close>

lemma CR_no_digit: "\<not> c_isxdigit (CHR 0x0D)"
  by (simp add: c_isxdigit_def is_digit_def c_tolower_def)

lemma chunk_length_upper:
  assumes "n < 2 ^ 64" and "rest = [] \<or> hd rest = CHR 0x0D"
  shows "chunk_length (hex_upper n @ rest) (length (hex_upper n) + length rest) 0 0 = Inr (n, length (hex_upper n))"
  using chunk_length_span [OF hex_upper_digits, of "[]" n "length (hex_upper n) + length rest" rest 0] assms CR_no_digit
  by (cases rest) (auto simp: hex_upper_value)

lemma line_end_there: "no_line_end (pre @ CRLF @ rest) len (length pre) = Inr False"
  if "pre \<noteq> []" "length pre + 2 \<le> len" "len + 2 < 2 ^ 64"
  using that by (simp add: no_line_end_def wrap64_def peek_def nth_append)

lemma line_end_missing: "no_line_end s len i = Inr True" if "len < i + 2" "i + 2 < 2 ^ 64"
  using that by (simp add: no_line_end_def wrap64_def)

lemma parse_whole_chunk:
  assumes "length (mg_send_http_chunk d) + length r + 2 < 2 ^ 64"
  shows "mg_http_parse_chunk (mg_send_http_chunk d @ r) (length (mg_send_http_chunk d) + length r) =
    Inr (length (mg_send_http_chunk d), (length (hex_upper (length d)) + 2, length d))"
proof -
  let ?h = "hex_upper (length d)" and ?len = "length (mg_send_http_chunk d) + length r"
  have len: "?len = length ?h + length (CRLF @ d @ CRLF @ r)" by (simp add: mg_send_http_chunk_def)
  have 1: "chunk_length (?h @ CRLF @ d @ CRLF @ r) ?len 0 0 = Inr (length d, length ?h)"
    unfolding len by (rule chunk_length_upper) (use assms in \<open>simp_all add: mg_send_http_chunk_def\<close>)
  have 2: "no_line_end (?h @ CRLF @ d @ CRLF @ r) ?len (length ?h) = Inr False"
    by (rule line_end_there) (use assms hex_upper_nonempty in \<open>simp_all add: mg_send_http_chunk_def\<close>)
  have 3: "no_line_end ((?h @ CRLF @ d) @ CRLF @ r) ?len (length (?h @ CRLF @ d)) = Inr False"
    by (rule line_end_there) (use assms in \<open>simp_all add: mg_send_http_chunk_def\<close>)
  have w: "wrap64 (length ?h + 2) = length ?h + 2" "wrap64 (length ?h + 2 + length d) = length (?h @ CRLF @ d)"
    "wrap64 (length (?h @ CRLF @ d) + 2) = length (mg_send_http_chunk d)"
    using assms by (simp_all add: mg_send_http_chunk_def wrap64_def)
  have t: "mg_send_http_chunk d @ r = ?h @ CRLF @ d @ CRLF @ r" by (simp add: mg_send_http_chunk_def)
  show ?thesis unfolding mg_http_parse_chunk_def t 1 bindE.simps prod.case 2 if_False Let_def w 3 [simplified append_assoc] if_False by simp
qed

lemma parse_part_of_chunk:
  assumes "q @ q2 = mg_send_http_chunk d" and "q2 \<noteq> []" and "length (mg_send_http_chunk d) + 2 < 2 ^ 64"
  shows "\<exists>x. mg_http_parse_chunk q (length q) = Inr (0, x)"
proof -
  let ?h = "hex_upper (length d)"
  have n: "length q < length (mg_send_http_chunk d)" using arg_cong [OF assms(1), of length] assms(2) by (cases q2) simp_all
  have q: "q = take (length q) (?h @ CRLF @ d @ CRLF)" using assms(1) by (simp add: mg_send_http_chunk_def append_eq_conv_conj)
  show ?thesis
  proof (cases "length q \<le> length ?h")
    case True
    then have "q = take (length q) ?h" using q by simp
    then have "\<forall>c\<in>set q. c_isxdigit c" using hex_upper_digits by (metis in_set_takeD)
    from chunk_length_span [OF this, of "[]" "length q" "[]" 0] have "chunk_length q (length q) 0 0 = Inr (hex_value q 0, length q)" by simp
    moreover have "no_line_end q (length q) (length q) = Inr True" by (rule line_end_missing) (use n assms(3) in simp_all)
    ultimately show ?thesis by (simp add: mg_http_parse_chunk_def)
  next
    case False
    define k where "k = length q - length ?h"
    then have k: "length q = length ?h + k" "0 < k" using False by simp_all
    then have q': "q = ?h @ take k (CRLF @ d @ CRLF)" using q by simp
    have "chunk_length (?h @ take k (CRLF @ d @ CRLF)) (length ?h + length (take k (CRLF @ d @ CRLF))) 0 0 = Inr (length d, length ?h)"
      by (rule chunk_length_upper) (use k(2) assms(3) in \<open>auto simp: mg_send_http_chunk_def\<close>)
    then have 1: "chunk_length q (length q) 0 0 = Inr (length d, length ?h)" by (metis q' length_append)
    show ?thesis
    proof (cases "k < 2")
      case True
      have "no_line_end q (length q) (length ?h) = Inr True" by (rule line_end_missing) (use True k assms(3) n in simp_all)
      then show ?thesis by (simp add: mg_http_parse_chunk_def 1)
    next
      case False
      then have q'': "q = ?h @ CRLF @ take (k - 2) (d @ CRLF)" using q' by (simp add: numeral_2_eq_2 take_Cons')
      have "no_line_end (?h @ CRLF @ take (k - 2) (d @ CRLF)) (length q) (length ?h) = Inr False"
        by (rule line_end_there) (use hex_upper_nonempty k False assms(3) n in simp_all)
      then have 2: "no_line_end q (length q) (length ?h) = Inr False" using q'' by simp
      have w: "wrap64 (wrap64 (length ?h + 2) + length d) = length ?h + 2 + length d"
        using assms(3) by (simp add: mg_send_http_chunk_def wrap64_def)
      have "no_line_end q (length q) (length ?h + 2 + length d) = Inr True"
        by (rule line_end_missing) (use n assms(3) in \<open>simp_all add: mg_send_http_chunk_def\<close>)
      then show ?thesis unfolding mg_http_parse_chunk_def 1 bindE.simps prod.case 2 Let_def w by simp
    qed
  qed
qed


subsection \<open>The chunks in a buffer\<close>

abbreviation chunk_texts :: "char list list \<Rightarrow> char list" where
  "chunk_texts ds \<equiv> concat (map mg_send_http_chunk ds)"

lemma collapse_step:
  assumes "d \<noteq> []" and "length (prev @ junk @ mg_send_http_chunk d @ r) + 2 < 2 ^ 64"
  shows "\<exists>junk'. length junk' = length junk + length (mg_send_http_chunk d) - length d \<and>
    collapse (prev @ junk @ mg_send_http_chunk d @ r) (length (prev @ junk @ mg_send_http_chunk d @ r)) (length (prev @ junk)) (length prev) =
      collapse (prev @ d @ junk' @ r) (length (prev @ junk @ mg_send_http_chunk d @ r)) (length (prev @ junk @ mg_send_http_chunk d)) (length (prev @ d))"
proof -
  let ?h = "hex_upper (length d)" and ?c = "mg_send_http_chunk d"
  let ?buf = "prev @ junk @ ?c @ r"
  have p: "mg_http_parse_chunk (drop (length (prev @ junk)) ?buf) (length ?buf - length (prev @ junk)) = Inr (length ?c, (length ?h + 2, length d))"
    using parse_whole_chunk [of d r] assms(2) by simp
  have c: "?c = (?h @ CRLF) @ d @ CRLF" by (simp add: mg_send_http_chunk_def)
  have pk: "peekn ?buf (length (prev @ junk) + (length ?h + 2)) (length d) = Inr d"
    unfolding peekn_def c by simp
  have le: "length d \<le> length (junk @ ?c)" by (simp add: c)
  have po: "poke ?buf (length prev) d = Inr (prev @ d @ drop (length d) (junk @ ?c) @ r)"
    unfolding poke_def using le by simp
  have ne: "length ?c \<noteq> 0" "length d \<noteq> 0" using assms(1) by (simp_all add: c)
  have i: "length (prev @ junk) \<le> length ?buf" by simp
  have "collapse ?buf (length ?buf) (length (prev @ junk)) (length prev) =
      collapse (prev @ d @ drop (length d) (junk @ ?c) @ r) (length ?buf) (length (prev @ junk) + length ?c) (length prev + length d)"
    by (subst collapse.simps) (simp only: i if_True p bindE.simps prod.case ne if_False pk po)
  then show ?thesis by (intro exI [of _ "drop (length d) (junk @ ?c)"]) (simp add: add.assoc)
qed

lemma collapse_chunks:
  "\<forall>d\<in>set ds. d \<noteq> [] \<Longrightarrow> length (prev @ junk @ chunk_texts ds @ r) + 2 < 2 ^ 64 \<Longrightarrow>
   \<exists>junk'. length (concat ds @ junk') = length (junk @ chunk_texts ds) \<and>
    collapse (prev @ junk @ chunk_texts ds @ r) (length (prev @ junk @ chunk_texts ds @ r)) (length (prev @ junk)) (length prev) =
      collapse (prev @ concat ds @ junk' @ r) (length (prev @ junk @ chunk_texts ds @ r)) (length (prev @ junk @ chunk_texts ds)) (length (prev @ concat ds))"
proof (induction ds arbitrary: prev junk)
  case (Cons d ds)
  from collapse_step [of d prev junk "chunk_texts ds @ r"] Cons.prems obtain j where
    j: "length j = length junk + length (mg_send_http_chunk d) - length d"
    "collapse (prev @ junk @ chunk_texts (d # ds) @ r) (length (prev @ junk @ chunk_texts (d # ds) @ r)) (length (prev @ junk)) (length prev) =
      collapse (prev @ d @ j @ chunk_texts ds @ r) (length (prev @ junk @ chunk_texts (d # ds) @ r)) (length (prev @ junk @ mg_send_http_chunk d)) (length (prev @ d))"
    by auto
  have le: "length d \<le> length (mg_send_http_chunk d)" by (simp add: mg_send_http_chunk_def)
  then have l: "length ((prev @ d) @ j) = length (prev @ junk @ mg_send_http_chunk d)" using j(1) by simp
  have n: "length ((prev @ d) @ j @ chunk_texts ds @ r) = length (prev @ junk @ chunk_texts (d # ds) @ r)" using l by simp
  have "\<exists>junk'. length (concat ds @ junk') = length (j @ chunk_texts ds) \<and>
      collapse ((prev @ d) @ j @ chunk_texts ds @ r) (length ((prev @ d) @ j @ chunk_texts ds @ r)) (length ((prev @ d) @ j)) (length (prev @ d)) =
      collapse ((prev @ d) @ concat ds @ junk' @ r) (length ((prev @ d) @ j @ chunk_texts ds @ r)) (length ((prev @ d) @ j @ chunk_texts ds)) (length ((prev @ d) @ concat ds))"
    by (rule Cons.IH) (use Cons.prems n in simp_all)
  then obtain j' where j': "length (concat ds @ j') = length (j @ chunk_texts ds)"
      "collapse ((prev @ d) @ j @ chunk_texts ds @ r) (length ((prev @ d) @ j @ chunk_texts ds @ r)) (length ((prev @ d) @ j)) (length (prev @ d)) =
      collapse ((prev @ d) @ concat ds @ j' @ r) (length ((prev @ d) @ j @ chunk_texts ds @ r)) (length ((prev @ d) @ j @ chunk_texts ds)) (length ((prev @ d) @ concat ds))"
    by blast
  have e: "length ((prev @ d) @ j @ chunk_texts ds) = length (prev @ junk @ chunk_texts (d # ds))" using l by simp
  show ?case
  proof (intro exI [of _ j'] conjI)
    show "length (concat (d # ds) @ j') = length (junk @ chunk_texts (d # ds))" using j'(1) j(1) le by simp
    show "collapse (prev @ junk @ chunk_texts (d # ds) @ r) (length (prev @ junk @ chunk_texts (d # ds) @ r)) (length (prev @ junk)) (length prev) =
      collapse (prev @ concat (d # ds) @ j' @ r) (length (prev @ junk @ chunk_texts (d # ds) @ r)) (length (prev @ junk @ chunk_texts (d # ds))) (length (prev @ concat (d # ds)))"
      unfolding j(2) using j'(2) unfolding n l e by simp
  qed
next
  case Nil
  show ?case by (rule exI [of _ junk]) simp
qed


lemma collapse_last:
  assumes "length (prev @ junk @ mg_send_http_chunk []) + 2 < 2 ^ 64"
  shows "collapse (prev @ junk @ mg_send_http_chunk []) (length (prev @ junk @ mg_send_http_chunk [])) (length (prev @ junk)) (length prev) =
    Inr (length (prev @ junk @ mg_send_http_chunk []), length prev, True, prev @ junk @ mg_send_http_chunk [])"
proof -
  let ?c = "mg_send_http_chunk []" and ?h = "hex_upper 0"
  let ?buf = "prev @ junk @ ?c"
  have p: "mg_http_parse_chunk (drop (length (prev @ junk)) ?buf) (length ?buf - length (prev @ junk)) = Inr (length ?c, (length ?h + 2, 0))"
    using parse_whole_chunk [of "[]" "[]"] assms by simp
  have c: "?c = ?h @ CRLF @ CRLF" by (simp add: mg_send_http_chunk_def)
  have pk: "peekn ?buf (length (prev @ junk) + (length ?h + 2)) 0 = Inr []" by (simp add: peekn_def c)
  have po: "poke ?buf (length prev) [] = Inr ?buf" by (simp add: poke_def)
  have ne: "length ?c \<noteq> 0" "length (prev @ junk) \<le> length ?buf" by (simp_all add: c)
  show ?thesis by (subst collapse.simps) (simp only: ne if_True p bindE.simps prod.case if_False pk po, simp)
qed

lemma collapse_stop:
  assumes "mg_http_parse_chunk q (length q) = Inr (0, x)"
  shows "collapse (prev @ junk @ q) (length (prev @ junk @ q)) (length (prev @ junk)) (length prev) =
    Inr (length (prev @ junk), length prev, False, prev @ junk @ q)"
  using assms by (subst collapse.simps) (cases x, simp)

lemma chunks_split:
  "z @ rest = chunk_texts ds @ mg_send_http_chunk [] \<Longrightarrow> rest \<noteq> [] \<Longrightarrow>
   \<exists>ds1 ds2 q q2 d. ds = ds1 @ ds2 \<and> z = chunk_texts ds1 @ q \<and> q2 \<noteq> [] \<and> q @ q2 = mg_send_http_chunk d \<and>
     length (mg_send_http_chunk d) \<le> length (chunk_texts ds @ mg_send_http_chunk []) \<and> q @ rest = chunk_texts ds2 @ mg_send_http_chunk []"
proof (induction ds arbitrary: z)
  case Nil
  then show ?case by (intro exI [of _ "[]"] exI [of _ z] exI [of _ rest]) simp
next
  case (Cons d ds)
  show ?case
  proof (cases "length z < length (mg_send_http_chunk d)")
    case True
    have "z = take (length z) (mg_send_http_chunk d)" using arg_cong [OF Cons.prems(1), of "take (length z)"] True by simp
    then have "z @ drop (length z) (mg_send_http_chunk d) = mg_send_http_chunk d" by (metis append_take_drop_id)
    then show ?thesis using Cons.prems(1) True
      by (intro exI [of _ "[]"] exI [of _ "d # ds"] exI [of _ z] exI [of _ "drop (length z) (mg_send_http_chunk d)"] exI [of _ d]) simp
  next
    case False
    then have "take (length (mg_send_http_chunk d)) z = mg_send_http_chunk d"
      using arg_cong [OF Cons.prems(1), of "take (length (mg_send_http_chunk d))"] by simp
    then obtain z' where z: "z = mg_send_http_chunk d @ z'" by (metis append_take_drop_id)
    then have "z' @ rest = chunk_texts ds @ mg_send_http_chunk []" using Cons.prems(1) by simp
    from Cons.IH [OF this Cons.prems(2)] obtain ds1 ds2 q q2 d' where
      "ds = ds1 @ ds2" "z' = chunk_texts ds1 @ q" "q2 \<noteq> []" "q @ q2 = mg_send_http_chunk d'" "length (mg_send_http_chunk d') \<le> length (chunk_texts ds @ mg_send_http_chunk [])"
      "q @ rest = chunk_texts ds2 @ mg_send_http_chunk []" by blast
    then show ?thesis by (intro exI [of _ "d # ds1"] exI [of _ ds2] exI [of _ q] exI [of _ q2] exI [of _ d']) (simp add: z)
  qed
qed


subsection \<open>The handler on chunks\<close>

definition same_otherwise :: "http_conn \<Rightarrow> http_conn \<Rightarrow> bool" where
  "same_otherwise c' c \<longleftrightarrow> rcvd c' = rcvd c \<and> close_now c' = close_now c \<and> requests (events c') = requests (events c)"

lemma chunk_texts_longer: "length (concat ds) \<le> length (chunk_texts ds) \<and> (length (chunk_texts ds) \<le> length (concat ds) \<longrightarrow> ds = [])"
  by (induction ds) (auto simp: mg_send_http_chunk_def)

lemma handle_some:
  assumes "io c = head @ prev @ chunk_texts ds @ q" and "chunk_body_len c = length prev" and "\<forall>d\<in>set ds. d \<noteq> []"
    and "mg_http_parse_chunk q (length q) = Inr (0, x)" and "length (prev @ chunk_texts ds @ q) + 2 < 2 ^ 64"
  shows "\<exists>hm' c'. mg_handle_chunked keeps_chunks (length head) hm c = Inr (hm', c') \<and> message hm' = message hm \<and> headers hm' = headers hm \<and>
    io c' = head @ (prev @ concat ds) @ q \<and> chunk_body_len c' = length (prev @ concat ds) \<and> same_otherwise c' c"
proof -
  let ?buf = "prev @ chunk_texts ds @ q"
  have buf: "drop (length head) (io c) = ?buf" "take (length head) (io c) = head" by (simp_all add: assms(1))
  from collapse_chunks [OF assms(3), of prev "[]" q] assms(5) obtain j where
    j: "length (concat ds @ j) = length (chunk_texts ds)"
      "collapse ?buf (length ?buf) (length prev) (length prev) =
        collapse (prev @ concat ds @ j @ q) (length ?buf) (length (prev @ chunk_texts ds)) (length (prev @ concat ds))" by auto
  have l: "length ?buf = length ((prev @ concat ds) @ j @ q)" "length (prev @ chunk_texts ds) = length ((prev @ concat ds) @ j)"
    using j(1) by (simp_all add: add.assoc [symmetric])
  have k: "collapse ?buf (length ?buf) (length prev) (length prev) =
      Inr (length (prev @ chunk_texts ds), length (prev @ concat ds), False, (prev @ concat ds) @ j @ q)"
    using collapse_stop [OF assms(4), of "prev @ concat ds" j] j(2) unfolding l by simp
  have sh: "take (length (prev @ concat ds)) ((prev @ concat ds) @ j @ q) @ drop (length (prev @ chunk_texts ds)) ((prev @ concat ds) @ j @ q) =
      (prev @ concat ds) @ q" unfolding l(2) by simp
  have ok: "\<not> \<not> length prev \<le> length ?buf" "\<not> \<not> length (prev @ chunk_texts ds) \<le> length ?buf" by simp_all
  show ?thesis
  proof (cases "ds = []")
    case True
    then have j0: "j = []" using j(1) by simp
    show ?thesis unfolding mg_handle_chunked_def Let_def buf assms(2) if_not_P [OF ok(1)] k bindE.simps prod.case
      by (simp add: True assms(1,2) same_otherwise_def)
  next
    case False
    then have gt: "length (prev @ concat ds) < length (prev @ chunk_texts ds)" using chunk_texts_longer [of ds] by auto
    show ?thesis unfolding mg_handle_chunked_def Let_def buf assms(2) if_not_P [OF ok(1)] k bindE.simps prod.case if_P [OF gt] if_not_P [OF ok(2)] sh
      by (simp add: same_otherwise_def mg_call_def keeps_chunks_def)
  qed
qed

lemma handle_all:
  assumes "io c = head @ prev @ chunk_texts ds @ mg_send_http_chunk []" and "chunk_body_len c = length prev" and "\<forall>d\<in>set ds. d \<noteq> []"
    and "length (prev @ chunk_texts ds @ mg_send_http_chunk []) + 2 < 2 ^ 64"
  shows "\<exists>hm' c'. mg_handle_chunked keeps_chunks (length head) hm c = Inr (hm', c') \<and> fst (message hm') = fst (message hm) \<and>
    snd (message hm') = length (prev @ concat ds) + (fst (body hm) - fst (message hm)) \<and> fst (body hm') = fst (body hm) \<and>
    meth hm' = meth hm \<and> uri hm' = uri hm \<and> query_string hm' = query_string hm \<and> headers hm' = headers hm \<and> proto hm' = proto hm \<and>
    io c' = head @ prev @ concat ds \<and> chunk_body_len c' = length (prev @ concat ds) \<and> same_otherwise c' c"
proof -
  let ?z = "mg_send_http_chunk []"
  let ?buf = "prev @ chunk_texts ds @ ?z"
  have buf: "drop (length head) (io c) = ?buf" "take (length head) (io c) = head" by (simp_all add: assms(1))
  from collapse_chunks [OF assms(3), of prev "[]" ?z] assms(4) obtain j where
    j: "length (concat ds @ j) = length (chunk_texts ds)"
      "collapse ?buf (length ?buf) (length prev) (length prev) =
        collapse (prev @ concat ds @ j @ ?z) (length ?buf) (length (prev @ chunk_texts ds)) (length (prev @ concat ds))" by auto
  have l: "length ?buf = length ((prev @ concat ds) @ j @ ?z)" "length (prev @ chunk_texts ds) = length ((prev @ concat ds) @ j)"
    using j(1) by (simp_all add: add.assoc [symmetric])
  have lim: "length ((prev @ concat ds) @ j @ ?z) + 2 < 2 ^ 64" using assms(4) unfolding l(1) .
  have k: "collapse ?buf (length ?buf) (length prev) (length prev) =
      Inr (length ?buf, length (prev @ concat ds), True, (prev @ concat ds) @ j @ ?z)"
    using collapse_last [OF lim] j(2) unfolding l by simp
  have sh: "take (length (prev @ concat ds)) ((prev @ concat ds) @ j @ ?z) @ drop (length ?buf) ((prev @ concat ds) @ j @ ?z) = prev @ concat ds"
    unfolding l(1) by simp
  have z: "0 < length ?z" by (simp add: mg_send_http_chunk_def)
  have ok: "\<not> \<not> length prev \<le> length ?buf" "\<not> \<not> length ?buf \<le> length ?buf" "length (prev @ concat ds) < length ?buf" "length ?buf \<noteq> length prev"
    using chunk_texts_longer [of ds] z by auto
  show ?thesis unfolding mg_handle_chunked_def Let_def buf assms(2) if_not_P [OF ok(1)] k bindE.simps prod.case if_P [OF ok(3)] if_not_P [OF ok(2)] sh
    if_not_P [OF ok(4)]
    by (simp add: same_otherwise_def mg_call_def keeps_chunks_def)
qed


subsection \<open>A request in chunks, in pieces\<close>

definition chunked_request :: "char list \<Rightarrow> char list \<Rightarrow> char list \<Rightarrow> (char list \<times> char list) list \<Rightarrow> bool" where
  "chunked_request m u p hs \<longleftrightarrow>
     request_ok m u p hs \<and> length (request_head m u p hs) \<le> MG_MAX_HTTP_REQUEST_SIZE \<and> chunked hs \<and> takes_body m \<and>
     (\<forall>h\<in>set hs. \<not> is_content_length (fst h))"

lemma recv_chunked:
  assumes "chunked_request m u p hs"
  obtains hm where "parsed_as (request_head m u p hs) hm m u p hs" "snd (message hm) = NO_LENGTH"
    "\<And>(c :: http_conn) bytes x e. io c @ bytes = request_head m u p hs @ x \<Longrightarrow> length (io c @ bytes) < 2 ^ 31 \<Longrightarrow>
      mg_handle_chunked keeps_chunks (length (request_head m u p hs)) hm (c\<lparr>io := io c @ bytes, rcvd := rcvd c + length bytes\<rparr>) = Inl e \<Longrightarrow>
      mg_http_recv keeps_chunks bytes c = Inl e"
    "\<And>(c :: http_conn) bytes x hm' (c' :: http_conn). io c @ bytes = request_head m u p hs @ x \<Longrightarrow> length (io c @ bytes) < 2 ^ 31 \<Longrightarrow>
      mg_handle_chunked keeps_chunks (length (request_head m u p hs)) hm (c\<lparr>io := io c @ bytes, rcvd := rcvd c + length bytes\<rparr>) = Inr (hm', c') \<Longrightarrow>
      mg_http_recv keeps_chunks bytes c =
        (let e = length (request_head m u p hs); n = snd (message hm'); d = told hm' e c'
         in if n > rcvd c' then Inr d
            else Inr (d\<lparr>io := if 0 < n \<and> n \<le> length (io d) then drop n (io d) else io d, rcvd := 0,
                   events := events d @ [HttpRequest (hm'\<lparr>body := (fst (body hm'), length (io d) - e)\<rparr>) (io d)]\<rparr>))"
proof -
  let ?h = "request_head m u p hs"
  have ok: "request_ok m u p hs" "length ?h < 2 ^ 31" "chunked hs" "takes_body m" "\<forall>h\<in>set hs. \<not> is_content_length (fst h)"
    using assms by (auto simp: chunked_request_def MG_MAX_HTTP_REQUEST_SIZE_def)
  from parse_request [OF ok(1,2)] obtain hm where
    hm: "\<And>rest n. int (length ?h) \<le> n \<Longrightarrow> mg_parse_http (?h @ rest) n True = Inr (int (length ?h), hm)" "parsed_as ?h hm m u p hs" by blast
  have parse: "mg_parse_http (?h @ x) (to_int32 (int (length (?h @ x)))) True = Inr (int (length ?h), hm)" if "length (?h @ x) < 2 ^ 31" for x
    by (rule hm(1)) (simp only: narrow [OF that], simp)
  have "content_length NO_LENGTH hs = NO_LENGTH" by (rule content_length_none) (use ok(5) in auto)
  then have n: "snd (message hm) = NO_LENGTH" using hm(2) ok(4,5) by (simp add: parsed_as_def)
  have p: "0 < int (length ?h)" "\<not> (int (length ?h) < 0 \<or> int (length ?h) = 0 \<and> q)" "int (length ?h) \<noteq> 0" for q
    by (simp_all add: request_head_def)
  have te: "\<exists>v. mg_get_http_header (?h @ x) hm ''Transfer-Encoding'' = Inr (Some v) \<and> mg_vcasecmp (?h @ x) v ''chunked'' = Inr 0" for x
    using te_check [OF hm(2) ok(2), of x] ok(3) by (auto split: option.splits)
  show thesis
  proof (rule that [OF hm(2) n])
    fix c :: http_conn and bytes x e
    assume x: "io c @ bytes = ?h @ x" and lt: "length (io c @ bytes) < 2 ^ 31"
      and r: "mg_handle_chunked keeps_chunks (length ?h) hm (c\<lparr>io := io c @ bytes, rcvd := rcvd c + length bytes\<rparr>) = Inl e"
    have io: "io (c\<lparr>io := io c @ bytes, rcvd := rcvd c + length bytes\<rparr>) = ?h @ x" by (simp add: x)
    from te [of x] obtain v where v: "mg_get_http_header (?h @ x) hm ''Transfer-Encoding'' = Inr (Some v)" "mg_vcasecmp (?h @ x) v ''chunked'' = Inr 0" by blast
    show "mg_http_recv keeps_chunks bytes c = Inl e"
      unfolding mg_http_recv_def Let_def io parse [OF lt [unfolded x]] bindE.simps prod.case if_P [OF p(1)] v option.case nat_int refl [THEN if_P] r ..
  next
    fix c :: http_conn and bytes x hm' and c' :: http_conn
    assume x: "io c @ bytes = ?h @ x" and lt: "length (io c @ bytes) < 2 ^ 31"
      and r: "mg_handle_chunked keeps_chunks (length ?h) hm (c\<lparr>io := io c @ bytes, rcvd := rcvd c + length bytes\<rparr>) = Inr (hm', c')"
    have io: "io (c\<lparr>io := io c @ bytes, rcvd := rcvd c + length bytes\<rparr>) = ?h @ x" by (simp add: x)
    from te [of x] obtain v where v: "mg_get_http_header (?h @ x) hm ''Transfer-Encoding'' = Inr (Some v)" "mg_vcasecmp (?h @ x) v ''chunked'' = Inr 0" by blast
    show "mg_http_recv keeps_chunks bytes c =
        (let e = length ?h; n = snd (message hm'); d = told hm' e c'
         in if n > rcvd c' then Inr d
            else Inr (d\<lparr>io := if 0 < n \<and> n \<le> length (io d) then drop n (io d) else io d, rcvd := 0,
                   events := events d @ [HttpRequest (hm'\<lparr>body := (fst (body hm'), length (io d) - e)\<rparr>) (io d)]\<rparr>))"
      unfolding mg_http_recv_def Let_def io parse [OF lt [unfolded x]] bindE.simps prod.case if_P [OF p(1)] v option.case nat_int refl [THEN if_P] r
        if_not_P [OF p(2)] if_not_P [OF p(3)] deliver_keeps
      by (cases c') (simp add: told_def mg_call_def keeps_chunks_def)
  qed
qed


definition request_as :: "char list \<Rightarrow> char list \<Rightarrow> http_message \<Rightarrow> char list \<Rightarrow> char list \<Rightarrow> (char list \<times> char list) list \<Rightarrow> bool" where
  \<comment> \<open>the message the user is given: its parts in the buffer, and the body behind the head\<close>
  "request_as head b hm m u hs \<longleftrightarrow>
     str_bytes (head @ b) (body hm) = b \<and> str_bytes (head @ b) (meth hm) = m \<and>
     str_bytes (head @ b) (uri hm) = takeWhile (\<lambda>c. c \<noteq> CHR ''?'') u \<and> headers_are head (headers hm) hs"

lemma recv_chunk_pieces:
  assumes chunked: "chunked_request m u p hs"
  shows "\<forall>d\<in>set ds. d \<noteq> [] \<Longrightarrow>
    io c @ concat ps = request_head m u p hs @ prev @ chunk_texts ds @ mg_send_http_chunk [] \<Longrightarrow>
    length (io c) < length (request_head m u p hs @ prev @ chunk_texts ds @ mg_send_http_chunk []) \<Longrightarrow>
    prev = [] \<or> length (request_head m u p hs @ prev) \<le> length (io c) \<Longrightarrow> chunk_body_len c = length prev \<Longrightarrow> \<not> close_now c \<Longrightarrow>
    length (request_head m u p hs @ prev @ concat ds) \<le> rcvd c + length (concat ps) \<Longrightarrow> length (io c) \<le> rcvd c \<Longrightarrow> rcvd c + length (concat ps) < 2 ^ 31 \<Longrightarrow>
    \<exists>c' hm. mg_http_recv_all keeps_chunks ps c = Inr c' \<and> io c' = [] \<and> rcvd c' = 0 \<and> \<not> close_now c' \<and>
      chunk_body_len c' = length (prev @ concat ds) \<and>
      requests (events c') = requests (events c) @ [(hm, request_head m u p hs @ prev @ concat ds)] \<and>
      request_as (request_head m u p hs) (prev @ concat ds) hm m u hs"
proof (induction ps arbitrary: c prev ds)
  case (Cons y ps)
  let ?h = "request_head m u p hs" and ?z = "mg_send_http_chunk []"
  let ?e = "length (request_head m u p hs)" and ?c = "c\<lparr>io := io c @ y, rcvd := rcvd c + length y\<rparr>"
  have ok: "request_ok m u p hs" "?e \<le> MG_MAX_HTTP_REQUEST_SIZE" using chunked by (auto simp: chunked_request_def)
  have all: "(io c @ y) @ concat ps = ?h @ prev @ chunk_texts ds @ ?z" using Cons.prems(2) by simp
  have lens: "length (io c) + length y + length (concat ps) = ?e + length prev + length (chunk_texts ds) + length ?z"
    using arg_cong [OF all, of length] by simp
  consider "length (io c @ y) < ?e" | "?e \<le> length (io c @ y)" by linarith
  then show ?case
  proof cases
    case 1
    then have prev: "prev = []" using Cons.prems(4) by auto
    have "io c @ y = take (length (io c @ y)) (?h @ prev @ chunk_texts ds @ ?z)" using all by (metis append_eq_conv_conj)
    then have r: "mg_http_recv keeps_chunks y c = Inr ?c" by (rule recv_incomplete [OF ok]) (use 1 in simp)
    have "\<exists>c' hm. mg_http_recv_all keeps_chunks ps ?c = Inr c' \<and> io c' = [] \<and> rcvd c' = 0 \<and> \<not> close_now c' \<and>
      chunk_body_len c' = length (prev @ concat ds) \<and> requests (events c') = requests (events ?c) @ [(hm, ?h @ prev @ concat ds)] \<and>
      request_as ?h (prev @ concat ds) hm m u hs"
      by (rule Cons.IH) (use Cons.prems all prev 1 in simp_all)
    then show ?thesis by (simp add: r)
  next
    case 2
    obtain x where x: "io c @ y = ?h @ prev @ x" "x @ concat ps = chunk_texts ds @ ?z"
    proof -
      have "length (?h @ prev) \<le> length (io c @ y)" using 2 Cons.prems(4) by auto
      then have "io c @ y = (?h @ prev) @ drop (length (?h @ prev)) (io c @ y)"
        using arg_cong [OF all, of "take (length (?h @ prev))"] by (metis append_take_drop_id append.assoc append_eq_conv_conj take_append diff_is_0_eq take_0 append_Nil2)
      with all that show thesis by (metis append.assoc same_append_eq)
    qed
    from recv_chunked [OF chunked] obtain hm where hm: "parsed_as ?h hm m u p hs" "snd (message hm) = NO_LENGTH"
      "\<And>(c :: http_conn) bytes x hm' (c' :: http_conn). io c @ bytes = ?h @ x \<Longrightarrow> length (io c @ bytes) < 2 ^ 31 \<Longrightarrow>
        mg_handle_chunked keeps_chunks ?e hm (c\<lparr>io := io c @ bytes, rcvd := rcvd c + length bytes\<rparr>) = Inr (hm', c') \<Longrightarrow>
        mg_http_recv keeps_chunks bytes c =
          (let e = ?e; n = snd (message hm'); d = told hm' e c'
           in if n > rcvd c' then Inr d
              else Inr (d\<lparr>io := if 0 < n \<and> n \<le> length (io d) then drop n (io d) else io d, rcvd := 0,
                     events := events d @ [HttpRequest (hm'\<lparr>body := (fst (body hm'), length (io d) - e)\<rparr>) (io d)]\<rparr>))" by metis
    have io: "io ?c = ?h @ prev @ x" using x(1) by simp
    have cb: "chunk_body_len ?c = length prev" using Cons.prems(5) by simp
    have nl: "2 ^ 31 + 4 < NO_LENGTH" "NO_LENGTH + 1 = 2 ^ 64" by (simp_all add: NO_LENGTH_def)
    have two_gb: "length (io c @ y) < 2 ^ 31" using Cons.prems(8,9) by simp
    show ?thesis
    proof (cases "concat ps = []")
      case False
      then have ne: "0 < length (concat ps)" by (simp only: length_greater_0_conv not_False_eq_True)
      from chunks_split [OF x(2) False] obtain ds1 ds2 q q2 d where
        sp: "ds = ds1 @ ds2" "x = chunk_texts ds1 @ q" "q2 \<noteq> []" "q @ q2 = mg_send_http_chunk d" "length (mg_send_http_chunk d) \<le> length (chunk_texts ds @ ?z)"
          "q @ concat ps = chunk_texts ds2 @ ?z" by blast
      have "\<exists>x. mg_http_parse_chunk q (length q) = Inr (0, x)"
        by (rule parse_part_of_chunk [OF sp(4,3)]) (use sp(5) lens Cons.prems(8,9) nl in simp)
      then obtain x0 where x0: "mg_http_parse_chunk q (length q) = Inr (0, x0)" by blast
      have io': "io ?c = ?h @ prev @ chunk_texts ds1 @ q" using io sp(2) by simp
      have nd: "\<forall>d\<in>set ds1. d \<noteq> []" "\<forall>d\<in>set ds2. d \<noteq> []" using Cons.prems(1) sp(1) by auto
      have ql: "length q < length (q @ concat ps)" using ne unfolding length_append by linarith
      have fits: "length (prev @ chunk_texts ds1 @ q) + 2 < 2 ^ 64"
        using arg_cong [OF x(1), of length] Cons.prems(8,9) nl by (simp add: sp(2))
      from handle_some [OF io' cb nd(1) x0 fits, of hm] obtain hm' c' where
        h: "mg_handle_chunked keeps_chunks ?e hm ?c = Inr (hm', c')" "message hm' = message hm" "headers hm' = headers hm"
          "io c' = ?h @ (prev @ concat ds1) @ q" "chunk_body_len c' = length (prev @ concat ds1)" "same_otherwise c' ?c" by blast
      have rc: "rcvd c' = rcvd c + length y" using h(6) by (simp add: same_otherwise_def)
      then have lt: "rcvd c' < snd (message hm')" using h(2) hm(2) Cons.prems(9) nl by simp
      have r: "mg_http_recv keeps_chunks y c = Inr (told hm' ?e c')"
        unfolding hm(3) [OF x(1) two_gb h(1)] Let_def if_P [OF lt] ..
      let ?d = "told hm' ?e c'"
      have "\<exists>c'' hm. mg_http_recv_all keeps_chunks ps ?d = Inr c'' \<and> io c'' = [] \<and> rcvd c'' = 0 \<and> \<not> close_now c'' \<and>
        chunk_body_len c'' = length ((prev @ concat ds1) @ concat ds2) \<and>
        requests (events c'') = requests (events ?d) @ [(hm, ?h @ (prev @ concat ds1) @ concat ds2)] \<and>
        request_as ?h ((prev @ concat ds1) @ concat ds2) hm m u hs"
      proof (rule Cons.IH)
        show "io ?d @ concat ps = ?h @ (prev @ concat ds1) @ chunk_texts ds2 @ ?z" using sp(6) h(4) by (simp add: told_def)
        show "length (io ?d) < length (?h @ (prev @ concat ds1) @ chunk_texts ds2 @ ?z)"
          using ql h(4) unfolding sp(6) by (simp add: told_def)
        show "length (io ?d) \<le> rcvd ?d"
          using arg_cong [OF x(1), of length] Cons.prems(8) h(4) rc chunk_texts_longer [of ds1] by (simp add: told_def sp(2))
        show "length (?h @ (prev @ concat ds1) @ concat ds2) \<le> rcvd ?d + length (concat ps)"
          using Cons.prems(7) rc by (simp add: told_def sp(1))
        show "rcvd ?d + length (concat ps) < 2 ^ 31" using Cons.prems(9) rc by (simp add: told_def)
      qed (use nd h Cons.prems(6) in \<open>simp_all add: told_def same_otherwise_def\<close>)
      then show ?thesis using h(6) by (simp add: r sp(1) told_def same_otherwise_def)
    next
      case True
      have xz: "x = chunk_texts ds @ ?z" using x(2) by (simp only: True append_Nil2)
      have io': "io ?c = ?h @ prev @ chunk_texts ds @ ?z" using io by (simp add: xz)
      have fits: "length (prev @ chunk_texts ds @ ?z) + 2 < 2 ^ 64" using lens Cons.prems(8,9) nl by simp
      from handle_all [OF io' cb Cons.prems(1) fits, of hm] obtain hm' c' where
        h: "mg_handle_chunked keeps_chunks ?e hm ?c = Inr (hm', c')" "fst (message hm') = fst (message hm)"
          "snd (message hm') = length (prev @ concat ds) + (fst (body hm) - fst (message hm))" "fst (body hm') = fst (body hm)"
          "meth hm' = meth hm" "uri hm' = uri hm" "headers hm' = headers hm" "io c' = ?h @ prev @ concat ds"
          "chunk_body_len c' = length (prev @ concat ds)" "same_otherwise c' ?c" by blast
      have b: "fst (body hm) = ?e" "fst (message hm) = 0" using hm(1) by (simp_all add: parsed_as_def)
      have n: "snd (message hm') = length (?h @ prev @ concat ds)" using h(3) b by simp
      have rc: "rcvd c' = rcvd c + length y" using h(10) by (simp add: same_otherwise_def)
      have nlt: "\<not> rcvd c' < snd (message hm')" unfolding n rc using Cons.prems(7) True by simp
      let ?hm = "hm'\<lparr>body := (?e, length (prev @ concat ds))\<rparr>"
      let ?d = "(told hm' ?e c')\<lparr>io := [], rcvd := 0, events := events (told hm' ?e c') @ [HttpRequest ?hm (?h @ prev @ concat ds)]\<rparr>"
      have pos: "0 < length (?h @ prev @ concat ds)" by (simp add: request_head_def)
      have r: "mg_http_recv keeps_chunks y c = Inr ?d"
        unfolding hm(3) [OF x(1) two_gb h(1)] Let_def if_not_P [OF nlt] using pos h(4,8) by (cases c') (simp add: told_def n b)
      have "mg_http_recv_all keeps_chunks ps ?d = Inr ?d" by (rule recv_nothing) (use True in simp_all)
      then have "mg_http_recv_all keeps_chunks (y # ps) c = Inr ?d" unfolding mg_http_recv_all.simps r bindE.simps .
      moreover have "request_as ?h (prev @ concat ds) ?hm m u hs"
        using hm(1) h(5-7) slice_extend by (auto simp: request_as_def parsed_as_def str_bytes_def slice_is_def)
      moreover have "requests (events ?d) = requests (events c) @ [(?hm, ?h @ prev @ concat ds)]" "\<not> close_now ?d"
        "chunk_body_len ?d = length (prev @ concat ds)" "io ?d = []" "rcvd ?d = 0"
        using h(9,10) Cons.prems(6) by (simp_all add: told_def same_otherwise_def)
      ultimately show ?thesis by blast
    qed
  qed
qed simp

text \<open>
  C8. What the server's own encoder of chunks writes, its handler reads back: a request, shorter than 2 GB, whose body is sent as any
  sequence of nonempty chunks and the last chunk, cut into pieces anywhere, even inside a length or a line end,
  reaches the user exactly once, with the head's method, path and headers, and with the concatenation of the chunks as its body.
\<close>

theorem chunked_in_pieces:
  assumes "chunked_request m u p hs" and "\<forall>d\<in>set ds. d \<noteq> []" and "concat ps = request_head m u p hs @ chunk_texts ds @ mg_send_http_chunk []"
    and "length (concat ps) < 2 ^ 31" and "at_rest c"
  shows "\<exists>c' hm. mg_http_recv_all keeps_chunks ps c = Inr c' \<and> io c' = [] \<and> rcvd c' = 0 \<and> \<not> close_now c' \<and>
    requests (events c') = requests (events c) @ [(hm, request_head m u p hs @ concat ds)] \<and> request_as (request_head m u p hs) (concat ds) hm m u hs"
proof -
  have "length (request_head m u p hs @ concat ds) \<le> length (concat ps)" using assms(3) chunk_texts_longer [of ds] by simp
  then have "\<exists>c' hm. mg_http_recv_all keeps_chunks ps c = Inr c' \<and> io c' = [] \<and> rcvd c' = 0 \<and> \<not> close_now c' \<and>
      chunk_body_len c' = length ([] @ concat ds) \<and> requests (events c') = requests (events c) @ [(hm, request_head m u p hs @ [] @ concat ds)] \<and>
      request_as (request_head m u p hs) ([] @ concat ds) hm m u hs"
    by (intro recv_chunk_pieces [OF assms(1,2)]) (use assms(3-5) in \<open>auto simp: at_rest_def NO_LENGTH_def request_head_def\<close>)
  then show ?thesis by auto
qed

definition demo_chunked :: "(char list \<times> char list) list" where
  "demo_chunked = [(''Host'', ''localhost:8000''), (''transfer-encoding'', ''Chunked'')]"

lemma demo_chunked_request: "chunked_request ''POST'' ''/api/like'' ''HTTP/1.1'' demo_chunked"
proof -
  have "request_ok ''POST'' ''/api/like'' ''HTTP/1.1'' demo_chunked" "chunked demo_chunked" "takes_body ''POST''"
    "\<forall>h\<in>set demo_chunked. \<not> is_content_length (fst h)" "length (request_head ''POST'' ''/api/like'' ''HTTP/1.1'' demo_chunked) = 77" by code_simp+
  then show ?thesis by (simp add: chunked_request_def MG_MAX_HTTP_REQUEST_SIZE_def)
qed

lemma demo_chunks: "chunk_texts [''id='', ''7''] @ mg_send_http_chunk [] =
   ''3'' @ CRLF @ ''id='' @ CRLF @ ''1'' @ CRLF @ ''7'' @ CRLF @ ''0'' @ CRLF @ CRLF"
  by code_simp

theorem chunked_in_pieces_witness:
  "\<exists>c' hm. mg_http_recv_all keeps_chunks
      [request_head ''POST'' ''/api/like'' ''HTTP/1.1'' demo_chunked @ ''3'', CRLF @ ''id'', ''='' @ CRLF @ ''1'' @ CRLF @ ''7'' @ CRLF @ ''0'' @ CRLF @ CRLF]
      fresh = Inr c' \<and> requests (events c') = [(hm, request_head ''POST'' ''/api/like'' ''HTTP/1.1'' demo_chunked @ ''id=7'')]"
proof -
  let ?h = "request_head ''POST'' ''/api/like'' ''HTTP/1.1'' demo_chunked"
  let ?ps = "[?h @ ''3'', CRLF @ ''id'', ''='' @ CRLF @ ''1'' @ CRLF @ ''7'' @ CRLF @ ''0'' @ CRLF @ CRLF]"
  have l: "length ?h = 77" by code_simp
  have "concat ?ps = ?h @ chunk_texts [''id='', ''7''] @ mg_send_http_chunk []" unfolding demo_chunks by simp
  moreover have "length (concat ?ps) < 2 ^ 31" using l by simp
  moreover have "at_rest fresh" "\<forall>d\<in>set [''id='', ''7'']. d \<noteq> []" by (simp_all add: at_rest_def fresh_def)
  ultimately show ?thesis using chunked_in_pieces [OF demo_chunked_request, of "[''id='', ''7'']" ?ps fresh] by (auto simp: fresh_def)
qed

subsection \<open>The second request\<close>

lemma recv_all_append: "mg_http_recv_all user (ps @ qs) c = bindE (mg_http_recv_all user ps c) (mg_http_recv_all user qs)"
proof (induction ps arbitrary: c)
  case (Cons p ps)
  then show ?case by (cases "mg_http_recv user p c") simp_all
qed simp

text \<open>
  C13. The length of the body that was put together is not forgotten with the request: when the next request
  in chunks on the connection has brought fewer bytes behind its head than the body before was long, the
  assertion in \<open>mg_handle_chunked\<close> fails and the server is aborted. The bytes of either request stay below 2 GB.
\<close>

theorem second_chunked_request_aborts:
  assumes "chunked_request m u p hs" and "\<forall>d\<in>set ds. d \<noteq> []" and "concat ps = request_head m u p hs @ chunk_texts ds @ mg_send_http_chunk []"
    and "length (concat ps) < 2 ^ 31" and "at_rest c" and "chunked_request m2 u2 p2 hs2" and "length x < length (concat ds)"
    and "length (request_head m2 u2 p2 hs2 @ x) < 2 ^ 31"
  shows "mg_http_recv_all keeps_chunks (ps @ [request_head m2 u2 p2 hs2 @ x]) c = Inl AssertFailed"
proof -
  let ?h = "request_head m2 u2 p2 hs2"
  have "length (request_head m u p hs @ concat ds) \<le> length (concat ps)" using assms(3) chunk_texts_longer [of ds] by simp
  then have "\<exists>c' hm. mg_http_recv_all keeps_chunks ps c = Inr c' \<and> io c' = [] \<and> rcvd c' = 0 \<and> \<not> close_now c' \<and>
      chunk_body_len c' = length ([] @ concat ds) \<and> requests (events c') = requests (events c) @ [(hm, request_head m u p hs @ [] @ concat ds)] \<and>
      request_as (request_head m u p hs) ([] @ concat ds) hm m u hs"
    by (intro recv_chunk_pieces [OF assms(1,2)]) (use assms(3-5) in \<open>auto simp: at_rest_def NO_LENGTH_def request_head_def\<close>)
  then obtain c' where c': "mg_http_recv_all keeps_chunks ps c = Inr c'" "io c' = []" "rcvd c' = 0" "chunk_body_len c' = length (concat ds)" by auto
  have x: "io c' @ (?h @ x) = ?h @ x" by (simp add: c'(2))
  have "mg_handle_chunked keeps_chunks (length ?h) hm (c'\<lparr>io := io c' @ (?h @ x), rcvd := rcvd c' + length (?h @ x)\<rparr>) = Inl AssertFailed" for hm
    using assms(7) by (simp add: mg_handle_chunked_def Let_def c'(2,4))
  moreover have "length (io c' @ (?h @ x)) < 2 ^ 31" using assms(8) by (simp add: c'(2))
  ultimately have "mg_http_recv keeps_chunks (?h @ x) c' = Inl AssertFailed" using recv_chunked [OF assms(6)] x by metis
  then show ?thesis by (simp add: recv_all_append c'(1))
qed

theorem second_chunked_request_aborts_witness:
  "mg_http_recv_all keeps_chunks
     [request_head ''POST'' ''/api/like'' ''HTTP/1.1'' demo_chunked @ ''3'' @ CRLF @ ''id='' @ CRLF @ ''1'' @ CRLF @ ''7'' @ CRLF @ ''0'' @ CRLF @ CRLF,
      request_head ''POST'' ''/api/like'' ''HTTP/1.1'' demo_chunked] fresh = Inl AssertFailed"
proof -
  let ?h = "request_head ''POST'' ''/api/like'' ''HTTP/1.1'' demo_chunked"
  let ?ps = "[?h @ chunk_texts [''id='', ''7''] @ mg_send_http_chunk []]"
  have l: "length ?h = 77" by code_simp
  have "length (concat ?ps) < 2 ^ 31" unfolding concat.simps append_Nil2 demo_chunks using l by simp
  moreover have "at_rest fresh" "\<forall>d\<in>set [''id='', ''7'']. d \<noteq> []" "length ([] :: char list) < length (concat [''id='', ''7''])" "length (?h @ []) < 2 ^ 31" "concat ?ps = ?h @ chunk_texts [''id='', ''7''] @ mg_send_http_chunk []"
    by (simp_all add: at_rest_def fresh_def l)
  ultimately have "mg_http_recv_all keeps_chunks (?ps @ [?h @ []]) fresh = Inl AssertFailed"
    by (metis second_chunked_request_aborts [OF demo_chunked_request _ _ _ _ demo_chunked_request _, of "[''id='', ''7'']" ?ps fresh "[]"])
  then show ?thesis unfolding demo_chunks by simp
qed

subsection \<open>A length that wraps round\<close>

text \<open>
  C14. The length of a chunk is not bounded: with \<open>FFFFFFFFFFFFFFFE\<close> the position behind the data wraps round to the
  line end before it, the chunk counts as complete, and copying its data runs out of the receive
  buffer. One request of a client suffices, as long as less than 2 GB have been received.
\<close>

theorem chunk_length_overflow:
  assumes "chunked_request m u p hs" and "at_rest c" and "length (request_head m u p hs @ ''FFFFFFFFFFFFFFFE'' @ CRLF @ x) < 2 ^ 31"
  shows "mg_http_recv keeps_chunks (request_head m u p hs @ ''FFFFFFFFFFFFFFFE'' @ CRLF @ x) c = Inl OutOfBounds"
proof -
  let ?t = "''FFFFFFFFFFFFFFFE''" and ?h = "request_head m u p hs"
  let ?b = "''FFFFFFFFFFFFFFFE'' @ CRLF @ x"
  have c: "io c = []" "chunk_body_len c = 0" using assms(2) by (simp_all add: at_rest_def)
  have v: "hex_value ?t 0 = 2 ^ 64 - 2" by (simp add: hex_value_def hex_digit_def c_tolower_def is_digit_def wrap64_def)
  have "\<forall>c\<in>set ?t. c_isxdigit c" by code_simp
  from chunk_length_span [OF this, of "[]" "length ?b" "CRLF @ x" 0] CR_no_digit have 1: "chunk_length ?b (length ?b) 0 0 = Inr (2 ^ 64 - 2, 16)"
    unfolding v by simp
  have t: "length ?t = 16" by simp
  have 2: "no_line_end ?b (length ?b) 16 = Inr False" using line_end_there [of ?t "length ?b" x] assms(3) unfolding t by simp
  have w: "wrap64 (16 + 2) = 18" "wrap64 (18 + (2 ^ 64 - 2)) = 16" "wrap64 (16 + 2) = 18" by (simp_all add: wrap64_def)
  have 3: "mg_http_parse_chunk ?b (length ?b) = Inr (18, (18, 2 ^ 64 - 2))"
    unfolding mg_http_parse_chunk_def 1 bindE.simps prod.case 2 if_False Let_def w ..
  have 4: "peekn ?b (0 + 18) (2 ^ 64 - 2) = Inl OutOfBounds" using assms(3) by (simp add: peekn_def)
  have 5: "collapse ?b (length ?b) 0 0 = Inl OutOfBounds"
    by (subst collapse.simps) (simp only: le0 if_True drop_0 diff_zero 3 bindE.simps prod.case 4 zero_neq_numeral [symmetric] if_False)
  have "mg_handle_chunked keeps_chunks (length ?h) hm (c\<lparr>io := io c @ ?h @ ?b, rcvd := rcvd c + length (?h @ ?b)\<rparr>) = Inl OutOfBounds" for hm
    using 5 by (simp add: mg_handle_chunked_def Let_def c)
  moreover have "io c @ (?h @ ?b) = ?h @ ?b" "length (io c @ (?h @ ?b)) < 2 ^ 31" using assms(3) by (simp_all add: c)
  ultimately show ?thesis using recv_chunked [OF assms(1)] by metis
qed

theorem chunk_length_overflow_witness:
  "mg_http_recv keeps_chunks (request_head ''POST'' ''/api/like'' ''HTTP/1.1'' demo_chunked @ ''FFFFFFFFFFFFFFFE'' @ CRLF @ ''x'') fresh = Inl OutOfBounds"
proof -
  have "length (request_head ''POST'' ''/api/like'' ''HTTP/1.1'' demo_chunked) = 77" by code_simp
  then show ?thesis by (intro chunk_length_overflow [OF demo_chunked_request]) (simp_all add: at_rest_def fresh_def)
qed

end
