(* ===== verification/Serve.thy ===== *)
theory Serve
  imports HttpMsg
begin

section \<open>Serving files (mg_http.c, mg_util.c)\<close>

text \<open>
  What the server does with a request that is not one of its own: which file or which error answers it. The file
  system is a parameter, and so are the check of a digest, the test whether a file was modified, and how an
  address range is read. Memory from the allocator has any contents. The build is that of a Unix system, with CGI and with
  listings of directories, without WebDAV; running a script and writing the page of a listing are answers of the
  model, not carried out in it.
\<close>

subsection \<open>Lists and patterns\<close>

definition mg_next_comma_list_entry :: "char list \<Rightarrow> (char list \<times> char list \<times> char list option) option" where
  \<comment> \<open>the rest of the list, the name and the value behind the equals sign\<close>
  "mg_next_comma_list_entry l =
     (if l = [] then None
      else let val = takeWhile (\<lambda>c. c \<noteq> CHR '','') l; l = drop (Suc (length val)) l
           in if CHR ''='' \<in> set val
              then Some (l, takeWhile (\<lambda>c. c \<noteq> CHR ''='') val, Some (tl (dropWhile (\<lambda>c. c \<noteq> CHR ''='') val)))
              else Some (l, val, None))"

lemma next_entry_shorter: "mg_next_comma_list_entry l = Some (l', e) \<Longrightarrow> length l' < length l"
  by (cases l) (auto simp: mg_next_comma_list_entry_def Let_def split: if_splits)

lemma takeWhile_shorter: "x \<in> set xs \<Longrightarrow> length (takeWhile (\<lambda>c. c \<noteq> x) xs) < length xs"
  by (induction xs) auto

function mg_match_prefix_n :: "char list \<Rightarrow> char list \<Rightarrow> nat" and match_loop :: "char list \<Rightarrow> char list \<Rightarrow> nat \<Rightarrow> nat" where
  \<comment> \<open>the loop is given what is left of the pattern and of the string, and the index into the string\<close>
  "mg_match_prefix_n pattern str =
     (if CHR ''|'' \<in> set pattern \<or> CHR '','' \<in> set pattern
      then let sep = (if CHR ''|'' \<in> set pattern then CHR ''|'' else CHR '',''); a = takeWhile (\<lambda>c. c \<noteq> sep) pattern;
               res = mg_match_prefix_n a str
           in if res > 0 then res else mg_match_prefix_n (drop (Suc (length a)) pattern) str
      else match_loop pattern str 0)"
| "match_loop pattern str j =
     (case pattern of
        [] \<Rightarrow> j
      | c # p \<Rightarrow>
          (case str of
             [] \<Rightarrow> if c = CHR ''$'' then j else 0
           | d # s \<Rightarrow>
               if c = CHR ''?'' then match_loop p s (Suc j)
               else if c = CHR ''*''
               then let (p', len) = (if take 1 p = ''*'' then (tl p, length str) else (p, length (takeWhile (\<lambda>x. x \<noteq> CHR ''/'') str)))
                    in if p' = [] \<or> p' = ''$'' then j + len
                       else let ls = rev [0..<Suc len]; rs = map (\<lambda>l. (l, mg_match_prefix_n p' (drop l str))) ls
                            in (case dropWhile (\<lambda>(l, r). r = 0) rs of [] \<Rightarrow> 0 | (l, r) # _ \<Rightarrow> j + r + l)
               else if c_tolower c \<noteq> c_tolower d
               then 0
               else match_loop p s (Suc j)))"
  by pat_completeness auto
termination
proof (relation "measure (\<lambda>x. case x of Inl (p, s) \<Rightarrow> 2 * length p + 1 | Inr (p, s, j) \<Rightarrow> 2 * length p)", goal_cases)
  case (2 pattern str sep a)
  then have "sep \<in> set pattern" by auto
  then have "length (takeWhile (\<lambda>c. c \<noteq> sep) pattern) < length pattern"
    by (intro takeWhile_shorter)
  then show ?case using 2 by simp
qed (auto simp: takeWhile_eq_all_conv dest: length_pos_if_in_set split: if_splits)

declare mg_match_prefix_n.simps [simp del] match_loop.simps [simp del]

definition mg_match_prefix :: "char list \<Rightarrow> char list \<Rightarrow> nat" where
  "mg_match_prefix pattern str = mg_match_prefix_n pattern str"

subsection \<open>From a URI to a path\<close>

datatype file_kind = Regular | Directory | Other

type_synonym file_system = "char list \<Rightarrow> file_kind option" \<comment> \<open>what \<open>mg_stat\<close> finds under a path\<close>

type_synonym malloc_block = "nat \<Rightarrow> (nat \<Rightarrow> char) option" \<comment> \<open>a new block, with what is in it\<close>

record serve_opts =
  document_root :: "char list option"
  index_files :: "char list option"
  per_directory_auth_file :: "char list option"
  auth_domain :: "char list option"
  global_auth_file :: "char list option"
  ssi_pattern :: "char list option"
  ip_acl :: "char list option"
  url_rewrites :: "char list option"
  hidden_file_pattern :: "char list option"
  cgi_file_pattern :: "char list option"
  enable_directory_listing :: "char list option"

definition c_path :: "char list \<Rightarrow> char list res" where
  \<comment> \<open>the string that starts at the first byte of a block\<close>
  "c_path lp = (if NUL \<in> set lp then Inr (takeWhile (\<lambda>c. c \<noteq> NUL) lp) else Inl OutOfBounds)"

function find_rewrite :: "char list \<Rightarrow> mg_str \<Rightarrow> mg_str option \<Rightarrow> char list \<Rightarrow> (char list option \<times> nat) res" where
  \<comment> \<open>the loop over the rewrites: the root, and where the path of the file starts in the URI\<close>
  "find_rewrite mem u hh rewrites =
     (case mg_next_comma_list_entry rewrites of
        None \<Rightarrow> Inr (None, fst u)
      | Some (rewrites, a, b) \<Rightarrow>
          if length a > 1 \<and> hd a = CHR ''@''
          then (case hh of
                  Some h \<Rightarrow>
                    if snd h = length a - 1
                    then bindE (mg_ncasecmp (tl a) (drop (fst h) mem) (length a - 1)) (\<lambda>d.
                         if d = 0 then Inr (b, fst u) else find_rewrite mem u hh rewrites)
                    else find_rewrite mem u hh rewrites
                | None \<Rightarrow> find_rewrite mem u hh rewrites)
          else let n = mg_match_prefix_n a (str_bytes mem u)
               in if n > 0
                  then bindE (peek mem (fst u + n)) (\<lambda>c.
                       if c = CHR ''/'' \<or> n = snd u then Inr (b, fst u + n)
                       else bindE (peek mem (fst u + n - 1)) (\<lambda>c.
                            if c = CHR ''/'' then Inr (b, fst u + n - 1) else find_rewrite mem u hh rewrites))
                  else find_rewrite mem u hh rewrites)"
  by pat_completeness auto
termination by (relation "measure (\<lambda>(mem, u, hh, rewrites). length rewrites)") (auto dest: next_entry_shorter)

declare find_rewrite.simps [simp del]

fun up_to_slash :: "char list \<Rightarrow> nat \<Rightarrow> nat \<Rightarrow> nat res" where
  "up_to_slash lp ps p =
     (if p > ps then bindE (peek lp p) (\<lambda>c. if c \<noteq> CHR ''/'' then up_to_slash lp ps (p - 1) else Inr p) else Inr p)"

declare up_to_slash.simps [simp del]

definition decode_component :: "char list \<Rightarrow> nat \<Rightarrow> char list \<Rightarrow> (int \<times> char list) res" where
  \<comment> \<open>a component is moved behind \<open>p\<close> and decoded in place, which never reads what it has written;
    its length and the room behind \<open>p\<close> are narrowed to \<open>int\<close>\<close>
  "decode_component lp p x =
     bindE (poke lp (Suc p) x) (\<lambda>lp.
     bindE (mg_url_decode x (to_int32 (int (length x))) (drop (Suc p) lp) (to_int32 (int (length lp) - int p - 1)) False) (\<lambda>(len, dst).
     Inr (len, take (Suc p) lp @ dst)))"

function build_path :: "file_system \<Rightarrow> char list \<Rightarrow> nat \<Rightarrow> nat \<Rightarrow> char list \<Rightarrow> nat \<Rightarrow> nat \<Rightarrow> bool \<Rightarrow> bool \<Rightarrow> (char list \<times> nat \<times> bool) res" where
  \<comment> \<open>the loop over the components of the URI: \<open>lp\<close>, \<open>u\<close>, \<open>p\<close>, \<open>exists\<close>, \<open>ok\<close>\<close>
  "build_path fs mem cp_end ps lp u p ex ok =
     (if u \<le> cp_end
      then bindE (if ex then bindE (c_path lp) (\<lambda>s. Inr (fs s)) else Inr None) (\<lambda>st.
           if st = Some Regular
           then bindE (peek mem (u - 1)) (\<lambda>c. Inr (lp, if c = CHR ''/'' then u - 1 else u, ok))
           else if u \<ge> cp_end then Inr (lp, u, ok)
           else let ex = (st \<noteq> None)
                in bindE (parse_uri_component mem u cp_end ''/'') (\<lambda>(component, nxt).
                   if snd component = 0 then build_path fs mem cp_end ps lp nxt p ex ok
                   else bindE (peekn mem (fst component) (snd component)) (\<lambda>x.
                        bindE (decode_component lp p x) (\<lambda>(len, lp).
                        if len \<le> 0 then Inr (lp, u, False)
                        else let name = take (nat len) (drop (Suc p) lp)
                             in if mg_vcmp name ''.'' = 0 then build_path fs mem cp_end ps lp nxt p ex ok
                                else if mg_vcmp name ''..'' = 0
                                then bindE (up_to_slash lp ps p) (\<lambda>p.
                                     bindE (poke lp p [NUL]) (\<lambda>lp. build_path fs mem cp_end ps lp nxt p ex ok))
                                else bindE (poke lp p ''/'') (\<lambda>lp.
                                     let n = length (takeWhile (\<lambda>c. c \<noteq> NUL \<and> c \<noteq> CHR ''/'') name)
                                     in build_path fs mem cp_end ps lp nxt (Suc p + n) ex (ok \<and> n = length name))))))
      else Inr (lp, u, ok))"
  by pat_completeness auto
termination
  by (relation "measure (\<lambda>(fs, mem, cp_end, ps, lp, u, p, ex, ok). Suc cp_end - u)") (auto dest!: parse_uri_component_next)

declare build_path.simps [simp del]

definition mg_uri_to_local_path ::
  "file_system \<Rightarrow> malloc_block \<Rightarrow> char list \<Rightarrow> http_message \<Rightarrow> serve_opts \<Rightarrow> (char list \<times> mg_str) option res" where
  \<comment> \<open>the local path and the rest of the URI; None for the result 0\<close>
  "mg_uri_to_local_path fs mal mem hm opts =
     bindE (mg_get_http_header mem hm ''Host'') (\<lambda>hh.
     bindE (find_rewrite mem (uri hm) hh (case url_rewrites opts of None \<Rightarrow> [] | Some r \<Rightarrow> r)) (\<lambda>(r, start).
     let root = (case r of None \<Rightarrow> document_root opts | Some b \<Rightarrow> Some b); cp_end = fst (uri hm) + snd (uri hm)
     in case root of
          None \<Rightarrow> Inl OutOfBounds
        | Some root \<Rightarrow>
            if root = [] then Inl AssertFailed
            else let size = length root + snd (uri hm) + 1
                 in case mal size of
                      None \<Rightarrow> Inr None
                    | Some blk \<Rightarrow>
                        bindE (poke (map blk [0..<size]) 0 root) (\<lambda>lp.
                        let p = (if last root = CHR ''/'' then length root - 1 else length root)
                        in bindE (poke lp p [NUL]) (\<lambda>lp.
                           bindE (build_path fs mem cp_end p lp (start + 1) p True True) (\<lambda>(lp, u, ok).
                           if ok
                           then let u = (if u > cp_end then cp_end else u)
                                in bindE (c_path lp) (\<lambda>s. Inr (Some (s, (u, cp_end - u))))
                           else Inr None)))))"

subsection \<open>Choosing the answer\<close>

record serve_env =
  \<comment> \<open>the file system; the allocator; the result of checking the digest of the request against a passwords file,
    if the file can be opened; whether a file was not modified since the time in the request; how an address range is read\<close>
  se_fs :: file_system
  se_mal :: malloc_block
  check_digest :: "char list \<Rightarrow> bool option"
  not_modified :: "char list \<Rightarrow> bool"
  parse_net :: "char list \<Rightarrow> (32 word \<times> 32 word) option"
  local_port :: "char list"
  remote_ip :: "32 word"

datatype answer =
    Error nat \<comment> \<open>an error page with this status\<close>
  | Moved "char list" \<comment> \<open>a redirection to the path with a slash behind it, or to another server\<close>
  | Proxied "char list" "char list" \<comment> \<open>the request goes to another server: mount point and server\<close>
  | AskPassword
  | ServerOptions
  | Served "char list" \<comment> \<open>the file under this path\<close>
  | ServedSsi "char list" \<comment> \<open>the file under this path, with its directives carried out\<close>
  | RunCgi "char list" "char list" \<comment> \<open>the program under this path is run, with the rest of the URI\<close>
  | Listing "char list" \<comment> \<open>a page with the names in this directory\<close>

function check_acl :: "serve_env \<Rightarrow> char list \<Rightarrow> char \<Rightarrow> int" where
  "check_acl env acl allowed =
     (case mg_next_comma_list_entry acl of
        None \<Rightarrow> if allowed = CHR ''+'' then 1 else 0
      | Some (rest, _) \<Rightarrow>
          let flag = hd acl
          in if flag \<noteq> CHR ''+'' \<and> flag \<noteq> CHR ''-'' then -1
             else (case parse_net env (tl acl) of
                     None \<Rightarrow> -1
                   | Some (net, msk) \<Rightarrow> check_acl env rest (if net = (remote_ip env AND msk) then flag else allowed)))"
  by pat_completeness auto
termination by (relation "measure (\<lambda>(env, acl, allowed). length acl)") (auto dest: next_entry_shorter)

declare check_acl.simps [simp del]

definition mg_check_ip_acl :: "serve_env \<Rightarrow> char list option \<Rightarrow> int" where
  \<comment> \<open>if any range is set, deny by default\<close>
  "mg_check_ip_acl env acl =
     (case acl of None \<Rightarrow> check_acl env [] (CHR ''+'')
      | Some acl \<Rightarrow> check_acl env acl (if acl = [] then CHR ''+'' else CHR ''-''))"

definition mg_strncmp_eq :: "char list \<Rightarrow> char list \<Rightarrow> nat \<Rightarrow> bool" where
  "mg_strncmp_eq a b n \<longleftrightarrow> take n a = take n b"

function handle_forwarding :: "char list \<Rightarrow> char list \<Rightarrow> (char list \<times> char list) option" where
  "handle_forwarding u rewrites =
     (case mg_next_comma_list_entry rewrites of
        None \<Rightarrow> None
      | Some (rewrites, a, b) \<Rightarrow>
          (case b of
             Some b \<Rightarrow>
               if mg_strncmp_eq a u (length a) \<and> (mg_strncmp_eq b ''http://'' 7 \<or> mg_strncmp_eq b ''https://'' 8)
               then Some (a, b) else handle_forwarding u rewrites
           | None \<Rightarrow> handle_forwarding u rewrites))"
  by pat_completeness auto
termination by (relation "measure (\<lambda>(u, rewrites). length rewrites)") (auto dest: next_entry_shorter)

declare handle_forwarding.simps [simp del]

function port_redirect :: "char list \<Rightarrow> char list \<Rightarrow> char list option option" where
  "port_redirect port rewrites =
     (case mg_next_comma_list_entry rewrites of
        None \<Rightarrow> None
      | Some (rewrites, a, b) \<Rightarrow> if mg_vcmp a (''%'' @ port) = 0 then Some b else port_redirect port rewrites)"
  by pat_completeness auto
termination by (relation "measure (\<lambda>(port, rewrites). length rewrites)") (auto dest: next_entry_shorter)

declare port_redirect.simps [simp del]

function mg_find_index_file :: "serve_env \<Rightarrow> char list \<Rightarrow> char list \<Rightarrow> char list option" where
  "mg_find_index_file env path l =
     (case mg_next_comma_list_entry l of
        None \<Rightarrow> None
      | Some (rest, _) \<Rightarrow>
          let vec = takeWhile (\<lambda>c. c \<noteq> CHR '','') l; file = path @ ''/'' @ vec
          in if se_mal env (length path + 1 + length vec + 1) = None then None
             else if se_fs env file = Some Regular then Some file
             else mg_find_index_file env path rest)"
  by pat_completeness auto
termination by (relation "measure (\<lambda>(env, path, l). length l)") (auto dest: next_entry_shorter)

declare mg_find_index_file.simps [simp del]

definition base_part :: "char list \<Rightarrow> char list" where
  \<comment> \<open>what is behind the last slash\<close>
  "base_part path = rev (takeWhile (\<lambda>c. c \<noteq> CHR ''/'') (rev path))"

definition dir_part :: "char list \<Rightarrow> char list" where
  \<comment> \<open>what is before the last slash, nothing if there is none\<close>
  "dir_part path = rev (tl (dropWhile (\<lambda>c. c \<noteq> CHR ''/'') (rev path)))"

definition mg_is_file_hidden :: "char list \<Rightarrow> serve_opts \<Rightarrow> bool \<Rightarrow> bool" where
  "mg_is_file_hidden path opts exclude_specials =
     (let path = base_part path
      in exclude_specials \<and> (path = ''.'' \<or> path = ''..'') \<or>
         (case per_directory_auth_file opts of None \<Rightarrow> False | Some p1 \<Rightarrow> mg_match_prefix p1 path = length p1) \<or>
         (case hidden_file_pattern opts of None \<Rightarrow> False | Some p2 \<Rightarrow> mg_match_prefix p2 path > 0))"

definition MG_MAX_PATH :: nat where "MG_MAX_PATH = 4096" \<comment> \<open>PATH_MAX\<close>

definition mg_http_is_authorized :: "serve_env \<Rightarrow> char list \<Rightarrow> char list option \<Rightarrow> char list option \<Rightarrow> bool \<Rightarrow> bool \<Rightarrow> bool \<Rightarrow> bool" where
  \<comment> \<open>the flags: the path is a directory, the file of passwords is global, it may be missing\<close>
  "mg_http_is_authorized env path domain passwords_file is_directory is_global allow_missing =
     (case (domain, passwords_file) of
        (Some _, Some pf) \<Rightarrow>
          let file = (if is_global then pf
                      else take (MG_MAX_PATH - 1) ((if is_directory then path else dir_part path) @ ''/'' @ pf))
          in (case check_digest env file of Some b \<Rightarrow> b | None \<Rightarrow> allow_missing)
      | _ \<Rightarrow> True)"

definition mg_is_creation_request :: "char list \<Rightarrow> bool" where
  "mg_is_creation_request m \<longleftrightarrow> mg_vcmp m ''MKCOL'' = 0 \<or> mg_vcmp m ''PUT'' = 0"

definition mg_http_serve_file2 :: "char list \<Rightarrow> serve_opts \<Rightarrow> answer" where
  "mg_http_serve_file2 path opts =
     (case ssi_pattern opts of
        None \<Rightarrow> Served path
      | Some p \<Rightarrow> if mg_match_prefix p path > 0 then ServedSsi path else Served path)"

definition mg_send_http_file :: "serve_env \<Rightarrow> char list \<Rightarrow> char list \<Rightarrow> mg_str \<Rightarrow> http_message \<Rightarrow> serve_opts \<Rightarrow> answer res" where
  "mg_send_http_file env mem path path_info hm opts =
     (let m = str_bytes mem (meth hm); ex = (se_fs env path \<noteq> None); is_directory = (se_fs env path = Some Directory);
          index_file = (if is_directory then (case index_files opts of None \<Rightarrow> None | Some l \<Rightarrow> mg_find_index_file env path l) else None);
          is_cgi = (case cgi_file_pattern opts of None \<Rightarrow> False | Some p \<Rightarrow> mg_match_prefix p (case index_file of Some f \<Rightarrow> f | None \<Rightarrow> path) > 0)
      in bindE (peek mem (fst (uri hm) + snd (uri hm) - 1)) (\<lambda>c.
         if is_directory \<and> c \<noteq> CHR ''/'' then Inr (Moved (str_bytes mem (uri hm) @ ''/''))
         else if snd path_info > 0 \<and> \<not> is_cgi then Inr (Error 501)
         else if \<not> mg_http_is_authorized env path (auth_domain opts) (global_auth_file opts) is_directory True True \<or>
                 \<not> mg_http_is_authorized env path (auth_domain opts) (per_directory_auth_file opts) is_directory False True
         then Inr AskPassword
         else if is_cgi then Inr (RunCgi (case index_file of Some f \<Rightarrow> f | None \<Rightarrow> path) (str_bytes mem path_info))
         else if (\<not> ex \<or> mg_is_file_hidden path opts False) \<and> \<not> mg_is_creation_request m then Inr (Error 404)
         else if mg_vcmp m ''OPTIONS'' = 0 then Inr ServerOptions
         else if is_directory \<and> index_file = None
         then Inr (if enable_directory_listing opts = Some ''yes'' then Listing path else Error 403)
         else let file = (case index_file of Some f \<Rightarrow> f | None \<Rightarrow> path)
              in if not_modified env file then Inr (Error 304) else Inr (mg_http_serve_file2 file opts)))"

definition set_default :: "char list \<Rightarrow> char list option \<Rightarrow> char list option" where
  "set_default d x = (case x of None \<Rightarrow> Some d | Some _ \<Rightarrow> x)"

definition mg_serve_http :: "serve_env \<Rightarrow> char list \<Rightarrow> http_message \<Rightarrow> serve_opts \<Rightarrow> answer res" where
  "mg_serve_http env mem hm opts =
     (if mg_check_ip_acl env (ip_acl opts) \<noteq> 1 then Inr (Error 403)
      else case handle_forwarding (str_bytes mem (uri hm)) (case url_rewrites opts of None \<Rightarrow> [] | Some r \<Rightarrow> r) of
        Some (mount, upstream) \<Rightarrow> Inr (Proxied mount upstream)
      | None \<Rightarrow>
          (case port_redirect (local_port env) (case url_rewrites opts of None \<Rightarrow> [] | Some r \<Rightarrow> r) of
             Some b \<Rightarrow> Inr (Moved ((case b of None \<Rightarrow> [] | Some b \<Rightarrow> b) @ str_bytes mem (fst (uri hm), fst (proto hm) - fst (uri hm) - 1)))
           | None \<Rightarrow>
               let opts = opts\<lparr>document_root := set_default ''.'' (document_root opts),
                      per_directory_auth_file := set_default ''.htpasswd'' (per_directory_auth_file opts),
                      enable_directory_listing := set_default ''yes'' (enable_directory_listing opts),
                      cgi_file_pattern := set_default ''**.cgi$|**.php$'' (cgi_file_pattern opts),
                      ssi_pattern := set_default ''**.shtml$|**.shtm$'' (ssi_pattern opts),
                      index_files := set_default ''index.html,index.htm,index.shtml,index.cgi,index.php'' (index_files opts)\<rparr>
               in bindE (mg_normalize_uri_path mem (uri hm) (fst (uri hm))) (\<lambda>(r, mem, len).
                  if r = 0 then Inr (Error 400)
                  else let hm = hm\<lparr>uri := (fst (uri hm), len)\<rparr>
                       in bindE (mg_uri_to_local_path (se_fs env) (se_mal env) mem hm opts) (\<lambda>p.
                          case p of
                            None \<Rightarrow> Inr (Error 404)
                          | Some (path, path_info) \<Rightarrow> mg_send_http_file env mem path path_info hm opts))))"

end
