(* ===== verification/HttpSafe.thy ===== *)
theory HttpSafe
  imports HttpMsg
begin

section \<open>Parsing whatever a client sends\<close>

text \<open>
  The parser of requests on arbitrary bytes: it never reads outside the buffer, and what it returns is a well-formed message.
\<close>

subsection \<open>Scanning\<close>

lemma skip_while_total:
  "e \<le> length buf \<Longrightarrow> s \<le> e \<Longrightarrow>
   \<exists>q. skip_while P buf s e = Inr q \<and> s \<le> q \<and> q \<le> e \<and> (\<forall>i. s \<le> i \<and> i < q \<longrightarrow> P (buf ! i)) \<and> (q < e \<longrightarrow> \<not> P (buf ! q))"
proof (induction P buf s e rule: skip_while.induct)
  case (1 P buf s e)
  show ?case
  proof (cases "s < e \<and> P (buf ! s)")
    case True
    with "1.IH" [of "buf ! s"] "1.prems" obtain q where
      q: "skip_while P buf (Suc s) e = Inr q" "Suc s \<le> q" "q \<le> e" "\<forall>i. Suc s \<le> i \<and> i < q \<longrightarrow> P (buf ! i)" "q < e \<longrightarrow> \<not> P (buf ! q)" by auto
    have "P (buf ! i)" if "s \<le> i" "i < q" for i using that q(4) True by (cases "i = s") auto
    moreover have "skip_while P buf s e = Inr q" using True "1.prems" q(1) by (subst skip_while.simps) simp
    ultimately show ?thesis using q by auto
  next
    case False
    then show ?thesis using "1.prems" by (subst skip_while.simps) auto
  qed
qed

lemma mg_skip_total:
  assumes "e \<le> length buf" and "s \<le> e"
  obtains n r where "mg_skip buf s e ds = Inr ((s, n), r)" "s + n \<le> r" "r \<le> e"
    "\<forall>i. s \<le> i \<and> i < s + n \<longrightarrow> \<not> is_delim ds (buf ! i)" "s + n < e \<longrightarrow> is_delim ds (buf ! (s + n))" "r < e \<longrightarrow> \<not> is_delim ds (buf ! r)"
    "s + n < e \<longrightarrow> s + n < r"
proof -
  from skip_while_total [OF assms, of "\<lambda>c. \<not> is_delim ds c"] obtain q where
    q: "skip_while (\<lambda>c. \<not> is_delim ds c) buf s e = Inr q" "s \<le> q" "q \<le> e" "\<forall>i. s \<le> i \<and> i < q \<longrightarrow> \<not> is_delim ds (buf ! i)" "q < e \<longrightarrow> is_delim ds (buf ! q)" by auto
  from skip_while_total [OF assms(1) q(3), of "is_delim ds"] obtain r where
    r: "skip_while (is_delim ds) buf q e = Inr r" "q \<le> r" "r \<le> e" "r < e \<longrightarrow> \<not> is_delim ds (buf ! r)" by auto
  have n: "s + (q - s) = q" using q(2) by simp
  have lt: "q < e \<longrightarrow> q < r" using q(5) r(2,4) by (metis le_neq_implies_less)
  show thesis by (rule that [of "q - s" r]) (use q r lt in \<open>simp_all add: mg_skip_def n\<close>)
qed

lemma trim_value_total:
  "fst v + snd v \<le> length buf \<Longrightarrow> \<exists>n. trim_value buf v = Inr (fst v, n) \<and> n \<le> snd v"
proof (induction buf v rule: trim_value.induct)
  case (1 buf v)
  show ?case
  proof (cases "snd v > 0 \<and> buf ! (fst v + snd v - 1) = CHR '' ''")
    case True
    then have "fst v + snd v - 1 < length buf" using "1.prems" by linarith
    then have "peek buf (fst v + snd v - 1) = Inr (CHR '' '')" using True by simp
    with 1 True have "\<exists>n. trim_value buf (fst v, snd v - 1) = Inr (fst v, n) \<and> n \<le> snd v - 1" by simp
    then show ?thesis using True "1.prems" by (subst trim_value.simps) auto
  next
    case False
    then show ?thesis using "1.prems" by (subst trim_value.simps) (cases v, auto)
  qed
qed

lemma ncasecmp_total: "n \<le> length s \<Longrightarrow> n \<le> length t \<Longrightarrow> \<exists>d. mg_ncasecmp s t n = Inr d"
proof (induction s t n rule: mg_ncasecmp.induct)
  case (2 c s1 d s2 len)
  then show ?case by (cases "int (of_char (c_tolower c)) - int (of_char (c_tolower d)) = 0 \<and> c \<noteq> NUL") (auto simp: Let_def)
qed auto

subsection \<open>The head\<close>

definition head_at :: "char list \<Rightarrow> nat \<Rightarrow> bool" where
  \<comment> \<open>the first \<open>e\<close> bytes are a head: printable but for line ends, of which one is the last byte\<close>
  "head_at buf e \<longleftrightarrow> 0 < e \<and> e \<le> length buf \<and> (\<forall>i < e. \<not> bad_byte (buf ! i)) \<and> buf ! (e - 1) = CHR 0x0A"

lemma request_len_head:
  "request_len xs i = int r \<Longrightarrow> 0 < r \<Longrightarrow> head_at xs (r - i)"
proof (induction xs i rule: request_len.induct)
  case (2 c cs i)
  have good: "\<not> bad_byte c" using "2.prems" by auto
  consider (lf) "c = CHR 0x0A" "take 1 cs = [CHR 0x0A]" "int r = int i + 2"
    | (crlf) "c = CHR 0x0A" "take 1 cs \<noteq> [CHR 0x0A]" "take 2 cs = [CHR 0x0D, CHR 0x0A]" "int r = int i + 3"
    | (more) "\<not> (c = CHR 0x0A \<and> take 1 cs = [CHR 0x0A])" "\<not> (c = CHR 0x0A \<and> take 2 cs = [CHR 0x0D, CHR 0x0A])" "request_len cs (Suc i) = int r"
    using "2.prems"(1) good by (auto split: if_splits)
  then show ?case
  proof cases
    case lf
    then obtain cs' where "cs = CHR 0x0A # cs'" by (cases cs) auto
    with lf show ?thesis by (auto simp: head_at_def bad_byte_def less_Suc_eq nth_Cons')
  next
    case crlf
    then obtain cs' where "cs = CHR 0x0D # CHR 0x0A # cs'" by (cases cs; cases "tl cs") auto
    with crlf show ?thesis by (auto simp: head_at_def bad_byte_def nth_Cons')
  next
    case more
    have "Suc i < r" using request_len_take [OF more(3) "2.prems"(2)] by simp
    have h: "head_at cs (r - Suc i)" by (rule "2.IH" [OF good more "2.prems"(2)])
    obtain k where k: "r - Suc i = Suc k" "r - i = Suc (Suc k)" using \<open>Suc i < r\<close> by (metis Suc_diff_Suc Suc_lessD)
    show ?thesis unfolding k(2) using h [unfolded k(1)] good by (auto simp: head_at_def nth_Cons split: nat.splits)
  qed
qed auto


subsection \<open>Headers\<close>

definition slice_in :: "nat \<Rightarrow> mg_str \<Rightarrow> bool" where
  "slice_in e s \<longleftrightarrow> fst s + snd s \<le> e"

definition headers_ok :: "nat \<Rightarrow> http_message \<Rightarrow> bool" where
  "headers_ok e hm \<longleftrightarrow> length (headers hm) < MG_MAX_HTTP_HEADERS \<and>
     (\<forall>(k, v)\<in>set (headers hm). 0 < snd k \<and> 0 < snd v \<and> slice_in e k \<and> slice_in e v)"

lemma header_byte:
  assumes "head_at buf e" and "i < e"
  shows "buf ! i \<noteq> NUL" "buf ! i \<noteq> CHR 0x0D \<Longrightarrow> buf ! i \<noteq> CHR 0x0A \<Longrightarrow> buf ! i \<noteq> CHR '' '' \<Longrightarrow> \<not> isspace (buf ! i)"
proof -
  have g: "\<not> bad_byte (buf ! i)" using assms by (simp add: head_at_def)
  then show "buf ! i \<noteq> NUL" by (auto simp: bad_byte_def isprint_def)
  assume "buf ! i \<noteq> CHR 0x0D" "buf ! i \<noteq> CHR 0x0A" "buf ! i \<noteq> CHR '' ''"
  moreover have "(of_char (buf ! i) :: nat) = 32 \<longleftrightarrow> buf ! i = CHR '' ''" using of_char_eq_iff [of "buf ! i" "CHR '' ''", where 'a = nat] by simp
  ultimately show "\<not> isspace (buf ! i)" using g by (auto simp: bad_byte_def isprint_def isspace_def)
qed

lemma compare_name_total:
  assumes "head_at buf e" and "a + n < e" and "is_delim '': '' (buf ! (a + n))"
  shows "\<exists>d. mg_ncasecmp (drop a buf) ''Content-Length'' 14 = Inr d"
proof (cases "14 \<le> n")
  case True
  have "e \<le> length buf" using assms(1) by (simp add: head_at_def)
  then show ?thesis using True assms(2) by (intro ncasecmp_total) auto
next
  case False
  have len: "a + n < length buf" using assms(1,2) by (simp add: head_at_def)
  have "buf ! (a + n) = CHR '':'' \<or> buf ! (a + n) = CHR '' ''" using assms(3) header_byte(1) [OF assms(1,2)] by (auto simp: is_delim_def)
  moreover have "c_tolower (CHR '':'') \<notin> set (map c_tolower ''Content-Length'')" "c_tolower (CHR '' '') \<notin> set (map c_tolower ''Content-Length'')" by code_simp+
  ultimately have c: "c_tolower (buf ! (a + n)) \<notin> set (map c_tolower ''Content-Length'')" by metis
  have "drop a buf = take n (drop a buf) @ buf ! (a + n) # drop (Suc (a + n)) buf"
    using len by (metis Cons_nth_drop_Suc append_take_drop_id drop_drop add.commute)
  moreover have "length (take n (drop a buf)) < 14" using False by simp
  ultimately show ?thesis using ncasecmp_stops [OF c, of "take n (drop a buf)" 14 "drop (Suc (a + n)) buf"] by (auto simp del: mg_ncasecmp.simps)
qed

lemma length_value_total:
  assumes "head_at buf e" and "a + n \<le> e" and "0 < n" and "\<not> is_delim [CHR 0x0D, CHR 0x0A] (buf ! a)" and "buf ! a \<noteq> CHR '' ''"
  shows "\<exists>v. strtol10 (drop a buf) = Inr v"
proof -
  have lt: "a < e" "e \<le> length buf" using assms(1-3) by (simp_all add: head_at_def)
  obtain c cs where d: "drop a buf = c # cs" "c = buf ! a" "cs = drop (Suc a) buf" using lt by (metis Cons_nth_drop_Suc order_less_le_trans)
  have "\<not> isspace c" unfolding d(2) by (rule header_byte(2) [OF assms(1) lt(1)]) (use assms(4,5) in \<open>auto simp: is_delim_def\<close>)
  then have s: "dropWhile isspace (drop a buf) = c # cs" by (simp add: d)
  have nl: "buf ! (e - 1) = CHR 0x0A" using assms(1) by (simp add: head_at_def)
  then have ne: "a \<noteq> e - 1" using assms(4) by (auto simp: is_delim_def)
  define k where "k = e - 1 - Suc a"
  have k: "e - 1 = Suc a + k" using ne lt(1) unfolding k_def by linarith
  then have "k < length cs" using lt by (simp add: d(3))
  moreover have "cs ! k = CHR 0x0A" using nl k lt by (simp add: d(3))
  ultimately have "CHR 0x0A \<in> set cs" by (metis nth_mem)
  moreover have "\<not> is_digit (CHR 0x0A)" by (simp add: is_digit_def)
  ultimately have "dropWhile is_digit cs \<noteq> []" "dropWhile is_digit (c # cs) \<noteq> []" by (auto simp: dropWhile_eq_Nil_conv)
  then show ?thesis unfolding strtol10_def Let_def s by (auto split: prod.splits if_splits)
qed


lemma parse_headers_total:
  assumes "head_at buf e"
  shows "s \<le> e \<Longrightarrow> headers_ok e req \<Longrightarrow>
    \<exists>req'. mg_http_parse_headers buf s e len req = Inr req' \<and> kept_fields req' req \<and> headers_ok e req'"
proof (induction "MG_MAX_HTTP_HEADERS - length (headers req) + (e - s)" arbitrary: s req rule: less_induct)
  case less
  have lb: "e \<le> length buf" using assms by (simp add: head_at_def)
  have same: "kept_fields r r" for r by (simp add: kept_fields_def)
  show ?case
  proof (cases "length (headers req) < MG_MAX_HTTP_HEADERS - 1")
    case False
    then show ?thesis using less.prems same by (subst mg_http_parse_headers.simps) auto
  next
    case True
    from mg_skip_total [OF lb less.prems(1), of "'': ''"] obtain kl s1 where
      k: "mg_skip buf s e '': '' = Inr ((s, kl), s1)" "s + kl \<le> s1" "s1 \<le> e" "s + kl < e \<longrightarrow> is_delim '': '' (buf ! (s + kl))"
        "s1 < e \<longrightarrow> \<not> is_delim '': '' (buf ! s1)" by metis
    from mg_skip_total [OF lb k(3), of "[CHR 0x0D, CHR 0x0A]"] obtain vl s2 where
      v: "mg_skip buf s1 e [CHR 0x0D, CHR 0x0A] = Inr ((s1, vl), s2)" "s1 + vl \<le> s2" "s2 \<le> e"
        "\<forall>i. s1 \<le> i \<and> i < s1 + vl \<longrightarrow> \<not> is_delim [CHR 0x0D, CHR 0x0A] (buf ! i)" by metis
    from trim_value_total [of "(s1, vl)" buf] v(2,3) lb obtain n where n: "trim_value buf (s1, vl) = Inr (s1, n)" "n \<le> vl" by auto
    consider (again) "kl \<noteq> 0" "n = 0" | (stop) "kl = 0" | (header) "kl \<noteq> 0" "n \<noteq> 0" by blast
    then show ?thesis
    proof cases
      case again
      then have "s < s2" using k(2) v(2) by simp
      then have "MG_MAX_HTTP_HEADERS - length (headers req) + (e - s2) < MG_MAX_HTTP_HEADERS - length (headers req) + (e - s)" using v(3) by simp
      from less.hyps [OF this v(3) less.prems(2)] show ?thesis
        using True again by (subst mg_http_parse_headers.simps) (simp add: k(1) v(1) n(1))
    next
      case stop
      then show ?thesis using True less.prems(2) same by (subst mg_http_parse_headers.simps) (simp add: k(1) v(1) n(1))
    next
      case header
      have s1: "s1 < e" using header n(2) v(2,3) by simp
      have "s + kl < e" using k(2) s1 by simp
      from compare_name_total [OF assms this] k(4) this obtain d where d: "mg_ncasecmp (drop s buf) ''Content-Length'' 14 = Inr d" by blast
      have "\<not> is_delim [CHR 0x0D, CHR 0x0A] (buf ! s1)" "buf ! s1 \<noteq> CHR '' ''" using v(4) header n(2) k(5) s1 by (auto simp: is_delim_def)
      with length_value_total [OF assms, of s1 n] header n(2) v(2,3) obtain x where x: "strtol10 (drop s1 buf) = Inr x" by auto
      let ?r = "if d = 0 then set_content_length len x req else req"
      let ?req = "?r\<lparr>headers := headers ?r @ [((s, kl), (s1, n))]\<rparr>"
      have hr: "headers ?r = headers req" by simp
      have ok: "headers_ok e ?req" using less.prems(2) True header n(2) v(2,3) k(2,3) by (auto simp: headers_ok_def hr slice_in_def)
      have kept: "kept_fields ?req req" by (simp add: kept_fields_def set_content_length_def Let_def)
      have "MG_MAX_HTTP_HEADERS - length (headers ?req) + (e - s2) < MG_MAX_HTTP_HEADERS - length (headers req) + (e - s)"
        using True v(2,3) k(2) by (simp add: hr)
      from less.hyps [OF this v(3) ok] obtain req' where
        r: "mg_http_parse_headers buf s2 e len ?req = Inr req'" "kept_fields req' ?req" "headers_ok e req'" by blast
      have "mg_http_parse_headers buf s e len req = mg_http_parse_headers buf s2 e len ?req"
        using True header by (subst mg_http_parse_headers.simps) (simp add: k(1) v(1) n(1) d x)
      then show ?thesis using r kept by (auto simp: kept_fields_def)
    qed
  qed
qed


subsection \<open>The message\<close>

definition message_ok :: "nat \<Rightarrow> http_message \<Rightarrow> bool" where
  \<comment> \<open>every part lies in the head, the body behind it, and the tables of headers have room for the entry that ends them\<close>
  "message_ok e hm \<longleftrightarrow>
     slice_in e (meth hm) \<and> slice_in e (uri hm) \<and> slice_in e (proto hm) \<and> (case query_string hm of None \<Rightarrow> True | Some q \<Rightarrow> slice_in e q) \<and>
     headers_ok e hm \<and> fst (message hm) = 0 \<and> fst (body hm) = e"

lemma request_line_total:
  assumes "head_at buf e" and "s \<le> e"
  shows "\<exists>r. parse_request_line buf s e hm = Inr r \<and>
    (case r of None \<Rightarrow> True
     | Some (s', hm') \<Rightarrow> s' \<le> e \<and> slice_in e (meth hm') \<and> slice_in e (uri hm') \<and> slice_in e (proto hm') \<and>
         (case query_string hm' of None \<Rightarrow> True | Some q \<Rightarrow> slice_in e q \<or> Some q = query_string hm) \<and>
         headers hm' = headers hm \<and> message hm' = message hm \<and> body hm' = body hm)"
proof -
  have lb: "e \<le> length buf" using assms(1) by (simp add: head_at_def)
  from mg_skip_total [OF lb assms(2), of "'' ''"] obtain ml s1 where
    m: "mg_skip buf s e '' '' = Inr ((s, ml), s1)" "s + ml \<le> s1" "s1 \<le> e" by metis
  from mg_skip_total [OF lb m(3), of "'' ''"] obtain ul s2 where
    u: "mg_skip buf s1 e '' '' = Inr ((s1, ul), s2)" "s1 + ul \<le> s2" "s2 \<le> e" by metis
  from mg_skip_total [OF lb u(3), of "[CHR 0x0D, CHR 0x0A]"] obtain pl s3 where
    p: "mg_skip buf s2 e [CHR 0x0D, CHR 0x0A] = Inr ((s2, pl), s3)" "s2 + pl \<le> s3" "s3 \<le> e" by metis
  have "scan_component buf s1 (s1 + ul) ''?'' = Inr (s1 + length (takeWhile (\<lambda>c. c \<notin> set ''?'') (take ul (drop s1 buf))))"
    using scan_component_slice [of "s1 + ul" buf s1 "''?''"] u(2,3) lb by simp
  then obtain q where q: "scan_component buf s1 (s1 + ul) ''?'' = Inr q" by blast
  then have "s1 \<le> q" "q \<le> s1 + ul" using scan_component_bounds [OF q] by auto
  then show ?thesis using m u p by (auto simp: parse_request_line_def q slice_in_def Let_def split: option.splits)
qed

lemma head_at_take: "head_at (take n buf) e \<Longrightarrow> head_at buf e"
  by (auto simp: head_at_def)

lemma parse_total:
  assumes "n \<le> int (length buf)"
  shows "\<exists>r hm. mg_parse_http buf n True = Inr (r, hm) \<and> r \<le> max 0 n \<and> (0 < r \<longrightarrow> message_ok (nat r) hm)"
proof (cases "mg_http_get_request_len buf n \<le> 0")
  case True
  then show ?thesis by (auto simp: mg_parse_http_def Let_def)
next
  case False
  define e where "e = nat (mg_http_get_request_len buf n)"
  have len: "request_len (take (nat n) buf) 0 = int e" "0 < e" using False by (simp_all add: e_def mg_http_get_request_len_def)
  then have part: "head_at (take (nat n) buf) e" using request_len_head [of "take (nat n) buf" 0 e] by simp
  then have le: "int e \<le> max 0 n" by (auto simp: head_at_def)
  from part have head: "head_at buf e" by (rule head_at_take)
  then have lb: "e \<le> length buf" by (simp add: head_at_def)
  let ?hm = "empty_message\<lparr>body := (e, 2 ^ 64 - 1)\<rparr>"
  obtain s where s: "skip_while isspace buf 0 e = Inr s" "s \<le> e" using skip_while_total [OF lb, of 0 isspace] by auto
  obtain r where r: "parse_request_line buf s e ?hm = Inr r"
    "case r of None \<Rightarrow> True
     | Some (s', hm') \<Rightarrow> s' \<le> e \<and> slice_in e (meth hm') \<and> slice_in e (uri hm') \<and> slice_in e (proto hm') \<and>
         (case query_string hm' of None \<Rightarrow> True | Some q \<Rightarrow> slice_in e q \<or> Some q = query_string ?hm) \<and>
         headers hm' = headers ?hm \<and> message hm' = message ?hm \<and> body hm' = body ?hm"
    using request_line_total [OF head s(2), of ?hm] by auto
  have p: "\<not> int e \<le> 0" using len(2) by simp
  have start: "mg_parse_http buf n True = (case r of None \<Rightarrow> Inr (-1, ?hm)
     | Some (s, hm) \<Rightarrow>
         bindE (mg_http_parse_headers buf s e e hm) (\<lambda>hm.
         if snd (body hm) = 2 ^ 64 - 1
         then bindE (mg_vcasecmp buf (meth hm) ''PUT'') (\<lambda>d.
              if d = 0 then Inr (int e, hm)
              else bindE (mg_vcasecmp buf (meth hm) ''POST'') (\<lambda>d.
                   if d = 0 then Inr (int e, hm)
                   else Inr (int e, hm\<lparr>body := (fst (body hm), 0), message := (fst (message hm), e)\<rparr>)))
         else Inr (int e, hm)))"
    unfolding mg_parse_http_def mg_http_get_request_len_def Let_def len(1) nat_int if_not_P [OF p] s(1) bindE.simps if_True r(1) simp_thms ..
  show ?thesis
  proof (cases r)
    case None
    then show ?thesis by (simp add: start)
  next
    case (Some x)
    then obtain s' hm' where x: "r = Some (s', hm')" by (cases x) auto
    with r(2) have h: "s' \<le> e" "slice_in e (meth hm')" "slice_in e (uri hm')" "slice_in e (proto hm')"
      "case query_string hm' of None \<Rightarrow> True | Some q \<Rightarrow> slice_in e q" "headers hm' = []" "message hm' = message ?hm" "body hm' = body ?hm"
      by (auto simp: empty_message_def split: option.splits)
    then have "headers_ok e hm'" by (simp add: headers_ok_def MG_MAX_HTTP_HEADERS_def)
    from parse_headers_total [OF head h(1) this] obtain hm where
      hm: "mg_http_parse_headers buf s' e e hm' = Inr hm" "kept_fields hm hm'" "headers_ok e hm" by blast
    have ok: "message_ok e hm" using hm(2,3) h by (auto simp: message_ok_def kept_fields_def empty_message_def)
    have "\<exists>d. mg_vcasecmp buf (meth hm) t = Inr d" for t
    proof -
      have "fst (meth hm) + snd (meth hm) \<le> length buf" using ok lb by (simp add: message_ok_def slice_in_def)
      then have "\<exists>d. mg_ncasecmp (drop (fst (meth hm)) buf) (t @ [NUL]) (if snd (meth hm) < length t then snd (meth hm) else length t) = Inr d"
        by (intro ncasecmp_total) auto
      then show ?thesis by (auto simp: mg_vcasecmp_def Let_def)
    qed
    then obtain d1 d2 where "mg_vcasecmp buf (meth hm) ''PUT'' = Inr d1" "mg_vcasecmp buf (meth hm) ''POST'' = Inr d2" by metis
    then show ?thesis using ok le by (auto simp: start x hm(1) message_ok_def headers_ok_def split: option.splits)
  qed
qed

text \<open>
  C10. Whatever bytes a client sends, and whatever their number becomes as an \<open>int\<close>, parsing them as a request reads nothing outside the buffer: a name is compared and
  a number is read only up to bytes that the head is known to hold. A result that is positive is the length of a head that is in
  the buffer, and the message is well formed: its method, path, query, protocol and headers lie in the
  head, names and values are not empty, and there are fewer headers than the tables have entries (40).
\<close>

theorem parsed_message_ok:
  "\<exists>r hm. mg_parse_http buf (to_int32 (int (length buf))) True = Inr (r, hm) \<and> r \<le> int (length buf) \<and> (0 < r \<longrightarrow> message_ok (nat r) hm)"
  using parse_total [OF to_int32_le [of "int (length buf)"]] to_int32_le [of "int (length buf)"] by fastforce

theorem parsed_message_ok_witness:
  "\<exists>hm. mg_parse_http (''GET / HTTP/1.1'' @ CRLF @ CRLF @ ''rest'') 22 True = Inr (18, hm) \<and> message_ok 18 hm"
proof -
  have "request_ok ''GET'' ''/'' ''HTTP/1.1'' []" by code_simp
  moreover have h: "request_head ''GET'' ''/'' ''HTTP/1.1'' [] = ''GET / HTTP/1.1'' @ CRLF @ CRLF" by code_simp
  ultimately obtain hm where "mg_parse_http ((''GET / HTTP/1.1'' @ CRLF @ CRLF) @ ''rest'') 22 True = Inr (18, hm)"
    using parse_request [of "''GET''" "''/''" "''HTTP/1.1''" "[]"] unfolding h by fastforce
  with parsed_message_ok [of "''GET / HTTP/1.1'' @ CRLF @ CRLF @ ''rest''"] show ?thesis by (auto simp: to_int32_id)
qed

end
