(* ===== verification/ServeSpec.thy ===== *)
theory ServeSpec
  imports Serve HttpSafe
begin

section \<open>Which files a client can reach\<close>

text \<open>
  The path that the server opens for a request lies below the root, whatever the request.
\<close>

subsection \<open>Decoding a component\<close>

lemma url_decode_total:
  "j + length src < n \<Longrightarrow> n = length dst \<Longrightarrow>
   \<exists>k dst'. url_decode_loop src dst n j f = Inr (k, dst') \<and> length dst' = n \<and> take j dst' = take j dst \<and>
     (k = -1 \<or> int j \<le> k \<and> k \<le> int (j + length src) \<and> dst' ! nat k = NUL)"
proof (induction src dst n j f rule: url_decode_loop.induct)
  case (1 src dst n j f)
  show ?case
  proof (cases src)
    case Nil
    then show ?thesis using "1.prems" by (subst url_decode_loop.simps) (auto simp: poke_def nth_append)
  next
    case (Cons c cs)
    have run: "\<not> (src = [] \<or> \<not> Suc j < n)" using "1.prems" Cons by simp
    have poked: "poke dst j [x] = Inr (take j dst @ [x] @ drop (Suc j) dst)" for x using run "1.prems"(2) by (simp add: poke_def)
    have len: "n = length (take j dst @ [x] @ drop (Suc j) dst)" for x using run "1.prems"(2) by (simp; linarith)
    have tk: "take j d' = take j dst" if "take (Suc j) d' = take (Suc j) (take j dst @ [x] @ drop (Suc j) dst)" for d' x
      using arg_cong [OF that, of "take j"] run "1.prems"(2) by simp
    show ?thesis
    proof (cases "c = CHR ''%''")
      case True
      show ?thesis
      proof (cases "\<exists>a b r. cs = a # b # r \<and> c_isxdigit a \<and> c_isxdigit b")
        case True2: True
        then obtain a b r where r: "cs = a # b # r" "c_isxdigit a" "c_isxdigit b" by blast
        let ?x = "char_of (HEXTOI (c_tolower a) * 16 + HEXTOI (c_tolower b)) :: char"
        have "Suc j + length r < n" using "1.prems" Cons r by simp
        from "1.IH"(1) [OF run Cons True r(1) _ _ poked this len] r obtain k d where
          d: "url_decode_loop r (take j dst @ [?x] @ drop (Suc j) dst) n (Suc j) f = Inr (k, d)" "length d = n"
          "take (Suc j) d = take (Suc j) (take j dst @ [?x] @ drop (Suc j) dst)"
          "k = -1 \<or> int (Suc j) \<le> k \<and> k \<le> int (Suc j + length r) \<and> d ! nat k = NUL" by blast
        have "url_decode_loop src dst n j f = Inr (k, d)"
          using run Cons True r poked d(1) by (subst url_decode_loop.simps) simp
        then show ?thesis using d(2,4) tk [OF d(3)] Cons r(1) by auto
      next
        case False
        then have "url_decode_loop src dst n j f = Inr (-1, dst)"
          using run Cons True by (subst url_decode_loop.simps) (auto split: list.splits)
        then show ?thesis using "1.prems"(2) by simp
      qed
    next
      case False
      let ?x = "if f \<and> c = CHR ''+'' then CHR '' '' else c"
      have "Suc j + length cs < n" using "1.prems" Cons by simp
      from "1.IH"(2) [OF run Cons False poked this len] obtain k d where
        d: "url_decode_loop cs (take j dst @ [?x] @ drop (Suc j) dst) n (Suc j) f = Inr (k, d)" "length d = n"
        "take (Suc j) d = take (Suc j) (take j dst @ [?x] @ drop (Suc j) dst)"
        "k = -1 \<or> int (Suc j) \<le> k \<and> k \<le> int (Suc j + length cs) \<and> d ! nat k = NUL" by blast
      have "url_decode_loop src dst n j f = Inr (k, d)"
        using run Cons False poked d(1) by (subst url_decode_loop.simps) simp
      then show ?thesis using d(2,4) tk [OF d(3)] Cons by auto
    qed
  qed
qed

lemma decode_component_total:
  assumes "Suc p + length x < length lp" and "length lp < 2 ^ 31"
  obtains n lp' where "decode_component lp p x = Inr (n, lp')" "length lp' = length lp" "take (Suc p) lp' = take (Suc p) lp"
    "n \<le> 0 \<or> n \<le> int (length x) \<and> lp' ! (Suc p + nat n) = NUL"
proof -
  have po: "poke lp (Suc p) x = Inr (take (Suc p) lp @ x @ drop (Suc p + length x) lp)" using assms by (simp add: poke_def)
  let ?lp = "take (Suc p) lp @ x @ drop (Suc p + length x) lp"
  have l: "length ?lp = length lp" "take (Suc p) ?lp = take (Suc p) lp" using assms by simp_all
  have "0 + length x < length (drop (Suc p) ?lp)" using assms by simp
  from url_decode_total [OF this refl, of False] obtain n d where
    d: "url_decode_loop x (drop (Suc p) ?lp) (length (drop (Suc p) ?lp)) 0 False = Inr (n, d)" "length d = length (drop (Suc p) ?lp)"
      "n = -1 \<or> 0 \<le> n \<and> n \<le> int (length x) \<and> d ! nat n = NUL" by fastforce
  have "to_int32 (int (length x)) = int (length x)" "to_int32 (int (length ?lp) - int p - 1) = int (length (drop (Suc p) ?lp))"
    using assms by (simp_all add: to_int32_id of_nat_diff)
  then have u: "mg_url_decode x (to_int32 (int (length x))) (drop (Suc p) ?lp) (to_int32 (int (length ?lp) - int p - 1)) False = Inr (n, d)"
    unfolding mg_url_decode_def by (simp only: nat_int take_all order_refl d(1))
  have "decode_component lp p x = Inr (n, take (Suc p) lp @ d)"
    unfolding decode_component_def po bindE.simps u prod.case l(2) ..
  moreover have "length (take (Suc p) lp @ d) = length lp" using d(2) assms by simp
  moreover have "n \<le> 0 \<or> n \<le> int (length x) \<and> (take (Suc p) lp @ d) ! (Suc p + nat n) = NUL"
    using d(3) assms by (auto simp: nth_append)
  moreover have "take (Suc p) (take (Suc p) lp @ d) = take (Suc p) lp" using assms by simp
  ultimately show thesis using that by blast
qed


subsection \<open>Building the path\<close>

definition comp_ok :: "char list \<Rightarrow> bool" where
  "comp_ok c \<longleftrightarrow> c \<noteq> [] \<and> c \<noteq> ''.'' \<and> c \<noteq> ''..'' \<and> CHR ''/'' \<notin> set c \<and> NUL \<notin> set c"

definition below :: "char list \<Rightarrow> char list \<Rightarrow> bool" where
  \<comment> \<open>the path goes down from the root, by names of files only\<close>
  "below root path \<longleftrightarrow> (\<exists>comps. (\<forall>c\<in>set comps. comp_ok c) \<and> path = root @ concat (map (Cons (CHR ''/'')) comps))"

definition path_at :: "char list \<Rightarrow> nat \<Rightarrow> nat \<Rightarrow> bool" where
  "path_at lp ps p \<longleftrightarrow> ps \<le> p \<and> p < length lp \<and> lp ! p = NUL \<and> below (take ps lp) (take p lp)"

lemma below_add: "below root path \<Longrightarrow> comp_ok c \<Longrightarrow> below root (path @ CHR ''/'' # c)"
proof -
  assume "below root path" "comp_ok c"
  then obtain comps where "\<forall>c\<in>set comps. comp_ok c" "path = root @ concat (map (Cons (CHR ''/'')) comps)" by (auto simp: below_def)
  with \<open>comp_ok c\<close> show ?thesis unfolding below_def by (intro exI [of _ "comps @ [c]"]) auto
qed

lemma below_last:
  assumes "below root path"
  shows "path = root \<or> (\<exists>q c. path = q @ CHR ''/'' # c \<and> below root q \<and> CHR ''/'' \<notin> set c)"
proof -
  obtain comps where c: "\<forall>c\<in>set comps. comp_ok c" "path = root @ concat (map (Cons (CHR ''/'')) comps)" using assms by (auto simp: below_def)
  show ?thesis
  proof (cases comps rule: rev_cases)
    case (snoc cs d)
    then have "path = (root @ concat (map (Cons (CHR ''/'')) cs)) @ CHR ''/'' # d" "CHR ''/'' \<notin> set d" using c by (auto simp: comp_ok_def)
    moreover have "below root (root @ concat (map (Cons (CHR ''/'')) cs))" using c(1) snoc by (auto simp: below_def)
    ultimately show ?thesis by blast
  qed (use c in simp)
qed

lemma below_no_nul: "below root path \<Longrightarrow> NUL \<notin> set root \<Longrightarrow> NUL \<notin> set path"
proof -
  assume "below root path" "NUL \<notin> set root"
  then obtain comps where c: "\<forall>c\<in>set comps. comp_ok c" "path = root @ concat (map (Cons (CHR ''/'')) comps)" by (auto simp: below_def)
  have "NUL \<notin> set (concat (map (Cons (CHR ''/'')) comps))" using c(1) by (induction comps) (simp_all add: comp_ok_def)
  with c(2) \<open>NUL \<notin> set root\<close> show ?thesis by simp
qed

lemma up_to_slash_total: "p < length lp \<Longrightarrow> \<exists>q. up_to_slash lp ps p = Inr q \<and> q \<le> p \<and> (ps \<le> p \<longrightarrow> ps \<le> q)"
proof (induction lp ps p rule: up_to_slash.induct)
  case (1 lp ps p)
  show ?case
  proof (cases "p > ps \<and> lp ! p \<noteq> CHR ''/''")
    case True
    with 1 have "\<exists>q. up_to_slash lp ps (p - 1) = Inr q \<and> q \<le> p - 1 \<and> (ps \<le> p - 1 \<longrightarrow> ps \<le> q)" by simp
    then show ?thesis using True "1.prems" by (subst up_to_slash.simps) auto
  next
    case False
    then show ?thesis using "1.prems" by (subst up_to_slash.simps) auto
  qed
qed

lemma up_to_slash_finds:
  "ps \<le> a \<Longrightarrow> a \<le> p \<Longrightarrow> p < length lp \<Longrightarrow> lp ! a = CHR ''/'' \<or> a = ps \<Longrightarrow> \<forall>i. a < i \<and> i \<le> p \<longrightarrow> lp ! i \<noteq> CHR ''/'' \<Longrightarrow> up_to_slash lp ps p = Inr a"
proof (induction lp ps p rule: up_to_slash.induct)
  case (1 lp ps p)
  show ?case
  proof (cases "p = a")
    case True
    then show ?thesis using "1.prems" by (subst up_to_slash.simps) auto
  next
    case False
    then have "up_to_slash lp ps (p - 1) = Inr a" using "1.prems" by (intro "1.IH") auto
    then show ?thesis using "1.prems" False by (subst up_to_slash.simps) auto
  qed
qed

lemma below_up:
  assumes "path_at lp ps p"
  shows "\<exists>q. up_to_slash lp ps p = Inr q \<and> ps \<le> q \<and> q \<le> p \<and> below (take ps lp) (take q lp)"
proof -
  have p: "ps \<le> p" "p < length lp" "lp ! p = NUL" "below (take ps lp) (take p lp)" using assms by (auto simp: path_at_def)
  from below_last [OF p(4)] consider (root) "take p lp = take ps lp" | (up) q c where "take p lp = q @ CHR ''/'' # c" "below (take ps lp) q" "CHR ''/'' \<notin> set c" by blast
  then show ?thesis
  proof cases
    case root
    have "length (take p lp) = length (take ps lp)" by (simp only: root)
    then have "p = ps" using p(1,2) by simp
    then have "up_to_slash lp ps p = Inr p" by (subst up_to_slash.simps) simp
    then show ?thesis using p(1,4) by auto
  next
    case up
    have l: "p = length q + Suc (length c)" using arg_cong [OF up(1), of length] p(2) by simp
    have q: "q = take (length q) lp" using arg_cong [OF up(1), of "take (length q)"] l by simp
    have n: "lp ! i = (q @ CHR ''/'' # c) ! i" if "i < p" for i using that up(1) by (metis nth_take)
    have "ps \<le> length q" using up(2) p(1,2) by (auto simp: below_def)
    moreover have "lp ! length q = CHR ''/''" using n [of "length q"] l by simp
    moreover have "lp ! i \<noteq> CHR ''/''" if "length q < i" "i \<le> p" for i
    proof (cases "i = p")
      case False
      then have "lp ! i = c ! (i - Suc (length q))" "i - Suc (length q) < length c" using that n [of i] l by (auto simp: nth_append nth_Cons')
      then show ?thesis using up(3) by (metis nth_mem)
    qed (use p(3) in simp)
    ultimately have "up_to_slash lp ps p = Inr (length q)" using l p(2) by (intro up_to_slash_finds) auto
    then show ?thesis using \<open>ps \<le> length q\<close> l up(2) q by auto
  qed
qed


lemma path_step:
  \<comment> \<open>a component that was decoded behind the path is made a part of it\<close>
  assumes "path_at lp ps p" and "take (Suc p) lp' = take (Suc p) lp" and "length lp' = length lp" and "n > 0" and "Suc p + n < length lp"
    and "name = take n (drop (Suc p) lp')" and "comp_ok name" and "lp' ! (Suc p + n) = NUL"
  shows "path_at (lp'[p := CHR ''/'']) ps (Suc p + n)"
proof -
  have p: "ps \<le> p" "p < length lp" "below (take ps lp) (take p lp)" using assms(1) by (auto simp: path_at_def)
  have tp: "take p lp' = take p lp" "take ps lp' = take ps lp"
    using arg_cong [OF assms(2), of "take p"] arg_cong [OF assms(2), of "take ps"] p(1) by simp_all
  have "take (Suc p + n) (lp'[p := CHR ''/'']) = take p lp' @ CHR ''/'' # name"
    using p(2) assms(3,5,6) by (simp add: list_eq_iff_nth_eq nth_append nth_list_update nth_Cons' min_def) auto
  moreover have "below (take ps lp) (take p lp' @ CHR ''/'' # name)" unfolding tp by (rule below_add [OF p(3) assms(7)])
  moreover have "take ps (lp'[p := CHR ''/'']) = take ps lp" using p(1) tp(2) by simp
  ultimately show ?thesis using p assms(3,5,8) by (simp add: path_at_def)
qed

lemma path_kept:
  assumes "path_at lp ps p" and "take (Suc p) lp' = take (Suc p) lp" and "length lp' = length lp"
  shows "path_at lp' ps p"
proof -
  have p: "ps \<le> p" "p < length lp" "lp ! p = NUL" "below (take ps lp) (take p lp)" using assms(1) by (auto simp: path_at_def)
  have "take p lp' = take p lp" "take ps lp' = take ps lp" "lp' ! p = lp ! p"
    using arg_cong [OF assms(2), of "take p"] arg_cong [OF assms(2), of "take ps"] arg_cong [OF assms(2), of "\<lambda>l. l ! p"] p(1,2) assms(3) by simp_all
  then show ?thesis using p assms(3) by (simp add: path_at_def)
qed


lemma poke_one: "p < length lp \<Longrightarrow> poke lp p [c] = Inr (lp[p := c])"
  by (simp add: poke_def upd_conv_take_nth_drop)

lemma next_component:
  assumes "cp_end \<le> length mem" and "u < cp_end"
  obtains n nxt where "parse_uri_component mem u cp_end ''/'' = Inr ((u, n), nxt)" "u + n \<le> cp_end" "u < nxt" "nxt < cp_end \<longrightarrow> nxt = Suc (u + n)"
proof -
  let ?n = "length (takeWhile (\<lambda>c. c \<notin> set ''/'') (take (cp_end - u) (drop u mem)))"
  have "scan_component mem u cp_end ''/'' = Inr (u + ?n)" by (rule scan_component_slice) (use assms in simp_all)
  then have p: "parse_uri_component mem u cp_end ''/'' = Inr ((u, ?n), if u + ?n < cp_end then Suc (u + ?n) else u + ?n)"
    by (simp add: parse_uri_component_def)
  moreover have "u + ?n \<le> cp_end" using length_takeWhile_le [of "\<lambda>c. c \<notin> set ''/''" "take (cp_end - u) (drop u mem)"] assms by simp
  moreover have "u < (if u + ?n < cp_end then Suc (u + ?n) else u + ?n)" by (split if_split) (use assms(2) in linarith)
  ultimately show thesis by (rule that [of ?n]) (simp split: if_split)
qed

definition room :: "nat \<Rightarrow> char list \<Rightarrow> nat \<Rightarrow> nat \<Rightarrow> bool" where
  "room cp_end lp u p \<longleftrightarrow> length lp < 2 ^ 31 \<and> p < length lp \<and> (u < cp_end \<longrightarrow> p + (cp_end - u) + 2 \<le> length lp) \<and> NUL \<in> set lp"

lemma build_path_total:
  assumes mem: "cp_end \<le> length mem" "length mem < 2 ^ 31"
  shows "room cp_end lp u p \<Longrightarrow> ps \<le> p \<Longrightarrow> 0 < u \<Longrightarrow> ok \<longrightarrow> path_at lp ps p \<Longrightarrow>
    \<exists>lp' u' ok'. build_path fsys mem cp_end ps lp u p ex ok = Inr (lp', u', ok') \<and> take ps lp' = take ps lp \<and>
      (ok' \<longrightarrow> (\<exists>p'. path_at lp' ps p'))"
proof (induction "Suc cp_end - u" arbitrary: lp u p ex ok rule: less_induct)
  case less
  have room: "p < length lp" "u < cp_end \<longrightarrow> p + (cp_end - u) + 2 \<le> length lp" "NUL \<in> set lp" and small: "length lp < 2 ^ 31" using less.prems(1) by (auto simp: room_def)
  have stop: "\<exists>lp' u' ok'. build_path fsys mem cp_end ps lp u p ex ok = Inr (lp', u', ok') \<and> take ps lp' = take ps lp \<and> (ok' \<longrightarrow> (\<exists>p'. path_at lp' ps p'))"
    if "build_path fsys mem cp_end ps lp u p ex ok = Inr (lp, u', ok)" for u' using that less.prems(4) by auto
  obtain st where st: "(if ex then bindE (c_path lp) (\<lambda>s. Inr (fsys s)) else Inr None) = (Inr st :: file_kind option res)"
    using room(3) by (cases ex) (simp_all add: c_path_def)
  consider (beyond) "\<not> u \<le> cp_end" | (found) "u \<le> cp_end" "st = Some Regular" | (at_end) "u = cp_end" "st \<noteq> Some Regular" | (comp) "u < cp_end" "st \<noteq> Some Regular" by linarith
  then show ?case
  proof cases
    case beyond
    then show ?thesis by (intro stop [of u]) (subst build_path.simps, simp)
  next
    case found
    then have "peek mem (u - 1) = Inr (mem ! (u - 1))" using mem(1) less.prems(3) by (simp add: peek_def)
    then show ?thesis using found st by (intro stop [of "if mem ! (u - 1) = CHR ''/'' then u - 1 else u"]) (subst build_path.simps, simp)
  next
    case at_end
    then show ?thesis using st by (intro stop [of u]) (subst build_path.simps, simp)
  next
    case comp
    from next_component [OF mem(1) comp(1)] obtain n nxt where
      c: "parse_uri_component mem u cp_end ''/'' = Inr ((u, n), nxt)" "u + n \<le> cp_end" "u < nxt" "nxt < cp_end \<longrightarrow> nxt = Suc (u + n)" by blast
    have smaller: "Suc cp_end - nxt < Suc cp_end - u" using c(3) comp(1) by linarith
    let ?ex = "st \<noteq> None" and ?x = "take n (drop u mem)"
    have x: "length ?x = n" "peekn mem u n = Inr ?x" using c(2) mem(1) by (simp_all add: peekn_def)
    have run: "build_path fsys mem cp_end ps lp u p ex ok =
        (if n = 0 then build_path fsys mem cp_end ps lp nxt p ?ex ok
         else bindE (decode_component lp p ?x) (\<lambda>(len, lp).
              if len \<le> 0 then Inr (lp, u, False)
              else let name = take (nat len) (drop (Suc p) lp)
                   in if mg_vcmp name ''.'' = 0 then build_path fsys mem cp_end ps lp nxt p ?ex ok
                      else if mg_vcmp name ''..'' = 0
                      then bindE (up_to_slash lp ps p) (\<lambda>p. bindE (poke lp p [NUL]) (\<lambda>lp. build_path fsys mem cp_end ps lp nxt p ?ex ok))
                      else bindE (poke lp p ''/'') (\<lambda>lp.
                           let n = length (takeWhile (\<lambda>c. c \<noteq> NUL \<and> c \<noteq> CHR ''/'') name)
                           in build_path fsys mem cp_end ps lp nxt (Suc p + n) ?ex (ok \<and> n = length name))))"
    proof -
      have u: "u \<le> cp_end" "\<not> cp_end \<le> u" using comp(1) by simp_all
      show ?thesis
        by (subst build_path.simps) (simp only: u comp(2) if_True if_False st bindE.simps c(1) prod.case fst_conv snd_conv x(2) Let_def)
    qed
    show ?thesis
    proof (cases "n = 0")
      case True
      have "room cp_end lp nxt p" using room small c(3) by (auto simp: room_def)
      from less.hyps [OF smaller this less.prems(2) _ less.prems(4)] c(3) show ?thesis by (simp add: run True)
    next
      case False
      have fits: "Suc p + length ?x < length lp" using room(2) comp(1) c(2) x(1) by simp
      from decode_component_total [OF fits small] obtain len lp1 where
        d: "decode_component lp p ?x = Inr (len, lp1)" "length lp1 = length lp" "take (Suc p) lp1 = take (Suc p) lp"
          "len \<le> 0 \<or> len \<le> int n \<and> lp1 ! (Suc p + nat len) = NUL" unfolding x(1) by metis
      have tk: "take ps lp1 = take ps lp" using arg_cong [OF d(3), of "take ps"] less.prems(2) by simp
      show ?thesis
      proof (cases "len \<le> 0")
        case True
        then show ?thesis using tk by (intro exI [of _ lp1] exI [of _ u] exI [of _ False]) (simp add: run False d(1))
      next
        case pos: False
        let ?k = "nat len"
        have k: "0 < ?k" "?k \<le> n" "lp1 ! (Suc p + ?k) = NUL" using pos d(4) by auto
        let ?name = "take ?k (drop (Suc p) lp1)"
        have kl: "Suc p + ?k < length lp1" using k(2) fits x(1) d(2) by simp
        have nl: "length ?name = ?k" "length ?name < 2 ^ 31" using kl k(2) c(2) mem by simp_all
        have nul: "NUL \<in> set lp1" using kl k(3) by (metis nth_mem)
        have vcmp: "mg_vcmp ?name ''.'' = 0 \<longleftrightarrow> ?name = ''.''" "mg_vcmp ?name ''..'' = 0 \<longleftrightarrow> ?name = ''..''"
          using nl(2) by (intro mg_vcmp_eq; simp)+
        have step: "build_path fsys mem cp_end ps lp u p ex ok =
            (if ?name = ''.'' then build_path fsys mem cp_end ps lp1 nxt p ?ex ok
             else if ?name = ''..''
             then bindE (up_to_slash lp1 ps p) (\<lambda>p. bindE (poke lp1 p [NUL]) (\<lambda>lp. build_path fsys mem cp_end ps lp nxt p ?ex ok))
             else bindE (poke lp1 p ''/'') (\<lambda>lp.
                  let n = length (takeWhile (\<lambda>c. c \<noteq> NUL \<and> c \<noteq> CHR ''/'') ?name)
                  in build_path fsys mem cp_end ps lp nxt (Suc p + n) ?ex (ok \<and> n = length ?name)))"
          unfolding run if_not_P [OF False] d(1) bindE.simps prod.case if_not_P [OF pos] Let_def vcmp ..
        have kept: "ok \<longrightarrow> path_at lp1 ps p" using path_kept [OF _ d(3,2)] less.prems(4) by blast
        consider (dot) "?name = ''.''" | (up) "?name = ''..''" | (down) "?name \<noteq> ''.''" "?name \<noteq> ''..''" by blast
        then show ?thesis
        proof cases
          case dot
          have "room cp_end lp1 nxt p" using room small c(3) d(2) nul by (auto simp: room_def)
          from less.hyps [OF smaller this less.prems(2) _ kept] c(3) show ?thesis unfolding step if_P [OF dot] tk by simp
        next
          case up
          obtain q where q: "up_to_slash lp1 ps p = Inr q" "q \<le> p" "ps \<le> q" using up_to_slash_total [of p lp1 ps] room(1) d(2) less.prems(2) by auto
          have po: "poke lp1 q [NUL] = Inr (lp1[q := NUL])" using q(2) room(1) d(2) by (simp add: poke_one)
          have "room cp_end (lp1[q := NUL]) nxt q" using room small c(3) d(2) q(2) by (auto simp: room_def set_update_memI)
          moreover have "ok \<longrightarrow> path_at (lp1[q := NUL]) ps q"
          proof
            assume ok
            with kept below_up [of lp1 ps p] q(1) have "below (take ps lp1) (take q lp1)" by auto
            then show "path_at (lp1[q := NUL]) ps q" using q(2,3) room(1) d(2) by (simp add: path_at_def)
          qed
          moreover have "build_path fsys mem cp_end ps lp u p ex ok = build_path fsys mem cp_end ps (lp1[q := NUL]) nxt q ?ex ok"
            unfolding step using up by (simp add: q(1) po)
          ultimately show ?thesis using less.hyps [OF smaller _ q(3), of "lp1[q := NUL]" ok ?ex] c(3) q(3) tk by simp
        next
          case down
          let ?m = "length (takeWhile (\<lambda>c. c \<noteq> NUL \<and> c \<noteq> CHR ''/'') ?name)"
          have m: "?m \<le> ?k" using length_takeWhile_le [of _ ?name] nl(1) by metis
          have po: "poke lp1 p ''/'' = Inr (lp1[p := CHR ''/''])" using room(1) d(2) by (simp add: poke_one)
          have r: "room cp_end (lp1[p := CHR ''/'']) nxt (Suc p + ?m)"
          proof -
            have "lp1[p := CHR ''/''] ! (Suc p + ?k) = NUL" using k(3) by simp
            then have "NUL \<in> set (lp1[p := CHR ''/''])" using kl by (metis length_list_update nth_mem)
            moreover have "Suc p + ?m + (cp_end - nxt) + 2 \<le> length lp1" if "nxt < cp_end" using that c(4) room(2) comp(1) m k(2) d(2) by linarith
            ultimately show ?thesis using kl m small d(2) by (simp add: room_def)
          qed
          have kp: "ok \<and> ?m = length ?name \<longrightarrow> path_at (lp1[p := CHR ''/'']) ps (Suc p + ?m)"
          proof
            assume a: "ok \<and> ?m = length ?name"
            then have "takeWhile (\<lambda>c. c \<noteq> NUL \<and> c \<noteq> CHR ''/'') ?name = ?name" by (metis takeWhile_eq_take take_all order_refl)
            then have "\<forall>c\<in>set ?name. c \<noteq> NUL \<and> c \<noteq> CHR ''/''" by (simp add: takeWhile_eq_all_conv)
            moreover have "?name \<noteq> []" using nl(1) k(1) by (metis length_0_conv less_irrefl)
            ultimately have comp: "comp_ok ?name" using down unfolding comp_ok_def by blast
            have "?m = ?k" using a nl(1) by metis
            moreover have "path_at lp ps p" using a less.prems(4) by blast
            moreover have "Suc p + ?k < length lp" using kl d(2) by simp
            ultimately show "path_at (lp1[p := CHR ''/'']) ps (Suc p + ?m)" using path_step [OF _ d(3,2) k(1) _ refl comp k(3)] by metis
          qed
          have "ps \<le> Suc p + ?m" "0 < nxt" "take ps (lp1[p := CHR ''/'']) = take ps lp" using less.prems(2) c(3) tk by simp_all
          with less.hyps [OF smaller r _ _ kp, of ?ex] show ?thesis
            unfolding step if_not_P [OF down(1)] if_not_P [OF down(2)] po bindE.simps Let_def by metis
        qed
      qed
    qed
  qed
qed


subsection \<open>The local path\<close>

definition root_of :: "char list \<Rightarrow> char list" where
  \<comment> \<open>the root without the slash at its end\<close>
  "root_of root = (if last root = CHR ''/'' then butlast root else root)"

lemma header_total:
  assumes "headers_ok e hm" and "e \<le> length mem"
  shows "\<exists>r. mg_get_http_header mem hm name = Inr r"
proof -
  have "\<forall>(k, v)\<in>set hs. slice_in e k \<Longrightarrow> \<exists>r. find_header mem name hs = Inr r" for hs
  proof (induction hs)
    case (Cons h hs)
    obtain k v where h: "h = (k, v)" by (cases h)
    have "\<exists>d. mg_ncasecmp (drop (fst k) mem) name (length name) = Inr d" if "snd k = length name"
      using Cons.prems that assms(2) by (intro ncasecmp_total) (auto simp: h slice_in_def)
    then show ?case using Cons by (auto simp: h)
  qed simp
  moreover have "\<forall>(k, v)\<in>set (headers hm). slice_in e k" using assms(1) by (auto simp: headers_ok_def)
  ultimately show ?thesis unfolding mg_get_http_header_def by blast
qed

lemma c_path_at: "NUL \<notin> set (take p lp) \<Longrightarrow> p < length lp \<Longrightarrow> lp ! p = NUL \<Longrightarrow> c_path lp = Inr (take p lp)"
proof -
  assume a: "NUL \<notin> set (take p lp)" "p < length lp" "lp ! p = NUL"
  then have "lp = take p lp @ NUL # drop (Suc p) lp" by (metis id_take_nth_drop)
  moreover have "takeWhile (\<lambda>c. c \<noteq> NUL) (take p lp @ NUL # drop (Suc p) lp) = take p lp" using a(1) by (subst takeWhile_append2) auto
  ultimately have "takeWhile (\<lambda>c. c \<noteq> NUL) lp = take p lp" by metis
  moreover have "NUL \<in> set lp" using a(2,3) by (metis nth_mem)
  ultimately show ?thesis by (simp add: c_path_def)
qed

lemma local_path_below:
  assumes "fst (uri hm) + snd (uri hm) \<le> length mem" and "length mem < 2 ^ 31" and "headers_ok e hm" and "e \<le> length mem"
    and "document_root opts = Some root" and "root \<noteq> []" and "NUL \<notin> set root" and "url_rewrites opts = None"
    and "length root + snd (uri hm) + 1 < 2 ^ 31"
  shows "\<exists>r. mg_uri_to_local_path fsys mal mem hm opts = Inr r \<and> (\<forall>path info. r = Some (path, info) \<longrightarrow> below (root_of root) path)"
proof -
  obtain hh where hh: "mg_get_http_header mem hm ''Host'' = Inr hh" using header_total [OF assms(3,4)] by blast
  have rw: "find_rewrite mem (uri hm) hh [] = Inr (None, fst (uri hm))" by (subst find_rewrite.simps) (simp add: mg_next_comma_list_entry_def)
  let ?size = "length root + snd (uri hm) + 1" and ?e = "fst (uri hm) + snd (uri hm)"
  let ?p = "length (root_of root)"
  have p: "(if last root = CHR ''/'' then length root - 1 else length root) = ?p" by (simp add: root_of_def)
  have root: "root_of root = take ?p root" "?p \<le> length root" using assms(6) by (simp_all add: root_of_def butlast_conv_take)
  show ?thesis
  proof (cases "mal ?size")
    case None
    then show ?thesis by (simp add: mg_uri_to_local_path_def hh assms(5,6,8) rw)
  next
    case (Some blk)
    let ?lp = "root @ drop (length root) (map blk [0..<?size])"
    have po: "poke (map blk [0..<?size]) 0 root = Inr ?lp" by (simp add: poke_def)
    have len: "length ?lp = ?size" by simp
    have po2: "poke ?lp ?p [NUL] = Inr (?lp[?p := NUL])" using root(2) len by (intro poke_one) linarith
    let ?lq = "?lp[?p := NUL]"
    have tk: "take ?p ?lq = root_of root" using root by simp
    have l: "length ?lq = ?size" using len by simp
    have at: "path_at ?lq ?p ?p"
      using root(2) l by (auto simp: path_at_def tk below_def nth_list_update intro: exI [of _ "[]"] simp del: length_append)
    have "room ?e ?lq (fst (uri hm) + 1) ?p"
      using root(2) l assms(9) by (auto simp: room_def set_update_memI simp del: length_append)
    from build_path_total [OF assms(1,2) this order_refl _, of True fsys True] at obtain lp u ok where
      b: "build_path fsys mem ?e ?p ?lq (fst (uri hm) + 1) ?p True True = Inr (lp, u, ok)" "take ?p lp = take ?p ?lq"
        "ok \<longrightarrow> (\<exists>p'. path_at lp ?p p')" by auto
    have start: "mg_uri_to_local_path fsys mal mem hm opts =
        (if ok then let u = (if u > ?e then ?e else u) in bindE (c_path lp) (\<lambda>s. Inr (Some (s, (u, ?e - u)))) else Inr None)"
      unfolding mg_uri_to_local_path_def hh bindE.simps assms(5,8) option.case rw prod.case Let_def if_not_P [OF assms(6)] Some po p po2 b(1) ..
    show ?thesis
    proof (cases ok)
      case True
      then obtain p' where p': "path_at lp ?p p'" using b(3) by blast
      then have q: "below (root_of root) (take p' lp)" "p' < length lp" "lp ! p' = NUL" using b(2) tk by (auto simp: path_at_def)
      have "NUL \<notin> set (root_of root)" using assms(7) root(1) by (metis in_set_takeD)
      then have "c_path lp = Inr (take p' lp)" using below_no_nul [OF q(1)] q(2,3) by (intro c_path_at) auto
      then show ?thesis using q(1) by (simp add: start True Let_def)
    qed (simp add: start)
  qed
qed


subsection \<open>The answer\<close>

lemma next_entry_rest:
  assumes "mg_next_comma_list_entry l = Some (rest, y)"
  shows "rest = drop (Suc (length (takeWhile (\<lambda>c. c \<noteq> CHR '','') l))) l"
proof -
  have "map_option fst (mg_next_comma_list_entry l) = (if l = [] then None else Some (drop (Suc (length (takeWhile (\<lambda>c. c \<noteq> CHR '','') l))) l))"
    by (simp add: mg_next_comma_list_entry_def Let_def)
  with assms show ?thesis by (simp split: if_splits)
qed

function plain_names :: "char list \<Rightarrow> bool" where
  \<comment> \<open>the entries of the list are names of files\<close>
  "plain_names l \<longleftrightarrow>
     (if l = [] then True
      else comp_ok (takeWhile (\<lambda>c. c \<noteq> CHR '','') l) \<and> plain_names (drop (Suc (length (takeWhile (\<lambda>c. c \<noteq> CHR '','') l))) l))"
  by pat_completeness auto
termination by (relation "measure length") auto

declare plain_names.simps [simp del]

lemma index_file_found:
  "mg_find_index_file env path l = Some file \<Longrightarrow> plain_names l \<Longrightarrow>
   \<exists>f. file = path @ CHR ''/'' # f \<and> comp_ok f \<and> se_fs env file = Some Regular"
proof (induction env path l rule: mg_find_index_file.induct)
  case (1 env path l)
  show ?case
  proof (cases "mg_next_comma_list_entry l")
    case None
    then show ?thesis using "1.prems" by (subst (asm) mg_find_index_file.simps) simp
  next
    case (Some x)
    obtain rest y where x: "x = (rest, y)" by (cases x)
    let ?vec = "takeWhile (\<lambda>c. c \<noteq> CHR '','') l"
    have rest: "rest = drop (Suc (length ?vec)) l" by (rule next_entry_rest [OF Some [unfolded x]])
    have "l \<noteq> []" using Some by (auto simp: mg_next_comma_list_entry_def)
    then have plain: "comp_ok ?vec" "plain_names rest" using "1.prems"(2) unfolding rest by (subst (asm) plain_names.simps, simp)+
    have step: "mg_find_index_file env path l =
        (if se_mal env (length path + 1 + length ?vec + 1) = None then None
         else if se_fs env (path @ ''/'' @ ?vec) = Some Regular then Some (path @ ''/'' @ ?vec) else mg_find_index_file env path rest)"
      by (subst mg_find_index_file.simps) (simp only: Some x option.case prod.case Let_def)
    show ?thesis
    proof (cases "se_fs env (path @ ''/'' @ ?vec) = Some Regular")
      case True
      have "file = path @ ''/'' @ ?vec" using "1.prems"(1) True unfolding step by (simp split: if_splits)
      then show ?thesis using True plain(1) by auto
    next
      case False
      have m: "se_mal env (length path + 1 + length ?vec + 1) \<noteq> None" "mg_find_index_file env path rest = Some file"
        using "1.prems"(1) False unfolding step by (simp_all split: if_splits)
      show ?thesis by (rule "1.IH" [OF Some x [symmetric] refl refl m(1) False m(2) plain(2)])
    qed
  qed
qed

definition answer_file :: "answer \<Rightarrow> char list option" where
  \<comment> \<open>what the answer takes from the file system\<close>
  "answer_file ans =
     (case ans of Served f \<Rightarrow> Some f | ServedSsi f \<Rightarrow> Some f | RunCgi f _ \<Rightarrow> Some f | Listing d \<Rightarrow> Some d | _ \<Rightarrow> None)"

lemma answer_file_simps [simp]:
  "answer_file (Error n) = None" "answer_file (Moved u) = None" "answer_file AskPassword = None" "answer_file ServerOptions = None"
  "answer_file (Served f) = Some f" "answer_file (ServedSsi f) = Some f" "answer_file (RunCgi f v) = Some f" "answer_file (Listing f) = Some f"
  by (simp_all add: answer_file_def)

lemma file_answer:
  assumes "fst (uri hm) + snd (uri hm) \<le> length mem" and "0 < snd (uri hm)" and "index_files opts = Some names" and "plain_names names"
    and "below root path"
  shows "\<exists>ans. mg_send_http_file env mem path info hm opts = Inr ans \<and> (\<forall>file. answer_file ans = Some file \<longrightarrow> below root file)"
proof -
  have pk: "peek mem (fst (uri hm) + snd (uri hm) - 1) = Inr (mem ! (fst (uri hm) + snd (uri hm) - 1))" using assms(1,2) by (simp add: peek_def)
  have serve: "answer_file (mg_http_serve_file2 f opts) = Some f" for f
    by (simp add: mg_http_serve_file2_def split: option.split)
  obtain i where i: "i = (if se_fs env path = Some Directory then mg_find_index_file env path names else None)" by simp
  let ?f = "case i of Some f \<Rightarrow> f | None \<Rightarrow> path"
  have f: "below root ?f"
  proof (cases i)
    case (Some f)
    then have "mg_find_index_file env path names = Some f" by (simp add: i split: if_splits)
    from index_file_found [OF this assms(4)] below_add [OF assms(5)] show ?thesis using Some by auto
  qed (use assms(5) in simp)
  have "\<exists>ans. mg_send_http_file env mem path info hm opts = Inr ans \<and> answer_file ans \<in> {None, Some path, Some ?f}"
    unfolding mg_send_http_file_def Let_def pk bindE.simps assms(3) option.case i [symmetric]
    by (simp add: serve split: if_split)
  then show ?thesis using f assms(5) by auto
qed

lemma normalize_total:
  assumes "fst u + snd u \<le> length mem" and "length mem < 2 ^ 31"
  shows "\<exists>r mem' n. mg_normalize_uri_path mem u (fst u) = Inr (r, mem', n) \<and> (r \<noteq> 0 \<longrightarrow> length mem' = length mem \<and> n \<le> snd u \<and> 0 < n)"
proof (cases "snd u > 0 \<and> mem ! fst u = CHR ''/''")
  case True
  have p: "hd (str_bytes mem u) = CHR ''/''" "str_bytes mem u \<noteq> []" using True assms(1) by (auto simp: str_bytes_def hd_drop_conv_nth)
  have "\<exists>mem'. mg_normalize_uri_path mem u (fst u) = Inr (1, mem', length (resolve (str_bytes mem u))) \<and> length mem' = length mem \<and>
      length (resolve (str_bytes mem u)) \<le> snd u"
    using normalize_resolves [OF assms refl p(2,1), of "fst u"] by blast
  then show ?thesis using resolve_hd [OF p(2,1)] by auto
next
  case False
  have "mg_normalize_uri_path mem u (fst u) = Inr (0, mem, 0)"
    using False assms(1) by (auto simp: mg_normalize_uri_path_def peek_def)
  then show ?thesis by simp
qed

text \<open>
  C16. Whatever bytes a client sends as a request, percent signs, dots and slashes in any arrangement, the server reads
  and writes only its buffers when it chooses the answer, and what the answer takes from the file system lies below the
  document root: the path of the file that is sent, of the program that is run as CGI or of the directory that is listed is
  the root and then names of files, none of them empty, \<open>.\<close> or \<open>..\<close>, none with a slash or a NUL in it. The entries of the
  list of index files are such names, no rewrites are configured, the root has no NUL, and the buffer and the root
  together are below 2 GB.
\<close>

theorem served_below_root:
  assumes "mg_parse_http buf (to_int32 (int (length buf))) True = Inr (n, hm)" and "0 < n"
    and "document_root opts = Some root" and "root \<noteq> []" and "NUL \<notin> set root" and "length root + length buf + 1 < 2 ^ 31"
    and "url_rewrites opts = None" and "\<forall>names. index_files opts = Some names \<longrightarrow> plain_names names"
  shows "\<exists>ans. mg_serve_http env buf hm opts = Inr ans \<and> (\<forall>file. answer_file ans = Some file \<longrightarrow> below (root_of root) file)"
proof -
  have small: "length buf < 2 ^ 31" using assms(6) by simp
  then have "mg_parse_http buf (int (length buf)) True = Inr (n, hm)" using assms(1) by (simp add: to_int32_id)
  with parse_total [of "int (length buf)" buf] assms(2) have ok: "n \<le> int (length buf)" "message_ok (nat n) hm" by auto
  then have u: "fst (uri hm) + snd (uri hm) \<le> length buf" "headers_ok (nat n) hm" by (auto simp: message_ok_def slice_in_def)
  from normalize_total [OF u(1) small] obtain r mem' k where
    r: "mg_normalize_uri_path buf (uri hm) (fst (uri hm)) = Inr (r, mem', k)" "r \<noteq> 0 \<longrightarrow> length mem' = length buf \<and> k \<le> snd (uri hm) \<and> 0 < k" by blast
  let ?opts = "opts\<lparr>document_root := set_default ''.'' (document_root opts), per_directory_auth_file := set_default ''.htpasswd'' (per_directory_auth_file opts),
    enable_directory_listing := set_default ''yes'' (enable_directory_listing opts),
    cgi_file_pattern := set_default ''**.cgi$|**.php$'' (cgi_file_pattern opts), ssi_pattern := set_default ''**.shtml$|**.shtm$'' (ssi_pattern opts),
    index_files := set_default ''index.html,index.htm,index.shtml,index.cgi,index.php'' (index_files opts)\<rparr>"
  let ?hm = "hm\<lparr>uri := (fst (uri hm), k)\<rparr>"
  have none: "handle_forwarding v [] = None" "port_redirect p [] = None" for v p
    by (subst handle_forwarding.simps port_redirect.simps, simp add: mg_next_comma_list_entry_def)+
  show ?thesis
  proof (cases "mg_check_ip_acl env (ip_acl opts) \<noteq> 1 \<or> r = 0")
    case True
    then show ?thesis using r(1) by (auto simp: mg_serve_http_def none assms(7))
  next
    case False
    then have m: "length mem' = length buf" "k \<le> snd (uri hm)" "0 < k" using r(2) by auto
    have "document_root ?opts = Some root" "url_rewrites ?opts = None" using assms(3,7) by (simp_all add: set_default_def)
    moreover have "headers_ok (nat n) ?hm" using u(2) by (simp add: headers_ok_def)
    moreover have "nat n \<le> length mem'" using ok(1) m(1) by linarith
    moreover have "fst (uri ?hm) + snd (uri ?hm) \<le> length mem'" "length mem' < 2 ^ 31" "length root + snd (uri ?hm) + 1 < 2 ^ 31"
      using m u(1) small assms(6) by simp_all
    ultimately have "\<exists>p. mg_uri_to_local_path (se_fs env) (se_mal env) mem' ?hm ?opts = Inr p \<and>
        (\<forall>path info. p = Some (path, info) \<longrightarrow> below (root_of root) path)" using assms(4,5) by (intro local_path_below) assumption+
    then obtain p where
      p: "mg_uri_to_local_path (se_fs env) (se_mal env) mem' ?hm ?opts = Inr p" "\<forall>path info. p = Some (path, info) \<longrightarrow> below (root_of root) path" by blast
    have serve: "mg_serve_http env buf hm opts =
        (case p of None \<Rightarrow> Inr (Error 404) | Some (path, info) \<Rightarrow> mg_send_http_file env mem' path info ?hm ?opts)"
      using False by (simp add: mg_serve_http_def none assms(7) r(1) p(1) Let_def)
    show ?thesis
    proof (cases p)
      case (Some x)
      obtain path info where x: "x = (path, info)" by (cases x)
      have "plain_names ''index.html,index.htm,index.shtml,index.cgi,index.php''" by code_simp
      then obtain names where names: "index_files ?opts = Some names" "plain_names names"
        using assms(8) by (cases "index_files opts") (simp_all add: set_default_def)
      have "below (root_of root) path" using p(2) Some x by blast
      with file_answer [OF _ _ names, of ?hm mem'] m u show ?thesis by (simp add: serve Some x)
    qed (simp add: serve)
  qed
qed

definition demo_site :: serve_env where
  \<comment> \<open>a directory with an index and a file of passwords\<close>
  "demo_site = \<lparr>se_fs = (\<lambda>p. if p = ''www'' then Some Directory else if p = ''www/index.html'' \<or> p = ''www/.htpasswd'' then Some Regular else None),
     se_mal = (\<lambda>_. Some (\<lambda>_. NUL)), check_digest = (\<lambda>_. None), not_modified = (\<lambda>_. False), parse_net = (\<lambda>_. None),
     local_port = ''8000'', remote_ip = 0\<rparr>"

definition demo_opts :: serve_opts where
  "demo_opts = \<lparr>document_root = Some ''www/'', index_files = Some ''index.html'', per_directory_auth_file = Some ''.htpasswd'', auth_domain = None,
     global_auth_file = None, ssi_pattern = Some ''**.shtml$'', ip_acl = None, url_rewrites = None, hidden_file_pattern = None,
     cgi_file_pattern = Some ''**.cgi$'', enable_directory_listing = None\<rparr>"

theorem served_below_root_witness:
  "\<exists>hm ans. mg_parse_http (''GET /%2e%2e/..%2fetc/ HTTP/1.1'' @ CRLF @ CRLF) 34 True = Inr (34, hm) \<and>
     mg_serve_http demo_site (''GET /%2e%2e/..%2fetc/ HTTP/1.1'' @ CRLF @ CRLF) hm demo_opts = Inr ans \<and>
     (\<forall>file. answer_file ans = Some file \<longrightarrow> below ''www'' file)"
proof -
  let ?b = "''GET /%2e%2e/..%2fetc/ HTTP/1.1'' @ CRLF @ CRLF"
  have "request_ok ''GET'' ''/%2e%2e/..%2fetc/'' ''HTTP/1.1'' []" by code_simp
  moreover have h: "request_head ''GET'' ''/%2e%2e/..%2fetc/'' ''HTTP/1.1'' [] = ?b" by code_simp
  ultimately obtain hm where "mg_parse_http (?b @ []) 34 True = Inr (34, hm)"
    using parse_request [of "''GET''" "''/%2e%2e/..%2fetc/''" "''HTTP/1.1''" "[]"] unfolding h by fastforce
  then have hm: "mg_parse_http ?b 34 True = Inr (34, hm)" by simp
  moreover have "to_int32 (int (length ?b)) = 34" by code_simp
  ultimately have "mg_parse_http ?b (to_int32 (int (length ?b))) True = Inr (34, hm)" by (simp only:)
  moreover have "plain_names ''index.html''" by code_simp
  then have "\<forall>names. index_files demo_opts = Some names \<longrightarrow> plain_names names" by (simp add: demo_opts_def)
  moreover have "(0 :: int) < 34" "length ''www/'' + length ?b + 1 < 2 ^ 31" "document_root demo_opts = Some ''www/''" "''www/'' \<noteq> []" "NUL \<notin> set ''www/''"
    "url_rewrites demo_opts = None" by (simp_all add: demo_opts_def)
  ultimately have "\<exists>ans. mg_serve_http demo_site ?b hm demo_opts = Inr ans \<and> (\<forall>file. answer_file ans = Some file \<longrightarrow> below (root_of ''www/'') file)"
    by (intro served_below_root)
  moreover have "root_of ''www/'' = ''www''" by (simp add: root_of_def)
  ultimately show ?thesis using hm by auto
qed

text \<open>
  C17. A regular file that is hidden, such as the file of passwords, is answered with 404, but not when the method of the
  request is PUT or MKCOL: the exception for requests that create files, which are not built in, lets them through to
  the code that serves the file. This is so when the file is not a CGI program, the URI has nothing behind it, no
  authentication is configured and the file was modified since the time in the request.
\<close>

theorem put_reads_hidden_file:
  assumes "fst (uri hm) + snd (uri hm) \<le> length mem" and "0 < snd (uri hm)" and "length (str_bytes mem (meth hm)) < 2 ^ 31"
    and "se_fs env path = Some Regular" and "mg_is_file_hidden path opts False" and "auth_domain opts = None" and "snd info = 0"
    and "cgi_file_pattern opts = Some p" and "mg_match_prefix p path = 0" and "\<not> not_modified env path"
  shows "mg_send_http_file env mem path info hm opts =
    Inr (if str_bytes mem (meth hm) \<in> {''PUT'', ''MKCOL''} then mg_http_serve_file2 path opts else Error 404)"
proof -
  have pk: "peek mem (fst (uri hm) + snd (uri hm) - 1) = Inr (mem ! (fst (uri hm) + snd (uri hm) - 1))" using assms(1,2) by (simp add: peek_def)
  have v: "mg_vcmp (str_bytes mem (meth hm)) ''PUT'' = 0 \<longleftrightarrow> str_bytes mem (meth hm) = ''PUT''"
    "mg_vcmp (str_bytes mem (meth hm)) ''MKCOL'' = 0 \<longleftrightarrow> str_bytes mem (meth hm) = ''MKCOL''"
    "mg_vcmp (str_bytes mem (meth hm)) ''OPTIONS'' = 0 \<longleftrightarrow> str_bytes mem (meth hm) = ''OPTIONS''"
    using assms(3) by (intro mg_vcmp_eq; simp)+
  show ?thesis unfolding mg_send_http_file_def Let_def pk bindE.simps mg_is_creation_request_def v
    using assms(4-10) by (auto simp: mg_http_is_authorized_def)
qed

theorem put_reads_hidden_file_witness:
  "mg_send_http_file demo_site ''PUT /.htpasswd HTTP/1.1'' ''www/.htpasswd'' (14, 0) (empty_message\<lparr>meth := (0, 3), uri := (4, 10)\<rparr>) demo_opts =
     Inr (Served ''www/.htpasswd'')"
proof -
  let ?m = "''PUT /.htpasswd HTTP/1.1''" and ?hm = "empty_message\<lparr>meth := (0, 3), uri := (4, 10)\<rparr>"
  have h: "mg_is_file_hidden ''www/.htpasswd'' demo_opts False" "mg_match_prefix ''**.cgi$'' ''www/.htpasswd'' = 0"
    "mg_http_serve_file2 ''www/.htpasswd'' demo_opts = Served ''www/.htpasswd''" by code_simp+
  have m: "str_bytes ?m (meth ?hm) = ''PUT''" by (simp add: str_bytes_def)
  have "mg_send_http_file demo_site ?m ''www/.htpasswd'' (14, 0) ?hm demo_opts =
      Inr (if str_bytes ?m (meth ?hm) \<in> {''PUT'', ''MKCOL''} then mg_http_serve_file2 ''www/.htpasswd'' demo_opts else Error 404)"
    by (rule put_reads_hidden_file [where p = "''**.cgi$''"]) (use h m in \<open>simp_all add: demo_site_def demo_opts_def\<close>)
  then show ?thesis unfolding m h by simp
qed

end
