(* ===== verification/Spec2Isabelle.thy ===== *)
theory Spec2Isabelle
  imports AsyncProps PsiSpec HttpChunked ServeSpec
begin

section \<open>ads-diary: a replicated diary server and the libraries under it\<close>

text \<open>
  The repository is a web server for diaries, \<open>src/mongoose/server.cpp\<close>. It runs at two sites. Each site
  has its own Redis server; what a site commits it sends to the other, which applies it (parallel
  snapshot isolation). The server talks to Redis through the C client \<open>hiredis\<close>
  (\<open>src/hiredis\<close>) and to browsers through the C library Mongoose (\<open>src/mongoose\<close>). All of
  \<open>hiredis\<close>, the logic of the server, and the way of a request through the HTTP layer of Mongoose, from the received
  bytes to the handler, the form or the file, are modelled. The development is layered as the code is.

  \<^bold>\<open>Foundations.\<close> \<open>Prelude\<close>: bytes are \<^typ>\<open>char\<close>; an operation that may read or write outside its
  memory returns a failure (\<open>Inl\<close>) or a value (\<open>Inr\<close>), sequenced by \<open>bindE\<close>; machine integers are written
  as integers with \<open>to_int32\<close>, \<open>to_int64\<close>, \<open>wrap64\<close> where the code converts or wraps. A result of type
  option is None when a loop never ends.

  \<^bold>\<open>Strings\<close> (\<open>sds.c\<close>): \<open>Sds\<close> (the header and the memory block of a string, growing, appending),
  \<open>SdsFmt\<close> (printing numbers, \<open>sdscatvprintf\<close>, \<open>sdscatfmt\<close>), \<open>SdsOps\<close> (slicing, trimming, splitting,
  quoting). \<open>SdsSpec\<close> shows that any run of operations on a well-formed string stays in its memory
  and implements the same run on byte lists, and what the single operations compute.

  \<^bold>\<open>Reading replies\<close> (\<open>read.c\<close>): \<open>Reader\<close> is the incremental parser over arbitrary reply object
  functions; \<open>ReaderSafe\<close> states what it relies on as the locale \<open>reply_functions\<close> and shows that it stays inside its
  buffer, its task stack and the arrays it fills; \<open>ReaderIncr\<close> shows that the input may come in any
  pieces. \<open>Reply\<close> holds the default functions of \<open>hiredis.c\<close>, on a store in which every use after free is a failure,
  and interprets the locale. \<open>Resp\<close> is the grammar of the protocol and shows that the reader inverts it.
  \<open>ReaderSpec\<close> has the client's view: the states that any sequence of feeding, reading and freeing reaches.

  \<^bold>\<open>Writing commands\<close> (\<open>hiredis.c\<close>): \<open>Command\<close> holds \<open>redisvFormatCommand\<close> and the functions for argument
  vectors, the language of formats they accept, and the round trip through the reader. What
  \<open>vsnprintf\<close> prints is a parameter, variadic arguments are a list of typed values.

  \<^bold>\<open>Connections\<close> (\<open>net.c\<close>, \<open>hiredis.c\<close>): \<open>Net\<close> connects over a parameter that answers every system call, given
  the calls before it, and logs them, so that leaks of descriptors can be read off the log; \<open>Conn\<close> is the
  blocking context. \<open>Delivery\<close> and \<open>ConnSpec\<close> show that pipelined commands and replies arrive
  complete and in order for every way in which the system cuts them, that descriptors are closed once, and that a failed
  connection is silent.

  \<^bold>\<open>Asynchronous connections\<close> (\<open>dict.c\<close>, \<open>async.c\<close>): \<open>Dict\<close> is the hash table, with the locale
  \<open>dict_type\<close> for the functions of a table, refined to finite maps. \<open>Async\<close> is \<open>async.c\<close>; a user's
  callback is a parameter that chooses calls of the interface, a context that was freed is None. \<open>AsyncSpec\<close> states
  the lists of callbacks as the locale \<open>fifo\<close> and interprets it and \<open>dict_type\<close>; \<open>AsyncProps\<close> shows that each
  callback runs once, in order, also when the connection ends.

  \<^bold>\<open>Requests\<close> (Mongoose: \<open>mg_http.c\<close>, \<open>mg_uri.c\<close>, \<open>mg_util.c\<close>, \<open>mongoose.c\<close>): \<open>Mbuf\<close> is the buffer that received bytes are
  collected in, refined to byte lists. \<open>HttpMsg\<close> parses heads and collects bodies, plain and chunked, over such a buffer,
  with the state that a connection keeps; positions in the buffer stand for pointers, and reading outside
  the received bytes is a failure. \<open>HttpSpec\<close> shows that a request that arrives in any pieces is parsed once,
  as what was sent, up to the 2 GB that the \<open>int\<close> of the parser can count, \<open>HttpChunked\<close> the same of chunked bodies, and \<open>HttpSafe\<close> that no input makes the parser leave
  the buffer. \<open>Http\<close> decodes form variables and writes chunks of an answer. \<open>Uri\<close> normalises paths, in place,
  against a resolution of dots on lists of names. \<open>Serve\<close> chooses the file or the error that answers a request
  outside the interface of the diary, or that a CGI program or a listing does; the file system is a parameter. \<open>ServeSpec\<close> shows that no request leaves the document root.

  \<^bold>\<open>The diary server\<close> (\<open>server.cpp\<close>, \<open>object.hpp\<close>): \<open>Diary\<close> holds every handler, both commits and the
  replicater, each as a tree of atomic actions: one Redis command, one access to \<open>committedVTS\<close> under
  \<open>vts_lock\<close>, one append to \<open>msg_list\<close> under \<open>mutex\<close>. \<open>Psi\<close> is the step relation of the four threads of the two
  sites, interleaved in every way, with Redis as a parameter that satisfies \<open>redis_ok\<close>, its documentation:
  a command that fails with the connection may or may not have taken effect. The main thread and the replicater of a site
  use one \<open>redisContext\<close> without a lock, which hiredis does not allow: \<open>shared_step\<close> takes the calls apart, and once two
  overlap everything is possible. Such a race is reachable (\<open>shared_connection_races\<close>); what is proved of the two sites holds of
  the runs before the first one, which are runs of \<open>psi_step\<close>, where a command is one action. \<open>PsiProps\<close> shows that all programs
  keep the discipline of the locks and that mutual exclusion follows; \<open>PsiRepl\<close> accounts for every
  appended version until the other site has it; \<open>PsiSpec\<close> has the theorems on requests, locks and
  convergence, and a Redis in memory for which the hypotheses hold.
\<close>

subsection \<open>Bounds and fuel\<close>

text \<open>
  Loops that the code bounds are recursion on what bounds them. The loops of the blocking and the
  asynchronous connection that only the system or the user ends are \<open>partial_function (option)\<close>; the theorems on
  delivery and on freeing a context show that they return. The loop of \<open>sdscatvprintf\<close> doubles its buffer
  until the text fits, which is its measure. Sizes are those of a 64-bit machine with an \<open>int\<close> of 32 bits; string
  lengths that the code keeps in an \<open>int\<close> are converted where it does. The constants of Mongoose are those that \<open>mongoose.h\<close> sets for Unix (40 headers, 8192 bytes
  for the head of a request, CGI and listings of directories built in), with the options of the server's Makefile (no WebSocket).
\<close>

subsection \<open>Not modelled\<close>

text \<open>
  Redis itself, the message sockets (zmq) and the JSON library \<open>json.hpp\<close> are parameters. The start-up of
  the server (options, connecting, test data) is left out, and so is its output on the console. Of Mongoose,
  the event loop, the sockets, sending an opened file, running a CGI program, writing the page of a listing, SSI, the other protocols (WebSocket is switched off in the build of
  the server) and the parts that the build leaves out (WebDAV, streamed multipart bodies) are not modelled; the digest of a password and
  the test of a file's time are parameters of \<open>Serve\<close>. The headers of \<open>hiredis\<close> for
  event libraries, its examples and tests, and the pages for the browser hold no logic of the
  server. Memory that is released without being used again has no counterpart except for replies, callbacks and
  descriptors.
\<close>

end
